(* ===== verification/Cfg_Prelude.thy ===== *)
theory Cfg_Prelude
  imports Main "HOL-Library.Monad_Syntax" "HOL-Library.Multiset" "HOL-Library.Word"
begin

text \<open>
  Shared vocabulary of the development.
  \<^item> \<open>error_code\<close>, \<open>error\<close> and \<open>fail\<close> are \<open>include/configmanager/result.hpp\<close>: a
    \<open>Result<T>\<close> is \<open>error + 'a\<close>, \<open>Inl\<close> the error.
  \<^item> An outer \<open>option\<close> is control flow that never reaches the caller: \<open>None\<close> stands for an
    access the C++ asserts against (undefined behaviour in a release build), for recursion past
    the stack budget, and for a rethrown \<open>std::bad_alloc\<close>.
  \<^item> \<open>nat_str\<close> is \<open>std::to_string\<close> of an unsigned value, \<open>digits_val\<close> the value
    \<open>std::from_chars\<close> computes of a run of decimal digits.
  \<^item> \<open>upsert\<close> is the replace-or-append update of an insertion-ordered member list.
\<close>

section \<open>Theorem collections\<close>

named_theorems res_simps "simplification of results"
named_theorems mset_ids "multiset of slot ids of a tree or forest"
named_theorems node_simps "fields of arena nodes after an update"

section \<open>Errors and results\<close>

datatype error_code =
    InvalidPath | NodeNotFound | InvalidType | ParseError | SerializationError
  | MigrationFailed | MissingMigration | InvalidVersion | StorageError

record error =
  err_code :: error_code
  err_message :: string

definition fail :: "error_code \<Rightarrow> string \<Rightarrow> error + 'a" where
  "fail c m = Inl \<lparr>err_code = c, err_message = m\<rparr>"

definition has_code :: "error + 'a \<Rightarrow> error_code \<Rightarrow> bool" where
  "has_code r c = (case r of Inl e \<Rightarrow> err_code e = c | Inr _ \<Rightarrow> False)"

lemma has_code_simps [simp, res_simps]:
  "has_code (fail c m) d \<longleftrightarrow> c = d" "\<not> has_code (Inr x) d" "has_code (Inl e) d \<longleftrightarrow> err_code e = d"
  by (auto simp: has_code_def fail_def)

lemma fail_neq_Inr [simp, res_simps]: "fail c m \<noteq> Inr x" "Inr x \<noteq> fail c m"
  by (auto simp: fail_def)

lemma isl_fail [simp, res_simps]: "isl (fail c m)"
  by (simp add: fail_def)

lemma case_fail [simp, res_simps]:
  "(case fail c m of Inl e \<Rightarrow> f e | Inr x \<Rightarrow> g x) = f \<lparr>err_code = c, err_message = m\<rparr>"
  by (simp add: fail_def)

lemma fail_inject [simp]: "fail c m = fail c' m' \<longleftrightarrow> c = c' \<and> m = m'"
  by (simp add: fail_def)

lemma map_sum_fail [simp, res_simps]: "map_sum id f (fail c m) = fail c m" "map_sum (\<lambda>e. e) f (fail c m) = fail c m"
  by (simp_all add: fail_def)

lemma Inl_fold_fail [simp]: "Inl \<lparr>err_code = c, err_message = m\<rparr> = fail c m"
  by (simp add: fail_def)

section \<open>Decimal text\<close>

definition is_digit :: "char \<Rightarrow> bool" where
  "is_digit c \<longleftrightarrow> 48 \<le> (of_char c :: nat) \<and> (of_char c :: nat) \<le> 57"

definition digit_val :: "char \<Rightarrow> nat" where
  "digit_val c = of_char c - 48"

definition digits_val :: "string \<Rightarrow> nat" where
  "digits_val cs = foldl (\<lambda>acc c. 10 * acc + digit_val c) 0 cs"

fun nat_str :: "nat \<Rightarrow> string" where
  "nat_str n = (if n < 10 then [char_of (48 + n)] else nat_str (n div 10) @ [char_of (48 + n mod 10)])"

declare nat_str.simps [simp del]

lemma of_char_digit [simp]: "n < 10 \<Longrightarrow> (of_char (char_of (48 + n) :: char) :: nat) = 48 + n"
  by simp

lemma digits_val_snoc: "digits_val (cs @ [c]) = 10 * digits_val cs + digit_val c"
  by (simp add: digits_val_def)

lemma nat_str_nonempty [simp]: "nat_str n \<noteq> []"
  by (subst nat_str.simps) simp

lemma nat_str_digits: "c \<in> set (nat_str n) \<Longrightarrow> is_digit c"
proof (induction n rule: nat_str.induct)
  case (1 n)
  have last: "is_digit (char_of (48 + n mod 10))" and small: "n < 10 \<Longrightarrow> is_digit (char_of (48 + n))"
    by (simp_all add: is_digit_def)
  from 1 last small show ?case
    by (subst (asm) nat_str.simps) (auto split: if_splits)
qed

lemma digits_val_nat_str [simp]: "digits_val (nat_str n) = n"
proof (induction n rule: nat_str.induct)
  case (1 n)
  show ?case
  proof (cases "n < 10")
    case True
    then show ?thesis by (subst nat_str.simps) (simp add: digits_val_def digit_val_def)
  next
    case False
    with 1 show ?thesis
      by (subst nat_str.simps) (simp add: digits_val_snoc digit_val_def)
  qed
qed

lemma nat_str_inject: "nat_str m = nat_str n \<Longrightarrow> m = n"
  by (metis digits_val_nat_str)

section \<open>Sequencing over lists in the option monad\<close>

primrec foldM :: "('s \<Rightarrow> 'a \<Rightarrow> 's option) \<Rightarrow> 's \<Rightarrow> 'a list \<Rightarrow> 's option" where
  "foldM f s [] = Some s"
| "foldM f s (x # xs) = do { s' \<leftarrow> f s x; foldM f s' xs }"

lemma foldM_append: "foldM f s (xs @ ys) = do { s' \<leftarrow> foldM f s xs; foldM f s' ys }"
  by (induction xs arbitrary: s) (auto split: Option.bind_splits)

lemma foldM_cong [fundef_cong]:
  assumes "xs = ys" and "s = t" and "\<And>x a. x \<in> set ys \<Longrightarrow> f a x = g a x"
  shows "foldM f s xs = foldM g t ys"
  using assms by (induction ys arbitrary: s t xs) (auto split: Option.bind_splits)

section \<open>Insertion-ordered member lists\<close>

text \<open>
  \<open>upsert\<close> replaces the first member with the key in place, or appends: the member order of
  \<open>ConfigValue\<close> objects and of model objects (ADR-022).
\<close>

fun upsert :: "'k \<Rightarrow> 'v \<Rightarrow> ('k \<times> 'v) list \<Rightarrow> ('k \<times> 'v) list" where
  "upsert k v [] = [(k, v)]"
| "upsert k v ((k', v') # ms) = (if k' = k then (k, v) # ms else (k', v') # upsert k v ms)"

fun delete_key :: "'k \<Rightarrow> ('k \<times> 'v) list \<Rightarrow> ('k \<times> 'v) list" where
  "delete_key k [] = []"
| "delete_key k ((k', v') # ms) = (if k' = k then ms else (k', v') # delete_key k ms)"

lemma map_of_upsert: "map_of (upsert k v ms) = (map_of ms)(k \<mapsto> v)"
  by (induction k v ms rule: upsert.induct) auto

lemma upsert_fresh: "k \<notin> fst ` set ms \<Longrightarrow> upsert k v ms = ms @ [(k, v)]"
  by (induction k v ms rule: upsert.induct) auto

lemma keys_upsert:
  "map fst (upsert k v ms) = (if k \<in> fst ` set ms then map fst ms else map fst ms @ [k])"
  by (induction k v ms rule: upsert.induct) auto

lemma distinct_keys_upsert:
  "distinct (map fst ms) \<Longrightarrow> distinct (map fst (upsert k v ms))"
  by (auto simp: keys_upsert)

lemma set_upsert_subset: "set (upsert k v ms) \<subseteq> insert (k, v) (set ms)"
  by (induction k v ms rule: upsert.induct) auto

lemma delete_key_fresh: "k \<notin> fst ` set ms \<Longrightarrow> delete_key k ms = ms"
  by (induction k ms rule: delete_key.induct) auto

lemma map_of_delete_key:
  "distinct (map fst ms) \<Longrightarrow> map_of (delete_key k ms) = (map_of ms)(k := None)"
proof (induction k ms rule: delete_key.induct)
  case (2 k k' v' ms)
  then show ?case by (auto simp: fun_eq_iff map_of_eq_None_iff[THEN iffD2])
qed auto

lemma set_delete_key_subset: "set (delete_key k ms) \<subseteq> set ms"
  by (induction k ms rule: delete_key.induct) auto

lemma distinct_keys_delete:
  "distinct (map fst ms) \<Longrightarrow> distinct (map fst (delete_key k ms))"
proof (induction k ms rule: delete_key.induct)
  case (2 k k' v' ms)
  then show ?case using set_delete_key_subset[of k ms] by (auto simp: image_iff)
qed auto

lemma map_of_map_snd: "map_of (map (\<lambda>(k, x). (k, f x)) ms) k = map_option f (map_of ms k)"
  by (induction ms) auto

lemma upsert_map_snd:
  "upsert k (f v) (map (\<lambda>(k, x). (k, f x)) ms) = map (\<lambda>(k, x). (k, f x)) (upsert k v ms)"
  by (induction k v ms rule: upsert.induct) auto

lemma delete_key_map_snd:
  "delete_key k (map (\<lambda>(k, x). (k, f x)) ms) = map (\<lambda>(k, x). (k, f x)) (delete_key k ms)"
  by (induction k ms rule: delete_key.induct) auto

end
