(* ===== verification/Config_Path.thy ===== *)
theory Config_Path
  imports Cfg_Prelude
begin

text \<open>
  The path grammar, \<open>include/configmanager/config_path.hpp\<close> and \<open>src/config_path.cpp\<close>.
  \<open>cp_parse\<close> is \<open>ConfigPath::parse\<close>: the outer \<open>while (true)\<close> is \<open>parse_segments\<close>, the inner
  index loop \<open>parse_indices\<close>; each carries the offset \<open>pos\<close> (used in messages), the unread
  suffix of the text and the segments pushed so far. \<open>std::size_t\<close> is 64 bits wide, so an
  index of \<open>2 ^ 64\<close> or more is the overflow \<open>std::from_chars\<close> reports.
  The inductive predicates \<open>g_indices\<close>, \<open>g_segment\<close>, \<open>g_path\<close> are the grammar of the header
  comment; the main lemma is that the parser accepts exactly that grammar.
\<close>

section \<open>Segments\<close>

datatype path_segment = Key string | Index nat

definition is_reserved :: "char \<Rightarrow> bool" where
  "is_reserved c \<longleftrightarrow> c = CHR ''.'' \<or> c = CHR ''['' \<or> c = CHR '']''"

definition squote :: string where "squote = [CHR 0x27]"
definition dquote :: string where "dquote = [CHR 0x22]"

definition quoted :: "string \<Rightarrow> string" where
  "quoted input = dquote @ input @ dquote"

definition size_t_max :: nat where "size_t_max = 2 ^ 64 - 1"

lemma digit_not_reserved: "is_digit c \<Longrightarrow> \<not> is_reserved c"
  by (auto simp: is_digit_def is_reserved_def)

section \<open>The parser\<close>

function parse_indices ::
    "string \<Rightarrow> nat \<Rightarrow> string \<Rightarrow> path_segment list \<Rightarrow> error + (nat \<times> string \<times> path_segment list)" where
  "parse_indices input pos rest acc = (case rest of
     [] \<Rightarrow> Inr (pos, rest, acc)
   | c # cs \<Rightarrow>
       if c \<noteq> CHR ''['' then Inr (pos, rest, acc)
       else let digitsStart = pos + 1;
                ds = takeWhile is_digit cs;
                after = dropWhile is_digit cs;
                pos' = digitsStart + length ds
            in if ds = [] then
                 fail InvalidPath (''index must be decimal digits at offset '' @ nat_str digitsStart
                   @ '' in '' @ quoted input)
               else (case after of
                   [] \<Rightarrow> fail InvalidPath (''unterminated or non-decimal index at offset ''
                           @ nat_str digitsStart @ '' in '' @ quoted input)
                 | d # after' \<Rightarrow>
                     if d \<noteq> CHR '']'' then
                       fail InvalidPath (''unterminated or non-decimal index at offset ''
                           @ nat_str digitsStart @ '' in '' @ quoted input)
                     else if digits_val ds > size_t_max then
                       fail InvalidPath (''index overflows std::size_t in '' @ quoted input)
                     else parse_indices input (pos' + 1) after' (acc @ [Index (digits_val ds)])))"
  by pat_completeness auto
termination
proof (relation "measure (\<lambda>(input, pos, rest, acc). length rest)", goal_cases)
  case (2 input pos rest acc c cs x xa xb xc d after')
  then have "length (d # after') \<le> length cs" by (metis length_dropWhile_le)
  with 2 show ?case by simp
qed simp

declare parse_indices.simps [simp del]

lemma parse_indices_length:
  "parse_indices input pos rest acc = Inr (pos', rest', acc') \<Longrightarrow> length rest' \<le> length rest"
proof (induction input pos rest acc rule: parse_indices.induct)
  case (1 input pos rest acc)
  show ?case
  proof (cases rest)
    case Nil
    with 1 show ?thesis by (simp add: parse_indices.simps)
  next
    case (Cons c cs)
    have "length (dropWhile is_digit cs) \<le> length cs" by (rule length_dropWhile_le)
    with 1 Cons show ?thesis
      by (subst (asm) (2) parse_indices.simps)
        (fastforce simp: Let_def split: if_splits list.splits)
  qed
qed

function parse_segments ::
    "string \<Rightarrow> nat \<Rightarrow> string \<Rightarrow> path_segment list \<Rightarrow> error + path_segment list" where
  "parse_segments input pos rest acc =
     (let key = takeWhile (\<lambda>c. \<not> is_reserved c) rest;
          rest1 = dropWhile (\<lambda>c. \<not> is_reserved c) rest;
          pos1 = pos + length key
      in if key = [] then
           fail InvalidPath (''empty key at offset '' @ nat_str pos1 @ '' in '' @ quoted input)
         else (case parse_indices input pos1 rest1 (acc @ [Key key]) of
             Inl e \<Rightarrow> Inl e
           | Inr (pos2, rest2, acc2) \<Rightarrow> (case rest2 of
                 [] \<Rightarrow> Inr acc2
               | c # cs \<Rightarrow>
                   if c = CHR ''.'' then parse_segments input (pos2 + 1) cs acc2
                   else fail InvalidPath (''unexpected '' @ squote @ [c] @ squote @ '' at offset ''
                          @ nat_str pos2 @ '' in '' @ quoted input))))"
  by pat_completeness auto
termination
proof (relation "measure (\<lambda>(input, pos, rest, acc). length rest)", goal_cases)
  case (2 input pos rest acc key rest1 pos1 res pos2 res' rest2 acc2 c cs)
  then have "length (c # cs) \<le> length (dropWhile (\<lambda>c. \<not> is_reserved c) rest)"
    by (auto dest: parse_indices_length)
  also have "\<dots> \<le> length rest" by (rule length_dropWhile_le)
  finally show ?case by simp
qed simp

declare parse_segments.simps [simp del]

definition cp_parse :: "string \<Rightarrow> error + path_segment list" where
  "cp_parse input = (if input = [] then fail InvalidPath ''empty path''
     else parse_segments input 0 input [])"

section \<open>The documented grammar\<close>

inductive g_indices :: "string \<Rightarrow> path_segment list \<Rightarrow> bool" where
  g_indices_nil: "g_indices [] []"
| g_indices_cons: "ds \<noteq> [] \<Longrightarrow> (\<forall>c \<in> set ds. is_digit c) \<Longrightarrow> digits_val ds \<le> size_t_max \<Longrightarrow>
    g_indices s ixs \<Longrightarrow>
    g_indices (CHR ''['' # ds @ CHR '']'' # s) (Index (digits_val ds) # ixs)"

inductive g_segment :: "string \<Rightarrow> path_segment list \<Rightarrow> bool" where
  g_segment_intro: "key \<noteq> [] \<Longrightarrow> (\<forall>c \<in> set key. \<not> is_reserved c) \<Longrightarrow> g_indices s ixs \<Longrightarrow>
    g_segment (key @ s) (Key key # ixs)"

inductive g_path :: "string \<Rightarrow> path_segment list \<Rightarrow> bool" where
  g_path_one: "g_segment s p \<Longrightarrow> g_path s p"
| g_path_dot: "g_segment s p \<Longrightarrow> g_path t q \<Longrightarrow> g_path (s @ CHR ''.'' # t) (p @ q)"

inductive_cases g_indices_consE: "g_indices (c # cs) ixs"
inductive_simps g_indices_nil_iff [simp]: "g_indices [] ixs"
inductive_simps g_indices_nil_iff2 [simp]: "g_indices s []"

lemma takeWhile_dropWhile_stop:
  assumes "\<forall>c \<in> set xs. P c" and "ys = [] \<or> \<not> P (hd ys)"
  shows "takeWhile P (xs @ ys) = xs" "dropWhile P (xs @ ys) = ys"
  using assms by (auto simp: takeWhile_append dropWhile_append takeWhile_eq_Nil_iff dropWhile_eq_self_iff)

subsection \<open>The parser accepts the grammar\<close>

definition index_stop :: "string \<Rightarrow> bool" where
  "index_stop r \<longleftrightarrow> r = [] \<or> hd r \<noteq> CHR ''[''"

lemma parse_indices_stop: "index_stop r \<Longrightarrow> parse_indices input pos r acc = Inr (pos, r, acc)"
  by (subst parse_indices.simps) (auto simp: index_stop_def split: list.splits)

lemma parse_indices_complete:
  "g_indices s ixs \<Longrightarrow> index_stop r \<Longrightarrow>
     parse_indices input pos (s @ r) acc = Inr (pos + length s, r, acc @ ixs)"
proof (induction s ixs arbitrary: pos acc rule: g_indices.induct)
  case g_indices_nil
  then show ?case by (simp add: parse_indices_stop)
next
  case (g_indices_cons ds s ixs)
  have "\<not> is_digit CHR '']''" by (simp add: is_digit_def)
  then have tw: "takeWhile is_digit (ds @ CHR '']'' # s @ r) = ds"
    and dw: "dropWhile is_digit (ds @ CHR '']'' # s @ r) = CHR '']'' # s @ r"
    using takeWhile_dropWhile_stop[of ds is_digit "CHR '']'' # s @ r"] g_indices_cons.hyps by auto
  show ?case
    using g_indices_cons.hyps g_indices_cons.prems
    by (subst parse_indices.simps) (simp add: tw dw Let_def g_indices_cons.IH not_le[symmetric] del: takeWhile_append2)
qed

lemma g_indices_hd: "g_indices s ixs \<Longrightarrow> s = [] \<or> hd s = CHR ''[''"
  by (induction rule: g_indices.induct) auto

lemma parse_segments_step:
  assumes "g_segment s p" and "r = [] \<or> hd r = CHR ''.''"
  shows "parse_segments input pos (s @ r) acc = (case r of [] \<Rightarrow> Inr (acc @ p)
           | c # cs \<Rightarrow> parse_segments input (pos + length s + 1) cs (acc @ p))"
  using assms(1)
proof cases
  case (g_segment_intro key s' ixs)
  have stop: "s' @ r = [] \<or> is_reserved (hd (s' @ r))"
    using g_indices_hd[OF g_segment_intro(5)] assms(2)
    by (cases s'; cases r) (auto simp: is_reserved_def)
  have tw: "takeWhile (\<lambda>c. \<not> is_reserved c) (key @ s' @ r) = key"
    and dw: "dropWhile (\<lambda>c. \<not> is_reserved c) (key @ s' @ r) = s' @ r"
    using takeWhile_dropWhile_stop[of key "\<lambda>c. \<not> is_reserved c" "s' @ r"] g_segment_intro(4) stop
    by auto
  have "index_stop r" using assms(2) by (auto simp: index_stop_def)
  note pi = parse_indices_complete[OF g_segment_intro(5) this]
  show ?thesis
    using g_segment_intro(1-3) assms(2)
    by (subst parse_segments.simps)
      (auto simp: tw dw pi Let_def add.assoc simp del: takeWhile_append2 split: list.splits)
qed

lemma parse_segments_complete:
  "g_path s p \<Longrightarrow> parse_segments input pos s acc = Inr (acc @ p)"
proof (induction s p arbitrary: pos acc rule: g_path.induct)
  case (g_path_one s p)
  then show ?case using parse_segments_step[of s p "[]"] by simp
next
  case (g_path_dot s p t q)
  then show ?case using parse_segments_step[of s p "CHR ''.'' # t"] by simp
qed

lemma g_path_nonempty: "g_path s p \<Longrightarrow> s \<noteq> [] \<and> p \<noteq> []"
  by (induction rule: g_path.induct) (auto elim: g_segment.cases)

subsection \<open>The parser accepts nothing else\<close>

lemma parse_indices_sound:
  "parse_indices input pos rest acc = Inr (pos', rest', acc') \<Longrightarrow>
     \<exists>s ixs. rest = s @ rest' \<and> g_indices s ixs \<and> acc' = acc @ ixs \<and> index_stop rest'"
proof (induction input pos rest acc rule: parse_indices.induct)
  case (1 input pos rest acc)
  show ?case
  proof (cases "index_stop rest")
    case True
    with "1.prems" show ?thesis
      by (intro exI[of _ "[]"]) (simp add: parse_indices_stop)
  next
    case False
    then obtain cs where rest: "rest = CHR ''['' # cs"
      by (cases rest) (auto simp: index_stop_def)
    let ?ds = "takeWhile is_digit cs"
    from "1.prems" rest obtain after' where
      ds: "?ds \<noteq> []" "digits_val ?ds \<le> size_t_max" and
      after: "dropWhile is_digit cs = CHR '']'' # after'" and
      rec: "parse_indices input (pos + 1 + length ?ds + 1) after' (acc @ [Index (digits_val ?ds)])
              = Inr (pos', rest', acc')"
      by (subst (asm) parse_indices.simps) (auto simp: Let_def split: if_splits list.splits)
    from "1.IH"[OF rest _ refl refl refl refl ds(1) after _ _ rec] ds(2) obtain s ixs where
      IH: "after' = s @ rest'" "g_indices s ixs" "acc' = (acc @ [Index (digits_val ?ds)]) @ ixs"
        "index_stop rest'" by auto
    have cs: "cs = ?ds @ CHR '']'' # s @ rest'"
      using after IH(1) by (metis append_assoc append_Cons takeWhile_dropWhile_id)
    have "g_indices (CHR ''['' # ?ds @ CHR '']'' # s) (Index (digits_val ?ds) # ixs)"
      using ds IH(2) by (intro g_indices_cons) (auto dest: set_takeWhileD)
    then show ?thesis
      using rest cs IH by (intro exI[of _ "CHR ''['' # ?ds @ CHR '']'' # s"]) (metis append_Cons append_assoc append_Nil)
  qed
qed

lemma parse_segments_sound:
  "parse_segments input pos rest acc = Inr acc' \<Longrightarrow> \<exists>p. g_path rest p \<and> acc' = acc @ p"
proof (induction input pos rest acc rule: parse_segments.induct)
  case (1 input pos rest acc)
  let ?key = "takeWhile (\<lambda>c. \<not> is_reserved c) rest"
  let ?rest1 = "dropWhile (\<lambda>c. \<not> is_reserved c) rest"
  from "1.prems" obtain pos2 rest2 acc2 where
    key: "?key \<noteq> []" and
    pi: "parse_indices input (pos + length ?key) ?rest1 (acc @ [Key ?key]) = Inr (pos2, rest2, acc2)" and
    tl: "rest2 = [] \<and> acc' = acc2 \<or> (\<exists>cs. rest2 = CHR ''.'' # cs \<and>
           parse_segments input (pos2 + 1) cs acc2 = Inr acc')"
    by (subst (asm) parse_segments.simps) (auto simp: Let_def split: if_splits list.splits sum.splits)
  from parse_indices_sound[OF pi] obtain s ixs where
    s: "?rest1 = s @ rest2" "g_indices s ixs" "acc2 = (acc @ [Key ?key]) @ ixs" by blast
  have seg: "g_segment (?key @ s) (Key ?key # ixs)"
    using key s(2) by (intro g_segment_intro) (auto dest: set_takeWhileD)
  have rest: "rest = (?key @ s) @ rest2"
    using s(1) by (metis append_assoc takeWhile_dropWhile_id)
  from tl show ?case
  proof (elim disjE exE conjE)
    assume "rest2 = []" "acc' = acc2"
    with rest seg s(3) show ?thesis by (intro exI[of _ "Key ?key # ixs"]) (auto intro: g_path_one)
  next
    fix cs assume cs: "rest2 = CHR ''.'' # cs" "parse_segments input (pos2 + 1) cs acc2 = Inr acc'"
    from "1.IH"[OF refl refl refl key pi refl refl cs(1) refl cs(2)]
    obtain q where q: "g_path cs q" "acc' = acc2 @ q" by blast
    have "g_path ((?key @ s) @ CHR ''.'' # cs) ((Key ?key # ixs) @ q)"
      using seg q(1) by (rule g_path_dot)
    with rest cs(1) q(2) s(3) show ?thesis by (metis append_assoc append_Cons append_Nil)
  qed
qed

lemma cp_parse_iff_g_path: "cp_parse input = Inr segs \<longleftrightarrow> g_path input segs"
  using parse_segments_complete[of input segs input 0 "[]"] parse_segments_sound[of input 0 input "[]" segs]
    g_path_nonempty[of input segs]
  by (auto simp: cp_parse_def)

section \<open>Addressable keys and canonical paths\<close>

text \<open>
  \<open>isAddressableKey\<close> (of \<open>src/config_model.cpp\<close>) says which object keys a path can name.
  \<open>render_path\<close> writes a segment list in canonical form (dots between keys, decimal indices
  without leading zeros).
\<close>

definition isAddressableKey :: "string \<Rightarrow> bool" where
  "isAddressableKey key \<longleftrightarrow> key \<noteq> [] \<and> list_all (\<lambda>c. \<not> is_reserved c) key"

lemma isAddressableKey_iff: "isAddressableKey k \<longleftrightarrow> k \<noteq> [] \<and> (\<forall>c \<in> set k. \<not> is_reserved c)"
  by (simp add: isAddressableKey_def list_all_iff)

fun render_tail :: "path_segment list \<Rightarrow> string" where
  "render_tail [] = []"
| "render_tail (Key k # ps) = CHR ''.'' # k @ render_tail ps"
| "render_tail (Index i # ps) = CHR ''['' # nat_str i @ CHR '']'' # render_tail ps"

fun render_path :: "path_segment list \<Rightarrow> string" where
  "render_path (Key k # ps) = k @ render_tail ps"
| "render_path ps = render_tail ps"

fun wf_segment :: "path_segment \<Rightarrow> bool" where
  "wf_segment (Key k) = isAddressableKey k"
| "wf_segment (Index i) = (i \<le> size_t_max)"

fun is_index :: "path_segment \<Rightarrow> bool" where
  "is_index (Index i) = True"
| "is_index (Key k) = False"

definition wf_path :: "path_segment list \<Rightarrow> bool" where
  "wf_path p \<longleftrightarrow> p \<noteq> [] \<and> \<not> is_index (hd p) \<and> (\<forall>s \<in> set p. wf_segment s)"

lemma wf_path_Cons: "wf_path p \<Longrightarrow> \<exists>k q. p = Key k # q \<and> isAddressableKey k"
  by (cases p rule: render_path.cases) (auto simp: wf_path_def)

subsection \<open>Parsed paths are well formed\<close>

lemma g_indices_wf: "g_indices s ixs \<Longrightarrow> \<forall>x \<in> set ixs. wf_segment x"
  by (induction rule: g_indices.induct) auto

lemma g_segment_wf: "g_segment s p \<Longrightarrow> wf_path p"
  by (erule g_segment.cases) (auto simp: wf_path_def isAddressableKey_iff dest: g_indices_wf)

lemma g_path_wf: "g_path s p \<Longrightarrow> wf_path p"
  by (induction rule: g_path.induct) (auto simp: wf_path_def dest!: g_segment_wf)

lemma cp_parse_wf: "cp_parse input = Inr p \<Longrightarrow> wf_path p"
  by (simp add: cp_parse_iff_g_path g_path_wf)

subsection \<open>Canonical text parses back\<close>

lemma render_tail_grammar:
  assumes "\<forall>x \<in> set p. wf_segment x"
  shows "\<exists>s t. render_tail p = s @ t \<and> g_indices s (takeWhile is_index p) \<and>
           (t = [] \<and> dropWhile is_index p = [] \<or>
            (\<exists>t'. t = CHR ''.'' # t' \<and> g_path t' (dropWhile is_index p)))"
  using assms
proof (induction p rule: render_tail.induct)
  case 1
  then show ?case by simp
next
  case (2 k ps)
  then obtain s t where st: "render_tail ps = s @ t" "g_indices s (takeWhile is_index ps)"
    "t = [] \<and> dropWhile is_index ps = [] \<or>
      (\<exists>t'. t = CHR ''.'' # t' \<and> g_path t' (dropWhile is_index ps))" by auto
  from 2 st have seg: "g_segment (k @ s) (Key k # takeWhile is_index ps)"
    by (intro g_segment_intro) (auto simp: isAddressableKey_iff)
  have split: "Key k # ps = (Key k # takeWhile is_index ps) @ dropWhile is_index ps" by simp
  have "g_path (k @ render_tail ps) (Key k # ps)"
    using st(3)
  proof (elim disjE exE conjE)
    assume "t = []" "dropWhile is_index ps = []"
    then show ?thesis using seg st(1) split by (metis append_Nil2 g_path_one)
  next
    fix t' assume "t = CHR ''.'' # t'" "g_path t' (dropWhile is_index ps)"
    then show ?thesis using g_path_dot[OF seg] st(1) split by (metis append_assoc)
  qed
  then show ?case by (intro exI[of _ "[]"] exI[of _ "CHR ''.'' # k @ render_tail ps"]) simp
next
  case (3 i ps)
  then obtain s t where st: "render_tail ps = s @ t" "g_indices s (takeWhile is_index ps)"
    "t = [] \<and> dropWhile is_index ps = [] \<or>
      (\<exists>t'. t = CHR ''.'' # t' \<and> g_path t' (dropWhile is_index ps))" by auto
  have "g_indices (CHR ''['' # nat_str i @ CHR '']'' # s) (Index (digits_val (nat_str i)) # takeWhile is_index ps)"
    using 3 st by (intro g_indices_cons) (auto intro: nat_str_digits)
  with st show ?case
    by (intro exI[of _ "CHR ''['' # nat_str i @ CHR '']'' # s"] exI[of _ t]) simp
qed

lemma cp_parse_render:
  assumes "wf_path p"
  shows "cp_parse (render_path p) = Inr p"
proof -
  obtain k q where p: "p = Key k # q" "isAddressableKey k" using wf_path_Cons[OF assms] by blast
  from render_tail_grammar[of p] assms
  have "\<exists>t'. render_tail p = CHR ''.'' # t' \<and> g_path t' p"
    by (auto simp: p wf_path_def)
  then show ?thesis using p by (auto simp: cp_parse_iff_g_path)
qed

subsection \<open>Joining a path with a key\<close>

lemma g_path_append: "g_path s p \<Longrightarrow> g_path t q \<Longrightarrow> g_path (s @ CHR ''.'' # t) (p @ q)"
proof (induction rule: g_path.induct)
  case (g_path_one s p)
  then show ?case by (rule g_path_dot)
next
  case (g_path_dot s p t' q')
  from g_path.g_path_dot[OF g_path_dot.hyps(1) g_path_dot.IH[OF g_path_dot.prems]]
  show ?case by simp
qed

lemma cp_parse_key: "isAddressableKey k \<Longrightarrow> cp_parse k = Inr [Key k]"
  using cp_parse_render[of "[Key k]"] by (simp add: wf_path_def)

lemma cp_parse_join:
  "cp_parse s = Inr p \<Longrightarrow> isAddressableKey k \<Longrightarrow> cp_parse (s @ ''.'' @ k) = Inr (p @ [Key k])"
  using g_path_append[of s p k "[Key k]"] cp_parse_key[of k] by (simp add: cp_parse_iff_g_path)

subsection \<open>Errors\<close>

lemma parse_indices_error: "parse_indices input pos rest acc = Inl e \<Longrightarrow> err_code e = InvalidPath"
proof (induction input pos rest acc rule: parse_indices.induct)
  case (1 input pos rest acc)
  show ?case
  proof (cases rest)
    case Nil
    with 1 show ?thesis by (simp add: parse_indices.simps)
  next
    case (Cons c cs)
    with 1 show ?thesis
      by (subst (asm) (2) parse_indices.simps)
        (auto simp: Let_def fail_def split: if_splits list.splits simp del: Inl_fold_fail)
  qed
qed

lemma parse_segments_error: "parse_segments input pos rest acc = Inl e \<Longrightarrow> err_code e = InvalidPath"
proof (induction input pos rest acc rule: parse_segments.induct)
  case (1 input pos rest acc)
  then show ?case
    by (subst (asm) (2) parse_segments.simps)
      (auto simp: Let_def fail_def split: if_splits list.splits sum.splits
        dest: parse_indices_error simp del: Inl_fold_fail)
qed

lemma cp_parse_error: "cp_parse input = Inl e \<Longrightarrow> err_code e = InvalidPath"
  by (auto simp: cp_parse_def fail_def dest: parse_segments_error split: if_splits simp del: Inl_fold_fail)

end
