(* ===== verification/Config_Value.thy ===== *)
theory Config_Value
  imports Cfg_Prelude
begin

text \<open>
  The value-semantic configuration tree, \<open>include/configmanager/config_value.hpp\<close> and
  \<open>src/config_value.cpp\<close>.
  \<^item> \<open>node_type\<close> is \<open>NodeType\<close>, \<open>scalar\<close> is the \<open>std::variant\<close> \<open>Scalar\<close>; \<open>std::int64_t\<close> is a
    \<open>64 word\<close> read with \<open>sint\<close> and a \<open>double\<close> is its 64-bit binary64 pattern.
  \<^item> \<open>config_value\<close> is \<open>ConfigValue\<close>. Its builders keep \<open>type_\<close> in step with the payload, so
    the model is a datatype with one constructor per payload and \<open>cv_type\<close> reads the type back.
  \<^item> \<open>object_builder\<close> is the pair \<open>object_\<close>, \<open>object_index_\<close>; \<open>ob_set\<close> and \<open>ob_contains\<close> are
    \<open>ConfigValue::set\<close> and \<open>contains\<close> as written, through the index. The lemmas show that the
    index never disagrees with the member list, so the tree operations can use \<open>upsert\<close>.
\<close>

section \<open>Data\<close>

datatype node_type = TNull | TBool | TInt | TDouble | TString | TObject | TArray

type_synonym int64 = "64 word"
type_synonym double = "64 word"

datatype scalar =
    SNull
  | SBool bool
  | SInt int64
  | SDouble double
  | SString string

fun scalar_type :: "scalar \<Rightarrow> node_type" where
  "scalar_type SNull = TNull"
| "scalar_type (SBool b) = TBool"
| "scalar_type (SInt i) = TInt"
| "scalar_type (SDouble d) = TDouble"
| "scalar_type (SString s) = TString"

datatype config_value =
    Scal scalar
  | Obj "(string \<times> config_value) list"
  | Arr "config_value list"

fun cv_type :: "config_value \<Rightarrow> node_type" where
  "cv_type (Scal s) = scalar_type s"
| "cv_type (Obj ms) = TObject"
| "cv_type (Arr es) = TArray"

lemma scalar_type_not_container [simp]:
  "scalar_type s \<noteq> TObject" "scalar_type s \<noteq> TArray" "TObject \<noteq> scalar_type s" "TArray \<noteq> scalar_type s"
  by (cases s; simp)+

lemma cv_type_Object_iff: "cv_type v = TObject \<longleftrightarrow> (\<exists>ms. v = Obj ms)"
  by (cases v) auto

lemma cv_type_Array_iff: "cv_type v = TArray \<longleftrightarrow> (\<exists>es. v = Arr es)"
  by (cases v) auto

section \<open>Scalar construction: \<open>ConfigValue::of\<close>\<close>

text \<open>
  The argument types \<open>of\<close> accepts. An integral argument carries its C++ type (signedness and
  width) with its value; \<open>CFloat\<close> is a \<open>float\<close> or \<open>double\<close> argument after the (exact) widening
  to \<open>double\<close>; \<open>CStr None\<close> is a null C string. \<open>of_result\<close> is the value or the thrown
  \<open>std::logic_error\<close> with its text.
\<close>

datatype cpp_scalar =
    CBool bool
  | CSigned int
  | CUnsigned nat
  | CFloat double
  | CStr "string option"

datatype of_result = Of_value config_value | Of_throws string

definition ofPreconditionViolation :: "cpp_scalar \<Rightarrow> string option" where
  "ofPreconditionViolation x = (case x of
     CUnsigned n \<Rightarrow> (if n > 2 ^ 63 - 1
       then Some ''unsigned integer value is not representable as Int (std::int64_t)'' else None)
   | CStr None \<Rightarrow> Some ''null C string is not a valid String value''
   | _ \<Rightarrow> None)"

definition cv_of :: "cpp_scalar \<Rightarrow> of_result" where
  "cv_of x = (case x of
     CBool b \<Rightarrow> Of_value (Scal (SBool b))
   | CSigned i \<Rightarrow> Of_value (Scal (SInt (word_of_int i)))
   | CUnsigned n \<Rightarrow> (case ofPreconditionViolation x of
         Some violation \<Rightarrow> Of_throws (''ConfigValue::of: '' @ violation)
       | None \<Rightarrow> Of_value (Scal (SInt (word_of_nat n))))
   | CFloat d \<Rightarrow> Of_value (Scal (SDouble d))
   | CStr s \<Rightarrow> (case ofPreconditionViolation x of
         Some violation \<Rightarrow> Of_throws (''ConfigValue::of: '' @ violation)
       | None \<Rightarrow> Of_value (Scal (SString (the s)))))"

text \<open>The checked precondition is exactly what keeps \<open>of\<close> from throwing.\<close>

lemma cv_of_throws_iff: "(\<exists>t. cv_of x = Of_throws t) \<longleftrightarrow> ofPreconditionViolation x \<noteq> None"
  by (auto simp: cv_of_def ofPreconditionViolation_def split: cpp_scalar.splits option.splits)

text \<open>An accepted unsigned value is stored with its own value, never wrapped.\<close>

lemma sint_word_of_nat_small: "n < 2 ^ 63 \<Longrightarrow> sint (word_of_nat n :: int64) = int n"
proof -
  assume n: "n < 2 ^ 63"
  have "int n < 2 ^ 63" using n by simp
  then have "signed_take_bit 63 (int n) = int n"
    by (intro signed_take_bit_int_eq_self) auto
  then show ?thesis by (simp add: signed_of_nat)
qed

lemma cv_of_unsigned_exact:
  "cv_of (CUnsigned n) = Of_value v \<Longrightarrow> \<exists>w. v = Scal (SInt w) \<and> sint w = int n"
  by (auto simp: cv_of_def ofPreconditionViolation_def sint_word_of_nat_small split: if_splits)

section \<open>The object builder\<close>

record 'v object_builder =
  ob_object :: "(string \<times> 'v) list"
  ob_index :: "string \<rightharpoonup> nat"

definition ob_empty :: "'v object_builder" where
  "ob_empty = \<lparr>ob_object = [], ob_index = Map.empty\<rparr>"

definition ob_contains :: "'v object_builder \<Rightarrow> string \<Rightarrow> bool" where
  "ob_contains ob key \<longleftrightarrow> ob_index ob key \<noteq> None"

text \<open>
  The found branch writes through the stored position; a position past the end would be
  undefined behaviour, so it is the value \<open>None\<close>.
\<close>

definition ob_set :: "'v object_builder \<Rightarrow> string \<Rightarrow> 'v \<Rightarrow> 'v object_builder option" where
  "ob_set ob key child = (case ob_index ob key of
     Some i \<Rightarrow> (if i < length (ob_object ob)
       then Some (ob\<lparr>ob_object := (ob_object ob)[i := (fst (ob_object ob ! i), child)]\<rparr>)
       else None)
   | None \<Rightarrow> Some (ob\<lparr>ob_object := ob_object ob @ [(key, child)],
                    ob_index := (ob_index ob)(key \<mapsto> length (ob_object ob))\<rparr>))"

definition ob_inv :: "'v object_builder \<Rightarrow> bool" where
  "ob_inv ob \<longleftrightarrow> distinct (map fst (ob_object ob)) \<and>
     (\<forall>k i. ob_index ob k = Some i \<longleftrightarrow> i < length (ob_object ob) \<and> fst (ob_object ob ! i) = k)"

lemma ob_inv_empty: "ob_inv ob_empty"
  by (simp add: ob_inv_def ob_empty_def)

lemma ob_contains_iff: "ob_inv ob \<Longrightarrow> ob_contains ob k \<longleftrightarrow> k \<in> fst ` set (ob_object ob)"
proof -
  assume inv: "ob_inv ob"
  have "ob_contains ob k \<longleftrightarrow> (\<exists>i < length (ob_object ob). fst (ob_object ob ! i) = k)"
    using inv by (simp add: ob_inv_def ob_contains_def)
  also have "\<dots> \<longleftrightarrow> k \<in> set (map fst (ob_object ob))"
    by (simp only: in_set_conv_nth length_map) (auto intro: exI)
  finally show ?thesis by simp
qed

lemma upsert_at:
  "i < length ms \<Longrightarrow> distinct (map fst ms) \<Longrightarrow> fst (ms ! i) = k \<Longrightarrow> upsert k v ms = ms[i := (k, v)]"
proof (induction ms arbitrary: i)
  case (Cons m ms)
  obtain k' v' where m: "m = (k', v')" by (cases m)
  show ?case
  proof (cases i)
    case 0
    with Cons.prems m show ?thesis by simp
  next
    case (Suc j)
    with Cons.prems m have "k' \<noteq> k" by auto
    with Suc Cons m show ?thesis by simp
  qed
qed simp

text \<open>Through the index, \<open>set\<close> is replace-in-place or append, and the index stays consistent.\<close>

lemma ob_set_refines_upsert:
  assumes "ob_inv ob"
  shows "\<exists>ob'. ob_set ob key child = Some ob' \<and> ob_inv ob'
           \<and> ob_object ob' = upsert key child (ob_object ob)"
proof (cases "ob_index ob key")
  case None
  then have fresh: "key \<notin> fst ` set (ob_object ob)"
    using ob_contains_iff[OF assms, of key] by (simp add: ob_contains_def)
  then have "ob_inv (ob\<lparr>ob_object := ob_object ob @ [(key, child)],
      ob_index := (ob_index ob)(key \<mapsto> length (ob_object ob))\<rparr>)"
    using assms by (auto simp: ob_inv_def nth_append less_Suc_eq)
  with None fresh show ?thesis by (simp add: ob_set_def upsert_fresh)
next
  case (Some i)
  with assms have i: "i < length (ob_object ob)" "fst (ob_object ob ! i) = key"
    and d: "distinct (map fst (ob_object ob))"
    by (auto simp: ob_inv_def)
  have keys: "map fst ((ob_object ob)[i := (key, child)]) = map fst (ob_object ob)"
    using i by (simp add: map_update list_update_same_conv)
  have nth: "fst ((ob_object ob)[i := (key, child)] ! j) = fst (ob_object ob ! j)"
    if "j < length (ob_object ob)" for j
    using that i by (cases "j = i") auto
  have "ob_inv (ob\<lparr>ob_object := (ob_object ob)[i := (key, child)]\<rparr>)"
    using assms d keys nth by (auto simp: ob_inv_def)
  with Some i d show ?thesis by (simp add: ob_set_def upsert_at)
qed

text \<open>Tree-level builders over the member list.\<close>

definition cv_object :: config_value where "cv_object = Obj []"
definition cv_array :: config_value where "cv_array = Arr []"

text \<open>
  The preconditions of \<open>set\<close> and \<open>push\<close> (an Object, an Array) are debug assertions: \<open>None\<close>.
\<close>

definition cv_set :: "config_value \<Rightarrow> string \<Rightarrow> config_value \<Rightarrow> config_value option" where
  "cv_set v key child = (case v of Obj ms \<Rightarrow> Some (Obj (upsert key child ms)) | _ \<Rightarrow> None)"

definition cv_push :: "config_value \<Rightarrow> config_value \<Rightarrow> config_value option" where
  "cv_push v child = (case v of Arr es \<Rightarrow> Some (Arr (es @ [child])) | _ \<Rightarrow> None)"

definition cv_contains :: "config_value \<Rightarrow> string \<Rightarrow> bool" where
  "cv_contains v key = (case v of Obj ms \<Rightarrow> key \<in> fst ` set ms | _ \<Rightarrow> False)"

definition cv_members :: "config_value \<Rightarrow> (string \<times> config_value) list" where
  "cv_members v = (case v of Obj ms \<Rightarrow> ms | _ \<Rightarrow> [])"

definition cv_elements :: "config_value \<Rightarrow> config_value list" where
  "cv_elements v = (case v of Arr es \<Rightarrow> es | _ \<Rightarrow> [])"

section \<open>Sizes and well-formed trees\<close>

text \<open>Children in order, and an induction rule over them.\<close>

definition cv_kids :: "config_value \<Rightarrow> config_value list" where
  "cv_kids v = (case v of Obj ms \<Rightarrow> map snd ms | Arr es \<Rightarrow> es | Scal s \<Rightarrow> [])"

lemma cv_kids_simps [simp]:
  "cv_kids (Scal s) = []" "cv_kids (Obj ms) = map snd ms" "cv_kids (Arr es) = es"
  by (simp_all add: cv_kids_def)

lemma config_value_kids_induct [case_names Kids]:
  assumes "\<And>v. (\<And>c. c \<in> set (cv_kids v) \<Longrightarrow> P c) \<Longrightarrow> P v"
  shows "P v"
proof (induction v)
  case (Scal s)
  show ?case by (rule assms) simp
next
  case (Obj ms)
  have "P c" if "c \<in> set (map snd ms)" for c
    using that Obj by (fastforce simp: snds.simps)
  then show ?case by (intro assms[of "Obj ms"]) simp
next
  case (Arr es)
  then show ?case by (intro assms[of "Arr es"]) simp
qed

text \<open>Number of nodes of a tree, and its height (a scalar or empty container has height 0).\<close>

primrec cv_nodes :: "config_value \<Rightarrow> nat" where
  "cv_nodes (Scal s) = 1"
| "cv_nodes (Obj ms) = Suc (sum_list (map snd (map (map_prod id cv_nodes) ms)))"
| "cv_nodes (Arr es) = Suc (sum_list (map cv_nodes es))"

lemma cv_nodes_kids: "cv_nodes v = Suc (sum_list (map cv_nodes (cv_kids v)))"
  by (cases v) (auto simp: comp_def)

lemma cv_nodes_pos [simp]: "0 < cv_nodes v"
  by (cases v) auto

text \<open>
  Every object of a value built through \<open>set\<close> has distinct keys (\<open>ob_set_refines_upsert\<close>); this
  is the class invariant a \<open>ConfigValue\<close> argument carries.
\<close>

primrec cv_distinct :: "config_value \<Rightarrow> bool" where
  "cv_distinct (Scal s) = True"
| "cv_distinct (Obj ms) =
     (distinct (map fst ms) \<and> list_all snd (map (map_prod id cv_distinct) ms))"
| "cv_distinct (Arr es) = list_all id (map cv_distinct es)"

lemma cv_distinct_simps [simp]:
  "cv_distinct (Obj ms) \<longleftrightarrow> distinct (map fst ms) \<and> (\<forall>(k, v) \<in> set ms. cv_distinct v)"
  "cv_distinct (Arr es) \<longleftrightarrow> (\<forall>v \<in> set es. cv_distinct v)"
  by (auto simp: list_all_iff)

declare cv_distinct.simps(2,3) [simp del]

lemma cv_distinct_kids: "cv_distinct v \<Longrightarrow> c \<in> set (cv_kids v) \<Longrightarrow> cv_distinct c"
  by (cases v) auto

lemma cv_set_distinct:
  "cv_distinct v \<Longrightarrow> cv_distinct child \<Longrightarrow> cv_set v key child = Some v' \<Longrightarrow> cv_distinct v'"
  using set_upsert_subset[of key child "cv_members v"]
  by (cases v) (fastforce simp: cv_set_def cv_members_def distinct_keys_upsert)+

end
