(* ===== verification/Node_Arena.thy ===== *)
theory Node_Arena
  imports Config_Value
begin

text \<open>
  The slot arena behind a model, \<open>src/node_arena.hpp\<close>.
  \<^item> \<open>node\<close> and \<open>arena\<close> are \<open>Node\<close> and \<open>NodeArena\<close>. A \<open>NodeId\<close> is a \<open>nat\<close> below \<open>2 ^ 32\<close>; the
    narrowing \<open>static_cast<NodeId>\<close> in \<open>allocate\<close> is the \<open>mod 2 ^ 32\<close>. A generation is a
    \<open>32 word\<close>, so the increment in \<open>release\<close> wraps.
  \<^item> \<open>arena_get\<close>, \<open>arena_modify\<close>, \<open>allocate\<close>, \<open>release\<close> are \<open>None\<close> where the C++ asserts or
    indexes out of range.
  \<^item> \<open>itree\<close>, \<open>rep\<close>, \<open>free_chain\<close> and \<open>heap\<close> are the specification side: a forest of trees
    annotated with slot ids, laid out in the arena, which together with the free list accounts
    for every slot exactly once. \<open>heap\<close> has a frame \<open>R\<close> of slots an operation does not touch.
\<close>

section \<open>The arena\<close>

definition kNodeIdNone :: nat where "kNodeIdNone = 2 ^ 32 - 1"

record node =
  ntype :: node_type
  nscalar :: scalar
  nmembers :: "(string \<times> nat) list"
  nelements :: "nat list"
  nparent :: nat
  ngeneration :: "32 word"
  nalive :: bool

definition default_node :: node where
  "default_node = \<lparr>ntype = TNull, nscalar = SNull, nmembers = [], nelements = [],
     nparent = kNodeIdNone, ngeneration = 0, nalive = False\<rparr>"

record arena =
  nodes :: "node list"
  free_head :: nat

definition empty_arena :: arena where
  "empty_arena = \<lparr>nodes = [], free_head = kNodeIdNone\<rparr>"

definition arena_get :: "arena \<Rightarrow> nat \<Rightarrow> node option" where
  "arena_get ar i = (if i < length (nodes ar) \<and> nalive (nodes ar ! i) then Some (nodes ar ! i) else None)"

definition arena_modify :: "arena \<Rightarrow> nat \<Rightarrow> (node \<Rightarrow> node) \<Rightarrow> arena option" where
  "arena_modify ar i f = do { n \<leftarrow> arena_get ar i; Some (ar\<lparr>nodes := (nodes ar)[i := f n]\<rparr>) }"

definition allocate :: "arena \<Rightarrow> node_type \<Rightarrow> (nat \<times> arena) option" where
  "allocate ar ty =
     (if free_head ar \<noteq> kNodeIdNone then
        (let i = free_head ar in
         if i < length (nodes ar) then
           (let n = nodes ar ! i in
            Some (i, ar\<lparr>nodes := (nodes ar)[i := n\<lparr>ntype := ty, nscalar := SNull,
                              nparent := kNodeIdNone, nalive := True\<rparr>],
                        free_head := nparent n\<rparr>))
         else None)
      else Some (length (nodes ar) mod 2 ^ 32,
                 ar\<lparr>nodes := nodes ar @ [default_node\<lparr>ntype := ty, nalive := True\<rparr>]\<rparr>))"

definition release :: "arena \<Rightarrow> nat \<Rightarrow> arena option" where
  "release ar i =
     (if i < length (nodes ar) \<and> nalive (nodes ar ! i) then
        (let n = nodes ar ! i in
         Some (ar\<lparr>nodes := (nodes ar)[i := n\<lparr>nalive := False, ngeneration := ngeneration n + 1,
                       nscalar := SNull, nmembers := [], nelements := [], nparent := free_head ar\<rparr>],
                  free_head := i\<rparr>))
      else None)"

definition arena_matches :: "arena \<Rightarrow> nat \<Rightarrow> 32 word \<Rightarrow> bool" where
  "arena_matches ar i g \<longleftrightarrow> i < length (nodes ar) \<and> nalive (nodes ar ! i) \<and> ngeneration (nodes ar ! i) = g"

text \<open>Which generation a handle to a slot needs: \<open>None\<close> for a dead or absent slot.\<close>

definition live :: "arena \<Rightarrow> nat \<rightharpoonup> 32 word" where
  "live ar i = (if i < length (nodes ar) \<and> nalive (nodes ar ! i) then Some (ngeneration (nodes ar ! i)) else None)"

lemma arena_matches_live: "arena_matches ar i g \<longleftrightarrow> live ar i = Some g"
  by (auto simp: arena_matches_def live_def)

lemma live_modify:
  "arena_modify ar i f = Some ar' \<Longrightarrow> (\<And>n. nalive (f n) = nalive n \<and> ngeneration (f n) = ngeneration n)
     \<Longrightarrow> live ar' = live ar"
proof -
  assume m: "arena_modify ar i f = Some ar'"
    and f: "\<And>n. nalive (f n) = nalive n \<and> ngeneration (f n) = ngeneration n"
  have ar': "nodes ar' = (nodes ar)[i := f (nodes ar ! i)]" and i: "i < length (nodes ar)"
    using m by (auto simp: arena_modify_def arena_get_def split: if_splits)
  show ?thesis
  proof
    fix j
    show "live ar' j = live ar j" using i by (cases "j = i") (simp_all add: live_def ar' f)
  qed
qed

lemma live_release: "release ar i = Some ar' \<Longrightarrow> live ar' = (live ar)(i := None) \<and> live ar i \<noteq> None"
  by (auto simp: release_def live_def fun_eq_iff nth_list_update Let_def split: if_splits)

section \<open>Slot trees\<close>

datatype itree =
  INode (tid: nat) (ity: node_type) (isc: scalar) (imem: "(string \<times> itree) list") (iel: "itree list")

definition kids :: "itree \<Rightarrow> itree list" where
  "kids t = map snd (imem t) @ iel t"

lemma kids_simps [simp]: "kids (INode i ty sc ms es) = map snd ms @ es"
  by (simp add: kids_def)

lemma itree_kids_induct [case_names Kids]:
  assumes "\<And>t. (\<And>c. c \<in> set (kids t) \<Longrightarrow> P c) \<Longrightarrow> P t"
  shows "P t"
proof (induction t)
  case (INode i ty sc ms es)
  have "P c" if "c \<in> set (map snd ms @ es)" for c
    using that INode by (fastforce simp: snds.simps)
  then show ?case by (intro assms[of "INode i ty sc ms es"]) simp
qed

text \<open>The slots of a tree, as a multiset.\<close>

primrec mids :: "itree \<Rightarrow> nat multiset" where
  "mids (INode i ty sc ms es) =
     add_mset i (sum_list (map snd (map (map_prod id mids) ms)) + sum_list (map mids es))"

definition kmids :: "itree list \<Rightarrow> nat multiset" where
  "kmids ts = sum_list (map mids ts)"

lemma kmids_simps [simp, mset_ids]:
  "kmids [] = {#}" "kmids (t # ts) = mids t + kmids ts" "kmids (xs @ ys) = kmids xs + kmids ys"
  by (simp_all add: kmids_def)

lemma kmids_mset: "mset xs = mset ys \<Longrightarrow> kmids xs = kmids ys"
  unfolding kmids_def by (metis mset_map sum_mset_sum_list)

lemma mids_kids: "mids t = add_mset (tid t) (kmids (kids t))"
  by (cases t) (simp add: kmids_def comp_def)

lemma tid_in_mids [simp]: "tid t \<in># mids t"
  by (simp add: mids_kids)

lemma kid_mids: "c \<in> set (kids t) \<Longrightarrow> mids c \<subseteq># kmids (kids t)"
proof -
  assume "c \<in> set (kids t)"
  then obtain xs ys where "kids t = xs @ c # ys" by (meson split_list)
  then show ?thesis by (simp add: ac_simps)
qed

section \<open>Layout\<close>

definition slot :: "node list \<Rightarrow> nat \<Rightarrow> itree \<Rightarrow> bool" where
  "slot ns p t \<longleftrightarrow> tid t < length ns \<and> (let n = ns ! tid t in
     nalive n \<and> ntype n = ity t \<and> nscalar n = isc t \<and> nparent n = p \<and>
     nmembers n = map (\<lambda>(k, c). (k, tid c)) (imem t) \<and> nelements n = map tid (iel t))"

inductive rep :: "node list \<Rightarrow> nat \<Rightarrow> itree \<Rightarrow> bool" for ns where
  rep_intro: "slot ns p t \<Longrightarrow> (\<And>c. c \<in> set (kids t) \<Longrightarrow> rep ns (tid t) c) \<Longrightarrow> rep ns p t"

lemma rep_iff: "rep ns p t \<longleftrightarrow> slot ns p t \<and> (\<forall>c \<in> set (kids t). rep ns (tid t) c)"
  by (rule iffI, erule rep.cases, simp, rule rep_intro, simp_all)

lemma rep_slot: "rep ns p t \<Longrightarrow> slot ns p t"
  using rep_iff by blast

lemma rep_kid: "rep ns p t \<Longrightarrow> c \<in> set (kids t) \<Longrightarrow> rep ns (tid t) c"
  using rep_iff by blast

lemma slot_cong: "slot ns p t \<Longrightarrow> ns' ! tid t = ns ! tid t \<Longrightarrow> tid t < length ns' \<Longrightarrow> slot ns' p t"
  by (simp add: slot_def)

lemma rep_cong:
  "rep ns p t \<Longrightarrow> (\<And>j. j \<in># mids t \<Longrightarrow> ns' ! j = ns ! j \<and> j < length ns') \<Longrightarrow> rep ns' p t"
proof (induction rule: rep.induct)
  case (rep_intro p t)
  have "rep ns' (tid t) c" if c: "c \<in> set (kids t)" for c
  proof (rule rep_intro.IH[OF c])
    fix j assume "j \<in># mids c"
    with kid_mids[OF c] have "j \<in># kmids (kids t)" by (rule mset_subset_eqD)
    then have "j \<in># mids t" by (simp add: mids_kids)
    then show "ns' ! j = ns ! j \<and> j < length ns'" by (rule rep_intro.prems)
  qed
  moreover have "slot ns' p t"
    using rep_intro.prems[of "tid t"] by (intro slot_cong[OF rep_intro.hyps(1)]) auto
  ultimately show ?case by (blast intro: rep.rep_intro)
qed

primrec free_chain :: "node list \<Rightarrow> nat \<Rightarrow> nat list \<Rightarrow> bool" where
  "free_chain ns h [] \<longleftrightarrow> h = kNodeIdNone"
| "free_chain ns h (x # xs) \<longleftrightarrow> h = x \<and> x < length ns \<and> \<not> nalive (ns ! x) \<and> nmembers (ns ! x) = []
     \<and> nelements (ns ! x) = [] \<and> free_chain ns (nparent (ns ! x)) xs"

lemma free_chain_cong:
  "free_chain ns h fl \<Longrightarrow> (\<And>j. j \<in> set fl \<Longrightarrow> ns' ! j = ns ! j \<and> j < length ns') \<Longrightarrow> free_chain ns' h fl"
  by (induction fl arbitrary: h) auto

lemma free_chain_dead: "free_chain ns h fl \<Longrightarrow> i \<in> set fl \<Longrightarrow> \<not> nalive (ns ! i)"
  by (induction fl arbitrary: h) auto

type_synonym forest = "(nat \<times> itree) list"

definition heap :: "arena \<Rightarrow> forest \<Rightarrow> nat list \<Rightarrow> nat multiset \<Rightarrow> bool" where
  "heap ar F fl R \<longleftrightarrow> (\<forall>(p, t) \<in> set F. rep (nodes ar) p t) \<and> free_chain (nodes ar) (free_head ar) fl \<and>
     kmids (map snd F) + mset fl + R = mset [0..<length (nodes ar)] \<and> length (nodes ar) \<le> kNodeIdNone"

definition agree :: "nat multiset \<Rightarrow> arena \<Rightarrow> arena \<Rightarrow> bool" where
  "agree R ar ar' \<longleftrightarrow> (\<forall>j \<in># R. j < length (nodes ar') \<and> nodes ar' ! j = nodes ar ! j)"

text \<open>How many more slots can be handed out before ids run into \<open>kNodeIdNone\<close>.\<close>

definition room :: "arena \<Rightarrow> nat list \<Rightarrow> nat" where
  "room ar fl = length fl + (kNodeIdNone - length (nodes ar))"

lemma agree_refl: "heap ar F fl R \<Longrightarrow> agree R ar ar"
proof -
  assume "heap ar F fl R"
  then have "R \<subseteq># mset [0..<length (nodes ar)]"
    unfolding heap_def by (metis mset_subset_eq_add_right)
  then show ?thesis by (auto simp: agree_def dest!: mset_subset_eqD)
qed

lemma agree_trans [trans]: "agree R a b \<Longrightarrow> agree R b c \<Longrightarrow> agree R a c"
  by (auto simp: agree_def)

lemma agree_mono: "agree R a b \<Longrightarrow> S \<subseteq># R \<Longrightarrow> agree S a b"
  by (auto simp: agree_def dest: mset_subset_eqD)

subsection \<open>Linearity: no slot occurs twice\<close>

lemma range_split:
  assumes "A + B = mset [0..<n]" and "i \<in># A"
  shows "i < n" "i \<notin># B" "count A i = 1"
proof -
  have "count (A + B) i = (if i < n then 1 else 0)"
    by (simp add: assms(1) distinct_count_atmost_1[THEN iffD1, rule_format, OF distinct_upt] del: mset_upt)
  moreover have "0 < count A i" using assms(2) by (simp only: count_greater_zero_iff)
  ultimately have "i < n \<and> count A i = 1 \<and> count B i = 0"
    by (simp del: count_greater_zero_iff split: if_splits)
  then show "i < n" "i \<notin># B" "count A i = 1" by (auto simp: count_eq_zero_iff)
qed

lemma heapD:
  assumes "heap ar F fl R"
  shows "(p, t) \<in> set F \<Longrightarrow> rep (nodes ar) p t" "free_chain (nodes ar) (free_head ar) fl"
    "kmids (map snd F) + mset fl + R = mset [0..<length (nodes ar)]" "length (nodes ar) \<le> kNodeIdNone"
  using assms by (auto simp: heap_def)

lemma heap_perm:
  assumes "heap ar F fl R" and "mset F = mset G"
  shows "heap ar G fl R"
proof -
  have "set F = set G" using assms(2) by (metis set_mset_mset)
  moreover have "kmids (map snd F) = kmids (map snd G)"
    using assms(2) by (intro kmids_mset) (metis mset_map)
  ultimately show ?thesis using assms(1) by (simp add: heap_def)
qed

text \<open>Moving the untouched part of a forest into the frame and back.\<close>

lemma heap_frame: "heap ar (G @ F) fl R \<Longrightarrow> heap ar G fl (kmids (map snd F) + R)"
  by (auto simp: heap_def ac_simps)

lemma heap_unframe:
  assumes old: "heap ar (G @ F) fl R" and new: "heap ar' G' fl' (kmids (map snd F) + R)"
    and frame: "agree (kmids (map snd F) + R) ar ar'"
  shows "heap ar' (G' @ F) fl' R"
proof -
  have "rep (nodes ar') p t" if "(p, t) \<in> set F" for p t
  proof (rule rep_cong)
    show "rep (nodes ar) p t" using old that by (auto simp: heap_def)
    fix j assume j: "j \<in># mids t"
    from that obtain A B where "F = A @ (p, t) # B" by (meson split_list)
    with j have "j \<in># kmids (map snd F) + R" by simp
    with frame show "nodes ar' ! j = nodes ar ! j \<and> j < length (nodes ar')" by (auto simp: agree_def)
  qed
  with new show ?thesis by (auto simp: heap_def ac_simps)
qed

subsection \<open>Rewriting one slot\<close>

text \<open>
  A write to one slot that only redistributes the children between the slot and the forest
  turns the slot's tree \<open>t\<close> into \<open>t'\<close> and the detached children \<open>K\<close> into \<open>K'\<close>.
\<close>

lemma heap_relink:
  assumes h: "heap ar ((p, t) # map (Pair (tid t)) K @ F) fl R"
    and same: "tid t' = tid t"
    and kids: "mset (kids t') + mset K' = mset (kids t) + mset K"
    and slot': "slot ((nodes ar)[tid t := n']) p' t'"
    and ar': "ar' = ar\<lparr>nodes := (nodes ar)[tid t := n']\<rparr>"
  shows "heap ar' ((p', t') # map (Pair (tid t)) K' @ F) fl R" "agree R ar ar'"
proof -
  let ?i = "tid t"
  let ?rest = "kmids (kids t) + kmids K + kmids (map snd F) + mset fl + R"
  have tot: "{#?i#} + ?rest = mset [0..<length (nodes ar)]"
    using heapD(3)[OF h] by (simp add: mids_kids[of t] comp_def ac_simps)
  have i: "?i < length (nodes ar)" and fresh: "?i \<notin># ?rest"
    using range_split[OF tot, of ?i] by auto
  have other: "nodes ar' ! j = nodes ar ! j \<and> j < length (nodes ar')" if "j \<in># ?rest" for j
  proof -
    have "j \<noteq> ?i" using that fresh by metis
    moreover have "j < length (nodes ar)"
      using range_split(1)[of ?rest "{#?i#}", of "length (nodes ar)" j] that tot by (simp add: ac_simps)
    ultimately show ?thesis by (simp add: ar')
  qed
  have kset: "set (kids t') \<union> set K' = set (kids t) \<union> set K"
    using kids by (metis set_mset_mset set_mset_union)
  have krep: "rep (nodes ar') ?i c" if "c \<in> set (kids t') \<union> set K'" for c
  proof (rule rep_cong)
    have c: "c \<in> set (kids t) \<union> set K" using that kset by simp
    then show "rep (nodes ar) ?i c"
      using heapD(1)[OF h, of p t] heapD(1)[OF h, of ?i c] by (auto intro: rep_kid)
    fix j assume "j \<in># mids c"
    moreover have "mids c \<subseteq># kmids (kids t) + kmids K"
    proof -
      from c have "c \<in> set (kids t @ K)" by simp
      then obtain A B where "kids t @ K = A @ c # B" by (meson split_list)
      then have "kmids (kids t @ K) = kmids (A @ c # B)" by simp
      then show ?thesis by (simp add: ac_simps)
    qed
    ultimately have "j \<in># ?rest" by (auto dest: mset_subset_eqD)
    then show "nodes ar' ! j = nodes ar ! j \<and> j < length (nodes ar')" by (rule other)
  qed
  have Frep: "rep (nodes ar') q s" if "(q, s) \<in> set F" for q s
  proof (rule rep_cong)
    show "rep (nodes ar) q s" using heapD(1)[OF h] that by auto
    fix j assume j: "j \<in># mids s"
    from that obtain A B where "F = A @ (q, s) # B" by (meson split_list)
    with j have "j \<in># ?rest" by simp
    then show "nodes ar' ! j = nodes ar ! j \<and> j < length (nodes ar')" by (rule other)
  qed
  have "rep (nodes ar') p' t'"
    using slot' krep same by (subst rep_iff) (auto simp: ar')
  moreover have "free_chain (nodes ar') (free_head ar) fl"
    using other by (intro free_chain_cong[OF heapD(2)[OF h]]) auto
  then have "free_chain (nodes ar') (free_head ar') fl" by (simp add: ar')
  moreover have "kmids (map snd ((p', t') # map (Pair ?i) K' @ F)) + mset fl + R
      = mset [0..<length (nodes ar')]"
  proof -
    have eq: "kmids (kids t') + kmids K' = kmids (kids t) + kmids K"
      using kmids_mset[of "kids t' @ K'" "kids t @ K"] kids by simp
    have "kmids (map snd ((p', t') # map (Pair ?i) K' @ F)) + mset fl + R
        = {#?i#} + (kmids (kids t') + kmids K') + kmids (map snd F) + mset fl + R"
      by (simp add: mids_kids[of t'] same comp_def ac_simps)
    also have "\<dots> = mset [0..<length (nodes ar)]"
      using tot by (simp only: eq) (simp only: ac_simps)
    finally show ?thesis by (simp add: ar')
  qed
  moreover have "length (nodes ar') \<le> kNodeIdNone" using heapD(4)[OF h] by (simp add: ar')
  ultimately show "heap ar' ((p', t') # map (Pair ?i) K' @ F) fl R"
    using krep Frep by (simp add: heap_def) blast
  show "agree R ar ar'" using other by (auto simp: agree_def)
qed

lemma rep_tid_live: "rep ns p t \<Longrightarrow> tid t < length ns \<and> nalive (ns ! tid t)"
  by (auto dest!: rep_slot simp: slot_def Let_def)

lemma arena_get_rep: "rep (nodes ar) p t \<Longrightarrow> arena_get ar (tid t) = Some (nodes ar ! tid t)"
  by (auto dest!: rep_tid_live simp: arena_get_def)

lemma arena_get_slot:
  assumes "slot (nodes ar) p t"
  shows "\<exists>n. arena_get ar (tid t) = Some n \<and> ntype n = ity t \<and> nscalar n = isc t \<and> nparent n = p \<and>
    nmembers n = map (\<lambda>(k, c). (k, tid c)) (imem t) \<and> nelements n = map tid (iel t) \<and>
    n = nodes ar ! tid t"
  using assms by (simp add: slot_def arena_get_def Let_def)

lemma arena_modify_rep:
  "rep (nodes ar) p t \<Longrightarrow> arena_modify ar (tid t) f
     = Some (ar\<lparr>nodes := (nodes ar)[tid t := f (nodes ar ! tid t)]\<rparr>)"
  by (simp add: arena_modify_def arena_get_rep)

subsection \<open>Allocation and release\<close>

lemma heap_allocate:
  assumes h: "heap ar F fl R" and room: "0 < room ar fl"
  shows "\<exists>i ar'. allocate ar ty = Some (i, ar') \<and>
           heap ar' ((kNodeIdNone, INode i ty SNull [] []) # F) (tl fl) R \<and> agree R ar ar' \<and>
           room ar' (tl fl) = room ar fl - 1 \<and>
           live ar i = None \<and> (\<exists>g. live ar' = (live ar)(i \<mapsto> g))"
proof (cases fl)
  case Nil
  let ?n = "length (nodes ar)"
  let ?new = "default_node\<lparr>ntype := ty, nalive := True\<rparr>"
  let ?ar = "ar\<lparr>nodes := nodes ar @ [?new]\<rparr>"
  have fh: "free_head ar = kNodeIdNone" using heapD(2)[OF h] Nil by simp
  have n: "?n < kNodeIdNone" using room Nil by (simp add: room_def)
  then have m: "?n mod 2 ^ 32 = ?n" by (simp add: kNodeIdNone_def)
  have lt: "j < ?n" if "j \<in># kmids (map snd F) + R" for j
    using heapD(3)[OF h] that Nil range_split(1)[of "kmids (map snd F) + R" "{#}" ?n j] by simp
  have reps: "rep (nodes ?ar) p t" if "(p, t) \<in> set F" for p t
  proof (rule rep_cong)
    show "rep (nodes ar) p t" using heapD(1)[OF h that] .
    fix j assume j: "j \<in># mids t"
    from that obtain A B where "F = A @ (p, t) # B" by (meson split_list)
    with j have "j < ?n" by (intro lt) simp
    then show "nodes ?ar ! j = nodes ar ! j \<and> j < length (nodes ?ar)" by (simp add: nth_append)
  qed
  have new: "rep (nodes ?ar) kNodeIdNone (INode ?n ty SNull [] [])"
    by (subst rep_iff) (simp add: slot_def default_node_def)
  have "heap ?ar ((kNodeIdNone, INode ?n ty SNull [] []) # F) (tl fl) R"
    using reps new heapD(2,3)[OF h] n Nil by (auto simp: heap_def ac_simps)
  moreover have "agree R ar ?ar"
    using lt by (auto simp: agree_def nth_append less_SucI)
  moreover have "live ar ?n = None" "live ?ar = (live ar)(?n \<mapsto> 0)"
    by (auto simp: live_def fun_eq_iff nth_append default_node_def)
  ultimately show ?thesis
    using fh m n Nil by (auto simp: allocate_def room_def)
next
  case (Cons i fl')
  let ?o = "nodes ar ! i"
  let ?new = "?o\<lparr>ntype := ty, nscalar := SNull, nparent := kNodeIdNone, nalive := True\<rparr>"
  let ?ar = "ar\<lparr>nodes := (nodes ar)[i := ?new], free_head := nparent ?o\<rparr>"
  let ?rest = "kmids (map snd F) + mset fl' + R"
  have fc: "free_head ar = i" "i < length (nodes ar)" "\<not> nalive ?o" "nmembers ?o = []"
    "nelements ?o = []" "free_chain (nodes ar) (nparent ?o) fl'"
    using heapD(2)[OF h] Cons by auto
  have tot: "{#i#} + ?rest = mset [0..<length (nodes ar)]"
    using heapD(3)[OF h] Cons by simp
  have fresh: "i \<notin># ?rest" using range_split(2)[OF tot] by simp
  have other: "nodes ?ar ! j = nodes ar ! j \<and> j < length (nodes ?ar)" if "j \<in># ?rest" for j
  proof -
    have "j \<noteq> i" using that fresh by metis
    moreover have "j < length (nodes ar)"
      using range_split(1)[of ?rest "{#i#}" "length (nodes ar)" j] that tot by (simp add: ac_simps)
    ultimately show ?thesis by simp
  qed
  have reps: "rep (nodes ?ar) p t" if "(p, t) \<in> set F" for p t
  proof (rule rep_cong)
    show "rep (nodes ar) p t" using heapD(1)[OF h that] .
    fix j assume j: "j \<in># mids t"
    from that obtain A B where "F = A @ (p, t) # B" by (meson split_list)
    with j show "nodes ?ar ! j = nodes ar ! j \<and> j < length (nodes ?ar)" by (intro other) simp
  qed
  have "free_chain (nodes ?ar) (free_head ?ar) fl'"
    using fc(6) other by (auto intro!: free_chain_cong[where ns = "nodes ar"])
  moreover have "rep (nodes ?ar) kNodeIdNone (INode i ty SNull [] [])"
    using fc by (subst rep_iff) (simp add: slot_def)
  ultimately have "heap ?ar ((kNodeIdNone, INode i ty SNull [] []) # F) (tl fl) R"
    using reps tot heapD(4)[OF h] Cons by (auto simp: heap_def ac_simps)
  moreover have "agree R ar ?ar" using other by (auto simp: agree_def)
  moreover have "free_head ar \<noteq> kNodeIdNone" using fc(1,2) heapD(4)[OF h] by simp
  moreover have "live ar i = None" "live ?ar = (live ar)(i \<mapsto> ngeneration ?o)"
    using fc by (auto simp: live_def fun_eq_iff)
  ultimately show ?thesis
    using fc(1,2) Cons by (auto simp: allocate_def Let_def room_def)
qed

lemma heap_release:
  assumes h: "heap ar ((p, t) # F) fl R" and leaf: "kids t = []"
  shows "\<exists>ar'. release ar (tid t) = Some ar' \<and> heap ar' F (tid t # fl) R \<and> agree R ar ar' \<and>
           room ar' (tid t # fl) = room ar fl + 1 \<and> live ar' = (live ar)(tid t := None)"
proof -
  let ?i = "tid t"
  let ?o = "nodes ar ! ?i"
  let ?new = "?o\<lparr>nalive := False, ngeneration := ngeneration ?o + 1, nscalar := SNull,
                nmembers := [], nelements := [], nparent := free_head ar\<rparr>"
  let ?ar = "ar\<lparr>nodes := (nodes ar)[?i := ?new], free_head := ?i\<rparr>"
  let ?rest = "kmids (map snd F) + mset fl + R"
  have i: "?i < length (nodes ar)" "nalive ?o"
    using heapD(1)[OF h, of p t] by (auto dest: rep_tid_live)
  have tot: "{#?i#} + ?rest = mset [0..<length (nodes ar)]"
    using heapD(3)[OF h] leaf by (simp add: mids_kids[of t])
  have fresh: "?i \<notin># ?rest" using range_split(2)[OF tot] by simp
  have other: "nodes ?ar ! j = nodes ar ! j \<and> j < length (nodes ?ar)" if "j \<in># ?rest" for j
  proof -
    have "j \<noteq> ?i" using that fresh by metis
    moreover have "j < length (nodes ar)"
      using range_split(1)[of ?rest "{#?i#}" "length (nodes ar)" j] that tot by (simp add: ac_simps)
    ultimately show ?thesis by simp
  qed
  have reps: "rep (nodes ?ar) q s" if "(q, s) \<in> set F" for q s
  proof (rule rep_cong)
    show "rep (nodes ar) q s" using heapD(1)[OF h] that by simp
    fix j assume j: "j \<in># mids s"
    from that obtain A B where "F = A @ (q, s) # B" by (meson split_list)
    with j show "nodes ?ar ! j = nodes ar ! j \<and> j < length (nodes ?ar)" by (intro other) simp
  qed
  have "free_chain (nodes ?ar) (free_head ?ar) (?i # fl)"
    using i heapD(2)[OF h] other by (auto intro!: free_chain_cong[where ns = "nodes ar"])
  then have "heap ?ar F (?i # fl) R"
    using reps tot heapD(4)[OF h] by (auto simp: heap_def ac_simps)
  moreover have "agree R ar ?ar" using other by (auto simp: agree_def)
  moreover have r: "release ar ?i = Some ?ar" using i by (simp add: release_def Let_def)
  moreover have "live ?ar = (live ar)(?i := None)" using live_release[OF r] by simp
  ultimately show ?thesis using heapD(4)[OF h] by (auto simp: room_def)
qed

section \<open>Subtrees in place\<close>

text \<open>
  \<open>sub_in p t q s\<close>: in the tree \<open>t\<close> with parent id \<open>p\<close>, the subtree \<open>s\<close> has parent id \<open>q\<close>.
  \<open>graft i s t\<close> puts \<open>s\<close> in the place of the subtree with id \<open>i\<close>.
\<close>

inductive sub_in :: "nat \<Rightarrow> itree \<Rightarrow> nat \<Rightarrow> itree \<Rightarrow> bool" where
  sub_self: "sub_in p t p t"
| sub_kid: "c \<in> set (kids t) \<Longrightarrow> sub_in (tid t) c q s \<Longrightarrow> sub_in p t q s"

primrec graft :: "nat \<Rightarrow> itree \<Rightarrow> itree \<Rightarrow> itree" where
  "graft i s (INode j ty sc ms es) =
     (if j = i then s
      else INode j ty sc (map (map_prod id (graft i s)) ms) (map (graft i s) es))"

lemma graft_here: "tid t = i \<Longrightarrow> graft i s t = s"
  by (cases t) simp

lemma graft_there:
  "tid t \<noteq> i \<Longrightarrow> graft i s t = INode (tid t) (ity t) (isc t)
     (map (\<lambda>(k, c). (k, graft i s c)) (imem t)) (map (graft i s) (iel t))"
  by (cases t) (simp add: map_prod_def)

lemma tid_graft: "tid s = i \<Longrightarrow> tid (graft i s t) = tid t"
  by (cases t) simp

lemma ity_graft: "ity s = ity u \<Longrightarrow> tid t = i \<Longrightarrow> t = u \<Longrightarrow> ity (graft i s t) = ity t"
  by (simp add: graft_here)

lemma kids_graft: "tid t \<noteq> i \<Longrightarrow> kids (graft i s t) = map (graft i s) (kids t)"
  by (cases t) (auto simp: comp_def)

lemma graft_absent: "i \<notin># mids t \<Longrightarrow> graft i s t = t"
proof (induction t rule: itree_kids_induct)
  case (Kids t)
  have ne: "tid t \<noteq> i" using Kids.prems by auto
  have "graft i s c = c" if c: "c \<in> set (kids t)" for c
  proof (rule Kids.IH[OF c])
    show "i \<notin># mids c"
      using kid_mids[OF c] Kids.prems by (auto simp: mids_kids[of t] dest: mset_subset_eqD)
  qed
  then have ms: "\<forall>(k, c) \<in> set (imem t). graft i s c = c" and es: "\<forall>c \<in> set (iel t). graft i s c = c"
    by (force simp: kids_def)+
  have "map (\<lambda>(k, c). (k, graft i s c)) (imem t) = imem t"
    using ms by (intro map_idI) auto
  moreover have "map (graft i s) (iel t) = iel t"
    using es by (intro map_idI) auto
  ultimately show ?case using ne by (simp add: graft_there)
qed

lemma sub_in_mids: "sub_in p t q s \<Longrightarrow> mids s \<subseteq># mids t"
proof (induction rule: sub_in.induct)
  case (sub_kid c t q s p)
  then show ?case using kid_mids[OF sub_kid.hyps(1)] by (metis mids_kids mset_subset_eq_add_right
      add_mset_add_single subset_mset.order_trans subset_mset.add_increasing2 empty_le)
qed simp

lemma sub_in_rep: "sub_in p t q s \<Longrightarrow> rep ns p t \<Longrightarrow> rep ns q s"
  by (induction rule: sub_in.induct) (auto dest: rep_kid)

lemma sub_in_trans: "sub_in p t q s \<Longrightarrow> sub_in q s r u \<Longrightarrow> sub_in p t r u"
  by (induction rule: sub_in.induct) (auto intro: sub_in.intros)

text \<open>The children of a tree with distinct slots: exactly one of them holds the grafted id.\<close>

lemma graft_kids_split:
  assumes c: "c \<in> set (kids t)" and i: "i \<in># mids c" and lin: "\<And>j. count (mids t) j \<le> 1"
  shows "\<exists>xs ys. kids t = xs @ c # ys \<and> map (graft i s) (kids t) = xs @ graft i s c # ys \<and> tid t \<noteq> i
    \<and> (\<forall>j. count (mids c) j \<le> 1)"
proof -
  obtain xs ys where k: "kids t = xs @ c # ys" using c by (meson split_list)
  have "count (mids t) i = count {#tid t#} i + count (kmids xs) i + count (mids c) i + count (kmids ys) i"
    by (simp add: mids_kids[of t] k)
  moreover have "0 < count (mids c) i" using i by (simp only: count_greater_zero_iff)
  ultimately have z: "count {#tid t#} i = 0" "count (kmids xs) i = 0" "count (kmids ys) i = 0"
    using lin[of i] by linarith+
  have absent: "graft i s x = x" if "x \<in> set xs \<union> set ys" for x
  proof (rule graft_absent)
    from that obtain A B where "xs = A @ x # B \<or> ys = A @ x # B" by (meson UnE split_list)
    then show "i \<notin># mids x" using z by (auto simp: count_eq_zero_iff)
  qed
  have "count (mids c) j \<le> 1" for j
    using lin[of j] by (simp add: mids_kids[of t] k split: if_splits)
  then show ?thesis
    using k absent z(1) by (intro exI[of _ xs] exI[of _ ys]) (auto simp: map_idI split: if_splits)
qed

lemma mids_graft:
  assumes "sub_in p t q s" and "\<And>j. count (mids t) j \<le> 1"
  shows "mids (graft (tid s) s' t) + mids s = mids t + mids s'"
  using assms
proof (induction rule: sub_in.induct)
  case (sub_self p t)
  then show ?case by (simp add: graft_here)
next
  case (sub_kid c t q s p)
  have "tid s \<in># mids c" by (rule mset_subset_eqD[OF sub_in_mids[OF sub_kid.hyps(2)] tid_in_mids])
  from graft_kids_split[OF sub_kid.hyps(1) this sub_kid.prems] obtain xs ys where
    k: "kids t = xs @ c # ys" and g: "map (graft (tid s) s') (kids t) = xs @ graft (tid s) s' c # ys"
    and ne: "tid t \<noteq> tid s" and lin: "\<And>j. count (mids c) j \<le> 1" by blast
  have "tid (graft (tid s) s' t) = tid t" using ne by (simp add: graft_there)
  then have "mids (graft (tid s) s' t) + mids s
      = {#tid t#} + kmids xs + kmids ys + (mids (graft (tid s) s' c) + mids s)"
    using ne by (simp add: mids_kids[of "graft (tid s) s' t"] kids_graft g ac_simps)
  also have "\<dots> = {#tid t#} + kmids xs + kmids ys + (mids c + mids s')"
    using sub_kid.IH lin by simp
  finally show ?case by (simp add: mids_kids[of t] k ac_simps)
qed

lemma rep_graft:
  assumes "sub_in p t q s" and "\<And>j. count (mids t) j \<le> 1" and "rep ns p t"
    and "rep ns' q s'" and "tid s' = tid s"
    and "\<And>j. j \<in># mids t - mids s \<Longrightarrow> ns' ! j = ns ! j \<and> j < length ns'"
  shows "rep ns' p (graft (tid s) s' t)"
  using assms
proof (induction rule: sub_in.induct)
  case (sub_self p t)
  then show ?case by (simp add: graft_here)
next
  case (sub_kid c t q s p)
  have "tid s \<in># mids c" by (rule mset_subset_eqD[OF sub_in_mids[OF sub_kid.hyps(2)] tid_in_mids])
  from graft_kids_split[OF sub_kid.hyps(1) this sub_kid.prems(1), of s'] obtain xs ys where
    k: "kids t = xs @ c # ys" and g: "map (graft (tid s) s') (kids t) = xs @ graft (tid s) s' c # ys"
    and ne: "tid t \<noteq> tid s" and lin: "\<And>j. count (mids c) j \<le> 1" by blast
  obtain D where D: "mids c = mids s + D"
    using sub_in_mids[OF sub_kid.hyps(2)] by (metis subset_mset.add_diff_inverse)
  have "mids t = {#tid t#} + kmids xs + kmids ys + mids c"
    by (simp add: mids_kids[of t] k ac_simps)
  also have "\<dots> = mids s + ({#tid t#} + kmids xs + kmids ys + D)"
    by (simp only: D ac_simps)
  finally have rest: "mids t - mids s = {#tid t#} + kmids xs + kmids ys + (mids c - mids s)"
    by (simp only: D add_diff_cancel_left')
  let ?g = "graft (tid s) s'"
  have same: "ns' ! j = ns ! j \<and> j < length ns'" if "j \<in># {#tid t#} + kmids xs + kmids ys + (mids c - mids s)" for j
    using sub_kid.prems(5) that unfolding rest .
  have "rep ns' (tid t) (?g c)"
    using sub_kid.IH[OF lin rep_kid[OF sub_kid.prems(2) sub_kid.hyps(1)] sub_kid.prems(3,4)] same by simp
  moreover have "rep ns' (tid t) x" if x: "x \<in> set xs \<union> set ys" for x
  proof (rule rep_cong)
    show "rep ns (tid t) x" using x k by (intro rep_kid[OF sub_kid.prems(2)]) auto
    fix j assume "j \<in># mids x"
    moreover from x obtain A B where "xs = A @ x # B \<or> ys = A @ x # B" by (meson UnE split_list)
    ultimately show "ns' ! j = ns ! j \<and> j < length ns'" by (intro same) auto
  qed
  moreover have "set (kids (?g t)) = insert (?g c) (set xs \<union> set ys)"
    using ne g by (auto simp: kids_graft)
  moreover have "slot ns' p (?g t)"
  proof -
    have "slot ns' p t" using same[of "tid t"] by (intro slot_cong[OF rep_slot[OF sub_kid.prems(2)]]) auto
    then show ?thesis
      using ne sub_kid.prems(4) by (auto simp: graft_there slot_def Let_def tid_graft comp_def split_def)
  qed
  moreover have "tid (?g t) = tid t" using ne by (simp add: graft_there)
  ultimately show ?case by (subst rep_iff) auto
qed

lemma heap_lin:
  assumes "heap ar ((p, t) # F) fl R"
  shows "count (mids t) j \<le> 1"
proof (cases "j \<in># mids t")
  case True
  have "mids t + (kmids (map snd F) + mset fl + R) = mset [0..<length (nodes ar)]"
    using heapD(3)[OF assms] by (simp add: ac_simps)
  from range_split(3)[OF this True] show ?thesis by simp
qed (simp add: not_in_iff)

text \<open>Working on a subtree: its surroundings go to the frame, and come back with it grafted in.\<close>

lemma heap_focus:
  assumes h: "heap ar ((p, t) # F) fl R" and s: "sub_in p t q s"
  shows "heap ar ((q, s) # F) fl (R + (mids t - mids s))"
proof -
  have "mids t = mids s + (mids t - mids s)" using sub_in_mids[OF s] by simp
  then have eq: "kmids (map snd ((q, s) # F)) + mset fl + (R + (mids t - mids s)) =
    kmids (map snd ((p, t) # F)) + mset fl + R" by (simp add: ac_simps)
  have "rep (nodes ar) q s" using h by (intro sub_in_rep[OF s]) (auto simp: heap_def)
  then show ?thesis using h unfolding heap_def eq by auto
qed

lemma heap_unfocus:
  assumes h: "heap ar ((p, t) # F) fl R" and s: "sub_in p t q s"
    and h': "heap ar' ((q, s') # F') fl' (R + (mids t - mids s))" and same: "tid s' = tid s"
    and frame: "agree (R + (mids t - mids s)) ar ar'"
  shows "heap ar' ((p, graft (tid s) s' t) # F') fl' R" "agree R ar ar'"
proof -
  have lin: "\<And>j. count (mids t) j \<le> 1" using heap_lin[OF h] .
  have "mids (graft (tid s) s' t) + mids s = mids t + mids s'" by (rule mids_graft[OF s lin])
  then have "mids (graft (tid s) s' t) = (mids t - mids s) + mids s'"
    using sub_in_mids[OF s] by (metis add_diff_cancel_right' subset_mset.add_diff_assoc2)
  then have eq: "kmids (map snd ((p, graft (tid s) s' t) # F')) + mset fl' + R =
    kmids (map snd ((q, s') # F')) + mset fl' + (R + (mids t - mids s))" by (simp add: ac_simps)
  have "rep (nodes ar') p (graft (tid s) s' t)"
    using h h' frame same by (intro rep_graft[OF s lin, of "nodes ar"]) (auto simp: heap_def agree_def)
  then show "heap ar' ((p, graft (tid s) s' t) # F') fl' R"
    using h' unfolding heap_def eq by auto
  show "agree R ar ar'" using frame by (rule agree_mono) simp
qed

end
