(* ===== verification/Config_Node.thy ===== *)
theory Config_Node
  imports Node_Arena
begin

text \<open>
  Read-only handles, \<open>class ConfigNode\<close> of \<open>include/configmanager/config_node.hpp\<close> and
  \<open>src/config_node.cpp\<close>. A handle is a slot id with the generation it was taken at; the arena
  pointer is the argument \<open>ar\<close> of the accessors, and \<open>cn_bound\<close> says whether it is non-null. The
  Result-returning accessors are total in the handle: \<open>None\<close> can only come from following a
  child id of the arena itself. \<open>cn_type\<close> and \<open>cn_size\<close> assert \<open>valid()\<close>, so they are \<open>None\<close> on a
  stale handle.
\<close>

record config_node =
  cn_bound :: bool
  cn_id :: nat
  cn_generation :: "32 word"

definition cn_default :: config_node where
  "cn_default = \<lparr>cn_bound = False, cn_id = kNodeIdNone, cn_generation = 0\<rparr>"

definition findLive :: "arena \<Rightarrow> config_node \<Rightarrow> node option" where
  "findLive ar h = (if \<not> cn_bound h \<or> \<not> arena_matches ar (cn_id h) (cn_generation h) then None
     else arena_get ar (cn_id h))"

definition cn_valid :: "arena \<Rightarrow> config_node \<Rightarrow> bool" where
  "cn_valid ar h \<longleftrightarrow> cn_bound h \<and> arena_matches ar (cn_id h) (cn_generation h)"

definition cn_type :: "arena \<Rightarrow> config_node \<Rightarrow> node_type option" where
  "cn_type ar h = (if cn_valid ar h then do { n \<leftarrow> arena_get ar (cn_id h); Some (ntype n) } else None)"

definition cn_size :: "arena \<Rightarrow> config_node \<Rightarrow> nat option" where
  "cn_size ar h = (if cn_valid ar h then
     do { n \<leftarrow> arena_get ar (cn_id h);
          Some (case ntype n of TObject \<Rightarrow> length (nmembers n) | TArray \<Rightarrow> length (nelements n) | _ \<Rightarrow> 0) }
     else None)"

definition handle_to :: "arena \<Rightarrow> nat \<Rightarrow> config_node option" where
  "handle_to ar i = do { n \<leftarrow> arena_get ar i;
     Some \<lparr>cn_bound = True, cn_id = i, cn_generation = ngeneration n\<rparr> }"

definition stale :: "error + 'a" where
  "stale = fail NodeNotFound ''stale ConfigNode handle''"

definition cn_child :: "arena \<Rightarrow> config_node \<Rightarrow> string \<Rightarrow> (error + config_node) option" where
  "cn_child ar h key = (case findLive ar h of
     None \<Rightarrow> Some stale
   | Some n \<Rightarrow>
       if ntype n \<noteq> TObject then Some (fail InvalidType ''child() requires an Object node'')
       else (case map_of (nmembers n) key of
           Some i \<Rightarrow> map_option Inr (handle_to ar i)
         | None \<Rightarrow> Some (fail NodeNotFound (''no member '' @ [CHR 0x22] @ key @ [CHR 0x22]))))"

definition cn_at :: "arena \<Rightarrow> config_node \<Rightarrow> nat \<Rightarrow> (error + config_node) option" where
  "cn_at ar h index = (case findLive ar h of
     None \<Rightarrow> Some stale
   | Some n \<Rightarrow>
       if ntype n \<noteq> TArray then Some (fail InvalidType ''at() requires an Array node'')
       else if index \<ge> length (nelements n) then
         Some (fail NodeNotFound (''index '' @ nat_str index @ '' out of range (size ''
           @ nat_str (length (nelements n)) @ '')''))
       else map_option Inr (handle_to ar (nelements n ! index)))"

definition cn_keys :: "arena \<Rightarrow> config_node \<Rightarrow> error + string list" where
  "cn_keys ar h = (case findLive ar h of
     None \<Rightarrow> stale
   | Some n \<Rightarrow>
       if ntype n \<noteq> TObject then fail InvalidType ''keys() requires an Object node''
       else Inr (map fst (nmembers n)))"

definition cn_members :: "arena \<Rightarrow> config_node \<Rightarrow> (error + (string \<times> config_node) list) option" where
  "cn_members ar h = (case findLive ar h of
     None \<Rightarrow> Some stale
   | Some n \<Rightarrow>
       if ntype n \<noteq> TObject then Some (fail InvalidType ''members() requires an Object node'')
       else map_option Inr (foldM (\<lambda>acc (k, i). do { c \<leftarrow> handle_to ar i; Some (acc @ [(k, c)]) })
              [] (nmembers n)))"

definition cn_scalarValue :: "arena \<Rightarrow> config_node \<Rightarrow> error + scalar" where
  "cn_scalarValue ar h = (case findLive ar h of
     None \<Rightarrow> stale
   | Some n \<Rightarrow>
       if ntype n = TObject \<or> ntype n = TArray then fail InvalidType ''node is not a scalar''
       else Inr (nscalar n))"

section \<open>Staleness is detected\<close>

lemma findLive_iff: "findLive ar h = Some n \<longleftrightarrow>
   cn_bound h \<and> live ar (cn_id h) = Some (cn_generation h) \<and> n = nodes ar ! cn_id h"
  by (auto simp: findLive_def arena_matches_live arena_get_def live_def split: if_splits)

lemma cn_valid_iff: "cn_valid ar h \<longleftrightarrow> findLive ar h \<noteq> None"
  by (auto simp: cn_valid_def findLive_def arena_matches_live arena_get_def live_def split: if_splits)

lemma stale_accessors:
  assumes "\<not> cn_valid ar h"
  shows "cn_child ar h key = Some stale" "cn_at ar h index = Some stale" "cn_keys ar h = stale"
    "cn_members ar h = Some stale" "cn_scalarValue ar h = stale"
  using assms
  by (simp_all add: cn_valid_iff cn_child_def cn_at_def cn_keys_def cn_members_def cn_scalarValue_def)

text \<open>
  Releasing a slot and handing it out again leaves every earlier handle to it stale: reuse keeps
  the generation that \<open>release\<close> bumped, and \<open>g + 1 \<noteq> g\<close> on 32 bits.
\<close>

lemma release_then_allocate:
  assumes "release ar i = Some ar1" and "i < kNodeIdNone" and "allocate ar1 ty = Some (j, ar2)"
  shows "j = i \<and> live ar2 = (live ar)(i \<mapsto> ngeneration (nodes ar ! i) + 1) \<and>
         live ar i = Some (ngeneration (nodes ar ! i))"
proof -
  have i: "i < length (nodes ar)" "nalive (nodes ar ! i)"
    using assms(1) by (auto simp: release_def Let_def split: if_splits)
  have l1: "live ar1 = (live ar)(i := None)" using live_release[OF assms(1)] by simp
  have ar1: "free_head ar1 = i" "length (nodes ar1) = length (nodes ar)"
    "ngeneration (nodes ar1 ! i) = ngeneration (nodes ar ! i) + 1"
    using assms(1) i by (auto simp: release_def Let_def)
  then have ji: "j = i" and ar2: "nodes ar2 = (nodes ar1)[i := (nodes ar1 ! i)
      \<lparr>ntype := ty, nscalar := SNull, nparent := kNodeIdNone, nalive := True\<rparr>]"
    using assms(2,3) i by (auto simp: allocate_def Let_def)
  have "live ar2 x = ((live ar1)(i \<mapsto> ngeneration (nodes ar ! i) + 1)) x" for x
    using ar1(2,3) i by (cases "x = i") (simp_all add: live_def ar2)
  with l1 i ji show ?thesis by (auto simp: live_def fun_eq_iff)
qed

lemma stale_after_reuse:
  assumes "cn_id h = i" and "cn_valid ar h" and "release ar i = Some ar1" and "i < kNodeIdNone"
    and "allocate ar1 ty = Some (j, ar2)"
  shows "\<not> cn_valid ar1 h" "\<not> cn_valid ar2 h"
proof -
  have l: "live ar i = Some (cn_generation h)"
    using assms(1,2) by (simp add: cn_valid_def arena_matches_live)
  show "\<not> cn_valid ar1 h"
    using live_release[OF assms(3)] assms(1) by (simp add: cn_valid_def arena_matches_live)
  show "\<not> cn_valid ar2 h"
    using release_then_allocate[OF assms(3,4,5)] l assms(1) by (simp add: cn_valid_def arena_matches_live)
qed

end
