(* ===== verification/Config_Model.thy ===== *)
theory Config_Model
  imports Config_Path Config_Node
begin

text \<open>
  The owning configuration tree, \<open>include/configmanager/config_model.hpp\<close> and
  \<open>src/config_model.cpp\<close>, definition by definition.
  \<^item> A \<open>cmodel\<close> is the arena with the root id. Mutating functions take the arena and return the
    new one; \<open>None\<close> is an access to a dead or absent slot, a violated assertion, a
    \<open>std::bad_variant_access\<close>, or recursion deeper than the stack budget.
  \<^item> The recursions over the arena (\<open>freeSubtree\<close>, \<open>buildValue\<close>) have no structural argument, so
    they carry fuel: \<open>stack_fuel\<close> is one call per level of a tree of depth \<open>kMaxTreeDepth\<close>,
    the bound the depth limit exists to give. That it is always enough is proved.
  \<^item> \<open>SubtreeGuard\<close> only acts while an exception unwinds; no allocation fails here, so it
    has no counterpart (\<open>Alloc_Failure\<close> has \<open>set\<close> with allocations that fail).
\<close>

section \<open>Limits and validation of incoming values\<close>

definition kMaxTreeDepth :: nat where "kMaxTreeDepth = 128"

definition stack_fuel :: nat where "stack_fuel = Suc kMaxTreeDepth"

fun validateTree :: "config_value \<Rightarrow> nat \<Rightarrow> error + unit"
  and validateMembers :: "(string \<times> config_value) list \<Rightarrow> nat \<Rightarrow> error + unit"
  and validateElements :: "config_value list \<Rightarrow> nat \<Rightarrow> error + unit" where
  "validateTree (Scal s) depth =
     (if depth > kMaxTreeDepth
      then fail InvalidPath (''value exceeds the maximum nesting depth ('' @ nat_str kMaxTreeDepth @ '')'')
      else Inr ())"
| "validateTree (Obj ms) depth =
     (if depth > kMaxTreeDepth
      then fail InvalidPath (''value exceeds the maximum nesting depth ('' @ nat_str kMaxTreeDepth @ '')'')
      else validateMembers ms (depth + 1))"
| "validateTree (Arr es) depth =
     (if depth > kMaxTreeDepth
      then fail InvalidPath (''value exceeds the maximum nesting depth ('' @ nat_str kMaxTreeDepth @ '')'')
      else validateElements es (depth + 1))"
| "validateMembers [] depth = Inr ()"
| "validateMembers ((k, v) # ms) depth =
     (if \<not> isAddressableKey k
      then fail InvalidPath (''object key '' @ quoted k @ '' is not path-addressable'')
      else (case validateTree v depth of
          Inl e \<Rightarrow> Inl e
        | Inr _ \<Rightarrow> validateMembers ms depth))"
| "validateElements [] depth = Inr ()"
| "validateElements (v # es) depth =
     (case validateTree v depth of
        Inl e \<Rightarrow> Inl e
      | Inr _ \<Rightarrow> validateElements es depth)"

section \<open>Building and freeing subtrees\<close>

definition findMember :: "node \<Rightarrow> string \<Rightarrow> nat" where
  "findMember n key = (case map_of (nmembers n) key of Some i \<Rightarrow> i | None \<Rightarrow> kNodeIdNone)"

fun buildFromValue :: "arena \<Rightarrow> config_value \<Rightarrow> nat \<Rightarrow> (nat \<times> arena) option"
  and buildMembers :: "arena \<Rightarrow> nat \<Rightarrow> (string \<times> config_value) list \<Rightarrow> arena option"
  and buildElements :: "arena \<Rightarrow> nat \<Rightarrow> config_value list \<Rightarrow> arena option" where
  "buildFromValue ar (Scal s) parent = do {
     (i, ar1) \<leftarrow> allocate ar (scalar_type s);
     ar2 \<leftarrow> arena_modify ar1 i (\<lambda>n. n\<lparr>nparent := parent\<rparr>);
     ar3 \<leftarrow> arena_modify ar2 i (\<lambda>n. n\<lparr>nscalar := s\<rparr>);
     Some (i, ar3) }"
| "buildFromValue ar (Obj ms) parent = do {
     (i, ar1) \<leftarrow> allocate ar TObject;
     ar2 \<leftarrow> arena_modify ar1 i (\<lambda>n. n\<lparr>nparent := parent\<rparr>);
     ar3 \<leftarrow> buildMembers ar2 i ms;
     Some (i, ar3) }"
| "buildFromValue ar (Arr es) parent = do {
     (i, ar1) \<leftarrow> allocate ar TArray;
     ar2 \<leftarrow> arena_modify ar1 i (\<lambda>n. n\<lparr>nparent := parent\<rparr>);
     ar3 \<leftarrow> buildElements ar2 i es;
     Some (i, ar3) }"
| "buildMembers ar i [] = Some ar"
| "buildMembers ar i ((k, v) # ms) = do {
     (child, ar1) \<leftarrow> buildFromValue ar v i;
     ar2 \<leftarrow> arena_modify ar1 i (\<lambda>n. n\<lparr>nmembers := nmembers n @ [(k, child)]\<rparr>);
     buildMembers ar2 i ms }"
| "buildElements ar i [] = Some ar"
| "buildElements ar i (v # es) = do {
     (child, ar1) \<leftarrow> buildFromValue ar v i;
     ar2 \<leftarrow> arena_modify ar1 i (\<lambda>n. n\<lparr>nelements := nelements n @ [child]\<rparr>);
     buildElements ar2 i es }"

text \<open>
  \<open>freeChildren\<close> moves both child lists out of the node before it frees them;
  \<open>freeChildren_with\<close> has the recursive call as its argument.
\<close>

definition freeChildren_with :: "(arena \<Rightarrow> nat \<Rightarrow> arena option) \<Rightarrow> arena \<Rightarrow> nat \<Rightarrow> arena option" where
  "freeChildren_with rec ar i = do {
     n \<leftarrow> arena_get ar i;
     ar1 \<leftarrow> arena_modify ar i (\<lambda>n. n\<lparr>nmembers := [], nelements := []\<rparr>);
     ar2 \<leftarrow> foldM rec ar1 (map snd (nmembers n));
     foldM rec ar2 (nelements n) }"

primrec freeSubtree :: "nat \<Rightarrow> arena \<Rightarrow> nat \<Rightarrow> arena option" where
  "freeSubtree 0 ar i = None"
| "freeSubtree (Suc f) ar i = do { ar1 \<leftarrow> freeChildren_with (freeSubtree f) ar i; release ar1 i }"

definition freeChildren :: "nat \<Rightarrow> arena \<Rightarrow> nat \<Rightarrow> arena option" where
  "freeChildren f = freeChildren_with (freeSubtree f)"

text \<open>
  The moved-from \<open>builtNode\<close> keeps its slot until the final \<open>release\<close>; its child lists are empty
  after the move.
\<close>

definition set_parent :: "nat \<Rightarrow> arena \<Rightarrow> nat \<Rightarrow> arena option" where
  "set_parent p ar c = arena_modify ar c (\<lambda>n. n\<lparr>nparent := p\<rparr>)"

definition assignContents :: "nat \<Rightarrow> arena \<Rightarrow> nat \<Rightarrow> config_value \<Rightarrow> arena option" where
  "assignContents fuel ar target v = do {
     t \<leftarrow> arena_get ar target;
     if ntype t \<noteq> cv_type v then None
     else do {
       (built, ar1) \<leftarrow> buildFromValue ar v kNodeIdNone;
       ar2 \<leftarrow> freeChildren fuel ar1 target;
       b \<leftarrow> arena_get ar2 built;
       ar3 \<leftarrow> arena_modify ar2 target
         (\<lambda>n. n\<lparr>nscalar := nscalar b, nmembers := nmembers b, nelements := nelements b\<rparr>);
       ar4 \<leftarrow> arena_modify ar3 built (\<lambda>n. n\<lparr>nmembers := [], nelements := []\<rparr>);
       ar5 \<leftarrow> foldM (set_parent target) ar4 (map snd (nmembers b));
       ar6 \<leftarrow> foldM (set_parent target) ar5 (nelements b);
       release ar6 built } }"

primrec buildValue :: "nat \<Rightarrow> arena \<Rightarrow> nat \<Rightarrow> config_value option" where
  "buildValue 0 ar i = None"
| "buildValue (Suc f) ar i = do {
     n \<leftarrow> arena_get ar i;
     (case ntype n of
        TObject \<Rightarrow> foldM (\<lambda>v (k, c). do { x \<leftarrow> buildValue f ar c; cv_set v k x }) cv_object (nmembers n)
      | TArray \<Rightarrow> foldM (\<lambda>v c. do { x \<leftarrow> buildValue f ar c; cv_push v x }) cv_array (nelements n)
      | TBool \<Rightarrow> (case nscalar n of SBool b \<Rightarrow> Some (Scal (SBool b)) | _ \<Rightarrow> None)
      | TInt \<Rightarrow> (case nscalar n of SInt w \<Rightarrow> Some (Scal (SInt w)) | _ \<Rightarrow> None)
      | TDouble \<Rightarrow> (case nscalar n of SDouble d \<Rightarrow> Some (Scal (SDouble d)) | _ \<Rightarrow> None)
      | TString \<Rightarrow> (case nscalar n of SString s \<Rightarrow> Some (Scal (SString s)) | _ \<Rightarrow> None)
      | TNull \<Rightarrow> Some (Scal SNull)) }"

section \<open>Planning and applying a write\<close>

record write_plan =
  wp_node :: nat
  wp_createFrom :: nat

definition checkCreatable :: "path_segment list \<Rightarrow> nat \<Rightarrow> nat \<Rightarrow> error + write_plan" where
  "checkCreatable segments from parent =
     (case find (\<lambda>s. case s of Index i \<Rightarrow> i \<noteq> 0 | Key k \<Rightarrow> False) (drop (from + 1) segments) of
        Some (Index i) \<Rightarrow> fail NodeNotFound (''index '' @ nat_str i
          @ '' into a newly created array; only [0] can be appended'')
      | _ \<Rightarrow> Inr \<lparr>wp_node = parent, wp_createFrom = from\<rparr>)"

text \<open>
  The loop of \<open>planWrite\<close> at index \<open>i\<close>: \<open>rest\<close> is \<open>drop i segments\<close>. \<open>planFinal\<close> is the test of an
  existing final node.
\<close>

definition planFinal :: "arena \<Rightarrow> path_segment list \<Rightarrow> node_type \<Rightarrow> nat \<Rightarrow> (error + write_plan) option" where
  "planFinal ar segments finalType child = do {
     c \<leftarrow> arena_get ar child;
     Some (if ntype c \<noteq> finalType
       then fail InvalidType ''write would change the type of the existing node; remove it first''
       else Inr \<lparr>wp_node = child, wp_createFrom = length segments\<rparr>) }"

definition traverses_nonobject :: "string \<Rightarrow> error + 'a" where
  "traverses_nonobject k = fail InvalidType (''segment '' @ quoted k @ '' traverses a non-object node'')"

definition traverses_nonarray :: "error + 'a" where
  "traverses_nonarray = fail InvalidType ''index segment traverses a non-array node''"

fun planWrite_from ::
    "arena \<Rightarrow> path_segment list \<Rightarrow> node_type \<Rightarrow> nat \<Rightarrow> nat \<Rightarrow> path_segment list \<Rightarrow> (error + write_plan) option" where
  "planWrite_from ar segments finalType current i [] =
     Some (Inr \<lparr>wp_node = current, wp_createFrom = length segments\<rparr>)"
| "planWrite_from ar segments finalType current i (Key k # rest) = do {
     n \<leftarrow> arena_get ar current;
     if ntype n \<noteq> TObject then Some (traverses_nonobject k)
     else (let child = findMember n k in
       if child = kNodeIdNone then Some (checkCreatable segments i current)
       else if rest = [] then planFinal ar segments finalType child
       else planWrite_from ar segments finalType child (i + 1) rest) }"
| "planWrite_from ar segments finalType current i (Index j # rest) = do {
     n \<leftarrow> arena_get ar current;
     if ntype n \<noteq> TArray then Some traverses_nonarray
     else if j > length (nelements n) then
       Some (fail NodeNotFound (''array write index '' @ nat_str j @ '' is past the end (size ''
         @ nat_str (length (nelements n)) @ '')''))
     else if j = length (nelements n) then Some (checkCreatable segments i current)
     else (let child = nelements n ! j in
       if rest = [] then planFinal ar segments finalType child
       else planWrite_from ar segments finalType child (i + 1) rest) }"

definition planWrite :: "arena \<Rightarrow> nat \<Rightarrow> path_segment list \<Rightarrow> node_type \<Rightarrow> (error + write_plan) option" where
  "planWrite ar rootId segments finalType = planWrite_from ar segments finalType rootId 0 segments"

fun link_child :: "arena \<Rightarrow> nat \<Rightarrow> path_segment \<Rightarrow> nat \<Rightarrow> arena option" where
  "link_child ar container (Key k) child =
     arena_modify ar container (\<lambda>n. n\<lparr>nmembers := nmembers n @ [(k, child)]\<rparr>)"
| "link_child ar container (Index i) child =
     arena_modify ar container (\<lambda>n. n\<lparr>nelements := nelements n @ [child]\<rparr>)"

definition container_type :: "path_segment \<Rightarrow> node_type" where
  "container_type s = (case s of Key k \<Rightarrow> TObject | Index i \<Rightarrow> TArray)"

definition wrap_chain :: "nat \<times> arena \<Rightarrow> path_segment \<Rightarrow> (nat \<times> arena) option" where
  "wrap_chain ca s = (case ca of (chain, ar) \<Rightarrow> do {
     (container, ar1) \<leftarrow> allocate ar (container_type s);
     ar2 \<leftarrow> set_parent container ar1 chain;
     ar3 \<leftarrow> link_child ar2 container s chain;
     Some (container, ar3) })"

definition applyWrite ::
    "nat \<Rightarrow> arena \<Rightarrow> write_plan \<Rightarrow> path_segment list \<Rightarrow> config_value \<Rightarrow> arena option" where
  "applyWrite fuel ar plan segments v =
     (if wp_createFrom plan = length segments then assignContents fuel ar (wp_node plan) v
      else do {
        built \<leftarrow> buildFromValue ar v kNodeIdNone;
        (chain, ar1) \<leftarrow> foldM wrap_chain built (rev (drop (wp_createFrom plan + 1) segments));
        ar2 \<leftarrow> set_parent (wp_node plan) ar1 chain;
        link_child ar2 (wp_node plan) (segments ! wp_createFrom plan) chain })"

section \<open>The model\<close>

record cmodel =
  cm_arena :: arena
  cm_rootId :: nat

definition cm_new :: "cmodel option" where
  "cm_new = do { (i, ar) \<leftarrow> allocate empty_arena TObject; Some \<lparr>cm_arena = ar, cm_rootId = i\<rparr> }"

definition cm_fromValue :: "config_value \<Rightarrow> (error + cmodel) option" where
  "cm_fromValue root =
     (if cv_type root \<noteq> TObject then Some (fail InvalidType ''model root must be an Object'')
      else (case validateTree root 0 of
          Inl e \<Rightarrow> Some (Inl e)
        | Inr _ \<Rightarrow> do {
            m \<leftarrow> cm_new;
            ar \<leftarrow> assignContents stack_fuel (cm_arena m) (cm_rootId m) root;
            Some (Inr (m\<lparr>cm_arena := ar\<rparr>)) }))"

definition cm_root :: "cmodel \<Rightarrow> config_node option" where
  "cm_root m = handle_to (cm_arena m) (cm_rootId m)"

fun resolve_from :: "arena \<Rightarrow> nat \<Rightarrow> path_segment list \<Rightarrow> (error + nat) option" where
  "resolve_from ar current [] = Some (Inr current)"
| "resolve_from ar current (Key k # rest) = do {
     n \<leftarrow> arena_get ar current;
     if ntype n \<noteq> TObject then Some (traverses_nonobject k)
     else (let child = findMember n k in
       if child = kNodeIdNone then Some (fail NodeNotFound (''no member '' @ quoted k))
       else resolve_from ar child rest) }"
| "resolve_from ar current (Index j # rest) = do {
     n \<leftarrow> arena_get ar current;
     if ntype n \<noteq> TArray then Some traverses_nonarray
     else if j \<ge> length (nelements n) then
       Some (fail NodeNotFound (''index '' @ nat_str j @ '' out of range (size ''
         @ nat_str (length (nelements n)) @ '')''))
     else resolve_from ar (nelements n ! j) rest }"

definition cm_resolve :: "cmodel \<Rightarrow> path_segment list \<Rightarrow> (error + nat) option" where
  "cm_resolve m p = resolve_from (cm_arena m) (cm_rootId m) p"

definition cm_getValue :: "cmodel \<Rightarrow> string \<Rightarrow> (error + config_value) option" where
  "cm_getValue m path = (case cp_parse path of
     Inl e \<Rightarrow> Some (Inl e)
   | Inr parsed \<Rightarrow> do {
       r \<leftarrow> cm_resolve m parsed;
       (case r of Inl e \<Rightarrow> Some (Inl e)
        | Inr i \<Rightarrow> map_option Inr (buildValue stack_fuel (cm_arena m) i)) })"

definition cm_set :: "cmodel \<Rightarrow> string \<Rightarrow> config_value \<Rightarrow> (cmodel \<times> (error + unit)) option" where
  "cm_set m path subtree = (case cp_parse path of
     Inl e \<Rightarrow> Some (m, Inl e)
   | Inr segments \<Rightarrow> (case validateTree subtree (length segments) of
       Inl e \<Rightarrow> Some (m, Inl e)
     | Inr _ \<Rightarrow> do {
         plan \<leftarrow> planWrite (cm_arena m) (cm_rootId m) segments (cv_type subtree);
         (case plan of
            Inl e \<Rightarrow> Some (m, Inl e)
          | Inr pl \<Rightarrow> do {
              ar \<leftarrow> applyWrite stack_fuel (cm_arena m) pl segments subtree;
              Some (m\<lparr>cm_arena := ar\<rparr>, Inr ()) }) }))"

text \<open>The scalar overload: the precondition of \<open>of\<close> first, so that its throw cannot happen.\<close>

definition cm_set_scalar :: "cmodel \<Rightarrow> string \<Rightarrow> cpp_scalar \<Rightarrow> (cmodel \<times> (error + unit)) option" where
  "cm_set_scalar m path x = (case ofPreconditionViolation x of
     Some violation \<Rightarrow> Some (m, fail InvalidType violation)
   | None \<Rightarrow> (case cv_of x of Of_throws t \<Rightarrow> None | Of_value v \<Rightarrow> cm_set m path v))"

definition cm_contains :: "cmodel \<Rightarrow> string \<Rightarrow> bool option" where
  "cm_contains m path = (case cp_parse path of
     Inl e \<Rightarrow> Some False
   | Inr parsed \<Rightarrow> do { r \<leftarrow> cm_resolve m parsed; Some (\<not> isl r) })"

definition erase_member :: "nat \<Rightarrow> (string \<times> nat) list \<Rightarrow> (string \<times> nat) list" where
  "erase_member i ms = (case dropWhile (\<lambda>m. snd m \<noteq> i) ms of
     [] \<Rightarrow> ms | m # tail \<Rightarrow> takeWhile (\<lambda>m. snd m \<noteq> i) ms @ tail)"

definition cm_remove :: "cmodel \<Rightarrow> string \<Rightarrow> (cmodel \<times> (error + unit)) option" where
  "cm_remove m path = (case cp_parse path of
     Inl e \<Rightarrow> Some (m, Inl e)
   | Inr parsed \<Rightarrow> do {
       r \<leftarrow> cm_resolve m parsed;
       (case r of
          Inl e \<Rightarrow> Some (m, Inl e)
        | Inr target \<Rightarrow> do {
            t \<leftarrow> arena_get (cm_arena m) target;
            pn \<leftarrow> arena_get (cm_arena m) (nparent t);
            ar1 \<leftarrow> (case last parsed of
                Key k \<Rightarrow> arena_modify (cm_arena m) (nparent t)
                  (\<lambda>n. n\<lparr>nmembers := erase_member target (nmembers n)\<rparr>)
              | Index j \<Rightarrow>
                  if j < length (nelements pn) then
                    arena_modify (cm_arena m) (nparent t)
                      (\<lambda>n. n\<lparr>nelements := take j (nelements n) @ drop (Suc j) (nelements n)\<rparr>)
                  else None);
            ar2 \<leftarrow> freeSubtree stack_fuel ar1 target;
            Some (m\<lparr>cm_arena := ar2\<rparr>, Inr ()) }) })"

definition cm_nodeAt :: "cmodel \<Rightarrow> string \<Rightarrow> (error + config_node) option" where
  "cm_nodeAt m path = (case cp_parse path of
     Inl e \<Rightarrow> Some (Inl e)
   | Inr parsed \<Rightarrow> do {
       r \<leftarrow> cm_resolve m parsed;
       (case r of Inl e \<Rightarrow> Some (Inl e)
        | Inr i \<Rightarrow> map_option Inr (handle_to (cm_arena m) i)) })"

text \<open>\<open>clone\<close> copies the arena slot by slot, generations included, and keeps the root id.\<close>

definition cm_clone :: "cmodel \<Rightarrow> cmodel" where
  "cm_clone m = \<lparr>cm_arena = \<lparr>nodes = nodes (cm_arena m), free_head = free_head (cm_arena m)\<rparr>,
     cm_rootId = cm_rootId m\<rparr>"

lemma cm_clone_id [simp]: "cm_clone m = m"
  by (simp add: cm_clone_def)

end
