(* ===== verification/Config_Tree.thy ===== *)
theory Config_Tree
  imports Config_Model
begin

text \<open>
  The abstract specification of a configuration tree: reading, writing and removing along a
  parsed path, directly on the value \<open>config_value\<close>, with the errors (code and message) the
  library documents. \<open>Model_Refinement\<close> proves that the arena operations of \<open>Config_Model\<close>
  implement it; this theory holds the laws a client relies on.
\<close>

section \<open>Operations\<close>

definition no_member :: "string \<Rightarrow> error + 'a" where
  "no_member k = fail NodeNotFound (''no member '' @ quoted k)"

definition out_of_range :: "nat \<Rightarrow> nat \<Rightarrow> error + 'a" where
  "out_of_range j n = fail NodeNotFound (''index '' @ nat_str j @ '' out of range (size '' @ nat_str n @ '')'')"

definition past_the_end :: "nat \<Rightarrow> nat \<Rightarrow> error + 'a" where
  "past_the_end j n = fail NodeNotFound (''array write index '' @ nat_str j
     @ '' is past the end (size '' @ nat_str n @ '')'')"

definition changes_type :: "error + 'a" where
  "changes_type = fail InvalidType ''write would change the type of the existing node; remove it first''"

fun tree_resolve :: "path_segment list \<Rightarrow> config_value \<Rightarrow> error + config_value" where
  "tree_resolve [] v = Inr v"
| "tree_resolve (Key k # ps) (Obj ms) =
     (case map_of ms k of None \<Rightarrow> no_member k | Some c \<Rightarrow> tree_resolve ps c)"
| "tree_resolve (Key k # ps) v = traverses_nonobject k"
| "tree_resolve (Index j # ps) (Arr es) =
     (if j \<ge> length es then out_of_range j (length es) else tree_resolve ps (es ! j))"
| "tree_resolve (Index j # ps) v = traverses_nonarray"

text \<open>Segments below the creation point may only use index 0.\<close>

fun check_creatable :: "path_segment list \<Rightarrow> error + unit" where
  "check_creatable [] = Inr ()"
| "check_creatable (Key k # ps) = check_creatable ps"
| "check_creatable (Index j # ps) =
     (if j \<noteq> 0 then fail NodeNotFound (''index '' @ nat_str j
        @ '' into a newly created array; only [0] can be appended'')
      else check_creatable ps)"

fun chain_value :: "path_segment list \<Rightarrow> config_value \<Rightarrow> config_value" where
  "chain_value [] v = v"
| "chain_value (Key k # ps) v = Obj [(k, chain_value ps v)]"
| "chain_value (Index j # ps) v = Arr [chain_value ps v]"

fun tree_set :: "path_segment list \<Rightarrow> config_value \<Rightarrow> config_value \<Rightarrow> error + config_value" where
  "tree_set [] new old = (if cv_type old \<noteq> cv_type new then changes_type else Inr new)"
| "tree_set (Key k # ps) new (Obj ms) = (case map_of ms k of
     None \<Rightarrow> (case check_creatable ps of Inl e \<Rightarrow> Inl e
              | Inr _ \<Rightarrow> Inr (Obj (ms @ [(k, chain_value ps new)])))
   | Some c \<Rightarrow> (case tree_set ps new c of Inl e \<Rightarrow> Inl e | Inr c' \<Rightarrow> Inr (Obj (upsert k c' ms))))"
| "tree_set (Key k # ps) new v = traverses_nonobject k"
| "tree_set (Index j # ps) new (Arr es) =
     (if j > length es then past_the_end j (length es)
      else if j = length es then
        (case check_creatable ps of Inl e \<Rightarrow> Inl e | Inr _ \<Rightarrow> Inr (Arr (es @ [chain_value ps new])))
      else (case tree_set ps new (es ! j) of Inl e \<Rightarrow> Inl e | Inr c' \<Rightarrow> Inr (Arr (es[j := c']))))"
| "tree_set (Index j # ps) new v = traverses_nonarray"

definition drop_nth :: "nat \<Rightarrow> 'a list \<Rightarrow> 'a list" where
  "drop_nth j xs = take j xs @ drop (Suc j) xs"

text \<open>The empty path never occurs; its equation only makes the function total.\<close>

fun tree_remove :: "path_segment list \<Rightarrow> config_value \<Rightarrow> error + config_value" where
  "tree_remove [] v = Inr v"
| "tree_remove (Key k # ps) (Obj ms) = (case map_of ms k of
     None \<Rightarrow> no_member k
   | Some c \<Rightarrow> (if ps = [] then Inr (Obj (delete_key k ms))
       else (case tree_remove ps c of Inl e \<Rightarrow> Inl e | Inr c' \<Rightarrow> Inr (Obj (upsert k c' ms)))))"
| "tree_remove (Key k # ps) v = traverses_nonobject k"
| "tree_remove (Index j # ps) (Arr es) =
     (if j \<ge> length es then out_of_range j (length es)
      else if ps = [] then Inr (Arr (drop_nth j es))
      else (case tree_remove ps (es ! j) of Inl e \<Rightarrow> Inl e | Inr c' \<Rightarrow> Inr (Arr (es[j := c']))))"
| "tree_remove (Index j # ps) v = traverses_nonarray"

text \<open>Unchecked replacement of the subtree at an existing path.\<close>

fun tree_put :: "path_segment list \<Rightarrow> config_value \<Rightarrow> config_value \<Rightarrow> config_value" where
  "tree_put [] new v = new"
| "tree_put (Key k # ps) new (Obj ms) = (case map_of ms k of
     None \<Rightarrow> Obj ms | Some c \<Rightarrow> Obj (upsert k (tree_put ps new c) ms))"
| "tree_put (Index j # ps) new (Arr es) =
     (if j < length es then Arr (es[j := tree_put ps new (es ! j)]) else Arr es)"
| "tree_put (s # ps) new v = v"

section \<open>Well-formed trees\<close>

text \<open>
  What is wrong with a value placed at depth \<open>d\<close>, in document order: nodes nested too deeply, and keys
  that are not a path text of their own (by the grammar of paths). The value is refused with the
  first of these.
\<close>

definition depth_defect :: "nat \<Rightarrow> error list" where
  "depth_defect d = (if d > kMaxTreeDepth
     then [\<lparr>err_code = InvalidPath, err_message = ''value exceeds the maximum nesting depth ('' @ nat_str kMaxTreeDepth @ '')''\<rparr>] else [])"

definition key_defect :: "string \<Rightarrow> error list" where
  "key_defect k = (if g_path k [Key k]
     then [] else [\<lparr>err_code = InvalidPath, err_message = ''object key '' @ quoted k @ '' is not path-addressable''\<rparr>])"

primrec defects :: "config_value \<Rightarrow> nat \<Rightarrow> error list" where
  "defects (Scal s) = depth_defect"
| "defects (Obj ms) = (\<lambda>d. depth_defect d @ concat (map (\<lambda>m. key_defect (fst m) @ snd m (Suc d)) (map (map_prod id defects) ms)))"
| "defects (Arr es) = (\<lambda>d. depth_defect d @ concat (map (\<lambda>e. e (Suc d)) (map defects es)))"

definition spec_validate :: "config_value \<Rightarrow> nat \<Rightarrow> error + unit" where
  "spec_validate v d = (case defects v d of [] \<Rightarrow> Inr () | e # _ \<Rightarrow> Inl e)"

lemma defects_simps [simp]:
  "defects (Obj ms) d = depth_defect d @ concat (map (\<lambda>(k, v). key_defect k @ defects v (Suc d)) ms)"
  "defects (Arr es) d = depth_defect d @ concat (map (\<lambda>v. defects v (Suc d)) es)"
  by (simp_all add: comp_def case_prod_beta')

declare defects.simps(2,3) [simp del]

lemma g_path_key [simp]: "g_path k [Key k] \<longleftrightarrow> isAddressableKey k"
  using cp_parse_iff_g_path[of k "[Key k]"] cp_parse_key[of k] g_path_wf[of k "[Key k]"] by (auto simp: wf_path_def)

text \<open>The recursion of the code stops at the first defect.\<close>

definition first_defect :: "error list \<Rightarrow> error + unit" where
  "first_defect es = (case es of [] \<Rightarrow> Inr () | e # _ \<Rightarrow> Inl e)"

lemma first_defect_simps [simp]:
  "first_defect [] = Inr ()" "first_defect (e # es) = Inl e"
  "first_defect (es @ fs) = (case first_defect es of Inl e \<Rightarrow> Inl e | Inr _ \<Rightarrow> first_defect fs)"
  by (simp_all add: first_defect_def split: list.split)

lemma validate_first_defect:
  "validateTree v d = first_defect (defects v d)"
  "validateMembers ms d = first_defect (concat (map (\<lambda>(k, v). key_defect k @ defects v d) ms))"
  "validateElements es d = first_defect (concat (map (\<lambda>v. defects v d) es))"
  by (induction v d and ms d and es d rule: validateTree_validateMembers_validateElements.induct)
    (auto simp: depth_defect_def key_defect_def fail_def simp del: Inl_fold_fail split: sum.split)

lemma spec_validate_code [simp]: "spec_validate v d = validateTree v d"
  by (simp add: spec_validate_def validate_first_defect first_defect_def)

text \<open>What every model holds: object-rooted, addressable and distinct keys, bounded depth.\<close>

definition wf_at :: "nat \<Rightarrow> config_value \<Rightarrow> bool" where
  "wf_at d v \<longleftrightarrow> defects v d = [] \<and> cv_distinct v"

lemma wf_at_validate: "wf_at d v \<longleftrightarrow> validateTree v d = Inr () \<and> cv_distinct v"
  by (auto simp: wf_at_def validate_first_defect first_defect_def split: list.split)

definition wf_model_value :: "config_value \<Rightarrow> bool" where
  "wf_model_value v \<longleftrightarrow> cv_type v = TObject \<and> wf_at 0 v"

lemma validateMembers_ok: "validateMembers ms d = Inr () \<longleftrightarrow>
   (\<forall>(k, v) \<in> set ms. isAddressableKey k \<and> validateTree v d = Inr ())"
  by (induction ms) (auto split: sum.splits if_splits)

lemma validateElements_ok: "validateElements es d = Inr () \<longleftrightarrow> (\<forall>v \<in> set es. validateTree v d = Inr ())"
  by (induction es) (auto split: sum.splits)

lemma wf_at_Scal [simp]: "wf_at d (Scal s) \<longleftrightarrow> d \<le> kMaxTreeDepth"
  by (auto simp: wf_at_validate)

lemma wf_at_Obj [simp]: "wf_at d (Obj ms) \<longleftrightarrow> d \<le> kMaxTreeDepth \<and> distinct (map fst ms) \<and>
   (\<forall>(k, v) \<in> set ms. isAddressableKey k \<and> wf_at (Suc d) v)"
  by (auto simp: wf_at_validate validateMembers_ok)

lemma wf_at_Arr [simp]: "wf_at d (Arr es) \<longleftrightarrow> d \<le> kMaxTreeDepth \<and> (\<forall>v \<in> set es. wf_at (Suc d) v)"
  by (auto simp: wf_at_validate validateElements_ok)

lemma wf_at_depth: "wf_at d v \<Longrightarrow> d \<le> kMaxTreeDepth"
  by (cases v) auto

lemma wf_at_kid: "wf_at d v \<Longrightarrow> c \<in> set (cv_kids v) \<Longrightarrow> wf_at (Suc d) c"
  by (cases v) auto

lemma map_of_wf: "wf_at d (Obj ms) \<Longrightarrow> map_of ms k = Some c \<Longrightarrow> wf_at (Suc d) c \<and> isAddressableKey k"
  by (auto dest: map_of_SomeD)

lemma tree_resolve_wf: "tree_resolve p v = Inr c \<Longrightarrow> wf_at d v \<Longrightarrow> wf_at (d + length p) c"
proof (induction p v arbitrary: d rule: tree_resolve.induct)
  case (2 k ps ms)
  then obtain c' where "map_of ms k = Some c'" "tree_resolve ps c' = Inr c"
    by (auto simp: no_member_def split: option.splits)
  with 2 show ?case using map_of_wf[OF "2.prems"(2)] by fastforce
next
  case (4 j ps es)
  then have "j < length es" "tree_resolve ps (es ! j) = Inr c"
    by (auto simp: out_of_range_def split: if_splits)
  with 4 show ?case by fastforce
qed (auto simp: traverses_nonobject_def traverses_nonarray_def)

text \<open>Read off the paths: no defect if and only if no path into the value is too long or has a key that is no path text.\<close>

definition sound_paths :: "nat \<Rightarrow> config_value \<Rightarrow> bool" where
  "sound_paths d v \<longleftrightarrow> (\<forall>p c. tree_resolve p v = Inr c \<longrightarrow>
     d + length p \<le> kMaxTreeDepth \<and> (\<forall>k. Key k \<in> set p \<longrightarrow> g_path k [Key k]))"

lemma no_defects_sound: "wf_at d v \<Longrightarrow> tree_resolve p v = Inr c \<Longrightarrow> Key k \<in> set p \<Longrightarrow> g_path k [Key k]"
proof (induction p v arbitrary: d rule: tree_resolve.induct)
  case (2 k' ps ms)
  then obtain c' where "map_of ms k' = Some c'" "tree_resolve ps c' = Inr c"
    by (auto simp: no_member_def split: option.splits)
  with 2 show ?case using map_of_wf[OF "2.prems"(1)] by fastforce
next
  case (4 j ps es)
  then have "j < length es" "tree_resolve ps (es ! j) = Inr c"
    by (auto simp: out_of_range_def split: if_splits)
  with 4 show ?case by fastforce
qed (auto simp: traverses_nonobject_def traverses_nonarray_def)

lemma sound_paths_step:
  assumes "sound_paths d v" "tree_resolve [x] v = Inr c"
  shows "sound_paths (Suc d) c"
proof -
  have "tree_resolve (x # p) v = tree_resolve p c" for p
    using assms(2) by (cases x; cases v)
      (auto simp: no_member_def out_of_range_def traverses_nonobject_def traverses_nonarray_def split: option.splits if_splits)
  then show ?thesis using assms(1) unfolding sound_paths_def by (metis add_Suc_shift length_Cons list.set_intros(2))
qed

lemma sound_no_defects: "cv_distinct v \<Longrightarrow> sound_paths d v \<Longrightarrow> wf_at d v"
proof (induction v arbitrary: d)
  case (Scal s)
  from Scal(2)[unfolded sound_paths_def, rule_format, of "[]"] show ?case by simp
next
  case (Obj ms)
  have d: "d \<le> kMaxTreeDepth" using Obj(3)[unfolded sound_paths_def, rule_format, of "[]"] by simp
  have "isAddressableKey k \<and> wf_at (Suc d) c" if kc: "(k, c) \<in> set ms" for k c
  proof -
    have r: "tree_resolve [Key k] (Obj ms) = Inr c" using kc Obj(2) by simp
    have "isAddressableKey k" using Obj(3)[unfolded sound_paths_def, rule_format, OF r] by simp
    moreover have "wf_at (Suc d) c" using Obj(1)[OF kc] kc Obj(2) sound_paths_step[OF Obj(3) r] by auto
    ultimately show ?thesis by simp
  qed
  with d Obj(2) show ?case by auto
next
  case (Arr es)
  have d: "d \<le> kMaxTreeDepth" using Arr(3)[unfolded sound_paths_def, rule_format, of "[]"] by simp
  have "wf_at (Suc d) c" if c: "c \<in> set es" for c
  proof -
    from c obtain j where j: "j < length es" "es ! j = c" by (auto simp: in_set_conv_nth)
    then have "tree_resolve [Index j] (Arr es) = Inr c" by simp
    from sound_paths_step[OF Arr(3) this] show ?thesis using Arr(1)[OF c] Arr(2) c by simp
  qed
  with d show ?case by simp
qed

lemma no_defects_paths:
  assumes "cv_distinct v"
  shows "defects v d = [] \<longleftrightarrow> (\<forall>p c. tree_resolve p v = Inr c \<longrightarrow>
    d + length p \<le> kMaxTreeDepth \<and> (\<forall>k. Key k \<in> set p \<longrightarrow> g_path k [Key k]))"
proof
  assume "defects v d = []"
  then have w: "wf_at d v" using assms by (simp add: wf_at_def)
  from tree_resolve_wf[OF _ w] wf_at_depth no_defects_sound[OF w] show "\<forall>p c. tree_resolve p v = Inr c \<longrightarrow>
    d + length p \<le> kMaxTreeDepth \<and> (\<forall>k. Key k \<in> set p \<longrightarrow> g_path k [Key k])" by blast
qed (use sound_no_defects[OF assms, of d] in \<open>simp add: sound_paths_def wf_at_def\<close>)

lemma tree_resolve_append:
  "tree_resolve (p @ q) v = (case tree_resolve p v of Inl e \<Rightarrow> Inl e | Inr c \<Rightarrow> tree_resolve q c)"
  by (induction p v rule: tree_resolve.induct)
    (auto simp: no_member_def out_of_range_def traverses_nonobject_def traverses_nonarray_def
      split: option.splits sum.splits)

section \<open>A write either replaces an existing node or appends one child\<close>

fun append_child :: "config_value \<Rightarrow> path_segment \<Rightarrow> config_value \<Rightarrow> config_value" where
  "append_child (Obj ms) (Key k) c = Obj (ms @ [(k, c)])"
| "append_child (Arr es) (Index j) c = Arr (es @ [c])"
| "append_child v s c = v"

fun missing_at :: "config_value \<Rightarrow> path_segment \<Rightarrow> bool" where
  "missing_at (Obj ms) (Key k) \<longleftrightarrow> k \<notin> fst ` set ms"
| "missing_at (Arr es) (Index j) \<longleftrightarrow> j = length es"
| "missing_at v s \<longleftrightarrow> False"

lemma tree_set_existing:
  "tree_resolve p v = Inr old \<Longrightarrow>
     tree_set p new v = (if cv_type old \<noteq> cv_type new then changes_type else Inr (tree_put p new v))"
  by (induction p v rule: tree_resolve.induct)
    (auto simp: no_member_def out_of_range_def traverses_nonobject_def traverses_nonarray_def
      changes_type_def split: option.splits if_splits)

lemma tree_set_creating:
  "tree_resolve a v = Inr c \<Longrightarrow> missing_at c s \<Longrightarrow>
     tree_set (a @ s # b) new v = (case check_creatable b of Inl e \<Rightarrow> Inl e
       | Inr _ \<Rightarrow> Inr (tree_put a (append_child c s (chain_value b new)) v))"
proof (induction a v rule: tree_resolve.induct)
  case (1 v)
  then show ?case by (cases v; cases s) (auto simp: map_of_eq_None_iff[THEN iffD2] split: sum.splits)
qed (auto simp: no_member_def out_of_range_def traverses_nonobject_def traverses_nonarray_def
      split: option.splits if_splits sum.splits)

text \<open>Every successful write is one of the two.\<close>

definition set_outcome ::
    "path_segment list \<Rightarrow> config_value \<Rightarrow> config_value \<Rightarrow> config_value \<Rightarrow> bool" where
  "set_outcome p new v v' \<longleftrightarrow>
     (\<exists>old. tree_resolve p v = Inr old \<and> cv_type old = cv_type new \<and> v' = tree_put p new v) \<or>
     (\<exists>a s b c. p = a @ s # b \<and> tree_resolve a v = Inr c \<and> missing_at c s \<and>
        check_creatable b = Inr () \<and> v' = tree_put a (append_child c s (chain_value b new)) v)"

lemma set_outcome_create:
  "missing_at v s \<Longrightarrow> check_creatable b = Inr () \<Longrightarrow> v' = append_child v s (chain_value b new) \<Longrightarrow>
     set_outcome (s # b) new v v'"
  unfolding set_outcome_def
  by (rule disjI2, rule exI[of _ "[]"], rule exI[of _ s], rule exI[of _ b], rule exI[of _ v]) simp

lemma set_outcome_step:
  assumes "set_outcome ps new c c'" and "\<And>q. tree_resolve (s # q) v = tree_resolve q c"
    and "\<And>q x. tree_put (s # q) x v = up (tree_put q x c)"
  shows "set_outcome (s # ps) new v (up c')"
  using assms(1) unfolding set_outcome_def
proof (elim disjE exE conjE)
  fix a t b d
  assume *: "ps = a @ t # b" "tree_resolve a c = Inr d" "missing_at d t"
    "check_creatable b = Inr ()" "c' = tree_put a (append_child d t (chain_value b new)) c"
  show "(\<exists>old. tree_resolve (s # ps) v = Inr old \<and> cv_type old = cv_type new \<and> up c' = tree_put (s # ps) new v) \<or>
     (\<exists>a t b c. s # ps = a @ t # b \<and> tree_resolve a v = Inr c \<and> missing_at c t \<and>
        check_creatable b = Inr () \<and> up c' = tree_put a (append_child c t (chain_value b new)) v)"
    by (rule disjI2, rule exI[of _ "s # a"], rule exI[of _ t], rule exI[of _ b], rule exI[of _ d])
      (simp add: * assms(2,3))
qed (simp add: assms(2,3))

lemma tree_set_outcome: "tree_set p new v = Inr v' \<Longrightarrow> set_outcome p new v v'"
proof (induction p new v arbitrary: v' rule: tree_set.induct)
  case (1 new old)
  then show ?case by (auto simp: set_outcome_def changes_type_def split: if_splits)
next
  case (2 k ps new ms)
  show ?case
  proof (cases "map_of ms k")
    case None
    with "2.prems" show ?thesis
      by (intro set_outcome_create) (auto simp: map_of_eq_None_iff split: sum.splits)
  next
    case (Some c)
    with "2.prems" obtain c' where c': "tree_set ps new c = Inr c'" "v' = Obj (upsert k c' ms)"
      by (auto split: sum.splits)
    from "2.IH"[OF Some c'(1)] show ?thesis unfolding c'(2)
      by (rule set_outcome_step[where up = "\<lambda>x. Obj (upsert k x ms)"]) (simp_all add: Some)
  qed
next
  case (4 j ps new es)
  consider "j < length es" | "j = length es"
    using "4.prems" by (fastforce simp: past_the_end_def split: if_splits)
  then show ?case
  proof cases
    case 1
    with "4.prems" obtain c' where c': "tree_set ps new (es ! j) = Inr c'" "v' = Arr (es[j := c'])"
      by (auto split: sum.splits)
    from 1 have "\<not> length es < j" "j \<noteq> length es" by simp_all
    from "4.IH"[OF this c'(1)] show ?thesis unfolding c'(2)
      by (rule set_outcome_step[where up = "\<lambda>x. Arr (es[j := x])"]) (use 1 in auto)
  next
    case 2
    with "4.prems" show ?thesis
      by (intro set_outcome_create) (auto split: sum.splits)
  qed
qed (auto simp: traverses_nonobject_def traverses_nonarray_def)

lemma tree_set_cases:
  assumes "tree_set p new v = Inr v'"
  obtains (replace) old where "tree_resolve p v = Inr old" "cv_type old = cv_type new" "v' = tree_put p new v"
  | (create) a s b c where "p = a @ s # b" "tree_resolve a v = Inr c" "missing_at c s"
      "check_creatable b = Inr ()" "v' = tree_put a (append_child c s (chain_value b new)) v"
  using tree_set_outcome[OF assms] that unfolding set_outcome_def by blast

section \<open>Laws\<close>

text \<open>A read after a successful write returns what was written.\<close>

lemma resolve_chain: "check_creatable b = Inr () \<Longrightarrow> tree_resolve b (chain_value b new) = Inr new"
proof (induction b)
  case (Cons s b)
  then show ?case by (cases s) (auto split: if_splits)
qed simp

lemma tree_get_set: "tree_set p new v = Inr v' \<Longrightarrow> tree_resolve p v' = Inr new"
proof (induction p new v arbitrary: v' rule: tree_set.induct)
  case (2 k ps new ms)
  then show ?case
    by (cases "map_of ms k")
      (auto simp: map_add_def map_of_upsert map_of_append resolve_chain
        simp del: append.simps split: sum.splits)
next
  case (4 j ps new es)
  then show ?case
    by (auto simp: past_the_end_def nth_append resolve_chain split: sum.splits if_splits)
qed (auto simp: changes_type_def traverses_nonobject_def traverses_nonarray_def split: if_splits)

text \<open>Nothing off the written path changes: neither appears nor disappears.\<close>

definition diverge :: "path_segment list \<Rightarrow> path_segment list \<Rightarrow> bool" where
  "diverge p q \<longleftrightarrow> (\<exists>a s t b c. s \<noteq> t \<and> p = a @ s # b \<and> q = a @ t # c)"

lemma diverge_Nil [simp]: "\<not> diverge [] q" "\<not> diverge p []"
  by (auto simp: diverge_def)

lemma diverge_Cons [simp]: "diverge (s # p) (t # q) \<longleftrightarrow> s \<noteq> t \<or> diverge p q"
proof
  assume "diverge (s # p) (t # q)"
  then obtain a x y b c where *: "x \<noteq> y" "s # p = a @ x # b" "t # q = a @ y # c"
    by (auto simp: diverge_def)
  then show "s \<noteq> t \<or> diverge p q" by (cases a) (auto simp: diverge_def)
next
  assume "s \<noteq> t \<or> diverge p q"
  then show "diverge (s # p) (t # q)"
  proof
    assume "s \<noteq> t"
    then show ?thesis unfolding diverge_def by (metis append_Nil)
  next
    assume "diverge p q"
    then show ?thesis unfolding diverge_def
      by (cases "s = t") (metis append_Cons, metis append_Nil)
  qed
qed

lemma resolve_chain_diverge:
  "check_creatable b = Inr () \<Longrightarrow> diverge b q \<Longrightarrow> \<not> isl (tree_resolve q (chain_value b new)) \<Longrightarrow> False"
proof (induction b arbitrary: q)
  case (Cons s b)
  then obtain t r where q: "q = t # r" by (cases q) auto
  with Cons show ?case
    by (cases s; cases t) (auto simp: no_member_def out_of_range_def traverses_nonobject_def
      traverses_nonarray_def not_less_eq_eq split: if_splits)
qed simp

lemma tree_set_frame:
  "tree_set p new v = Inr v' \<Longrightarrow> diverge p q \<Longrightarrow> tree_resolve q v' = Inr c \<longleftrightarrow> tree_resolve q v = Inr c"
proof (induction p new v arbitrary: v' q rule: tree_set.induct)
  case (2 k ps new ms)
  from "2.prems"(2) obtain t r where q: "q = t # r" by (cases q) auto
  show ?case
  proof (cases t)
    case (Index j)
    with q "2.prems" show ?thesis by (auto simp: traverses_nonarray_def split: option.splits sum.splits)
  next
    case (Key k')
    show ?thesis
    proof (cases "map_of ms k")
      case None
      with "2.prems" have ok: "check_creatable ps = Inr ()" and v': "v' = Obj (ms @ [(k, chain_value ps new)])"
        by (auto split: sum.splits)
      have "k' = k \<Longrightarrow> tree_resolve r (chain_value ps new) \<noteq> Inr c"
        using resolve_chain_diverge[OF ok, of r new] "2.prems"(2) q Key by auto
      then show ?thesis using None v' q Key
        by (cases "k' = k") (auto simp: no_member_def map_add_def split: option.splits)
    next
      case (Some d)
      with "2.prems" obtain d' where d': "tree_set ps new d = Inr d'" "v' = Obj (upsert k d' ms)"
        by (auto split: sum.splits)
      show ?thesis
        using "2.IH"[OF Some d'(1), of r] "2.prems"(2) q Key Some d'
        by (cases "k' = k") (auto simp: map_of_upsert split: option.splits)
    qed
  qed
next
  case (4 j ps new es)
  from "4.prems"(2) obtain t r where q: "q = t # r" by (cases q) auto
  show ?case
  proof (cases t)
    case (Key k)
    with q "4.prems" show ?thesis
      by (auto simp: traverses_nonobject_def past_the_end_def split: if_splits sum.splits)
  next
    case (Index i)
    consider "j < length es" | "j = length es"
      using "4.prems"(1) by (fastforce simp: past_the_end_def split: if_splits)
    then show ?thesis
    proof cases
      case 1
      with "4.prems" obtain d' where d': "tree_set ps new (es ! j) = Inr d'" "v' = Arr (es[j := d'])"
        by (auto split: sum.splits)
      from 1 have "\<not> length es < j" "j \<noteq> length es" by simp_all
      from "4.IH"[OF this d'(1), of r] show ?thesis
        using "4.prems"(2) q Index d' 1
        by (cases "i = j") (auto simp: out_of_range_def)
    next
      case 2
      with "4.prems" have ok: "check_creatable ps = Inr ()" and v': "v' = Arr (es @ [chain_value ps new])"
        by (auto split: sum.splits)
      have "i = j \<Longrightarrow> tree_resolve r (chain_value ps new) \<noteq> Inr c"
        using resolve_chain_diverge[OF ok, of r new] "4.prems"(2) q Index by auto
      then show ?thesis using v' 2 q Index
        by (cases "i = j") (auto simp: out_of_range_def nth_append)
    qed
  qed
qed (auto simp: traverses_nonobject_def traverses_nonarray_def)

text \<open>A write keeps the type of every node on the way and of the final node, if it was there.\<close>

lemma tree_set_type: "tree_set p new v = Inr v' \<Longrightarrow> cv_type v' = cv_type v"
  by (induction p new v rule: tree_set.induct)
    (auto simp: changes_type_def traverses_nonobject_def traverses_nonarray_def past_the_end_def
      split: if_splits option.splits sum.splits)

text \<open>Nor does it change the type of any other node, unless that is below the written one.\<close>

definition below_path :: "path_segment list \<Rightarrow> path_segment list \<Rightarrow> bool" where
  "below_path p q \<longleftrightarrow> (\<exists>s r. q = p @ s # r)"

lemma below_path_simps [simp]: "below_path [] q \<longleftrightarrow> q \<noteq> []" "\<not> below_path (s # p) []"
  "below_path (s # p) (t # q) \<longleftrightarrow> s = t \<and> below_path p q"
  by (auto simp: below_path_def neq_Nil_conv)

lemma tree_set_keeps_type:
  "tree_set p new v = Inr v' \<Longrightarrow> \<not> below_path p q \<Longrightarrow> tree_resolve q v = Inr c \<Longrightarrow>
     \<exists>c'. tree_resolve q v' = Inr c' \<and> cv_type c' = cv_type c"
proof (induction p new v arbitrary: v' q c rule: tree_set.induct)
  case (1 new old)
  then show ?case by (auto simp: changes_type_def split: if_splits)
next
  case (2 k ps new ms)
  show ?case
  proof (cases "q = []")
    case True
    with "2.prems" tree_set_type[OF "2.prems"(1)] show ?thesis by simp
  next
    case False
    then obtain k' r where q: "q = Key k' # r" using "2.prems"(3)
      by (cases q rule: list.exhaust; cases "hd q") (auto simp: traverses_nonarray_def)
    show ?thesis
    proof (cases "map_of ms k")
      case None
      with "2.prems" q show ?thesis by (auto simp: no_member_def map_add_def split: sum.splits option.splits)
    next
      case (Some d)
      with "2.prems" obtain d' where d': "tree_set ps new d = Inr d'" "v' = Obj (upsert k d' ms)" by (auto split: sum.splits)
      from "2.IH"[OF Some d'(1), of r] "2.prems"(2,3) q Some d'
      show ?thesis by (cases "k' = k") (auto simp: map_of_upsert split: option.splits)
    qed
  qed
next
  case (4 j ps new es)
  show ?case
  proof (cases "q = []")
    case True
    with "4.prems" tree_set_type[OF "4.prems"(1)] show ?thesis by simp
  next
    case False
    then obtain i r where q: "q = Index i # r" using "4.prems"(3)
      by (cases q rule: list.exhaust; cases "hd q") (auto simp: traverses_nonobject_def)
    then have i: "i < length es" using "4.prems"(3) by (auto simp: out_of_range_def split: if_splits)
    consider "j < length es" | "j = length es"
      using "4.prems"(1) by (fastforce simp: past_the_end_def split: if_splits)
    then show ?thesis
    proof cases
      case 1
      with "4.prems" obtain d' where d': "tree_set ps new (es ! j) = Inr d'" "v' = Arr (es[j := d'])" by (auto split: sum.splits)
      from 1 have "\<not> length es < j" "j \<noteq> length es" by simp_all
      from "4.IH"[OF this d'(1), of r] "4.prems"(2,3) q d' i show ?thesis by (cases "i = j") auto
    next
      case 2
      with "4.prems" q i show ?thesis by (auto simp: nth_append split: sum.splits)
    qed
  qed
qed (auto simp: traverses_nonobject_def traverses_nonarray_def)

text \<open>Well-formedness: the written value is admitted at the depth of the path.\<close>

fun wf_segments :: "path_segment list \<Rightarrow> bool" where
  "wf_segments [] = True"
| "wf_segments (Key k # ps) = (isAddressableKey k \<and> wf_segments ps)"
| "wf_segments (Index j # ps) = wf_segments ps"

lemma wf_chain: "wf_segments b \<Longrightarrow> wf_at (d + length b) new \<Longrightarrow> wf_at d (chain_value b new)"
proof (induction b arbitrary: d)
  case (Cons s b)
  then have "wf_at (Suc d) (chain_value b new)" "d \<le> kMaxTreeDepth"
    using wf_at_depth[OF Cons.prems(2)] by (cases s; auto)+
  with Cons show ?case by (cases s) auto
qed simp

lemma tree_set_wf:
  "tree_set p new v = Inr v' \<Longrightarrow> wf_at d v \<Longrightarrow> wf_segments p \<Longrightarrow> wf_at (d + length p) new \<Longrightarrow> wf_at d v'"
proof (induction p new v arbitrary: d v' rule: tree_set.induct)
  case (2 k ps new ms)
  show ?case
  proof (cases "map_of ms k")
    case None
    with "2.prems" have "v' = Obj (ms @ [(k, chain_value ps new)])" by (auto split: sum.splits)
    with 2 None show ?thesis using wf_chain[of ps "Suc d" new] by (auto simp: map_of_eq_None_iff)
  next
    case (Some c)
    with "2.prems" obtain c' where c': "tree_set ps new c = Inr c'" "v' = Obj (upsert k c' ms)"
      by (auto split: sum.splits)
    have "wf_at (Suc d) c'"
      using "2.IH"[OF Some c'(1), of "Suc d"] map_of_wf[OF "2.prems"(2) Some] "2.prems" by simp
    then show ?thesis
      using "2.prems" c' set_upsert_subset[of k c' ms] by (auto simp: distinct_keys_upsert)
  qed
next
  case (4 j ps new es)
  consider "j < length es" | "j = length es"
    using "4.prems"(1) by (fastforce simp: past_the_end_def split: if_splits)
  then show ?case
  proof cases
    case 1
    with "4.prems" obtain c' where c': "tree_set ps new (es ! j) = Inr c'" "v' = Arr (es[j := c'])"
      by (auto split: sum.splits)
    from 1 have "\<not> length es < j" "j \<noteq> length es" by simp_all
    from "4.IH"[OF this c'(1), of "Suc d"] 1 have "wf_at (Suc d) c'" using "4.prems" by simp
    then show ?thesis using "4.prems" c'(2) set_update_subset_insert[of es j c'] by auto
  next
    case 2
    with "4.prems" have "v' = Arr (es @ [chain_value ps new])" by (auto split: sum.splits)
    with 4 show ?thesis using wf_chain[of ps "Suc d" new] by auto
  qed
qed (auto simp: changes_type_def traverses_nonobject_def traverses_nonarray_def split: if_splits)

lemma wf_segments_all: "\<forall>s \<in> set p. wf_segment s \<Longrightarrow> wf_segments p"
  by (induction p rule: wf_segments.induct) auto

lemma parsed_segments: "cp_parse s = Inr p \<Longrightarrow> p \<noteq> [] \<and> wf_segments p"
  by (drule cp_parse_wf) (simp add: wf_path_def wf_segments_all)

section \<open>Removal\<close>

lemma set_drop_nth: "set (drop_nth j xs) \<subseteq> set xs"
  by (auto simp: drop_nth_def dest: in_set_takeD in_set_dropD)

lemma nth_drop_nth: "j < length xs \<Longrightarrow> i < length xs - 1 \<Longrightarrow>
    drop_nth j xs ! i = xs ! (if i < j then i else Suc i)"
  by (auto simp: drop_nth_def nth_append)

lemma length_drop_nth: "j < length xs \<Longrightarrow> length (drop_nth j xs) = length xs - 1"
  by (simp add: drop_nth_def)

lemma tree_remove_wf: "tree_remove p v = Inr v' \<Longrightarrow> wf_at d v \<Longrightarrow> wf_at d v'"
proof (induction p v arbitrary: d v' rule: tree_remove.induct)
  case (2 k ps ms)
  then obtain c where c: "map_of ms k = Some c" by (auto simp: no_member_def split: option.splits)
  show ?case
  proof (cases "ps = []")
    case True
    with 2 c show ?thesis
      using set_delete_key_subset[of k ms] by (fastforce simp: distinct_keys_delete)
  next
    case False
    with "2.prems" c obtain c' where c': "tree_remove ps c = Inr c'" "v' = Obj (upsert k c' ms)"
      by (auto split: sum.splits)
    have "wf_at (Suc d) c'"
      using "2.IH"[OF c False c'(1), of "Suc d"] map_of_wf[OF "2.prems"(2) c] by simp
    then show ?thesis
      using "2.prems" map_of_wf[OF "2.prems"(2) c] c' set_upsert_subset[of k c' ms]
      by (auto simp: distinct_keys_upsert)
  qed
next
  case (4 j ps es)
  then have j: "j < length es" by (auto simp: out_of_range_def split: if_splits)
  show ?case
  proof (cases "ps = []")
    case True
    with 4 j show ?thesis using set_drop_nth[of j es] by (auto dest!: subsetD[OF set_drop_nth])
  next
    case False
    with "4.prems" j obtain c' where c': "tree_remove ps (es ! j) = Inr c'" "v' = Arr (es[j := c'])"
      by (auto split: sum.splits)
    from j have "\<not> length es \<le> j" by simp
    from "4.IH"[OF this False c'(1), of "Suc d"] have "wf_at (Suc d) c'" using "4.prems" j by simp
    then show ?thesis using "4.prems" c'(2) set_update_subset_insert[of es j c'] by auto
  qed
qed (auto simp: traverses_nonobject_def traverses_nonarray_def)

lemma tree_remove_type: "tree_remove p v = Inr v' \<Longrightarrow> cv_type v' = cv_type v"
  by (induction p v rule: tree_remove.induct)
    (auto simp: no_member_def out_of_range_def traverses_nonobject_def traverses_nonarray_def
      split: if_splits option.splits sum.splits)

text \<open>Removal succeeds exactly on the paths that resolve, with the same error otherwise.\<close>

lemma tree_remove_isl: "isl (tree_remove p v) \<longleftrightarrow> isl (tree_resolve p v)"
  by (induction p v rule: tree_remove.induct)
    (auto simp: no_member_def out_of_range_def traverses_nonobject_def traverses_nonarray_def
      split: if_splits option.splits sum.splits)

lemma tree_remove_error: "tree_resolve p v = Inl e \<Longrightarrow> tree_remove p v = Inl e"
proof (induction p v rule: tree_remove.induct)
  case (2 k ps ms)
  then show ?case by (cases "ps = []") (auto split: option.splits)
next
  case (4 j ps es)
  then show ?case by (cases "ps = []") (auto split: if_splits)
qed auto

text \<open>A removed member is gone, and every path that leaves the removed one keeps its node.\<close>

lemma tree_remove_gone:
  "tree_remove p v = Inr v' \<Longrightarrow> p \<noteq> [] \<Longrightarrow> last p = Key k \<Longrightarrow> wf_at d v \<Longrightarrow>
     tree_resolve p v' = no_member k"
proof (induction p v arbitrary: d v' rule: tree_remove.induct)
  case (2 k' ps ms)
  obtain c where c: "map_of ms k' = Some c"
    using "2.prems"(1) by (cases "map_of ms k'") (simp_all add: no_member_def)
  show ?case
  proof (cases "ps = []")
    case True
    with 2 c show ?thesis by (auto simp: map_of_delete_key)
  next
    case False
    with "2.prems"(1) c obtain c' where c': "tree_remove ps c = Inr c'" "v' = Obj (upsert k' c' ms)"
      by (auto split: sum.splits)
    have "tree_resolve ps c' = no_member k"
      using "2.IH"[OF c False c'(1), of "Suc d"] map_of_wf[OF "2.prems"(4) c] "2.prems"(3) False by simp
    then show ?thesis using c' by (simp add: map_of_upsert)
  qed
next
  case (4 j ps es)
  then have j: "\<not> length es \<le> j" "ps \<noteq> []" by (auto simp: out_of_range_def split: if_splits)
  with "4.prems"(1) obtain c' where c': "tree_remove ps (es ! j) = Inr c'" "v' = Arr (es[j := c'])"
    by (auto split: sum.splits)
  have "tree_resolve ps c' = no_member k"
    using "4.IH"[OF j c'(1), of "Suc d"] j "4.prems"(3,4) by simp
  then show ?case using c' j by simp
qed (auto simp: traverses_nonobject_def traverses_nonarray_def)

lemma tree_remove_frame:
  "tree_remove p v = Inr v' \<Longrightarrow> wf_at d v \<Longrightarrow> \<not> is_index (last p) \<Longrightarrow> diverge p q \<Longrightarrow>
     tree_resolve q v' = Inr c \<longleftrightarrow> tree_resolve q v = Inr c"
proof (induction p v arbitrary: d v' q rule: tree_remove.induct)
  case (2 k ps ms)
  from "2.prems"(4) obtain t r where q: "q = t # r" by (cases q) auto
  obtain d0 where d0: "map_of ms k = Some d0" using "2.prems"(1) by (auto simp: no_member_def split: option.splits)
  have dist: "distinct (map fst ms)" using "2.prems"(2) by simp
  show ?case
  proof (cases "ps = []")
    case True
    with "2.prems" d0 have "v' = Obj (delete_key k ms)" by simp
    then show ?thesis using "2.prems"(4) True q dist
      by (cases t) (auto simp: map_of_delete_key traverses_nonarray_def split: option.splits)
  next
    case False
    with "2.prems" d0 obtain d' where d': "tree_remove ps d0 = Inr d'" "v' = Obj (upsert k d' ms)"
      by (auto split: sum.splits)
    have IH: "diverge ps r \<Longrightarrow> tree_resolve r d' = Inr c \<longleftrightarrow> tree_resolve r d0 = Inr c"
      using "2.IH"[OF d0 False d'(1), of "Suc d" r] map_of_wf[OF "2.prems"(2) d0] "2.prems"(3) False by simp
    show ?thesis using IH "2.prems"(4) q d' d0
      by (cases t) (auto simp: map_of_upsert traverses_nonarray_def split: option.splits)
  qed
next
  case (4 j ps es)
  from "4.prems"(4) obtain t r where q: "q = t # r" by (cases q) auto
  have j: "j < length es" "ps \<noteq> []"
    using "4.prems" by (auto simp: out_of_range_def split: if_splits)
  with "4.prems" obtain d' where d': "tree_remove ps (es ! j) = Inr d'" "v' = Arr (es[j := d'])"
    by (auto split: sum.splits)
  from j have "\<not> length es \<le> j" by simp
  from "4.IH"[OF this j(2) d'(1), of "Suc d" r]
  have IH: "diverge ps r \<Longrightarrow> tree_resolve r d' = Inr c \<longleftrightarrow> tree_resolve r (es ! j) = Inr c"
    using "4.prems"(2,3) j by simp
  show ?case
  proof (cases t)
    case (Index i)
    then show ?thesis using IH "4.prems"(4) q d' j
      by (cases "i = j") (auto simp: out_of_range_def)
  qed (use q d' in \<open>auto simp: traverses_nonobject_def\<close>)
qed (auto simp: traverses_nonobject_def traverses_nonarray_def)

end
