(* ===== verification/Subtree_Heap.thy ===== *)
theory Subtree_Heap
  imports Config_Tree
begin

text \<open>
  What the tree-building, tree-freeing and relinking operations of \<open>Config_Model\<close> do to a forest
  of slot trees. \<open>erase\<close> forgets the slot ids; \<open>shaped\<close> says that a node's payload matches its
  type; \<open>fits n\<close> bounds the levels of a tree and so the recursion over it.
\<close>

section \<open>Slot trees as values\<close>

primrec erase :: "itree \<Rightarrow> config_value" where
  "erase (INode i ty sc ms es) = (case ty of
     TObject \<Rightarrow> Obj (map (map_prod id erase) ms) | TArray \<Rightarrow> Arr (map erase es) | _ \<Rightarrow> Scal sc)"

lemma erase_unfold: "erase t = (case ity t of
     TObject \<Rightarrow> Obj (map (\<lambda>(k, c). (k, erase c)) (imem t)) | TArray \<Rightarrow> Arr (map erase (iel t)) | _ \<Rightarrow> Scal (isc t))"
  by (cases t) (simp add: map_prod_def split: node_type.split)

definition shape_ok :: "itree \<Rightarrow> bool" where
  "shape_ok t \<longleftrightarrow> (case ity t of TObject \<Rightarrow> iel t = [] \<and> isc t = SNull | TArray \<Rightarrow> imem t = [] \<and> isc t = SNull
     | ty \<Rightarrow> imem t = [] \<and> iel t = [] \<and> scalar_type (isc t) = ty)"

inductive shaped :: "itree \<Rightarrow> bool" where
  shaped_intro: "shape_ok t \<Longrightarrow> (\<And>c. c \<in> set (kids t) \<Longrightarrow> shaped c) \<Longrightarrow> shaped t"

lemma shaped_iff: "shaped t \<longleftrightarrow> shape_ok t \<and> (\<forall>c \<in> set (kids t). shaped c)"
  by (rule iffI, erule shaped.cases, simp, rule shaped_intro, simp_all)

lemma shaped_ok: "shaped t \<Longrightarrow> shape_ok t"
  using shaped_iff by blast

lemma shaped_kid: "shaped t \<Longrightarrow> c \<in> set (kids t) \<Longrightarrow> shaped c"
  using shaped_iff by blast

lemma shaped_leaf [simp]: "scalar_type sc = ty \<Longrightarrow> shaped (INode i ty sc [] [])"
  by (subst shaped_iff) (cases sc; auto simp: shape_ok_def)

lemma shaped_Obj [simp]: "shaped (INode i TObject sc ms es) \<longleftrightarrow> sc = SNull \<and> es = [] \<and> (\<forall>(k, c) \<in> set ms. shaped c)"
  by (subst shaped_iff) (fastforce simp: shape_ok_def)

lemma shaped_Arr [simp]: "shaped (INode i TArray sc ms es) \<longleftrightarrow> sc = SNull \<and> ms = [] \<and> (\<forall>c \<in> set es. shaped c)"
  by (subst shaped_iff) (auto simp: shape_ok_def)

lemma shaped_moved: "shaped (INode i (ity b) (isc b) (imem b) (iel b)) \<longleftrightarrow> shaped b"
  by (subst (1 2) shaped_iff) (simp add: shape_ok_def kids_def split: node_type.split)

text \<open>Case analysis of a shaped tree.\<close>

lemma shaped_cases:
  assumes "shaped t"
  obtains (Scal) sc where "ity t = scalar_type sc" "isc t = sc" "imem t = []" "iel t = []" "erase t = Scal sc"
  | (Obj) ms where "ity t = TObject" "isc t = SNull" "imem t = ms" "iel t = []"
      "erase t = Obj (map (\<lambda>(k, c). (k, erase c)) ms)" "\<forall>(k, c) \<in> set ms. shaped c"
  | (Arr) es where "ity t = TArray" "isc t = SNull" "imem t = []" "iel t = es"
      "erase t = Arr (map erase es)" "\<forall>c \<in> set es. shaped c"
proof (cases t)
  case (INode i ty sc ms es)
  show thesis
  proof (cases "ty = TObject \<or> ty = TArray")
    case True
    then show thesis using assms INode Obj Arr by (auto simp: map_prod_def)
  next
    case False
    then have "imem t = [] \<and> iel t = [] \<and> scalar_type sc = ty"
      using shaped_ok[OF assms] INode by (auto simp: shape_ok_def split: node_type.splits)
    with False show thesis using INode by (intro Scal[of sc]) (auto split: node_type.splits)
  qed
qed

lemma cv_type_erase: "shaped t \<Longrightarrow> cv_type (erase t) = ity t"
  by (erule shaped_cases) simp_all

lemma kids_erase: "shaped t \<Longrightarrow> map erase (kids t) = cv_kids (erase t)"
  by (drule shaped_ok, cases t) (auto simp: shape_ok_def split: node_type.splits)

lemma size_mids: "shaped t \<Longrightarrow> size (mids t) = cv_nodes (erase t)"
proof (induction t rule: itree_kids_induct)
  case (Kids t)
  have "size (kmids ts) = sum_list (map (cv_nodes \<circ> erase) ts)" if "set ts \<subseteq> set (kids t)" for ts
    using that Kids.IH shaped_kid[OF Kids.prems] by (induction ts) auto
  then show ?case
    by (simp add: mids_kids[of t] cv_nodes_kids[of "erase t"] kids_erase[OF Kids.prems, symmetric])
qed

text \<open>Levels: the recursion depth a walk of the tree needs.\<close>

primrec fits :: "nat \<Rightarrow> itree \<Rightarrow> bool" where
  "fits 0 t \<longleftrightarrow> False"
| "fits (Suc n) t \<longleftrightarrow> (\<forall>c \<in> set (kids t). fits n c)"

lemma wf_at_fits: "shaped t \<Longrightarrow> wf_at d (erase t) \<Longrightarrow> kMaxTreeDepth < d + n \<Longrightarrow> fits n t"
proof (induction n arbitrary: t d)
  case 0
  then show ?case by (auto dest: wf_at_depth)
next
  case (Suc n)
  have "fits n c" if c: "c \<in> set (kids t)" for c
  proof (rule Suc.IH)
    show "shaped c" using shaped_kid[OF Suc.prems(1) c] .
    have "erase c \<in> set (cv_kids (erase t))"
      using c by (simp flip: kids_erase[OF Suc.prems(1)])
    then show "wf_at (Suc d) (erase c)" by (rule wf_at_kid[OF Suc.prems(2)])
  qed (use Suc.prems in simp)
  then show ?case by simp
qed

text \<open>The slots not yet in use.\<close>

lemma heap_room: "heap ar F fl R \<Longrightarrow> room ar fl + size (kmids (map snd F)) + size R = kNodeIdNone"
proof -
  assume h: "heap ar F fl R"
  have "size (kmids (map snd F) + mset fl + R) = length (nodes ar)"
    unfolding heapD(3)[OF h] by simp
  then show ?thesis using heapD(4)[OF h] by (simp add: room_def)
qed

section \<open>Rewriting one node\<close>

definition slotn :: "node \<Rightarrow> nat \<Rightarrow> itree \<Rightarrow> bool" where
  "slotn n p t \<longleftrightarrow> nalive n \<and> ntype n = ity t \<and> nscalar n = isc t \<and> nparent n = p \<and>
     nmembers n = map (\<lambda>(k, c). (k, tid c)) (imem t) \<and> nelements n = map tid (iel t)"

lemma slot_slotn: "slot ns p t \<longleftrightarrow> tid t < length ns \<and> slotn (ns ! tid t) p t"
  by (simp add: slot_def slotn_def Let_def)

lemma heap_slotn:
  "heap ar ((p, t) # F) fl R \<Longrightarrow> arena_get ar (tid t) = Some (nodes ar ! tid t) \<and> slotn (nodes ar ! tid t) p t"
  using heapD(1)[of ar "(p, t) # F" fl R p t] by (auto dest: rep_slot arena_get_rep simp: slot_slotn)

lemma heap_rewrite:
  assumes h: "heap ar ((p, t) # map (Pair (tid t)) K @ F) fl R"
    and same: "tid t' = tid t"
    and kids: "mset (kids t') + mset K' = mset (kids t) + mset K"
    and f: "\<And>n. slotn n p t \<Longrightarrow> slotn (f n) p' t'"
    and g: "\<And>n. nalive (f n) = nalive n \<and> ngeneration (f n) = ngeneration n"
  shows "\<exists>ar'. arena_modify ar (tid t) f = Some ar' \<and>
    heap ar' ((p', t') # map (Pair (tid t)) K' @ F) fl R \<and> agree R ar ar' \<and> live ar' = live ar"
proof -
  let ?ar = "ar\<lparr>nodes := (nodes ar)[tid t := f (nodes ar ! tid t)]\<rparr>"
  have r: "rep (nodes ar) p t" using heapD(1)[OF h] by simp
  then have m: "arena_modify ar (tid t) f = Some ?ar" by (rule arena_modify_rep)
  have "slot ((nodes ar)[tid t := f (nodes ar ! tid t)]) p' t'"
    using rep_slot[OF r] f same by (simp add: slot_slotn)
  from heap_relink[OF h same kids this refl] m live_modify[OF m g] show ?thesis by auto
qed

lemma heap_set_parent:
  assumes "heap ar ((p, t) # F) fl R"
  shows "\<exists>ar'. set_parent p' ar (tid t) = Some ar' \<and> heap ar' ((p', t) # F) fl R \<and> agree R ar ar' \<and>
           live ar' = live ar"
  using heap_rewrite[of ar p t "[]" F fl R t "[]" "\<lambda>n. n\<lparr>nparent := p'\<rparr>" p'] assms
  by (simp add: set_parent_def slotn_def)

fun add_child :: "itree \<Rightarrow> path_segment \<Rightarrow> itree \<Rightarrow> itree" where
  "add_child (INode i ty sc ms es) (Key k) c = INode i ty sc (ms @ [(k, c)]) es"
| "add_child (INode i ty sc ms es) (Index j) c = INode i ty sc ms (es @ [c])"

lemma add_child_simps [simp]:
  "tid (add_child t s c) = tid t" "mset (kids (add_child t s c)) = add_mset c (mset (kids t))"
  "ity (add_child t s c) = ity t"
  by (cases t; cases s; simp)+

lemma heap_link:
  assumes "heap ar ((tid t, c) # (p, t) # F) fl R"
  shows "\<exists>ar'. link_child ar (tid t) s (tid c) = Some ar' \<and> heap ar' ((p, add_child t s c) # F) fl R \<and>
           agree R ar ar' \<and> live ar' = live ar"
proof -
  have h: "heap ar ((p, t) # map (Pair (tid t)) [c] @ F) fl R"
    by (rule heap_perm[OF assms]) (simp add: add_mset_commute)
  have kids: "mset (kids (add_child t s c)) + mset [] = mset (kids t) + mset [c]" by simp
  show ?thesis
  proof (cases s)
    case (Key k)
    have "slotn n p t \<Longrightarrow> slotn (n\<lparr>nmembers := nmembers n @ [(k, tid c)]\<rparr>) p (add_child t s c)" for n
      by (cases t) (simp add: Key slotn_def)
    from heap_rewrite[OF h add_child_simps(1) kids this] Key show ?thesis by simp
  next
    case (Index j)
    have "slotn n p t \<Longrightarrow> slotn (n\<lparr>nelements := nelements n @ [tid c]\<rparr>) p (add_child t s c)" for n
      by (cases t) (simp add: Index slotn_def)
    from heap_rewrite[OF h add_child_simps(1) kids this] Index show ?thesis by simp
  qed
qed

section \<open>Building\<close>

text \<open>\<open>builds v\<close>: with room for \<open>v\<close>, \<open>buildFromValue\<close> adds a tree that erases to it.\<close>

definition builds :: "config_value \<Rightarrow> bool" where
  "builds v \<longleftrightarrow> (\<forall>ar F fl R p. heap ar F fl R \<longrightarrow> cv_nodes v \<le> room ar fl \<longrightarrow>
     (\<exists>t ar' fl'. buildFromValue ar v p = Some (tid t, ar') \<and> heap ar' ((p, t) # F) fl' R \<and>
        agree R ar ar' \<and> live ar \<subseteq>\<^sub>m live ar' \<and> erase t = v \<and> shaped t))"

lemma buildsD:
  assumes "builds v" "heap ar F fl R" "cv_nodes v \<le> room ar fl"
  obtains t ar' fl' where "buildFromValue ar v p = Some (tid t, ar')" "heap ar' ((p, t) # F) fl' R"
    "agree R ar ar'" "live ar \<subseteq>\<^sub>m live ar'" "erase t = v" "shaped t"
    "room ar' fl' = room ar fl - cv_nodes v"
proof -
  from assms obtain t ar' fl' where *: "buildFromValue ar v p = Some (tid t, ar')"
    "heap ar' ((p, t) # F) fl' R" "agree R ar ar'" "live ar \<subseteq>\<^sub>m live ar'" "erase t = v" "shaped t"
    unfolding builds_def by blast
  moreover have "room ar' fl' = room ar fl - cv_nodes v"
    using heap_room[OF *(2)] heap_room[OF assms(2)] size_mids[OF *(6)] *(5) by simp
  ultimately show thesis by (rule that)
qed

lemma build_members:
  assumes "\<forall>(k, v) \<in> set ms. builds v" and "heap ar ((p, INode i TObject SNull ns []) # F) fl R"
    and "sum_list (map (cv_nodes \<circ> snd) ms) \<le> room ar fl"
  shows "\<exists>ns' ar' fl'. buildMembers ar i ms = Some ar' \<and>
    heap ar' ((p, INode i TObject SNull (ns @ ns') []) # F) fl' R \<and> agree R ar ar' \<and> live ar \<subseteq>\<^sub>m live ar' \<and>
    map (\<lambda>(k, c). (k, erase c)) ns' = ms \<and> (\<forall>(k, c) \<in> set ns'. shaped c)"
  using assms
proof (induction ms arbitrary: ar fl ns)
  case Nil
  then show ?case using agree_refl[OF Nil(2)] by auto
next
  case (Cons m ms)
  obtain k v where m: "m = (k, v)" by (cases m)
  from Cons.prems m have "builds v" "cv_nodes v \<le> room ar fl" by auto
  from buildsD[OF this(1) Cons.prems(2) this(2), of i] obtain c ar1 fl1 where
    b: "buildFromValue ar v i = Some (tid c, ar1)" "heap ar1 ((i, c) # (p, INode i TObject SNull ns []) # F) fl1 R"
    "agree R ar ar1" "live ar \<subseteq>\<^sub>m live ar1" "erase c = v" "shaped c" "room ar1 fl1 = room ar fl - cv_nodes v" .
  from heap_link[of ar1 "INode i TObject SNull ns []" c p F fl1 R "Key k"] b(2) obtain ar2 where
    l: "link_child ar1 i (Key k) (tid c) = Some ar2"
    "heap ar2 ((p, INode i TObject SNull (ns @ [(k, c)]) []) # F) fl1 R" "agree R ar1 ar2" "live ar2 = live ar1"
    by auto
  have "room ar2 fl1 = room ar fl - cv_nodes v"
    using heap_room[OF l(2)] heap_room[OF b(2)] b(7) by simp
  with Cons.prems(1,3) m have "\<forall>(k, v) \<in> set ms. builds v" "sum_list (map (cv_nodes \<circ> snd) ms) \<le> room ar2 fl1"
    by (auto simp: comp_def)
  from Cons.IH[OF this(1) l(2) this(2)] obtain ns' ar' fl' where
    "buildMembers ar2 i ms = Some ar'" "heap ar' ((p, INode i TObject SNull ((ns @ [(k, c)]) @ ns') []) # F) fl' R"
    "agree R ar2 ar'" "live ar2 \<subseteq>\<^sub>m live ar'" "map (\<lambda>(k, c). (k, erase c)) ns' = ms" "\<forall>(k, c) \<in> set ns'. shaped c"
    by blast
  moreover have "agree R ar ar'" using b(3) l(3) calculation(3) by (blast intro: agree_trans)
  moreover have "live ar \<subseteq>\<^sub>m live ar'" using b(4) l(4) calculation(4) by (auto intro: map_le_trans)
  ultimately show ?case using b(1,5,6) l(1) m
    by (intro exI[of _ "(k, c) # ns'"] exI[of _ ar'] exI[of _ fl']) auto
qed

lemma build_elements:
  assumes "\<forall>v \<in> set es. builds v" and "heap ar ((p, INode i TArray SNull [] ns) # F) fl R"
    and "sum_list (map cv_nodes es) \<le> room ar fl"
  shows "\<exists>ns' ar' fl'. buildElements ar i es = Some ar' \<and>
    heap ar' ((p, INode i TArray SNull [] (ns @ ns')) # F) fl' R \<and> agree R ar ar' \<and> live ar \<subseteq>\<^sub>m live ar' \<and>
    map erase ns' = es \<and> (\<forall>c \<in> set ns'. shaped c)"
  using assms
proof (induction es arbitrary: ar fl ns)
  case Nil
  then show ?case using agree_refl[OF Nil(2)] by auto
next
  case (Cons v es)
  from Cons.prems have "builds v" "cv_nodes v \<le> room ar fl" by auto
  from buildsD[OF this(1) Cons.prems(2) this(2), of i] obtain c ar1 fl1 where
    b: "buildFromValue ar v i = Some (tid c, ar1)" "heap ar1 ((i, c) # (p, INode i TArray SNull [] ns) # F) fl1 R"
    "agree R ar ar1" "live ar \<subseteq>\<^sub>m live ar1" "erase c = v" "shaped c" "room ar1 fl1 = room ar fl - cv_nodes v" .
  from heap_link[of ar1 "INode i TArray SNull [] ns" c p F fl1 R "Index 0"] b(2) obtain ar2 where
    l: "link_child ar1 i (Index 0) (tid c) = Some ar2"
    "heap ar2 ((p, INode i TArray SNull [] (ns @ [c])) # F) fl1 R" "agree R ar1 ar2" "live ar2 = live ar1"
    by auto
  have "room ar2 fl1 = room ar fl - cv_nodes v"
    using heap_room[OF l(2)] heap_room[OF b(2)] b(7) by simp
  with Cons.prems(1,3) have "\<forall>v \<in> set es. builds v" "sum_list (map cv_nodes es) \<le> room ar2 fl1"
    by auto
  from Cons.IH[OF this(1) l(2) this(2)] obtain ns' ar' fl' where
    "buildElements ar2 i es = Some ar'" "heap ar' ((p, INode i TArray SNull [] ((ns @ [c]) @ ns')) # F) fl' R"
    "agree R ar2 ar'" "live ar2 \<subseteq>\<^sub>m live ar'" "map erase ns' = es" "\<forall>c \<in> set ns'. shaped c"
    by blast
  moreover have "agree R ar ar'" using b(3) l(3) calculation(3) by (blast intro: agree_trans)
  moreover have "live ar \<subseteq>\<^sub>m live ar'" using b(4) l(4) calculation(4) by (auto intro: map_le_trans)
  ultimately show ?case using b(1,5,6) l(1)
    by (intro exI[of _ "c # ns'"] exI[of _ ar'] exI[of _ fl']) auto
qed

text \<open>A fresh node with its parent set.\<close>

lemma heap_fresh:
  assumes h: "heap ar F fl R" and "0 < room ar fl"
  obtains i ar1 ar2 fl' where "allocate ar ty = Some (i, ar1)"
    "arena_modify ar1 i (\<lambda>n. n\<lparr>nparent := p\<rparr>) = Some ar2" "heap ar2 ((p, INode i ty SNull [] []) # F) fl' R"
    "agree R ar ar2" "live ar \<subseteq>\<^sub>m live ar2" "room ar2 fl' = room ar fl - 1"
proof -
  from heap_allocate[OF assms, of ty] obtain i ar1 where
    a: "allocate ar ty = Some (i, ar1)" "heap ar1 ((kNodeIdNone, INode i ty SNull [] []) # F) (tl fl) R"
    "agree R ar ar1" "room ar1 (tl fl) = room ar fl - 1" "live ar i = None" "\<exists>g. live ar1 = (live ar)(i \<mapsto> g)"
    by blast
  from heap_set_parent[OF a(2), of p] obtain ar2 where
    s: "arena_modify ar1 i (\<lambda>n. n\<lparr>nparent := p\<rparr>) = Some ar2" "heap ar2 ((p, INode i ty SNull [] []) # F) (tl fl) R"
    "agree R ar1 ar2" "live ar2 = live ar1" by (auto simp: set_parent_def)
  have "live ar \<subseteq>\<^sub>m live ar2" using a(5,6) s(4) by (auto simp: map_le_def)
  moreover have "room ar2 (tl fl) = room ar fl - 1"
    using heap_room[OF s(2)] heap_room[OF a(2)] a(4) by simp
  ultimately show thesis using that a(1) s(1,2) agree_trans[OF a(3) s(3)] by blast
qed

lemma builds_all: "builds v"
proof (induction v rule: config_value_kids_induct)
  case (Kids v)
  show ?case unfolding builds_def
  proof (intro allI impI)
    fix ar F fl R p
    assume h: "heap ar F fl R" and room: "cv_nodes v \<le> room ar fl"
    have "0 < room ar fl" using room cv_nodes_pos[of v] by linarith
    from heap_fresh[OF h this, where p = p and ty = "cv_type v"] obtain i ar1 ar2 fl2 where
      a: "allocate ar (cv_type v) = Some (i, ar1)" "arena_modify ar1 i (\<lambda>n. n\<lparr>nparent := p\<rparr>) = Some ar2"
      "heap ar2 ((p, INode i (cv_type v) SNull [] []) # F) fl2 R" "agree R ar ar2" "live ar \<subseteq>\<^sub>m live ar2"
      "room ar2 fl2 = room ar fl - 1" .
    show "\<exists>t ar' fl'. buildFromValue ar v p = Some (tid t, ar') \<and> heap ar' ((p, t) # F) fl' R \<and>
        agree R ar ar' \<and> live ar \<subseteq>\<^sub>m live ar' \<and> erase t = v \<and> shaped t"
    proof (cases v)
      case (Scal s)
      from heap_rewrite[of ar2 p "INode i (cv_type v) SNull [] []" "[]" F fl2 R
          "INode i (cv_type v) s [] []" "[]" "\<lambda>n. n\<lparr>nscalar := s\<rparr>" p] a(3)
      obtain ar3 where "arena_modify ar2 i (\<lambda>n. n\<lparr>nscalar := s\<rparr>) = Some ar3"
        "heap ar3 ((p, INode i (cv_type v) s [] []) # F) fl2 R" "agree R ar2 ar3" "live ar3 = live ar2"
        by (auto simp: slotn_def)
      then show ?thesis using a Scal agree_trans[OF a(4)]
        by (intro exI[of _ "INode i (cv_type v) s [] []"]) (cases s; auto)
    next
      case (Obj ms)
      then have "\<forall>(k, x) \<in> set ms. builds x" using Kids by force
      moreover have "sum_list (map (cv_nodes \<circ> snd) ms) \<le> room ar2 fl2"
        using room a(6) Obj by (simp add: comp_def)
      moreover have "heap ar2 ((p, INode i TObject SNull [] []) # F) fl2 R" using a(3) Obj by simp
      ultimately obtain ns ar' fl' where
        "buildMembers ar2 i ms = Some ar'" "heap ar' ((p, INode i TObject SNull ns []) # F) fl' R"
        "agree R ar2 ar'" "live ar2 \<subseteq>\<^sub>m live ar'" "map (\<lambda>(k, c). (k, erase c)) ns = ms"
        "\<forall>(k, c) \<in> set ns. shaped c"
        using build_members[of ms ar2 p i "[]" F fl2 R] by auto
      then show ?thesis using a(1,2,5) Obj agree_trans[OF a(4)]
        by (intro exI[of _ "INode i TObject SNull ns []"]) (auto simp: map_prod_def intro: map_le_trans)
    next
      case (Arr es)
      then have "\<forall>x \<in> set es. builds x" using Kids by force
      moreover have "sum_list (map cv_nodes es) \<le> room ar2 fl2"
        using room a(6) Arr by simp
      moreover have "heap ar2 ((p, INode i TArray SNull [] []) # F) fl2 R" using a(3) Arr by simp
      ultimately obtain ns ar' fl' where
        "buildElements ar2 i es = Some ar'" "heap ar' ((p, INode i TArray SNull [] ns) # F) fl' R"
        "agree R ar2 ar'" "live ar2 \<subseteq>\<^sub>m live ar'" "map erase ns = es" "\<forall>c \<in> set ns. shaped c"
        using build_elements[of es ar2 p i "[]" F fl2 R] by auto
      then show ?thesis using a(1,2,5) Arr agree_trans[OF a(4)]
        by (intro exI[of _ "INode i TArray SNull [] ns"]) (auto intro: map_le_trans)
    qed
  qed
qed

lemmas heap_build = buildsD[OF builds_all]

section \<open>Freeing\<close>

text \<open>The handles that survive: those to slots outside \<open>M\<close>.\<close>

definition live_without :: "arena \<Rightarrow> nat multiset \<Rightarrow> nat \<rightharpoonup> 32 word" where
  "live_without ar M = live ar |` (- set_mset M)"

lemma live_without_empty [simp]: "live_without ar {#} = live ar"
  by (simp add: live_without_def restrict_map_def)

lemma live_without_at: "live_without ar M i = (if i \<in># M then None else live ar i)"
  by (simp add: live_without_def restrict_map_def)

text \<open>What freeing one tree does, as a property of the routine \<open>f\<close>.\<close>

definition frees :: "nat multiset \<Rightarrow> (arena \<Rightarrow> nat \<Rightarrow> arena option) \<Rightarrow> itree \<Rightarrow> bool" where
  "frees R f c \<longleftrightarrow> (\<forall>ar p F fl. heap ar ((p, c) # F) fl R \<longrightarrow>
     (\<exists>ar' fl'. f ar (tid c) = Some ar' \<and> heap ar' F fl' R \<and> agree R ar ar' \<and> live ar' = live_without ar (mids c)))"

lemma freesD: "frees R f c \<Longrightarrow> heap ar ((p, c) # F) fl R \<Longrightarrow>
  \<exists>ar' fl'. f ar (tid c) = Some ar' \<and> heap ar' F fl' R \<and> agree R ar ar' \<and> live ar' = live_without ar (mids c)"
  unfolding frees_def by blast

lemma heap_free_list:
  assumes f: "\<forall>c \<in> set K. frees R f c"
    and "heap ar (map (Pair i) K @ F) fl R"
  shows "\<exists>ar' fl'. foldM f ar (map tid K) = Some ar' \<and> heap ar' F fl' R \<and> agree R ar ar' \<and>
           live ar' = live_without ar (kmids K)"
  using assms
proof (induction K arbitrary: ar fl)
  case Nil
  then show ?case using agree_refl[OF Nil(2)] by auto
next
  case (Cons c K)
  from Cons.prems(1) have "frees R f c" "\<forall>c \<in> set K. frees R f c" by auto
  note f = freesD[OF this(1)] this(2)
  from f(1)[of ar i "map (Pair i) K @ F" fl] Cons.prems(2) obtain ar1 fl1 where
    1: "f ar (tid c) = Some ar1" "heap ar1 (map (Pair i) K @ F) fl1 R" "agree R ar ar1"
    "live ar1 = live_without ar (mids c)" by auto
  from Cons.IH[OF f(2) 1(2)] obtain ar' fl' where
    2: "foldM f ar1 (map tid K) = Some ar'" "heap ar' F fl' R" "agree R ar1 ar'"
    "live ar' = live_without ar1 (kmids K)" by auto
  have "live ar' = live_without ar (kmids (c # K))" by (auto simp: 2(4) 1(4) fun_eq_iff live_without_at)
  then show ?case using 1 2 agree_trans[OF 1(3) 2(3)] by auto
qed

lemma heap_free_children:
  assumes f: "\<forall>c \<in> set (kids t). frees R f c"
    and h: "heap ar ((p, t) # F) fl R"
  shows "\<exists>ar' fl'. freeChildren_with f ar (tid t) = Some ar' \<and>
           heap ar' ((p, INode (tid t) (ity t) (isc t) [] []) # F) fl' R \<and> agree R ar ar' \<and>
           live ar' = live_without ar (kmids (kids t))"
proof -
  let ?t = "INode (tid t) (ity t) (isc t) [] []"
  from heap_rewrite[of ar p t "[]" F fl R ?t "kids t" "\<lambda>n. n\<lparr>nmembers := [], nelements := []\<rparr>" p] h
  obtain ar1 where
    m: "arena_modify ar (tid t) (\<lambda>n. n\<lparr>nmembers := [], nelements := []\<rparr>) = Some ar1"
    "heap ar1 ((p, ?t) # map (Pair (tid t)) (kids t) @ F) fl R" "agree R ar ar1" "live ar1 = live ar"
    by (auto simp: slotn_def)
  have "heap ar1 (map (Pair (tid t)) (kids t) @ (p, ?t) # F) fl R"
    by (rule heap_perm[OF m(2)]) simp
  from heap_free_list[OF f this] obtain ar' fl' where
    r: "foldM f ar1 (map tid (kids t)) = Some ar'" "heap ar' ((p, ?t) # F) fl' R" "agree R ar1 ar'"
    "live ar' = live_without ar1 (kmids (kids t))" by blast
  have "map tid (kids t) = map snd (nmembers (nodes ar ! tid t)) @ nelements (nodes ar ! tid t)"
    using heap_slotn[OF h] by (simp add: slotn_def kids_def comp_def split_def)
  then have "freeChildren_with f ar (tid t) = Some ar'"
    using heap_slotn[OF h] m(1) r(1) by (simp add: freeChildren_with_def foldM_append)
  moreover have "live ar' = live_without ar (kmids (kids t))"
    using r(4) m(4) by (simp add: live_without_def)
  ultimately show ?thesis using r(2) agree_trans[OF m(3) r(3)] by blast
qed

lemma frees_freeSubtree: "fits n t \<Longrightarrow> frees R (freeSubtree n) t"
proof (induction n arbitrary: t)
  case (Suc n)
  have kids: "\<forall>c \<in> set (kids t). frees R (freeSubtree n) c" using Suc by simp
  show ?case unfolding frees_def
  proof (intro allI impI)
    fix ar p F fl assume "heap ar ((p, t) # F) fl R"
    from heap_free_children[OF kids this] obtain ar1 fl1 where
      1: "freeChildren_with (freeSubtree n) ar (tid t) = Some ar1"
      "heap ar1 ((p, INode (tid t) (ity t) (isc t) [] []) # F) fl1 R"
      "agree R ar ar1" "live ar1 = live_without ar (kmids (kids t))" by blast
    from heap_release[OF 1(2)] obtain ar2 where
      2: "release ar1 (tid t) = Some ar2" "heap ar2 F (tid t # fl1) R" "agree R ar1 ar2"
      "live ar2 = (live ar1)(tid t := None)" by auto
    have "live ar2 = live_without ar (mids t)"
      by (auto simp: 2(4) 1(4) fun_eq_iff mids_kids[of t] live_without_at)
    then show "\<exists>ar' fl'. freeSubtree (Suc n) ar (tid t) = Some ar' \<and> heap ar' F fl' R \<and> agree R ar ar' \<and>
        live ar' = live_without ar (mids t)"
      using 1 2 agree_trans[OF 1(3) 2(3)] by auto
  qed
qed simp

lemmas heap_free = freesD[OF frees_freeSubtree]

section \<open>Replacing the contents of a node\<close>

lemma arena_modify_commute:
  "i \<noteq> j \<Longrightarrow> arena_modify ar i f = Some a \<Longrightarrow> arena_modify ar j g = Some b \<Longrightarrow>
     \<exists>c. arena_modify a j g = Some c \<and> arena_modify b i f = Some c"
  by (auto simp: arena_modify_def arena_get_def list_update_swap split: if_splits)

lemma set_parents_commute:
  "i \<notin> set xs \<Longrightarrow> arena_modify ar i f = Some a \<Longrightarrow> foldM (set_parent p) ar xs = Some b \<Longrightarrow>
     \<exists>c. foldM (set_parent p) a xs = Some c \<and> arena_modify b i f = Some c"
proof (induction xs arbitrary: ar a)
  case (Cons x xs)
  then obtain b1 where b1: "set_parent p ar x = Some b1" "foldM (set_parent p) b1 xs = Some b"
    by (auto split: Option.bind_splits)
  from arena_modify_commute[OF _ Cons.prems(2) b1(1)[unfolded set_parent_def]] Cons.prems(1) obtain c1 where
    c1: "set_parent p a x = Some c1" "arena_modify b1 i f = Some c1" by (auto simp: set_parent_def)
  from Cons.IH[OF _ c1(2) b1(2)] Cons.prems(1) c1(1) show ?case by simp
qed simp

lemma heap_set_parents:
  "heap ar (map (Pair i) K @ F) fl R \<Longrightarrow>
     \<exists>ar'. foldM (set_parent p) ar (map tid K) = Some ar' \<and> heap ar' (map (Pair p) K @ F) fl R \<and>
       agree R ar ar' \<and> live ar' = live ar"
proof (induction K arbitrary: ar F)
  case Nil
  then show ?case using agree_refl[OF Nil] by auto
next
  case (Cons c K)
  from heap_set_parent[of ar i c "map (Pair i) K @ F" fl R p] Cons.prems obtain ar1 where
    1: "set_parent p ar (tid c) = Some ar1" "heap ar1 ((p, c) # map (Pair i) K @ F) fl R" "agree R ar ar1"
    "live ar1 = live ar" by auto
  have "heap ar1 (map (Pair i) K @ (p, c) # F) fl R" by (rule heap_perm[OF 1(2)]) simp
  from Cons.IH[OF this] obtain ar' where
    2: "foldM (set_parent p) ar1 (map tid K) = Some ar'" "heap ar' (map (Pair p) K @ (p, c) # F) fl R"
    "agree R ar1 ar'" "live ar' = live ar1" by blast
  have "heap ar' (map (Pair p) (c # K) @ F) fl R" by (rule heap_perm[OF 2(2)]) simp
  then show ?case using 1 2 agree_trans[OF 1(3) 2(3)] by auto
qed

text \<open>Two trees of a forest have different ids.\<close>

lemma heap_tids:
  assumes "heap ar ((p, s) # (q, t) # F) fl R"
  shows "tid s \<notin># mids t" "tid t \<notin># mids s"
proof -
  have tot: "mids s + (mids t + (kmids (map snd F) + mset fl + R)) = mset [0..<length (nodes ar)]"
    using heapD(3)[OF assms] by (simp add: ac_simps)
  show "tid s \<notin># mids t" using range_split(2)[OF tot, of "tid s"] by simp
  have "mids t + (mids s + (kmids (map snd F) + mset fl + R)) = mset [0..<length (nodes ar)]"
    using tot by (simp only: ac_simps)
  from range_split(2)[OF this, of "tid t"] show "tid t \<notin># mids s" by simp
qed

text \<open>
  Moving the contents of a tree \<open>b\<close> into a childless tree \<open>s\<close>: the tail of \<open>assignContents\<close>.
\<close>

lemma heap_move_contents:
  assumes h: "heap ar ((q, s) # (kNodeIdNone, b) # F) fl R" and leaf: "kids s = []" and ty: "ity s = ity b"
  shows "\<exists>ar3 ar4 ar6 ar7.
    arena_modify ar (tid s) (\<lambda>n. n\<lparr>nscalar := nscalar (nodes ar ! tid b),
      nmembers := nmembers (nodes ar ! tid b), nelements := nelements (nodes ar ! tid b)\<rparr>) = Some ar3 \<and>
    arena_modify ar3 (tid b) (\<lambda>n. n\<lparr>nmembers := [], nelements := []\<rparr>) = Some ar4 \<and>
    foldM (set_parent (tid s)) ar4 (map tid (kids b)) = Some ar6 \<and> release ar6 (tid b) = Some ar7 \<and>
    heap ar7 ((q, INode (tid s) (ity b) (isc b) (imem b) (iel b)) # F) (tid b # fl) R \<and> agree R ar ar7 \<and>
    live ar7 = (live ar)(tid b := None)"
proof -
  let ?n = "nodes ar ! tid b"
  let ?f = "\<lambda>n. n\<lparr>nscalar := nscalar ?n, nmembers := nmembers ?n, nelements := nelements ?n\<rparr>"
  let ?g = "\<lambda>n. n\<lparr>nmembers := [], nelements := []\<rparr>"
  let ?b = "INode (tid b) (ity b) (isc b) [] []"
  let ?s = "INode (tid s) (ity b) (isc b) (imem b) (iel b)"
  have ne: "tid s \<noteq> tid b" and fresh: "tid s \<notin># mids b" using heap_tids[OF h] by auto
  have hb: "heap ar ((kNodeIdNone, b) # map (Pair (tid b)) [] @ (q, s) # F) fl R"
    by (rule heap_perm[OF h]) simp
  have nb: "slotn ?n kNodeIdNone b" using hb by (simp add: heap_slotn)
  from heap_rewrite[OF hb, of ?b "kids b" ?g kNodeIdNone] obtain a1 where
    1: "arena_modify ar (tid b) ?g = Some a1"
    "heap a1 ((kNodeIdNone, ?b) # map (Pair (tid b)) (kids b) @ (q, s) # F) fl R" "agree R ar a1" "live a1 = live ar"
    by (auto simp: slotn_def)
  have "heap a1 (map (Pair (tid b)) (kids b) @ (kNodeIdNone, ?b) # (q, s) # F) fl R"
    by (rule heap_perm[OF 1(2)]) simp
  from heap_set_parents[OF this, of "tid s"] obtain a2 where
    2: "foldM (set_parent (tid s)) a1 (map tid (kids b)) = Some a2"
    "heap a2 (map (Pair (tid s)) (kids b) @ (kNodeIdNone, ?b) # (q, s) # F) fl R" "agree R a1 a2" "live a2 = live a1"
    by blast
  have "heap a2 ((q, s) # map (Pair (tid s)) (kids b) @ (kNodeIdNone, ?b) # F) fl R"
    by (rule heap_perm[OF 2(2)]) simp
  then have "\<exists>a3. arena_modify a2 (tid s) ?f = Some a3 \<and>
      heap a3 ((q, ?s) # map (Pair (tid s)) [] @ (kNodeIdNone, ?b) # F) fl R \<and> agree R a2 a3 \<and> live a3 = live a2"
  proof (rule heap_rewrite)
    show "mset (kids ?s) + mset [] = mset (kids s) + mset (kids b)" using leaf by (simp add: kids_def)
    show "slotn (?f n) q ?s" if "slotn n q s" for n
      using that nb ty by (simp add: slotn_def)
  qed simp_all
  then obtain a3 where
    3: "arena_modify a2 (tid s) ?f = Some a3" "heap a3 ((q, ?s) # (kNodeIdNone, ?b) # F) fl R" "agree R a2 a3"
    "live a3 = live a2" by auto
  have "heap a3 ((kNodeIdNone, ?b) # (q, ?s) # F) fl R" by (rule heap_perm[OF 3(2)]) simp
  from heap_release[OF this] obtain a4 where
    4: "release a3 (tid b) = Some a4" "heap a4 ((q, ?s) # F) (tid b # fl) R" "agree R a3 a4"
    "live a4 = (live a3)(tid b := None)" by auto
  have "\<exists>c. arena_modify ar (tid s) ?f = Some c"
    using heap_slotn[OF h] by (simp add: arena_modify_def)
  then obtain c1 where c1: "arena_modify ar (tid s) ?f = Some c1" ..
  from arena_modify_commute[OF ne c1 1(1)] obtain c2 where
    c2: "arena_modify c1 (tid b) ?g = Some c2" "arena_modify a1 (tid s) ?f = Some c2" by blast
  have "tid s \<notin> set (map tid (kids b))"
  proof
    assume "tid s \<in> set (map tid (kids b))"
    then obtain c where c: "c \<in> set (kids b)" "tid s = tid c" by auto
    then have "tid s \<in># kmids (kids b)"
      by (intro mset_subset_eqD[OF kid_mids[OF c(1)]]) simp
    with fresh show False by (simp add: mids_kids[of b])
  qed
  from set_parents_commute[OF this c2(2) 2(1)] 3(1) have
    c3: "foldM (set_parent (tid s)) c2 (map tid (kids b)) = Some a3" by auto
  have "agree R ar a4" by (blast intro: agree_trans 1(3) 2(3) 3(3) 4(3))
  moreover have "live a4 = (live ar)(tid b := None)" by (simp add: 4(4) 3(4) 2(4) 1(4))
  ultimately show ?thesis using c1 c2(1) c3 4(1,2) by blast
qed

text \<open>Slots of a tree that was added to the forest were dead before.\<close>

lemma heap_live: "heap ar F fl R \<Longrightarrow> live ar i \<noteq> None \<Longrightarrow> i \<in># kmids (map snd F) + R"
proof -
  assume h: "heap ar F fl R" and l: "live ar i \<noteq> None"
  then have "i \<in># mset [0..<length (nodes ar)]" "nalive (nodes ar ! i)"
    by (auto simp: live_def split: if_splits)
  then have "i \<in># kmids (map snd F) + mset fl + R" using heapD(3)[OF h] by simp
  moreover have "i \<notin> set fl" using free_chain_dead[OF heapD(2)[OF h]] \<open>nalive (nodes ar ! i)\<close> by blast
  ultimately show ?thesis by auto
qed

lemma heap_new:
  assumes "heap ar' ((p, t) # F) fl' R" and "heap ar F fl R" and "i \<in># mids t"
  shows "live ar i = None"
proof (rule ccontr)
  assume "live ar i \<noteq> None"
  then have "i \<in># kmids (map snd F) + R" by (rule heap_live[OF assms(2)])
  moreover have "mids t + (kmids (map snd F) + mset fl' + R) = mset [0..<length (nodes ar')]"
    using heapD(3)[OF assms(1)] by (simp add: ac_simps)
  from range_split(2)[OF this assms(3)] have "i \<notin># kmids (map snd F) + R" by auto
  ultimately show False by blast
qed

text \<open>
  \<open>assignContents\<close>: the new contents are built first, so nothing is lost if that failed; then
  the old children are freed and the built node's contents move over. The target keeps its slot
  and its generation, its old descendants lose theirs.
\<close>

lemma heap_assignContents:
  assumes h: "heap ar ((q, s) # F) fl R" and sh: "shaped s" and ty: "ity s = cv_type v"
    and fits: "\<forall>c \<in> set (kids s). fits n c" and room: "cv_nodes v \<le> room ar fl"
  shows "\<exists>s' ar' fl'. assignContents n ar (tid s) v = Some ar' \<and> heap ar' ((q, s') # F) fl' R \<and>
    agree R ar ar' \<and> tid s' = tid s \<and> erase s' = v \<and> shaped s' \<and>
    (\<forall>i. i \<in># kmids (kids s) \<longrightarrow> live ar' i = None) \<and>
    (\<forall>i. i \<notin># kmids (kids s) \<longrightarrow> live ar i \<noteq> None \<longrightarrow> live ar' i = live ar i)"
proof -
  from heap_build[OF h room, of kNodeIdNone] obtain b ar1 fl1 where
    1: "buildFromValue ar v kNodeIdNone = Some (tid b, ar1)" "heap ar1 ((kNodeIdNone, b) # (q, s) # F) fl1 R"
    "agree R ar ar1" "live ar \<subseteq>\<^sub>m live ar1" "erase b = v" "shaped b" .
  let ?s = "INode (tid s) (ity s) (isc s) [] []"
  have h1: "heap ar1 ((q, s) # (kNodeIdNone, b) # F) fl1 R" by (rule heap_perm[OF 1(2)]) simp
  have "\<forall>c \<in> set (kids s). frees R (freeSubtree n) c" using fits by (simp add: frees_freeSubtree)
  from heap_free_children[OF this h1] obtain ar2 fl2 where
    2: "freeChildren n ar1 (tid s) = Some ar2" "heap ar2 ((q, ?s) # (kNodeIdNone, b) # F) fl2 R"
    "agree R ar1 ar2" "live ar2 = live_without ar1 (kmids (kids s))"
    unfolding freeChildren_def by blast
  have tyb: "ity b = cv_type v" using cv_type_erase[OF 1(6)] 1(5) by simp
  from heap_move_contents[OF 2(2)] tyb ty obtain ar3 ar4 ar6 ar7 where
    3: "arena_modify ar2 (tid s) (\<lambda>n. n\<lparr>nscalar := nscalar (nodes ar2 ! tid b),
      nmembers := nmembers (nodes ar2 ! tid b), nelements := nelements (nodes ar2 ! tid b)\<rparr>) = Some ar3"
    "arena_modify ar3 (tid b) (\<lambda>n. n\<lparr>nmembers := [], nelements := []\<rparr>) = Some ar4"
    "foldM (set_parent (tid s)) ar4 (map tid (kids b)) = Some ar6" "release ar6 (tid b) = Some ar7"
    "heap ar7 ((q, INode (tid s) (ity b) (isc b) (imem b) (iel b)) # F) (tid b # fl2) R" "agree R ar2 ar7"
    "live ar7 = (live ar2)(tid b := None)" by auto
  let ?s' = "INode (tid s) (ity b) (isc b) (imem b) (iel b)"
  have hb: "heap ar2 ((kNodeIdNone, b) # (q, ?s) # F) fl2 R" by (rule heap_perm[OF 2(2)]) simp
  have nb: "arena_get ar2 (tid b) = Some (nodes ar2 ! tid b)" "slotn (nodes ar2 ! tid b) kNodeIdNone b"
    using heap_slotn[OF hb] by auto
  have kids: "map tid (kids b) = map snd (nmembers (nodes ar2 ! tid b)) @ nelements (nodes ar2 ! tid b)"
    using nb(2) by (simp add: slotn_def kids_def comp_def split_def)
  have "assignContents n ar (tid s) v = Some ar7"
    using heap_slotn[OF h] ty 1(1) 2(1) nb(1) 3(1,2,3,4)
    by (auto simp: assignContents_def slotn_def kids foldM_append split: Option.bind_splits)
  moreover have "erase ?s' = v" using 1(5) by (cases b) simp
  moreover have "shaped ?s'" using 1(6) by (simp add: shaped_moved)
  moreover have "live ar7 i = None" if "i \<in># kmids (kids s)" for i
    using that by (simp add: 3(7) 2(4) live_without_at)
  moreover have "live ar7 i = live ar i" if "i \<notin># kmids (kids s)" "live ar i \<noteq> None" for i
  proof -
    have "live ar (tid b) = None" using heap_new[OF 1(2) h, of "tid b"] by simp
    then show ?thesis using that 1(4) by (auto simp: 3(7) 2(4) live_without_at map_le_def dom_def)
  qed
  moreover have "agree R ar ar7" by (blast intro: agree_trans 1(3) 2(3) 3(6))
  ultimately show ?thesis using 3(5) by (intro exI[of _ ?s'] exI[of _ ar7]) auto
qed

section \<open>Creating a chain of containers\<close>

lemma heap_wrap_chain:
  assumes h: "heap ar ((q, c) # F) fl R" and room: "0 < room ar fl" and sh: "shaped c"
  shows "\<exists>t ar' fl'. wrap_chain (tid c, ar) s = Some (tid t, ar') \<and> heap ar' ((kNodeIdNone, t) # F) fl' R \<and>
    agree R ar ar' \<and> live ar \<subseteq>\<^sub>m live ar' \<and> shaped t \<and> erase t = chain_value [s] (erase c)"
proof -
  let ?t0 = "\<lambda>i. INode i (container_type s) SNull [] []"
  from heap_allocate[OF h room, of "container_type s"] obtain i ar1 fl1 where
    1: "allocate ar (container_type s) = Some (i, ar1)" "heap ar1 ((kNodeIdNone, ?t0 i) # (q, c) # F) fl1 R"
    "agree R ar ar1" "live ar i = None" "\<exists>g. live ar1 = (live ar)(i \<mapsto> g)" by blast
  have "heap ar1 ((q, c) # (kNodeIdNone, ?t0 i) # F) fl1 R" by (rule heap_perm[OF 1(2)]) simp
  from heap_set_parent[OF this, of i] obtain ar2 where
    2: "set_parent i ar1 (tid c) = Some ar2" "heap ar2 ((i, c) # (kNodeIdNone, ?t0 i) # F) fl1 R"
    "agree R ar1 ar2" "live ar2 = live ar1" by blast
  from heap_link[of ar2 "?t0 i" c kNodeIdNone F fl1 R s] 2(2) obtain ar3 where
    3: "link_child ar2 i s (tid c) = Some ar3" "heap ar3 ((kNodeIdNone, add_child (?t0 i) s c) # F) fl1 R"
    "agree R ar2 ar3" "live ar3 = live ar2" by auto
  have "shaped (add_child (?t0 i) s c)" "erase (add_child (?t0 i) s c) = chain_value [s] (erase c)"
    using sh by (cases s; simp add: container_type_def)+
  moreover have "live ar \<subseteq>\<^sub>m live ar3" using 1(4,5) 2(4) 3(4) by (auto simp: map_le_def)
  moreover have "agree R ar ar3" by (blast intro: agree_trans 1(3) 2(3) 3(3))
  ultimately show ?thesis using 1(1) 2(1) 3(1,2)
    by (intro exI[of _ "add_child (?t0 i) s c"] exI[of _ ar3] exI[of _ fl1]) (simp add: wrap_chain_def)
qed

lemma chain_value_snoc: "chain_value (b @ [s]) v = chain_value b (chain_value [s] v)"
proof (induction b)
  case (Cons x b)
  then show ?case by (cases x; cases s; simp)
qed simp

lemma heap_chain:
  assumes "heap ar ((kNodeIdNone, c) # F) fl R" and "length b \<le> room ar fl" and "shaped c"
  shows "\<exists>t ar' fl'. foldM wrap_chain (tid c, ar) (rev b) = Some (tid t, ar') \<and>
    heap ar' ((kNodeIdNone, t) # F) fl' R \<and> agree R ar ar' \<and> live ar \<subseteq>\<^sub>m live ar' \<and> shaped t \<and>
    erase t = chain_value b (erase c)"
  using assms
proof (induction b arbitrary: ar fl c rule: rev_induct)
  case Nil
  then show ?case using agree_refl[OF Nil(1)] by auto
next
  case (snoc s b)
  from heap_wrap_chain[OF snoc.prems(1) _ snoc.prems(3), of s] snoc.prems(2) obtain t ar1 fl1 where
    1: "wrap_chain (tid c, ar) s = Some (tid t, ar1)" "heap ar1 ((kNodeIdNone, t) # F) fl1 R" "agree R ar ar1"
    "live ar \<subseteq>\<^sub>m live ar1" "shaped t" "erase t = chain_value [s] (erase c)" by auto
  have "cv_nodes (chain_value [s] (erase c)) = Suc (cv_nodes (erase c))" by (cases s) auto
  then have "room ar1 fl1 = room ar fl - 1"
    using heap_room[OF 1(2)] heap_room[OF snoc.prems(1)] size_mids[OF 1(5)] size_mids[OF snoc.prems(3)] 1(6)
    by simp
  then have "length b \<le> room ar1 fl1" using snoc.prems(2) by simp
  from snoc.IH[OF 1(2) this 1(5)] obtain t' ar' fl' where
    2: "foldM wrap_chain (tid t, ar1) (rev b) = Some (tid t', ar')" "heap ar' ((kNodeIdNone, t') # F) fl' R"
    "agree R ar1 ar'" "live ar1 \<subseteq>\<^sub>m live ar'" "shaped t'" "erase t' = chain_value b (erase t)" by blast
  show ?case
    using 1(1,6) 2 agree_trans[OF 1(3) 2(3)] map_le_trans[OF 1(4) 2(4)]
    by (intro exI[of _ t'] exI[of _ ar'] exI[of _ fl']) (simp add: chain_value_snoc[of b])
qed

text \<open>The whole creating branch of \<open>applyWrite\<close> below the node \<open>c\<close>.\<close>

definition append_new :: "nat \<Rightarrow> arena \<Rightarrow> nat \<Rightarrow> path_segment \<Rightarrow> path_segment list \<Rightarrow> config_value \<Rightarrow> arena option" where
  "append_new fuel ar i s b v = do {
     built \<leftarrow> buildFromValue ar v kNodeIdNone;
     (chain, ar1) \<leftarrow> foldM wrap_chain built (rev b);
     ar2 \<leftarrow> set_parent i ar1 chain;
     link_child ar2 i s chain }"

lemma heap_append_new:
  assumes h: "heap ar ((q, c) # F) fl R" and room: "cv_nodes v + length b \<le> room ar fl"
  shows "\<exists>t ar' fl'. append_new n ar (tid c) s b v = Some ar' \<and> heap ar' ((q, add_child c s t) # F) fl' R \<and>
    agree R ar ar' \<and> live ar \<subseteq>\<^sub>m live ar' \<and> shaped t \<and> erase t = chain_value b v"
proof -
  from room have "cv_nodes v \<le> room ar fl" by simp
  from heap_build[OF h this, of kNodeIdNone] obtain t0 ar1 fl1 where
    1: "buildFromValue ar v kNodeIdNone = Some (tid t0, ar1)" "heap ar1 ((kNodeIdNone, t0) # (q, c) # F) fl1 R"
    "agree R ar ar1" "live ar \<subseteq>\<^sub>m live ar1" "erase t0 = v" "shaped t0" "room ar1 fl1 = room ar fl - cv_nodes v" .
  from room 1(7) have "length b \<le> room ar1 fl1" by simp
  from heap_chain[OF 1(2) this 1(6)] obtain t ar2 fl2 where
    2: "foldM wrap_chain (tid t0, ar1) (rev b) = Some (tid t, ar2)" "heap ar2 ((kNodeIdNone, t) # (q, c) # F) fl2 R"
    "agree R ar1 ar2" "live ar1 \<subseteq>\<^sub>m live ar2" "shaped t" "erase t = chain_value b (erase t0)" by blast
  from heap_set_parent[OF 2(2), of "tid c"] obtain ar3 where
    3: "set_parent (tid c) ar2 (tid t) = Some ar3" "heap ar3 ((tid c, t) # (q, c) # F) fl2 R" "agree R ar2 ar3"
    "live ar3 = live ar2" by blast
  from heap_link[OF 3(2), of s] obtain ar4 where
    4: "link_child ar3 (tid c) s (tid t) = Some ar4" "heap ar4 ((q, add_child c s t) # F) fl2 R" "agree R ar3 ar4"
    "live ar4 = live ar3" by blast
  have "agree R ar ar4" by (blast intro: agree_trans 1(3) 2(3) 3(3) 4(3))
  moreover have "live ar \<subseteq>\<^sub>m live ar4" using map_le_trans[OF 1(4) 2(4)] by (simp add: 4(4) 3(4))
  ultimately show ?thesis using 1(1,5) 2(1,5,6) 3(1) 4(1,2)
    by (intro exI[of _ t] exI[of _ ar4] exI[of _ fl2]) (simp add: append_new_def)
qed

end
