(* ===== verification/Model_Refinement.thy ===== *)
theory Model_Refinement
  imports Subtree_Heap
begin

text \<open>
  The arena operations of \<open>Config_Model\<close> implement the tree operations of \<open>Config_Tree\<close>.
  \<open>models m v\<close>: the arena of \<open>m\<close> holds exactly one tree, rooted at \<open>cm_rootId m\<close>, whose value is
  \<open>v\<close>; every other slot is on the free list. The main lemmas give, for each operation, the value
  of the new model, the result, and which handles survive.
\<close>

section \<open>Walking slot trees\<close>

fun it_resolve :: "path_segment list \<Rightarrow> itree \<Rightarrow> error + itree" where
  "it_resolve [] t = Inr t"
| "it_resolve (Key k # ps) t = (if ity t \<noteq> TObject then traverses_nonobject k
     else (case map_of (imem t) k of None \<Rightarrow> no_member k | Some c \<Rightarrow> it_resolve ps c))"
| "it_resolve (Index j # ps) t = (if ity t \<noteq> TArray then traverses_nonarray
     else if j \<ge> length (iel t) then out_of_range j (length (iel t)) else it_resolve ps (iel t ! j))"

lemma map_of_kid: "map_of (imem t) k = Some c \<Longrightarrow> c \<in> set (kids t)"
  by (force dest: map_of_SomeD simp: kids_def)

lemma nth_kid: "j < length (iel t) \<Longrightarrow> iel t ! j \<in> set (kids t)"
  by (simp add: kids_def)

lemma it_resolve_erase:
  "shaped t \<Longrightarrow> tree_resolve p (erase t) = map_sum id erase (it_resolve p t)"
proof (induction p t rule: it_resolve.induct)
  case (2 k ps t)
  from "2.prems" show ?case
  proof (cases rule: shaped_cases)
    case (Obj ms)
    show ?thesis
    proof (cases "map_of ms k")
      case (Some c)
      then have m: "map_of (imem t) k = Some c" using Obj(3) by simp
      from Obj(1) have ty: "\<not> ity t \<noteq> TObject" by simp
      from "2.IH"[OF ty m shaped_kid[OF "2.prems" map_of_kid[OF m]]] show ?thesis
        by (simp add: Obj(1,3,5) map_of_map_snd Some)
    qed (simp add: Obj(1,3,5) map_of_map_snd no_member_def)
  qed (simp_all add: traverses_nonobject_def)
next
  case (3 j ps t)
  from "3.prems" show ?case
  proof (cases rule: shaped_cases)
    case (Arr es)
    show ?thesis
    proof (cases "j < length es")
      case True
      with Arr have m: "\<not> ity t \<noteq> TArray" "\<not> length (iel t) \<le> j" "j < length (iel t)" by simp_all
      from "3.IH"[OF m(1,2) shaped_kid[OF "3.prems" nth_kid[OF m(3)]]] show ?thesis
        using True by (simp add: Arr(1,4,5))
    qed (simp add: Arr(1,4,5) out_of_range_def)
  qed (simp_all add: traverses_nonarray_def)
qed simp

lemma it_resolve_sub: "it_resolve p t = Inr s \<Longrightarrow> \<exists>r. sub_in q t r s"
proof (induction p t arbitrary: q rule: it_resolve.induct)
  case (1 t)
  then show ?case by (auto intro: sub_self)
next
  case (2 k ps t)
  then obtain c where c: "ity t = TObject" "map_of (imem t) k = Some c" "it_resolve ps c = Inr s"
    by (auto simp: no_member_def traverses_nonobject_def split: if_splits option.splits)
  with 2 have "\<exists>r. sub_in (tid t) c r s" by simp
  then show ?case using sub_kid[OF map_of_kid[OF c(2)]] by blast
next
  case (3 j ps t)
  then have c: "ity t = TArray" "\<not> length (iel t) \<le> j" "it_resolve ps (iel t ! j) = Inr s"
    by (auto simp: out_of_range_def traverses_nonarray_def split: if_splits)
  with 3 have "\<exists>r. sub_in (tid t) (iel t ! j) r s" by simp
  then show ?case using sub_kid[OF nth_kid] c(2) by (metis not_le)
qed

lemma sub_in_shaped: "sub_in q t r s \<Longrightarrow> shaped t \<Longrightarrow> shaped s"
  by (induction rule: sub_in.induct) (auto dest: shaped_kid)

lemma it_resolve_append:
  "it_resolve (p @ q) t = (case it_resolve p t of Inl e \<Rightarrow> Inl e | Inr s \<Rightarrow> it_resolve q s)"
  by (induction p t rule: it_resolve.induct)
    (auto simp: no_member_def out_of_range_def traverses_nonobject_def traverses_nonarray_def
      split: option.splits)

section \<open>The walk over the arena\<close>

lemma find_tid: "map_of (map (\<lambda>(k, c). (k, tid c)) ms) k = map_option tid (map_of ms k)"
  by (rule map_of_map_snd)

lemma slotn_get:
  "rep (nodes ar) p t \<Longrightarrow> \<exists>n. arena_get ar (tid t) = Some n \<and> slotn n p t"
  using arena_get_rep rep_slot slot_slotn by blast

lemma findMember_slotn:
  assumes "slotn n p t" and "\<forall>c \<in> set (kids t). tid c \<noteq> kNodeIdNone"
  shows "map_of (imem t) k = None \<Longrightarrow> findMember n k = kNodeIdNone"
    "map_of (imem t) k = Some c \<Longrightarrow> findMember n k = tid c \<and> tid c \<noteq> kNodeIdNone"
  using assms map_of_kid[of t k c] by (auto simp: slotn_def findMember_def find_tid)

lemma kid_tid_ok:
  "rep (nodes ar) p t \<Longrightarrow> length (nodes ar) \<le> kNodeIdNone \<Longrightarrow> \<forall>c \<in> set (kids t). tid c \<noteq> kNodeIdNone"
  by (fastforce dest: rep_kid rep_tid_live)

lemma resolve_from_it:
  "rep (nodes ar) q t \<Longrightarrow> length (nodes ar) \<le> kNodeIdNone \<Longrightarrow>
     resolve_from ar (tid t) p = Some (map_sum id tid (it_resolve p t))"
proof (induction p t arbitrary: q rule: it_resolve.induct)
  case (2 k ps t)
  from slotn_get[OF "2.prems"(1)] obtain n where n: "arena_get ar (tid t) = Some n" "slotn n q t" by blast
  note fm = findMember_slotn[OF n(2) kid_tid_ok[OF "2.prems"]]
  show ?case
  proof (cases "map_of (imem t) k")
    case None
    have "ntype n = ity t" using n(2) by (simp add: slotn_def)
    then show ?thesis
      by (simp add: n(1) fm(1)[OF None] None no_member_def traverses_nonobject_def Let_def)
  next
    case (Some c)
    have ty: "ntype n = ity t" using n(2) by (simp add: slotn_def)
    have IH: "ity t = TObject \<Longrightarrow> resolve_from ar (tid c) ps = Some (map_sum id tid (it_resolve ps c))"
      using "2.IH"[OF _ Some rep_kid[OF "2.prems"(1) map_of_kid[OF Some]] "2.prems"(2)] by blast
    show ?thesis
      by (cases "ity t = TObject"; cases "it_resolve ps c") (simp_all add: n(1) ty fm(2)[OF Some] Some IH traverses_nonobject_def)
  qed
next
  case (3 j ps t)
  from slotn_get[OF "3.prems"(1)] obtain n where n: "arena_get ar (tid t) = Some n" "slotn n q t" by blast
  show ?case
  proof (cases "j < length (iel t)")
    case True
    have nd: "ntype n = ity t" "nelements n = map tid (iel t)" using n(2) by (simp_all add: slotn_def)
    have IH: "ity t = TArray \<Longrightarrow> resolve_from ar (tid (iel t ! j)) ps = Some (map_sum id tid (it_resolve ps (iel t ! j)))"
      using "3.IH"[OF _ _ rep_kid[OF "3.prems"(1) nth_kid[OF True]] "3.prems"(2)] True by (meson not_le)
    show ?thesis using True
      by (cases "ity t = TArray"; cases "it_resolve ps (iel t ! j)") (simp_all add: n(1) nd IH traverses_nonarray_def)
  qed (use n in \<open>simp add: slotn_def out_of_range_def traverses_nonarray_def\<close>)
qed simp

section \<open>Reading a subtree back\<close>

lemma foldM_cv_set:
  assumes "\<And>k c. (k, c) \<in> set ms \<Longrightarrow> g (tid c) = Some (erase c)" and "distinct (map fst ns @ map fst ms)"
  shows "foldM (\<lambda>v (k, i). do { x \<leftarrow> g i; cv_set v k x }) (Obj ns) (map (\<lambda>(k, c). (k, tid c)) ms)
    = Some (Obj (ns @ map (\<lambda>(k, c). (k, erase c)) ms))"
  using assms
proof (induction ms arbitrary: ns)
  case (Cons m ms)
  obtain k c where m: "m = (k, c)" by (cases m)
  have "upsert k (erase c) ns = ns @ [(k, erase c)]" using Cons.prems(2) m by (intro upsert_fresh) auto
  moreover have "g (tid c) = Some (erase c)" using Cons.prems(1)[of k c] m by simp
  moreover have "foldM (\<lambda>v (k, i). do { x \<leftarrow> g i; cv_set v k x }) (Obj (ns @ [(k, erase c)]))
      (map (\<lambda>(k, c). (k, tid c)) ms) = Some (Obj ((ns @ [(k, erase c)]) @ map (\<lambda>(k, c). (k, erase c)) ms))"
    using Cons.prems m by (intro Cons.IH) auto
  ultimately show ?case by (simp add: m cv_set_def)
qed simp

lemma foldM_cv_push:
  assumes "\<And>c. c \<in> set es \<Longrightarrow> g (tid c) = Some (erase c)"
  shows "foldM (\<lambda>v i. do { x \<leftarrow> g i; cv_push v x }) (Arr ns) (map tid es) = Some (Arr (ns @ map erase es))"
  using assms by (induction es arbitrary: ns) (simp_all add: cv_push_def)

lemma buildValue_erase:
  "fits n t \<Longrightarrow> shaped t \<Longrightarrow> cv_distinct (erase t) \<Longrightarrow> rep (nodes ar) q t \<Longrightarrow>
     buildValue n ar (tid t) = Some (erase t)"
proof (induction n arbitrary: t q)
  case (Suc n)
  from slotn_get[OF Suc.prems(4)] obtain nd where nd: "arena_get ar (tid t) = Some nd" "slotn nd q t" by blast
  have kid: "buildValue n ar (tid c) = Some (erase c)" if c: "c \<in> set (kids t)" for c
  proof (rule Suc.IH)
    have "erase c \<in> set (cv_kids (erase t))" using c by (simp flip: kids_erase[OF Suc.prems(2)])
    then show "cv_distinct (erase c)" by (rule cv_distinct_kids[OF Suc.prems(3)])
    show "rep (nodes ar) (tid t) c" by (rule rep_kid[OF Suc.prems(4) c])
  qed (use Suc.prems(1) shaped_kid[OF Suc.prems(2)] c in auto)
  from Suc.prems(2) show ?case
  proof (cases rule: shaped_cases)
    case (Scal sc)
    then have "ntype nd = scalar_type sc" "nscalar nd = sc"
      using nd(2) by (simp_all add: slotn_def)
    then show ?thesis by (cases sc) (simp_all add: Scal(5) nd(1))
  next
    case (Obj ms)
    have "distinct (map fst [] @ map fst ms)" using Suc.prems(3) by (simp add: Obj(5) comp_def split_def)
    moreover have "buildValue n ar (tid c) = Some (erase c)" if "(k, c) \<in> set ms" for k c
      using kid[of c] that Obj(3) by (force simp: kids_def)
    ultimately show ?thesis using foldM_cv_set[of ms "buildValue n ar" "[]"] nd
      by (simp add: Obj(1,3,5) slotn_def cv_object_def)
  next
    case (Arr es)
    then show ?thesis using foldM_cv_push[of es "buildValue n ar" "[]"] nd kid
      by (simp add: slotn_def cv_array_def kids_def)
  qed
qed simp

section \<open>One step down\<close>

fun it_step :: "path_segment \<Rightarrow> itree \<Rightarrow> itree option" where
  "it_step (Key k) t = (if ity t = TObject then map_of (imem t) k else None)"
| "it_step (Index j) t = (if ity t = TArray \<and> j < length (iel t) then Some (iel t ! j) else None)"

lemma it_resolve_Cons:
  "it_resolve (x # p) t = Inr s \<longleftrightarrow> (\<exists>c. it_step x t = Some c \<and> it_resolve p c = Inr s)"
  by (cases x) (auto simp: traverses_nonobject_def traverses_nonarray_def no_member_def out_of_range_def
      split: option.splits)

lemma it_step_kid: "it_step x t = Some c \<Longrightarrow> c \<in> set (kids t)"
  by (cases x) (auto simp: nth_kid dest: map_of_kid split: if_splits)

lemma it_resolve_mids: "it_resolve p t = Inr s \<Longrightarrow> mids s \<subseteq># mids t"
  using it_resolve_sub[of p t s 0] sub_in_mids by blast

lemma kmids_mids: "kmids (kids t) \<subseteq># mids t"
  by (metis mids_kids mset_subset_eq_add_right add_mset_add_single add.commute)

text \<open>Different segments lead to disjoint subtrees.\<close>

lemma two_steps:
  assumes "it_step x t = Some c" "it_step y t = Some d" "x \<noteq> y"
  shows "mids c + mids d \<subseteq># kmids (kids t)"
proof (cases x)
  case (Key k)
  with assms obtain k' where y: "y = Key k'" "k \<noteq> k'" by (cases y) (auto split: if_splits)
  have c: "(k, c) \<in> set (imem t)" and d: "(k', d) \<in> set (imem t)"
    using assms Key y by (auto split: if_splits dest: map_of_SomeD)
  from c obtain A B where AB: "imem t = A @ (k, c) # B" by (meson split_list)
  with d y have "d \<in> snd ` set (A @ B)" by force
  then have "d \<in> set (map snd A @ map snd B)" by auto
  then obtain C D where "map snd A @ map snd B = C @ d # D" by (meson split_list)
  then have "kmids (map snd A) + kmids (map snd B) = kmids C + mids d + kmids D"
    by (metis kmids_simps(2,3) add.assoc)
  then have "kmids (kids t) = mids c + mids d + (kmids C + kmids D + kmids (iel t))"
    by (simp add: kids_def AB ac_simps)
  then show ?thesis by (metis mset_subset_eq_add_left)
next
  case (Index i)
  with assms obtain j where y: "y = Index j" "i \<noteq> j" by (cases y) (auto split: if_splits)
  have ij: "i < length (iel t)" "j < length (iel t)" and cd: "c = iel t ! i" "d = iel t ! j"
    using assms Index y by (auto split: if_splits)
  let ?A = "take i (iel t)" and ?B = "drop (Suc i) (iel t)"
  have AB: "iel t = ?A @ c # ?B" using ij cd by (simp add: id_take_nth_drop)
  have "d \<in> set (?A @ ?B)"
  proof (cases "j < i")
    case True
    then have "?A ! j = d" "j < length ?A" using ij cd by auto
    then have "d \<in> set ?A" by (metis nth_mem)
    then show ?thesis by simp
  next
    case False
    then have "?B ! (j - Suc i) = d" "j - Suc i < length ?B" using ij cd y(2) by auto
    then have "d \<in> set ?B" by (metis nth_mem)
    then show ?thesis by simp
  qed
  then obtain C D where "?A @ ?B = C @ d # D" by (meson split_list)
  then have *: "kmids ?A + kmids ?B = kmids C + mids d + kmids D"
    by (metis kmids_simps(2,3) add.assoc)
  have "kmids (iel t) = kmids ?A + (mids c + kmids ?B)"
    by (subst AB) simp
  also have "\<dots> = mids c + mids d + (kmids C + kmids D)"
    using * by (simp add: ac_simps)
  finally have "kmids (kids t) = mids c + mids d + (kmids C + kmids D + kmids (map snd (imem t)))"
    by (simp add: kids_def ac_simps)
  then show ?thesis by (metis mset_subset_eq_add_left)
qed

definition lin :: "itree \<Rightarrow> bool" where
  "lin t \<longleftrightarrow> (\<forall>j. count (mids t) j \<le> 1)"

lemma lin_kid: "lin t \<Longrightarrow> c \<in> set (kids t) \<Longrightarrow> lin c"
proof -
  assume t: "lin t" and c: "c \<in> set (kids t)"
  have "mids c \<subseteq># mids t" using kid_mids[OF c] kmids_mids by (rule subset_mset.order_trans)
  then show ?thesis using t unfolding lin_def by (meson mset_subset_eq_count order_trans)
qed

lemma lin_root: "lin t \<Longrightarrow> c \<in> set (kids t) \<Longrightarrow> i \<in># mids c \<Longrightarrow> i \<noteq> tid t"
proof
  assume "lin t" "c \<in> set (kids t)" "i \<in># mids c" "i = tid t"
  moreover have "i \<in># kmids (kids t)" using calculation by (blast dest: kid_mids mset_subset_eqD)
  then have "0 < count (kmids (kids t)) i" by (simp only: count_greater_zero_iff)
  moreover have "count (mids t) (tid t) = Suc (count (kmids (kids t)) (tid t))" by (simp add: mids_kids[of t])
  ultimately show False unfolding lin_def by (metis Suc_le_mono le_zero_eq less_numeral_extra(3) One_nat_def)
qed

lemma lin_steps:
  assumes "lin t" "it_step x t = Some c" "it_step y t = Some d" "i \<in># mids c" "i \<in># mids d"
  shows "x = y"
proof (rule ccontr)
  assume "x \<noteq> y"
  from subset_mset.order_trans[OF two_steps[OF assms(2,3) this] kmids_mids]
  have "mids c + mids d \<subseteq># mids t" .
  then have "count (mids c) i + count (mids d) i \<le> count (mids t) i"
    by (metis count_union mset_subset_eq_count)
  moreover have "0 < count (mids c) i" "0 < count (mids d) i"
    using assms(4,5) by (simp_all only: count_greater_zero_iff)
  moreover have "count (mids t) i \<le> 1" using assms(1) by (simp add: lin_def)
  ultimately show False by linarith
qed

text \<open>A node has one path.\<close>

lemma it_resolve_unique:
  "lin t \<Longrightarrow> it_resolve p t = Inr s \<Longrightarrow> it_resolve q t = Inr u \<Longrightarrow> tid s = tid u \<Longrightarrow> p = q"
proof (induction p arbitrary: t q)
  case Nil
  show ?case
  proof (cases q)
    case (Cons y q')
    with Nil obtain d where d: "it_step y t = Some d" "it_resolve q' d = Inr u"
      by (auto simp: it_resolve_Cons)
    have "tid u \<in># mids d" using it_resolve_mids[OF d(2)] by (rule mset_subset_eqD) simp
    with lin_root[OF Nil(1) it_step_kid[OF d(1)]] Nil show ?thesis by auto
  qed simp
next
  case (Cons x p)
  from Cons.prems(2) obtain c where c: "it_step x t = Some c" "it_resolve p c = Inr s"
    by (auto simp: it_resolve_Cons)
  have sc: "tid s \<in># mids c" using it_resolve_mids[OF c(2)] by (rule mset_subset_eqD) simp
  show ?case
  proof (cases q)
    case Nil
    with lin_root[OF Cons.prems(1) it_step_kid[OF c(1)] sc] Cons.prems show ?thesis by auto
  next
    case (Cons y q')
    with Cons.prems obtain d where d: "it_step y t = Some d" "it_resolve q' d = Inr u"
      by (auto simp: it_resolve_Cons)
    have "tid s \<in># mids d" using it_resolve_mids[OF d(2)] Cons.prems(4) by (metis mset_subset_eqD tid_in_mids)
    from lin_steps[OF Cons.prems(1) c(1) d(1) sc this] have "x = y" .
    with c d Cons Cons.IH[OF lin_kid[OF Cons.prems(1) it_step_kid[OF c(1)]] c(2), of q'] Cons.prems(4)
    show ?thesis by auto
  qed
qed

section \<open>Grafting at a path\<close>

lemma it_step_graft: "tid t \<noteq> i \<Longrightarrow> it_step x (graft i s t) = map_option (graft i s) (it_step x t)"
  by (cases x) (auto simp: graft_there map_of_map_snd)

lemma it_resolve_graft:
  "it_resolve q t = Inr u \<Longrightarrow> (\<And>a b w. q = a @ b \<Longrightarrow> b \<noteq> [] \<Longrightarrow> it_resolve a t = Inr w \<Longrightarrow> tid w \<noteq> i) \<Longrightarrow>
     it_resolve q (graft i s t) = Inr (graft i s u)"
proof (induction q arbitrary: t)
  case (Cons x q)
  from Cons.prems(1) obtain c where c: "it_step x t = Some c" "it_resolve q c = Inr u"
    by (auto simp: it_resolve_Cons)
  have "tid t \<noteq> i" using Cons.prems(2)[of "[]" "x # q" t] by simp
  then have "it_step x (graft i s t) = Some (graft i s c)" using c(1) by (simp add: it_step_graft)
  moreover have "it_resolve q (graft i s c) = Inr (graft i s u)"
  proof (rule Cons.IH[OF c(2)])
    fix a b w assume "q = a @ b" "b \<noteq> []" "it_resolve a c = Inr w"
    with c(1) show "tid w \<noteq> i" using Cons.prems(2)[of "x # a" b w] by (simp add: it_resolve_Cons)
  qed
  ultimately show ?case by (simp add: it_resolve_Cons)
qed simp

lemma graft_other:
  assumes "lin t" and s: "it_resolve p t = Inr s" and u: "it_resolve q t = Inr u"
    and "\<And>r. r \<noteq> [] \<Longrightarrow> q \<noteq> p @ r"
  shows "it_resolve q (graft (tid s) s' t) = Inr (graft (tid s) s' u)"
  using u
proof (rule it_resolve_graft)
  fix a b w assume *: "q = a @ b" "b \<noteq> []" "it_resolve a t = Inr w"
  show "tid w \<noteq> tid s"
  proof
    assume "tid w = tid s"
    from it_resolve_unique[OF assms(1) *(3) s this] show False using * assms(4) by auto
  qed
qed

lemma graft_at:
  assumes "lin t" and s: "it_resolve p t = Inr s"
  shows "it_resolve p (graft (tid s) s' t) = Inr s'"
  using graft_other[OF assms s, of s'] by (simp add: graft_here)

lemma shaped_graft: "shaped t \<Longrightarrow> shaped s \<Longrightarrow> shaped (graft i s t)"
proof (induction t rule: itree_kids_induct)
  case (Kids t)
  show ?case
  proof (cases "tid t = i")
    case False
    have ok: "shape_ok (graft i s t)"
      using shaped_ok[OF Kids.prems(1)] by (auto simp: graft_there[OF False] shape_ok_def split: node_type.splits)
    have "shaped c" if "c \<in> set (kids (graft i s t))" for c
      using that Kids.IH[OF _ shaped_kid[OF Kids.prems(1)] Kids.prems(2)] by (auto simp: kids_graft[OF False])
    with ok show ?thesis by (blast intro: shaped_intro)
  qed (simp add: graft_here Kids.prems(2))
qed

lemma map_snd_upsert:
  "distinct (map fst ms) \<Longrightarrow> map_of ms k = Some c \<Longrightarrow> (\<And>k' x. (k', x) \<in> set ms \<Longrightarrow> k' \<noteq> k \<Longrightarrow> f x = x) \<Longrightarrow>
     map (\<lambda>(k, x). (k, f x)) ms = upsert k (f c) ms"
proof (induction ms)
  case (Cons m ms)
  obtain k' x where m: "m = (k', x)" by (cases m)
  show ?case
  proof (cases "k' = k")
    case True
    have "map (\<lambda>(k, x). (k, f x)) ms = ms"
    proof (rule map_idI)
      fix y assume y: "y \<in> set ms"
      obtain k'' z where "y = (k'', z)" by (cases y)
      moreover have "k'' \<noteq> k" using Cons.prems(1) m True y calculation by force
      ultimately show "(\<lambda>(k, x). (k, f x)) y = y" using Cons.prems(3)[of k'' z] y by simp
    qed
    then show ?thesis using Cons.prems m True by simp
  next
    case False
    with Cons m show ?thesis by (auto simp: image_iff)
  qed
qed simp

lemma map_nth_update:
  "j < length xs \<Longrightarrow> (\<And>i. i < length xs \<Longrightarrow> i \<noteq> j \<Longrightarrow> f (xs ! i) = xs ! i) \<Longrightarrow> map f xs = xs[j := f (xs ! j)]"
  by (rule nth_equalityI) (auto simp: nth_list_update)

lemma erase_graft:
  "it_resolve p t = Inr s \<Longrightarrow> lin t \<Longrightarrow> shaped t \<Longrightarrow> cv_distinct (erase t) \<Longrightarrow>
     erase (graft (tid s) s' t) = tree_put p (erase s') (erase t)"
proof (induction p arbitrary: t)
  case (Cons x p)
  from Cons.prems(1) obtain c where c: "it_step x t = Some c" "it_resolve p c = Inr s"
    by (auto simp: it_resolve_Cons)
  note kid = it_step_kid[OF c(1)]
  have sc: "tid s \<in># mids c" using it_resolve_mids[OF c(2)] by (rule mset_subset_eqD) simp
  have ne: "tid t \<noteq> tid s" using lin_root[OF Cons.prems(2) kid sc] by simp
  have "erase c \<in> set (cv_kids (erase t))" using kid by (simp flip: kids_erase[OF Cons.prems(3)])
  then have IH: "erase (graft (tid s) s' c) = tree_put p (erase s') (erase c)"
    using Cons.IH[OF c(2) lin_kid[OF Cons.prems(2) kid] shaped_kid[OF Cons.prems(3) kid]]
      cv_distinct_kids[OF Cons.prems(4)] by simp
  have absent: "graft (tid s) s' d = d" if "it_step y t = Some d" "y \<noteq> x" for y d
    using lin_steps[OF Cons.prems(2) c(1) that(1) sc] that(2) by (intro graft_absent) auto
  from Cons.prems(3) show ?case
  proof (cases rule: shaped_cases)
    case (Scal sc)
    with c(1) show ?thesis by (cases x) auto
  next
    case (Obj ms)
    with c(1) obtain k where x: "x = Key k" and m: "map_of ms k = Some c" by (cases x) auto
    have d: "distinct (map fst ms)" using Cons.prems(4) by (simp add: Obj(5) comp_def split_def)
    have "map (\<lambda>(k, x). (k, graft (tid s) s' x)) ms = upsert k (graft (tid s) s' c) ms"
      using d m
    proof (rule map_snd_upsert)
      fix k' y assume "(k', y) \<in> set ms" "k' \<noteq> k"
      then show "graft (tid s) s' y = y" using absent[of "Key k'" y] d x Obj(1,3) by simp
    qed
    moreover have "map (map_prod id erase) (upsert k (graft (tid s) s' c) ms) =
        upsert k (erase (graft (tid s) s' c)) (map (\<lambda>(k, x). (k, erase x)) ms)"
      by (simp only: upsert_map_snd map_prod_def id_apply)
    ultimately show ?thesis using m IH
      by (simp add: graft_there[OF ne] Obj(1,3,5) x map_of_map_snd)
  next
    case (Arr es)
    with c(1) obtain j where x: "x = Index j" and j: "j < length es" "c = es ! j" by (cases x) (auto split: if_splits)
    have "map (graft (tid s) s') es = es[j := graft (tid s) s' (es ! j)]"
      using j(1)
    proof (rule map_nth_update)
      fix i assume "i < length es" "i \<noteq> j"
      then show "graft (tid s) s' (es ! i) = es ! i" using absent[of "Index i" "es ! i"] x Arr(1,4) by simp
    qed
    then show ?thesis using j IH by (simp add: graft_there[OF ne] Arr(1,4,5) x map_update)
  qed
qed (simp add: graft_here)

section \<open>Models\<close>

definition holds :: "cmodel \<Rightarrow> itree \<Rightarrow> nat list \<Rightarrow> bool" where
  "holds m T fl \<longleftrightarrow> heap (cm_arena m) [(kNodeIdNone, T)] fl {#} \<and> tid T = cm_rootId m \<and> shaped T \<and>
     wf_model_value (erase T)"

definition models :: "cmodel \<Rightarrow> config_value \<Rightarrow> bool" where
  "models m v \<longleftrightarrow> (\<exists>T fl. holds m T fl \<and> erase T = v)"

lemma modelsI: "holds m T fl \<Longrightarrow> models m (erase T)"
  unfolding models_def by blast

lemma holdsD:
  assumes "holds m T fl"
  shows "heap (cm_arena m) [(kNodeIdNone, T)] fl {#}" "tid T = cm_rootId m" "shaped T"
    "wf_model_value (erase T)" "wf_at 0 (erase T)" "cv_distinct (erase T)" "lin T"
    "rep (nodes (cm_arena m)) kNodeIdNone T" "length (nodes (cm_arena m)) \<le> kNodeIdNone" "fits stack_fuel T"
  using assms heap_lin[of "cm_arena m" kNodeIdNone T "[]" fl "{#}"] wf_at_fits[of T 0 stack_fuel]
  by (auto simp: holds_def wf_model_value_def wf_at_validate lin_def heap_def stack_fuel_def)

lemma models_wf: "models m v \<Longrightarrow> wf_model_value v"
  unfolding models_def using holdsD(4) by blast

lemma models_functional: "models m v \<Longrightarrow> models m w \<Longrightarrow> v = w"
proof -
  assume "models m v" "models m w"
  then obtain T fl U fl' where T: "holds m T fl" "erase T = v" and U: "holds m U fl'" "erase U = w"
    unfolding models_def by blast
  have "buildValue stack_fuel (cm_arena m) (cm_rootId m) = Some v"
    using buildValue_erase[OF holdsD(10,3,6,8)[OF T(1)]] T(2) holdsD(2)[OF T(1)] by simp
  moreover have "buildValue stack_fuel (cm_arena m) (cm_rootId m) = Some w"
    using buildValue_erase[OF holdsD(10,3,6,8)[OF U(1)]] U(2) holdsD(2)[OF U(1)] by simp
  ultimately show "v = w" by simp
qed

text \<open>Exactly the slots of the tree are live: nothing leaks.\<close>

lemma holds_live: "holds m T fl \<Longrightarrow> live (cm_arena m) i \<noteq> None \<longleftrightarrow> i \<in># mids T"
proof
  assume h: "holds m T fl" and "live (cm_arena m) i \<noteq> None"
  from heap_live[OF holdsD(1)[OF h] this(2)] show "i \<in># mids T" by simp
next
  assume h: "holds m T fl" and i: "i \<in># mids T"
  have "rep ns p t \<Longrightarrow> i \<in># mids t \<Longrightarrow> i < length ns \<and> nalive (ns ! i)" for ns p t
  proof (induction rule: rep.induct)
    case (rep_intro p t)
    have "i = tid t \<or> (\<exists>c \<in> set (kids t). i \<in># mids c)"
      using rep_intro.prems by (auto simp: mids_kids[of t] kmids_def simp flip: sum_mset_sum_list)
    then show ?case using rep_intro by (auto simp: slot_slotn slotn_def)
  qed
  from this[OF holdsD(8)[OF h] i] show "live (cm_arena m) i \<noteq> None" by (simp add: live_def)
qed

definition live_slots :: "cmodel \<Rightarrow> nat" where
  "live_slots m = length (filter nalive (nodes (cm_arena m)))"

lemma holds_room: "holds m T fl \<Longrightarrow> room (cm_arena m) fl + cv_nodes (erase T) = kNodeIdNone"
  using heap_room[OF holdsD(1)] size_mids[OF holdsD(3)] by simp

section \<open>Reading\<close>

lemma cm_resolve_it: "holds m T fl \<Longrightarrow> cm_resolve m p = Some (map_sum id tid (it_resolve p T))"
  using resolve_from_it[OF holdsD(8,9)] holdsD(2) by (simp add: cm_resolve_def)

lemma holds_sub:
  assumes h: "holds m T fl" and s: "it_resolve p T = Inr s"
  obtains q where "sub_in kNodeIdNone T q s" "rep (nodes (cm_arena m)) q s" "shaped s" "cv_distinct (erase s)"
    "fits stack_fuel s" "\<forall>c \<in> set (kids s). fits stack_fuel c" "lin s" "wf_at (length p) (erase s)"
    "tree_resolve p (erase T) = Inr (erase s)"
proof -
  from it_resolve_sub[OF s] obtain q where q: "sub_in kNodeIdNone T q s" by blast
  have sh: "shaped s" by (rule sub_in_shaped[OF q holdsD(3)[OF h]])
  have r: "tree_resolve p (erase T) = Inr (erase s)" using it_resolve_erase[OF holdsD(3)[OF h], of p] s by simp
  have wf: "wf_at (length p) (erase s)" using tree_resolve_wf[OF r holdsD(5)[OF h]] by simp
  have fits: "fits stack_fuel s" by (rule wf_at_fits[OF sh wf]) (simp add: stack_fuel_def)
  have "fits stack_fuel c" if c: "c \<in> set (kids s)" for c
  proof (rule wf_at_fits)
    have "erase c \<in> set (cv_kids (erase s))" using c by (simp flip: kids_erase[OF sh])
    then show "wf_at (Suc (length p)) (erase c)" by (rule wf_at_kid[OF wf])
  qed (use shaped_kid[OF sh c] in \<open>simp_all add: stack_fuel_def\<close>)
  moreover have "count (mids s) j \<le> 1" for j
    using sub_in_mids[OF q] holdsD(7)[OF h] unfolding lin_def by (meson mset_subset_eq_count order_trans)
  moreover have "rep (nodes (cm_arena m)) q s" by (rule sub_in_rep[OF q holdsD(8)[OF h]])
  ultimately show thesis using that q sh r wf fits by (auto simp: lin_def wf_at_validate)
qed

lemma getValue_models:
  assumes "models m v"
  shows "cm_getValue m path = Some (case cp_parse path of Inl e \<Rightarrow> Inl e | Inr p \<Rightarrow> tree_resolve p v)"
proof -
  from assms obtain T fl where h: "holds m T fl" and v: "erase T = v" unfolding models_def by blast
  show ?thesis
  proof (cases "cp_parse path")
    case (Inr p)
    show ?thesis
    proof (cases "it_resolve p T")
      case (Inl e)
      then show ?thesis using it_resolve_erase[OF holdsD(3)[OF h], of p] v Inr
        by (simp add: cm_getValue_def cm_resolve_it[OF h])
    next
      case (Inr s)
      from holds_sub[OF h this] obtain q where
        "rep (nodes (cm_arena m)) q s" "shaped s" "cv_distinct (erase s)" "fits stack_fuel s"
        "tree_resolve p (erase T) = Inr (erase s)" by blast
      then show ?thesis using buildValue_erase[of stack_fuel s] Inr \<open>cp_parse path = Inr p\<close> v
        by (simp add: cm_getValue_def cm_resolve_it[OF h])
    qed
  qed (simp add: cm_getValue_def)
qed

lemma contains_models:
  assumes "models m v"
  shows "cm_contains m path = Some (case cp_parse path of Inl e \<Rightarrow> False | Inr p \<Rightarrow> \<not> isl (tree_resolve p v))"
proof -
  from assms obtain T fl where h: "holds m T fl" and v: "erase T = v" unfolding models_def by blast
  show ?thesis
  proof (cases "cp_parse path")
    case (Inr p)
    then show ?thesis using it_resolve_erase[OF holdsD(3)[OF h], of p] v
      by (cases "it_resolve p T") (simp_all add: cm_contains_def cm_resolve_it[OF h])
  qed (simp add: cm_contains_def)
qed

text \<open>A handle from \<open>nodeAt\<close>: valid, and of the slot the path leads to.\<close>

lemma nodeAt_holds:
  assumes h: "holds m T fl"
  shows "cm_nodeAt m path = Some (case cp_parse path of Inl e \<Rightarrow> Inl e | Inr p \<Rightarrow>
    (case it_resolve p T of Inl e \<Rightarrow> Inl e
     | Inr s \<Rightarrow> Inr \<lparr>cn_bound = True, cn_id = tid s, cn_generation = the (live (cm_arena m) (tid s))\<rparr>))"
proof (cases "cp_parse path")
  case (Inr p)
  show ?thesis
  proof (cases "it_resolve p T")
    case (Inr s)
    from holds_sub[OF h this] obtain q where "rep (nodes (cm_arena m)) q s" by blast
    from arena_get_rep[OF this] rep_tid_live[OF this] show ?thesis using Inr \<open>cp_parse path = Inr p\<close>
      by (simp add: cm_nodeAt_def cm_resolve_it[OF h] handle_to_def live_def)
  qed (use Inr in \<open>simp add: cm_nodeAt_def cm_resolve_it[OF h]\<close>)
qed (simp add: cm_nodeAt_def)

section \<open>Planning a write\<close>

lemma checkCreatable_spec: "checkCreatable segs i par = (case check_creatable (drop (Suc i) segs) of
    Inl e \<Rightarrow> Inl e | Inr _ \<Rightarrow> Inr \<lparr>wp_node = par, wp_createFrom = i\<rparr>)"
proof -
  have "(case find (\<lambda>s. case s of Index i \<Rightarrow> i \<noteq> 0 | Key k \<Rightarrow> False) b of
        Some (Index i) \<Rightarrow> fail NodeNotFound (''index '' @ nat_str i
          @ '' into a newly created array; only [0] can be appended'')
      | _ \<Rightarrow> Inr x) = (case check_creatable b of Inl e \<Rightarrow> Inl e | Inr _ \<Rightarrow> Inr x)" for b and x :: write_plan
    by (induction b rule: check_creatable.induct) (simp_all del: neq0_conv)
  then show ?thesis by (simp add: checkCreatable_def del: neq0_conv)
qed

lemma erase_cases:
  assumes "shaped t"
  shows "it_step x t = Some c \<Longrightarrow> tree_set (x # p) new (erase t) = Inl e \<longleftrightarrow> tree_set p new (erase c) = Inl e"
proof -
  assume s: "it_step x t = Some c"
  from assms show ?thesis
  proof (cases rule: shaped_cases)
    case (Scal sc)
    with s show ?thesis by (cases x) auto
  next
    case (Obj ms)
    with s obtain k where "x = Key k" "map_of ms k = Some c" by (cases x) auto
    then show ?thesis by (simp add: Obj(5) map_of_map_snd split: sum.split)
  next
    case (Arr es)
    with s obtain j where "x = Index j" "j < length es" "c = es ! j" by (cases x) (auto split: if_splits)
    then show ?thesis by (simp add: Arr(5) split: sum.split)
  qed
qed

lemma plan_down:
  assumes n: "arena_get ar (tid t) = Some n" "slotn n q t"
    and kt: "\<forall>c \<in> set (kids t). tid c \<noteq> kNodeIdNone" and sh: "shaped t"
    and ca: "it_step x t = Some c"
  shows "planWrite_from ar segs ty (tid t) i (x # p) =
    (if p = [] then planFinal ar segs ty (tid c) else planWrite_from ar segs ty (tid c) (i + 1) p)"
proof (cases x)
  case (Key k)
  with ca have "ity t = TObject" "map_of (imem t) k = Some c" by (auto split: if_splits)
  with findMember_slotn(2)[OF n(2) kt] have "findMember n k = tid c" "tid c \<noteq> kNodeIdNone" "ntype n = TObject"
    using n(2) by (auto simp: slotn_def)
  then show ?thesis using Key n(1) by (simp add: Let_def)
next
  case (Index j)
  with ca have "ity t = TArray" "j < length (iel t)" "c = iel t ! j" by (auto split: if_splits)
  then show ?thesis using Index n by (simp add: slotn_def Let_def)
qed

lemma plan_missing:
  assumes n: "arena_get ar (tid t) = Some n" "slotn n q t"
    and kt: "\<forall>c \<in> set (kids t). tid c \<noteq> kNodeIdNone" and sh: "shaped t"
    and ca: "missing_at (erase t) x"
  shows "planWrite_from ar segs ty (tid t) i (x # p) = Some (checkCreatable segs i (tid t))"
  using sh
proof (cases rule: shaped_cases)
  case (Scal sc)
  with ca show ?thesis by simp
next
  case (Obj ms)
  with ca obtain k where x: "x = Key k" and "k \<notin> fst ` set ms" by (cases x) (auto simp: image_comp comp_def split_def)
  then have "map_of (imem t) k = None" using Obj(3) by (simp add: map_of_eq_None_iff)
  from findMember_slotn(1)[OF n(2) kt this] show ?thesis
    using x n Obj(1) by (simp add: slotn_def)
next
  case (Arr es)
  with ca obtain j where x: "x = Index j" "j = length es" by (cases x) auto
  then show ?thesis using n Arr by (simp add: slotn_def)
qed

lemma plan_blocked:
  assumes n: "arena_get ar (tid t) = Some n" "slotn n q t"
    and kt: "\<forall>c \<in> set (kids t). tid c \<noteq> kNodeIdNone" and sh: "shaped t"
    and ca: "it_step x t = None" "\<not> missing_at (erase t) x"
  shows "\<exists>e. planWrite_from ar segs ty (tid t) i (x # p) = Some (Inl e) \<and> tree_set (x # p) new (erase t) = Inl e"
proof -
  have nd: "ntype n = ity t" "nelements n = map tid (iel t)" using n(2) by (simp_all add: slotn_def)
  from sh show ?thesis
  proof (cases rule: shaped_cases)
    case (Scal sc)
    then show ?thesis by (cases x) (simp_all add: n(1) nd traverses_nonobject_def traverses_nonarray_def fail_def del: Inl_fold_fail)
  next
    case (Obj ms)
    with ca show ?thesis
      by (cases x) (auto simp: n(1) nd traverses_nonarray_def fail_def map_of_eq_None_iff image_comp comp_def split_def
          simp del: Inl_fold_fail)
  next
    case (Arr es)
    with ca show ?thesis
      by (cases x) (auto simp: n(1) nd traverses_nonobject_def past_the_end_def fail_def simp del: Inl_fold_fail split: if_splits)
  qed
qed

lemma planFinal_spec:
  "rep (nodes ar) q c \<Longrightarrow> planFinal ar segs ty (tid c) =
     Some (if ity c \<noteq> ty then changes_type else Inr \<lparr>wp_node = tid c, wp_createFrom = length segs\<rparr>)"
  using slotn_get[of ar q c] by (auto simp: planFinal_def slotn_def changes_type_def)

lemma plan_error:
  assumes "tree_set p new (erase t) = Inl e" and "rep (nodes ar) q t" and "length (nodes ar) \<le> kNodeIdNone"
    and "shaped t" and "drop i segs = p" and "p \<noteq> []"
  shows "planWrite_from ar segs (cv_type new) (tid t) i p = Some (Inl e)"
  using assms
proof (induction p arbitrary: t q i)
  case (Cons x p)
  from slotn_get[OF Cons.prems(2)] obtain n where n: "arena_get ar (tid t) = Some n" "slotn n q t" by blast
  note ctx = n kid_tid_ok[OF Cons.prems(2,3)] Cons.prems(4)
  show ?case
  proof (cases "it_step x t")
    case (Some c)
    note kid = it_step_kid[OF Some]
    have e: "tree_set p new (erase c) = Inl e"
      using Cons.prems(1) erase_cases[OF Cons.prems(4) Some] by blast
    have c: "rep (nodes ar) (tid t) c" "shaped c" by (rule rep_kid[OF Cons.prems(2) kid], rule shaped_kid[OF Cons.prems(4) kid])
    show ?thesis
    proof (cases "p = []")
      case True
      with e have "ity c \<noteq> cv_type new" "changes_type = (Inl e :: error + write_plan)"
        using cv_type_erase[OF c(2)] by (auto simp: changes_type_def fail_def simp del: Inl_fold_fail split: if_splits)
      then show ?thesis using True by (simp add: plan_down[OF ctx Some] planFinal_spec[OF c(1)])
    next
      case False
      have "drop (i + 1) segs = p" using Cons.prems(5) by (metis Suc_eq_plus1 drop_Suc list.sel(3) tl_drop)
      from Cons.IH[OF e c(1) Cons.prems(3) c(2) this False] False show ?thesis by (simp add: plan_down[OF ctx Some])
    qed
  next
    case None
    show ?thesis
    proof (cases "missing_at (erase t) x")
      case True
      have d: "drop (Suc i) segs = p" using Cons.prems(5) by (metis drop_Suc list.sel(3) tl_drop)
      have "tree_resolve [] (erase t) = Inr (erase t)" by simp
      from tree_set_creating[OF this True, of p new] Cons.prems(1) have "check_creatable p = Inl e"
        by (auto split: sum.splits)
      then show ?thesis by (simp add: plan_missing[OF ctx True] checkCreatable_spec d)
    next
      case False
      from plan_blocked[OF ctx None False, of segs "cv_type new" i p new] Cons.prems(1) show ?thesis by auto
    qed
  qed
qed simp

lemma plan_replace:
  assumes "it_resolve p t = Inr s" and "ity s = ty" and "rep (nodes ar) q t" and "length (nodes ar) \<le> kNodeIdNone"
    and "shaped t" and "p \<noteq> []"
  shows "planWrite_from ar segs ty (tid t) i p = Some (Inr \<lparr>wp_node = tid s, wp_createFrom = length segs\<rparr>)"
  using assms
proof (induction p arbitrary: t q i)
  case (Cons x p)
  from slotn_get[OF Cons.prems(3)] obtain n where n: "arena_get ar (tid t) = Some n" "slotn n q t" by blast
  note ctx = n kid_tid_ok[OF Cons.prems(3,4)] Cons.prems(5)
  from Cons.prems(1) obtain c where c: "it_step x t = Some c" "it_resolve p c = Inr s" by (auto simp: it_resolve_Cons)
  have rc: "rep (nodes ar) (tid t) c" "shaped c"
    by (rule rep_kid[OF Cons.prems(3) it_step_kid[OF c(1)]], rule shaped_kid[OF Cons.prems(5) it_step_kid[OF c(1)]])
  show ?case using c(2) Cons.IH[OF c(2) Cons.prems(2) rc(1) Cons.prems(4) rc(2)] Cons.prems(2)
    by (auto simp: plan_down[OF ctx c(1)] planFinal_spec[OF rc(1)])
qed simp

lemma plan_create:
  assumes "it_resolve a t = Inr c" and "missing_at (erase c) x" and "check_creatable b = Inr ()"
    and "rep (nodes ar) q t" and "length (nodes ar) \<le> kNodeIdNone" and "shaped t" and "drop i segs = a @ x # b"
  shows "planWrite_from ar segs ty (tid t) i (a @ x # b) = Some (Inr \<lparr>wp_node = tid c, wp_createFrom = i + length a\<rparr>)"
  using assms
proof (induction a arbitrary: t q i)
  case Nil
  from slotn_get[OF Nil.prems(4)] obtain n where n: "arena_get ar (tid t) = Some n" "slotn n q t" by blast
  have d: "drop (Suc i) segs = b" using Nil.prems(7) by (metis append_Nil drop_Suc list.sel(3) tl_drop)
  have c: "c = t" using Nil.prems(1) by simp
  from plan_missing[OF n kid_tid_ok[OF Nil.prems(4,5)] Nil.prems(6) Nil.prems(2)[unfolded c], of segs ty i b]
  show ?case using Nil.prems(3) by (simp add: c checkCreatable_spec d)
next
  case (Cons y a)
  from slotn_get[OF Cons.prems(4)] obtain n where n: "arena_get ar (tid t) = Some n" "slotn n q t" by blast
  note ctx = n kid_tid_ok[OF Cons.prems(4,5)] Cons.prems(6)
  from Cons.prems(1) obtain d where d: "it_step y t = Some d" "it_resolve a d = Inr c" by (auto simp: it_resolve_Cons)
  have rc: "rep (nodes ar) (tid t) d" "shaped d"
    by (rule rep_kid[OF Cons.prems(4) it_step_kid[OF d(1)]], rule shaped_kid[OF Cons.prems(6) it_step_kid[OF d(1)]])
  have "drop (i + 1) segs = a @ x # b"
    using Cons.prems(7) by (metis Suc_eq_plus1 append_Cons drop_Suc list.sel(3) tl_drop)
  from Cons.IH[OF d(2) Cons.prems(2,3) rc(1) Cons.prems(5) rc(2) this] show ?case
    by (simp add: plan_down[OF ctx d(1)])
qed

section \<open>Writing\<close>

lemma holds_focus:
  assumes h: "holds m T fl" and s: "sub_in kNodeIdNone T q s"
  shows "heap (cm_arena m) [(q, s)] fl (mids T - mids s)"
  using heap_focus[OF holdsD(1)[OF h] s] by simp

lemma holds_update:
  assumes h: "holds m T fl" and p: "it_resolve p T = Inr s" and s: "sub_in kNodeIdNone T q s"
    and h': "heap ar' [(q, s')] fl' (mids T - mids s)" and fr: "agree (mids T - mids s) (cm_arena m) ar'"
    and s': "tid s' = tid s" "shaped s'" and wf: "wf_model_value (tree_put p (erase s') (erase T))"
  shows "holds (m\<lparr>cm_arena := ar'\<rparr>) (graft (tid s) s' T) fl'"
    "erase (graft (tid s) s' T) = tree_put p (erase s') (erase T)"
proof -
  show e: "erase (graft (tid s) s' T) = tree_put p (erase s') (erase T)"
    by (rule erase_graft[OF p holdsD(7,3,6)[OF h]])
  have "heap ar' [(kNodeIdNone, graft (tid s) s' T)] fl' {#}"
    using heap_unfocus(1)[OF holdsD(1)[OF h] s, of ar' s' "[]" fl'] h' fr s'(1) by simp
  then show "holds (m\<lparr>cm_arena := ar'\<rparr>) (graft (tid s) s' T) fl'"
    using wf s' holdsD(2)[OF h] shaped_graft[OF holdsD(3)[OF h] s'(2)]
    by (simp add: holds_def e tid_graft)
qed

text \<open>Every slot of a tree is at the end of some path.\<close>

lemma kid_step:
  assumes "shaped t" "cv_distinct (erase t)" "c \<in> set (kids t)"
  obtains x where "it_step x t = Some c"
  using assms(1)
proof (cases rule: shaped_cases)
  case (Scal sc)
  with assms(3) show ?thesis by (simp add: kids_def)
next
  case (Obj ms)
  with assms(3) obtain k where k: "(k, c) \<in> set ms" by (auto simp: kids_def)
  have "distinct (map fst ms)" using assms(2) by (simp add: Obj(5) comp_def split_def)
  with k have "it_step (Key k) t = Some c" using Obj(1,3) by simp
  then show ?thesis by (rule that)
next
  case (Arr es)
  with assms(3) obtain j where "j < length es" "es ! j = c" by (auto simp: kids_def in_set_conv_nth)
  then have "it_step (Index j) t = Some c" using Arr(1,4) by simp
  then show ?thesis by (rule that)
qed

lemma in_kmids: "i \<in># kmids ts \<Longrightarrow> \<exists>c \<in> set ts. i \<in># mids c"
  by (induction ts) auto

lemma mids_path:
  "i \<in># mids t \<Longrightarrow> shaped t \<Longrightarrow> cv_distinct (erase t) \<Longrightarrow> \<exists>r w. it_resolve r t = Inr w \<and> tid w = i"
proof (induction t rule: itree_kids_induct)
  case (Kids t)
  show ?case
  proof (cases "i = tid t")
    case True
    then show ?thesis by (intro exI[of _ "[]"]) simp
  next
    case False
    with Kids.prems(1) obtain c where c: "c \<in> set (kids t)" "i \<in># mids c"
      using in_kmids[of i "kids t"] by (auto simp: mids_kids[of t])
    have "erase c \<in> set (cv_kids (erase t))" using c(1) by (simp flip: kids_erase[OF Kids.prems(2)])
    then have "cv_distinct (erase c)" by (rule cv_distinct_kids[OF Kids.prems(3)])
    with Kids.IH[OF c(1) c(2) shaped_kid[OF Kids.prems(2) c(1)]] obtain r w where
      "it_resolve r c = Inr w" "tid w = i" by blast
    moreover from kid_step[OF Kids.prems(2,3) c(1)] obtain x where "it_step x t = Some c" .
    ultimately show ?thesis by (intro exI[of _ "x # r"] exI[of _ w]) (simp add: it_resolve_Cons)
  qed
qed

lemma below_iff:
  assumes h: "holds m T fl" and p: "it_resolve p T = Inr s" and q: "it_resolve q T = Inr u"
  shows "tid u \<in># kmids (kids s) \<longleftrightarrow> (\<exists>r. r \<noteq> [] \<and> q = p @ r)"
proof
  assume i: "tid u \<in># kmids (kids s)"
  from in_kmids[OF this] obtain c where c: "c \<in> set (kids s)" "tid u \<in># mids c" by blast
  from holds_sub[OF h p] have s: "shaped s" "cv_distinct (erase s)" by blast+
  from kid_step[OF s c(1)] obtain x where x: "it_step x s = Some c" .
  have "erase c \<in> set (cv_kids (erase s))" using c(1) by (simp flip: kids_erase[OF s(1)])
  then have "cv_distinct (erase c)" by (rule cv_distinct_kids[OF s(2)])
  from mids_path[OF c(2) shaped_kid[OF s(1) c(1)] this] obtain r w where
    "it_resolve r c = Inr w" "tid w = tid u" by blast
  then have "it_resolve (p @ x # r) T = Inr w" "tid u = tid w"
    using p x by (simp_all add: it_resolve_append it_resolve_Cons)
  from it_resolve_unique[OF holdsD(7)[OF h] q this] show "\<exists>r. r \<noteq> [] \<and> q = p @ r" by blast
next
  assume "\<exists>r. r \<noteq> [] \<and> q = p @ r"
  then obtain x r where "q = p @ x # r" by (metis neq_Nil_conv)
  with p q have "it_resolve (x # r) s = Inr u" by (simp add: it_resolve_append)
  then obtain c where c: "it_step x s = Some c" "it_resolve r c = Inr u" by (auto simp: it_resolve_Cons)
  have "tid u \<in># mids c" using it_resolve_mids[OF c(2)] by (rule mset_subset_eqD) simp
  then show "tid u \<in># kmids (kids s)" using kid_mids[OF it_step_kid[OF c(1)]] by (rule mset_subset_eqD[rotated])
qed

lemma add_child_erase:
  assumes "shaped c" "missing_at (erase c) x" "shaped t"
  shows "erase (add_child c x t) = append_child (erase c) x (erase t)" "shaped (add_child c x t)"
proof -
  obtain i ty sc ms es where c: "c = INode i ty sc ms es" by (cases c)
  have "ty = TObject \<or> ty = TArray" using assms(2) c by (cases x; cases ty; simp)
  then show "erase (add_child c x t) = append_child (erase c) x (erase t)" "shaped (add_child c x t)"
    using assms c by (cases x; auto)+
qed

lemma add_child_step: "it_step y c = Some d \<Longrightarrow> it_step y (add_child c x t) = Some d"
  by (cases c; cases x; cases y) (auto simp: nth_append split: if_splits)

lemma missing_step: "shaped c \<Longrightarrow> missing_at (erase c) x \<Longrightarrow> it_step x c = None"
  by (erule shaped_cases; cases x) (auto simp: map_of_eq_None_iff image_comp comp_def split_def)

text \<open>
  What a successful write at \<open>p\<close> does to the nodes that were there: those strictly below \<open>p\<close>
  are gone, all the others keep their path, their slot and their generation.
\<close>

definition kept_except :: "path_segment list \<Rightarrow> arena \<Rightarrow> itree \<Rightarrow> arena \<Rightarrow> itree \<Rightarrow> bool" where
  "kept_except p ar T ar' T' \<longleftrightarrow> (\<forall>q u. it_resolve q T = Inr u \<longrightarrow>
     (if \<exists>r. r \<noteq> [] \<and> q = p @ r then live ar' (tid u) = None
      else live ar' (tid u) = live ar (tid u) \<and> (\<exists>u'. it_resolve q T' = Inr u' \<and> tid u' = tid u)))"

lemma holds_id_live: "holds m T fl \<Longrightarrow> it_resolve q T = Inr u \<Longrightarrow> live (cm_arena m) (tid u) \<noteq> None"
  using holds_live[of m T fl "tid u"] mset_subset_eqD[OF it_resolve_mids tid_in_mids, of q T u] by blast

lemma write_replace:
  assumes h: "holds m T fl" and p: "it_resolve p T = Inr s" and ty: "ity s = cv_type new"
    and wf: "wf_model_value (tree_put p new (erase T))" and room: "cv_nodes new \<le> room (cm_arena m) fl"
  shows "\<exists>ar' T' fl'. assignContents stack_fuel (cm_arena m) (tid s) new = Some ar' \<and>
    holds (m\<lparr>cm_arena := ar'\<rparr>) T' fl' \<and> erase T' = tree_put p new (erase T) \<and> kept_except p (cm_arena m) T ar' T'"
proof -
  let ?ar = "cm_arena m"
  from holds_sub[OF h p] obtain q where q: "sub_in kNodeIdNone T q s" "shaped s"
    "\<forall>c \<in> set (kids s). fits stack_fuel c" by blast
  from heap_assignContents[OF holds_focus[OF h q(1)] q(2) ty q(3) room] obtain s' ar' fl' where
    a: "assignContents stack_fuel ?ar (tid s) new = Some ar'" "heap ar' [(q, s')] fl' (mids T - mids s)"
    "agree (mids T - mids s) ?ar ar'" "tid s' = tid s" "erase s' = new" "shaped s'"
    "\<forall>i. i \<in># kmids (kids s) \<longrightarrow> live ar' i = None"
    "\<forall>i. i \<notin># kmids (kids s) \<longrightarrow> live ?ar i \<noteq> None \<longrightarrow> live ar' i = live ?ar i" by blast
  note u = holds_update[OF h p q(1) a(2,3,4,6)]
  have "kept_except p ?ar T ar' (graft (tid s) s' T)"
    unfolding kept_except_def
  proof (intro allI impI)
    fix r u assume r: "it_resolve r T = Inr u"
    show "if \<exists>b. b \<noteq> [] \<and> r = p @ b then live ar' (tid u) = None
      else live ar' (tid u) = live ?ar (tid u) \<and> (\<exists>u'. it_resolve r (graft (tid s) s' T) = Inr u' \<and> tid u' = tid u)"
    proof (cases "\<exists>b. b \<noteq> [] \<and> r = p @ b")
      case True
      then show ?thesis using below_iff[OF h p r] a(7) by simp
    next
      case False
      then have "it_resolve r (graft (tid s) s' T) = Inr (graft (tid s) s' u)"
        by (intro graft_other[OF holdsD(7)[OF h] p r]) blast
      moreover have "live ar' (tid u) = live ?ar (tid u)"
        using a(8) below_iff[OF h p r] False holds_id_live[OF h r] by blast
      ultimately show ?thesis using False tid_graft[OF a(4)] by auto
    qed
  qed
  then show ?thesis using a(1,5) u wf by auto
qed

lemma write_create:
  assumes h: "holds m T fl" and c: "it_resolve a T = Inr c" and miss: "missing_at (erase c) x"
    and wf: "wf_model_value (tree_put a (append_child (erase c) x (chain_value b new)) (erase T))"
    and room: "cv_nodes new + length b \<le> room (cm_arena m) fl"
  shows "\<exists>ar' T' fl'. append_new n (cm_arena m) (tid c) x b new = Some ar' \<and>
    holds (m\<lparr>cm_arena := ar'\<rparr>) T' fl' \<and>
    erase T' = tree_put a (append_child (erase c) x (chain_value b new)) (erase T) \<and>
    kept_except (a @ x # b) (cm_arena m) T ar' T'"
proof -
  let ?ar = "cm_arena m"
  from holds_sub[OF h c] obtain q where q: "sub_in kNodeIdNone T q c" "shaped c" by blast
  from heap_append_new[OF holds_focus[OF h q(1)] room, of n x] obtain t ar' fl' where
    a: "append_new n ?ar (tid c) x b new = Some ar'" "heap ar' [(q, add_child c x t)] fl' (mids T - mids c)"
    "agree (mids T - mids c) ?ar ar'" "live ?ar \<subseteq>\<^sub>m live ar'" "shaped t" "erase t = chain_value b new" by blast
  note e = add_child_erase[OF q(2) miss a(5)]
  note u = holds_update[OF h c q(1) a(2,3) add_child_simps(1) e(2)]
  let ?T = "graft (tid c) (add_child c x t) T"
  have "kept_except (a @ x # b) ?ar T ar' ?T"
    unfolding kept_except_def
  proof (intro allI impI)
    fix r u assume r: "it_resolve r T = Inr u"
    have no: "\<not> (\<exists>d. d \<noteq> [] \<and> r = (a @ x # b) @ d)"
      using r c missing_step[OF q(2) miss] by (auto simp: it_resolve_append it_resolve_Cons)
    have "live ar' (tid u) = live ?ar (tid u)"
      using a(4) holds_id_live[OF h r] unfolding map_le_def by (metis domIff)
    moreover have "\<exists>u'. it_resolve r ?T = Inr u' \<and> tid u' = tid u"
    proof (cases "\<exists>d. d \<noteq> [] \<and> r = a @ d")
      case True
      then obtain y d where d: "r = a @ y # d" by (metis neq_Nil_conv)
      with r c obtain k where k: "it_step y c = Some k" "it_resolve d k = Inr u"
        by (auto simp: it_resolve_append it_resolve_Cons)
      have "it_resolve a ?T = Inr (add_child c x t)" by (rule graft_at[OF holdsD(7)[OF h] c])
      then have "it_resolve r ?T = Inr u"
        using d k add_child_step[OF k(1)] by (auto simp: it_resolve_append it_resolve_Cons)
      then show ?thesis by blast
    next
      case False
      then have "it_resolve r ?T = Inr (graft (tid c) (add_child c x t) u)"
        by (intro graft_other[OF holdsD(7)[OF h] c r]) blast
      then show ?thesis using tid_graft[of "add_child c x t" "tid c" u] by simp
    qed
    ultimately show "if \<exists>d. d \<noteq> [] \<and> r = (a @ x # b) @ d then live ar' (tid u) = None
      else live ar' (tid u) = live ?ar (tid u) \<and> (\<exists>u'. it_resolve r ?T = Inr u' \<and> tid u' = tid u)"
      using no by (simp only: if_False simp_thms)
  qed
  then show ?thesis using a(1,6) u wf e(1) by auto
qed

lemma applyWrite_new: "k < length segs \<Longrightarrow> applyWrite n ar \<lparr>wp_node = i, wp_createFrom = k\<rparr> segs v =
    append_new n ar i (segs ! k) (drop (Suc k) segs) v"
  by (simp add: applyWrite_def append_new_def)

lemma set_holds:
  assumes h: "holds m T fl" and parse: "cp_parse path = Inr p" and val: "validateTree new (length p) = Inr ()"
    and dist: "cv_distinct new" and ok: "tree_set p new (erase T) = Inr v'"
    and cap: "cv_nodes (erase T) + cv_nodes new + kMaxTreeDepth \<le> kNodeIdNone"
  shows "\<exists>ar' T' fl'. cm_set m path new = Some (m\<lparr>cm_arena := ar'\<rparr>, Inr ()) \<and>
    holds (m\<lparr>cm_arena := ar'\<rparr>) T' fl' \<and> erase T' = v' \<and> kept_except p (cm_arena m) T ar' T'"
proof -
  let ?ar = "cm_arena m"
  have p: "p \<noteq> []" "wf_segments p" using parsed_segments[OF parse] by auto
  have wn: "wf_at (length p) new" using val dist by (simp add: wf_at_validate)
  have len: "length p \<le> kMaxTreeDepth" using wf_at_depth[OF wn] .
  have "wf_at 0 v'" using tree_set_wf[OF ok holdsD(5)[OF h] p(2)] wn by simp
  moreover have "cv_type v' = TObject" using tree_set_type[OF ok] holdsD(4)[OF h] by (simp add: wf_model_value_def)
  ultimately have wf: "wf_model_value v'" by (simp add: wf_model_value_def)
  have room: "cv_nodes new + kMaxTreeDepth \<le> room ?ar fl" using holds_room[OF h] cap by simp
  from ok show ?thesis
  proof (cases rule: tree_set_cases)
    case (replace old)
    then obtain s where s: "it_resolve p T = Inr s" "erase s = old"
      using it_resolve_erase[OF holdsD(3)[OF h], of p] by (cases "it_resolve p T") auto
    have "shaped s" by (rule holds_sub[OF h s(1)])
    then have ty: "ity s = cv_type new" using cv_type_erase[of s] s(2) replace(2) by simp
    have room': "cv_nodes new \<le> room ?ar fl" using room by simp
    from write_replace[OF h s(1) ty wf[unfolded replace(3)] room'] obtain ar' T' fl' where
      w: "assignContents stack_fuel ?ar (tid s) new = Some ar'" "holds (m\<lparr>cm_arena := ar'\<rparr>) T' fl'"
      "erase T' = v'" "kept_except p ?ar T ar' T'" unfolding replace(3) by blast
    have "planWrite ?ar (cm_rootId m) p (cv_type new) = Some (Inr \<lparr>wp_node = tid s, wp_createFrom = length p\<rparr>)"
      using plan_replace[OF s(1) ty holdsD(8,9,3)[OF h] p(1), of p 0] holdsD(2)[OF h] by (simp add: planWrite_def)
    then have "cm_set m path new = Some (m\<lparr>cm_arena := ar'\<rparr>, Inr ())"
      using w(1) by (simp add: cm_set_def parse val applyWrite_def)
    with w(2,3,4) show ?thesis by blast
  next
    case (create a x b c)
    then obtain s where s: "it_resolve a T = Inr s" "erase s = c"
      using it_resolve_erase[OF holdsD(3)[OF h], of a] by (cases "it_resolve a T") auto
    have room': "cv_nodes new + length b \<le> room ?ar fl" using room len create(1) by simp
    from write_create[OF h s(1) create(3)[folded s(2)] wf[unfolded create(5)[folded s(2)]] room'] obtain ar' T' fl' where
      w: "append_new stack_fuel ?ar (tid s) x b new = Some ar'" "holds (m\<lparr>cm_arena := ar'\<rparr>) T' fl'"
      "erase T' = v'" "kept_except p ?ar T ar' T'" unfolding create(1) create(5)[folded s(2)] by blast
    have d: "drop 0 p = a @ x # b" using create(1) by simp
    have "planWrite ?ar (cm_rootId m) p (cv_type new) = Some (Inr \<lparr>wp_node = tid s, wp_createFrom = length a\<rparr>)"
      using plan_create[OF s(1) create(3)[folded s(2)] create(4) holdsD(8,9,3)[OF h] d] holdsD(2)[OF h] create(1)
      by (simp add: planWrite_def)
    moreover have "applyWrite stack_fuel ?ar \<lparr>wp_node = tid s, wp_createFrom = length a\<rparr> p new = Some ar'"
      using w(1) by (simp add: applyWrite_new create(1))
    ultimately have "cm_set m path new = Some (m\<lparr>cm_arena := ar'\<rparr>, Inr ())"
      by (simp add: cm_set_def parse val)
    with w(2,3,4) show ?thesis by blast
  qed
qed

text \<open>A rejected write returns the documented error and leaves the model as it was.\<close>

lemma set_rejected:
  assumes "models m v"
  shows "cp_parse path = Inl e \<Longrightarrow> cm_set m path new = Some (m, Inl e)"
    "cp_parse path = Inr p \<Longrightarrow> validateTree new (length p) = Inl e \<Longrightarrow> cm_set m path new = Some (m, Inl e)"
    "cp_parse path = Inr p \<Longrightarrow> validateTree new (length p) = Inr () \<Longrightarrow> tree_set p new v = Inl e \<Longrightarrow>
       cm_set m path new = Some (m, Inl e)"
proof -
  show "cp_parse path = Inl e \<Longrightarrow> cm_set m path new = Some (m, Inl e)" by (simp add: cm_set_def)
  show "cp_parse path = Inr p \<Longrightarrow> validateTree new (length p) = Inl e \<Longrightarrow> cm_set m path new = Some (m, Inl e)"
    by (simp add: cm_set_def)
  assume parse: "cp_parse path = Inr p" and val: "validateTree new (length p) = Inr ()" and e: "tree_set p new v = Inl e"
  from assms obtain T fl where h: "holds m T fl" and v: "erase T = v" unfolding models_def by blast
  have "p \<noteq> []" using parsed_segments[OF parse] by simp
  from plan_error[OF e[folded v] holdsD(8,9,3)[OF h] _ this, of 0 p] holdsD(2)[OF h]
  show "cm_set m path new = Some (m, Inl e)" by (simp add: cm_set_def parse val planWrite_def)
qed

text \<open>The functional specification of \<open>set\<close> on values, errors included.\<close>

definition spec_set :: "config_value \<Rightarrow> string \<Rightarrow> config_value \<Rightarrow> error + config_value" where
  "spec_set v path new = (case cp_parse path of Inl e \<Rightarrow> Inl e
   | Inr p \<Rightarrow> (case spec_validate new (length p) of Inl e \<Rightarrow> Inl e | Inr _ \<Rightarrow> tree_set p new v))"

definition room_for :: "config_value \<Rightarrow> config_value \<Rightarrow> bool" where
  "room_for v new \<longleftrightarrow> cv_nodes v + cv_nodes new + kMaxTreeDepth \<le> kNodeIdNone"

lemma set_refines:
  assumes "models m v" and "cv_distinct new" and "room_for v new"
  shows "\<exists>m'. cm_set m path new = Some (m', map_sum id (\<lambda>_. ()) (spec_set v path new)) \<and>
    models m' (case spec_set v path new of Inl e \<Rightarrow> v | Inr v' \<Rightarrow> v') \<and> (isl (spec_set v path new) \<longrightarrow> m' = m)"
proof (cases "spec_set v path new")
  case (Inl e)
  then have "cm_set m path new = Some (m, Inl e)"
    using set_rejected[OF assms(1)] by (auto simp: spec_set_def split: sum.splits)
  then show ?thesis using Inl assms(1) by simp
next
  case (Inr v')
  then obtain p where p: "cp_parse path = Inr p" "validateTree new (length p) = Inr ()" "tree_set p new v = Inr v'"
    by (auto simp: spec_set_def split: sum.splits)
  from assms(1) obtain T fl where h: "holds m T fl" and v: "erase T = v" unfolding models_def by blast
  from set_holds[OF h p(1,2) assms(2) p(3)[folded v]] assms(3) v obtain ar' T' fl' where
    "cm_set m path new = Some (m\<lparr>cm_arena := ar'\<rparr>, Inr ())" "holds (m\<lparr>cm_arena := ar'\<rparr>) T' fl'" "erase T' = v'"
    by (auto simp: room_for_def)
  then show ?thesis using Inr modelsI by fastforce
qed

section \<open>Construction\<close>

lemma cm_new_holds: "\<exists>m T fl. cm_new = Some m \<and> holds m T fl \<and> erase T = Obj [] \<and> room (cm_arena m) fl = kNodeIdNone - 1"
proof -
  have h: "heap empty_arena [] [] {#}" by (simp add: heap_def empty_arena_def)
  have r: "room empty_arena [] = kNodeIdNone" by (simp add: room_def empty_arena_def)
  then have "0 < room empty_arena []" by (simp add: kNodeIdNone_def)
  from heap_allocate[OF h this, of TObject] obtain i ar' where
    a: "allocate empty_arena TObject = Some (i, ar')" "heap ar' [(kNodeIdNone, INode i TObject SNull [] [])] [] {#}"
    "room ar' [] = kNodeIdNone - 1" using r by auto
  then show ?thesis
    by (intro exI[of _ "\<lparr>cm_arena = ar', cm_rootId = i\<rparr>"] exI[of _ "INode i TObject SNull [] []"] exI[of _ "[]"])
      (simp add: cm_new_def holds_def wf_model_value_def)
qed

definition spec_fromValue :: "config_value \<Rightarrow> error + config_value" where
  "spec_fromValue v = (if cv_type v \<noteq> TObject then fail InvalidType ''model root must be an Object''
     else (case spec_validate v 0 of Inl e \<Rightarrow> Inl e | Inr _ \<Rightarrow> Inr v))"

lemma fromValue_refines:
  assumes "cv_distinct v" and "cv_nodes v < kNodeIdNone"
  shows "case spec_fromValue v of Inl e \<Rightarrow> cm_fromValue v = Some (Inl e)
    | Inr w \<Rightarrow> w = v \<and> (\<exists>m. cm_fromValue v = Some (Inr m) \<and> models m v)"
proof (cases "cv_type v = TObject \<and> validateTree v 0 = Inr ()")
  case True
  from cm_new_holds obtain m T fl where m: "cm_new = Some m" "holds m T fl" "erase T = Obj []"
    "room (cm_arena m) fl = kNodeIdNone - 1" by blast
  have T: "it_resolve [] T = Inr T" by simp
  have ty: "ity T = cv_type v" using cv_type_erase[OF holdsD(3)[OF m(2)]] m(3) True by simp
  have wf: "wf_model_value (tree_put [] v (erase T))" using True assms(1) by (simp add: wf_model_value_def wf_at_validate)
  have room: "cv_nodes v \<le> room (cm_arena m) fl" using m(4) assms(2) by simp
  from write_replace[OF m(2) T ty wf room] obtain ar' T' fl' where
    w: "assignContents stack_fuel (cm_arena m) (tid T) v = Some ar'" "holds (m\<lparr>cm_arena := ar'\<rparr>) T' fl'" "erase T' = v"
    by auto
  have "cm_fromValue v = Some (Inr (m\<lparr>cm_arena := ar'\<rparr>))"
    using w(1) True by (simp add: cm_fromValue_def m(1) holdsD(2)[OF m(2)])
  moreover have "models (m\<lparr>cm_arena := ar'\<rparr>) v" using modelsI[OF w(2)] w(3) by simp
  ultimately show ?thesis using True by (auto simp: spec_fromValue_def)
next
  case False
  then show ?thesis by (auto simp: spec_fromValue_def cm_fromValue_def split: sum.split)
qed

text \<open>Which values are accepted, by the paths into them alone.\<close>

lemma fromValue_accepts:
  assumes "cv_distinct v" and "cv_nodes v < kNodeIdNone"
  shows "(\<exists>m. cm_fromValue v = Some (Inr m)) \<longleftrightarrow> cv_type v = TObject \<and> (\<forall>p c. tree_resolve p v = Inr c \<longrightarrow>
    length p \<le> kMaxTreeDepth \<and> (\<forall>k. Key k \<in> set p \<longrightarrow> g_path k [Key k]))"
proof -
  have "(\<exists>m. cm_fromValue v = Some (Inr m)) \<longleftrightarrow> (\<exists>w. spec_fromValue v = Inr w)"
    using fromValue_refines[OF assms] by (cases "spec_fromValue v") auto
  also have "\<dots> \<longleftrightarrow> cv_type v = TObject \<and> defects v 0 = []"
    by (auto simp: spec_fromValue_def spec_validate_def simp del: spec_validate_code split: list.split)
  finally show ?thesis using no_defects_paths[OF assms(1), of 0] by simp
qed

section \<open>Removing\<close>

text \<open>Where a path leads after the node at \<open>p\<close> was removed: later array siblings move up by one.\<close>

fun shift_segment :: "path_segment \<Rightarrow> path_segment \<Rightarrow> path_segment" where
  "shift_segment (Index j) (Index i) = Index (if i > j then i - 1 else i)"
| "shift_segment x y = y"

fun shift_after :: "path_segment list \<Rightarrow> path_segment list \<Rightarrow> path_segment list" where
  "shift_after [x] (y # q) = shift_segment x y # q"
| "shift_after (x # p) (y # q) = (if x = y then y # shift_after p q else y # q)"
| "shift_after p q = q"

lemma shift_after_in: "shift_after (a @ [x]) (a @ y # r) = a @ shift_segment x y # r"
proof (induction a)
  case (Cons z a)
  then show ?case by (cases a) auto
qed simp

lemma shift_after_out: "\<not> (\<exists>y r. q = a @ y # r) \<Longrightarrow> shift_after (a @ [x]) q = q"
proof (induction a arbitrary: q)
  case Nil
  then show ?case by (cases q) auto
next
  case (Cons z a)
  then show ?case by (cases q; cases a) auto
qed

lemma remove_put: "tree_resolve a v = Inr c \<Longrightarrow> tree_remove (a @ [x]) v = (case tree_remove [x] c of
    Inl e \<Rightarrow> Inl e | Inr c' \<Rightarrow> Inr (tree_put a c' v))"
proof (induction a v rule: tree_resolve.induct)
  case (2 k ps ms)
  then show ?case by (cases "map_of ms k") (auto simp: no_member_def split: sum.splits)
next
  case (4 j ps es)
  then show ?case by (cases "j < length es") (auto simp: out_of_range_def split: sum.splits)
qed (auto simp: traverses_nonobject_def traverses_nonarray_def split: sum.splits)

fun drop_child :: "itree \<Rightarrow> path_segment \<Rightarrow> itree" where
  "drop_child (INode i ty sc ms es) (Key k) = INode i ty sc (delete_key k ms) es"
| "drop_child (INode i ty sc ms es) (Index j) = INode i ty sc ms (drop_nth j es)"

lemma drop_child_simps [simp]: "tid (drop_child t x) = tid t" "ity (drop_child t x) = ity t"
  by (cases t; cases x; simp)+

lemma mset_delete_key:
  "map_of ms k = Some c \<Longrightarrow> mset (map snd ms) = add_mset c (mset (map snd (delete_key k ms)))"
  by (induction k ms rule: delete_key.induct) (auto split: if_splits)

lemma mset_drop_nth: "j < length xs \<Longrightarrow> mset xs = add_mset (xs ! j) (mset (drop_nth j xs))"
  unfolding drop_nth_def by (subst id_take_nth_drop[of j xs]) simp_all

lemma drop_child_kids: "it_step x t = Some c \<Longrightarrow> mset (kids t) = add_mset c (mset (kids (drop_child t x)))"
  using mset_delete_key[of "imem t"] mset_drop_nth[of _ "iel t"]
  by (cases t; cases x) (auto split: if_splits)

lemma drop_child_erase:
  assumes "shaped t" "it_step x t = Some c"
  shows "shaped (drop_child t x)" "tree_remove [x] (erase t) = Inr (erase (drop_child t x))"
proof -
  obtain i ty sc ms es where t: "t = INode i ty sc ms es" by (cases t)
  have "set (kids (drop_child t x)) \<subseteq> set (kids t)"
    using drop_child_kids[OF assms(2)] by (metis set_mset_add_mset_insert set_mset_mset subset_insertI)
  then have k: "\<And>c. c \<in> set (kids (drop_child t x)) \<Longrightarrow> shaped c" using shaped_kid[OF assms(1)] by blast
  have "shape_ok (drop_child t x)"
    using shaped_ok[OF assms(1)] assms(2) t by (cases x) (auto simp: shape_ok_def split: if_splits)
  with k show "shaped (drop_child t x)" by (blast intro: shaped_intro)
  show "tree_remove [x] (erase t) = Inr (erase (drop_child t x))"
  proof (cases x)
    case (Key k)
    with assms(2) t have "ty = TObject" "map_of ms k = Some c" by (auto split: if_splits)
    moreover have "delete_key k (map (\<lambda>(k, c). (k, erase c)) ms) = map (\<lambda>(k, c). (k, erase c)) (delete_key k ms)"
      by (rule delete_key_map_snd)
    ultimately show ?thesis using t Key by (simp add: map_prod_def map_of_map_snd)
  next
    case (Index j)
    with assms(2) t show ?thesis by (auto simp: drop_nth_def take_map drop_map split: if_splits)
  qed
qed

text \<open>Searching the parent's members for the child's id deletes its key.\<close>

lemma erase_member_Cons: "erase_member i (m # ms) = (if snd m = i then ms else m # erase_member i ms)"
  by (simp add: erase_member_def del: dropWhile_eq_Nil_conv split: list.split)

lemma erase_member_spec:
  "map_of ms k = Some c \<Longrightarrow> (\<And>k' x. (k', x) \<in> set ms \<Longrightarrow> k' \<noteq> k \<Longrightarrow> tid x \<noteq> tid c) \<Longrightarrow>
     erase_member (tid c) (map (\<lambda>(k, x). (k, tid x)) ms) = map (\<lambda>(k, x). (k, tid x)) (delete_key k ms)"
proof (induction ms)
  case (Cons m ms)
  obtain k' x where m: "m = (k', x)" by (cases m)
  show ?case
  proof (cases "k' = k")
    case True
    with Cons.prems(1) m show ?thesis by (simp add: erase_member_Cons)
  next
    case False
    with Cons.prems m have ne: "tid x \<noteq> tid c" and "map_of ms k = Some c" by auto
    with Cons.IH Cons.prems(2) have IH: "erase_member (tid c) (map (\<lambda>(k, x). (k, tid x)) ms)
        = map (\<lambda>(k, x). (k, tid x)) (delete_key k ms)" by auto
    then show ?thesis using ne m False by (simp add: erase_member_Cons)
  qed
qed simp

definition unlink :: "arena \<Rightarrow> nat \<Rightarrow> path_segment \<Rightarrow> nat \<Rightarrow> arena option" where
  "unlink ar parent x target = (case x of
     Key k \<Rightarrow> arena_modify ar parent (\<lambda>n. n\<lparr>nmembers := erase_member target (nmembers n)\<rparr>)
   | Index j \<Rightarrow> arena_modify ar parent (\<lambda>n. n\<lparr>nelements := take j (nelements n) @ drop (Suc j) (nelements n)\<rparr>))"

lemma heap_unlink:
  assumes h: "heap ar [(q, c)] fl R" and x: "it_step x c = Some s" and sh: "shaped c" and d: "cv_distinct (erase c)"
    and lin: "lin c"
  shows "\<exists>ar'. unlink ar (tid c) x (tid s) = Some ar' \<and> heap ar' [(q, drop_child c x), (tid c, s)] fl R \<and>
    agree R ar ar' \<and> live ar' = live ar"
proof -
  have h0: "heap ar ((q, c) # map (Pair (tid c)) [] @ []) fl R" using h by simp
  have kids: "mset (kids (drop_child c x)) + mset [s] = mset (kids c) + mset []"
    using drop_child_kids[OF x] by simp
  show ?thesis
  proof (cases x)
    case (Key k)
    with x have ty: "ity c = TObject" "map_of (imem c) k = Some s" by (auto split: if_splits)
    have dist: "distinct (map fst (imem c))"
      using sh d ty(1) by (cases rule: shaped_cases) (simp_all add: comp_def split_def)
    have "tid y \<noteq> tid s" if "(k', y) \<in> set (imem c)" "k' \<noteq> k" for k' y
    proof
      assume "tid y = tid s"
      moreover have "it_step (Key k') c = Some y" using that(1) dist ty(1) by simp
      moreover have "tid s \<in># mids y" by (metis \<open>tid y = tid s\<close> tid_in_mids)
      ultimately show False using lin_steps[OF lin x[unfolded Key], of "Key k'" y "tid s"] that(2) by simp
    qed
    from erase_member_spec[OF ty(2) this]
    have "slotn n q c \<Longrightarrow> slotn (n\<lparr>nmembers := erase_member (tid s) (nmembers n)\<rparr>) q (drop_child c x)" for n
      by (cases c) (simp add: Key slotn_def)
    from heap_rewrite[OF h0 drop_child_simps(1) kids this] show ?thesis
      by (simp add: Key unlink_def)
  next
    case (Index j)
    have "slotn n q c \<Longrightarrow>
        slotn (n\<lparr>nelements := take j (nelements n) @ drop (Suc j) (nelements n)\<rparr>) q (drop_child c x)" for n
      by (cases c) (simp add: Index slotn_def drop_nth_def take_map drop_map)
    from heap_rewrite[OF h0 drop_child_simps(1) kids this] show ?thesis
      by (simp add: Index unlink_def)
  qed
qed

lemma drop_child_step:
  assumes "it_step x c = Some s" "it_step y c = Some d" "x \<noteq> y" and "shaped c" "cv_distinct (erase c)"
  shows "it_step (shift_segment x y) (drop_child c x) = Some d"
proof (cases x)
  case (Key k)
  with assms(1) have ty: "ity c = TObject" by (auto split: if_splits)
  have "distinct (map fst (imem c))"
    using assms(4,5) ty by (cases rule: shaped_cases) (simp_all add: comp_def split_def)
  then show ?thesis using assms Key ty by (cases c; cases y) (auto simp: map_of_delete_key)
next
  case (Index j)
  then show ?thesis using assms
    by (cases c; cases y) (auto simp: nth_drop_nth length_drop_nth split: if_splits)
qed

definition kept_after_remove :: "path_segment list \<Rightarrow> arena \<Rightarrow> itree \<Rightarrow> arena \<Rightarrow> itree \<Rightarrow> bool" where
  "kept_after_remove p ar T ar' T' \<longleftrightarrow> (\<forall>q u. it_resolve q T = Inr u \<longrightarrow>
     (if \<exists>r. q = p @ r then live ar' (tid u) = None
      else live ar' (tid u) = live ar (tid u) \<and> (\<exists>u'. it_resolve (shift_after p q) T' = Inr u' \<and> tid u' = tid u)))"

lemma at_or_below:
  assumes h: "holds m T fl" and p: "it_resolve p T = Inr s" and q: "it_resolve q T = Inr u"
  shows "tid u \<in># mids s \<longleftrightarrow> (\<exists>r. q = p @ r)"
proof -
  have "tid u = tid s \<longleftrightarrow> q = p" using it_resolve_unique[OF holdsD(7)[OF h] q p] p q by auto
  then show ?thesis using below_iff[OF h p q] by (auto simp: mids_kids[of s])
qed

lemma remove_at:
  assumes h: "holds m T fl" and c: "it_resolve a T = Inr c" and x: "it_step x c = Some s"
    and wf: "wf_model_value (tree_put a (erase (drop_child c x)) (erase T))"
  shows "\<exists>ar1 ar' T' fl'. unlink (cm_arena m) (tid c) x (tid s) = Some ar1 \<and>
    freeSubtree stack_fuel ar1 (tid s) = Some ar' \<and> holds (m\<lparr>cm_arena := ar'\<rparr>) T' fl' \<and>
    erase T' = tree_put a (erase (drop_child c x)) (erase T) \<and> kept_after_remove (a @ [x]) (cm_arena m) T ar' T'"
proof -
  let ?ar = "cm_arena m"
  let ?c = "drop_child c x"
  let ?T = "graft (tid c) ?c T"
  from holds_sub[OF h c] obtain q where q: "sub_in kNodeIdNone T q c" "shaped c" "cv_distinct (erase c)" "lin c"
    "\<forall>k \<in> set (kids c). fits stack_fuel k" by blast
  note kid = it_step_kid[OF x]
  from heap_unlink[OF holds_focus[OF h q(1)] x q(2,3,4)] obtain ar1 where
    1: "unlink ?ar (tid c) x (tid s) = Some ar1" "heap ar1 [(q, ?c), (tid c, s)] fl (mids T - mids c)"
    "agree (mids T - mids c) ?ar ar1" "live ar1 = live ?ar" by blast
  have "heap ar1 [(tid c, s), (q, ?c)] fl (mids T - mids c)" by (rule heap_perm[OF 1(2)]) simp
  from heap_free[OF q(5)[rule_format, OF kid] this] obtain ar' fl' where
    2: "freeSubtree stack_fuel ar1 (tid s) = Some ar'" "heap ar' [(q, ?c)] fl' (mids T - mids c)"
    "agree (mids T - mids c) ar1 ar'" "live ar' = live_without ar1 (mids s)" by blast
  note u = holds_update[OF h c q(1) 2(2) agree_trans[OF 1(3) 2(3)] drop_child_simps(1) drop_child_erase(1)[OF q(2) x]]
  have p: "it_resolve (a @ [x]) T = Inr s" using c x by (simp add: it_resolve_append it_resolve_Cons)
  have l: "live ar' i = (if i \<in># mids s then None else live ?ar i)" for i
    by (simp add: 2(4) live_without_def 1(4) restrict_map_def)
  have "kept_after_remove (a @ [x]) ?ar T ar' ?T"
    unfolding kept_after_remove_def
  proof (intro allI impI)
    fix r u assume r: "it_resolve r T = Inr u"
    show "if \<exists>d. r = (a @ [x]) @ d then live ar' (tid u) = None
      else live ar' (tid u) = live ?ar (tid u) \<and> (\<exists>u'. it_resolve (shift_after (a @ [x]) r) ?T = Inr u' \<and> tid u' = tid u)"
    proof (cases "\<exists>d. r = (a @ [x]) @ d")
      case True
      then show ?thesis using at_or_below[OF h p r] l by simp
    next
      case False
      have "\<exists>u'. it_resolve (shift_after (a @ [x]) r) ?T = Inr u' \<and> tid u' = tid u"
      proof (cases "\<exists>y d. r = a @ y # d")
        case True
        then obtain y d where d: "r = a @ y # d" by blast
        with r c obtain k where k: "it_step y c = Some k" "it_resolve d k = Inr u"
          by (auto simp: it_resolve_append it_resolve_Cons)
        have "x \<noteq> y" using False d by auto
        from drop_child_step[OF x k(1) this q(2,3)] graft_at[OF holdsD(7)[OF h] c, of ?c]
        have "it_resolve (shift_after (a @ [x]) r) ?T = Inr u"
          using d k(2) by (simp add: shift_after_in it_resolve_append it_resolve_Cons)
        then show ?thesis by blast
      next
        case out: False
        then have "it_resolve r ?T = Inr (graft (tid c) ?c u)"
          by (intro graft_other[OF holdsD(7)[OF h] c r]) (metis neq_Nil_conv)
        then show ?thesis using tid_graft[of ?c "tid c" u] shift_after_out[OF out] by simp
      qed
      then show ?thesis using False at_or_below[OF h p r] l by simp
    qed
  qed
  then show ?thesis using 1(1) 2(1) u wf by blast
qed

lemma remove_holds:
  assumes h: "holds m T fl" and parse: "cp_parse path = Inr p" and ok: "tree_remove p (erase T) = Inr v'"
  shows "\<exists>ar' T' fl'. cm_remove m path = Some (m\<lparr>cm_arena := ar'\<rparr>, Inr ()) \<and>
    holds (m\<lparr>cm_arena := ar'\<rparr>) T' fl' \<and> erase T' = v' \<and> kept_after_remove p (cm_arena m) T ar' T'"
proof -
  let ?ar = "cm_arena m"
  have "p \<noteq> []" using parsed_segments[OF parse] by simp
  then obtain a x where p: "p = a @ [x]" by (metis rev_exhaust)
  have "\<not> isl (tree_resolve p (erase T))" using tree_remove_isl[of p "erase T"] ok by simp
  then obtain s where s: "it_resolve p T = Inr s"
    using it_resolve_erase[OF holdsD(3)[OF h], of p] by (cases "it_resolve p T") auto
  then obtain c where c: "it_resolve a T = Inr c" "it_step x c = Some s"
    unfolding p by (auto simp: it_resolve_append it_resolve_Cons split: sum.splits)
  from holds_sub[OF h c(1)] obtain q where q: "rep (nodes ?ar) q c" "shaped c" "tree_resolve a (erase T) = Inr (erase c)"
    by blast
  have v': "v' = tree_put a (erase (drop_child c x)) (erase T)"
    using ok remove_put[OF q(3), of x] drop_child_erase(2)[OF q(2) c(2)] by (simp add: p)
  have "wf_model_value v'"
    using tree_remove_wf[OF ok holdsD(5)[OF h]] tree_remove_type[OF ok] holdsD(4)[OF h] by (simp add: wf_model_value_def)
  from remove_at[OF h c this[unfolded v']] obtain ar1 ar' T' fl' where
    r: "unlink ?ar (tid c) x (tid s) = Some ar1" "freeSubtree stack_fuel ar1 (tid s) = Some ar'"
    "holds (m\<lparr>cm_arena := ar'\<rparr>) T' fl'" "erase T' = v'" "kept_after_remove p ?ar T ar' T'"
    unfolding v' p by blast
  from slotn_get[OF rep_kid[OF q(1) it_step_kid[OF c(2)]]] obtain n where
    n: "arena_get ?ar (tid s) = Some n" "slotn n (tid c) s" by blast
  from slotn_get[OF q(1)] obtain nc where nc: "arena_get ?ar (tid c) = Some nc" "slotn nc q c" by blast
  have "Index j = x \<Longrightarrow> j < length (nelements nc)" for j
    using c(2) nc(2) by (auto simp: slotn_def split: if_splits)
  then have "cm_remove m path = Some (m\<lparr>cm_arena := ar'\<rparr>, Inr ())"
    using n nc r(1,2) s by (cases x) (simp_all add: cm_remove_def parse cm_resolve_it[OF h] slotn_def p unlink_def)
  then show ?thesis using r(3,4,5) by blast
qed

lemma remove_rejected:
  assumes "models m v" and "cp_parse path = Inr p" and "tree_remove p v = Inl e"
  shows "cm_remove m path = Some (m, Inl e)"
proof -
  from assms(1) obtain T fl where h: "holds m T fl" and v: "erase T = v" unfolding models_def by blast
  have "isl (tree_resolve p v)" using tree_remove_isl[of p v] assms(3) by simp
  then obtain e' where e': "tree_resolve p v = Inl e'" by (auto simp: isl_def)
  with tree_remove_error[OF e'] assms(3) have "tree_resolve p v = Inl e" by simp
  then have "it_resolve p T = Inl e"
    using it_resolve_erase[OF holdsD(3)[OF h], of p] v by (cases "it_resolve p T") auto
  then show ?thesis by (simp add: cm_remove_def assms(2) cm_resolve_it[OF h])
qed

definition spec_remove :: "config_value \<Rightarrow> string \<Rightarrow> error + config_value" where
  "spec_remove v path = (case cp_parse path of Inl e \<Rightarrow> Inl e | Inr p \<Rightarrow> tree_remove p v)"

lemma remove_refines:
  assumes "models m v"
  shows "\<exists>m'. cm_remove m path = Some (m', map_sum id (\<lambda>_. ()) (spec_remove v path)) \<and>
    models m' (case spec_remove v path of Inl e \<Rightarrow> v | Inr v' \<Rightarrow> v') \<and> (isl (spec_remove v path) \<longrightarrow> m' = m)"
proof (cases "spec_remove v path")
  case (Inl e)
  then have "cm_remove m path = Some (m, Inl e)"
    using remove_rejected[OF assms] by (auto simp: spec_remove_def cm_remove_def split: sum.splits)
  then show ?thesis using Inl assms(1) by simp
next
  case (Inr v')
  then obtain p where p: "cp_parse path = Inr p" "tree_remove p v = Inr v'"
    by (auto simp: spec_remove_def split: sum.splits)
  from assms(1) obtain T fl where h: "holds m T fl" and v: "erase T = v" unfolding models_def by blast
  from remove_holds[OF h p(1) p(2)[folded v]] obtain ar' T' fl' where
    "cm_remove m path = Some (m\<lparr>cm_arena := ar'\<rparr>, Inr ())" "holds (m\<lparr>cm_arena := ar'\<rparr>) T' fl'" "erase T' = v'"
    by blast
  then show ?thesis using Inr modelsI by fastforce
qed

end
