(* ===== verification/Config_Store.thy ===== *)
theory Config_Store
  imports Model_Refinement
begin

text \<open>
  The contract of \<open>ConfigModel\<close> towards its clients (the runtime, the backends, applications),
  as two locales over the value a model represents: \<open>config_reader\<close> (reading) and
  \<open>config_store\<close> (reading and writing). The client lemmas are proved once inside them; the
  interpretation at the end discharges the laws for the arena implementation.
\<close>

section \<open>Reading\<close>

definition spec_get :: "config_value \<Rightarrow> string \<Rightarrow> error + config_value" where
  "spec_get v path = (case cp_parse path of Inl e \<Rightarrow> Inl e | Inr p \<Rightarrow> tree_resolve p v)"

locale config_reader =
  fixes repr :: "'m \<Rightarrow> config_value \<Rightarrow> bool"
    and get :: "'m \<Rightarrow> string \<Rightarrow> (error + config_value) option"
    and has :: "'m \<Rightarrow> string \<Rightarrow> bool option"
  assumes repr_wf: "repr m v \<Longrightarrow> wf_model_value v"
    and get_law: "repr m v \<Longrightarrow> get m path = Some (spec_get v path)"
    and has_law: "repr m v \<Longrightarrow> has m path = Some (\<not> isl (spec_get v path))"
begin

lemma has_iff_get: "repr m v \<Longrightarrow> has m path = Some True \<longleftrightarrow> (\<exists>c. get m path = Some (Inr c))"
  by (cases "spec_get v path") (simp_all add: get_law has_law)

lemma get_distinct: "repr m v \<Longrightarrow> get m path = Some (Inr c) \<Longrightarrow> cv_distinct c"
proof -
  assume r: "repr m v" and g: "get m path = Some (Inr c)"
  then obtain p where "tree_resolve p v = Inr c"
    by (auto simp: get_law spec_get_def split: sum.splits)
  with tree_resolve_wf[of p v c 0] repr_wf[OF r] show ?thesis by (auto simp: wf_model_value_def wf_at_validate)
qed

lemma get_depth: "repr m v \<Longrightarrow> cp_parse path = Inr p \<Longrightarrow> get m path = Some (Inr c) \<Longrightarrow> wf_at (length p) c"
  using tree_resolve_wf[of p v c 0] repr_wf[of m v] by (auto simp: get_law spec_get_def wf_model_value_def)

end

section \<open>Writing\<close>

locale config_store = config_reader repr get has
  for repr :: "'m \<Rightarrow> config_value \<Rightarrow> bool"
    and get :: "'m \<Rightarrow> string \<Rightarrow> (error + config_value) option"
    and has :: "'m \<Rightarrow> string \<Rightarrow> bool option" +
  fixes put :: "'m \<Rightarrow> string \<Rightarrow> config_value \<Rightarrow> ('m \<times> (error + unit)) option"
    and del :: "'m \<Rightarrow> string \<Rightarrow> ('m \<times> (error + unit)) option"
  assumes put_law: "repr m v \<Longrightarrow> cv_distinct new \<Longrightarrow> room_for v new \<Longrightarrow>
      \<exists>m'. put m path new = Some (m', map_sum id (\<lambda>_. ()) (spec_set v path new)) \<and>
        repr m' (case spec_set v path new of Inl e \<Rightarrow> v | Inr v' \<Rightarrow> v') \<and> (isl (spec_set v path new) \<longrightarrow> m' = m)"
    and del_law: "repr m v \<Longrightarrow>
      \<exists>m'. del m path = Some (m', map_sum id (\<lambda>_. ()) (spec_remove v path)) \<and>
        repr m' (case spec_remove v path of Inl e \<Rightarrow> v | Inr v' \<Rightarrow> v') \<and> (isl (spec_remove v path) \<longrightarrow> m' = m)"
begin

lemma put_atomic:
  "repr m v \<Longrightarrow> cv_distinct new \<Longrightarrow> room_for v new \<Longrightarrow> put m path new = Some (m', Inl e) \<Longrightarrow> m' = m"
  using put_law[of m v new path] by (cases "spec_set v path new") auto

lemma del_atomic: "repr m v \<Longrightarrow> del m path = Some (m', Inl e) \<Longrightarrow> m' = m"
  using del_law[of m v path] by (cases "spec_remove v path") auto

lemma put_ok:
  assumes "repr m v" "cv_distinct new" "room_for v new" "put m path new = Some (m', Inr ())"
  obtains p v' where "cp_parse path = Inr p" "tree_set p new v = Inr v'" "repr m' v'" "wf_at (length p) new"
proof -
  from put_law[OF assms(1-3), of path] assms(4) obtain v' where "spec_set v path new = Inr v'" "repr m' v'"
    by (cases "spec_set v path new") auto
  then show thesis using that assms(2) by (auto simp: spec_set_def wf_at_validate split: sum.splits)
qed

lemma get_put: "repr m v \<Longrightarrow> cv_distinct new \<Longrightarrow> room_for v new \<Longrightarrow> put m path new = Some (m', Inr ()) \<Longrightarrow>
    get m' path = Some (Inr new)"
  by (erule (3) put_ok) (simp add: get_law spec_get_def tree_get_set)

lemma get_put_other:
  assumes "repr m v" "cv_distinct new" "room_for v new" "put m path new = Some (m', Inr ())"
    and "cp_parse path = Inr p" "cp_parse other = Inr q" "diverge p q"
  shows "get m' other = Some (Inr c) \<longleftrightarrow> get m other = Some (Inr c)"
proof -
  from put_ok[OF assms(1-4)] assms(5) obtain v' where "tree_set p new v = Inr v'" "repr m' v'" by auto
  then show ?thesis using assms(1,6,7) tree_set_frame[of p new v v' q c] by (simp add: get_law spec_get_def)
qed

lemma put_keeps_types:
  assumes "repr m v" "cv_distinct new" "room_for v new" "put m path new = Some (m', r)"
    and "get m other = Some (Inr c)" "\<And>p q. cp_parse path = Inr p \<Longrightarrow> cp_parse other = Inr q \<Longrightarrow> \<not> below_path p q"
  shows "\<exists>c'. get m' other = Some (Inr c') \<and> cv_type c' = cv_type c"
proof (cases r)
  case (Inl e)
  with put_atomic[OF assms(1-3)] assms(4,5) show ?thesis by blast
next
  case (Inr u)
  with assms(4) have ok: "put m path new = Some (m', Inr ())" by simp
  obtain p v' where p: "cp_parse path = Inr p" "tree_set p new v = Inr v'" "repr m' v'" by (rule put_ok[OF assms(1-3) ok])
  from assms(5) obtain q where q: "cp_parse other = Inr q" "tree_resolve q v = Inr c"
    by (auto simp: get_law[OF assms(1)] spec_get_def split: sum.splits)
  from tree_set_keeps_type[OF p(2) assms(6)[OF p(1) q(1)] q(2)] show ?thesis
    by (simp add: get_law[OF p(3)] spec_get_def q(1))
qed

lemma put_keeps_root_type: "repr m v \<Longrightarrow> cv_distinct new \<Longrightarrow> room_for v new \<Longrightarrow> put m path new = Some (m', r) \<Longrightarrow>
    \<exists>v'. repr m' v'"
  using put_law[of m v new path] by auto

lemma get_del:
  assumes "repr m v" "del m path = Some (m', Inr ())" "cp_parse path = Inr (p @ [Key k])"
  shows "get m' path = Some (no_member k)"
proof -
  from del_law[OF assms(1), of path] assms(2) obtain v' where "spec_remove v path = Inr v'" "repr m' v'"
    by (cases "spec_remove v path") auto
  then show ?thesis using assms(3) repr_wf[OF assms(1)] tree_remove_gone[of "p @ [Key k]" v v' k 0]
    by (simp add: get_law spec_get_def spec_remove_def wf_model_value_def)
qed

lemma get_del_other:
  assumes "repr m v" "del m path = Some (m', Inr ())" "cp_parse path = Inr p" "\<not> is_index (last p)"
    and "cp_parse other = Inr q" "diverge p q"
  shows "get m' other = Some (Inr c) \<longleftrightarrow> get m other = Some (Inr c)"
proof -
  from del_law[OF assms(1), of path] assms(2) obtain v' where "spec_remove v path = Inr v'" "repr m' v'"
    by (cases "spec_remove v path") auto
  then show ?thesis using assms(1,3-6) repr_wf[OF assms(1)] tree_remove_frame[of p v v' 0 q c]
    by (simp add: get_law spec_get_def spec_remove_def wf_model_value_def)
qed

lemma del_iff_has: "repr m v \<Longrightarrow> (\<exists>m'. del m path = Some (m', Inr ())) \<longleftrightarrow> has m path = Some True"
proof -
  assume r: "repr m v"
  have "isl (spec_remove v path) \<longleftrightarrow> isl (spec_get v path)"
    by (simp add: spec_remove_def spec_get_def tree_remove_isl split: sum.split)
  with del_law[OF r, of path] has_law[OF r, of path] show ?thesis
    by (cases "spec_remove v path"; cases "spec_get v path") auto
qed

text \<open>The write repair makes: a new member under an object that lacks it.\<close>

lemma put_new_member:
  assumes r: "repr m v" and d: "cv_distinct new" and room: "room_for v new" and path: "cp_parse path = Inr (p @ [Key k])"
    and at: "tree_resolve p v = Inr (Obj ms)" "k \<notin> fst ` set ms" and depth: "wf_at (Suc (length p)) new"
  shows "\<exists>m'. put m path new = Some (m', Inr ()) \<and> repr m' (tree_put p (Obj (ms @ [(k, new)])) v)"
proof -
  have "tree_set (p @ [Key k]) new v = Inr (tree_put p (Obj (ms @ [(k, new)])) v)"
    using tree_set_creating[OF at(1), of "Key k" "[]" new] at(2) by simp
  then have "spec_set v path new = Inr (tree_put p (Obj (ms @ [(k, new)])) v)"
    using depth by (simp add: spec_set_def path wf_at_validate)
  with put_law[OF r d room, of path] show ?thesis by auto
qed

end

section \<open>The arena model provides the contract\<close>

interpretation cm: config_reader models cm_getValue cm_contains
  by unfold_locales
    (auto simp: models_wf getValue_models contains_models spec_get_def split: sum.split)

interpretation cs: config_store models cm_getValue cm_contains cm_set cm_remove
  by unfold_locales (rule set_refines, assumption+, rule remove_refines)

section \<open>Handles across writes\<close>

text \<open>
  A handle that \<open>nodeAt\<close> returned stays valid, and is what \<open>nodeAt\<close> returns again, unless its
  node was strictly below a replaced node, or at or below a removed one.
\<close>

lemma kept_exceptD:
  assumes "kept_except p ar T ar' T'" "it_resolve q T = Inr u"
  shows "\<exists>r. r \<noteq> [] \<and> q = p @ r \<Longrightarrow> live ar' (tid u) = None"
    "\<not> (\<exists>r. r \<noteq> [] \<and> q = p @ r) \<Longrightarrow>
       live ar' (tid u) = live ar (tid u) \<and> (\<exists>u'. it_resolve q T' = Inr u' \<and> tid u' = tid u)"
  using assms(1)[unfolded kept_except_def, rule_format, OF assms(2)] by (simp_all only: if_True if_False)

lemma kept_after_removeD:
  assumes "kept_after_remove p ar T ar' T'" "it_resolve q T = Inr u"
  shows "\<exists>r. q = p @ r \<Longrightarrow> live ar' (tid u) = None"
    "\<not> (\<exists>r. q = p @ r) \<Longrightarrow>
       live ar' (tid u) = live ar (tid u) \<and> (\<exists>u'. it_resolve (shift_after p q) T' = Inr u' \<and> tid u' = tid u)"
  using assms(1)[unfolded kept_after_remove_def, rule_format, OF assms(2)] by (simp_all only: if_True if_False)

lemma set_success:
  assumes h: "holds m T fl" and set: "cm_set m path new = Some (m', Inr ())"
    and "cv_distinct new" "room_for (erase T) new" "cp_parse path = Inr p"
  obtains T' fl' where "holds m' T' fl'" "kept_except p (cm_arena m) T (cm_arena m') T'"
proof -
  have m: "models m (erase T)" by (rule modelsI[OF h])
  obtain v' where v': "tree_set p new (erase T) = Inr v'" "wf_at (length p) new"
    using cs.put_ok[OF m assms(3,4) set] assms(5) by auto
  from set_holds[OF h assms(5) _ assms(3) v'(1)] v'(2) assms(4) obtain ar' T' fl' where
    "cm_set m path new = Some (m\<lparr>cm_arena := ar'\<rparr>, Inr ())" "holds (m\<lparr>cm_arena := ar'\<rparr>) T' fl'"
    "kept_except p (cm_arena m) T ar' T'" by (auto simp: room_for_def wf_at_validate)
  then show thesis using that set by auto
qed

lemma nodeAt_cases:
  assumes "holds m T fl" "cm_nodeAt m path = Some (Inr h)" "cp_parse path = Inr q"
  obtains u where "it_resolve q T = Inr u" "cn_bound h" "cn_id h = tid u"
    "live (cm_arena m) (tid u) = Some (cn_generation h)"
proof -
  from assms(2,3) obtain u where u: "it_resolve q T = Inr u"
    "h = \<lparr>cn_bound = True, cn_id = tid u, cn_generation = the (live (cm_arena m) (tid u))\<rparr>"
    unfolding nodeAt_holds[OF assms(1)] by (cases "it_resolve q T") simp_all
  show thesis
    by (rule that[OF u(1)]) (use holds_id_live[OF assms(1) u(1)] u(2) in simp_all)
qed

lemma set_handles:
  assumes "models m v" "cv_distinct new" "room_for v new" "cm_set m path new = Some (m', Inr ())"
    and "cp_parse path = Inr p" "cp_parse qpath = Inr q" "cm_nodeAt m qpath = Some (Inr h)"
  shows "\<exists>r. r \<noteq> [] \<and> q = p @ r \<Longrightarrow> \<not> cn_valid (cm_arena m') h"
    "\<not> (\<exists>r. r \<noteq> [] \<and> q = p @ r) \<Longrightarrow> cm_nodeAt m' qpath = Some (Inr h) \<and> cn_valid (cm_arena m') h"
proof -
  from assms(1) obtain T fl where h: "holds m T fl" and v: "erase T = v" unfolding models_def by blast
  from set_success[OF h assms(4,2) _ assms(5)] assms(3) v obtain T' fl' where
    s: "holds m' T' fl'" "kept_except p (cm_arena m) T (cm_arena m') T'" by auto
  from nodeAt_cases[OF h assms(7,6)] obtain u where u: "it_resolve q T = Inr u" "cn_bound h" "cn_id h = tid u"
    "live (cm_arena m) (tid u) = Some (cn_generation h)" .
  show "\<not> cn_valid (cm_arena m') h" if "\<exists>r. r \<noteq> [] \<and> q = p @ r"
    using kept_exceptD(1)[OF s(2) u(1) that] u by (simp add: cn_valid_def arena_matches_live)
  assume "\<not> (\<exists>r. r \<noteq> [] \<and> q = p @ r)"
  from kept_exceptD(2)[OF s(2) u(1) this] obtain u' where
    u': "live (cm_arena m') (tid u) = live (cm_arena m) (tid u)" "it_resolve q T' = Inr u'" "tid u' = tid u" by blast
  have "cm_nodeAt m' qpath = Some (Inr h)"
    using u u' by (simp add: nodeAt_holds[OF s(1)] assms(6))
  then show "cm_nodeAt m' qpath = Some (Inr h) \<and> cn_valid (cm_arena m') h"
    using u u' by (simp add: cn_valid_def arena_matches_live)
qed

lemma remove_handles:
  assumes "models m v" "cm_remove m path = Some (m', Inr ())"
    and "cp_parse path = Inr p" "cp_parse qpath = Inr q" "cm_nodeAt m qpath = Some (Inr h)"
  shows "cn_valid (cm_arena m') h \<longleftrightarrow> \<not> (\<exists>r. q = p @ r)"
    "\<not> (\<exists>r. q = p @ r) \<Longrightarrow> cp_parse rpath = Inr (shift_after p q) \<Longrightarrow> cm_nodeAt m' rpath = Some (Inr h)"
proof -
  from assms(1) obtain T fl where h: "holds m T fl" and v: "erase T = v" unfolding models_def by blast
  from cs.del_law[OF assms(1), of path] assms(2,3) v obtain v' where "tree_remove p (erase T) = Inr v'"
    by (cases "tree_remove p v") (simp_all add: spec_remove_def)
  from remove_holds[OF h assms(3) this] assms(2) obtain T' fl' where
    s: "holds m' T' fl'" "kept_after_remove p (cm_arena m) T (cm_arena m') T'" by auto
  from nodeAt_cases[OF h assms(5,4)] obtain u where u: "it_resolve q T = Inr u" "cn_bound h" "cn_id h = tid u"
    "live (cm_arena m) (tid u) = Some (cn_generation h)" .
  have l: "live (cm_arena m') (tid u) = (if \<exists>r. q = p @ r then None else live (cm_arena m) (tid u))"
  proof (cases "\<exists>r. q = p @ r")
    case True
    then show "live (cm_arena m') (tid u) = (if \<exists>r. q = p @ r then None else live (cm_arena m) (tid u))"
      using kept_after_removeD(1)[OF s(2) u(1) True] by simp
  next
    case False
    then show "live (cm_arena m') (tid u) = (if \<exists>r. q = p @ r then None else live (cm_arena m) (tid u))"
      using kept_after_removeD(2)[OF s(2) u(1) False] by simp
  qed
  show "cn_valid (cm_arena m') h \<longleftrightarrow> \<not> (\<exists>r. q = p @ r)"
    using u(2,4) by (simp only: cn_valid_def arena_matches_live l u(3) split: if_split) simp
  assume no: "\<not> (\<exists>r. q = p @ r)" and rp: "cp_parse rpath = Inr (shift_after p q)"
  from kept_after_removeD(2)[OF s(2) u(1) no] obtain u' where "live (cm_arena m') (tid u) = live (cm_arena m) (tid u)"
    "it_resolve (shift_after p q) T' = Inr u'" "tid u' = tid u" by blast
  then show "cm_nodeAt m' rpath = Some (Inr h)"
    using u by (simp add: nodeAt_holds[OF s(1)] rp)
qed

section \<open>Nothing leaks\<close>

text \<open>The live slots of a model are exactly the nodes of its value.\<close>

lemma live_slots_nodes:
  assumes "models m v"
  shows "live_slots m = cv_nodes v"
proof -
  from assms obtain T fl where h: "holds m T fl" and v: "erase T = v" unfolding models_def by blast
  let ?ns = "nodes (cm_arena m)"
  have tot: "mids T + mset fl = mset [0..<length ?ns]" using heapD(3)[OF holdsD(1)[OF h]] by simp
  have alive: "nalive (?ns ! i)" if "i \<in># mids T" for i
    using holds_live[OF h, of i] that by (auto simp: live_def split: if_splits)
  have dead: "\<not> nalive (?ns ! i)" if "i \<in># mset fl" for i
    using free_chain_dead[OF heapD(2)[OF holdsD(1)[OF h]]] that by simp
  have "live_slots m = length (filter (\<lambda>i. nalive (?ns ! i)) [0..<length ?ns])"
    unfolding live_slots_def by (metis (no_types, lifting) map_nth filter_map length_map comp_apply filter_cong)
  also have "\<dots> = size (filter_mset (\<lambda>i. nalive (?ns ! i)) (mids T + mset fl))"
    unfolding tot by (metis mset_filter size_mset)
  also have "filter_mset (\<lambda>i. nalive (?ns ! i)) (mids T + mset fl) = mids T"
  proof -
    have "filter_mset (\<lambda>i. nalive (?ns ! i)) (mids T) = filter_mset (\<lambda>_. True) (mids T)"
      using alive by (intro filter_mset_cong) simp_all
    moreover have "filter_mset (\<lambda>i. nalive (?ns ! i)) (mset fl) = filter_mset (\<lambda>_. False) (mset fl)"
      using dead by (intro filter_mset_cong refl) blast
    ultimately show ?thesis by simp
  qed
  finally show ?thesis using size_mids[OF holdsD(3)[OF h]] v by simp
qed

end
