(* ===== verification/Version_Catalog.thy ===== *)
theory Version_Catalog
  imports Config_Store
begin

text \<open>
  Version ids, default factories and the catalog: \<open>include/configmanager/version.hpp\<close>,
  \<open>version_catalog.hpp\<close> and \<open>src/version_catalog.cpp\<close>.
  \<^item> A \<open>VersionId\<close> is a \<open>32 word\<close>, compared unsigned.
  \<^item> A factory is application code, so it is a parameter: a function of the state \<open>'s\<close> of the
    outside world (which it may change) with an outcome. An empty \<open>std::function\<close> is \<open>None\<close>;
    registration rejects it, and calling one is outside the model.
  \<^item> A rethrown \<open>std::bad_alloc\<close> is \<open>Bad_alloc\<close>, any other way to return is \<open>Ret\<close>.
  \<^item> \<open>std::lower_bound\<close> is the position of the first entry that is not below the value.
\<close>

type_synonym version_id = "32 word"

definition vstr :: "version_id \<Rightarrow> string" where
  "vstr v = nat_str (unat v)"

datatype 'a flow = Ret 'a | Bad_alloc

text \<open>A call to code that may throw.\<close>

datatype 'a backend_call = BReturns 'a | BThrows_bad_alloc | BThrows_std string | BThrows_other

primrec body_call :: "'a flow \<Rightarrow> 'a backend_call" where
  "body_call (Ret r) = BReturns r"
| "body_call Bad_alloc = BThrows_bad_alloc"

datatype factory_outcome = FReturns config_value | FThrows_bad_alloc | FThrows_std string | FThrows_other

type_synonym 's default_factory = "'s \<Rightarrow> 's \<times> factory_outcome"

record 's version_artifact =
  va_version :: version_id
  va_factory :: "'s default_factory option"

type_synonym 's catalog = "'s version_artifact list"

section \<open>Operations\<close>

definition findEntry :: "'s catalog \<Rightarrow> version_id \<Rightarrow> nat" where
  "findEntry es v = length (takeWhile (\<lambda>e. va_version e < v) es)"

definition cat_at :: "'s catalog \<Rightarrow> nat \<Rightarrow> version_id \<Rightarrow> bool" where
  "cat_at es pos v \<longleftrightarrow> pos < length es \<and> va_version (es ! pos) = v"

definition registerVersion :: "'s catalog \<Rightarrow> 's version_artifact \<Rightarrow> 's catalog \<times> (error + unit)" where
  "registerVersion es a = (case va_factory a of
     None \<Rightarrow> (es, fail MigrationFailed (''default factory for version '' @ vstr (va_version a) @ '' is empty''))
   | Some f \<Rightarrow> (let pos = findEntry es (va_version a) in
       if cat_at es pos (va_version a)
       then (es, fail InvalidVersion (''version '' @ vstr (va_version a) @ '' is already registered''))
       else (take pos es @ a # drop pos es, Inr ())))"

definition cat_contains :: "'s catalog \<Rightarrow> version_id \<Rightarrow> bool" where
  "cat_contains es v \<longleftrightarrow> cat_at es (findEntry es v) v"

definition latestVersion :: "'s catalog \<Rightarrow> error + version_id" where
  "latestVersion es = (if es = [] then fail InvalidVersion ''catalog has no registered versions''
     else Inr (va_version (last es)))"

definition not_registered :: "version_id \<Rightarrow> error + 'a" where
  "not_registered v = fail InvalidVersion (''version '' @ vstr v @ '' is not registered'')"

definition nextVersion :: "'s catalog \<Rightarrow> version_id \<Rightarrow> error + version_id" where
  "nextVersion es v = (let pos = findEntry es v in
     if \<not> cat_at es pos v then not_registered v
     else if pos + 1 = length es
       then fail InvalidVersion (''version '' @ vstr v @ '' is the latest registered version'')
     else Inr (va_version (es ! (pos + 1))))"

definition cat_createDefault ::
    "'s catalog \<Rightarrow> version_id \<Rightarrow> 's \<Rightarrow> ('s \<times> (error + cmodel) flow) option" where
  "cat_createDefault es v s = (let pos = findEntry es v in
     if \<not> cat_at es pos v then Some (s, Ret (not_registered v))
     else (case va_factory (es ! pos) of
         None \<Rightarrow> None
       | Some f \<Rightarrow> (case f s of (s', out) \<Rightarrow> (case out of
           FThrows_bad_alloc \<Rightarrow> Some (s', Bad_alloc)
         | FThrows_std what \<Rightarrow> Some (s', Ret (fail MigrationFailed
             (''default factory for version '' @ vstr v @ '' threw: '' @ what)))
         | FThrows_other \<Rightarrow> Some (s', Ret (fail MigrationFailed
             (''default factory for version '' @ vstr v @ '' threw a non-standard exception'')))
         | FReturns root \<Rightarrow> map_option (\<lambda>r. (s', Ret r)) (cm_fromValue root)))))"

definition cat_versions :: "'s catalog \<Rightarrow> version_id list" where
  "cat_versions es = map va_version es"

section \<open>The catalog is strictly ascending\<close>

definition cat_inv :: "'s catalog \<Rightarrow> bool" where
  "cat_inv es \<longleftrightarrow> sorted_wrt (<) (cat_versions es) \<and> (\<forall>e \<in> set es. va_factory e \<noteq> None)"

lemma cat_inv_empty [simp]: "cat_inv []"
  by (simp add: cat_inv_def cat_versions_def)

lemma findEntry_split: "\<exists>lo hi. es = lo @ hi \<and> findEntry es v = length lo \<and> (\<forall>e \<in> set lo. va_version e < v) \<and>
    (hi = [] \<or> v \<le> va_version (hd hi))"
proof -
  have "es = takeWhile (\<lambda>e. va_version e < v) es @ dropWhile (\<lambda>e. va_version e < v) es" by simp
  moreover have "\<forall>e \<in> set (takeWhile (\<lambda>e. va_version e < v) es). va_version e < v" by (auto dest: set_takeWhileD)
  moreover have "dropWhile (\<lambda>e. va_version e < v) es = [] \<or> v \<le> va_version (hd (dropWhile (\<lambda>e. va_version e < v) es))"
    by (metis hd_dropWhile not_less)
  ultimately show ?thesis unfolding findEntry_def by blast
qed

lemma sorted_mem_split:
  "sorted_wrt (<) (map f (lo @ hi)) \<Longrightarrow> \<forall>e \<in> set lo. f e < v \<Longrightarrow> hi = [] \<or> v \<le> f (hd hi) \<Longrightarrow>
     v \<in> f ` set (lo @ hi) \<longleftrightarrow> hi \<noteq> [] \<and> f (hd hi) = (v :: 'b :: linorder)"
  by (cases hi) (auto simp: sorted_wrt_append)

lemma cat_at_iff: "cat_inv es \<Longrightarrow> cat_at es (findEntry es v) v \<longleftrightarrow> v \<in> set (cat_versions es)"
proof -
  assume inv: "cat_inv es"
  from findEntry_split[of es v] obtain lo hi where
    s: "es = lo @ hi" "findEntry es v = length lo" "\<forall>e \<in> set lo. va_version e < v" "hi = [] \<or> v \<le> va_version (hd hi)"
    by blast
  have "v \<in> va_version ` set (lo @ hi) \<longleftrightarrow> hi \<noteq> [] \<and> va_version (hd hi) = v"
    using inv s(1,3,4) by (intro sorted_mem_split) (auto simp: cat_inv_def cat_versions_def)
  then show ?thesis using s(1,2) by (cases hi) (auto simp: cat_at_def cat_versions_def image_Un)
qed

lemma cat_contains_iff: "cat_inv es \<Longrightarrow> cat_contains es v \<longleftrightarrow> v \<in> set (cat_versions es)"
  by (simp add: cat_contains_def cat_at_iff)

text \<open>Registration keeps the invariant and adds exactly the new version.\<close>

lemma registerVersion_inv:
  assumes inv: "cat_inv es" and r: "registerVersion es a = (es', r)"
  shows "cat_inv es'" "r = Inr () \<longleftrightarrow> va_factory a \<noteq> None \<and> va_version a \<notin> set (cat_versions es)"
    "set (cat_versions es') = (if r = Inr () then insert (va_version a) (set (cat_versions es)) else set (cat_versions es))"
proof -
  let ?v = "va_version a"
  from findEntry_split[of es ?v] obtain lo hi where
    s: "es = lo @ hi" "findEntry es ?v = length lo" "\<forall>e \<in> set lo. va_version e < ?v" "hi = [] \<or> ?v \<le> va_version (hd hi)"
    by blast
  show r_iff: "r = Inr () \<longleftrightarrow> va_factory a \<noteq> None \<and> ?v \<notin> set (cat_versions es)"
    using r by (auto simp: registerVersion_def Let_def cat_at_iff[OF inv] split: option.splits if_splits)
  have es': "es' = (if r = Inr () then lo @ a # hi else es)"
    using r s(1,2) by (auto simp: registerVersion_def Let_def split: option.splits if_splits)
  then show "set (cat_versions es') = (if r = Inr () then insert ?v (set (cat_versions es)) else set (cat_versions es))"
    using s(1) by (auto simp: cat_versions_def)
  have "\<forall>e \<in> set hi. ?v < va_version e" if "r = Inr ()"
  proof (cases hi)
    case (Cons x xs)
    have "va_version x \<noteq> ?v" using that r_iff s(1) Cons by (auto simp: cat_versions_def)
    with s(4) Cons have "?v < va_version x" by simp
    moreover have "\<forall>e \<in> set xs. va_version x < va_version e"
      using inv s(1) Cons by (auto simp: cat_inv_def cat_versions_def sorted_wrt_append)
    ultimately show ?thesis using Cons by force
  qed simp
  then show "cat_inv es'"
    using inv es' s(1,3) r_iff by (auto simp: cat_inv_def cat_versions_def sorted_wrt_append)
qed

section \<open>Adjacency\<close>

text \<open>\<open>nextVersion\<close> is the immediate successor in the catalog's order.\<close>

lemma next_split:
  assumes "cat_inv es"
  shows "nextVersion es v = Inr w \<longleftrightarrow> (\<exists>lo hi. cat_versions es = lo @ v # w # hi)"
proof
  assume "nextVersion es v = Inr w"
  then have p: "cat_at es (findEntry es v) v" "findEntry es v + 1 \<noteq> length es"
    "w = va_version (es ! (findEntry es v + 1))"
    by (auto simp: nextVersion_def not_registered_def Let_def split: if_splits)
  let ?i = "findEntry es v"
  from p have i: "?i < length es" "Suc ?i < length es" "va_version (es ! ?i) = v" by (auto simp: cat_at_def)
  then have "es = take ?i es @ es ! ?i # es ! Suc ?i # drop (Suc (Suc ?i)) es"
    by (metis Cons_nth_drop_Suc append_take_drop_id)
  then have "cat_versions es = cat_versions (take ?i es) @ v # w # cat_versions (drop (Suc (Suc ?i)) es)"
    using p(3) i(3) unfolding cat_versions_def
    by (metis (no_types, lifting) Suc_eq_plus1 list.simps(9) map_append)
  then show "\<exists>lo hi. cat_versions es = lo @ v # w # hi" by blast
next
  assume "\<exists>lo hi. cat_versions es = lo @ v # w # hi"
  then obtain lo hi where s: "cat_versions es = lo @ v # w # hi" by blast
  then obtain lo' x y hi' where e: "es = lo' @ x # y # hi'" "va_version x = v" "va_version y = w" "cat_versions lo' = lo"
    unfolding cat_versions_def by (auto simp: map_eq_append_conv map_eq_Cons_conv)
  have "\<forall>e \<in> set lo'. va_version e < v"
    using assms e by (auto simp: cat_inv_def cat_versions_def sorted_wrt_append)
  then have "findEntry es v = length lo'" using e(1,2) by (simp add: findEntry_def takeWhile_append)
  then show "nextVersion es v = Inr w"
    using e by (simp add: nextVersion_def cat_at_def nth_append)
qed

lemma next_greater: "cat_inv es \<Longrightarrow> nextVersion es v = Inr w \<Longrightarrow> v < w \<and> v \<in> set (cat_versions es) \<and> w \<in> set (cat_versions es)"
  by (auto simp: next_split cat_inv_def sorted_wrt_append)

text \<open>Nothing is registered strictly between a version and the next one.\<close>

lemma next_least:
  assumes "cat_inv es" "nextVersion es v = Inr w" "u \<in> set (cat_versions es)" "v < u"
  shows "w \<le> u"
proof -
  from assms(1,2) obtain lo hi where s: "cat_versions es = lo @ v # w # hi" by (auto simp: next_split)
  then have "\<forall>x \<in> set lo. x < v" "\<forall>x \<in> set hi. w < x"
    using assms(1) by (auto simp: cat_inv_def sorted_wrt_append)
  with s assms(3,4) show ?thesis by (auto dest: less_imp_le less_asym)
qed

lemma next_exists:
  assumes "cat_inv es" "v \<in> set (cat_versions es)" "u \<in> set (cat_versions es)" "v < u"
  obtains w where "nextVersion es v = Inr w"
proof -
  from assms(2) obtain lo hi where s: "cat_versions es = lo @ v # hi" by (meson split_list)
  have "hi \<noteq> []" using assms(1,3,4) s by (auto simp: cat_inv_def sorted_wrt_append)
  then obtain w hi' where "hi = w # hi'" by (cases hi) auto
  with s have "nextVersion es v = Inr w" using next_split[OF assms(1)] by auto
  then show thesis by (rule that)
qed

lemma latest_max: "cat_inv es \<Longrightarrow> latestVersion es = Inr v \<longleftrightarrow> es \<noteq> [] \<and> v \<in> set (cat_versions es) \<and> (\<forall>u \<in> set (cat_versions es). u \<le> v)"
proof (cases es rule: rev_cases)
  case (snoc xs x)
  assume "cat_inv es"
  then have "\<forall>e \<in> set xs. va_version e < va_version x"
    using snoc by (auto simp: cat_inv_def cat_versions_def sorted_wrt_append)
  then show ?thesis using snoc by (auto simp: latestVersion_def cat_versions_def dest: less_imp_le)
qed (simp add: latestVersion_def)

end
