(* ===== verification/Migration.thy ===== *)
theory Migration
  imports Version_Catalog
begin

text \<open>
  Migration edges and the stepwise engine: \<open>include/configmanager/migration_registry.hpp\<close>,
  \<open>migration_engine.hpp\<close>, \<open>versioned_config.hpp\<close>, \<open>src/migration_registry.cpp\<close> and
  \<open>src/migration_engine.cpp\<close>. A migration callback is application code: a function of the outside
  state, the model, and the two versions of its context; it may change the model and the state
  and returns, throws, or exhausts memory. The \<open>while\<close> of \<open>migrate\<close> is a
  \<open>partial_function\<close>, so \<open>None\<close> is also what an endless loop would be; that it ends is proved.
\<close>

datatype apply_outcome = AReturns "error + unit" | AThrows_bad_alloc | AThrows_std string | AThrows_other

type_synonym 's migration_fn = "'s \<Rightarrow> cmodel \<Rightarrow> version_id \<Rightarrow> version_id \<Rightarrow> 's \<times> cmodel \<times> apply_outcome"

record 's migration_edge =
  e_from :: version_id
  e_to :: version_id
  e_apply :: "'s migration_fn option"

type_synonym 's registry = "'s migration_edge list"

section \<open>The registry\<close>

definition edgeName :: "version_id \<Rightarrow> version_id \<Rightarrow> string" where
  "edgeName a b = vstr a @ ''->'' @ vstr b"

definition is_edge :: "version_id \<Rightarrow> version_id \<Rightarrow> 's migration_edge \<Rightarrow> bool" where
  "is_edge a b e \<longleftrightarrow> e_from e = a \<and> e_to e = b"

definition registerMigration ::
    "'s registry \<Rightarrow> version_id \<Rightarrow> version_id \<Rightarrow> 's migration_fn option \<Rightarrow> 's registry \<times> (error + unit)" where
  "registerMigration es a b fn = (case fn of
     None \<Rightarrow> (es, fail MigrationFailed (''migration '' @ edgeName a b @ '' is an empty callable''))
   | Some f \<Rightarrow> (if list_ex (is_edge a b) es
       then (es, fail InvalidVersion (''migration '' @ edgeName a b @ '' is already registered''))
       else (es @ [\<lparr>e_from = a, e_to = b, e_apply = Some f\<rparr>], Inr ())))"

definition findMigration :: "'s registry \<Rightarrow> version_id \<Rightarrow> version_id \<Rightarrow> error + 's migration_edge" where
  "findMigration es a b = (case find (is_edge a b) es of
     None \<Rightarrow> fail MissingMigration (''no migration registered for '' @ edgeName a b)
   | Some e \<Rightarrow> Inr e)"

text \<open>The two loops of \<open>validate\<close>: over the edges, then over adjacent positions of \<open>versions\<close>.\<close>

fun validate_edges :: "'s registry \<Rightarrow> 's catalog \<Rightarrow> error + unit" where
  "validate_edges [] cat = Inr ()"
| "validate_edges (e # es) cat =
     (if \<not> cat_contains cat (e_from e) \<or> \<not> cat_contains cat (e_to e)
      then fail InvalidVersion (''migration '' @ edgeName (e_from e) (e_to e) @ '' references a version not in the catalog'')
      else if nextVersion cat (e_from e) \<noteq> Inr (e_to e)
      then fail InvalidVersion (''migration '' @ edgeName (e_from e) (e_to e) @ '' is not adjacent in catalog order'')
      else validate_edges es cat)"

fun validate_chain :: "'s registry \<Rightarrow> version_id list \<Rightarrow> error + unit" where
  "validate_chain es (a # b # vs) =
     (if \<not> list_ex (is_edge a b) es then fail MissingMigration (''no migration registered for '' @ edgeName a b)
      else validate_chain es (b # vs))"
| "validate_chain es vs = Inr ()"

definition reg_validate :: "'s registry \<Rightarrow> 's catalog \<Rightarrow> error + unit" where
  "reg_validate es cat = (case validate_edges es cat of
     Inl e \<Rightarrow> Inl e
   | Inr _ \<Rightarrow> validate_chain es (cat_versions cat))"

text \<open>Registration: no empty callable and no duplicate edge gets in.\<close>

definition reg_inv :: "'s registry \<Rightarrow> bool" where
  "reg_inv es \<longleftrightarrow> distinct (map (\<lambda>e. (e_from e, e_to e)) es) \<and> (\<forall>e \<in> set es. e_apply e \<noteq> None)"

lemma list_ex_edge: "list_ex (is_edge a b) es \<longleftrightarrow> (a, b) \<in> (\<lambda>e. (e_from e, e_to e)) ` set es"
  by (auto simp: list_ex_iff is_edge_def image_iff)

lemma registerMigration_inv:
  assumes "reg_inv es" "registerMigration es a b fn = (es', r)"
  shows "reg_inv es'" "r = Inr () \<longleftrightarrow> fn \<noteq> None \<and> (a, b) \<notin> (\<lambda>e. (e_from e, e_to e)) ` set es"
    "r \<noteq> Inr () \<Longrightarrow> es' = es"
proof -
  show "r = Inr () \<longleftrightarrow> fn \<noteq> None \<and> (a, b) \<notin> (\<lambda>e. (e_from e, e_to e)) ` set es"
    using assms(2) by (auto simp: registerMigration_def list_ex_edge split: option.splits if_splits)
  show "r \<noteq> Inr () \<Longrightarrow> es' = es"
    using assms(2) by (auto simp: registerMigration_def split: option.splits if_splits)
  show "reg_inv es'"
    using assms by (auto simp: registerMigration_def reg_inv_def list_ex_edge image_iff split: option.splits if_splits)
qed

lemma findMigration_iff:
  "(\<exists>e. findMigration es a b = Inr e) \<longleftrightarrow> (a, b) \<in> (\<lambda>e. (e_from e, e_to e)) ` set es"
proof (cases "find (is_edge a b) es")
  case None
  then have "(a, b) \<notin> (\<lambda>e. (e_from e, e_to e)) ` set es" by (auto simp: find_None_iff is_edge_def)
  then show ?thesis by (simp add: findMigration_def None)
next
  case (Some e)
  then have "e \<in> set es" "is_edge a b e" by (auto simp: find_Some_iff)
  then show ?thesis by (auto simp: findMigration_def Some is_edge_def)
qed

lemma findMigration_edge: "findMigration es a b = Inr e \<Longrightarrow> e \<in> set es \<and> e_from e = a \<and> e_to e = b"
  by (auto simp: findMigration_def is_edge_def find_Some_iff split: option.splits)

lemma findMigration_some: "reg_inv es \<Longrightarrow> findMigration es a b = Inr e \<Longrightarrow> \<exists>f. e_apply e = Some f"
  using findMigration_edge[of es a b e] by (auto simp: reg_inv_def)

text \<open>\<open>validate\<close> accepts exactly the registries whose edges are the adjacent pairs of the catalog.\<close>

definition adjacent :: "'s catalog \<Rightarrow> (version_id \<times> version_id) set" where
  "adjacent cat = {(a, b). nextVersion cat a = Inr b}"

lemma validate_edges_ok:
  "cat_inv cat \<Longrightarrow> validate_edges es cat = Inr () \<longleftrightarrow> (\<lambda>e. (e_from e, e_to e)) ` set es \<subseteq> adjacent cat"
proof (induction es)
  case (Cons e es)
  have "nextVersion cat (e_from e) = Inr (e_to e) \<Longrightarrow> cat_contains cat (e_from e) \<and> cat_contains cat (e_to e)"
    using next_greater[OF Cons.prems] by (auto simp: cat_contains_iff[OF Cons.prems])
  with Cons show ?case by (auto simp: adjacent_def)
qed simp

text \<open>Adjacent positions of a list.\<close>

definition neighbours :: "'a list \<Rightarrow> ('a \<times> 'a) set" where
  "neighbours vs = set (zip vs (tl vs))"

lemma neighbours_simps [simp]:
  "neighbours [] = {}" "neighbours [a] = {}" "neighbours (a # b # vs) = insert (a, b) (neighbours (b # vs))"
  by (simp_all add: neighbours_def)

lemma neighbours_iff: "(a, b) \<in> neighbours vs \<longleftrightarrow> (\<exists>lo hi. vs = lo @ a # b # hi)"
proof
  show "(a, b) \<in> neighbours vs \<Longrightarrow> \<exists>lo hi. vs = lo @ a # b # hi"
  proof (induction vs rule: induct_list012)
    case (3 x y vs)
    show ?case
    proof (cases "a = x \<and> b = y")
      case True
      then show ?thesis by - (rule exI[of _ "[]"], rule exI[of _ vs], simp)
    next
      case False
      with 3 obtain lo hi where "y # vs = lo @ a # b # hi" by auto
      then show ?thesis by - (rule exI[of _ "x # lo"], rule exI[of _ hi], simp)
    qed
  qed simp_all
  have "(a, b) \<in> neighbours (lo @ a # b # hi)" for lo hi
  proof (induction lo)
    case (Cons x lo)
    then show ?case by (cases lo) auto
  qed simp
  then show "\<exists>lo hi. vs = lo @ a # b # hi \<Longrightarrow> (a, b) \<in> neighbours vs" by blast
qed

lemma adjacent_neighbours: "cat_inv cat \<Longrightarrow> adjacent cat = neighbours (cat_versions cat)"
  unfolding adjacent_def set_eq_iff split_paired_All by (simp only: neighbours_iff next_split mem_Collect_eq split) blast

lemma validate_chain_ok:
  "validate_chain es vs = Inr () \<longleftrightarrow> neighbours vs \<subseteq> (\<lambda>e. (e_from e, e_to e)) ` set es"
  by (induction es vs rule: validate_chain.induct) (auto simp: list_ex_edge)

lemma validate_iff:
  assumes "cat_inv cat"
  shows "reg_validate es cat = Inr () \<longleftrightarrow> (\<lambda>e. (e_from e, e_to e)) ` set es = adjacent cat"
proof -
  have "reg_validate es cat = Inr () \<longleftrightarrow> validate_edges es cat = Inr () \<and> validate_chain es (cat_versions cat) = Inr ()"
    by (auto simp: reg_validate_def split: sum.split)
  also have "\<dots> \<longleftrightarrow> (\<lambda>e. (e_from e, e_to e)) ` set es \<subseteq> adjacent cat \<and> adjacent cat \<subseteq> (\<lambda>e. (e_from e, e_to e)) ` set es"
    by (simp add: validate_edges_ok[OF assms] validate_chain_ok adjacent_neighbours[OF assms])
  finally show ?thesis by auto
qed

section \<open>The engine\<close>

record vconfig =
  vc_version :: version_id
  vc_model :: cmodel

definition stepName :: "version_id \<Rightarrow> version_id \<Rightarrow> string" where
  "stepName a b = vstr a @ ''->'' @ vstr b"

fun errorCodeName :: "error_code \<Rightarrow> string" where
  "errorCodeName InvalidPath = ''InvalidPath''"
| "errorCodeName NodeNotFound = ''NodeNotFound''"
| "errorCodeName InvalidType = ''InvalidType''"
| "errorCodeName ParseError = ''ParseError''"
| "errorCodeName SerializationError = ''SerializationError''"
| "errorCodeName MigrationFailed = ''MigrationFailed''"
| "errorCodeName MissingMigration = ''MissingMigration''"
| "errorCodeName InvalidVersion = ''InvalidVersion''"
| "errorCodeName StorageError = ''StorageError''"

text \<open>What the \<open>try\<close> block and the check of \<open>applied\<close> make of one callback's outcome.\<close>

definition step_result :: "version_id \<Rightarrow> version_id \<Rightarrow> apply_outcome \<Rightarrow> (error + unit) flow" where
  "step_result a b out = (case out of
     AThrows_bad_alloc \<Rightarrow> Bad_alloc
   | AThrows_std what \<Rightarrow> Ret (fail MigrationFailed (''migration '' @ stepName a b @ '' threw: '' @ what))
   | AThrows_other \<Rightarrow> Ret (fail MigrationFailed (''migration '' @ stepName a b @ '' threw a non-standard exception''))
   | AReturns (Inl e) \<Rightarrow> Ret (fail MigrationFailed (''migration '' @ stepName a b @ '' failed: ''
       @ errorCodeName (err_code e) @ '': '' @ err_message e))
   | AReturns (Inr _) \<Rightarrow> Ret (Inr ()))"

type_synonym 's migrated = "'s \<times> vconfig \<times> (error + unit) flow"

partial_function (option) migrate_loop ::
    "'s catalog \<Rightarrow> 's registry \<Rightarrow> version_id \<Rightarrow> version_id \<Rightarrow> 's \<Rightarrow> vconfig \<Rightarrow> 's migrated option" where
  "migrate_loop cat reg target current s cfg =
     (if current < target then
        (case nextVersion cat current of
           Inl e \<Rightarrow> Some (s, cfg, Ret (Inl e))
         | Inr nx \<Rightarrow> (case findMigration reg current nx of
             Inl e \<Rightarrow> Some (s, cfg, Ret (Inl e))
           | Inr edge \<Rightarrow> (case e_apply edge of
               None \<Rightarrow> None
             | Some f \<Rightarrow> (case f s (vc_model cfg) current nx of (s', m', out) \<Rightarrow>
                 if step_result current nx out = Ret (Inr ())
                 then migrate_loop cat reg target nx s' \<lparr>vc_version = nx, vc_model = m'\<rparr>
                 else Some (s', cfg\<lparr>vc_model := m'\<rparr>, step_result current nx out)))))
      else Some (s, cfg, Ret (Inr ())))"

definition migrate :: "'s catalog \<Rightarrow> 's registry \<Rightarrow> 's \<Rightarrow> vconfig \<Rightarrow> version_id \<Rightarrow> 's migrated option" where
  "migrate cat reg s cfg target =
     (if \<not> cat_contains cat target then Some (s, cfg, Ret (fail InvalidVersion
        (''migration target version '' @ vstr target @ '' is not registered'')))
      else if vc_version cfg > target then Some (s, cfg, Ret (fail InvalidVersion
        (''cannot migrate backward from version '' @ vstr (vc_version cfg) @ '' to '' @ vstr target)))
      else migrate_loop cat reg target (vc_version cfg) s cfg)"

text \<open>
  The specification: run the callbacks of a list of consecutive versions, stopping at the first
  that does not succeed.
\<close>

fun run_chain :: "'s registry \<Rightarrow> version_id \<Rightarrow> version_id list \<Rightarrow> 's \<Rightarrow> cmodel \<Rightarrow> 's migrated" where
  "run_chain reg a [] s m = (s, \<lparr>vc_version = a, vc_model = m\<rparr>, Ret (Inr ()))"
| "run_chain reg a (b # vs) s m =
     (case the (e_apply (projr (findMigration reg a b))) s m a b of (s', m', out) \<Rightarrow>
        if step_result a b out = Ret (Inr ()) then run_chain reg b vs s' m'
        else (s', \<lparr>vc_version = a, vc_model = m'\<rparr>, step_result a b out))"

definition chain_to :: "'s catalog \<Rightarrow> version_id \<Rightarrow> version_id \<Rightarrow> version_id list" where
  "chain_to cat a b = filter (\<lambda>v. a < v \<and> v \<le> b) (cat_versions cat)"

lemma chain_to_step:
  assumes inv: "cat_inv cat" and n: "nextVersion cat a = Inr b" and le: "b \<le> target"
  shows "chain_to cat a target = b # chain_to cat b target"
proof -
  from n obtain lo hi where s: "cat_versions cat = lo @ a # b # hi" by (auto simp: next_split[OF inv])
  have o: "\<forall>x \<in> set lo. x < a \<and> x < b" "a < b" "\<forall>x \<in> set hi. a < x \<and> b < x"
    using inv unfolding cat_inv_def s by (auto simp: sorted_wrt_append)
  have "filter (\<lambda>v. a < v \<and> v \<le> target) lo = []" "filter (\<lambda>v. b < v \<and> v \<le> target) lo = []"
    using o(1) by (auto simp: filter_empty_conv dest: less_asym)
  moreover have "filter (\<lambda>v. a < v \<and> v \<le> target) hi = filter (\<lambda>v. b < v \<and> v \<le> target) hi"
    using o(3) by (intro filter_cong) auto
  ultimately show ?thesis using o(2) le by (auto simp: chain_to_def s)
qed

lemma chain_to_end: "cat_inv cat \<Longrightarrow> \<not> a < target \<Longrightarrow> chain_to cat a target = []"
  by (auto simp: chain_to_def filter_empty_conv)

text \<open>On a validated registry the loop runs the chain, hence ends.\<close>

lemma migrate_loop_chain:
  assumes inv: "cat_inv cat" and reg: "reg_inv reg" and val: "reg_validate reg cat = Inr ()"
    and t: "target \<in> set (cat_versions cat)"
  shows "a \<in> set (cat_versions cat) \<Longrightarrow> a \<le> target \<Longrightarrow> vc_version cfg = a \<Longrightarrow>
     migrate_loop cat reg target a s cfg = Some (run_chain reg a (chain_to cat a target) s (vc_model cfg))"
proof (induction "chain_to cat a target" arbitrary: a s cfg)
  case Nil
  have "\<not> a < target"
    using Nil.hyps[symmetric] t by (auto simp: chain_to_def filter_empty_conv)
  then show ?case using Nil by (subst migrate_loop.simps) (simp add: chain_to_end[OF inv])
next
  case (Cons b vs)
  have lt: "a < target"
    using Cons.hyps(2) chain_to_end[OF inv, of a target] by fastforce
  from next_exists[OF inv Cons.prems(1) t lt] obtain b' where n: "nextVersion cat a = Inr b'" .
  have b': "b' \<le> target" by (rule next_least[OF inv n t lt])
  have c: "chain_to cat a target = b' # chain_to cat b' target" by (rule chain_to_step[OF inv n b'])
  with Cons.hyps(2) have bv: "b' = b" "vs = chain_to cat b target" by auto
  have "(a, b) \<in> (\<lambda>e. (e_from e, e_to e)) ` set reg"
    using n bv validate_iff[OF inv] val by (auto simp: adjacent_def)
  then obtain e where e: "findMigration reg a b = Inr e" using findMigration_iff by blast
  from findMigration_some[OF reg e] obtain f where f: "e_apply e = Some f" by blast
  obtain s' m' out where fr: "f s (vc_model cfg) a b = (s', m', out)" by (cases "f s (vc_model cfg) a b") auto
  have b: "b \<in> set (cat_versions cat)" using next_greater[OF inv n] bv by simp
  have IH: "migrate_loop cat reg target b s' \<lparr>vc_version = b, vc_model = m'\<rparr> =
      Some (run_chain reg b vs s' m')"
    using Cons.hyps(1)[OF bv(2) b, of "\<lparr>vc_version = b, vc_model = m'\<rparr>" s'] b' bv by simp
  show ?case
    by (subst migrate_loop.simps)
      (use lt n bv e f fr IH Cons.prems(3) Cons.hyps(2) in \<open>auto simp flip: Cons.hyps(2)\<close>)
qed

lemma migrate_chain:
  assumes "cat_inv cat" "reg_inv reg" "reg_validate reg cat = Inr ()"
    and "target \<in> set (cat_versions cat)" "vc_version cfg \<in> set (cat_versions cat)" "vc_version cfg \<le> target"
  shows "migrate cat reg s cfg target =
    Some (run_chain reg (vc_version cfg) (chain_to cat (vc_version cfg) target) s (vc_model cfg))"
  using assms migrate_loop_chain[OF assms(1-4) assms(5,6) refl]
  by (simp add: migrate_def cat_contains_iff not_less[symmetric])

text \<open>
  \<open>steps_complete reg a vs s m s' m'\<close>: the callbacks registered for the steps from \<open>a\<close> along \<open>vs\<close> ran one after
  the other, each on what the one before left, and every one of them returned success.
\<close>

inductive steps_complete :: "'s registry \<Rightarrow> version_id \<Rightarrow> version_id list \<Rightarrow> 's \<Rightarrow> cmodel \<Rightarrow> 's \<Rightarrow> cmodel \<Rightarrow> bool" for reg where
  steps_complete_none: "steps_complete reg a [] s m s m"
| steps_complete_step: "findMigration reg a b = Inr e \<Longrightarrow> e_apply e = Some f \<Longrightarrow> f s m a b = (s1, m1, AReturns (Inr ())) \<Longrightarrow>
    steps_complete reg b vs s1 m1 s2 m2 \<Longrightarrow> steps_complete reg a (b # vs) s m s2 m2"

text \<open>The callback of the step from \<open>a\<close> to \<open>b\<close> ran and did not return success; what the caller is told.\<close>

inductive step_stops :: "'s registry \<Rightarrow> version_id \<Rightarrow> version_id \<Rightarrow> 's \<Rightarrow> cmodel \<Rightarrow> 's \<Rightarrow> cmodel \<Rightarrow> (error + unit) flow \<Rightarrow> bool" for reg where
  step_stops_bad_alloc: "findMigration reg a b = Inr e \<Longrightarrow> e_apply e = Some f \<Longrightarrow> f s m a b = (s1, m1, AThrows_bad_alloc) \<Longrightarrow>
    step_stops reg a b s m s1 m1 Bad_alloc"
| step_stops_error: "findMigration reg a b = Inr e \<Longrightarrow> e_apply e = Some f \<Longrightarrow> f s m a b = (s1, m1, out) \<Longrightarrow>
    out \<noteq> AThrows_bad_alloc \<Longrightarrow> out \<noteq> AReturns (Inr ()) \<Longrightarrow> err_code err = MigrationFailed \<Longrightarrow> step_stops reg a b s m s1 m1 (Ret (Inl err))"

fun chain_edges :: "'s registry \<Rightarrow> version_id \<Rightarrow> version_id list \<Rightarrow> bool" where
  "chain_edges reg a [] \<longleftrightarrow> True"
| "chain_edges reg a (b # vs) \<longleftrightarrow> (\<exists>e f. findMigration reg a b = Inr e \<and> e_apply e = Some f) \<and> chain_edges reg b vs"

lemma chain_edges_valid:
  assumes inv: "cat_inv cat" and reg: "reg_inv reg" and val: "reg_validate reg cat = Inr ()"
    and t: "target \<in> set (cat_versions cat)"
  shows "a \<in> set (cat_versions cat) \<Longrightarrow> a \<le> target \<Longrightarrow> chain_edges reg a (chain_to cat a target)"
proof (induction "chain_to cat a target" arbitrary: a)
  case (Cons b vs)
  have lt: "a < target"
    using Cons.hyps(2) chain_to_end[OF inv, of a target] by fastforce
  from next_exists[OF inv Cons.prems(1) t lt] obtain b' where n: "nextVersion cat a = Inr b'" .
  have b': "b' \<le> target" by (rule next_least[OF inv n t lt])
  have c: "chain_to cat a target = b' # chain_to cat b' target" by (rule chain_to_step[OF inv n b'])
  with Cons.hyps(2) have bv: "b' = b" "vs = chain_to cat b target" by auto
  have "(a, b) \<in> (\<lambda>e. (e_from e, e_to e)) ` set reg"
    using n bv validate_iff[OF inv] val by (auto simp: adjacent_def)
  then obtain e where e: "findMigration reg a b = Inr e" using findMigration_iff by blast
  from findMigration_some[OF reg e] e have "\<exists>e f. findMigration reg a b = Inr e \<and> e_apply e = Some f" by blast
  moreover have "chain_edges reg b (chain_to cat b target)"
    using Cons.hyps(1)[OF bv(2)] next_greater[OF inv n] b' bv by simp
  ultimately show ?case using c bv by simp
qed (metis chain_edges.simps(1))

text \<open>The version names the last completed step, and the model is what that step and the one that stopped left.\<close>

lemma run_chain_version:
  "run_chain reg a vs s m = (s', cfg', r) \<Longrightarrow> chain_edges reg a vs \<Longrightarrow>
     \<exists>ran todo s1 m1. vs = ran @ todo \<and> steps_complete reg a ran s m s1 m1 \<and> vc_version cfg' = last (a # ran) \<and>
       (if todo = [] then r = Ret (Inr ()) \<and> s' = s1 \<and> vc_model cfg' = m1
        else step_stops reg (last (a # ran)) (hd todo) s1 m1 s' (vc_model cfg') r)"
proof (induction reg a vs s m rule: run_chain.induct)
  case (1 reg a s m)
  then show ?case using steps_complete_none[of reg a s m] by auto
next
  case (2 reg a b vs s m)
  from "2.prems"(2) obtain e f where e: "findMigration reg a b = Inr e" "e_apply e = Some f" by auto
  obtain s1 m1 out where f: "f s m a b = (s1, m1, out)" by (cases "f s m a b") auto
  then have f': "the (e_apply (projr (findMigration reg a b))) s m a b = (s1, m1, out)" using e by simp
  show ?case
  proof (cases "step_result a b out = Ret (Inr ())")
    case True
    then have out: "out = AReturns (Inr ())"
      by (auto simp: step_result_def fail_def simp del: Inl_fold_fail split: apply_outcome.splits sum.splits)
    from True "2.prems"(1) f' have "run_chain reg b vs s1 m1 = (s', cfg', r)" by simp
    from "2.IH"[OF f'[symmetric] refl True this] "2.prems"(2) obtain ran todo s2 m2 where
      r: "vs = ran @ todo" "steps_complete reg b ran s1 m1 s2 m2" "vc_version cfg' = last (b # ran)"
      "if todo = [] then r = Ret (Inr ()) \<and> s' = s2 \<and> vc_model cfg' = m2
        else step_stops reg (last (b # ran)) (hd todo) s2 m2 s' (vc_model cfg') r" by auto
    from steps_complete_step[OF e f[unfolded out] r(2)] r(1,3,4) show ?thesis
      by - (rule exI[of _ "b # ran"], rule exI[of _ todo], rule exI[of _ s2], rule exI[of _ m2], auto split: if_splits)
  next
    case False
    with "2.prems"(1) f' have c: "s' = s1" "vc_version cfg' = a" "vc_model cfg' = m1" "r = step_result a b out" by auto
    have "step_stops reg a b s m s1 m1 r"
    proof (cases "out = AThrows_bad_alloc")
      case True
      with step_stops_bad_alloc[OF e] f c(4) show ?thesis by (simp add: step_result_def)
    next
      case bad: False
      with False have "out \<noteq> AReturns (Inr ())" by (auto simp: step_result_def)
      moreover from False bad obtain err where "step_result a b out = Ret (Inl err)" "err_code err = MigrationFailed"
        by (auto simp: step_result_def fail_def simp del: Inl_fold_fail split: apply_outcome.splits sum.splits)
      ultimately show ?thesis using step_stops_error[OF e f bad] c(4) by simp
    qed
    with c steps_complete_none[of reg a s m] show ?thesis
      by - (rule exI[of _ "[]"], rule exI[of _ "b # vs"], rule exI[of _ s], rule exI[of _ m], simp)
  qed
qed

lemma run_chain_target: "run_chain reg a vs s m = (s', cfg', Ret (Inr ())) \<Longrightarrow> vc_version cfg' = last (a # vs)"
  by (induction reg a vs s m rule: run_chain.induct) (auto split: prod.splits if_splits)

text \<open>
  Direct migration needs no validation to end: every turn moves to a strictly greater version.
\<close>

lemma migrate_loop_returns:
  assumes inv: "cat_inv cat" and reg: "reg_inv reg"
  shows "\<exists>r. migrate_loop cat reg target a s cfg = Some r"
proof (induction "unat target - unat a" arbitrary: a s cfg rule: less_induct)
  case less
  show ?case
  proof (cases "nextVersion cat a")
    case (Inl e)
    then show ?thesis by (subst migrate_loop.simps) simp
  next
    case (Inr b)
    show ?thesis
    proof (cases "a < target \<and> (\<exists>e. findMigration reg a b = Inr e)")
      case True
      then obtain e where e: "findMigration reg a b = Inr e" by blast
      from findMigration_some[OF reg e] obtain f where f: "e_apply e = Some f" by blast
      obtain s' m' out where fr: "f s (vc_model cfg) a b = (s', m', out)" by (cases "f s (vc_model cfg) a b") auto
      have "a < b" using next_greater[OF inv Inr] by simp
      then have "unat target - unat b < unat target - unat a" using True by (auto simp: word_less_nat_alt intro: diff_less_mono2)
      from less[OF this, of s' "\<lparr>vc_version = b, vc_model = m'\<rparr>"] show ?thesis
        using True Inr e f fr by (subst migrate_loop.simps) auto
    next
      case False
      then show ?thesis using Inr by (subst migrate_loop.simps) (auto split: sum.split)
    qed
  qed
qed

lemma migrate_returns: "cat_inv cat \<Longrightarrow> reg_inv reg \<Longrightarrow> \<exists>r. migrate cat reg s cfg target = Some r"
  using migrate_loop_returns[of cat reg] by (simp add: migrate_def)

end
