(* ===== verification/Node_View.thy ===== *)
theory Node_View
  imports Config_Store
begin

text \<open>
  What the read-only accessors of \<open>ConfigNode\<close> show of a model: a handle of the node at a path
  reads the same type, keys, children and scalar as the value tree has there.
\<close>

definition handle_for :: "cmodel \<Rightarrow> itree \<Rightarrow> config_node \<Rightarrow> bool" where
  "handle_for m u h \<longleftrightarrow> cn_bound h \<and> cn_id h = tid u \<and> live (cm_arena m) (tid u) = Some (cn_generation h)"

definition views :: "cmodel \<Rightarrow> config_node \<Rightarrow> path_segment list \<Rightarrow> bool" where
  "views m h p \<longleftrightarrow> (\<exists>T fl u. holds m T fl \<and> it_resolve p T = Inr u \<and> handle_for m u h)"

lemma nodeAt_views: "models m v \<Longrightarrow> cm_nodeAt m path = Some (Inr h) \<Longrightarrow> cp_parse path = Inr p \<Longrightarrow> views m h p"
  unfolding models_def views_def handle_for_def by (metis nodeAt_cases)

lemma nodeAt_ok:
  assumes "models m v" "cp_parse path = Inr q" "tree_resolve q v = Inr c"
  shows "\<exists>h. cm_nodeAt m path = Some (Inr h) \<and> views m h q"
proof -
  from assms(1) obtain T fl where h: "holds m T fl" and v: "erase T = v" unfolding models_def by blast
  from it_resolve_erase[OF holdsD(3)[OF h], of q] assms(3) v obtain u where u: "it_resolve q T = Inr u"
    by (cases "it_resolve q T") auto
  then have n: "cm_nodeAt m path = Some (Inr \<lparr>cn_bound = True, cn_id = tid u,
      cn_generation = the (live (cm_arena m) (tid u))\<rparr>)"
    by (simp add: nodeAt_holds[OF h] assms(2))
  from nodeAt_views[OF assms(1) n assms(2)] n show ?thesis by blast
qed

lemma nodeAt_error:
  assumes "models m v" "spec_get v path = Inl e"
  shows "cm_nodeAt m path = Some (Inl e)"
proof -
  from assms(1) obtain T fl where h: "holds m T fl" and v: "erase T = v" unfolding models_def by blast
  show ?thesis
  proof (cases "cp_parse path")
    case (Inr p)
    with assms(2) it_resolve_erase[OF holdsD(3)[OF h], of p] v have "it_resolve p T = Inl e"
      by (cases "it_resolve p T") (auto simp: spec_get_def)
    with Inr show ?thesis by (simp add: nodeAt_holds[OF h])
  qed (use assms(2) in \<open>simp add: nodeAt_holds[OF h] spec_get_def\<close>)
qed

lemma root_views:
  assumes "models m v"
  shows "\<exists>h. cm_root m = Some h \<and> views m h []"
proof -
  from assms obtain T fl where h: "holds m T fl" unfolding models_def by blast
  have a: "arena_get (cm_arena m) (tid T) = Some (nodes (cm_arena m) ! tid T)" by (rule arena_get_rep[OF holdsD(8)[OF h]])
  then have "live (cm_arena m) (tid T) = Some (ngeneration (nodes (cm_arena m) ! tid T))"
    by (auto simp: arena_get_def live_def split: if_splits)
  with a h show ?thesis unfolding views_def
    by (auto simp: cm_root_def handle_to_def holdsD(2)[OF h, symmetric] handle_for_def intro!: exI[of _ T])
qed

lemma views_node:
  assumes "views m h p" and "models m v"
  obtains T fl u c q n where "holds m T fl" "it_resolve p T = Inr u" "handle_for m u h"
    "tree_resolve p v = Inr (erase u)" "shaped u" "cv_distinct (erase u)" "rep (nodes (cm_arena m)) q u"
    "findLive (cm_arena m) h = Some n" "arena_get (cm_arena m) (cn_id h) = Some n" "slotn n q u" "cn_valid (cm_arena m) h"
proof -
  from assms(1) obtain T fl u where h: "holds m T fl" "it_resolve p T = Inr u" "handle_for m u h"
    unfolding views_def by blast
  have v: "erase T = v" using models_functional[OF modelsI[OF h(1)] assms(2)] .
  from holds_sub[OF h(1,2)] obtain q where q: "rep (nodes (cm_arena m)) q u" "shaped u" "cv_distinct (erase u)"
    "tree_resolve p (erase T) = Inr (erase u)" by blast
  from slotn_get[OF q(1)] obtain n where n: "arena_get (cm_arena m) (tid u) = Some n" "slotn n q u" by blast
  have f: "findLive (cm_arena m) h = Some n"
    using h(3) n(1) by (auto simp: findLive_iff handle_for_def arena_get_def split: if_splits)
  have "cn_valid (cm_arena m) h" using f by (simp add: cn_valid_iff)
  then show thesis using that h q n f v by (auto simp: handle_for_def)
qed

lemma views_tree: "views m h p \<Longrightarrow> models m v \<Longrightarrow> \<exists>c. tree_resolve p v = Inr c"
  by (erule (1) views_node) blast

lemma kid_handle:
  assumes h: "holds m T fl" and u: "it_resolve p T = Inr u" and x: "it_step x u = Some c"
  shows "\<exists>h'. handle_to (cm_arena m) (tid c) = Some h' \<and> views m h' (p @ [x])"
proof -
  have r: "it_resolve (p @ [x]) T = Inr c" using u x by (simp add: it_resolve_append it_resolve_Cons)
  from holds_sub[OF h r] obtain q where q: "rep (nodes (cm_arena m)) q c" by blast
  then have "handle_to (cm_arena m) (tid c) =
      Some \<lparr>cn_bound = True, cn_id = tid c, cn_generation = ngeneration (nodes (cm_arena m) ! tid c)\<rparr>"
    by (simp add: handle_to_def arena_get_rep)
  moreover have "live (cm_arena m) (tid c) = Some (ngeneration (nodes (cm_arena m) ! tid c))"
    using rep_tid_live[OF q] by (simp add: live_def)
  ultimately show ?thesis unfolding views_def using h r by (auto simp: handle_for_def)
qed

section \<open>The accessors\<close>

lemma cn_type_views:
  assumes "views m h p" "models m v" "tree_resolve p v = Inr c"
  shows "cn_type (cm_arena m) h = Some (cv_type c)"
proof (rule views_node[OF assms(1,2)])
  fix T fl u q n
  assume u: "tree_resolve p v = Inr (erase u)" "shaped u" "arena_get (cm_arena m) (cn_id h) = Some n" "slotn n q u"
    "cn_valid (cm_arena m) h"
  have c: "c = erase u" using assms(3) u(1) by simp
  show ?thesis using u(3,4,5) by (simp add: c cn_type_def slotn_def cv_type_erase[OF u(2)])
qed

lemma cn_keys_views:
  assumes "views m h p" "models m v" "tree_resolve p v = Inr c"
  shows "cn_keys (cm_arena m) h = (case c of Obj ms \<Rightarrow> Inr (map fst ms)
    | _ \<Rightarrow> fail InvalidType ''keys() requires an Object node'')"
proof (rule views_node[OF assms(1,2)])
  fix T fl u q n
  assume u: "tree_resolve p v = Inr (erase u)" "shaped u" "findLive (cm_arena m) h = Some n" "slotn n q u"
  from u(2) show ?thesis using assms(3) u(1,3,4)
    by (cases rule: shaped_cases) (auto simp: cn_keys_def slotn_def comp_def split_def)
qed

lemma cn_size_views:
  assumes "views m h p" "models m v" "tree_resolve p v = Inr c"
  shows "cn_size (cm_arena m) h = Some (length (cv_kids c))"
proof (rule views_node[OF assms(1,2)])
  fix T fl u q n
  assume u: "tree_resolve p v = Inr (erase u)" "shaped u" "arena_get (cm_arena m) (cn_id h) = Some n" "slotn n q u"
    "cn_valid (cm_arena m) h"
  have c: "c = erase u" using assms(3) u(1) by simp
  from u(2) show ?thesis
  proof (cases rule: shaped_cases)
    case (Scal sc)
    then show ?thesis using u(3,4,5) by (cases sc) (simp_all add: c cn_size_def slotn_def)
  qed (use u(3,4,5) in \<open>simp_all add: c cn_size_def slotn_def\<close>)
qed

lemma cn_scalar_views:
  assumes "views m h p" "models m v" "tree_resolve p v = Inr c"
  shows "cn_scalarValue (cm_arena m) h = (case c of Scal sc \<Rightarrow> Inr sc | _ \<Rightarrow> fail InvalidType ''node is not a scalar'')"
proof (rule views_node[OF assms(1,2)])
  fix T fl u q n
  assume u: "tree_resolve p v = Inr (erase u)" "shaped u" "findLive (cm_arena m) h = Some n" "slotn n q u"
  from u(2) show ?thesis using assms(3) u(1,3,4)
    by (cases rule: shaped_cases) (auto simp: cn_scalarValue_def slotn_def)
qed

lemma cn_child_views:
  assumes "views m h p" "models m v" "tree_resolve p v = Inr (Obj ms)"
  shows "map_of ms k = Some c \<Longrightarrow> \<exists>h'. cn_child (cm_arena m) h k = Some (Inr h') \<and> views m h' (p @ [Key k])"
    "map_of ms k = None \<Longrightarrow> cn_child (cm_arena m) h k = Some (fail NodeNotFound (''no member '' @ [CHR 0x22] @ k @ [CHR 0x22]))"
proof -
  from views_node[OF assms(1,2)] obtain T fl u q n where
    u: "holds m T fl" "it_resolve p T = Inr u" "tree_resolve p v = Inr (erase u)" "shaped u"
    "findLive (cm_arena m) h = Some n" "slotn n q u" by metis
  from u(3,4) assms(3) have t: "ity u = TObject" "ms = map (\<lambda>(k, c). (k, erase c)) (imem u)"
    by (auto elim!: shaped_cases)
  have n: "ntype n = TObject" "nmembers n = map (\<lambda>(k, c). (k, tid c)) (imem u)" using u(6) t(1) by (simp_all add: slotn_def)
  { assume "map_of ms k = Some c"
    then obtain d where d: "map_of (imem u) k = Some d" by (auto simp: t(2) map_of_map_snd)
    from kid_handle[OF u(1,2), of "Key k" d] d t(1) obtain h' where
      "handle_to (cm_arena m) (tid d) = Some h'" "views m h' (p @ [Key k])" by auto
    then show "\<exists>h'. cn_child (cm_arena m) h k = Some (Inr h') \<and> views m h' (p @ [Key k])"
      using d by (simp add: cn_child_def u(5) n find_tid) }
  { assume "map_of ms k = None"
    then have "map_of (imem u) k = None" by (simp add: t(2) map_of_map_snd)
    then show "cn_child (cm_arena m) h k = Some (fail NodeNotFound (''no member '' @ [CHR 0x22] @ k @ [CHR 0x22]))"
      by (simp add: cn_child_def u(5) n find_tid) }
qed

lemma cn_at_views:
  assumes "views m h p" "models m v" "tree_resolve p v = Inr (Arr es)"
  shows "j < length es \<Longrightarrow> \<exists>h'. cn_at (cm_arena m) h j = Some (Inr h') \<and> views m h' (p @ [Index j])"
    "\<not> j < length es \<Longrightarrow> cn_at (cm_arena m) h j = Some (out_of_range j (length es))"
proof -
  from views_node[OF assms(1,2)] obtain T fl u q n where
    u: "holds m T fl" "it_resolve p T = Inr u" "tree_resolve p v = Inr (erase u)" "shaped u"
    "findLive (cm_arena m) h = Some n" "slotn n q u" by metis
  from u(3,4) assms(3) have t: "ity u = TArray" "es = map erase (iel u)"
    by (auto elim!: shaped_cases)
  have n: "ntype n = TArray" "nelements n = map tid (iel u)" using u(6) t(1) by (simp_all add: slotn_def)
  { assume j: "j < length es"
    from kid_handle[OF u(1,2), of "Index j" "iel u ! j"] j t obtain h' where
      "handle_to (cm_arena m) (tid (iel u ! j)) = Some h'" "views m h' (p @ [Index j])" by auto
    then show "\<exists>h'. cn_at (cm_arena m) h j = Some (Inr h') \<and> views m h' (p @ [Index j])"
      using j t by (simp add: cn_at_def u(5) n) }
  { assume "\<not> j < length es"
    then show "cn_at (cm_arena m) h j = Some (out_of_range j (length es))"
      using t by (simp add: cn_at_def u(5) n out_of_range_def) }
qed

lemma foldM_handles:
  assumes "\<forall>(k, i) \<in> set xs. handle_to ar i = Some (H k)"
  shows "foldM (\<lambda>acc (k, i). do { c \<leftarrow> handle_to ar i; Some (acc @ [(k, c)]) }) acc xs =
    Some (acc @ map (\<lambda>(k, i). (k, H k)) xs)"
  using assms by (induction xs arbitrary: acc) auto

lemma cn_members_views:
  assumes "views m h p" "models m v" "tree_resolve p v = Inr (Obj ms)"
  shows "\<exists>H. cn_members (cm_arena m) h = Some (Inr (map (\<lambda>(k, c). (k, H k)) ms)) \<and>
    (\<forall>(k, c) \<in> set ms. views m (H k) (p @ [Key k]))"
proof -
  from views_node[OF assms(1,2)] obtain T fl u q n where
    u: "holds m T fl" "it_resolve p T = Inr u" "tree_resolve p v = Inr (erase u)" "shaped u" "cv_distinct (erase u)"
    "findLive (cm_arena m) h = Some n" "slotn n q u" by metis
  from u(3,4) assms(3) have t: "ity u = TObject" "ms = map (\<lambda>(k, c). (k, erase c)) (imem u)" "Obj ms = erase u"
    by (auto elim!: shaped_cases)
  have n: "ntype n = TObject" "nmembers n = map (\<lambda>(k, c). (k, tid c)) (imem u)" using u(7) t(1) by (simp_all add: slotn_def)
  have "distinct (map fst ms)" using u(5) unfolding t(3)[symmetric] by simp
  then have dist: "distinct (map fst (imem u))" unfolding t(2) by (simp add: comp_def split_def)
  have "\<exists>h'. handle_to (cm_arena m) (tid c) = Some h' \<and> views m h' (p @ [Key k])" if "map_of (imem u) k = Some c" for k c
    using kid_handle[OF u(1,2), of "Key k" c] that t(1) by simp
  then obtain G where G: "\<And>k c. map_of (imem u) k = Some c \<Longrightarrow> handle_to (cm_arena m) (tid c) = Some (G k c) \<and> views m (G k c) (p @ [Key k])"
    by metis
  define H where "H = (\<lambda>k. G k (the (map_of (imem u) k)))"
  have mem: "handle_to (cm_arena m) (tid c) = Some (H k) \<and> views m (H k) (p @ [Key k])" if "(k, c) \<in> set (imem u)" for k c
    using G[of k c] that dist by (simp add: H_def)
  have "cn_members (cm_arena m) h = Some (Inr (map (\<lambda>(k, c). (k, H k)) ms))"
  proof -
    have "\<forall>(k, i) \<in> set (nmembers n). handle_to (cm_arena m) i = Some (H k)" using mem by (auto simp: n)
    from foldM_handles[OF this, of "[]"] show ?thesis
      by (simp add: cn_members_def u(6) n t(2) comp_def split_def)
  qed
  then show ?thesis using mem t(2) by auto
qed

end
