(* ===== verification/Config_Runtime.thy ===== *)
theory Config_Runtime
  imports Migration Node_View
begin

text \<open>
  The orchestrator, \<open>include/configmanager/config_runtime.hpp\<close> and \<open>src/config_runtime.cpp\<close>:
  construction, inspection, repair and the transactional \<open>synchronize\<close>. The recursion of
  \<open>fillMissing\<close> carries the fuel \<open>stack_fuel\<close>, one call per level of the defaults tree.
  \<open>synchronize\<close> returns the outside state, the caller's configuration after the call (also when
  an error or \<open>std::bad_alloc\<close> leaves it) and the result.
\<close>

section \<open>Repair\<close>

definition child_path :: "string \<Rightarrow> string \<Rightarrow> string" where
  "child_path path key = (if path = [] then key else path @ ''.'' @ key)"

text \<open>The loop over the keys; \<open>rec\<close> is the recursive call on a model and a child.\<close>

primrec fillKeys_with ::
    "(cmodel \<Rightarrow> config_node \<Rightarrow> string \<Rightarrow> (cmodel \<times> (error + bool)) option) \<Rightarrow> cmodel \<Rightarrow> cmodel \<Rightarrow>
     config_node \<Rightarrow> string \<Rightarrow> bool \<Rightarrow> string list \<Rightarrow> (cmodel \<times> (error + bool)) option" where
  "fillKeys_with rec model defaults h path added [] = Some (model, Inr added)"
| "fillKeys_with rec model defaults h path added (key # keys) = do {
     let childPath = child_path path key;
     dc \<leftarrow> cn_child (cm_arena defaults) h key;
     (case dc of Inl e \<Rightarrow> Some (model, Inl e)
      | Inr defaultsChild \<Rightarrow> do {
          present \<leftarrow> cm_contains model childPath;
          if \<not> present then do {
            st \<leftarrow> cm_getValue defaults childPath;
            (case st of Inl e \<Rightarrow> Some (model, Inl e)
             | Inr subtree \<Rightarrow> do {
                 (model', written) \<leftarrow> cm_set model childPath subtree;
                 (case written of Inl e \<Rightarrow> Some (model', Inl e)
                  | Inr _ \<Rightarrow> fillKeys_with rec model' defaults h path True keys) }) }
          else do {
            dty \<leftarrow> cn_type (cm_arena defaults) defaultsChild;
            if dty = TObject then do {
              mc \<leftarrow> cm_nodeAt model childPath;
              (case mc of Inl e \<Rightarrow> Some (model, Inl e)
               | Inr modelChild \<Rightarrow> do {
                   mty \<leftarrow> cn_type (cm_arena model) modelChild;
                   if mty = TObject then do {
                     (model', childAdded) \<leftarrow> rec model defaultsChild childPath;
                     (case childAdded of Inl e \<Rightarrow> Some (model', Inl e)
                      | Inr b \<Rightarrow> fillKeys_with rec model' defaults h path (added \<or> b) keys) }
                   else fillKeys_with rec model defaults h path added keys }) }
            else fillKeys_with rec model defaults h path added keys } }) }"

primrec fillMissing :: "nat \<Rightarrow> cmodel \<Rightarrow> cmodel \<Rightarrow> config_node \<Rightarrow> string \<Rightarrow> (cmodel \<times> (error + bool)) option" where
  "fillMissing 0 model defaults h path = None"
| "fillMissing (Suc f) model defaults h path =
     (case cn_keys (cm_arena defaults) h of
        Inl e \<Rightarrow> Some (model, Inl e)
      | Inr keys \<Rightarrow> fillKeys_with (\<lambda>m h' p. fillMissing f m defaults h' p) model defaults h path False keys)"

text \<open>What repair does to the value: copy absent members, descend where both sides are objects.\<close>

fun fill :: "config_value \<Rightarrow> config_value \<Rightarrow> config_value"
  and fill_members :: "(string \<times> config_value) list \<Rightarrow> (string \<times> config_value) list \<Rightarrow> (string \<times> config_value) list" where
  "fill (Obj ds) (Obj ms) = Obj (fill_members ds ms)"
| "fill d v = v"
| "fill_members [] ms = ms"
| "fill_members ((k, d) # ds) ms = (case map_of ms k of
     None \<Rightarrow> fill_members ds (ms @ [(k, d)])
   | Some c \<Rightarrow> fill_members ds (upsert k (fill d c) ms))"

lemma fill_id [simp]: "cv_type d \<noteq> TObject \<Longrightarrow> fill d v = v" "cv_type v \<noteq> TObject \<Longrightarrow> fill d v = v"
  by (cases d; cases v; simp)+

lemma fill_type [simp]: "cv_type (fill d v) = cv_type v"
  by (cases d; cases v; simp)

lemma upsert_same: "map_of ms k = Some c \<Longrightarrow> distinct (map fst ms) \<Longrightarrow> upsert k c ms = ms"
  by (induction k c ms rule: upsert.induct) (auto split: if_splits)

lemma fill_members_distinct: "distinct (map fst ms) \<Longrightarrow> distinct (map fst (fill_members ds ms))"
proof (induction ds arbitrary: ms)
  case (Cons d ds)
  obtain k x where d: "d = (k, x)" by (cases d)
  show ?case
  proof (cases "map_of ms k")
    case None
    then have "distinct (map fst (ms @ [(k, x)]))" using Cons.prems by (auto simp: map_of_eq_None_iff)
    from Cons.IH[OF this] show ?thesis by (simp add: d None)
  next
    case (Some c)
    with Cons d show ?thesis by (simp add: distinct_keys_upsert)
  qed
qed simp

text \<open>What a member becomes: the first default of its key is merged in, later ones find it filled.\<close>

lemma map_of_fill_members:
  "distinct (map fst ds) \<Longrightarrow> map_of (fill_members ds ms) k = (case map_of ds k of
     None \<Rightarrow> map_of ms k
   | Some d \<Rightarrow> Some (case map_of ms k of None \<Rightarrow> d | Some c \<Rightarrow> fill d c))"
proof (induction ds arbitrary: ms)
  case (Cons m ds)
  obtain k' d where m: "m = (k', d)" by (cases m)
  have fresh: "map_of ds k' = None" using Cons.prems m by (simp add: map_of_eq_None_iff)
  show ?case
  proof (cases "map_of ms k'")
    case None
    with Cons m fresh show ?thesis by (auto simp: map_add_def split: option.splits)
  next
    case (Some c)
    with Cons m fresh show ?thesis by (auto simp: map_of_upsert split: option.splits)
  qed
qed (simp split: option.split)

section \<open>Repair never overwrites and is complete\<close>

text \<open>Every node that was there keeps its type; scalars and arrays keep their value.\<close>

lemma fill_keeps:
  "tree_resolve p v = Inr c \<Longrightarrow> wf_at n d \<Longrightarrow>
     \<exists>c'. tree_resolve p (fill d v) = Inr c' \<and> cv_type c' = cv_type c \<and> (cv_type c \<noteq> TObject \<longrightarrow> c' = c)"
proof (induction p v arbitrary: d n rule: tree_resolve.induct)
  case (1 v)
  then show ?case by simp
next
  case (2 k ps ms)
  then obtain x where x: "map_of ms k = Some x" "tree_resolve ps x = Inr c" by (auto simp: no_member_def split: option.splits)
  show ?case
  proof (cases d)
    case (Obj ds)
    have dist: "distinct (map fst ds)" using "2.prems"(2) Obj by simp
    show ?thesis
    proof (cases "map_of ds k")
      case None
      with x Obj show ?thesis by (simp add: map_of_fill_members[OF dist])
    next
      case (Some e)
      have "wf_at (Suc n) e" using "2.prems"(2) Obj map_of_wf[of n ds k e] Some by simp
      from "2.IH"[OF x(1,2) this] Some x Obj show ?thesis by (simp add: map_of_fill_members[OF dist])
    qed
  qed (use "2.prems"(1) in auto)
next
  case (4 j ps es)
  then show ?case by simp
qed (auto simp: traverses_nonobject_def traverses_nonarray_def)

text \<open>
  \<open>covers d w\<close>: every default member is present in \<open>w\<close>, recursively where both are objects.
\<close>

fun covers :: "config_value \<Rightarrow> config_value \<Rightarrow> bool"
  and covers_members :: "(string \<times> config_value) list \<Rightarrow> (string \<times> config_value) list \<Rightarrow> bool" where
  "covers (Obj ds) (Obj ms) \<longleftrightarrow> covers_members ds ms"
| "covers d v \<longleftrightarrow> True"
| "covers_members [] ms \<longleftrightarrow> True"
| "covers_members ((k, d) # ds) ms \<longleftrightarrow> (case map_of ms k of None \<Rightarrow> False | Some c \<Rightarrow> covers d c) \<and> covers_members ds ms"

lemma covers_members_iff:
  "covers_members ds ms \<longleftrightarrow> (\<forall>(k, d) \<in> set ds. \<exists>c. map_of ms k = Some c \<and> covers d c)"
  by (induction ds) (auto split: option.splits)

lemma covers_refl: "cv_distinct d \<Longrightarrow> covers d d"
proof (induction d rule: config_value_kids_induct)
  case (Kids d)
  show ?case
  proof (cases d)
    case (Obj ds)
    have "covers x x" if "(k, x) \<in> set ds" for k x
      using Kids.IH[of x] Kids.prems Obj that by force
    then show ?thesis using Kids.prems Obj by (auto simp: covers_members_iff)
  qed simp_all
qed

lemma fill_covers: "cv_distinct d \<Longrightarrow> covers d (fill d v)"
proof (induction d arbitrary: v rule: config_value_kids_induct)
  case (Kids d)
  show ?case
  proof (cases "\<exists>ds ms. d = Obj ds \<and> v = Obj ms")
    case True
    then obtain ds ms where dv: "d = Obj ds" "v = Obj ms" by blast
    have dist: "distinct (map fst ds)" using Kids.prems dv by simp
    have "\<exists>c. map_of (fill_members ds ms) k = Some c \<and> covers x c" if kx: "(k, x) \<in> set ds" for k x
    proof -
      have m: "map_of ds k = Some x" using kx dist by simp
      have x: "cv_distinct x" "x \<in> set (cv_kids d)" using kx Kids.prems dv by force+
      show ?thesis
        using covers_refl[OF x(1)] Kids.IH[OF x(2,1)] by (simp add: map_of_fill_members[OF dist] m split: option.split)
    qed
    then show ?thesis using dv by (auto simp: covers_members_iff)
  next
    case False
    then show ?thesis by (cases d; cases v) auto
  qed
qed

text \<open>A covered value is left alone, so repair is idempotent.\<close>

lemma fill_covered: "cv_distinct d \<Longrightarrow> cv_distinct v \<Longrightarrow> covers d v \<Longrightarrow> fill d v = v"
proof (induction d arbitrary: v rule: config_value_kids_induct)
  case (Kids d)
  show ?case
  proof (cases "\<exists>ds ms. d = Obj ds \<and> v = Obj ms")
    case True
    then obtain ds ms where dv: "d = Obj ds" "v = Obj ms" by blast
    have "set xs \<subseteq> set ds \<Longrightarrow> fill_members xs ms = ms" for xs
    proof (induction xs)
      case (Cons y xs)
      obtain k x where y: "y = (k, x)" by (cases y)
      with Cons.prems have kx: "(k, x) \<in> set ds" by simp
      with Kids.prems(3) dv obtain c where c: "map_of ms k = Some c" "covers x c" by (auto simp: covers_members_iff)
      have "cv_distinct x" "x \<in> set (cv_kids d)" using kx Kids.prems dv by force+
      moreover have "cv_distinct c" using Kids.prems(2) dv map_of_SomeD[OF c(1)] by auto
      ultimately have "fill x c = c" using Kids.IH c(2) by blast
      moreover have "upsert k c ms = ms" using c(1) Kids.prems(2) dv by (intro upsert_same) auto
      ultimately show ?case using Cons y c(1) by simp
    qed simp
    from this[of ds] show ?thesis using dv by simp
  next
    case False
    then show ?thesis by (cases d; cases v) auto
  qed
qed

lemma fill_idem: "cv_distinct d \<Longrightarrow> cv_distinct (fill d v) \<Longrightarrow> fill d (fill d v) = fill d v"
  by (rule fill_covered[OF _ _ fill_covers])

text \<open>Nodes: repair only grows the tree, by at most the defaults, and not at all when it changes nothing.\<close>

definition mnodes :: "(string \<times> config_value) list \<Rightarrow> nat" where
  "mnodes ms = sum_list (map (cv_nodes \<circ> snd) ms)"

lemma cv_nodes_Obj: "cv_nodes (Obj ms) = Suc (mnodes ms)"
  by (simp add: cv_nodes_kids[of "Obj ms"] mnodes_def)

lemma mnodes_simps [simp]: "mnodes [] = 0" "mnodes ((k, v) # ms) = cv_nodes v + mnodes ms" "mnodes (xs @ ys) = mnodes xs + mnodes ys"
  by (simp_all add: mnodes_def)

lemma mnodes_upsert: "map_of ms k = Some c \<Longrightarrow> mnodes (upsert k x ms) + cv_nodes c = mnodes ms + cv_nodes x"
  by (induction ms) (auto split: if_splits)

definition wf_members :: "nat \<Rightarrow> (string \<times> config_value) list \<Rightarrow> bool" where
  "wf_members n ms \<longleftrightarrow> distinct (map fst ms) \<and> (\<forall>(k, v) \<in> set ms. isAddressableKey k \<and> wf_at n v)"

lemma wf_at_members: "wf_at n (Obj ms) \<longleftrightarrow> n \<le> kMaxTreeDepth \<and> wf_members (Suc n) ms"
  by (simp add: wf_members_def)

lemma wf_members_upsert: "wf_members n ms \<Longrightarrow> isAddressableKey k \<Longrightarrow> wf_at n x \<Longrightarrow> wf_members n (upsert k x ms)"
  using set_upsert_subset[of k x ms] by (fastforce simp: wf_members_def distinct_keys_upsert)

lemma fill_wf:
  "wf_at n d \<Longrightarrow> wf_at n v \<Longrightarrow> wf_at n (fill d v)"
  "wf_members n ds \<Longrightarrow> wf_members n ms \<Longrightarrow> wf_members n (fill_members ds ms)"
proof (induction d v and ds ms arbitrary: n and n rule: fill_fill_members.induct)
  case (1 ds ms)
  then show ?case unfolding fill.simps wf_at_members by blast
next
  case (4 k d ds ms)
  have ds: "wf_members n ds" "isAddressableKey k" "wf_at n d" using "4.prems"(1) by (auto simp: wf_members_def)
  show ?case
  proof (cases "map_of ms k")
    case None
    then have "wf_members n (ms @ [(k, d)])"
      using "4.prems" ds by (auto simp: wf_members_def map_of_eq_None_iff)
    from "4.IH"(1)[OF None ds(1) this] show ?thesis by (simp add: None)
  next
    case (Some c)
    then have "wf_at n c" using "4.prems"(2) by (auto simp: wf_members_def dest: map_of_SomeD)
    from "4.IH"(2)[OF Some ds(3) this] have "wf_members n (upsert k (fill d c) ms)"
      by (rule wf_members_upsert[OF "4.prems"(2) ds(2)])
    from "4.IH"(3)[OF Some ds(1) this] show ?thesis by (simp add: Some)
  qed
qed simp_all

lemma fill_nodes:
  "wf_at n d \<Longrightarrow> wf_at n v \<Longrightarrow> cv_nodes v \<le> cv_nodes (fill d v) \<and> cv_nodes (fill d v) \<le> cv_nodes v + cv_nodes d \<and>
     (cv_nodes (fill d v) = cv_nodes v \<longrightarrow> fill d v = v)"
  "wf_members n ds \<Longrightarrow> wf_members n ms \<Longrightarrow> mnodes ms \<le> mnodes (fill_members ds ms) \<and>
     mnodes (fill_members ds ms) \<le> mnodes ms + mnodes ds \<and>
     (mnodes (fill_members ds ms) = mnodes ms \<longrightarrow> fill_members ds ms = ms)"
proof (induction d v and ds ms arbitrary: n and n rule: fill_fill_members.induct)
  case (1 ds ms)
  then have "wf_members (Suc n) ds" "wf_members (Suc n) ms" by (auto simp only: wf_at_members)
  from "1.IH"[OF this] show ?case by (auto simp: cv_nodes_Obj simp del: cv_nodes.simps(2))
next
  case (4 k d ds ms)
  have ds: "wf_members n ds" "isAddressableKey k" "wf_at n d" using "4.prems"(1) by (auto simp: wf_members_def)
  show ?case
  proof (cases "map_of ms k")
    case None
    then have "wf_members n (ms @ [(k, d)])"
      using "4.prems" ds by (auto simp: wf_members_def map_of_eq_None_iff)
    from "4.IH"(1)[OF None ds(1) this] have "mnodes ms + cv_nodes d \<le> mnodes (fill_members ds (ms @ [(k, d)]))"
      "mnodes (fill_members ds (ms @ [(k, d)])) \<le> mnodes ms + cv_nodes d + mnodes ds" by simp_all
    with cv_nodes_pos[of d] have "mnodes ms < mnodes (fill_members ds (ms @ [(k, d)]))"
      "mnodes (fill_members ds (ms @ [(k, d)])) \<le> mnodes ms + (cv_nodes d + mnodes ds)" by linarith+
    then show ?thesis by (simp add: None)
  next
    case (Some c)
    then have c: "wf_at n c" using "4.prems"(2) by (auto simp: wf_members_def dest: map_of_SomeD)
    have m: "wf_members n (upsert k (fill d c) ms)"
      by (rule wf_members_upsert[OF "4.prems"(2) ds(2) fill_wf(1)[OF ds(3) c]])
    have "fill d c = c \<Longrightarrow> upsert k (fill d c) ms = ms"
      using upsert_same[OF Some] "4.prems"(2) by (simp add: wf_members_def)
    then show ?thesis
      using "4.IH"(2)[OF Some ds(3) c] "4.IH"(3)[OF Some ds(1) m] mnodes_upsert[OF Some, of "fill d c"]
      by (auto simp: Some)
  qed
qed simp_all

section \<open>Replacing subtrees\<close>

lemma resolve_put: "tree_resolve p v = Inr c \<Longrightarrow> tree_resolve p (tree_put p x v) = Inr x"
  by (induction p v rule: tree_resolve.induct)
    (auto simp: no_member_def out_of_range_def traverses_nonobject_def traverses_nonarray_def map_of_upsert
      split: option.splits if_splits)

lemma upsert_upsert: "upsert k x (upsert k y ms) = upsert k x ms"
  by (induction k y ms rule: upsert.induct) auto

lemma put_put: "tree_put p x (tree_put p y v) = tree_put p x v"
  by (induction p y v rule: tree_put.induct) (auto simp: map_of_upsert upsert_upsert split: option.splits)

lemma put_same: "tree_resolve p v = Inr c \<Longrightarrow> cv_distinct v \<Longrightarrow> tree_put p c v = v"
proof (induction p v rule: tree_resolve.induct)
  case (2 k ps ms)
  then obtain x where x: "map_of ms k = Some x" "tree_resolve ps x = Inr c" by (auto simp: no_member_def split: option.splits)
  have "cv_distinct x" "distinct (map fst ms)" using 2(3) map_of_SomeD[OF x(1)] by auto
  with "2.IH"[OF x] x(1) show ?case by (simp add: upsert_same)
next
  case (4 j ps es)
  then have "j < length es" by (auto simp: out_of_range_def split: if_splits)
  with 4 show ?case by simp
qed (auto simp: traverses_nonobject_def traverses_nonarray_def)

lemma put_append: "tree_resolve p v = Inr c \<Longrightarrow> tree_put (p @ q) x v = tree_put p (tree_put q x c) v"
  by (induction p v rule: tree_resolve.induct)
    (auto simp: no_member_def out_of_range_def traverses_nonobject_def traverses_nonarray_def
      split: option.splits if_splits)

lemma sum_list_update: "j < length xs \<Longrightarrow> sum_list (xs[j := x]) + xs ! j = sum_list xs + (x :: nat)"
  by (induction xs arbitrary: j) (auto split: nat.split)

lemma nodes_put: "tree_resolve p v = Inr c \<Longrightarrow> cv_nodes (tree_put p x v) + cv_nodes c = cv_nodes v + cv_nodes x"
proof (induction p v rule: tree_resolve.induct)
  case (2 k ps ms)
  then obtain y where y: "map_of ms k = Some y" "tree_resolve ps y = Inr c" by (auto simp: no_member_def split: option.splits)
  from "2.IH"[OF y] mnodes_upsert[OF y(1), of "tree_put ps x y"] show ?case
    by (simp add: y(1) cv_nodes_Obj del: cv_nodes.simps(2))
next
  case (4 j ps es)
  then have j: "j < length es" by (auto simp: out_of_range_def split: if_splits)
  then have "sum_list (map cv_nodes (es[j := tree_put ps x (es ! j)])) + cv_nodes (es ! j)
      = sum_list (map cv_nodes es) + cv_nodes (tree_put ps x (es ! j))"
    using sum_list_update[of j "map cv_nodes es" "cv_nodes (tree_put ps x (es ! j))"] by (simp add: map_update)
  with 4 j show ?case by simp
qed (auto simp: traverses_nonobject_def traverses_nonarray_def)

lemma models_resolve_wf: "models m v \<Longrightarrow> tree_resolve p v = Inr c \<Longrightarrow> wf_at (length p) c"
  using tree_resolve_wf[of p v c 0] models_wf[of m v] by (simp add: wf_model_value_def)

section \<open>\<open>fillMissing\<close> implements \<open>fill\<close>\<close>

definition at_path :: "string \<Rightarrow> path_segment list \<Rightarrow> bool" where
  "at_path path p \<longleftrightarrow> (if path = [] then p = [] else cp_parse path = Inr p)"

lemma child_path_parse: "at_path path p \<Longrightarrow> isAddressableKey k \<Longrightarrow> cp_parse (child_path path k) = Inr (p @ [Key k])"
  using cp_parse_key[of k] cp_parse_join[of path p k]
  by (simp add: at_path_def child_path_def split: if_splits)

lemma child_path_at: "at_path path p \<Longrightarrow> isAddressableKey k \<Longrightarrow> at_path (child_path path k) (p @ [Key k])"
  using child_path_parse[of path p k] by (auto simp: at_path_def child_path_def isAddressableKey_iff)

definition fills :: "cmodel \<Rightarrow> path_segment list \<Rightarrow> string \<Rightarrow>
    (cmodel \<Rightarrow> config_node \<Rightarrow> string \<Rightarrow> (cmodel \<times> (error + bool)) option) \<Rightarrow> config_value \<Rightarrow> bool" where
  "fills dm p path f d \<longleftrightarrow> (\<forall>m v h c. models m v \<longrightarrow> views dm h p \<longrightarrow> tree_resolve p v = Inr c \<longrightarrow> cv_type c = TObject \<longrightarrow>
     room_for v d \<longrightarrow> (\<exists>m'. f m h path = Some (m', Inr (fill d c \<noteq> c)) \<and> models m' (tree_put p (fill d c) v)))"

lemma fillKeys_fills:
  assumes dm: "models dm dv" "tree_resolve p dv = Inr (Obj ds)" "views dm h p" and path: "at_path path p"
    and rec: "\<And>k ds'. (k, Obj ds') \<in> set ds \<Longrightarrow> fills dm (p @ [Key k]) (child_path path k) rec (Obj ds')"
  shows "set ds' \<subseteq> set ds \<Longrightarrow> distinct (map fst ds') \<Longrightarrow> models m v \<Longrightarrow> tree_resolve p v = Inr (Obj ms) \<Longrightarrow>
    cv_nodes v + mnodes ds' + kMaxTreeDepth \<le> kNodeIdNone \<Longrightarrow>
    \<exists>m'. fillKeys_with rec m dm h path added (map fst ds') = Some (m', Inr (added \<or> fill_members ds' ms \<noteq> ms)) \<and>
      models m' (tree_put p (Obj (fill_members ds' ms)) v)"
proof (induction ds' arbitrary: m v ms added)
  case Nil
  have "cv_distinct v" using models_wf[OF Nil(3)] by (simp add: wf_model_value_def wf_at_validate)
  with Nil show ?case by (simp add: put_same)
next
  case (Cons y ds')
  obtain k d where y: "y = (k, d)" by (cases y)
  have kd: "(k, d) \<in> set ds" "k \<notin> fst ` set ds'" using Cons.prems(1,2) y by auto
  have wds: "wf_at (length p) (Obj ds)"
    by (rule models_resolve_wf[OF dm(1,2)])
  have wms: "wf_at (length p) (Obj ms)"
    by (rule models_resolve_wf[OF Cons.prems(3,4)])
  have k: "isAddressableKey k" "wf_at (Suc (length p)) d" "map_of ds k = Some d" using wds kd(1) by auto
  note cp = child_path_parse[OF path k(1)]
  have mem: "wf_members (Suc (length p)) ms" "wf_members (Suc (length p)) ds'"
    using wms wds Cons.prems(1,2) y unfolding wf_at_members by (auto simp: wf_members_def)
  from cn_child_views(1)[OF dm(3,1,2) k(3)] obtain h' where
    h': "cn_child (cm_arena dm) h k = Some (Inr h')" "views dm h' (p @ [Key k])" by blast
  have res: "tree_resolve (p @ [Key k]) dv = Inr d" using dm(2) k(3) by (simp add: tree_resolve_append)
  have has: "cm_contains m (child_path path k) = Some (map_of ms k \<noteq> None)"
    using Cons.prems(4) by (simp add: contains_models[OF Cons.prems(3)] cp tree_resolve_append no_member_def split: option.split)
  have IH: "\<exists>m'. fillKeys_with rec m1 dm h path b (map fst ds') = Some (m', Inr (b \<or> fill_members ds' ms1 \<noteq> ms1)) \<and>
      models m' (tree_put p (Obj (fill_members ds' ms1)) v)"
    if "models m1 (tree_put p (Obj ms1) v)" "mnodes ms1 \<le> mnodes ms + cv_nodes d" for m1 ms1 b
  proof -
    let ?v = "tree_put p (Obj ms1) v"
    have "cv_nodes ?v + mnodes ds' + kMaxTreeDepth \<le> kNodeIdNone"
      using nodes_put[OF Cons.prems(4), of "Obj ms1"] that(2) Cons.prems(5) y
      by (simp add: cv_nodes_Obj del: cv_nodes.simps(2))
    from Cons.IH[OF _ _ that(1) resolve_put[OF Cons.prems(4)] this, of b] Cons.prems(1,2) show ?thesis
      by (simp add: put_put)
  qed
  show ?case
  proof (cases "map_of ms k")
    case None
    have "room_for v d" using Cons.prems(5) y by (simp add: room_for_def)
    from cs.put_new_member[OF Cons.prems(3) _ this cp Cons.prems(4) _ k(2)] None k(2) obtain m1 where
      m1: "cm_set m (child_path path k) d = Some (m1, Inr ())" "models m1 (tree_put p (Obj (ms @ [(k, d)])) v)"
      by (auto simp: map_of_eq_None_iff wf_at_validate)
    have g: "cm_getValue dm (child_path path k) = Some (Inr d)"
      by (simp add: getValue_models[OF dm(1)] cp res)
    from IH[OF m1(2), of True] obtain m' where
      m': "fillKeys_with rec m1 dm h path True (map fst ds') = Some (m', Inr True)"
      "models m' (tree_put p (Obj (fill_members ds' (ms @ [(k, d)]))) v)" by auto
    have "wf_members (Suc (length p)) (ms @ [(k, d)])"
      using mem(1) k None by (auto simp: wf_members_def map_of_eq_None_iff)
    from fill_nodes(2)[OF mem(2) this] have "fill_members ds' (ms @ [(k, d)]) \<noteq> ms"
      using cv_nodes_pos[of d] by auto
    then show ?thesis using m1(1) g h'(1) has m' by (auto simp: y None)
  next
    case (Some c)
    have c: "wf_at (Suc (length p)) c" using wms Some by (auto dest: map_of_SomeD)
    have up: "upsert k c ms = ms" using upsert_same[OF Some] wms by simp
    have resv: "tree_resolve (p @ [Key k]) v = Inr c" using Cons.prems(4) Some by (simp add: tree_resolve_append)
    have ty: "cn_type (cm_arena dm) h' = Some (cv_type d)" by (rule cn_type_views[OF h'(2) dm(1) res])
    from nodeAt_ok[OF Cons.prems(3) cp resv] obtain h2 where
      h2: "cm_nodeAt m (child_path path k) = Some (Inr h2)" "views m h2 (p @ [Key k])" by blast
    have ty2: "cn_type (cm_arena m) h2 = Some (cv_type c)" by (rule cn_type_views[OF h2(2) Cons.prems(3) resv])
    show ?thesis
    proof (cases "cv_type d = TObject \<and> cv_type c = TObject")
      case False
      then have "fill d c = c" by auto
      moreover have "models m (tree_put p (Obj ms) v)"
        using Cons.prems(3) put_same[OF Cons.prems(4)] models_wf[OF Cons.prems(3)] by (simp add: wf_model_value_def wf_at_validate)
      from IH[OF this, of added] obtain m' where
        "fillKeys_with rec m dm h path added (map fst ds') = Some (m', Inr (added \<or> fill_members ds' ms \<noteq> ms))"
        "models m' (tree_put p (Obj (fill_members ds' ms)) v)" by auto
      ultimately show ?thesis using False h'(1) has ty h2(1) ty2 up by (auto simp: y Some Let_def)
    next
      case True
      then obtain ds1 where d: "d = Obj ds1" by (auto simp: cv_type_Object_iff)
      have "room_for v d" using Cons.prems(5) y by (simp add: room_for_def)
      with rec[of k ds1] kd(1) d Cons.prems(3) h'(2) resv True obtain m1 where
        m1: "rec m h' (child_path path k) = Some (m1, Inr (fill d c \<noteq> c))" "models m1 (tree_put (p @ [Key k]) (fill d c) v)"
        unfolding fills_def by blast
      let ?ms = "upsert k (fill d c) ms"
      have v1: "models m1 (tree_put p (Obj ?ms) v)"
        using m1(2) put_append[OF Cons.prems(4), of "[Key k]" "fill d c"] Some by simp
      note nd = fill_nodes(1)[OF k(2) c] and nu = mnodes_upsert[OF Some, of "fill d c"]
      have "mnodes ?ms \<le> mnodes ms + cv_nodes d" using nd nu by linarith
      from IH[OF v1 this, of "added \<or> fill d c \<noteq> c"] obtain m' where
        m': "fillKeys_with rec m1 dm h path (added \<or> fill d c \<noteq> c) (map fst ds') =
          Some (m', Inr ((added \<or> fill d c \<noteq> c) \<or> fill_members ds' ?ms \<noteq> ?ms))"
        "models m' (tree_put p (Obj (fill_members ds' ?ms)) v)" by blast
      have "wf_members (Suc (length p)) ?ms" by (rule wf_members_upsert[OF mem(1) k(1) fill_wf(1)[OF k(2) c]])
      from fill_nodes(2)[OF mem(2) this] nd nu up
      have "(fill d c \<noteq> c \<or> fill_members ds' ?ms \<noteq> ?ms) \<longleftrightarrow> fill_members ds' ?ms \<noteq> ms"
        by (cases "fill d c = c") auto
      then show ?thesis using True h'(1) has ty h2(1) ty2 m1(1) m' by (simp add: y Some Let_def disj_assoc)
    qed
  qed
qed

lemma fillMissing_fills:
  "models dm dv \<Longrightarrow> tree_resolve p dv = Inr d \<Longrightarrow> cv_type d = TObject \<Longrightarrow> at_path path p \<Longrightarrow>
     kMaxTreeDepth < length p + n \<Longrightarrow> fills dm p path (\<lambda>m h q. fillMissing n m dm h q) d"
proof (induction n arbitrary: p path d)
  case 0
  have "wf_at (length p) d" by (rule models_resolve_wf[OF 0(1,2)])
  then show ?case using 0(5) wf_at_depth by fastforce
next
  case (Suc n)
  then obtain ds where d: "d = Obj ds" by (auto simp: cv_type_Object_iff)
  have wds: "wf_at (length p) (Obj ds)"
    using models_resolve_wf[OF Suc.prems(1,2)] d by simp
  have rec: "fills dm (p @ [Key k]) (child_path path k) (\<lambda>m h q. fillMissing n m dm h q) (Obj ds')"
    if "(k, Obj ds') \<in> set ds" for k ds'
  proof (rule Suc.IH[OF Suc.prems(1)])
    show "tree_resolve (p @ [Key k]) dv = Inr (Obj ds')"
      using Suc.prems(2) d that wds by (simp add: tree_resolve_append)
    show "at_path (child_path path k) (p @ [Key k])"
      using child_path_at[OF Suc.prems(4)] wds that by auto
  qed (use Suc.prems(5) in simp_all)
  show ?case unfolding fills_def
  proof (intro allI impI)
    fix m v h c
    assume m: "models m v" and h: "views dm h p" and c: "tree_resolve p v = Inr c" "cv_type c = TObject" and room: "room_for v d"
    then obtain ms where ms: "c = Obj ms" by (auto simp: cv_type_Object_iff)
    have r: "cv_nodes v + mnodes ds + kMaxTreeDepth \<le> kNodeIdNone"
      using room d by (simp add: room_for_def cv_nodes_Obj del: cv_nodes.simps(2))
    have keys: "cn_keys (cm_arena dm) h = Inr (map fst ds)"
      using cn_keys_views[OF h Suc.prems(1,2)] d by simp
    from fillKeys_fills[OF Suc.prems(1) Suc.prems(2)[unfolded d] h Suc.prems(4) rec subset_refl _ m c(1)[unfolded ms] r, of False]
      wds obtain m' where
      "fillKeys_with (\<lambda>m h q. fillMissing n m dm h q) m dm h path False (map fst ds) =
        Some (m', Inr (fill_members ds ms \<noteq> ms))" "models m' (tree_put p (Obj (fill_members ds ms)) v)"
      by auto
    then show "\<exists>m'. fillMissing (Suc n) m dm h path = Some (m', Inr (fill d c \<noteq> c)) \<and> models m' (tree_put p (fill d c) v)"
      by (simp add: keys d ms)
  qed
qed

section \<open>The runtime\<close>

datatype sync_status = InSync | UpgradeRequired | DowngradeRequired

record sync_state =
  ss_current :: version_id
  ss_target :: version_id
  ss_status :: sync_status

record 's runtime =
  rt_catalog :: "'s catalog"
  rt_registry :: "'s registry"

definition rt_create :: "'s catalog \<Rightarrow> 's registry \<Rightarrow> error + 's runtime" where
  "rt_create cat reg =
     (if cat_versions cat = [] then fail InvalidVersion ''catalog has no registered versions''
      else (case reg_validate reg cat of Inl e \<Rightarrow> Inl e | Inr _ \<Rightarrow> Inr \<lparr>rt_catalog = cat, rt_registry = reg\<rparr>))"

definition inspect :: "vconfig \<Rightarrow> version_id \<Rightarrow> sync_state" where
  "inspect cfg supported = \<lparr>ss_current = vc_version cfg, ss_target = supported,
     ss_status = (if vc_version cfg < supported then UpgradeRequired
                  else if vc_version cfg > supported then DowngradeRequired else InSync)\<rparr>"

definition supportsVersion :: "'s runtime \<Rightarrow> version_id \<Rightarrow> bool" where
  "supportsVersion rt v \<longleftrightarrow> cat_contains (rt_catalog rt) v"

definition rt_repair :: "'s runtime \<Rightarrow> 's \<Rightarrow> cmodel \<Rightarrow> version_id \<Rightarrow> ('s \<times> cmodel \<times> (error + bool) flow) option" where
  "rt_repair rt s model target = do {
     (s', df) \<leftarrow> cat_createDefault (rt_catalog rt) target s;
     (case df of
        Bad_alloc \<Rightarrow> Some (s', model, Bad_alloc)
      | Ret (Inl e) \<Rightarrow> Some (s', model, Ret (Inl e))
      | Ret (Inr defaults) \<Rightarrow> do {
          h \<leftarrow> cm_root defaults;
          (model', r) \<leftarrow> fillMissing stack_fuel model defaults h [];
          Some (s', model', Ret r) }) }"

text \<open>The step of \<open>synchronize\<close> from the repair on, given the working copy.\<close>

definition sync_repair ::
    "'s runtime \<Rightarrow> 's \<Rightarrow> vconfig \<Rightarrow> version_id \<Rightarrow> vconfig \<Rightarrow> bool \<Rightarrow> ('s \<times> vconfig \<times> (error + sync_status) flow) option" where
  "sync_repair rt s cfg supported working migrated = do {
     (s', model', rep) \<leftarrow> rt_repair rt s (vc_model working) supported;
     (case rep of
        Bad_alloc \<Rightarrow> Some (s', cfg, Bad_alloc)
      | Ret (Inl e) \<Rightarrow> Some (s', cfg, Ret (Inl e))
      | Ret (Inr repaired) \<Rightarrow>
          Some (s', if migrated \<or> repaired then working\<lparr>vc_model := model'\<rparr> else cfg, Ret (Inr InSync))) }"

definition synchronize ::
    "'s runtime \<Rightarrow> 's \<Rightarrow> vconfig \<Rightarrow> version_id \<Rightarrow> ('s \<times> vconfig \<times> (error + sync_status) flow) option" where
  "synchronize rt s cfg supported =
     (if \<not> cat_contains (rt_catalog rt) supported
      then Some (s, cfg, Ret (fail InvalidVersion (''supported version '' @ vstr supported @ '' is not registered'')))
      else if ss_status (inspect cfg supported) = DowngradeRequired then Some (s, cfg, Ret (Inr DowngradeRequired))
      else if ss_status (inspect cfg supported) = UpgradeRequired \<and> \<not> cat_contains (rt_catalog rt) (vc_version cfg)
      then Some (s, cfg, Ret (fail InvalidVersion (''persisted version '' @ vstr (vc_version cfg) @ '' is not registered'')))
      else (let working = \<lparr>vc_version = vc_version cfg, vc_model = cm_clone (vc_model cfg)\<rparr> in
        if ss_status (inspect cfg supported) = UpgradeRequired then do {
          (s1, working1, outcome) \<leftarrow> migrate (rt_catalog rt) (rt_registry rt) s working supported;
          (case outcome of
             Bad_alloc \<Rightarrow> Some (s1, cfg, Bad_alloc)
           | Ret (Inl e) \<Rightarrow> Some (s1, cfg, Ret (Inl e))
           | Ret (Inr _) \<Rightarrow> sync_repair rt s1 cfg supported working1 True) }
        else sync_repair rt s cfg supported working False))"

definition synchronize_latest ::
    "'s runtime \<Rightarrow> 's \<Rightarrow> vconfig \<Rightarrow> ('s \<times> vconfig \<times> (error + sync_status) flow) option" where
  "synchronize_latest rt s cfg = (case latestVersion (rt_catalog rt) of
     Inl e \<Rightarrow> Some (s, cfg, Ret (Inl e))
   | Inr latest \<Rightarrow> synchronize rt s cfg latest)"

definition rt_createDefault :: "'s runtime \<Rightarrow> version_id \<Rightarrow> 's \<Rightarrow> ('s \<times> (error + vconfig) flow) option" where
  "rt_createDefault rt v s = do {
     (s', df) \<leftarrow> cat_createDefault (rt_catalog rt) v s;
     Some (s', case df of Bad_alloc \<Rightarrow> Bad_alloc | Ret r \<Rightarrow> Ret (map_sum id (\<lambda>m. \<lparr>vc_version = v, vc_model = m\<rparr>) r)) }"

text \<open>What \<open>create\<close> establishes.\<close>

definition rt_inv :: "'s runtime \<Rightarrow> bool" where
  "rt_inv rt \<longleftrightarrow> cat_inv (rt_catalog rt) \<and> reg_inv (rt_registry rt) \<and> rt_catalog rt \<noteq> [] \<and>
     reg_validate (rt_registry rt) (rt_catalog rt) = Inr ()"

lemma rt_create_inv: "cat_inv cat \<Longrightarrow> reg_inv reg \<Longrightarrow> rt_create cat reg = Inr rt \<Longrightarrow>
    rt_inv rt \<and> rt_catalog rt = cat \<and> rt_registry rt = reg"
  by (auto simp: rt_create_def rt_inv_def cat_versions_def split: if_splits sum.splits)

lemma rt_create_iff: "cat_inv cat \<Longrightarrow> (\<exists>rt. rt_create cat reg = Inr rt) \<longleftrightarrow>
    cat \<noteq> [] \<and> (\<lambda>e. (e_from e, e_to e)) ` set reg = adjacent cat"
  using validate_iff[of cat reg] by (auto simp: rt_create_def cat_versions_def split: sum.split)

section \<open>Transactionality\<close>

text \<open>Whatever the callbacks do: unless the call reports \<open>InSync\<close>, the configuration is as it was.\<close>

lemma sync_repair_transactional:
  "sync_repair rt s cfg v working migrated = Some (s', cfg', r) \<Longrightarrow> r \<noteq> Ret (Inr InSync) \<Longrightarrow> cfg' = cfg"
  by (auto simp: sync_repair_def split: Option.bind_splits flow.splits sum.splits prod.splits)

lemma sync_transactional:
  "synchronize rt s cfg v = Some (s', cfg', r) \<Longrightarrow> r \<noteq> Ret (Inr InSync) \<Longrightarrow> cfg' = cfg"
  by (auto simp: synchronize_def Let_def sync_repair_transactional
      split: Option.bind_splits flow.splits sum.splits prod.splits if_splits)

lemma sync_latest_transactional:
  "synchronize_latest rt s cfg = Some (s', cfg', r) \<Longrightarrow> r \<noteq> Ret (Inr InSync) \<Longrightarrow> cfg' = cfg"
  by (auto simp: synchronize_latest_def sync_transactional split: sum.splits)

section \<open>What a successful call commits\<close>

text \<open>The factory of a version, as the catalog runs it in state \<open>s\<close>.\<close>

definition default_of :: "'s catalog \<Rightarrow> version_id \<Rightarrow> 's \<Rightarrow> ('s \<times> factory_outcome) option" where
  "default_of cat v s = (if cat_at cat (findEntry cat v) v
     then map_option (\<lambda>f. f s) (va_factory (cat ! findEntry cat v)) else None)"

definition good_default :: "config_value \<Rightarrow> config_value \<Rightarrow> bool" where
  "good_default v d \<longleftrightarrow> wf_model_value d \<and> room_for v d \<and> cv_nodes d < kNodeIdNone"

lemma createDefault_ok:
  assumes "default_of cat v s = Some (s', FReturns d)" "wf_model_value d" "cv_nodes d < kNodeIdNone"
  shows "\<exists>m. cat_createDefault cat v s = Some (s', Ret (Inr m)) \<and> models m d"
proof -
  have "spec_fromValue d = Inr d" "cv_distinct d"
    using assms(2) by (simp_all add: spec_fromValue_def wf_model_value_def wf_at_validate)
  with fromValue_refines[OF this(2) assms(3)] obtain m where "cm_fromValue d = Some (Inr m)" "models m d" by auto
  then show ?thesis using assms(1)
    by (auto simp: default_of_def cat_createDefault_def Let_def split: if_splits)
qed

lemma repair_ok:
  assumes "models m v" "default_of (rt_catalog rt) target s = Some (s', FReturns d)" "good_default v d"
  shows "\<exists>m'. rt_repair rt s m target = Some (s', m', Ret (Inr (fill d v \<noteq> v))) \<and> models m' (fill d v)"
proof -
  from createDefault_ok[OF assms(2)] assms(3) obtain dm where
    dm: "cat_createDefault (rt_catalog rt) target s = Some (s', Ret (Inr dm))" "models dm d"
    by (auto simp: good_default_def)
  from root_views[OF dm(2)] obtain h where h: "cm_root dm = Some h" "views dm h []" by blast
  have ty: "cv_type d = TObject" "cv_type v = TObject"
    using models_wf[OF dm(2)] models_wf[OF assms(1)] by (simp_all add: wf_model_value_def)
  have "fills dm [] [] (\<lambda>m h q. fillMissing stack_fuel m dm h q) d"
    by (rule fillMissing_fills[OF dm(2) _ ty(1)]) (simp_all add: at_path_def stack_fuel_def)
  from this[unfolded fills_def, rule_format, OF assms(1) h(2) _ ty(2), of] assms(3) obtain m' where
    "fillMissing stack_fuel m dm h [] = Some (m', Inr (fill d v \<noteq> v))" "models m' (fill d v)"
    by (auto simp: good_default_def)
  then show ?thesis using dm(1) h(1) by (simp add: rt_repair_def)
qed

lemma sync_repair_ok:
  assumes "models (vc_model working) v" "default_of (rt_catalog rt) supported s = Some (s', FReturns d)" "good_default v d"
  shows "\<exists>m'. sync_repair rt s cfg supported working migrated =
      Some (s', if migrated \<or> fill d v \<noteq> v then working\<lparr>vc_model := m'\<rparr> else cfg, Ret (Inr InSync)) \<and> models m' (fill d v)"
  using repair_ok[OF assms] by (auto simp: sync_repair_def)

text \<open>At the supported version already: only missing defaults are added, and nothing is committed if none is.\<close>

lemma sync_current:
  assumes "cat_contains (rt_catalog rt) (vc_version cfg)" "models (vc_model cfg) v"
    and "default_of (rt_catalog rt) (vc_version cfg) s = Some (s', FReturns d)" "good_default v d"
  shows "\<exists>cfg'. synchronize rt s cfg (vc_version cfg) = Some (s', cfg', Ret (Inr InSync)) \<and>
    vc_version cfg' = vc_version cfg \<and> models (vc_model cfg') (fill d v) \<and> (fill d v = v \<longrightarrow> cfg' = cfg)"
proof -
  let ?w = "\<lparr>vc_version = vc_version cfg, vc_model = cm_clone (vc_model cfg)\<rparr>"
  from sync_repair_ok[of ?w v rt "vc_version cfg" s s' d cfg False] assms obtain m' where
    "sync_repair rt s cfg (vc_version cfg) ?w False =
      Some (s', if fill d v \<noteq> v then ?w\<lparr>vc_model := m'\<rparr> else cfg, Ret (Inr InSync))" "models m' (fill d v)" by auto
  then show ?thesis using assms(1,2) by (auto simp: synchronize_def inspect_def Let_def)
qed

lemma chain_to_last: "cat_inv cat \<Longrightarrow> b \<in> set (cat_versions cat) \<Longrightarrow> a < b \<Longrightarrow> last (a # chain_to cat a b) = b"
proof -
  assume inv: "cat_inv cat" and b: "b \<in> set (cat_versions cat)" and lt: "a < b"
  from b obtain lo hi where s: "cat_versions cat = lo @ b # hi" by (meson split_list)
  have "\<forall>x \<in> set hi. b < x" using inv unfolding cat_inv_def s by (auto simp: sorted_wrt_append)
  then have "filter (\<lambda>v. a < v \<and> v \<le> b) hi = []" by (auto simp: filter_empty_conv)
  then show ?thesis using lt by (simp add: chain_to_def s)
qed

text \<open>However the chain is split, only the whole of it ends at the target.\<close>

lemma chain_split_last:
  assumes inv: "cat_inv cat" and b: "b \<in> set (cat_versions cat)" "a < b" and c: "chain_to cat a b = xs @ ys"
  shows "ys = [] \<longleftrightarrow> last (a # xs) = b"
proof -
  have last: "last (a # xs @ ys) = b" using chain_to_last[OF inv b] c by simp
  have "distinct (a # chain_to cat a b)"
    using inv unfolding chain_to_def cat_inv_def by (auto simp: strict_sorted_iff intro!: distinct_filter)
  then have "ys \<noteq> [] \<Longrightarrow> last (a # xs) \<noteq> last ys" unfolding c
    by (metis Int_iff append_Cons distinct_append empty_iff last_in_set list.distinct(1))
  then show ?thesis using last by (cases "ys = []") auto
qed

text \<open>An upgrade: the chain of migrations runs on a copy, then repair, then one commit.\<close>

lemma sync_upgrade:
  assumes rt: "rt_inv rt" and v: "vc_version cfg \<in> set (cat_versions (rt_catalog rt))"
    "supported \<in> set (cat_versions (rt_catalog rt))" "vc_version cfg < supported"
    and run: "run_chain (rt_registry rt) (vc_version cfg) (chain_to (rt_catalog rt) (vc_version cfg) supported) s
      (vc_model cfg) = (s1, cfg1, r)"
  shows "r = Bad_alloc \<Longrightarrow> synchronize rt s cfg supported = Some (s1, cfg, Bad_alloc)"
    "r = Ret (Inl e) \<Longrightarrow> synchronize rt s cfg supported = Some (s1, cfg, Ret (Inl e))"
    "r = Ret (Inr ()) \<Longrightarrow> models (vc_model cfg1) v1 \<Longrightarrow>
       default_of (rt_catalog rt) supported s1 = Some (s', FReturns d) \<Longrightarrow> good_default v1 d \<Longrightarrow>
       \<exists>cfg'. synchronize rt s cfg supported = Some (s', cfg', Ret (Inr InSync)) \<and>
         vc_version cfg' = supported \<and> models (vc_model cfg') (fill d v1)"
proof -
  have inv: "cat_inv (rt_catalog rt)" "reg_inv (rt_registry rt)" "reg_validate (rt_registry rt) (rt_catalog rt) = Inr ()"
    using rt by (simp_all add: rt_inv_def)
  let ?w = "\<lparr>vc_version = vc_version cfg, vc_model = cm_clone (vc_model cfg)\<rparr>"
  have m: "migrate (rt_catalog rt) (rt_registry rt) s ?w supported = Some (s1, cfg1, r)"
    using migrate_chain[OF inv v(2), of ?w s] v(1,3) run by simp
  have st: "ss_status (inspect cfg supported) = UpgradeRequired" using v(3) by (simp add: inspect_def)
  have s: "synchronize rt s cfg supported = (case r of Bad_alloc \<Rightarrow> Some (s1, cfg, Bad_alloc)
     | Ret (Inl e) \<Rightarrow> Some (s1, cfg, Ret (Inl e)) | Ret (Inr _) \<Rightarrow> sync_repair rt s1 cfg supported cfg1 True)"
    using v(1,2) st m by (simp add: synchronize_def Let_def cat_contains_iff[OF inv(1)])
  show "r = Bad_alloc \<Longrightarrow> synchronize rt s cfg supported = Some (s1, cfg, Bad_alloc)" by (simp add: s)
  show "r = Ret (Inl e) \<Longrightarrow> synchronize rt s cfg supported = Some (s1, cfg, Ret (Inl e))" by (simp add: s)
  assume r: "r = Ret (Inr ())" and m1: "models (vc_model cfg1) v1"
    and d: "default_of (rt_catalog rt) supported s1 = Some (s', FReturns d)" "good_default v1 d"
  from run_chain_target[OF run[unfolded r]] have "vc_version cfg1 = last (vc_version cfg # chain_to (rt_catalog rt) (vc_version cfg) supported)" .
  moreover have "last (vc_version cfg # chain_to (rt_catalog rt) (vc_version cfg) supported) = supported"
    using chain_to_last[OF inv(1) v(2,3)] .
  ultimately have ver: "vc_version cfg1 = supported" by simp
  from sync_repair_ok[OF m1 d, of cfg True] ver show "\<exists>cfg'. synchronize rt s cfg supported = Some (s', cfg', Ret (Inr InSync)) \<and>
         vc_version cfg' = supported \<and> models (vc_model cfg') (fill d v1)"
    by (auto simp: s r)
qed

section \<open>Synchronizing twice\<close>

text \<open>With or without an upgrade first: what a successful call leaves, the next one leaves as it is.\<close>

lemma sync_twice:
  assumes rt: "rt_inv rt" and v: "vc_version cfg \<in> set (cat_versions (rt_catalog rt))"
    "supported \<in> set (cat_versions (rt_catalog rt))" "vc_version cfg \<le> supported"
    and run: "run_chain (rt_registry rt) (vc_version cfg) (chain_to (rt_catalog rt) (vc_version cfg) supported) s
      (vc_model cfg) = (s0, cfg0, Ret (Inr ()))" "models (vc_model cfg0) v0"
    and d: "default_of (rt_catalog rt) supported s0 = Some (s1, FReturns d)" "good_default v0 d"
    and d': "default_of (rt_catalog rt) supported s1 = Some (s2, FReturns d)" "room_for (fill d v0) d"
  shows "\<exists>cfg1. synchronize rt s cfg supported = Some (s1, cfg1, Ret (Inr InSync)) \<and>
    vc_version cfg1 = supported \<and> models (vc_model cfg1) (fill d v0) \<and>
    synchronize rt s1 cfg1 supported = Some (s2, cfg1, Ret (Inr InSync))"
proof -
  have inv: "cat_inv (rt_catalog rt)" using rt by (simp add: rt_inv_def)
  have "\<exists>cfg1. synchronize rt s cfg supported = Some (s1, cfg1, Ret (Inr InSync)) \<and>
    vc_version cfg1 = supported \<and> models (vc_model cfg1) (fill d v0)"
  proof (cases "vc_version cfg = supported")
    case True
    with run(1) chain_to_end[OF inv, of supported supported] have "s0 = s" "vc_model cfg0 = vc_model cfg" by auto
    with sync_current[of rt cfg v0 s s1 d] run(2) d v(2) True show ?thesis by (auto simp: cat_contains_iff[OF inv])
  next
    case False
    with v(3) have "vc_version cfg < supported" by simp
    from sync_upgrade(3)[OF rt v(1,2) this run(1) refl run(2) d] show ?thesis .
  qed
  then obtain cfg1 where c: "synchronize rt s cfg supported = Some (s1, cfg1, Ret (Inr InSync))"
    "vc_version cfg1 = supported" "models (vc_model cfg1) (fill d v0)" by blast
  have dist: "cv_distinct d" "cv_distinct (fill d v0)"
    using d(2) models_wf[OF c(3)] by (auto simp: good_default_def wf_model_value_def wf_at_def)
  have "good_default (fill d v0) d" using d(2) d'(2) by (simp add: good_default_def)
  from sync_current[of rt cfg1 "fill d v0" s1 s2 d] this c d'(1) v(2) fill_idem[OF dist] show ?thesis
    by (auto simp: cat_contains_iff[OF inv])
qed

end
