(* ===== verification/Model_Runs.thy ===== *)
theory Model_Runs
  imports Config_Store
begin

text \<open>
  Runs of a model: any sequence of \<open>set\<close> and \<open>remove\<close>, the rejected ones included, from the model
  \<open>fromValue\<close> builds, against the same sequence on the value tree.
\<close>

section \<open>Runs\<close>

datatype model_op = Write string config_value | Remove string

text \<open>One call and its effect on the model; the result that is returned does not matter here.\<close>

fun run_op :: "model_op \<Rightarrow> cmodel \<Rightarrow> cmodel option" where
  "run_op (Write path new) m = map_option fst (cm_set m path new)"
| "run_op (Remove path) m = map_option fst (cm_remove m path)"

fun run_ops :: "model_op list \<Rightarrow> cmodel \<Rightarrow> cmodel option" where
  "run_ops [] m = Some m"
| "run_ops (op # ops) m = do { m' \<leftarrow> run_op op m; run_ops ops m' }"

text \<open>The same on trees: an error leaves the tree as it was.\<close>

definition or_else :: "config_value \<Rightarrow> error + config_value \<Rightarrow> config_value" where
  "or_else v r = (case r of Inl e \<Rightarrow> v | Inr v' \<Rightarrow> v')"

lemma or_else_simps [simp]: "or_else v (Inl e) = v" "or_else v (fail c t) = v" "or_else v (Inr v') = v'"
  by (simp_all add: or_else_def fail_def del: Inl_fold_fail)

fun tree_op :: "model_op \<Rightarrow> config_value \<Rightarrow> config_value" where
  "tree_op (Write path new) v = or_else v (spec_set v path new)"
| "tree_op (Remove path) v = or_else v (spec_remove v path)"

text \<open>Every written value is one a builder can make, and the 32-bit slot ids are never used up.\<close>

fun op_fits :: "model_op \<Rightarrow> config_value \<Rightarrow> bool" where
  "op_fits (Write path new) v \<longleftrightarrow> cv_distinct new \<and> room_for v new"
| "op_fits (Remove path) v \<longleftrightarrow> True"

fun run_fits :: "model_op list \<Rightarrow> config_value \<Rightarrow> bool" where
  "run_fits [] v \<longleftrightarrow> True"
| "run_fits (op # ops) v \<longleftrightarrow> op_fits op v \<and> run_fits ops (tree_op op v)"

section \<open>A run keeps model and tree together\<close>

lemma run_op_models:
  assumes "models m v" and "op_fits op v"
  shows "\<exists>m'. run_op op m = Some m' \<and> models m' (tree_op op v)"
proof (cases op)
  case (Write path new)
  with assms(2) have fits: "cv_distinct new" "room_for v new" by simp_all
  from set_refines[OF assms(1) fits, of path] show ?thesis by (auto simp: Write or_else_def)
next
  case (Remove path)
  from remove_refines[OF assms(1), of path] show ?thesis by (auto simp: Remove or_else_def)
qed

lemma run_ops_models: "models m v \<Longrightarrow> run_fits ops v \<Longrightarrow> \<exists>m'. run_ops ops m = Some m' \<and> models m' (fold tree_op ops v)"
proof (induction ops arbitrary: m v)
  case (Cons op ops)
  from run_op_models[OF Cons.prems(1)] Cons.prems(2) obtain m1 where
    m1: "run_op op m = Some m1" "models m1 (tree_op op v)" by auto
  from Cons.IH[OF m1(2)] Cons.prems(2) m1(1) show ?case by simp
qed simp

section \<open>Nothing leaks\<close>

text \<open>The slots the arena will hand out again, read off by following the free list.\<close>

primrec free_list :: "nat \<Rightarrow> node list \<Rightarrow> nat \<Rightarrow> nat list" where
  "free_list 0 ns h = []"
| "free_list (Suc n) ns h = (if h = kNodeIdNone then [] else h # free_list n ns (nparent (ns ! h)))"

definition free_slots :: "cmodel \<Rightarrow> nat list" where
  "free_slots m = free_list (length (nodes (cm_arena m))) (nodes (cm_arena m)) (free_head (cm_arena m))"

definition dead_slots :: "cmodel \<Rightarrow> nat list" where
  "dead_slots m = filter (\<lambda>i. \<not> nalive (nodes (cm_arena m) ! i)) [0..<length (nodes (cm_arena m))]"

lemma free_list_chain: "free_chain ns h fl \<Longrightarrow> length ns \<le> kNodeIdNone \<Longrightarrow> length fl \<le> n \<Longrightarrow> free_list n ns h = fl"
proof (induction fl arbitrary: h n)
  case Nil
  then show ?case by (cases n) simp_all
next
  case (Cons x fl)
  then obtain k where n: "n = Suc k" by (cases n) auto
  from Cons.prems(1,2) have "h \<noteq> kNodeIdNone" by auto
  then show ?case using Cons n by simp
qed

lemma models_free_slots:
  assumes "models m v"
  shows "mset (free_slots m) = mset (dead_slots m)"
proof -
  from assms obtain T fl where h: "holds m T fl" unfolding models_def by blast
  let ?ns = "nodes (cm_arena m)"
  have tot: "mids T + mset fl = mset [0..<length ?ns]" using heapD(3)[OF holdsD(1)[OF h]] by simp
  then have "size (mids T) + length fl = length ?ns" by (metis length_upt minus_nat.diff_0 size_mset size_union)
  then have fl: "free_slots m = fl"
    using free_list_chain[OF heapD(2)[OF holdsD(1)[OF h]] holdsD(9)[OF h]] by (simp add: free_slots_def)
  have alive: "nalive (?ns ! i)" if "i \<in># mids T" for i
    using holds_live[OF h, of i] that by (auto simp: live_def split: if_splits)
  have dead: "\<not> nalive (?ns ! i)" if "i \<in># mset fl" for i
    using free_chain_dead[OF heapD(2)[OF holdsD(1)[OF h]]] that by simp
  have "mset (dead_slots m) = filter_mset (\<lambda>i. \<not> nalive (?ns ! i)) (mids T + mset fl)"
    unfolding dead_slots_def tot by (rule mset_filter)
  also have "\<dots> = mset fl"
  proof -
    have "filter_mset (\<lambda>i. \<not> nalive (?ns ! i)) (mids T) = filter_mset (\<lambda>_. False) (mids T)"
      using alive by (intro filter_mset_cong) simp_all
    moreover have "filter_mset (\<lambda>i. \<not> nalive (?ns ! i)) (mset fl) = filter_mset (\<lambda>_. True) (mset fl)"
      using dead by (intro filter_mset_cong refl) blast
    ultimately show ?thesis by simp
  qed
  finally show ?thesis using fl by simp
qed

text \<open>
  After any run the live slots are as many as the nodes of the tree the run leads to, and every other
  slot is on the free list, once.
\<close>

lemma run_leaks_nothing:
  assumes "cm_fromValue v = Some (Inr m)" and "cv_distinct v" "cv_nodes v < kNodeIdNone" and "run_fits ops v"
  shows "\<exists>m'. run_ops ops m = Some m' \<and> live_slots m' = cv_nodes (fold tree_op ops v) \<and> mset (free_slots m') = mset (dead_slots m')"
proof -
  have "models m v" using fromValue_refines[OF assms(2,3)] assms(1) by (auto split: sum.splits)
  from run_ops_models[OF this assms(4)] obtain m' where m': "run_ops ops m = Some m'" "models m' (fold tree_op ops v)" by blast
  with live_slots_nodes[OF m'(2)] models_free_slots[OF m'(2)] show ?thesis by blast
qed

end
