(* ===== verification/Bounded_Read.thy ===== *)
theory Bounded_Read
  imports Config_Model
begin

text \<open>
  What the two backends share: \<open>LoadLimits\<close>, the read of a stream up to a number of bytes, the
  largest version and the test of member names. The two copies of \<open>readBounded\<close> in
  \<open>backends/json/src/json_interface.cpp\<close> and \<open>backends/xml/src/xml_interface.cpp\<close> differ in the name of
  the format in their messages, the argument \<open>kind\<close> here.
  A string literal is its byte list. The stream is the list of chunks its buffer hands out.
\<close>

record load_limits =
  maxInputBytes :: nat
  maxNodes :: nat

definition default_limits :: load_limits where
  "default_limits = \<lparr>maxInputBytes = 4 * 1024 * 1024, maxNodes = 100000\<rparr>"

definition kMaxVersion :: nat where "kMaxVersion = 2 ^ 32 - 1"

section \<open>The bounded read\<close>

text \<open>
  \<open>None\<close> is a stream without a buffer. A chunk is what one \<open>sgetn\<close> returned; an empty one ends
  the read. The subtraction is on \<open>std::size_t\<close>.
\<close>

fun read_chunks :: "string \<Rightarrow> nat \<Rightarrow> string \<Rightarrow> string list \<Rightarrow> error + string" where
  "read_chunks kind max_bytes bytes [] = Inr bytes"
| "read_chunks kind max_bytes bytes (chunk # chunks) =
     (if chunk = [] then Inr bytes
      else if length chunk > (max_bytes + 2 ^ 64 - length bytes) mod 2 ^ 64
      then fail ParseError (kind @ '' document exceeds input limit ('' @ nat_str max_bytes @ '' bytes)'')
      else read_chunks kind max_bytes (bytes @ chunk) chunks)"

definition readBounded :: "string \<Rightarrow> string list option \<Rightarrow> nat \<Rightarrow> error + string" where
  "readBounded kind stream max_bytes = (case stream of
     None \<Rightarrow> fail ParseError (kind @ '' stream has no buffer'')
   | Some chunks \<Rightarrow> read_chunks kind max_bytes [] chunks)"

definition xml_readBounded :: "string list option \<Rightarrow> nat \<Rightarrow> error + string" where
  "xml_readBounded = readBounded ''XML''"

definition isPathAddressable :: "string \<Rightarrow> bool" where
  "isPathAddressable key \<longleftrightarrow> key \<noteq> [] \<and> find (\<lambda>c. c \<in> set ''.[]'') key = None"

text \<open>Reading in chunks is reading the concatenation, with the limit on its length.\<close>

lemma read_chunks_spec:
  "[] \<notin> set chunks \<Longrightarrow> length bytes \<le> max_bytes \<Longrightarrow> max_bytes < 2 ^ 64 \<Longrightarrow>
   read_chunks kind max_bytes bytes chunks =
     (if length (bytes @ concat chunks) \<le> max_bytes then Inr (bytes @ concat chunks)
      else fail ParseError (kind @ '' document exceeds input limit ('' @ nat_str max_bytes @ '' bytes)''))"
proof (induction kind max_bytes bytes chunks rule: read_chunks.induct)
  case (2 kind max_bytes bytes chunk chunks)
  have "(max_bytes + 2 ^ 64 - length bytes) mod 2 ^ 64 = max_bytes - length bytes"
    using 2(3,4) by (simp add: le_mod_geq)
  with 2 show ?case by auto
qed simp

lemma readBounded_spec:
  assumes "[] \<notin> set chunks" and "max_bytes < 2 ^ 64"
  shows "readBounded kind (Some chunks) max_bytes = (if length (concat chunks) \<le> max_bytes then Inr (concat chunks)
    else fail ParseError (kind @ '' document exceeds input limit ('' @ nat_str max_bytes @ '' bytes)''))"
  using read_chunks_spec[OF assms(1) _ assms(2), of "[]"] by (simp add: readBounded_def)

lemma readBounded_error: "readBounded kind stream n = Inl e \<Longrightarrow> err_code e = ParseError"
proof -
  have "read_chunks kind n bytes chunks = Inl e \<Longrightarrow> err_code e = ParseError" for bytes chunks
    by (induction kind n bytes chunks rule: read_chunks.induct) (auto simp: fail_def simp del: Inl_fold_fail split: if_splits)
  then show "readBounded kind stream n = Inl e \<Longrightarrow> err_code e = ParseError"
    by (auto simp: readBounded_def fail_def simp del: Inl_fold_fail split: option.splits)
qed

lemma isPathAddressable_iff: "isPathAddressable k \<longleftrightarrow> isAddressableKey k"
  by (auto simp: isPathAddressable_def isAddressableKey_def is_reserved_def find_None_iff list_all_iff)

end
