(* ===== verification/Json_Load.thy ===== *)
theory Json_Load
  imports Bounded_Read Config_Runtime
begin

text \<open>
  The JSON backend, \<open>backends/json/src/json_interface.cpp\<close>: the SAX handler
  \<open>ValueBuilder\<close> as a state machine over parser events, the emitter \<open>toJson\<close>, and \<open>load\<close>/\<open>save\<close>.
  The JSON library itself (the lexer behind \<open>sax_parse\<close>, the printer behind \<open>dump\<close>) is not part of
  the repository: the parser is an argument that turns a text into its SAX events and says how
  it ends, the printer an argument that turns a document into text or throws.
\<close>

section \<open>Documents, events and limits\<close>

text \<open>\<open>ordered_json\<close>; the parameter is what a floating-point number carries.\<close>

datatype 'f json =
    JNull | JBool bool | JInteger int64 | JUnsigned "64 word" | JFloat 'f | JString string
  | JObject "(string \<times> 'f json) list" | JArray "'f json list"

datatype json_event =
    EvNull | EvBool bool | EvInteger int64 | EvUnsigned "64 word" | EvFloat double string | EvString string
  | EvBinary | EvStartObject | EvKey string | EvEndObject | EvStartArray | EvEndArray | EvParseError string

definition kVersionKey :: string where "kVersionKey = ''__version''"
definition kMaxInt :: nat where "kMaxInt = 2 ^ 63 - 1"

section \<open>The value builder\<close>

record json_frame =
  jf_container :: config_value
  jf_pendingKey :: string

text \<open>The head of \<open>vb_stack\<close> is \<open>stack_.back()\<close>; \<open>vb_root = None\<close> is \<open>haveRoot_ == false\<close>.\<close>

record value_builder =
  vb_nodes :: nat
  vb_stack :: "json_frame list"
  vb_root :: "config_value option"
  vb_version :: "version_id option"
  vb_sawVersionKey :: bool
  vb_nextIsCarrier :: bool
  vb_error :: "error option"

definition vb_init :: value_builder where
  "vb_init = \<lparr>vb_nodes = 0, vb_stack = [], vb_root = None, vb_version = None, vb_sawVersionKey = False,
     vb_nextIsCarrier = False, vb_error = None\<rparr>"

text \<open>A callback returns whether to go on; \<open>None\<close> is \<open>back()\<close> of an empty vector.\<close>

type_synonym vb_result = "(bool \<times> value_builder) option"

definition setError :: "error_code \<Rightarrow> string \<Rightarrow> value_builder \<Rightarrow> vb_result" where
  "setError c m b = Some (False, b\<lparr>vb_error := Some \<lparr>err_code = c, err_message = m\<rparr>\<rparr>)"

definition rejectNonObjectRoot :: "value_builder \<Rightarrow> vb_result" where
  "rejectNonObjectRoot = setError ParseError ''JSON document root is not an object''"

definition consumeCarrierFlag :: "value_builder \<Rightarrow> bool \<times> value_builder" where
  "consumeCarrierFlag b = (vb_nextIsCarrier b, b\<lparr>vb_nextIsCarrier := False\<rparr>)"

definition depth_message :: string where
  "depth_message = ''document exceeds the maximum nesting depth ('' @ nat_str kMaxTreeDepth @ '')''"

definition checkContainerDepth :: "value_builder \<Rightarrow> vb_result" where
  "checkContainerDepth b = (if length (vb_stack b) > kMaxTreeDepth then setError ParseError depth_message b
     else Some (True, b))"

definition consumeNode :: "load_limits \<Rightarrow> value_builder \<Rightarrow> vb_result" where
  "consumeNode L b = (if vb_nodes b = maxNodes L
     then setError ParseError (''JSON document exceeds node limit ('' @ nat_str (maxNodes L) @ '')'') b
     else Some (True, b\<lparr>vb_nodes := vb_nodes b + 1\<rparr>))"

text \<open>Attaching to the top container; the pending key is moved out.\<close>

definition attach_top :: "config_value \<Rightarrow> json_frame \<Rightarrow> json_frame option" where
  "attach_top v f = (if cv_type (jf_container f) = TObject
     then map_option (\<lambda>c. \<lparr>jf_container = c, jf_pendingKey = []\<rparr>) (cv_set (jf_container f) (jf_pendingKey f) v)
     else map_option (\<lambda>c. f\<lparr>jf_container := c\<rparr>) (cv_push (jf_container f) v))"

definition attach :: "load_limits \<Rightarrow> config_value \<Rightarrow> value_builder \<Rightarrow> vb_result" where
  "attach L v b = (if length (vb_stack b) > kMaxTreeDepth then setError ParseError depth_message b
     else do {
       (ok, b1) \<leftarrow> consumeNode L b;
       if \<not> ok then Some (False, b1)
       else (case vb_stack b1 of [] \<Rightarrow> None
         | back # below \<Rightarrow> do { top' \<leftarrow> attach_top v back; Some (True, b1\<lparr>vb_stack := top' # below\<rparr>) }) })"

definition popFrame :: "load_limits \<Rightarrow> value_builder \<Rightarrow> vb_result" where
  "popFrame L b = (case vb_stack b of [] \<Rightarrow> None
     | back # below \<Rightarrow> (let b1 = b\<lparr>vb_stack := below\<rparr> in
         if below = [] then do {
           (ok, b2) \<leftarrow> consumeNode L b1;
           Some (if ok then (True, b2\<lparr>vb_root := Some (jf_container back)\<rparr>) else (False, b2)) }
         else attach L (jf_container back) b1))"

definition onScalar :: "load_limits \<Rightarrow> config_value \<Rightarrow> value_builder \<Rightarrow> vb_result" where
  "onScalar L v b = (if vb_stack b = [] then rejectNonObjectRoot b
     else (case consumeCarrierFlag b of (carrier, b1) \<Rightarrow>
       if carrier then setError InvalidVersion ''version carrier must be a native unsigned integer'' b1
       else attach L v b1))"

definition number_integer :: "load_limits \<Rightarrow> int64 \<Rightarrow> value_builder \<Rightarrow> vb_result" where
  "number_integer L i b = (if vb_stack b = [] then rejectNonObjectRoot b
     else (case consumeCarrierFlag b of (carrier, b1) \<Rightarrow>
       if carrier then setError InvalidVersion ''version carrier must not be negative'' b1
       else attach L (Scal (SInt i)) b1))"

definition number_unsigned :: "load_limits \<Rightarrow> 64 word \<Rightarrow> value_builder \<Rightarrow> vb_result" where
  "number_unsigned L w b = (if vb_stack b = [] then rejectNonObjectRoot b
     else (case consumeCarrierFlag b of (carrier, b1) \<Rightarrow>
       if carrier then
         (if unat w > kMaxVersion then setError InvalidVersion
            (''version carrier value '' @ nat_str (unat w) @ '' is not representable in VersionId'') b1
          else Some (True, b1\<lparr>vb_version := Some (ucast w)\<rparr>))
       else if unat w > kMaxInt then setError ParseError
         (''JSON number '' @ nat_str (unat w) @ '' is outside std::int64_t's range'') b1
       else attach L (Scal (SInt w)) b1))"

definition number_float :: "load_limits \<Rightarrow> double \<Rightarrow> string \<Rightarrow> value_builder \<Rightarrow> vb_result" where
  "number_float L d s b = (if vb_stack b = [] then rejectNonObjectRoot b
     else (case consumeCarrierFlag b of (carrier, b1) \<Rightarrow>
       if carrier then setError InvalidVersion
         (''version carrier must be a native unsigned integer, got number '' @ squote @ s @ squote) b1
       else if find (\<lambda>c. c \<in> set ''.eE'') s = None then setError ParseError
         (''integral JSON number '' @ squote @ s @ squote @ '' is outside std::int64_t's range'') b1
       else attach L (Scal (SDouble d)) b1))"

definition start_object :: "value_builder \<Rightarrow> vb_result" where
  "start_object b = (case consumeCarrierFlag b of (carrier, b1) \<Rightarrow>
     if carrier then setError InvalidVersion ''version carrier must be a native unsigned integer, got an object'' b1
     else do {
       (ok, b2) \<leftarrow> checkContainerDepth b1;
       Some (if ok then (True, b2\<lparr>vb_stack := \<lparr>jf_container = cv_object, jf_pendingKey = []\<rparr> # vb_stack b2\<rparr>)
             else (False, b2)) })"

definition start_array :: "value_builder \<Rightarrow> vb_result" where
  "start_array b = (if vb_stack b = [] then rejectNonObjectRoot b
     else (case consumeCarrierFlag b of (carrier, b1) \<Rightarrow>
       if carrier then setError InvalidVersion ''version carrier must be a native unsigned integer, got an array'' b1
       else do {
         (ok, b2) \<leftarrow> checkContainerDepth b1;
         Some (if ok then (True, b2\<lparr>vb_stack := \<lparr>jf_container = cv_array, jf_pendingKey = []\<rparr> # vb_stack b2\<rparr>)
               else (False, b2)) }))"

definition on_key :: "string \<Rightarrow> value_builder \<Rightarrow> vb_result" where
  "on_key k b = (if \<not> isPathAddressable k then setError ParseError
       (''object key '' @ squote @ k @ squote @ '' is not path-addressable (empty or contains ''
        @ squote @ ''.'' @ squote @ '', '' @ squote @ ''['' @ squote @ '', '' @ squote @ '']'' @ squote @ '')'') b
     else (case vb_stack b of [] \<Rightarrow> None
       | back # below \<Rightarrow>
           if length (vb_stack b) = 1 \<and> k = kVersionKey then
             (if vb_sawVersionKey b then setError ParseError
                (''duplicate object key '' @ squote @ ''__version'' @ squote) b
              else Some (True, b\<lparr>vb_sawVersionKey := True, vb_nextIsCarrier := True\<rparr>))
           else if cv_contains (jf_container back) k then setError ParseError
             (''duplicate object key '' @ squote @ k @ squote) b
           else Some (True, b\<lparr>vb_stack := back\<lparr>jf_pendingKey := k\<rparr> # below\<rparr>)))"

fun on_event :: "load_limits \<Rightarrow> json_event \<Rightarrow> value_builder \<Rightarrow> vb_result" where
  "on_event L EvNull b = onScalar L (Scal SNull) b"
| "on_event L (EvBool x) b = onScalar L (Scal (SBool x)) b"
| "on_event L (EvInteger i) b = number_integer L i b"
| "on_event L (EvUnsigned w) b = number_unsigned L w b"
| "on_event L (EvFloat d s) b = number_float L d s b"
| "on_event L (EvString s) b = onScalar L (Scal (SString s)) b"
| "on_event L EvBinary b = Some (True, b)"
| "on_event L EvStartObject b = start_object b"
| "on_event L (EvKey k) b = on_key k b"
| "on_event L EvEndObject b = popFrame L b"
| "on_event L EvStartArray b = start_array b"
| "on_event L EvEndArray b = popFrame L b"
| "on_event L (EvParseError what) b = setError ParseError what b"

text \<open>The parser delivers events until a callback returns false.\<close>

fun sax_run :: "load_limits \<Rightarrow> json_event list \<Rightarrow> value_builder \<Rightarrow> vb_result" where
  "sax_run L [] b = Some (True, b)"
| "sax_run L (e # es) b = (case on_event L e b of
     None \<Rightarrow> None
   | Some (ok, b') \<Rightarrow> if ok then sax_run L es b' else Some (False, b'))"
section \<open>Reading a document recursively\<close>

text \<open>
  What the builder computes, as a recursion over the document: \<open>d\<close> containers are open, \<open>n\<close> nodes
  are counted. A float number of a document carries its value and its literal.
\<close>

type_synonym json_doc = "(double \<times> string) json"

fun events_of :: "json_doc \<Rightarrow> json_event list"
  and member_events :: "(string \<times> json_doc) list \<Rightarrow> json_event list"
  and element_events :: "json_doc list \<Rightarrow> json_event list" where
  "events_of JNull = [EvNull]"
| "events_of (JBool x) = [EvBool x]"
| "events_of (JInteger i) = [EvInteger i]"
| "events_of (JUnsigned w) = [EvUnsigned w]"
| "events_of (JFloat f) = [EvFloat (fst f) (snd f)]"
| "events_of (JString s) = [EvString s]"
| "events_of (JObject ms) = EvStartObject # member_events ms @ [EvEndObject]"
| "events_of (JArray es) = EvStartArray # element_events es @ [EvEndArray]"
| "member_events [] = []"
| "member_events (m # ms) = EvKey (fst m) # events_of (snd m) @ member_events ms"
| "element_events [] = []"
| "element_events (e # es) = events_of e @ element_events es"

definition read_attach :: "load_limits \<Rightarrow> nat \<Rightarrow> nat \<Rightarrow> config_value \<Rightarrow> error + (nat \<times> config_value)" where
  "read_attach L d n v = (if d > kMaxTreeDepth then fail ParseError depth_message
     else if n = maxNodes L
     then fail ParseError (''JSON document exceeds node limit ('' @ nat_str (maxNodes L) @ '')'')
     else Inr (n + 1, v))"

definition key_error :: "string \<Rightarrow> error + 'a" where
  "key_error k = fail ParseError
     (''object key '' @ squote @ k @ squote @ '' is not path-addressable (empty or contains ''
      @ squote @ ''.'' @ squote @ '', '' @ squote @ ''['' @ squote @ '', '' @ squote @ '']'' @ squote @ '')'')"

definition duplicate_error :: "string \<Rightarrow> error + 'a" where
  "duplicate_error k = fail ParseError (''duplicate object key '' @ squote @ k @ squote)"

lemma key_errors [simp, res_simps]:
  "key_error k \<noteq> Inr x" "duplicate_error k \<noteq> Inr x"
  by (simp_all add: key_error_def duplicate_error_def)

fun read_value :: "load_limits \<Rightarrow> nat \<Rightarrow> nat \<Rightarrow> json_doc \<Rightarrow> error + (nat \<times> config_value)"
  and read_members :: "load_limits \<Rightarrow> nat \<Rightarrow> nat \<Rightarrow> (string \<times> config_value) list \<Rightarrow> (string \<times> json_doc) list \<Rightarrow>
        error + (nat \<times> (string \<times> config_value) list)"
  and read_elements :: "load_limits \<Rightarrow> nat \<Rightarrow> nat \<Rightarrow> config_value list \<Rightarrow> json_doc list \<Rightarrow>
        error + (nat \<times> config_value list)" where
  "read_value L d n JNull = read_attach L d n (Scal SNull)"
| "read_value L d n (JBool x) = read_attach L d n (Scal (SBool x))"
| "read_value L d n (JInteger i) = read_attach L d n (Scal (SInt i))"
| "read_value L d n (JUnsigned w) = (if unat w > kMaxInt then fail ParseError
     (''JSON number '' @ nat_str (unat w) @ '' is outside std::int64_t's range'')
     else read_attach L d n (Scal (SInt w)))"
| "read_value L d n (JFloat f) = (if find (\<lambda>c. c \<in> set ''.eE'') (snd f) = None then fail ParseError
     (''integral JSON number '' @ squote @ snd f @ squote @ '' is outside std::int64_t's range'')
     else read_attach L d n (Scal (SDouble (fst f))))"
| "read_value L d n (JString s) = read_attach L d n (Scal (SString s))"
| "read_value L d n (JObject ms) = (if d > kMaxTreeDepth then fail ParseError depth_message
     else (case read_members L (d + 1) n [] ms of Inl e \<Rightarrow> Inl e
       | Inr (n', acc) \<Rightarrow> read_attach L d n' (Obj acc)))"
| "read_value L d n (JArray es) = (if d > kMaxTreeDepth then fail ParseError depth_message
     else (case read_elements L (d + 1) n [] es of Inl e \<Rightarrow> Inl e
       | Inr (n', acc) \<Rightarrow> read_attach L d n' (Arr acc)))"
| "read_members L d n acc [] = Inr (n, acc)"
| "read_members L d n acc (m # ms) = (if \<not> isPathAddressable (fst m) then key_error (fst m)
     else if fst m \<in> fst ` set acc then duplicate_error (fst m)
     else (case read_value L d n (snd m) of Inl e \<Rightarrow> Inl e
       | Inr (n', v) \<Rightarrow> read_members L d n' (acc @ [(fst m, v)]) ms))"
| "read_elements L d n acc [] = Inr (n, acc)"
| "read_elements L d n acc (e # es) = (case read_value L d n e of Inl err \<Rightarrow> Inl err
     | Inr (n', v) \<Rightarrow> read_elements L d n' (acc @ [v]) es)"

text \<open>One value, read by the machine: attached to the top container, or its error reported.\<close>

definition reads ::
    "load_limits \<Rightarrow> json_event list \<Rightarrow> value_builder \<Rightarrow> error + value_builder \<Rightarrow> bool" where
  "reads L evs b r \<longleftrightarrow> (\<forall>rest. case r of
     Inr b' \<Rightarrow> sax_run L (evs @ rest) b = sax_run L rest b'
   | Inl e \<Rightarrow> \<exists>b'. sax_run L (evs @ rest) b = Some (False, b') \<and> vb_error b' = Some e)"

lemma reads_Nil: "reads L [] b (Inr b)"
  by (simp add: reads_def)

lemma reads_append:
  assumes "reads L es b r" and "\<And>b'. r = Inr b' \<Longrightarrow> reads L fs b' r'" and "\<And>e. r = Inl e \<Longrightarrow> r' = Inl e"
  shows "reads L (es @ fs) b r'"
  using assms by (cases r) (fastforce simp: reads_def split: sum.splits)+

lemma reads_event:
  "on_event L e b = Some (True, b') \<Longrightarrow> reads L [e] b (Inr b')"
  "on_event L e b = Some (False, b') \<Longrightarrow> vb_error b' = Some err \<Longrightarrow> reads L [e] b (Inl err)"
  by (simp_all add: reads_def)

definition open_in :: "value_builder \<Rightarrow> nat \<Rightarrow> nat \<Rightarrow> json_frame \<Rightarrow> json_frame list \<Rightarrow> bool" where
  "open_in b d n f fs \<longleftrightarrow> vb_stack b = f # fs \<and> length fs + 1 = d \<and> vb_nodes b = n \<and> \<not> vb_nextIsCarrier b"

definition accepts :: "json_frame \<Rightarrow> bool" where
  "accepts f \<longleftrightarrow> (case jf_container f of Obj ms \<Rightarrow> jf_pendingKey f \<notin> fst ` set ms | Arr es \<Rightarrow> True | Scal s \<Rightarrow> False)"

fun put_in :: "config_value \<Rightarrow> json_frame \<Rightarrow> json_frame" where
  "put_in v f = (case jf_container f of
     Obj ms \<Rightarrow> \<lparr>jf_container = Obj (ms @ [(jf_pendingKey f, v)]), jf_pendingKey = []\<rparr>
   | Arr es \<Rightarrow> f\<lparr>jf_container := Arr (es @ [v])\<rparr>
   | Scal s \<Rightarrow> f)"

lemma attach_top_accepts: "accepts f \<Longrightarrow> attach_top v f = Some (put_in v f)"
  by (auto simp: accepts_def attach_top_def cv_set_def cv_push_def upsert_fresh split: config_value.splits)

definition attached :: "value_builder \<Rightarrow> json_frame \<Rightarrow> json_frame list \<Rightarrow> error + (nat \<times> config_value) \<Rightarrow> error + value_builder" where
  "attached b f fs r = map_sum id (\<lambda>(n, v). b\<lparr>vb_nodes := n, vb_stack := put_in v f # fs\<rparr>) r"

text \<open>Attaching a finished value.\<close>

lemma attach_reads:
  assumes "open_in b d n f fs" "accepts f"
  shows "case read_attach L d n v of
      Inr (n', w) \<Rightarrow> attach L v b = Some (True, b\<lparr>vb_nodes := n', vb_stack := put_in w f # fs\<rparr>)
    | Inl e \<Rightarrow> \<exists>b'. attach L v b = Some (False, b') \<and> vb_error b' = Some e"
  using assms attach_top_accepts[OF assms(2), of v]
  by (auto simp: open_in_def read_attach_def attach_def consumeNode_def setError_def fail_def simp del: Inl_fold_fail)

lemma reads_step: "reads L es b (Inr b') \<Longrightarrow> reads L fs b' r' \<Longrightarrow> reads L (es @ fs) b r'"
  by (erule reads_append) simp_all

lemma consume_open: "open_in b d n f fs \<Longrightarrow> consumeCarrierFlag b = (False, b)"
  by (cases b) (simp add: open_in_def consumeCarrierFlag_def)

lemma open_stack: "open_in b d n f fs \<Longrightarrow> vb_stack b \<noteq> []"
  by (simp add: open_in_def)

lemma attach_step:
  assumes "open_in b d n f fs" "accepts f" "on_event L e b = attach L v b"
  shows "reads L [e] b (attached b f fs (read_attach L d n v))"
proof (cases "read_attach L d n v")
  case (Inl err)
  with attach_reads[OF assms(1,2), of L v] assms(3) show ?thesis by (auto simp: attached_def intro: reads_event(2))
next
  case (Inr r)
  with attach_reads[OF assms(1,2), of L v] assms(3) show ?thesis
    by (cases r) (auto simp: attached_def intro: reads_event(1))
qed

lemma error_step:
  "on_event L e b = setError c m b \<Longrightarrow> reads L [e] b (attached b f fs (fail c m))"
  by (auto simp: attached_def setError_def fail_def reads_def simp del: Inl_fold_fail)

lemma close_step:
  assumes "vb_stack b = \<lparr>jf_container = c, jf_pendingKey = k\<rparr> # f # fs" "vb_nodes b = n" "\<not> vb_nextIsCarrier b"
    and "accepts f" "length fs + 1 = d" "e = EvEndObject \<or> e = EvEndArray"
  shows "reads L [e] b (attached b f fs (read_attach L d n c))"
proof -
  let ?b = "b\<lparr>vb_stack := f # fs\<rparr>"
  have o: "open_in ?b d n f fs" using assms by (simp add: open_in_def)
  have "on_event L e b = attach L c ?b" using assms(1,6) by (auto simp: popFrame_def Let_def)
  with attach_reads[OF o assms(4), of L c] show ?thesis
    by (cases "read_attach L d n c") (auto simp: attached_def intro: reads_event)
qed

abbreviation opened :: "value_builder \<Rightarrow> config_value \<Rightarrow> value_builder" where
  "opened b c \<equiv> b\<lparr>vb_stack := \<lparr>jf_container = c, jf_pendingKey = []\<rparr> # vb_stack b\<rparr>"

lemma open_step:
  assumes "open_in b d n f fs"
  shows "d > kMaxTreeDepth \<Longrightarrow> reads L [EvStartObject] b (Inl \<lparr>err_code = ParseError, err_message = depth_message\<rparr>)"
    "d > kMaxTreeDepth \<Longrightarrow> reads L [EvStartArray] b (Inl \<lparr>err_code = ParseError, err_message = depth_message\<rparr>)"
    "\<not> d > kMaxTreeDepth \<Longrightarrow> reads L [EvStartObject] b (Inr (opened b (Obj [])))"
    "\<not> d > kMaxTreeDepth \<Longrightarrow> reads L [EvStartArray] b (Inr (opened b (Arr [])))"
    "open_in (opened b c) (d + 1) n \<lparr>jf_container = c, jf_pendingKey = []\<rparr> (f # fs)"
  using assms consume_open[OF assms]
  by (auto simp: reads_def start_object_def start_array_def checkContainerDepth_def setError_def open_in_def
      cv_object_def cv_array_def)

definition after_members :: "value_builder \<Rightarrow> json_frame list \<Rightarrow> json_frame \<Rightarrow> bool \<Rightarrow>
    error + (nat \<times> (string \<times> config_value) list) \<Rightarrow> error + value_builder" where
  "after_members b fs f none r = map_sum id (\<lambda>(n, acc). b\<lparr>vb_nodes := n, vb_stack :=
     \<lparr>jf_container = Obj acc, jf_pendingKey = (if none then jf_pendingKey f else [])\<rparr> # fs\<rparr>) r"

definition after_elements :: "value_builder \<Rightarrow> json_frame list \<Rightarrow> json_frame \<Rightarrow>
    error + (nat \<times> config_value list) \<Rightarrow> error + value_builder" where
  "after_elements b fs f r = map_sum id (\<lambda>(n, acc). b\<lparr>vb_nodes := n, vb_stack := f\<lparr>jf_container := Arr acc\<rparr> # fs\<rparr>) r"

lemma reads_none:
  "open_in b d n f fs \<Longrightarrow> jf_container f = Obj acc \<Longrightarrow> reads L [] b (Inr (b\<lparr>vb_nodes := n,
     vb_stack := \<lparr>jf_container = Obj acc, jf_pendingKey = jf_pendingKey f\<rparr> # fs\<rparr>))"
  "open_in b d n f fs \<Longrightarrow> jf_container f = Arr arr \<Longrightarrow>
     reads L [] b (Inr (b\<lparr>vb_nodes := n, vb_stack := f\<lparr>jf_container := Arr arr\<rparr> # fs\<rparr>))"
  by (cases b; cases f; simp add: open_in_def reads_def)+

lemma key_fail:
  assumes "vb_stack b = f # fs" "length (vb_stack b) \<noteq> 1" "jf_container f = Obj acc"
  shows "\<not> isPathAddressable k \<Longrightarrow> \<exists>e. key_error k = (Inl e :: error + 'a) \<and> reads L [EvKey k] b (Inl e)"
    "isPathAddressable k \<Longrightarrow> k \<in> fst ` set acc \<Longrightarrow>
       \<exists>e. duplicate_error k = (Inl e :: error + 'a) \<and> reads L [EvKey k] b (Inl e)"
  using assms
  by (auto simp: on_key_def key_error_def duplicate_error_def setError_def cv_contains_def fail_def reads_def
      simp del: Inl_fold_fail)

lemma machine_reads:
  "open_in b d n f fs \<Longrightarrow> accepts f \<Longrightarrow> reads L (events_of j) b (attached b f fs (read_value L d n j))"
  "open_in b d n f fs \<Longrightarrow> jf_container f = Obj acc \<Longrightarrow> fs \<noteq> [] \<Longrightarrow>
     reads L (member_events ms) b (after_members b fs f (ms = []) (read_members L d n acc ms))"
  "open_in b d n f fs \<Longrightarrow> jf_container f = Arr arr \<Longrightarrow>
     reads L (element_events es) b (after_elements b fs f (read_elements L d n arr es))"
proof (induction L d n j and L d n acc ms and L d n arr es arbitrary: b f fs and b f fs and b f fs
    rule: read_value_read_members_read_elements.induct)
  case (7 L d n ms)
  show ?case
  proof (cases "d > kMaxTreeDepth")
    case True
    have "reads L ([EvStartObject] @ (member_events ms @ [EvEndObject])) b (Inl \<lparr>err_code = ParseError, err_message = depth_message\<rparr>)"
      by (rule reads_append[OF open_step(1)[OF 7(2) True]]) simp_all
    with True show ?thesis by (simp add: attached_def fail_def del: Inl_fold_fail)
  next
    case False
    note o = open_step(5)[OF 7(2), of "Obj []"]
    note m = 7(1)[OF False o]
    let ?f = "\<lparr>jf_container = Obj [], jf_pendingKey = []\<rparr>"
    have "reads L (member_events ms @ [EvEndObject]) (opened b (Obj []))
      (case read_members L (d + 1) n [] ms of Inl e \<Rightarrow> Inl e | Inr (n', acc) \<Rightarrow> attached b f fs (read_attach L d n' (Obj acc)))"
    proof (rule reads_append[OF m])
      fix b' assume b': "after_members (opened b (Obj [])) (f # fs) ?f (ms = []) (read_members L (d + 1) n [] ms) = Inr b'"
      then obtain n' acc where r: "read_members L (d + 1) n [] ms = Inr (n', acc)"
        and bb: "b' = b\<lparr>vb_nodes := n', vb_stack := \<lparr>jf_container = Obj acc, jf_pendingKey = []\<rparr> # f # fs\<rparr>"
        by (cases "read_members L (d + 1) n [] ms") (auto simp: after_members_def)
      have "reads L [EvEndObject] b' (attached b' f fs (read_attach L d n' (Obj acc)))"
        by (rule close_step) (use 7(2,3) bb in \<open>auto simp: open_in_def\<close>)
      then show "reads L [EvEndObject] b' (case read_members L (d + 1) n [] ms of Inl e \<Rightarrow> Inl e
          | Inr (n', acc) \<Rightarrow> attached b f fs (read_attach L d n' (Obj acc)))"
        unfolding r by (simp add: bb attached_def)
    qed (auto simp: after_members_def split: sum.splits)
    from reads_step[OF open_step(3)[OF 7(2) False] this] False show ?thesis
      by (cases "read_members L (d + 1) n [] ms") (auto simp: attached_def)
  qed
next
  case (8 L d n es)
  show ?case
  proof (cases "d > kMaxTreeDepth")
    case True
    have "reads L ([EvStartArray] @ (element_events es @ [EvEndArray])) b (Inl \<lparr>err_code = ParseError, err_message = depth_message\<rparr>)"
      by (rule reads_append[OF open_step(2)[OF 8(2) True]]) simp_all
    with True show ?thesis by (simp add: attached_def fail_def del: Inl_fold_fail)
  next
    case False
    note o = open_step(5)[OF 8(2), of "Arr []"]
    note m = 8(1)[OF False o]
    let ?f = "\<lparr>jf_container = Arr [], jf_pendingKey = []\<rparr>"
    have "reads L (element_events es @ [EvEndArray]) (opened b (Arr []))
      (case read_elements L (d + 1) n [] es of Inl e \<Rightarrow> Inl e | Inr (n', acc) \<Rightarrow> attached b f fs (read_attach L d n' (Arr acc)))"
    proof (rule reads_append[OF m])
      fix b' assume b': "after_elements (opened b (Arr [])) (f # fs) ?f (read_elements L (d + 1) n [] es) = Inr b'"
      then obtain n' acc where r: "read_elements L (d + 1) n [] es = Inr (n', acc)"
        and bb: "b' = b\<lparr>vb_nodes := n', vb_stack := \<lparr>jf_container = Arr acc, jf_pendingKey = []\<rparr> # f # fs\<rparr>"
        by (cases "read_elements L (d + 1) n [] es") (auto simp: after_elements_def)
      have "reads L [EvEndArray] b' (attached b' f fs (read_attach L d n' (Arr acc)))"
        by (rule close_step) (use 8(2,3) bb in \<open>auto simp: open_in_def\<close>)
      then show "reads L [EvEndArray] b' (case read_elements L (d + 1) n [] es of Inl e \<Rightarrow> Inl e
          | Inr (n', acc) \<Rightarrow> attached b f fs (read_attach L d n' (Arr acc)))"
        unfolding r by (simp add: bb attached_def)
    qed (auto simp: after_elements_def split: sum.splits)
    from reads_step[OF open_step(4)[OF 8(2) False] this] False show ?thesis
      by (cases "read_elements L (d + 1) n [] es") (auto simp: attached_def)
  qed
next
  case (10 L d n acc m ms)
  let ?k = "fst m" and ?b1 = "b\<lparr>vb_stack := f\<lparr>jf_pendingKey := fst m\<rparr> # fs\<rparr>"
  have st: "vb_stack b = f # fs" "length (vb_stack b) \<noteq> 1" using 10(3,5) by (cases fs; simp add: open_in_def)+
  have evs: "member_events (m # ms) = [EvKey ?k] @ events_of (snd m) @ member_events ms" by simp
  show ?case
  proof (cases "isPathAddressable ?k \<and> ?k \<notin> fst ` set acc")
    case False
    then have "\<exists>e. read_members L d n acc (m # ms) = Inl e \<and> reads L [EvKey ?k] b (Inl e)"
      using key_fail[OF st 10(4), of ?k L] by (cases "isPathAddressable ?k") auto
    then obtain e where e: "read_members L d n acc (m # ms) = Inl e" "reads L [EvKey ?k] b (Inl e)" by blast
    show ?thesis unfolding evs e(1) by (rule reads_append[OF e(2)]) (simp_all add: after_members_def)
  next
    case True
    have k: "reads L [EvKey ?k] b (Inr ?b1)"
      using True st 10(4) by (intro reads_event(1)) (simp add: on_key_def cv_contains_def)
    have o: "open_in ?b1 d n (f\<lparr>jf_pendingKey := ?k\<rparr>) fs" using 10(3) by (simp add: open_in_def)
    have a: "accepts (f\<lparr>jf_pendingKey := ?k\<rparr>)" using True 10(4) by (simp add: accepts_def)
    have nk: "\<not> \<not> isPathAddressable ?k" "?k \<notin> fst ` set acc" using True by simp_all
    note v = 10(1)[OF nk o a]
    have "reads L (events_of (snd m) @ member_events ms) ?b1 (after_members b fs f (m # ms = []) (read_members L d n acc (m # ms)))"
    proof (rule reads_append[OF v])
      fix b' assume b': "attached ?b1 (f\<lparr>jf_pendingKey := ?k\<rparr>) fs (read_value L d n (snd m)) = Inr b'"
      then obtain n' w where r: "read_value L d n (snd m) = Inr (n', w)"
        and bb: "b' = b\<lparr>vb_nodes := n', vb_stack := \<lparr>jf_container = Obj (acc @ [(?k, w)]), jf_pendingKey = []\<rparr> # fs\<rparr>"
        using 10(4) by (cases "read_value L d n (snd m)") (auto simp: attached_def)
      have o': "open_in b' d n' \<lparr>jf_container = Obj (acc @ [(?k, w)]), jf_pendingKey = []\<rparr> fs"
        using 10(3) bb by (simp add: open_in_def)
      from 10(2)[OF nk r refl o' _ 10(5)] True r bb
      show "reads L (member_events ms) b' (after_members b fs f (m # ms = []) (read_members L d n acc (m # ms)))"
        by (cases "ms = []") (simp_all add: after_members_def)
    next
      fix e assume "attached ?b1 (f\<lparr>jf_pendingKey := ?k\<rparr>) fs (read_value L d n (snd m)) = Inl e"
      then have "read_value L d n (snd m) = Inl e" by (cases "read_value L d n (snd m)") (auto simp: attached_def)
      with True show "after_members b fs f (m # ms = []) (read_members L d n acc (m # ms)) = Inl e"
        by (simp add: after_members_def)
    qed
    from reads_step[OF k this] show ?thesis unfolding evs by simp
  qed
next
  case (12 L d n acc e es)
  have a: "accepts f" using 12(4) by (simp add: accepts_def)
  note v = 12(1)[OF 12(3) a]
  have "reads L (events_of e @ element_events es) b (after_elements b fs f (read_elements L d n acc (e # es)))"
  proof (rule reads_append[OF v])
    fix b' assume b': "attached b f fs (read_value L d n e) = Inr b'"
    then obtain n' w where r: "read_value L d n e = Inr (n', w)"
      and bb: "b' = b\<lparr>vb_nodes := n', vb_stack := f\<lparr>jf_container := Arr (acc @ [w])\<rparr> # fs\<rparr>"
      using 12(4) by (cases "read_value L d n e") (auto simp: attached_def)
    have o': "open_in b' d n' (f\<lparr>jf_container := Arr (acc @ [w])\<rparr>) fs"
      using 12(3) bb by (simp add: open_in_def)
    from 12(2)[OF r refl o'] r bb
    show "reads L (element_events es) b' (after_elements b fs f (read_elements L d n acc (e # es)))"
      by (simp add: after_elements_def)
  next
    fix err assume "attached b f fs (read_value L d n e) = Inl err"
    then have "read_value L d n e = Inl err" by (cases "read_value L d n e") (auto simp: attached_def)
    then show "after_elements b fs f (read_elements L d n acc (e # es)) = Inl err"
      by (simp add: after_elements_def)
  qed
  then show ?case by simp
qed (auto intro!: attach_step error_step simp: onScalar_def number_integer_def number_unsigned_def number_float_def
   open_stack consume_open after_members_def after_elements_def reads_none)

section \<open>The whole document\<close>

definition carrier_of :: "json_doc \<Rightarrow> error + version_id" where
  "carrier_of j = (case j of
     JUnsigned w \<Rightarrow> (if unat w > kMaxVersion then fail InvalidVersion
       (''version carrier value '' @ nat_str (unat w) @ '' is not representable in VersionId'') else Inr (ucast w))
   | JInteger i \<Rightarrow> fail InvalidVersion ''version carrier must not be negative''
   | JFloat f \<Rightarrow> fail InvalidVersion
       (''version carrier must be a native unsigned integer, got number '' @ squote @ snd f @ squote)
   | JObject ms \<Rightarrow> fail InvalidVersion ''version carrier must be a native unsigned integer, got an object''
   | JArray es \<Rightarrow> fail InvalidVersion ''version carrier must be a native unsigned integer, got an array''
   | _ \<Rightarrow> fail InvalidVersion ''version carrier must be a native unsigned integer'')"

fun read_root :: "load_limits \<Rightarrow> nat \<Rightarrow> (string \<times> config_value) list \<Rightarrow> version_id option \<Rightarrow> (string \<times> json_doc) list \<Rightarrow>
    error + (nat \<times> (string \<times> config_value) list \<times> version_id option)" where
  "read_root L n acc ver [] = Inr (n, acc, ver)"
| "read_root L n acc ver (m # ms) = (if \<not> isPathAddressable (fst m) then key_error (fst m)
     else if fst m = kVersionKey then
       (if ver \<noteq> None then duplicate_error kVersionKey
        else (case carrier_of (snd m) of Inl e \<Rightarrow> Inl e | Inr v \<Rightarrow> read_root L n acc (Some v) ms))
     else if fst m \<in> fst ` set acc then duplicate_error (fst m)
     else (case read_value L 1 n (snd m) of Inl e \<Rightarrow> Inl e
       | Inr (n', v) \<Rightarrow> read_root L n' (acc @ [(fst m, v)]) ver ms))"

definition read_document :: "load_limits \<Rightarrow> json_doc \<Rightarrow> error + (version_id option \<times> config_value)" where
  "read_document L j = (case j of
     JObject ms \<Rightarrow> (case read_root L 0 [] None ms of Inl e \<Rightarrow> Inl e
       | Inr (n, acc, ver) \<Rightarrow> (if n = maxNodes L
           then fail ParseError (''JSON document exceeds node limit ('' @ nat_str (maxNodes L) @ '')'')
           else Inr (ver, Obj acc)))
   | _ \<Rightarrow> fail ParseError ''JSON document root is not an object'')"

definition at_root :: "value_builder \<Rightarrow> nat \<Rightarrow> (string \<times> config_value) list \<Rightarrow> version_id option \<Rightarrow> bool" where
  "at_root b n acc ver \<longleftrightarrow> (\<exists>k. vb_stack b = [\<lparr>jf_container = Obj acc, jf_pendingKey = k\<rparr>]) \<and> vb_nodes b = n \<and>
     \<not> vb_nextIsCarrier b \<and> vb_version b = ver \<and> vb_sawVersionKey b = (ver \<noteq> None)"

text \<open>The value after the version key.\<close>

lemma reads_fail: "reads L [e] b (Inl x) \<Longrightarrow> reads L (e # es) b (Inl x)"
  by (auto simp: reads_def)

lemma carrier_reads:
  assumes "vb_stack b = [f]" "vb_nextIsCarrier b"
  shows "reads L (events_of j) b (map_sum id (\<lambda>v. b\<lparr>vb_nextIsCarrier := False, vb_version := Some v\<rparr>) (carrier_of j))"
proof (cases j)
  case (JObject ms)
  have "reads L [EvStartObject] b (Inl \<lparr>err_code = InvalidVersion,
      err_message = ''version carrier must be a native unsigned integer, got an object''\<rparr>)"
    using assms by (simp add: reads_def start_object_def consumeCarrierFlag_def setError_def)
  from reads_fail[OF this] JObject show ?thesis by (simp add: carrier_of_def fail_def del: Inl_fold_fail)
next
  case (JArray es)
  have "reads L [EvStartArray] b (Inl \<lparr>err_code = InvalidVersion,
      err_message = ''version carrier must be a native unsigned integer, got an array''\<rparr>)"
    using assms by (simp add: reads_def start_array_def consumeCarrierFlag_def setError_def)
  from reads_fail[OF this] JArray show ?thesis by (simp add: carrier_of_def fail_def del: Inl_fold_fail)
qed (use assms in \<open>auto simp: reads_def onScalar_def number_integer_def number_unsigned_def number_float_def
    consumeCarrierFlag_def setError_def carrier_of_def fail_def simp del: Inl_fold_fail\<close>)

lemma root_reads:
  "at_root b n acc ver \<Longrightarrow> case read_root L n acc ver ms of
     Inl e \<Rightarrow> reads L (member_events ms) b (Inl e)
   | Inr (n', acc', ver') \<Rightarrow> \<exists>b'. reads L (member_events ms) b (Inr b') \<and> at_root b' n' acc' ver'"
proof (induction ms arbitrary: b n acc ver)
  case Nil
  then show ?case by (auto intro!: exI[of _ b] reads_Nil)
next
  case (Cons m ms)
  let ?k = "fst m"
  obtain pk where st: "vb_stack b = [\<lparr>jf_container = Obj acc, jf_pendingKey = pk\<rparr>]"
    using Cons.prems by (auto simp: at_root_def)
  have b: "vb_nodes b = n" "\<not> vb_nextIsCarrier b" "vb_version b = ver" "vb_sawVersionKey b = (ver \<noteq> None)"
    using Cons.prems by (simp_all add: at_root_def)
  have evs: "member_events (m # ms) = [EvKey ?k] @ events_of (snd m) @ member_events ms" by simp
  have step: ?case if k: "reads L [EvKey ?k] b (Inr b1)" and r: "reads L (events_of (snd m)) b1 (Inr b2)"
    and a: "at_root b2 n2 acc2 ver2" and s: "read_root L n acc ver (m # ms) = read_root L n2 acc2 ver2 ms" for b1 b2 n2 acc2 ver2
    using Cons.IH[OF a] reads_step[OF k reads_step[OF r]] unfolding evs s by (auto split: sum.splits)
  have stop: ?case if k: "reads L [EvKey ?k] b (Inr b1)" and r: "reads L (events_of (snd m)) b1 (Inl e)"
    and s: "read_root L n acc ver (m # ms) = Inl e" for b1 e
    using reads_step[OF k reads_append[OF r, of "member_events ms" "Inl e"]] unfolding evs s by simp
  have bad: ?case if "read_root L n acc ver (m # ms) = Inl e" "reads L [EvKey ?k] b (Inl e)" for e
    using reads_fail[OF that(2)] that(1) by simp
  consider "\<not> isPathAddressable ?k" | (ver) "isPathAddressable ?k" "?k = kVersionKey"
    | (dup) "isPathAddressable ?k" "?k \<noteq> kVersionKey" "?k \<in> fst ` set acc"
    | (new) "isPathAddressable ?k" "?k \<noteq> kVersionKey" "?k \<notin> fst ` set acc" by blast
  then show ?case
  proof cases
    case 1
    then show ?thesis
      by (intro bad[of "\<lparr>err_code = ParseError, err_message = _\<rparr>"])
        (auto simp: key_error_def reads_def on_key_def setError_def fail_def simp del: Inl_fold_fail)
  next
    case ver
    show ?thesis
    proof (cases "ver = None")
      case False
      with ver st b show ?thesis
        by (intro bad[of "\<lparr>err_code = ParseError, err_message = _\<rparr>"])
          (auto simp: duplicate_error_def reads_def on_key_def setError_def fail_def kVersionKey_def simp del: Inl_fold_fail)
    next
      case True
      let ?b1 = "b\<lparr>vb_sawVersionKey := True, vb_nextIsCarrier := True\<rparr>"
      have k: "reads L [EvKey ?k] b (Inr ?b1)" using ver True st b by (intro reads_event(1)) (simp add: on_key_def)
      have c: "reads L (events_of (snd m)) ?b1
          (map_sum id (\<lambda>v. ?b1\<lparr>vb_nextIsCarrier := False, vb_version := Some v\<rparr>) (carrier_of (snd m)))"
        by (rule carrier_reads) (use st in simp_all)
      show ?thesis
      proof (cases "carrier_of (snd m)")
        case (Inl e)
        from stop[OF k] c Inl ver True show ?thesis by simp
      next
        case (Inr v)
        have "at_root (?b1\<lparr>vb_nextIsCarrier := False, vb_version := Some v\<rparr>) n acc (Some v)"
          using st b by (simp add: at_root_def)
        from step[OF k _ this] c Inr ver True show ?thesis by simp
      qed
    qed
  next
    case dup
    with st show ?thesis
      by (intro bad[of "\<lparr>err_code = ParseError, err_message = _\<rparr>"])
        (auto simp: duplicate_error_def reads_def on_key_def setError_def fail_def cv_contains_def simp del: Inl_fold_fail)
  next
    case new
    let ?f = "\<lparr>jf_container = Obj acc, jf_pendingKey = ?k\<rparr>"
    let ?b1 = "b\<lparr>vb_stack := [?f]\<rparr>"
    have k: "reads L [EvKey ?k] b (Inr ?b1)" using new st b by (intro reads_event(1)) (simp add: on_key_def cv_contains_def)
    have o: "open_in ?b1 1 n ?f []" using b by (simp add: open_in_def)
    have a: "accepts ?f" using new by (simp add: accepts_def)
    note v = machine_reads(1)[OF o a, of L "snd m"]
    show ?thesis
    proof (cases "read_value L 1 n (snd m)")
      case (Inl e)
      from stop[OF k] v Inl new show ?thesis by (simp add: attached_def)
    next
      case (Inr r)
      obtain n' w where r: "r = (n', w)" by (cases r)
      have "at_root (?b1\<lparr>vb_nodes := n', vb_stack := put_in w ?f # []\<rparr>) n' (acc @ [(?k, w)]) ver"
        using b by (simp add: at_root_def)
      from step[OF k _ this] v Inr new r show ?thesis by (simp add: attached_def)
    qed
  qed
qed

lemma machine_document:
  "case read_document L j of
     Inr (ver, v) \<Rightarrow> \<exists>b. sax_run L (events_of j) vb_init = Some (True, b) \<and> vb_root b = Some v \<and> vb_version b = ver
   | Inl e \<Rightarrow> \<exists>b. sax_run L (events_of j) vb_init = Some (False, b) \<and> vb_error b = Some e"
proof (cases j)
  case (JObject ms)
  have s: "sax_run L (EvStartObject # es) vb_init = sax_run L es (opened vb_init (Obj []))" for es
    by (simp add: start_object_def consumeCarrierFlag_def checkContainerDepth_def vb_init_def cv_object_def)
  have r: "at_root (opened vb_init (Obj [])) 0 [] None" by (simp add: at_root_def vb_init_def)
  show ?thesis
  proof (cases "read_root L 0 [] None ms")
    case (Inl e)
    with root_reads[OF r, of L ms] have "reads L (member_events ms) (opened vb_init (Obj [])) (Inl e)" by simp
    with s Inl JObject show ?thesis by (simp add: read_document_def reads_def)
  next
    case (Inr x)
    then obtain n acc ver where x: "read_root L 0 [] None ms = Inr (n, acc, ver)" by (cases x) auto
    with root_reads[OF r, of L ms] obtain b where b: "reads L (member_events ms) (opened vb_init (Obj [])) (Inr b)"
      "at_root b n acc ver" by auto
    then obtain k where st: "vb_stack b = [\<lparr>jf_container = Obj acc, jf_pendingKey = k\<rparr>]" by (auto simp: at_root_def)
    have "sax_run L (events_of j) vb_init = sax_run L [EvEndObject] b"
      using s b(1) by (simp add: JObject reads_def)
    then show ?thesis using b(2) st x
      by (auto simp: JObject read_document_def popFrame_def Let_def consumeNode_def setError_def at_root_def fail_def
          simp del: Inl_fold_fail)
  qed
qed (simp_all add: read_document_def vb_init_def onScalar_def number_integer_def number_unsigned_def number_float_def
   start_array_def rejectNonObjectRoot_def setError_def fail_def del: Inl_fold_fail)

section \<open>What a document reads as\<close>

lemma read_attach_Inr: "read_attach L d n v = Inr (n', w) \<longleftrightarrow>
   d \<le> kMaxTreeDepth \<and> n \<noteq> maxNodes L \<and> n' = n + 1 \<and> w = v"
  by (auto simp: read_attach_def)

text \<open>Accepted documents respect every bound, and count exactly the nodes they build.\<close>

lemma read_sound:
  "n \<le> maxNodes L \<Longrightarrow> read_value L d n j = Inr (n', v) \<Longrightarrow>
     wf_at d v \<and> n' = n + cv_nodes v \<and> n' \<le> maxNodes L"
  "n \<le> maxNodes L \<Longrightarrow> read_members L d n acc ms = Inr (n', acc') \<Longrightarrow> d \<le> kMaxTreeDepth + 1 \<Longrightarrow>
     \<exists>new. acc' = acc @ new \<and> (distinct (map fst acc) \<longrightarrow> distinct (map fst acc')) \<and>
       (\<forall>(k, v) \<in> set new. isAddressableKey k \<and> wf_at d v) \<and>
       n' = n + sum_list (map (cv_nodes \<circ> snd) new) \<and> n' \<le> maxNodes L"
  "n \<le> maxNodes L \<Longrightarrow> read_elements L d n arr es = Inr (n', arr') \<Longrightarrow> d \<le> kMaxTreeDepth + 1 \<Longrightarrow>
     \<exists>new. arr' = arr @ new \<and> (\<forall>v \<in> set new. wf_at d v) \<and>
       n' = n + sum_list (map cv_nodes new) \<and> n' \<le> maxNodes L"
proof (induction L d n j and L d n acc ms and L d n arr es arbitrary: n' v and n' acc' and n' arr'
    rule: read_value_read_members_read_elements.induct)
  case (7 L d n ms)
  then obtain n1 acc where r: "read_members L (d + 1) n [] ms = Inr (n1, acc)" "\<not> d > kMaxTreeDepth"
    "read_attach L d n1 (Obj acc) = Inr (n', v)" by (auto split: if_splits sum.splits)
  from 7(1)[OF r(2) 7(2) r(1)] r(2) obtain new where
    "acc = new" "distinct (map fst new)" "\<forall>(k, v) \<in> set new. isAddressableKey k \<and> wf_at (d + 1) v"
    "n1 = n + sum_list (map (cv_nodes \<circ> snd) new)" "n1 \<le> maxNodes L" by (auto simp: comp_def)
  with r(2,3) show ?case by (auto simp: read_attach_Inr cv_nodes_kids comp_def)
next
  case (8 L d n es)
  then obtain n1 arr where r: "read_elements L (d + 1) n [] es = Inr (n1, arr)" "\<not> d > kMaxTreeDepth"
    "read_attach L d n1 (Arr arr) = Inr (n', v)" by (auto split: if_splits sum.splits)
  from 8(1)[OF r(2) 8(2) r(1)] r(2) obtain new where
    "arr = new" "\<forall>v \<in> set new. wf_at (d + 1) v" "n1 = n + sum_list (map cv_nodes new)" "n1 \<le> maxNodes L" by auto
  with r(2,3) show ?case by (auto simp: read_attach_Inr cv_nodes_kids comp_def)
next
  case (10 L d n acc m ms)
  then have k: "\<not> \<not> isPathAddressable (fst m)" "fst m \<notin> fst ` set acc" by (auto split: if_splits)
  with 10(4) obtain n1 w where r: "read_value L d n (snd m) = Inr (n1, w)"
    "read_members L d n1 (acc @ [(fst m, w)]) ms = Inr (n', acc')" by (auto split: sum.splits)
  from 10(1)[OF k 10(3) r(1)] have w: "wf_at d w" "n1 = n + cv_nodes w" "n1 \<le> maxNodes L" by simp_all
  from 10(2)[OF k r(1) refl w(3) r(2) 10(5)] obtain new where
    "acc' = (acc @ [(fst m, w)]) @ new" "distinct (map fst (acc @ [(fst m, w)])) \<longrightarrow> distinct (map fst acc')"
    "\<forall>(k, v) \<in> set new. isAddressableKey k \<and> wf_at d v" "n' = n1 + sum_list (map (cv_nodes \<circ> snd) new)" "n' \<le> maxNodes L"
    by blast
  with w k show ?case by (intro exI[of _ "(fst m, w) # new"]) (auto simp: isPathAddressable_iff comp_def)
next
  case (12 L d n acc e es)
  then obtain n1 w where r: "read_value L d n e = Inr (n1, w)"
    "read_elements L d n1 (acc @ [w]) es = Inr (n', arr')" by (auto split: sum.splits)
  from 12(1)[OF 12(3) r(1)] have w: "wf_at d w" "n1 = n + cv_nodes w" "n1 \<le> maxNodes L" by simp_all
  from 12(2)[OF r(1) refl w(3) r(2) 12(5)] obtain new where
    "arr' = (acc @ [w]) @ new" "\<forall>v \<in> set new. wf_at d v" "n' = n1 + sum_list (map cv_nodes new)" "n' \<le> maxNodes L"
    by blast
  with w show ?case by (intro exI[of _ "w # new"]) auto
qed (auto simp: read_attach_Inr split: if_splits)

lemma root_sound:
  "n \<le> maxNodes L \<Longrightarrow> read_root L n acc ver ms = Inr (n', acc', ver') \<Longrightarrow>
     \<exists>new. acc' = acc @ new \<and> (distinct (map fst acc) \<longrightarrow> distinct (map fst acc')) \<and>
       (\<forall>(k, v) \<in> set new. isAddressableKey k \<and> k \<noteq> kVersionKey \<and> wf_at 1 v) \<and>
       n' = n + sum_list (map (cv_nodes \<circ> snd) new) \<and> n' \<le> maxNodes L"
proof (induction L n acc ver ms rule: read_root.induct)
  case (2 L n acc ver m ms)
  show ?case
  proof (cases "fst m = kVersionKey")
    case True
    with 2(4) obtain v where "ver = None" "carrier_of (snd m) = Inr v" "isPathAddressable (fst m)"
      "read_root L n acc (Some v) ms = Inr (n', acc', ver')" by (auto split: if_splits sum.splits)
    with 2(1)[OF _ True, of v] 2(3) show ?thesis by simp
  next
    case False
    with 2(4) have k: "\<not> \<not> isPathAddressable (fst m)" "fst m \<notin> fst ` set acc" by (auto split: if_splits)
    with 2(4) False obtain n1 w where r: "read_value L 1 n (snd m) = Inr (n1, w)"
      "read_root L n1 (acc @ [(fst m, w)]) ver ms = Inr (n', acc', ver')" by (auto split: sum.splits)
    from read_sound(1)[OF 2(3) r(1)] have w: "wf_at 1 w" "n1 = n + cv_nodes w" "n1 \<le> maxNodes L" by simp_all
    from 2(2)[OF k(1) False k(2) r(1) refl w(3) r(2)] obtain new where
      "acc' = (acc @ [(fst m, w)]) @ new" "distinct (map fst (acc @ [(fst m, w)])) \<longrightarrow> distinct (map fst acc')"
      "\<forall>(k, v) \<in> set new. isAddressableKey k \<and> k \<noteq> kVersionKey \<and> wf_at 1 v"
      "n' = n1 + sum_list (map (cv_nodes \<circ> snd) new)" "n' \<le> maxNodes L" by blast
    with w k False show ?thesis by (intro exI[of _ "(fst m, w) # new"]) (auto simp: isPathAddressable_iff comp_def)
  qed
qed auto

lemma document_sound:
  assumes "read_document L j = Inr (ver, v)"
  shows "wf_model_value v \<and> cv_nodes v \<le> maxNodes L \<and> \<not> cv_contains v kVersionKey"
proof -
  from assms obtain ms n acc where r: "read_root L 0 [] None ms = Inr (n, acc, ver)" "n \<noteq> maxNodes L" "v = Obj acc"
    by (auto simp: read_document_def split: json.splits sum.splits if_splits)
  from root_sound[OF _ r(1)] have "distinct (map fst acc)"
    "\<forall>(k, v) \<in> set acc. isAddressableKey k \<and> k \<noteq> kVersionKey \<and> wf_at 1 v"
    "n = sum_list (map (cv_nodes \<circ> snd) acc)" "n \<le> maxNodes L" by auto
  with r(2,3) show ?thesis by (auto simp: wf_model_value_def cv_nodes_kids comp_def cv_contains_def)
qed

section \<open>Loading\<close>

text \<open>The parser's own end: it returns, or throws out of \<open>sax_parse\<close>.\<close>

datatype parser_end = PDone | PThrows_bad_alloc | PThrows_std string | PThrows_other

type_synonym json_parser = "string \<Rightarrow> json_event list \<times> parser_end"

definition takeError :: "value_builder \<Rightarrow> error" where
  "takeError b = (case vb_error b of Some e \<Rightarrow> e | None \<Rightarrow> \<lparr>err_code = ParseError, err_message = ''JSON parse failed''\<rparr>)"

definition json_load_bytes :: "json_parser \<Rightarrow> load_limits \<Rightarrow> string \<Rightarrow> (error + vconfig) flow option" where
  "json_load_bytes parser L bytes = (case parser bytes of (evs, pend) \<Rightarrow> do {
       (ok, b) \<leftarrow> sax_run L evs vb_init;
       if \<not> ok then Some (Ret (Inl (takeError b)))
       else (case pend of
         PThrows_bad_alloc \<Rightarrow> Some Bad_alloc
       | PThrows_std what \<Rightarrow> Some (Ret (fail ParseError (''JSON load failed: '' @ what)))
       | PThrows_other \<Rightarrow> Some (Ret (fail ParseError ''JSON load failed with a non-standard exception''))
       | PDone \<Rightarrow> (case vb_version b of
             None \<Rightarrow> Some (Ret (fail InvalidVersion
               (''stream carries no version metadata ('' @ squote @ ''__version'' @ squote @ '')'')))
           | Some version \<Rightarrow> do {
               root \<leftarrow> vb_root b;
               r \<leftarrow> cm_fromValue root;
               Some (Ret (case r of Inl e \<Rightarrow> fail ParseError (err_message e)
                 | Inr m \<Rightarrow> Inr \<lparr>vc_version = version, vc_model = m\<rparr>)) })) })"

text \<open>On a stream that throws nothing.\<close>

definition json_load :: "json_parser \<Rightarrow> load_limits \<Rightarrow> string list option \<Rightarrow> (error + vconfig) flow option" where
  "json_load parser L stream = (case readBounded ''JSON'' stream (maxInputBytes L) of
     Inl e \<Rightarrow> Some (Ret (Inl e))
   | Inr bytes \<Rightarrow> json_load_bytes parser L bytes)"

lemmas json_load_unfold = json_load_def[unfolded json_load_bytes_def]

text \<open>The specification of \<open>load\<close> on a document.\<close>

definition spec_load :: "load_limits \<Rightarrow> json_doc \<Rightarrow> error + (version_id \<times> config_value)" where
  "spec_load L j = (case read_document L j of
     Inl e \<Rightarrow> Inl e
   | Inr (None, v) \<Rightarrow> fail InvalidVersion (''stream carries no version metadata ('' @ squote @ ''__version'' @ squote @ '')'')
   | Inr (Some version, v) \<Rightarrow> Inr (version, v))"

lemma load_document:
  assumes L: "maxNodes L < kNodeIdNone" and r: "readBounded ''JSON'' stream (maxInputBytes L) = Inr bytes"
    and p: "parser bytes = (events_of j, PDone)"
  shows "case spec_load L j of
      Inl e \<Rightarrow> json_load parser L stream = Some (Ret (Inl e))
    | Inr (version, v) \<Rightarrow> \<exists>m. json_load parser L stream = Some (Ret (Inr \<lparr>vc_version = version, vc_model = m\<rparr>)) \<and> models m v"
proof (cases "read_document L j")
  case (Inl e)
  with machine_document[of L j] obtain b where "sax_run L (events_of j) vb_init = Some (False, b)" "vb_error b = Some e" by auto
  with Inl show ?thesis by (simp add: json_load_unfold r p spec_load_def takeError_def)
next
  case (Inr x)
  then obtain ver v where x: "read_document L j = Inr (ver, v)" by (cases x) auto
  with machine_document[of L j] obtain b where b: "sax_run L (events_of j) vb_init = Some (True, b)" "vb_root b = Some v"
    "vb_version b = ver" by auto
  show ?thesis
  proof (cases ver)
    case None
    with b x show ?thesis by (simp add: json_load_unfold r p spec_load_def fail_def del: Inl_fold_fail)
  next
    case (Some version)
    note s = document_sound[OF x]
    from s have d: "cv_distinct v" "cv_nodes v < kNodeIdNone" "spec_fromValue v = Inr v"
      using L by (simp_all add: wf_model_value_def wf_at_validate spec_fromValue_def)
    from fromValue_refines[OF d(1,2)] d(3) obtain m where "cm_fromValue v = Some (Inr m)" "models m v" by auto
    with b x Some show ?thesis by (simp add: json_load_unfold r p spec_load_def)
  qed
qed

section \<open>Errors\<close>

text \<open>Whatever the parser delivers, a refused text is reported as one of the two documented codes.\<close>

definition load_code :: "error_code \<Rightarrow> bool" where
  "load_code c \<longleftrightarrow> c = ParseError \<or> c = InvalidVersion"

definition stops :: "vb_result \<Rightarrow> bool" where
  "stops r \<longleftrightarrow> (\<forall>b. r = Some (False, b) \<longrightarrow> (\<exists>e. vb_error b = Some e \<and> load_code (err_code e)))"

lemma stops_simps [simp]:
  "stops None" "stops (Some (True, b))" "load_code c \<Longrightarrow> stops (setError c m b)"
  by (simp_all add: stops_def setError_def)

lemma stops_steps [simp]:
  "stops (rejectNonObjectRoot b)" "stops (checkContainerDepth b)" "stops (consumeNode L b)"
  by (simp_all add: rejectNonObjectRoot_def checkContainerDepth_def consumeNode_def load_code_def)

lemma stops_seq:
  "stops r \<Longrightarrow> (\<And>b'. stops (f b')) \<Longrightarrow> stops (do { (ok, b') \<leftarrow> r; if \<not> ok then Some (False, b') else f b' })"
  by (cases r) (auto simp: stops_def split: if_splits)

lemma stops_seq_last:
  "stops r \<Longrightarrow> stops (do { (ok, b') \<leftarrow> r; Some (if ok then (True, g b') else (False, b')) })"
  by (cases r) (auto simp: stops_def split: if_splits)

lemma stops_attach: "stops (attach L v b)"
proof -
  have "stops (case vb_stack b1 of [] \<Rightarrow> None
      | back # below \<Rightarrow> do { top' \<leftarrow> attach_top v back; Some (True, b1\<lparr>vb_stack := top' # below\<rparr>) })" for b1
    by (auto simp: stops_def split: list.splits Option.bind_splits)
  from stops_seq[OF stops_steps(3) this] show ?thesis by (simp add: attach_def load_code_def)
qed

lemma stops_popFrame: "stops (popFrame L b)"
  using stops_seq_last[OF stops_steps(3)] by (simp add: popFrame_def Let_def stops_attach split: list.split)

lemma stops_event: "stops (on_event L e b)"
proof (cases e)
  case EvStartObject
  then show ?thesis using stops_seq_last[OF stops_steps(2)]
    by (simp add: start_object_def load_code_def split: prod.split)
next
  case EvStartArray
  then show ?thesis using stops_seq_last[OF stops_steps(2)]
    by (simp add: start_array_def load_code_def split: prod.split)
next
  case (EvKey k)
  then show ?thesis by (simp add: on_key_def load_code_def split: list.split)
qed (simp_all add: onScalar_def number_integer_def number_unsigned_def number_float_def stops_attach stops_popFrame
    load_code_def split: prod.split)

lemma stops_run: "stops (sax_run L evs b)"
proof (induction evs arbitrary: b)
  case (Cons e evs)
  then show ?case using stops_event[of L e b] by (auto simp: stops_def split: option.splits)
qed simp

lemma load_codes:
  assumes "json_load parser L stream = Some (Ret (Inl e))"
  shows "load_code (err_code e)"
proof (cases "readBounded ''JSON'' stream (maxInputBytes L)")
  case (Inl e')
  with assms readBounded_error[OF Inl] show ?thesis by (simp add: json_load_unfold load_code_def)
next
  case (Inr bytes)
  obtain evs pend where p: "parser bytes = (evs, pend)" by fastforce
  with assms Inr obtain ok b where b: "sax_run L evs vb_init = Some (ok, b)"
    by (cases "sax_run L evs vb_init") (auto simp: json_load_unfold)
  show ?thesis
  proof (cases ok)
    case True
    with assms Inr p b show ?thesis
      by (auto simp: json_load_unfold fail_def load_code_def simp del: Inl_fold_fail
          split: parser_end.splits option.splits Option.bind_splits sum.splits)
  next
    case False
    with stops_run[of L evs vb_init] b obtain e' where "vb_error b = Some e'" "load_code (err_code e')"
      by (auto simp: stops_def)
    with assms Inr p b False show ?thesis by (simp add: json_load_unfold takeError_def)
  qed
qed

text \<open>A text the parser reports an error on never loads.\<close>

lemma parse_error_stops: "sax_run L (evs @ EvParseError what # later) b \<noteq> Some (True, b')"
  by (induction evs arbitrary: b) (auto simp: setError_def split: option.splits)

lemma malformed_rejected:
  assumes "parser bytes = (evs @ EvParseError what # later, pend)" "readBounded ''JSON'' stream (maxInputBytes L) = Inr bytes"
    and "json_load parser L stream = Some r"
  shows "\<exists>e. r = Ret (Inl e)"
proof (cases "sax_run L (evs @ EvParseError what # later) vb_init")
  case None
  with assms show ?thesis by (simp add: json_load_unfold)
next
  case (Some x)
  obtain ok b where x: "x = (ok, b)" by (cases x)
  with Some parse_error_stops[of L evs what later vb_init b] have "\<not> ok" by (cases ok) auto
  with assms Some x show ?thesis by (auto simp: json_load_unfold)
qed

end
