(* ===== verification/Typed_Read.thy ===== *)
theory Typed_Read
  imports Node_View
begin

text \<open>
  Typed reads: \<open>detail::fitsInt\<close>, \<open>detail::convertScalar\<close> and \<open>ConfigNode::as<T>\<close> of
  \<open>include/configmanager/config_node.hpp\<close>, and \<open>ConfigModel::get<T>\<close>.
  A \<open>double\<close> is its binary64 pattern. \<open>fp\<close> is what a pattern means: a finite value is a sign and
  a magnitude counted in units of \<open>2 ^ -1074\<close>, the least positive binary64 value, so that all
  comparisons and conversions of the code are exact integer arithmetic. Conversions that may be
  inexact (\<open>std::int64_t\<close> to a floating type, \<open>double\<close> to \<open>float\<close>) round to nearest, ties to even.
  The target types are \<open>bool\<close>, \<open>std::string\<close>, the integer types of every width, \<open>float\<close> and
  \<open>double\<close>; \<open>long double\<close>, whose format the implementation chooses, is left out.
\<close>

section \<open>Floating-point values\<close>

datatype fp = FNan | FInf bool | FFin bool nat

text \<open>Units of \<open>2 ^ -1074\<close> in one.\<close>

definition unit_mag :: nat where "unit_mag = 2 ^ 1074"

definition decode64 :: "double \<Rightarrow> fp" where
  "decode64 d = (let w = unat d; sg = (w div 2 ^ 63 = 1); ex = (w div 2 ^ 52) mod 2 ^ 11; fr = w mod 2 ^ 52 in
     if ex = 2047 then (if fr = 0 then FInf sg else FNan)
     else if ex = 0 then FFin sg fr
     else FFin sg ((2 ^ 52 + fr) * 2 ^ (ex - 1)))"

fun bit_length :: "nat \<Rightarrow> nat" where
  "bit_length n = (if n = 0 then 0 else Suc (bit_length (n div 2)))"

declare bit_length.simps [simp del]

definition encode64 :: "fp \<Rightarrow> double" where
  "encode64 x = (let sign = (\<lambda>s. if s then 2 ^ 63 else 0) in case x of
     FNan \<Rightarrow> word_of_nat (2047 * 2 ^ 52 + 2 ^ 51)
   | FInf s \<Rightarrow> word_of_nat (sign s + 2047 * 2 ^ 52)
   | FFin s n \<Rightarrow> (if n < 2 ^ 52 then word_of_nat (sign s + n)
       else (let e = bit_length n - 53 in word_of_nat (sign s + (e + 1) * 2 ^ 52 + (n div 2 ^ e - 2 ^ 52)))))"

text \<open>A format: precision, the exponent of its least unit, and its largest magnitude.\<close>

record fp_format =
  prec :: nat
  low_exp :: nat
  max_mag :: nat

definition binary64 :: fp_format where
  "binary64 = \<lparr>prec = 53, low_exp = 0, max_mag = (2 ^ 53 - 1) * 2 ^ 2045\<rparr>"

definition binary32 :: fp_format where
  "binary32 = \<lparr>prec = 24, low_exp = 925, max_mag = (2 ^ 24 - 1) * 2 ^ 1178\<rparr>"

definition round_mag :: "fp_format \<Rightarrow> nat \<Rightarrow> nat" where
  "round_mag f n = (let u = 2 ^ max (low_exp f) (bit_length n - prec f); r = n div u; m = n mod u in
     if 2 * m < u \<or> (2 * m = u \<and> even r) then r * u else (r + 1) * u)"

definition round_fp :: "fp_format \<Rightarrow> fp \<Rightarrow> fp" where
  "round_fp f x = (case x of
     FFin s n \<Rightarrow> (let n' = round_mag f n in if n' > max_mag f then FInf s else FFin s n')
   | _ \<Rightarrow> x)"

definition fp_of_int :: "int \<Rightarrow> fp" where
  "fp_of_int i = FFin (i < 0) (nat \<bar>i\<bar> * unit_mag)"

text \<open>The signed number of units of a finite value, and the comparisons of C++.\<close>

definition units :: "bool \<Rightarrow> nat \<Rightarrow> int" where
  "units s n = (if s then - int n else int n)"

fun fp_less :: "fp \<Rightarrow> fp \<Rightarrow> bool" where
  "fp_less FNan y = False"
| "fp_less x FNan = False"
| "fp_less (FInf s) (FInf t) = (s \<and> \<not> t)"
| "fp_less (FInf s) (FFin t n) = s"
| "fp_less (FFin s n) (FInf t) = (\<not> t)"
| "fp_less (FFin s n) (FFin t m) = (units s n < units t m)"

fun fp_equal :: "fp \<Rightarrow> fp \<Rightarrow> bool" where
  "fp_equal (FInf s) (FInf t) = (s = t)"
| "fp_equal (FFin s n) (FFin t m) = (units s n = units t m)"
| "fp_equal x y = False"

definition fp_leq :: "fp \<Rightarrow> fp \<Rightarrow> bool" where
  "fp_leq x y \<longleftrightarrow> fp_less x y \<or> fp_equal x y"

fun is_nan :: "fp \<Rightarrow> bool" where
  "is_nan FNan = True" | "is_nan x = False"

fun is_finite_fp :: "fp \<Rightarrow> bool" where
  "is_finite_fp (FFin s n) = True" | "is_finite_fp x = False"

text \<open>Conversion of a finite value to an integer type: truncation toward zero. Anything else is undefined.\<close>

fun fp_trunc :: "fp \<Rightarrow> int option" where
  "fp_trunc (FFin s n) = Some (units s (n div unit_mag))"
| "fp_trunc x = None"

section \<open>The conversion\<close>

datatype cpp_type = TyBool | TyString | TyInteger bool nat | TyFloat | TyDouble

datatype cpp_value = VBool bool | VString string | VInteger int | VFloat fp | VDouble double

definition int_min :: "bool \<Rightarrow> nat \<Rightarrow> int" where
  "int_min sg w = (if sg then - (2 ^ (w - 1)) else 0)"

definition int_max :: "bool \<Rightarrow> nat \<Rightarrow> int" where
  "int_max sg w = (if sg then 2 ^ (w - 1) - 1 else 2 ^ w - 1)"

definition fitsInt :: "bool \<Rightarrow> nat \<Rightarrow> int \<Rightarrow> bool" where
  "fitsInt sg w value \<longleftrightarrow> (if sg then value \<ge> int_min True w \<and> value \<le> int_max True w
     else value \<ge> 0 \<and> value mod 2 ^ 64 \<le> int_max False w)"

definition kInt64Lo :: fp where "kInt64Lo = FFin True (2 ^ 63 * unit_mag)"
definition kInt64Hi :: fp where "kInt64Hi = FFin False (2 ^ 63 * unit_mag)"
definition kUint64Hi :: fp where "kUint64Hi = FFin False (2 ^ 64 * unit_mag)"
definition fp_zero :: fp where "fp_zero = FFin False 0"

text \<open>The \<open>Double\<close> branches for an unsigned and for a signed integer target.\<close>

definition double_to_unsigned :: "nat \<Rightarrow> fp \<Rightarrow> int option" where
  "double_to_unsigned w x =
     (if fp_leq fp_zero x \<and> fp_less x kUint64Hi then
        (case fp_trunc x of None \<Rightarrow> None
         | Some integral \<Rightarrow> (if fp_equal (round_fp binary64 (fp_of_int integral)) x \<and> integral \<le> int_max False w
             then Some integral else None))
      else None)"

definition double_to_signed :: "nat \<Rightarrow> fp \<Rightarrow> int option" where
  "double_to_signed w x =
     (if fp_leq kInt64Lo x \<and> fp_less x kInt64Hi then
        (case fp_trunc x of None \<Rightarrow> None
         | Some integral \<Rightarrow> (if fp_equal (round_fp binary64 (fp_of_int integral)) x \<and> fitsInt True w integral
             then Some integral else None))
      else None)"

definition double_to_float :: "fp \<Rightarrow> error + cpp_value" where
  "double_to_float x =
     (if is_nan x then Inr (VFloat x)
      else if is_finite_fp x \<and> (fp_less x (FFin True (max_mag binary32)) \<or> fp_less (FFin False (max_mag binary32)) x)
      then fail InvalidType ''Double value is outside the requested type's range''
      else (let narrowed = round_fp binary32 x in
        if fp_equal narrowed x then Inr (VFloat narrowed)
        else fail InvalidType ''Double value is not exactly representable in the requested type''))"

definition int_to_floating :: "fp_format \<Rightarrow> (fp \<Rightarrow> cpp_value) \<Rightarrow> int \<Rightarrow> error + cpp_value" where
  "int_to_floating f wrap value = (let converted = round_fp f (fp_of_int value) in
     if fp_leq (round_fp f kInt64Lo) converted \<and> fp_less converted (round_fp f kInt64Hi) \<and>
        fp_trunc converted = Some value
     then Inr (wrap converted)
     else fail InvalidType ''Int value is not exactly representable in the requested type'')"

definition convertScalar :: "cpp_type \<Rightarrow> scalar \<Rightarrow> error + cpp_value" where
  "convertScalar ty s = (case ty of
     TyBool \<Rightarrow> (case s of SBool b \<Rightarrow> Inr (VBool b) | _ \<Rightarrow> fail InvalidType ''scalar does not hold a Bool'')
   | TyString \<Rightarrow> (case s of SString t \<Rightarrow> Inr (VString t) | _ \<Rightarrow> fail InvalidType ''scalar does not hold a String'')
   | TyInteger sg w \<Rightarrow> (case s of
         SInt v \<Rightarrow> (if fitsInt sg w (sint v) then Inr (VInteger (sint v))
           else fail InvalidType ''Int value is not representable in the requested type'')
       | SDouble d \<Rightarrow> (case (if sg then double_to_signed w (decode64 d) else double_to_unsigned w (decode64 d)) of
             Some i \<Rightarrow> Inr (VInteger i)
           | None \<Rightarrow> fail InvalidType ''Double value is not an exactly representable integer in the requested type'')
       | _ \<Rightarrow> fail InvalidType ''scalar does not hold a number'')
   | TyFloat \<Rightarrow> (case s of
         SDouble d \<Rightarrow> double_to_float (decode64 d)
       | SInt v \<Rightarrow> int_to_floating binary32 VFloat (sint v)
       | _ \<Rightarrow> fail InvalidType ''scalar does not hold a number'')
   | TyDouble \<Rightarrow> (case s of
         SDouble d \<Rightarrow> Inr (VDouble d)
       | SInt v \<Rightarrow> int_to_floating binary64 (\<lambda>x. VDouble (encode64 x)) (sint v)
       | _ \<Rightarrow> fail InvalidType ''scalar does not hold a number''))"

definition cn_as :: "cpp_type \<Rightarrow> arena \<Rightarrow> config_node \<Rightarrow> error + cpp_value" where
  "cn_as ty ar h = (case cn_scalarValue ar h of Inl e \<Rightarrow> Inl e | Inr s \<Rightarrow> convertScalar ty s)"

definition cm_get :: "cpp_type \<Rightarrow> cmodel \<Rightarrow> string \<Rightarrow> (error + cpp_value) option" where
  "cm_get ty m path = map_option (\<lambda>r. case r of Inl e \<Rightarrow> Inl e | Inr h \<Rightarrow> cn_as ty (cm_arena m) h) (cm_nodeAt m path)"

section \<open>Rounding\<close>

lemma bit_length_le: "bit_length n \<le> k \<longleftrightarrow> n < 2 ^ k"
proof (induction n arbitrary: k rule: bit_length.induct)
  case (1 n)
  show ?case
  proof (cases "n = 0")
    case False
    note u = bit_length.simps[of n]
    show ?thesis
    proof (cases k)
      case (Suc j)
      have "n div 2 < 2 ^ j \<longleftrightarrow> n < 2 ^ Suc j" by (simp add: less_mult_imp_div_less) linarith
      then show ?thesis using 1[OF False, of j] False Suc by (simp add: u)
    qed (use False in \<open>simp add: u\<close>)
  qed (simp add: bit_length.simps)
qed

definition exact :: "fp_format \<Rightarrow> nat \<Rightarrow> bool" where
  "exact f n \<longleftrightarrow> (\<exists>m k. n = m * 2 ^ k \<and> m < 2 ^ prec f \<and> low_exp f \<le> k)"

lemma round_mag_exact: "exact f n \<Longrightarrow> round_mag f n = n"
proof -
  assume "exact f n"
  then obtain m j where n: "n = m * 2 ^ j" "m < 2 ^ prec f" "low_exp f \<le> j" unfolding exact_def by blast
  have "n < 2 ^ (prec f + j)" using n(1,2) by (simp add: power_add)
  then have "bit_length n - prec f \<le> j" using bit_length_le[of n "prec f + j"] by simp
  then have "max (low_exp f) (bit_length n - prec f) \<le> j" using n(3) by simp
  then have "2 ^ max (low_exp f) (bit_length n - prec f) dvd n" unfolding n(1) by (simp add: le_imp_power_dvd dvd_mult)
  then show ?thesis by (simp add: round_mag_def Let_def mod_eq_0_iff_dvd[symmetric])
qed

lemma exact_round_mag: "0 < prec f \<Longrightarrow> exact f (round_mag f n)"
proof -
  assume p: "0 < prec f"
  let ?k = "max (low_exp f) (bit_length n - prec f)"
  have "bit_length n \<le> prec f + ?k" by simp
  then have "n < 2 ^ prec f * 2 ^ ?k" using bit_length_le[of n] by (simp add: power_add)
  then have r: "n div 2 ^ ?k < 2 ^ prec f" by (simp add: less_mult_imp_div_less)
  have 1: "exact f (r * 2 ^ ?k)" if "r < 2 ^ prec f" for r unfolding exact_def
    by (rule exI[of _ r], rule exI[of _ ?k]) (simp add: that)
  have 2: "exact f (2 ^ prec f * 2 ^ ?k)" unfolding exact_def
    by (rule exI[of _ 1], rule exI[of _ "prec f + ?k"]) (use one_less_power[of "2::nat" "prec f"] p in \<open>auto simp: power_add\<close>)
  have "exact f ((n div 2 ^ ?k + 1) * 2 ^ ?k)"
  proof (cases "n div 2 ^ ?k + 1 = 2 ^ prec f")
    case True
    show ?thesis unfolding True by (rule 2)
  qed (rule 1, use r in linarith)
  with 1[OF r] show ?thesis by (simp add: round_mag_def Let_def)
qed

lemma round_mag_iff: "0 < prec f \<Longrightarrow> round_mag f n = n \<longleftrightarrow> exact f n"
  using round_mag_exact exact_round_mag by metis

lemma exact_decode64: "decode64 d = FFin s n \<Longrightarrow> exact binary64 n \<and> n \<le> max_mag binary64"
proof -
  assume d: "decode64 d = FFin s n"
  let ?e = "(unat d div 2 ^ 52) mod 2 ^ 11" and ?f = "unat d mod 2 ^ 52"
  have f: "?f < 2 ^ 52" by simp
  show ?thesis
  proof (cases "?e = 0")
    case True
    with d have n: "n = ?f" by (simp add: decode64_def Let_def)
    have "exact binary64 n" unfolding exact_def binary64_def
      by (rule exI[of _ n], rule exI[of _ 0]) (use f n in simp)
    moreover have "n \<le> 2 ^ 53 - 1" using f n by simp
    then have "n * 1 \<le> (2 ^ 53 - 1) * 2 ^ 2045" by (intro mult_le_mono) simp_all
    ultimately show ?thesis by (simp add: binary64_def)
  next
    case False
    with d have n: "n = (2 ^ 52 + ?f) * 2 ^ (?e - 1)" and e: "?e \<noteq> 2047"
      by (simp_all add: decode64_def Let_def split: if_splits)
    have "?e < 2 ^ 11" by simp
    then have e1: "?e - 1 \<le> 2045" using e by simp
    have "exact binary64 n" unfolding exact_def binary64_def
      by (rule exI[of _ "2 ^ 52 + ?f"], rule exI[of _ "?e - 1"]) (use f n in simp)
    moreover have "n \<le> (2 ^ 53 - 1) * 2 ^ 2045" unfolding n
      by (intro mult_le_mono power_increasing e1) (use f in simp_all)
    ultimately show ?thesis by (simp add: binary64_def)
  qed
qed

lemma bit_length_lower: "n < 2 ^ k \<or> k < bit_length n"
  using bit_length_le[of n k] by linarith

lemma unat_small: "n < 2 ^ 64 \<Longrightarrow> unat (word_of_nat n :: 64 word) = n"
  by (simp add: unsigned_of_nat take_bit_nat_eq_self)

lemma decode64_fields:
  assumes "ex < 2 ^ 11" "fr < 2 ^ 52"
  shows "decode64 (word_of_nat ((if s then 2 ^ 63 else 0) + ex * 2 ^ 52 + fr)) =
    (if ex = 2047 then (if fr = 0 then FInf s else FNan)
     else if ex = 0 then FFin s fr else FFin s ((2 ^ 52 + fr) * 2 ^ (ex - 1)))"
proof -
  let ?w = "(if s then 2 ^ 63 else 0) + ex * 2 ^ 52 + fr"
  have "?w < 2 ^ 64" using assms by simp
  then have u: "unat (word_of_nat ?w :: double) = ?w" by (rule unat_small)
  have f: "?w mod 2 ^ 52 = fr" using assms(2) by (simp add: mod_add_eq[symmetric])
  have d: "?w div 2 ^ 52 = (if s then 2 ^ 11 else 0) + ex" using assms(2) by (simp add: div_add1_eq)
  then have e: "?w div 2 ^ 52 mod 2 ^ 11 = ex" using assms(1) by simp
  have "?w div 2 ^ 63 = ?w div 2 ^ 52 div 2 ^ 11" by (simp add: div_mult2_eq[symmetric])
  also have "\<dots> = (if s then 1 else 0)" unfolding d using assms(1) by (auto simp: div_add_self1)
  finally have s: "(?w div 2 ^ 63 = 1) = s" by simp
  show ?thesis unfolding decode64_def Let_def u f e s ..
qed

lemma decode_encode64:
  assumes "exact binary64 n" "n \<le> max_mag binary64"
  shows "decode64 (encode64 (FFin s n)) = FFin s n"
proof (cases "n < 2 ^ 52")
  case True
  then show ?thesis using decode64_fields[of 0 n s] by (simp add: encode64_def)
next
  case False
  let ?e = "bit_length n - 53"
  have b: "53 \<le> bit_length n" using bit_length_lower[of n 52] False by simp
  have "n < 2 ^ (53 + ?e)" using bit_length_le[of n "53 + ?e"] b by simp
  then have up: "n div 2 ^ ?e < 2 ^ 53" by (simp add: power_add less_mult_imp_div_less)
  have "\<not> bit_length n \<le> 52 + ?e" using b by linarith
  then have low: "2 ^ (52 + ?e) \<le> n" by (simp only: bit_length_le not_less)
  then have lo: "2 ^ 52 \<le> n div 2 ^ ?e" by (simp add: power_add less_eq_div_iff_mult_less_eq)
  have "round_mag binary64 n = n" by (rule round_mag_exact[OF assms(1)])
  have "max_mag binary64 < 2 ^ 2098" by (simp add: binary64_def)
  with low assms(2) have "(2::nat) ^ (52 + ?e) < 2 ^ 2098" by linarith
  then have e: "?e \<le> 2045" by (simp only: power_strict_increasing_iff[of "2::nat"])
  obtain m j where n: "n = m * 2 ^ j" "m < 2 ^ 53" using assms(1) by (auto simp: exact_def binary64_def)
  have "?e \<le> j"
  proof -
    have "n < 2 ^ (53 + j)" using n by (simp add: power_add)
    then show ?thesis using bit_length_le[of n "53 + j"] by simp
  qed
  then have dv: "2 ^ ?e dvd n" unfolding n(1) by (simp add: le_imp_power_dvd)
  have "decode64 (word_of_nat ((if s then 2 ^ 63 else 0) + (?e + 1) * 2 ^ 52 + (n div 2 ^ ?e - 2 ^ 52))) =
      FFin s ((2 ^ 52 + (n div 2 ^ ?e - 2 ^ 52)) * 2 ^ ?e)"
    using e up by (subst decode64_fields) auto
  also have "(2 ^ 52 + (n div 2 ^ ?e - 2 ^ 52)) * 2 ^ ?e = n" using lo dv by simp
  finally show ?thesis using False by (simp add: encode64_def Let_def)
qed

section \<open>Reads that succeed are exact\<close>

text \<open>The integer value of a finite value, when it has one.\<close>

definition int_value :: "fp \<Rightarrow> int \<Rightarrow> bool" where
  "int_value x i \<longleftrightarrow> (\<exists>s n. x = FFin s n \<and> units s n = i * int unit_mag)"

lemma unit_mag_pos [simp]: "0 < unit_mag" "int unit_mag \<noteq> 0"
  by (simp_all add: unit_mag_def)

lemma exact_trunc:
  assumes "exact binary64 n"
  shows "exact binary64 (n div unit_mag * unit_mag)"
proof -
  obtain m k where n: "n = m * 2 ^ k" "m < 2 ^ 53" using assms by (auto simp: exact_def binary64_def)
  show ?thesis
  proof (cases "1074 \<le> k")
    case True
    then have "unit_mag dvd n" unfolding n(1) unit_mag_def by (intro dvd_mult le_imp_power_dvd)
    with assms show ?thesis by simp
  next
    case False
    then have um: "unit_mag = 2 ^ k * 2 ^ (1074 - k)" by (simp add: unit_mag_def power_add[symmetric])
    have "n div unit_mag = m div 2 ^ (1074 - k)" unfolding n(1) um div_mult2_eq by simp
    also have "\<dots> \<le> m" by (rule div_le_dividend)
    finally have "n div unit_mag < 2 ^ 53" using n(2) by simp
    then show ?thesis unfolding exact_def unit_mag_def binary64_def
      by (intro exI[of _ "n div 2 ^ 1074"] exI[of _ 1074]) simp
  qed
qed

lemma round_int_exact:
  "exact f (nat \<bar>i\<bar> * unit_mag) \<Longrightarrow> nat \<bar>i\<bar> * unit_mag \<le> max_mag f \<Longrightarrow> round_fp f (fp_of_int i) = fp_of_int i"
  by (simp add: round_fp_def fp_of_int_def round_mag_exact)

lemma units_of_int [simp]: "units (i < 0) (nat \<bar>i\<bar> * unit_mag) = i * int unit_mag"
  by (simp add: units_def)

lemma fp_equal_int: "fp_equal (fp_of_int i) (FFin s n) \<longleftrightarrow> i * int unit_mag = units s n"
  by (simp add: fp_of_int_def)

lemma trunc_int: "units s n = i * int unit_mag \<Longrightarrow> units s (n div unit_mag) = i"
proof -
  assume u: "units s n = i * int unit_mag"
  have "int n = \<bar>units s n\<bar>" by (simp add: units_def)
  then have "int n = int (nat \<bar>i\<bar> * unit_mag)" by (simp add: u abs_mult)
  then have n: "n = nat \<bar>i\<bar> * unit_mag" by (simp only: of_nat_eq_iff)
  have d: "n div unit_mag * unit_mag = n" unfolding n by simp
  have "units s (n div unit_mag) * int unit_mag = units s (n div unit_mag * unit_mag)" by (simp add: units_def)
  then show ?thesis unfolding d u using unit_mag_pos by simp
qed

lemma trunc_round:
  assumes "exact binary64 n" "n \<le> max_mag binary64"
  shows "round_fp binary64 (fp_of_int (units s (n div unit_mag))) = fp_of_int (units s (n div unit_mag))"
proof -
  have a: "nat \<bar>units s (n div unit_mag)\<bar> = n div unit_mag" by (simp add: units_def)
  have "n div unit_mag * unit_mag \<le> n" by simp
  from order_trans[OF this assms(2)] show ?thesis using exact_trunc[OF assms(1)] by (intro round_int_exact) (simp_all add: a)
qed

lemma fp_leq_fin: "fp_leq (FFin s n) (FFin t m) \<longleftrightarrow> units s n \<le> units t m"
  by (auto simp: fp_leq_def)

text \<open>The range test of the \<open>Double\<close> branches never lets an undefined truncation through.\<close>

lemma range_tests:
  "fp_leq kInt64Lo (FFin s n) \<longleftrightarrow> - (2 ^ 63 * int unit_mag) \<le> units s n"
  "fp_less (FFin s n) kInt64Hi \<longleftrightarrow> units s n < 2 ^ 63 * int unit_mag"
  "fp_leq fp_zero (FFin s n) \<longleftrightarrow> 0 \<le> units s n"
  "fp_less (FFin s n) kUint64Hi \<longleftrightarrow> units s n < 2 ^ 64 * int unit_mag"
  by (simp_all add: fp_leq_fin kInt64Lo_def kInt64Hi_def kUint64Hi_def fp_zero_def) (simp_all add: units_def)

lemma range_finite:
  "fp_leq kInt64Lo x \<Longrightarrow> fp_less x kInt64Hi \<Longrightarrow> is_finite_fp x"
  "fp_leq fp_zero x \<Longrightarrow> fp_less x kUint64Hi \<Longrightarrow> is_finite_fp x"
  by (cases x; simp add: fp_leq_def kInt64Lo_def kInt64Hi_def kUint64Hi_def fp_zero_def)+

definition in_range :: "bool \<Rightarrow> nat \<Rightarrow> int \<Rightarrow> bool" where
  "in_range sg w i \<longleftrightarrow> int_min sg w \<le> i \<and> i \<le> int_max sg w"

lemma int_max_bound: "0 < w \<Longrightarrow> w \<le> 64 \<Longrightarrow> in_range True w i \<Longrightarrow> - (2 ^ 63) \<le> i \<and> i < 2 ^ 63"
proof -
  assume w: "0 < w" "w \<le> 64" and r: "in_range True w i"
  have "(2::int) ^ (w - 1) \<le> 2 ^ 63" using w by (intro power_increasing) simp_all
  with r show ?thesis by (simp add: in_range_def int_min_def int_max_def)
qed

lemma int_max_bound_unsigned: "w \<le> 64 \<Longrightarrow> in_range False w i \<Longrightarrow> 0 \<le> i \<and> i < 2 ^ 64"
proof -
  assume w: "w \<le> 64" and r: "in_range False w i"
  have "(2::int) ^ w \<le> 2 ^ 64" using w by (intro power_increasing) simp_all
  with r show ?thesis by (simp add: in_range_def int_min_def int_max_def)
qed

lemma fitsInt_iff:
  assumes "0 < w" "w \<le> 64" "- (2 ^ 63) \<le> i" "i < 2 ^ 63"
  shows "fitsInt sg w i \<longleftrightarrow> in_range sg w i"
  using assms by (cases sg) (auto simp: fitsInt_def in_range_def int_min_def int_max_def)

lemma double_to_signed_iff:
  assumes x: "\<And>s n. x = FFin s n \<Longrightarrow> exact binary64 n \<and> n \<le> max_mag binary64" and w: "0 < w" "w \<le> 64"
  shows "double_to_signed w x = Some i \<longleftrightarrow> int_value x i \<and> in_range True w i"
proof (cases x)
  case (FFin s n)
  let ?t = "units s (n div unit_mag)"
  note rnd = trunc_round[OF conjunct1[OF x[OF FFin]] conjunct2[OF x[OF FFin]], of s]
  have bound: "- (2 ^ 63) \<le> i \<and> i < 2 ^ 63 \<Longrightarrow> units s n = i * int unit_mag \<Longrightarrow>
      - (2 ^ 63 * int unit_mag) \<le> units s n \<and> units s n < 2 ^ 63 * int unit_mag" for i
    using mult_right_mono[of "- (2 ^ 63)" i "int unit_mag"] mult_strict_right_mono[of i "2 ^ 63" "int unit_mag"] by simp
  have rev: "- (2 ^ 63 * int unit_mag) \<le> i * int unit_mag \<Longrightarrow> i * int unit_mag < 2 ^ 63 * int unit_mag \<Longrightarrow>
      - (2 ^ 63) \<le> i \<and> i < 2 ^ 63" for i :: int
    using mult_le_cancel_right[of "- (2 ^ 63)" "int unit_mag" i] mult_less_cancel_right[of i "int unit_mag" "2 ^ 63"]
    by (simp add: mult_minus_left)
  have "double_to_signed w x = Some i \<longleftrightarrow> - (2 ^ 63 * int unit_mag) \<le> units s n \<and> units s n < 2 ^ 63 * int unit_mag \<and>
      ?t * int unit_mag = units s n \<and> fitsInt True w ?t \<and> ?t = i"
    unfolding double_to_signed_def FFin range_tests fp_trunc.simps option.case rnd fp_equal_int by auto
  also have "\<dots> \<longleftrightarrow> units s n = i * int unit_mag \<and> in_range True w i"
    using bound[of i] rev[of i] trunc_int[of s n i] fitsInt_iff[OF w, of i True] int_max_bound[OF w, of i] by metis
  finally show ?thesis by (simp add: FFin int_value_def)
qed (auto simp: double_to_signed_def int_value_def fp_leq_def kInt64Lo_def kInt64Hi_def)

lemma double_to_unsigned_iff:
  assumes x: "\<And>s n. x = FFin s n \<Longrightarrow> exact binary64 n \<and> n \<le> max_mag binary64" and w: "w \<le> 64"
  shows "double_to_unsigned w x = Some i \<longleftrightarrow> int_value x i \<and> in_range False w i"
proof (cases x)
  case (FFin s n)
  let ?t = "units s (n div unit_mag)"
  note rnd = trunc_round[OF conjunct1[OF x[OF FFin]] conjunct2[OF x[OF FFin]], of s]
  have bound: "0 \<le> i \<and> i < 2 ^ 64 \<Longrightarrow> units s n = i * int unit_mag \<Longrightarrow>
      0 \<le> units s n \<and> units s n < 2 ^ 64 * int unit_mag" for i
    using mult_strict_right_mono[of i "2 ^ 64" "int unit_mag"] by simp
  have rev: "0 \<le> i * int unit_mag \<Longrightarrow> 0 \<le> i" for i :: int
    using unit_mag_pos by (auto simp: zero_le_mult_iff)
  have "double_to_unsigned w x = Some i \<longleftrightarrow> 0 \<le> units s n \<and> units s n < 2 ^ 64 * int unit_mag \<and>
      ?t * int unit_mag = units s n \<and> ?t \<le> int_max False w \<and> ?t = i"
    unfolding double_to_unsigned_def FFin range_tests fp_trunc.simps option.case rnd fp_equal_int by auto
  also have "\<dots> \<longleftrightarrow> units s n = i * int unit_mag \<and> in_range False w i"
    using bound[of i] rev[of i] trunc_int[of s n i] int_max_bound_unsigned[OF w, of i]
    unfolding in_range_def int_min_def if_False by metis
  finally show ?thesis by (simp add: FFin int_value_def)
qed (auto simp: double_to_unsigned_def int_value_def fp_leq_def kUint64Hi_def fp_zero_def)

text \<open>Reading an integer of any width: exactly the numbers with that value.\<close>

definition scalar_int :: "scalar \<Rightarrow> int \<Rightarrow> bool" where
  "scalar_int s i \<longleftrightarrow> s = SInt (word_of_int i) \<and> - (2 ^ 63) \<le> i \<and> i < 2 ^ 63 \<or>
     (\<exists>d. s = SDouble d \<and> int_value (decode64 d) i)"

lemma sint_range: "- (2 ^ 63) \<le> sint (v :: int64) \<and> sint v < 2 ^ 63"
  using sint_range_size[of v] by (simp add: word_size)

lemma sint_of_int_exact: "- (2 ^ 63) \<le> i \<Longrightarrow> i < 2 ^ 63 \<Longrightarrow> sint (word_of_int i :: int64) = i"
  by (simp add: sint_sbintrunc' signed_take_bit_int_eq_self)

lemma convert_integer_iff:
  assumes w: "0 < w" "w \<le> 64"
  shows "convertScalar (TyInteger sg w) s = Inr (VInteger i) \<longleftrightarrow> scalar_int s i \<and> in_range sg w i"
proof (cases s)
  case (SInt v)
  have "sint v = i \<longleftrightarrow> v = word_of_int i \<and> - (2 ^ 63) \<le> i \<and> i < 2 ^ 63"
    using sint_range[of v] sint_of_int_exact[of i] by auto
  with fitsInt_iff[OF w sint_range[of v, THEN conjunct1] sint_range[of v, THEN conjunct2], of sg] show ?thesis
    by (auto simp: convertScalar_def SInt scalar_int_def)
next
  case (SDouble d)
  from double_to_signed_iff[of "decode64 d" w i, OF exact_decode64 w] double_to_unsigned_iff[of "decode64 d" w i, OF exact_decode64 w(2)]
  show ?thesis by (cases sg) (auto simp: convertScalar_def SDouble scalar_int_def split: option.splits)
qed (auto simp: convertScalar_def scalar_int_def)

text \<open>Integers read as floating point, and doubles narrowed: exactly the representable ones.\<close>

definition representable :: "fp_format \<Rightarrow> fp \<Rightarrow> bool" where
  "representable f x = (case x of FFin s n \<Rightarrow> exact f n \<and> n \<le> max_mag f | _ \<Rightarrow> True)"

lemma exact_power: "p < 2 ^ prec f \<Longrightarrow> low_exp f \<le> 1074 \<Longrightarrow> exact f (p * 2 ^ k * unit_mag)"
  unfolding exact_def unit_mag_def by (rule exI[of _ p], rule exI[of _ "k + 1074"]) (simp add: power_add)

lemma round_limits:
  assumes "f = binary32 \<or> f = binary64"
  shows "round_fp f kInt64Lo = kInt64Lo" "round_fp f kInt64Hi = kInt64Hi"
proof -
  have "exact f (1 * 2 ^ 63 * unit_mag)"
    using assms by (intro exact_power) (auto simp: binary32_def binary64_def)
  moreover have "2 ^ 63 * unit_mag \<le> max_mag f"
    using assms by (auto simp: binary32_def binary64_def unit_mag_def)
  ultimately show "round_fp f kInt64Lo = kInt64Lo" "round_fp f kInt64Hi = kInt64Hi"
    by (simp_all add: round_fp_def kInt64Lo_def kInt64Hi_def round_mag_exact)
qed

lemma round_mag_units:
  assumes "round_mag f (a * unit_mag) div unit_mag = a"
  shows "round_mag f (a * unit_mag) = a * unit_mag"
proof -
  let ?k = "max (low_exp f) (bit_length (a * unit_mag) - prec f)"
  show ?thesis
  proof (cases "1074 \<le> ?k")
    case True
    have "(2::nat) ^ ?k dvd round_mag f (a * unit_mag)" by (simp add: round_mag_def Let_def)
    moreover have "unit_mag dvd 2 ^ ?k" using le_imp_power_dvd[OF True, of "2::nat"] by (simp only: unit_mag_def)
    ultimately have "unit_mag dvd round_mag f (a * unit_mag)" by (rule dvd_trans[rotated])
    with assms show ?thesis by (metis dvd_div_mult_self)
  next
    case False
    then have "2 ^ ?k dvd unit_mag" unfolding unit_mag_def by (intro le_imp_power_dvd) linarith
    then have "(a * unit_mag) mod 2 ^ ?k = 0" by (simp add: mod_eq_0_iff_dvd)
    then show ?thesis by (simp add: round_mag_def Let_def mod_eq_0_iff_dvd)
  qed
qed

lemma int_to_floating_iff:
  assumes f: "f = binary32 \<or> f = binary64" and i: "- (2 ^ 63) \<le> i" "i < 2 ^ 63"
  shows "int_to_floating f wrap i = (if representable f (fp_of_int i) then Inr (wrap (fp_of_int i))
    else fail InvalidType ''Int value is not exactly representable in the requested type'')"
proof -
  let ?N = "nat \<bar>i\<bar> * unit_mag"
  have p: "0 < prec f" using f by (auto simp: binary32_def binary64_def)
  have M: "2 ^ 63 * unit_mag \<le> max_mag f"
    using f by (auto simp: binary32_def binary64_def unit_mag_def)
  have bd: "?N \<le> 2 ^ 63 * unit_mag" using i by (intro mult_le_mono) auto
  show ?thesis
  proof (cases "exact f ?N")
    case True
    have N: "?N \<le> max_mag f" using bd M by linarith
    from round_int_exact[OF True N] have r: "round_fp f (fp_of_int i) = fp_of_int i" .
    have "representable f (fp_of_int i)" using True N by (simp add: representable_def fp_of_int_def)
    moreover have "fp_leq kInt64Lo (fp_of_int i)" "fp_less (fp_of_int i) kInt64Hi" "fp_trunc (fp_of_int i) = Some i"
      using i mult_right_mono[of "- (2 ^ 63)" i "int unit_mag"] mult_strict_right_mono[of i "2 ^ 63" "int unit_mag"]
      unfolding fp_of_int_def range_tests units_of_int fp_trunc.simps
      by (simp_all add: trunc_int[OF units_of_int, of i, simplified])
    ultimately show ?thesis by (simp add: int_to_floating_def r round_limits[OF f])
  next
    case False
    have "fp_trunc (round_fp f (fp_of_int i)) \<noteq> Some i"
    proof
      assume "fp_trunc (round_fp f (fp_of_int i)) = Some i"
      then have "units (i < 0) (round_mag f ?N div unit_mag) = i"
        by (simp add: round_fp_def fp_of_int_def Let_def split: if_splits)
      then have "nat \<bar>units (i < 0) (round_mag f ?N div unit_mag)\<bar> = nat \<bar>i\<bar>" by simp
      then have "round_mag f ?N div unit_mag = nat \<bar>i\<bar>" by (simp add: units_def split: if_splits)
      from round_mag_units[OF this] False round_mag_iff[OF p] show False by simp
    qed
    with False show ?thesis by (auto simp: int_to_floating_def round_limits[OF f] representable_def fp_of_int_def)
  qed
qed

lemma round_representable:
  "representable f (FFin s n) \<Longrightarrow> round_fp f (FFin s n) = FFin s n"
  by (simp add: representable_def round_fp_def round_mag_exact)

lemma fp_equal_round:
  assumes "0 < prec f" "n \<le> max_mag f"
  shows "fp_equal (round_fp f (FFin s n)) (FFin s n) \<longleftrightarrow> exact f n"
proof
  assume "fp_equal (round_fp f (FFin s n)) (FFin s n)"
  then have "round_mag f n = n" by (auto simp: round_fp_def Let_def units_def split: if_splits)
  with round_mag_iff[OF assms(1)] show "exact f n" by simp
next
  assume "exact f n"
  with assms(2) have "round_fp f (FFin s n) = FFin s n" by (simp add: round_fp_def round_mag_exact)
  then show "fp_equal (round_fp f (FFin s n)) (FFin s n)" by simp
qed

lemma double_to_float_iff:
  "double_to_float x = (if representable binary32 x then Inr (VFloat x)
     else if \<exists>s n. x = FFin s n \<and> max_mag binary32 < n
     then fail InvalidType ''Double value is outside the requested type's range''
     else fail InvalidType ''Double value is not exactly representable in the requested type'')"
proof (cases x)
  case (FFin s n)
  have r: "(fp_less x (FFin True (max_mag binary32)) \<or> fp_less (FFin False (max_mag binary32)) x) \<longleftrightarrow> max_mag binary32 < n"
    by (auto simp: FFin units_def)
  have p: "0 < prec binary32" by (simp add: binary32_def)
  show ?thesis
  proof (cases "max_mag binary32 < n")
    case False
    then have n: "n \<le> max_mag binary32" by simp
    from fp_equal_round[OF p n, of s] round_representable[of binary32 s n] False show ?thesis
      unfolding double_to_float_def r Let_def by (auto simp: FFin representable_def)
  qed (unfold double_to_float_def r, simp add: FFin representable_def)
qed (simp_all add: double_to_float_def representable_def round_fp_def)

text \<open>
  The specification of a typed read: the stored number itself where the target type has it,
  never a rounded or wrapped one; no conversion between kinds.
\<close>

definition scalar_fp :: "scalar \<Rightarrow> fp \<Rightarrow> bool" where
  "scalar_fp s x \<longleftrightarrow> (\<exists>d. s = SDouble d \<and> x = decode64 d) \<or> (\<exists>v. s = SInt v \<and> x = fp_of_int (sint v))"

definition spec_convert :: "cpp_type \<Rightarrow> scalar \<Rightarrow> cpp_value \<Rightarrow> bool" where
  "spec_convert ty s r \<longleftrightarrow> (case ty of
     TyBool \<Rightarrow> \<exists>b. s = SBool b \<and> r = VBool b
   | TyString \<Rightarrow> \<exists>t. s = SString t \<and> r = VString t
   | TyInteger sg w \<Rightarrow> \<exists>i. scalar_int s i \<and> in_range sg w i \<and> r = VInteger i
   | TyFloat \<Rightarrow> \<exists>x. scalar_fp s x \<and> representable binary32 x \<and> r = VFloat x
   | TyDouble \<Rightarrow> \<exists>d. r = VDouble d \<and> (s = SDouble d \<or>
       (\<exists>v. s = SInt v \<and> d = encode64 (fp_of_int (sint v)) \<and> decode64 d = fp_of_int (sint v))))"

definition wf_type :: "cpp_type \<Rightarrow> bool" where
  "wf_type ty \<longleftrightarrow> (\<forall>sg w. ty = TyInteger sg w \<longrightarrow> 0 < w \<and> w \<le> 64)"

lemma convert_error: "convertScalar ty s = Inl e \<Longrightarrow> err_code e = InvalidType"
  by (auto simp: convertScalar_def double_to_float_def int_to_floating_def Let_def fail_def
      simp del: Inl_fold_fail split: cpp_type.splits scalar.splits if_splits option.splits)

lemma representable_decode: "representable binary64 (decode64 d)"
  using exact_decode64[of d] by (cases "decode64 d") (auto simp: representable_def)

lemma decode_of_int: "representable binary64 (fp_of_int i) \<Longrightarrow> decode64 (encode64 (fp_of_int i)) = fp_of_int i"
  by (simp add: fp_of_int_def representable_def decode_encode64)

lemma convert_spec:
  assumes "wf_type ty"
  shows "convertScalar ty s = Inr r \<longleftrightarrow> spec_convert ty s r"
proof (cases ty)
  case (TyInteger sg w)
  have "convertScalar (TyInteger sg w) s = Inr r \<Longrightarrow> \<exists>i. r = VInteger i"
    by (auto simp: convertScalar_def split: scalar.splits if_splits option.splits)
  moreover have "convertScalar (TyInteger sg w) s = Inr (VInteger i) \<longleftrightarrow> scalar_int s i \<and> in_range sg w i" for i
    using assms TyInteger by (intro convert_integer_iff) (simp_all add: wf_type_def)
  ultimately show ?thesis by (auto simp: spec_convert_def TyInteger)
next
  case TyFloat
  show ?thesis
  proof (cases s)
    case (SInt v)
    show ?thesis using int_to_floating_iff[of binary32 "sint v" VFloat] sint_range[of v]
      by (auto simp: convertScalar_def spec_convert_def TyFloat SInt scalar_fp_def)
  next
    case (SDouble d)
    show ?thesis using double_to_float_iff[of "decode64 d"]
      by (auto simp: convertScalar_def spec_convert_def TyFloat SDouble scalar_fp_def)
  qed (auto simp: convertScalar_def spec_convert_def TyFloat scalar_fp_def)
next
  case TyDouble
  show ?thesis
  proof (cases s)
    case (SInt v)
    have "representable binary64 (fp_of_int (sint v)) \<longleftrightarrow> (\<exists>d. decode64 d = fp_of_int (sint v))"
      using representable_decode decode_of_int by metis
    then show ?thesis using int_to_floating_iff[of binary64 "sint v" "\<lambda>x. VDouble (encode64 x)"] sint_range[of v] decode_of_int[of "sint v"]
      by (auto simp: convertScalar_def spec_convert_def TyDouble SInt scalar_fp_def)
  qed (auto simp: convertScalar_def spec_convert_def TyDouble scalar_fp_def)
qed (auto simp: convertScalar_def spec_convert_def split: scalar.splits)

definition isfinite :: "double \<Rightarrow> bool" where
  "isfinite d \<longleftrightarrow> is_finite_fp (decode64 d)"

lemma fits_int64: "fitsInt True 64 (sint (i :: int64))"
  using fitsInt_iff[of 64 "sint i" True] sint_range[of i] by (simp add: in_range_def int_min_def int_max_def)

section \<open>Typed reads of a model\<close>

definition spec_read :: "cpp_type \<Rightarrow> config_value \<Rightarrow> string \<Rightarrow> error + cpp_value" where
  "spec_read ty v path = (case spec_get v path of
     Inl e \<Rightarrow> Inl e
   | Inr (Scal s) \<Rightarrow> convertScalar ty s
   | Inr c \<Rightarrow> fail InvalidType ''node is not a scalar'')"

lemma cm_get_models:
  assumes m: "models m v"
  shows "cm_get ty m path = Some (spec_read ty v path)"
proof (cases "spec_get v path")
  case (Inl e)
  from nodeAt_error[OF m this] show ?thesis by (simp add: cm_get_def spec_read_def Inl)
next
  case (Inr c)
  then obtain p where p: "cp_parse path = Inr p" "tree_resolve p v = Inr c"
    by (auto simp: spec_get_def split: sum.splits)
  from nodeAt_ok[OF m p] obtain h where h: "cm_nodeAt m path = Some (Inr h)" "views m h p" by blast
  from cn_scalar_views[OF h(2) m p(2)] show ?thesis
    by (cases c) (simp_all add: cm_get_def spec_read_def Inr h(1) cn_as_def fail_def del: Inl_fold_fail)
qed

text \<open>The type each scalar kind is read back with.\<close>

definition reads_back :: "cpp_scalar \<Rightarrow> cpp_type \<Rightarrow> cpp_value \<Rightarrow> bool" where
  "reads_back x ty r \<longleftrightarrow> (case x of
     CBool b \<Rightarrow> ty = TyBool \<and> r = VBool b
   | CSigned i \<Rightarrow> - (2 ^ 63) \<le> i \<and> i < 2 ^ 63 \<and> (\<exists>sg w. ty = TyInteger sg w \<and> in_range sg w i) \<and> r = VInteger i
   | CUnsigned n \<Rightarrow> (\<exists>sg w. ty = TyInteger sg w \<and> in_range sg w (int n)) \<and> r = VInteger (int n)
   | CFloat d \<Rightarrow> ty = TyDouble \<and> r = VDouble d
   | CStr t \<Rightarrow> ty = TyString \<and> t \<noteq> None \<and> r = VString (the t))"

lemma of_reads_back:
  assumes "wf_type ty" "reads_back x ty r" "ofPreconditionViolation x = None"
  shows "\<exists>s. cv_of x = Of_value (Scal s) \<and> convertScalar ty s = Inr r"
proof -
  have i: "convertScalar (TyInteger sg w) (SInt (word_of_int i)) = Inr (VInteger i)"
    if "in_range sg w i" "- (2 ^ 63) \<le> i" "i < 2 ^ 63" "wf_type (TyInteger sg w)" for sg w i
    using that convert_integer_iff[of w sg "SInt (word_of_int i)" i] by (auto simp: scalar_int_def wf_type_def)
  show ?thesis
  proof (cases x)
    case (CSigned j)
    with assms i[of _ _ j] show ?thesis by (auto simp: reads_back_def cv_of_def)
  next
    case (CUnsigned n)
    with assms(3) have "int n < 2 ^ 63" by (auto simp: ofPreconditionViolation_def split: if_splits)
    with CUnsigned assms i[of _ _ "int n"] show ?thesis by (auto simp: reads_back_def cv_of_def)
  qed (use assms in \<open>auto simp: reads_back_def cv_of_def ofPreconditionViolation_def convertScalar_def split: option.splits\<close>)
qed

lemma read_after_set:
  assumes m: "models m v" and room: "\<And>s. room_for v (Scal s)" and w: "cm_set_scalar m path x = Some (m', Inr ())"
    and r: "wf_type ty" "reads_back x ty r"
  shows "cm_get ty m' path = Some (Inr r)"
proof -
  have ok: "ofPreconditionViolation x = None" using w by (auto simp: cm_set_scalar_def split: option.splits)
  from of_reads_back[OF r ok] obtain s where s: "cv_of x = Of_value (Scal s)" "convertScalar ty s = Inr r" by blast
  have c: "cm_set m path (Scal s) = Some (m', Inr ())" using w ok s by (simp add: cm_set_scalar_def)
  from cs.put_law[OF m _ room, of s path] c obtain v' where v': "models m' v'" by fastforce
  from cs.get_put[OF m _ room c] cm.get_law[OF v', of path] have "spec_get v' path = Inr (Scal s)" by simp
  with cm_get_models[OF v'] s(2) show ?thesis by (simp add: spec_read_def)
qed

end
