(* ===== verification/Json_Save.thy ===== *)
theory Json_Save
  imports Json_Load Typed_Read
begin

text \<open>
  The JSON emitter, \<open>toJson\<close> and \<open>JsonInterface::save\<close> of \<open>backends/json/src/json_interface.cpp\<close>, and
  the round trip through a printer and a parser that agree on a document.
  \<open>value()\<close> on a failed result throws, which \<open>save\<close> would report; here it is \<open>None\<close>, and the
  refinement lemma shows that it does not happen.
\<close>

section \<open>The emitter\<close>

definition non_finite :: "string \<Rightarrow> error + 'a" where
  "non_finite name = fail SerializationError
     (''non-finite double at '' @ squote @ name @ squote @ '' is unrepresentable in JSON'')"

text \<open>The two child loops; the recursive call is an argument.\<close>

fun emit_members :: "(config_node \<Rightarrow> string \<Rightarrow> (error + 'j) option) \<Rightarrow> (string \<times> 'j) list \<Rightarrow>
    (string \<times> config_node) list \<Rightarrow> (error + (string \<times> 'j) list) option" where
  "emit_members emit acc [] = Some (Inr acc)"
| "emit_members emit acc ((key, member) # ms) = do {
     child \<leftarrow> emit member key;
     (case child of Inl e \<Rightarrow> Some (Inl e) | Inr j \<Rightarrow> emit_members emit (acc @ [(key, j)]) ms) }"

fun emit_elements :: "(nat \<Rightarrow> (error + 'j) option) \<Rightarrow> 'j list \<Rightarrow> nat list \<Rightarrow> (error + 'j list) option" where
  "emit_elements emit acc [] = Some (Inr acc)"
| "emit_elements emit acc (i # idx) = do {
     element \<leftarrow> emit i;
     (case element of Inl e \<Rightarrow> Some (Inl e) | Inr j \<Rightarrow> emit_elements emit (acc @ [j]) idx) }"

primrec toJson :: "nat \<Rightarrow> arena \<Rightarrow> config_node \<Rightarrow> string \<Rightarrow> (error + double json) option" where
  "toJson 0 ar node name = None"
| "toJson (Suc f) ar node name = do {
     ty \<leftarrow> cn_type ar node;
     (case ty of
        TNull \<Rightarrow> Some (Inr JNull)
      | TBool \<Rightarrow> (case cn_as TyBool ar node of Inr (VBool b) \<Rightarrow> Some (Inr (JBool b)) | _ \<Rightarrow> None)
      | TInt \<Rightarrow> (case cn_as (TyInteger True 64) ar node of
          Inr (VInteger i) \<Rightarrow> Some (Inr (JInteger (word_of_int i))) | _ \<Rightarrow> None)
      | TDouble \<Rightarrow> (case cn_as TyDouble ar node of
          Inr (VDouble d) \<Rightarrow> Some (if \<not> isfinite d then non_finite name else Inr (JFloat d)) | _ \<Rightarrow> None)
      | TString \<Rightarrow> (case cn_as TyString ar node of Inr (VString s) \<Rightarrow> Some (Inr (JString s)) | _ \<Rightarrow> None)
      | TObject \<Rightarrow> do {
          members \<leftarrow> cn_members ar node;
          (case members of Inl e \<Rightarrow> None
           | Inr ms \<Rightarrow> map_option (map_sum id JObject) (emit_members (toJson f ar) [] ms)) }
      | TArray \<Rightarrow> do {
          n \<leftarrow> cn_size ar node;
          map_option (map_sum id JArray) (emit_elements (\<lambda>i. do {
            c \<leftarrow> cn_at ar node i;
            (case c of Inl e \<Rightarrow> None | Inr child \<Rightarrow> toJson f ar child (nat_str i)) }) [] [0..<n]) }) }"

section \<open>Saving\<close>

text \<open>What the printer does with a document, and whether the stream takes the text.\<close>

datatype dump_outcome = DText string | DThrows_bad_alloc | DThrows_std string | DThrows_other

text \<open>What an insertion into a stream does; one without an exception mask throws nothing.\<close>

datatype stream_outcome = Stream_good | Stream_bad | Stream_throws_bad_alloc | Stream_throws_std string | Stream_throws_other

definition quiet_stream :: "(string \<Rightarrow> bool) \<Rightarrow> string \<Rightarrow> stream_outcome" where
  "quiet_stream accepts_text t = (if accepts_text t then Stream_good else Stream_bad)"

lemma quiet_stream_case: "(case quiet_stream accepts_text t of
    Stream_good \<Rightarrow> Ret x | Stream_bad \<Rightarrow> Ret y | Stream_throws_bad_alloc \<Rightarrow> a | Stream_throws_std what \<Rightarrow> b what | Stream_throws_other \<Rightarrow> c) =
  Ret (if accepts_text t then x else y)"
  by (simp add: quiet_stream_def)

definition json_save_to :: "(double json \<Rightarrow> dump_outcome) \<Rightarrow> vconfig \<Rightarrow> (string \<Rightarrow> stream_outcome) \<Rightarrow>
    (string option \<times> (error + unit) flow) option" where
  "json_save_to dump config out = do {
     reserved \<leftarrow> cm_contains (vc_model config) kVersionKey;
     if reserved then Some (None, Ret (fail SerializationError
       (''model contains the reserved version carrier '' @ squote @ ''__version'' @ squote @ '' (ADR-020)'')))
     else do {
       root \<leftarrow> cm_root (vc_model config);
       members \<leftarrow> cn_members (cm_arena (vc_model config)) root;
       (case members of Inl e \<Rightarrow> None
        | Inr ms \<Rightarrow> do {
            r \<leftarrow> emit_members (toJson stack_fuel (cm_arena (vc_model config)))
              [(kVersionKey, JUnsigned (ucast (vc_version config)))] ms;
            (case r of Inl e \<Rightarrow> Some (None, Ret (Inl e))
             | Inr doc \<Rightarrow> (case dump (JObject doc) of
                 DThrows_bad_alloc \<Rightarrow> Some (None, Bad_alloc)
               | DThrows_std what \<Rightarrow> Some (None, Ret (fail SerializationError (''JSON save failed: '' @ what)))
               | DThrows_other \<Rightarrow> Some (None, Ret (fail SerializationError
                   ''JSON save failed with a non-standard exception''))
               | DText t \<Rightarrow> Some (Some (t @ [CHR 0x0A]), (case out (t @ [CHR 0x0A]) of
                   Stream_good \<Rightarrow> Ret (Inr ())
                 | Stream_bad \<Rightarrow> Ret (fail SerializationError ''failed to write JSON document to stream'')
                 | Stream_throws_bad_alloc \<Rightarrow> Bad_alloc
                 | Stream_throws_std what \<Rightarrow> Ret (fail SerializationError (''JSON save failed: '' @ what))
                 | Stream_throws_other \<Rightarrow> Ret (fail SerializationError ''JSON save failed with a non-standard exception''))))) }) } }"

definition json_save :: "(double json \<Rightarrow> dump_outcome) \<Rightarrow> vconfig \<Rightarrow> (string \<Rightarrow> bool) \<Rightarrow>
    (string option \<times> (error + unit) flow) option" where
  "json_save dump config accepts_text = json_save_to dump config (quiet_stream accepts_text)"

lemma json_save_unfold: "json_save dump config accepts_text = do {
     reserved \<leftarrow> cm_contains (vc_model config) kVersionKey;
     if reserved then Some (None, Ret (fail SerializationError
       (''model contains the reserved version carrier '' @ squote @ ''__version'' @ squote @ '' (ADR-020)'')))
     else do {
       root \<leftarrow> cm_root (vc_model config);
       members \<leftarrow> cn_members (cm_arena (vc_model config)) root;
       (case members of Inl e \<Rightarrow> None
        | Inr ms \<Rightarrow> do {
            r \<leftarrow> emit_members (toJson stack_fuel (cm_arena (vc_model config)))
              [(kVersionKey, JUnsigned (ucast (vc_version config)))] ms;
            (case r of Inl e \<Rightarrow> Some (None, Ret (Inl e))
             | Inr doc \<Rightarrow> (case dump (JObject doc) of
                 DThrows_bad_alloc \<Rightarrow> Some (None, Bad_alloc)
               | DThrows_std what \<Rightarrow> Some (None, Ret (fail SerializationError (''JSON save failed: '' @ what)))
               | DThrows_other \<Rightarrow> Some (None, Ret (fail SerializationError
                   ''JSON save failed with a non-standard exception''))
               | DText t \<Rightarrow> Some (Some (t @ [CHR 0x0A]), Ret (if accepts_text (t @ [CHR 0x0A]) then Inr ()
                   else fail SerializationError ''failed to write JSON document to stream'')))) }) } }"
  unfolding json_save_def json_save_to_def quiet_stream_case ..


section \<open>The emitted document\<close>

text \<open>What the emitter makes of a value.\<close>

fun json_of :: "string \<Rightarrow> config_value \<Rightarrow> error + double json"
  and json_members :: "(string \<times> double json) list \<Rightarrow> (string \<times> config_value) list \<Rightarrow> error + (string \<times> double json) list"
  and json_elements :: "double json list \<Rightarrow> config_value list \<Rightarrow> error + double json list" where
  "json_of name (Scal s) = (case s of SNull \<Rightarrow> Inr JNull | SBool b \<Rightarrow> Inr (JBool b) | SInt i \<Rightarrow> Inr (JInteger i)
     | SDouble d \<Rightarrow> (if isfinite d then Inr (JFloat d) else non_finite name) | SString t \<Rightarrow> Inr (JString t))"
| "json_of name (Obj ms) = map_sum id JObject (json_members [] ms)"
| "json_of name (Arr es) = map_sum id JArray (json_elements [] es)"
| "json_members acc [] = Inr acc"
| "json_members acc ((k, v) # ms) = (case json_of k v of Inl e \<Rightarrow> Inl e | Inr j \<Rightarrow> json_members (acc @ [(k, j)]) ms)"
| "json_elements acc [] = Inr acc"
| "json_elements acc (v # es) = (case json_of (nat_str (length acc)) v of Inl e \<Rightarrow> Inl e
     | Inr j \<Rightarrow> json_elements (acc @ [j]) es)"

lemma emit_members_json:
  assumes "\<forall>(k, c) \<in> set ms. emit (H k) k = Some (json_of k c)"
  shows "emit_members emit acc (map (\<lambda>(k, c). (k, H k)) ms) = Some (json_members acc ms)"
  using assms
proof (induction ms arbitrary: acc)
  case (Cons m ms)
  then show ?case by (cases m) (auto split: sum.splits)
qed simp

lemma emit_elements_json:
  assumes "\<And>i. i < length es \<Longrightarrow> emit i = Some (json_of (nat_str i) (es ! i))" and "length acc = j" "j \<le> length es"
  shows "emit_elements emit acc [j..<length es] = Some (json_elements acc (drop j es))"
  using assms(2,3)
proof (induction "length es - j" arbitrary: acc j)
  case 0
  then show ?case by simp
next
  case (Suc x)
  then have j: "j < length es" by simp
  have d: "drop j es = es ! j # drop (Suc j) es" using Cons_nth_drop_Suc[OF j] by simp
  have "emit_elements emit (acc @ [y]) [Suc j..<length es] = Some (json_elements (acc @ [y]) (drop (Suc j) es))" for y
    using Suc(2) Suc.prems j by (intro Suc(1)) auto
  then show ?case using assms(1)[OF j] Suc.prems(1) by (auto simp: d upt_conv_Cons[OF j] split: sum.splits)
qed

text \<open>Emitting through handles computes it: no handle goes stale and no accessor is asked for the wrong type.\<close>

lemma toJson_views:
  assumes "models m v"
  shows "views m h p \<Longrightarrow> tree_resolve p v = Inr c \<Longrightarrow> wf_at d c \<Longrightarrow> kMaxTreeDepth < d + f \<Longrightarrow>
    toJson f (cm_arena m) h name = Some (json_of name c)"
proof (induction f arbitrary: h p c d name)
  case 0
  then show ?case using wf_at_depth[OF 0(3)] by simp
next
  case (Suc f)
  note ty = cn_type_views[OF Suc(2) assms Suc(3)]
  show ?case
  proof (cases c)
    case (Scal s)
    note sv = cn_scalar_views[OF Suc(2) assms Suc(3)]
    show ?thesis using ty sv
      by (cases s) (simp_all add: Scal cn_as_def convertScalar_def fits_int64)
  next
    case (Obj ms)
    from cn_members_views[OF Suc(2) assms, of ms] Suc(3) Obj obtain H where
      H: "cn_members (cm_arena m) h = Some (Inr (map (\<lambda>(k, c). (k, H k)) ms))"
        "\<forall>(k, c) \<in> set ms. views m (H k) (p @ [Key k])" by auto
    have e: "toJson f (cm_arena m) (H k) k = Some (json_of k c')" if kc: "(k, c') \<in> set ms" for k c'
    proof (rule Suc.IH)
      show "views m (H k) (p @ [Key k])" using H(2) kc by blast
      have "map_of ms k = Some c'" using kc Suc(4) Obj by simp
      then show "tree_resolve (p @ [Key k]) v = Inr c'" using Suc(3) Obj by (simp add: tree_resolve_append)
      show "wf_at (Suc d) c'" using Suc(4) kc unfolding Obj by auto
    qed (use Suc(5) in simp)
    then have "\<forall>(k, c') \<in> set ms. toJson f (cm_arena m) (H k) k = Some (json_of k c')" by blast
    from emit_members_json[of ms "toJson f (cm_arena m)" H "[]", OF this] H(1) ty show ?thesis by (simp add: Obj)
  next
    case (Arr es)
    have sz: "cn_size (cm_arena m) h = Some (length es)" using cn_size_views[OF Suc(2) assms Suc(3)] Arr by simp
    let ?emit = "\<lambda>i. do { c \<leftarrow> cn_at (cm_arena m) h i;
      (case c of Inl e \<Rightarrow> None | Inr child \<Rightarrow> toJson f (cm_arena m) child (nat_str i)) }"
    have "?emit i = Some (json_of (nat_str i) (es ! i))" if i: "i < length es" for i
    proof -
      from cn_at_views(1)[OF Suc(2) assms _ i] Suc(3) Arr obtain h' where
        h': "cn_at (cm_arena m) h i = Some (Inr h')" "views m h' (p @ [Index i])" by auto
      have "toJson f (cm_arena m) h' (nat_str i) = Some (json_of (nat_str i) (es ! i))"
      proof (rule Suc.IH[OF h'(2)])
        show "tree_resolve (p @ [Index i]) v = Inr (es ! i)" using Suc(3) Arr i by (simp add: tree_resolve_append)
        show "wf_at (Suc d) (es ! i)" using Suc(4) i unfolding Arr by simp
      qed (use Suc(5) in simp)
      with h'(1) show ?thesis by simp
    qed
    from emit_elements_json[of es ?emit "[]" 0, OF this] sz ty show ?thesis by (simp add: Arr)
  qed
qed

section \<open>Documents without errors\<close>

primrec document_of :: "config_value \<Rightarrow> double json" where
  "document_of (Scal s) = (case s of SNull \<Rightarrow> JNull | SBool b \<Rightarrow> JBool b | SInt i \<Rightarrow> JInteger i
     | SDouble d \<Rightarrow> JFloat d | SString t \<Rightarrow> JString t)"
| "document_of (Obj ms) = JObject (map (map_prod id document_of) ms)"
| "document_of (Arr es) = JArray (map document_of es)"

primrec finite_doubles :: "config_value \<Rightarrow> bool" where
  "finite_doubles (Scal s) = (case s of SDouble d \<Rightarrow> isfinite d | _ \<Rightarrow> True)"
| "finite_doubles (Obj ms) = list_all snd (map (map_prod id finite_doubles) ms)"
| "finite_doubles (Arr es) = list_all id (map finite_doubles es)"

lemma finite_doubles_simps [simp]:
  "finite_doubles (Obj ms) \<longleftrightarrow> (\<forall>(k, v) \<in> set ms. finite_doubles v)"
  "finite_doubles (Arr es) \<longleftrightarrow> (\<forall>v \<in> set es. finite_doubles v)"
  by (auto simp: list_all_iff)

declare finite_doubles.simps(2,3) [simp del]

text \<open>Emitting fails on exactly the values that hold a non-finite double.\<close>

lemma json_of_finite:
  "finite_doubles v \<Longrightarrow> json_of name v = Inr (document_of v)"
  "\<forall>(k, v) \<in> set ms. finite_doubles v \<Longrightarrow> json_members acc ms = Inr (acc @ map (map_prod id document_of) ms)"
  "\<forall>v \<in> set es. finite_doubles v \<Longrightarrow> json_elements acc' es = Inr (acc' @ map document_of es)"
  by (induction name v and acc ms and acc' es rule: json_of_json_members_json_elements.induct)
    (auto simp: map_prod_def split: scalar.splits)

lemma json_of_infinite:
  "\<not> finite_doubles v \<Longrightarrow> has_code (json_of name v) SerializationError"
  "\<not> (\<forall>(k, v) \<in> set ms. finite_doubles v) \<Longrightarrow> has_code (json_members acc ms) SerializationError"
  "\<not> (\<forall>v \<in> set es. finite_doubles v) \<Longrightarrow> has_code (json_elements acc' es) SerializationError"
proof (induction name v and acc ms and acc' es rule: json_of_json_members_json_elements.induct)
  case (1 name s)
  then show ?case by (auto simp: non_finite_def split: scalar.splits)
next
  case (2 name ms)
  then show ?case by (cases "json_members [] ms") simp_all
next
  case (3 name es)
  then show ?case by (cases "json_elements [] es") simp_all
next
  case (5 acc k v ms)
  then show ?case using json_of_finite(1)[of v k] by (cases "finite_doubles v"; cases "json_of k v") auto
next
  case (7 acc v es)
  then show ?case using json_of_finite(1)[of v "nat_str (length acc)"]
    by (cases "finite_doubles v"; cases "json_of (nat_str (length acc)) v") auto
qed simp_all

section \<open>The round trip\<close>

text \<open>
  The document a parser sees for a printed one: a non-negative integer literal arrives as an
  unsigned number, and a float carries the literal \<open>lit\<close> the printer chose.
\<close>

primrec printed :: "(double \<Rightarrow> string) \<Rightarrow> double json \<Rightarrow> json_doc" where
  "printed lit JNull = JNull"
| "printed lit (JBool b) = JBool b"
| "printed lit (JInteger i) = (if sint i < 0 then JInteger i else JUnsigned i)"
| "printed lit (JUnsigned w) = JUnsigned w"
| "printed lit (JFloat d) = JFloat (d, lit d)"
| "printed lit (JString s) = JString s"
| "printed lit (JObject ms) = JObject (map (map_prod id (printed lit)) ms)"
| "printed lit (JArray es) = JArray (map (printed lit) es)"

definition float_literal :: "string \<Rightarrow> bool" where
  "float_literal s \<longleftrightarrow> find (\<lambda>c. c \<in> set ''.eE'') s \<noteq> None"

lemma nonneg_unat: "\<not> sint (i :: int64) < 0 \<Longrightarrow> unat i \<le> kMaxInt"
proof -
  assume n: "\<not> sint i < 0"
  have "uint i = sint i" using n sint_range[of i] by (simp add: uint_sint take_bit_int_eq_self)
  with sint_range[of i] have "uint i < 2 ^ 63" by simp
  then have "int (unat i) < int (2 ^ 63)" by simp
  then have "unat i < 2 ^ 63" by (simp only: of_nat_less_iff)
  then show ?thesis by (simp add: kMaxInt_def)
qed

lemma read_printed:
  assumes lit: "\<And>d. float_literal (lit d)"
  shows "wf_at d v \<Longrightarrow> n + cv_nodes v \<le> maxNodes L \<Longrightarrow>
    read_value L d n (printed lit (document_of v)) = Inr (n + cv_nodes v, v)"
proof (induction v arbitrary: d n)
  case (Scal s)
  show ?case
  proof (cases s)
    case (SInt i)
    with Scal nonneg_unat[of i] show ?thesis by (auto simp: read_attach_def not_less)
  qed (use Scal lit in \<open>auto simp: read_attach_def float_literal_def\<close>)
next
  case (Obj ms)
  have "read_members L (d + 1) n0 acc (map (map_prod id (printed lit)) (map (map_prod id document_of) ms')) =
      Inr (n0 + sum_list (map (cv_nodes \<circ> snd) ms'), acc @ ms')"
    if "set ms' \<subseteq> set ms" "distinct (map fst acc @ map fst ms')" "n0 + sum_list (map (cv_nodes \<circ> snd) ms') \<le> maxNodes L"
    for ms' acc n0
    using that
  proof (induction ms' arbitrary: acc n0)
    case (Cons m ms')
    obtain k w where m: "m = (k, w)" by (cases m)
    have kw: "(k, w) \<in> set ms" using Cons.prems(1) m by simp
    have w: "isAddressableKey k" "wf_at (d + 1) w" using Obj.prems(1) kw by auto
    have "w \<in> Basic_BNFs.snds (k, w)" by (simp add: snds.simps)
    from Obj.IH[OF kw this w(2), of n0] Cons.prems(3) m
    have "read_value L (d + 1) n0 (printed lit (document_of w)) = Inr (n0 + cv_nodes w, w)" by simp
    with Cons.IH[of "acc @ [(k, w)]" "n0 + cv_nodes w"] Cons.prems w(1) m show ?case
      by (simp add: isPathAddressable_iff add.assoc)
  qed simp
  from this[of ms "[]" n] Obj.prems show ?case
    by (auto simp: read_attach_def cv_nodes_kids comp_def)
next
  case (Arr es)
  have "read_elements L (d + 1) n0 acc (map (printed lit) (map document_of es')) =
      Inr (n0 + sum_list (map cv_nodes es'), acc @ es')"
    if "set es' \<subseteq> set es" "n0 + sum_list (map cv_nodes es') \<le> maxNodes L" for es' acc n0
    using that
  proof (induction es' arbitrary: acc n0)
    case (Cons w es')
    have w: "w \<in> set es" "wf_at (d + 1) w" using Cons.prems(1) Arr.prems(1) by auto
    from Arr.IH[OF w, of n0] Cons.prems(2)
    have "read_value L (d + 1) n0 (printed lit (document_of w)) = Inr (n0 + cv_nodes w, w)" by simp
    with Cons.IH[of "n0 + cv_nodes w" "acc @ [w]"] Cons.prems show ?case by (simp add: add.assoc)
  qed simp
  from this[of es n "[]"] Arr.prems show ?case
    by (auto simp: read_attach_def cv_nodes_kids)
qed

definition spec_save :: "vconfig \<Rightarrow> config_value \<Rightarrow> double json" where
  "spec_save config v = JObject ((kVersionKey, JUnsigned (ucast (vc_version config))) #
     map (map_prod id document_of) (cv_members v))"

lemma unat_ucast_version: "unat (ucast (w :: version_id) :: 64 word) \<le> kMaxVersion"
proof -
  have w: "unat w < 2 ^ 32" by (rule less_le_trans[OF unsigned_less]) simp
  then have "unat (ucast w :: 64 word) = unat w" by (simp add: unsigned_ucast_eq take_bit_nat_eq_self)
  with w show ?thesis by (simp add: kMaxVersion_def)
qed

lemma ucast_version: "ucast (ucast (w :: version_id) :: 64 word) = w"
  by (simp add: ucast_up_ucast_id is_up)

lemma save_emits:
  assumes m: "models (vc_model config) v"
  shows "json_save dump config ok = (if cv_contains v kVersionKey
    then Some (None, Ret (fail SerializationError
       (''model contains the reserved version carrier '' @ squote @ ''__version'' @ squote @ '' (ADR-020)'')))
    else (case json_members [(kVersionKey, JUnsigned (ucast (vc_version config)))] (cv_members v) of
       Inl e \<Rightarrow> Some (None, Ret (Inl e))
     | Inr doc \<Rightarrow> (case dump (JObject doc) of
         DThrows_bad_alloc \<Rightarrow> Some (None, Bad_alloc)
       | DThrows_std what \<Rightarrow> Some (None, Ret (fail SerializationError (''JSON save failed: '' @ what)))
       | DThrows_other \<Rightarrow> Some (None, Ret (fail SerializationError ''JSON save failed with a non-standard exception''))
       | DText t \<Rightarrow> Some (Some (t @ [CHR 0x0A]), Ret (if ok (t @ [CHR 0x0A]) then Inr ()
           else fail SerializationError ''failed to write JSON document to stream'')))))"
proof -
  let ?ar = "cm_arena (vc_model config)"
  have wf: "wf_model_value v" by (rule models_wf[OF m])
  then obtain ms where ms: "v = Obj ms" by (cases v) (auto simp: wf_model_value_def)
  have k: "cp_parse kVersionKey = Inr [Key kVersionKey]"
    by (rule cp_parse_key) (simp add: kVersionKey_def isAddressableKey_def is_reserved_def)
  have c: "cm_contains (vc_model config) kVersionKey = Some (cv_contains v kVersionKey)"
  proof -
    have "kVersionKey \<in> fst ` set ms \<longleftrightarrow> map_of ms kVersionKey \<noteq> None" by (simp add: map_of_eq_None_iff)
    with cm.has_law[OF m, of kVersionKey] show ?thesis
      by (auto simp: spec_get_def k ms cv_contains_def no_member_def split: option.splits)
  qed
  from root_views[OF m] obtain h where h: "cm_root (vc_model config) = Some h" "views (vc_model config) h []" by blast
  from cn_members_views[OF h(2) m, of ms] ms obtain H where
    H: "cn_members ?ar h = Some (Inr (map (\<lambda>(k, c). (k, H k)) ms))" "\<forall>(k, c) \<in> set ms. views (vc_model config) (H k) [Key k]" by auto
  have "toJson stack_fuel ?ar (H k) k = Some (json_of k c)" if kc: "(k, c) \<in> set ms" for k c
  proof (rule toJson_views[OF m])
    show "views (vc_model config) (H k) [Key k]" using H(2) kc by blast
    show "tree_resolve [Key k] v = Inr c" using wf kc ms by (auto simp: wf_model_value_def)
    show "wf_at 1 c" using wf kc unfolding ms by (auto simp: wf_model_value_def)
  qed (simp add: stack_fuel_def)
  then have "\<forall>(k, c) \<in> set ms. toJson stack_fuel ?ar (H k) k = Some (json_of k c)" by blast
  from emit_members_json[of ms "toJson stack_fuel ?ar" H, OF this] show ?thesis
    by (auto simp: json_save_unfold c h(1) H(1) ms cv_members_def split: sum.splits dump_outcome.splits)
qed

lemma root_printed:
  assumes lit: "\<And>d. float_literal (lit d)" and ms: "\<forall>(k, v) \<in> set ms. isAddressableKey k \<and> k \<noteq> kVersionKey \<and> wf_at 1 v"
    and "distinct (map fst acc @ map fst ms)" and "n + sum_list (map (cv_nodes \<circ> snd) ms) \<le> maxNodes L"
  shows "read_root L n acc ver (map (map_prod id (printed lit)) (map (map_prod id document_of) ms)) =
    Inr (n + sum_list (map (cv_nodes \<circ> snd) ms), acc @ ms, ver)"
  using assms(2-)
proof (induction ms arbitrary: n acc)
  case (Cons m ms)
  obtain k w where m: "m = (k, w)" by (cases m)
  have w: "isAddressableKey k" "k \<noteq> kVersionKey" "wf_at 1 w" using Cons.prems(1) m by auto
  have r: "read_value L 1 n (printed lit (document_of w)) = Inr (n + cv_nodes w, w)"
    by (rule read_printed[OF lit w(3)]) (use Cons.prems(3) m in simp)
  with Cons.IH[of "acc @ [(k, w)]" "n + cv_nodes w"] Cons.prems w(1,2) m show ?case
    by (simp add: isPathAddressable_iff add.assoc)
qed simp

lemma document_printed:
  assumes lit: "\<And>d. float_literal (lit d)" and v: "wf_model_value v" "\<not> cv_contains v kVersionKey" "cv_nodes v \<le> maxNodes L"
  shows "spec_load L (printed lit (spec_save config v)) = Inr (vc_version config, v)"
proof -
  obtain ms where ms: "v = Obj ms" using v(1) by (cases v) (auto simp: wf_model_value_def)
  have 1: "\<forall>(k, v) \<in> set ms. isAddressableKey k \<and> k \<noteq> kVersionKey \<and> wf_at 1 v"
    using v(1,2) by (force simp: ms wf_model_value_def cv_contains_def)
  have 2: "distinct (map fst [] @ map fst ms)" using v(1) by (simp add: ms wf_model_value_def)
  have n: "cv_nodes v = Suc (sum_list (map (cv_nodes \<circ> snd) ms))" by (simp add: ms cv_nodes_kids comp_def)
  have 3: "0 + sum_list (map (cv_nodes \<circ> snd) ms) \<le> maxNodes L" using n v(3) by simp
  have k: "isPathAddressable kVersionKey"
    by (simp add: isPathAddressable_iff kVersionKey_def isAddressableKey_def is_reserved_def)
  have "carrier_of (JUnsigned (ucast (vc_version config))) = Inr (vc_version config)"
    using unat_ucast_version[of "vc_version config"] by (simp add: carrier_of_def not_less ucast_version)
  then show ?thesis using root_printed[OF lit 1 2 3, of "Some (vc_version config)"] n v(3) k
    by (simp add: spec_load_def read_document_def spec_save_def ms cv_members_def)
qed

text \<open>
  Saving and loading again, through a printer that writes the document and a parser that reads
  its text back as the document's events, in whatever chunks the stream delivers it.
\<close>

lemma json_roundtrip:
  assumes m: "models (vc_model config) v" and fin: "finite_doubles v" and key: "\<not> cv_contains v kVersionKey"
    and L: "cv_nodes v \<le> maxNodes L" "maxNodes L < kNodeIdNone" "maxInputBytes L < 2 ^ 64"
    and dump: "dump (spec_save config v) = DText t" and lit: "\<And>d. float_literal (lit d)"
    and parse: "parser (t @ [CHR 0x0A]) = (events_of (printed lit (spec_save config v)), PDone)"
    and chunks: "concat chunks = t @ [CHR 0x0A]" "[] \<notin> set chunks" "length t < maxInputBytes L"
  shows "json_save dump config ok = Some (Some (t @ [CHR 0x0A]), Ret (if ok (t @ [CHR 0x0A]) then Inr ()
        else fail SerializationError ''failed to write JSON document to stream''))"
    "\<exists>m'. json_load parser L (Some chunks) = Some (Ret (Inr \<lparr>vc_version = vc_version config, vc_model = m'\<rparr>)) \<and> models m' v"
proof -
  have wf: "wf_model_value v" by (rule models_wf[OF m])
  then obtain ms where ms: "v = Obj ms" by (cases v) (auto simp: wf_model_value_def)
  have "json_members [(kVersionKey, JUnsigned (ucast (vc_version config)))] (cv_members v) =
      Inr ((kVersionKey, JUnsigned (ucast (vc_version config))) # map (map_prod id document_of) ms)"
    using json_of_finite(2)[of ms] fin by (simp add: ms cv_members_def)
  with save_emits[OF m] key dump show "json_save dump config ok = Some (Some (t @ [CHR 0x0A]), Ret (if ok (t @ [CHR 0x0A]) then Inr ()
        else fail SerializationError ''failed to write JSON document to stream''))"
    by (simp add: spec_save_def ms cv_members_def)
  have r: "readBounded ''JSON'' (Some chunks) (maxInputBytes L) = Inr (t @ [CHR 0x0A])"
    using readBounded_spec[OF chunks(2) L(3)] chunks(1,3) by simp
  from load_document[of L "Some chunks" "t @ [CHR 0x0A]" parser, OF L(2) r parse] document_printed[OF lit wf key L(1)]
  show "\<exists>m'. json_load parser L (Some chunks) = Some (Ret (Inr \<lparr>vc_version = vc_version config, vc_model = m'\<rparr>)) \<and> models m' v"
    by simp
qed

end
