(* ===== verification/Number_Text.thy ===== *)
theory Number_Text
  imports Typed_Read
begin

text \<open>
  Numbers as text, the part of \<open>std::from_chars\<close> and \<open>std::to_string\<close> the XML backend uses.
  \<open>FcValue v r\<close> is \<open>ec == std::errc()\<close> with the pointer at the rest \<open>r\<close>, \<open>FcInvalid\<close> is
  \<open>invalid_argument\<close>, \<open>FcRange\<close> is \<open>result_out_of_range\<close>.
  A decimal floating-point literal denotes a fraction of units of \<open>2^-1074\<close> and is rounded to
  nearest, ties to even; an overflow, and an underflow to zero, is out of range. The literals of
  infinities and NaN are left out: a text that is one is refused by \<open>parseDoubleText\<close> either way.
\<close>

section \<open>Integers\<close>

datatype 'a chars_result = FcInvalid | FcRange | FcValue 'a string

definition from_chars_uint64 :: "string \<Rightarrow> nat chars_result" where
  "from_chars_uint64 s = (let ds = takeWhile is_digit s in
     if ds = [] then FcInvalid
     else if digits_val ds \<ge> 2 ^ 64 then FcRange
     else FcValue (digits_val ds) (dropWhile is_digit s))"

definition minus_sign :: "string \<Rightarrow> bool \<times> string" where
  "minus_sign s = (case s of c # t \<Rightarrow> if c = CHR ''-'' then (True, t) else (False, s) | [] \<Rightarrow> (False, []))"

definition from_chars_int64 :: "string \<Rightarrow> int64 chars_result" where
  "from_chars_int64 s = (case minus_sign s of (neg, t) \<Rightarrow>
     let ds = takeWhile is_digit t; i = (if neg then - int (digits_val ds) else int (digits_val ds)) in
     if ds = [] then FcInvalid
     else if i < - (2 ^ 63) \<or> i \<ge> 2 ^ 63 then FcRange
     else FcValue (word_of_int i) (dropWhile is_digit t))"

definition int_str :: "int \<Rightarrow> string" where
  "int_str i = (if i < 0 then ''-'' @ nat_str (nat (- i)) else nat_str (nat i))"

lemma digits_all: "\<forall>c \<in> set ds. is_digit c \<Longrightarrow> takeWhile is_digit ds = ds \<and> dropWhile is_digit ds = []"
  by (induction ds) auto

lemma nat_str_scan [simp]: "takeWhile is_digit (nat_str n) = nat_str n" "dropWhile is_digit (nat_str n) = []"
  using digits_all[of "nat_str n"] nat_str_digits by auto

lemma minus_not_digit [simp]: "\<not> is_digit CHR ''-''"
  by (simp add: is_digit_def)

lemma nat_str_no_minus [simp]: "minus_sign (nat_str n @ r) = (False, nat_str n @ r)" "minus_sign (nat_str n) = (False, nat_str n)"
proof -
  obtain c t where n: "nat_str n = c # t" by (cases "nat_str n") auto
  then have "is_digit c" using nat_str_digits[of c n] by simp
  then show "minus_sign (nat_str n @ r) = (False, nat_str n @ r)" "minus_sign (nat_str n) = (False, nat_str n)"
    by (auto simp: n minus_sign_def)
qed

text \<open>A text is an int64 literal exactly when it is an optional minus and digits with that value.\<close>

lemma from_chars_int64_iff:
  "from_chars_int64 s = FcValue v [] \<longleftrightarrow>
     (\<exists>neg ds. s = (if neg then ''-'' else []) @ ds \<and> ds \<noteq> [] \<and> (\<forall>c \<in> set ds. is_digit c) \<and>
        sint v = (if neg then - int (digits_val ds) else int (digits_val ds)))" (is "?l \<longleftrightarrow> ?r")
proof
  obtain neg t where m: "minus_sign s = (neg, t)" by fastforce
  then have s: "s = (if neg then ''-'' else []) @ t" by (auto simp: minus_sign_def split: list.splits if_splits)
  assume ?l
  then have l: "takeWhile is_digit t \<noteq> []" "dropWhile is_digit t = []"
    and i: "let i = (if neg then - int (digits_val (takeWhile is_digit t)) else int (digits_val (takeWhile is_digit t)))
      in - (2 ^ 63) \<le> i \<and> i < 2 ^ 63 \<and> v = word_of_int i"
    by (auto simp: from_chars_int64_def m Let_def split: if_splits)
  have t: "takeWhile is_digit t = t" using l(2) takeWhile_dropWhile_id[of is_digit t] by simp
  then have "\<forall>c \<in> set t. is_digit c" using set_takeWhileD by metis
  with s l(1) i sint_of_int_exact show ?r unfolding t by (auto simp: Let_def intro!: exI[of _ neg] exI[of _ t])
next
  assume ?r
  then obtain neg ds where r: "s = (if neg then ''-'' else []) @ ds" "ds \<noteq> []" "\<forall>c \<in> set ds. is_digit c"
    "sint v = (if neg then - int (digits_val ds) else int (digits_val ds))" by blast
  have "minus_sign s = (neg, ds)"
    using r(1-3) by (cases ds) (auto simp: minus_sign_def)
  moreover have "word_of_int (sint v) = v" by simp
  moreover have t: "takeWhile is_digit ds = ds" "dropWhile is_digit ds = []" using digits_all[OF r(3)] by blast+
  ultimately show ?l using r(2) sint_range[of v]
    unfolding from_chars_int64_def Let_def prod.case by (simp only: prod.case r(4)[symmetric] t not_less[symmetric] if_False simp_thms)
qed

lemma from_chars_int_str: "from_chars_int64 (int_str (sint v)) = FcValue v []"
  unfolding from_chars_int64_iff
  by (rule exI[of _ "sint v < 0"], rule exI[of _ "nat_str (nat \<bar>sint v\<bar>)"]) (auto simp: int_str_def nat_str_digits)

section \<open>Floating-point literals\<close>

definition round_frac :: "fp_format \<Rightarrow> nat \<Rightarrow> nat \<Rightarrow> nat" where
  "round_frac f a b = (let u = 2 ^ max (low_exp f) (bit_length (a div b) - prec f); r = a div (u * b); m = a mod (u * b) in
     if 2 * m < u * b \<or> (2 * m = u * b \<and> even r) then r * u else (r + 1) * u)"

definition scan_exponent :: "string \<Rightarrow> int \<times> string" where
  "scan_exponent t = (case t of c # u \<Rightarrow>
       (if c = CHR ''e'' \<or> c = CHR ''E'' then
          (let (neg, w) = (case u of d # w \<Rightarrow> if d = CHR ''-'' then (True, w) else if d = CHR ''+'' then (False, w) else (False, u)
                | [] \<Rightarrow> (False, []));
             ds = takeWhile is_digit w
           in if ds = [] then (0, t) else (if neg then - int (digits_val ds) else int (digits_val ds), dropWhile is_digit w))
        else (0, t))
     | [] \<Rightarrow> (0, []))"

definition round_decimal :: "bool \<Rightarrow> nat \<Rightarrow> int \<Rightarrow> double option" where
  "round_decimal neg m e10 = (let
       n = (if e10 < 0 then round_frac binary64 (m * unit_mag) (10 ^ nat (- e10))
            else round_frac binary64 (m * 10 ^ nat e10 * unit_mag) 1)
     in if n > max_mag binary64 \<or> (n = 0 \<and> m \<noteq> 0) then None else Some (encode64 (FFin neg n)))"

definition from_chars_double :: "string \<Rightarrow> double chars_result" where
  "from_chars_double s = (case minus_sign s of (neg, t) \<Rightarrow>
     let whole = takeWhile is_digit t; t1 = dropWhile is_digit t;
       (part, t2) = (case t1 of c # u \<Rightarrow> if c = CHR ''.'' then (takeWhile is_digit u, dropWhile is_digit u) else ([], t1)
         | [] \<Rightarrow> ([], []))
     in if whole = [] \<and> part = [] then FcInvalid
     else (case scan_exponent t2 of (ex, rest) \<Rightarrow>
       (case round_decimal neg (digits_val (whole @ part)) (ex - int (length part)) of
          None \<Rightarrow> FcRange | Some d \<Rightarrow> FcValue d rest)))"

lemma round_frac_exact: "0 < b \<Longrightarrow> round_frac f (n * b) b = round_mag f n"
proof -
  assume b: "0 < b"
  let ?u = "2 ^ max (low_exp f) (bit_length n - prec f) :: nat"
  have d: "n * b div (?u * b) = n div ?u" "n * b mod (?u * b) = n mod ?u * b"
    using b by (simp_all add: div_mult_mult2 mult_mod_left)
  have "2 * (n mod ?u * b) < ?u * b \<longleftrightarrow> 2 * (n mod ?u) < ?u" "2 * (n mod ?u * b) = ?u * b \<longleftrightarrow> 2 * (n mod ?u) = ?u"
    using b by (simp_all only: mult.assoc[symmetric] mult_less_cancel2 mult_cancel2) simp_all
  then show ?thesis using b by (simp only: round_frac_def round_mag_def Let_def nonzero_mult_div_cancel_right d neq0_conv simp_thms)
qed

lemma encode_decode64: "decode64 d = FFin s n \<Longrightarrow> encode64 (FFin s n) = d"
proof -
  assume d: "decode64 d = FFin s n"
  define w where "w = unat d"
  define ex where "ex = w div 2 ^ 52 mod 2 ^ 11"
  define fr where "fr = w mod 2 ^ 52"
  have fr: "fr < 2 ^ 52" and ex: "ex < 2 ^ 11" by (simp_all add: fr_def ex_def)
  have w: "w < 2 ^ 64" unfolding w_def by (rule less_le_trans[OF unsigned_less]) simp
  have top: "w div 2 ^ 63 < 2" using w by (simp add: less_mult_imp_div_less)
  have s: "s = (w div 2 ^ 63 = 1)" using d by (auto simp: decode64_def Let_def w_def split: if_splits)
  have "w div 2 ^ 52 div 2 ^ 11 = w div 2 ^ 63" by (simp add: div_mult2_eq[symmetric])
  then have "w div 2 ^ 52 = w div 2 ^ 63 * 2 ^ 11 + ex" using div_mult_mod_eq[of "w div 2 ^ 52" "2 ^ 11"] by (simp only: ex_def)
  then have "w = (w div 2 ^ 63 * 2 ^ 11 + ex) * 2 ^ 52 + fr" using div_mult_mod_eq[of w "2 ^ 52"] by (simp only: fr_def)
  then have w': "w = (if s then 2 ^ 63 else 0) + ex * 2 ^ 52 + fr"
    using top by (cases "w div 2 ^ 63 = 1") (auto simp: s add_mult_distrib)
  have n: "n = (if ex = 0 then fr else (2 ^ 52 + fr) * 2 ^ (ex - 1))"
    using d by (auto simp: decode64_def Let_def w_def ex_def fr_def split: if_splits)
  have dw: "d = word_of_nat w" by (simp add: w_def)
  show ?thesis
  proof (cases "ex = 0")
    case True
    with n fr w' show ?thesis by (simp add: encode64_def dw)
  next
    case False
    then have n': "n = (2 ^ 52 + fr) * 2 ^ (ex - 1)" using n by simp
    have lo: "2 ^ (52 + (ex - 1)) \<le> n" unfolding n' power_add by simp
    have hi: "n < 2 ^ (53 + (ex - 1))" unfolding n' power_add using fr by simp
    have "bit_length n = 53 + (ex - 1)" using bit_length_le[of n "53 + (ex - 1)"] bit_length_le[of n "52 + (ex - 1)"] lo hi by linarith
    then have e: "bit_length n - 53 = ex - 1" by simp
    have "\<not> n < 2 ^ 52" using lo power_increasing[of 52 "52 + (ex - 1)" "2::nat"] by linarith
    moreover have "n div 2 ^ (ex - 1) - 2 ^ 52 = fr" unfolding n' by simp
    ultimately show ?thesis using False w' by (simp add: encode64_def dw e Let_def)
  qed
qed

text \<open>
  What \<open>std::to_chars\<close> promises of a finite double: the text reads back as the same double. Its
  choice of a shortest text is not fixed here; \<open>exact_literal\<close>, the exact decimal expansion, is one
  printer that keeps the promise.
\<close>

definition to_chars_ok :: "(double \<Rightarrow> string) \<Rightarrow> bool" where
  "to_chars_ok fmt \<longleftrightarrow> (\<forall>d. is_finite_fp (decode64 d) \<longrightarrow> from_chars_double (fmt d) = FcValue d [])"

definition exact_literal :: "double \<Rightarrow> string" where
  "exact_literal d = (case decode64 d of FFin s n \<Rightarrow> (if s then ''-'' else []) @ nat_str (n * 5 ^ 1074) @ ''e-1074'' | _ \<Rightarrow> [])"

lemma digit_split [simp]: "takeWhile is_digit (nat_str n @ c # r) = nat_str n \<and> dropWhile is_digit (nat_str n @ c # r) = c # r"
  if "\<not> is_digit c"
  using takeWhile_dropWhile_stop[of "nat_str n" is_digit "c # r"] nat_str_digits that by auto

lemma scan_exact: "scan_exponent ''e-1074'' = (- 1074, [])"
  by (simp add: scan_exponent_def is_digit_def digits_val_def digit_val_def)

lemma minus_literal: "minus_sign ((if neg then ''-'' else []) @ nat_str n @ r) = (neg, nat_str n @ r)"
proof (cases neg)
  case False
  then show ?thesis using nat_str_no_minus(1)[of n r] by (simp only: if_False append.simps)
qed (simp add: minus_sign_def)

lemma power_split: "n * 5 ^ k * 2 ^ k = n * 10 ^ k" for n k :: nat
  by (simp add: power_mult_distrib[symmetric] mult.assoc)

lemma from_chars_literal:
  "from_chars_double ((if neg then ''-'' else []) @ nat_str m @ ''e-1074'') =
     (case round_decimal neg m (- 1074) of None \<Rightarrow> FcRange | Some d \<Rightarrow> FcValue d [])"
proof -
  have e: "\<not> is_digit CHR ''e''" by (simp add: is_digit_def)
  then show ?thesis unfolding from_chars_double_def minus_literal by (simp add: Let_def digit_split[OF e] scan_exact)
qed

lemma round_decimal_exact: "decode64 d = FFin s n \<Longrightarrow> round_decimal s (n * 5 ^ 1074) (- 1074) = Some d"
proof -
  assume d: "decode64 d = FFin s n"
  have ex: "exact binary64 n" "n \<le> max_mag binary64" using exact_decode64[OF d] by simp_all
  have a: "n * 5 ^ 1074 * unit_mag = n * 10 ^ 1074" unfolding unit_mag_def by (rule power_split)
  have r: "round_frac binary64 (n * 5 ^ 1074 * unit_mag) (10 ^ 1074) = n"
    unfolding a by (simp only: round_frac_exact zero_less_power zero_less_numeral round_mag_exact[OF ex(1)])
  have n0: "n * 5 ^ 1074 = 0" if "n = 0" unfolding that by (rule mult_zero_left)
  have z: "\<not> (n > max_mag binary64 \<or> n = 0 \<and> n * 5 ^ 1074 \<noteq> 0)"
  proof (rule notI, elim disjE conjE)
    assume "max_mag binary64 < n"
    with leD[OF ex(2)] show False by (rule notE)
  next
    assume "n = 0" "n * 5 ^ 1074 \<noteq> 0"
    from this(2) n0[OF this(1)] show False by (rule notE)
  qed
  have k: "(- 1074 :: int) < 0" "nat (- (- 1074)) = 1074" by simp_all
  show ?thesis unfolding round_decimal_def Let_def k(2) if_P[OF k(1)] r if_not_P[OF z] encode_decode64[OF d] ..
qed

lemma exact_literal_ok: "to_chars_ok exact_literal"
  unfolding to_chars_ok_def
proof (intro allI impI)
  fix d assume "is_finite_fp (decode64 d)"
  then obtain s n where d: "decode64 d = FFin s n" by (cases "decode64 d") auto
  show "from_chars_double (exact_literal d) = FcValue d []"
    unfolding exact_literal_def d fp.case from_chars_literal round_decimal_exact[OF d] option.case ..
qed

end
