(* ===== verification/Xml_Text.thy ===== *)
theory Xml_Text
  imports Cfg_Prelude
begin

text \<open>
  The lexical level of the XML backend, \<open>backends/xml/src/xml_interface.cpp\<close>: strict UTF-8 decoding,
  element names, representable text, the version carrier, and the literals of the scalar types.
  A text is a byte list; \<open>decodeUtf8\<close> takes the suffix that starts at the index \<open>i\<close> of the source and
  returns the code point with the rest. Bytes are the numbers 0 to 255 (an \<open>unsigned char\<close> in an
  \<open>int\<close>), code points natural numbers: a decoded value has at most 21 bits, so \<open>char32_t\<close> never
  wraps.
\<close>

unbundle bit_operations_syntax

section \<open>Strict UTF-8\<close>

fun cont_bytes :: "nat \<Rightarrow> string \<Rightarrow> nat option" where
  "cont_bytes value [] = Some value"
| "cont_bytes value (c # cs) = (let cont = of_char c in
     if cont AND 0xC0 \<noteq> 0x80 then None else cont_bytes (push_bit 6 value OR (cont AND 0x3F)) cs)"

definition kMinForLength :: "nat list" where
  "kMinForLength = [0, 0, 0x80, 0x800, 0x10000]"

definition decodeUtf8 :: "string \<Rightarrow> (nat \<times> string) option" where
  "decodeUtf8 s = (case s of [] \<Rightarrow> None
   | c # cs \<Rightarrow> (let lead = of_char c in
       if lead < 0x80 then Some (lead, cs)
       else (case (if lead AND 0xE0 = 0xC0 then Some (2, lead AND 0x1F)
                   else if lead AND 0xF0 = 0xE0 then Some (3, lead AND 0x0F)
                   else if lead AND 0xF8 = 0xF0 then Some (4, lead AND 0x07)
                   else None) of
           None \<Rightarrow> None
         | Some (len, value0) \<Rightarrow>
             if len > length s then None
             else (case cont_bytes value0 (take (len - 1) cs) of
                 None \<Rightarrow> None
               | Some value \<Rightarrow>
                   if value < kMinForLength ! len then None
                   else if value \<ge> 0xD800 \<and> value \<le> 0xDFFF then None
                   else if value > 0x10FFFF then None
                   else Some (value, drop (len - 1) cs)))))"

text \<open>The encoding form of Unicode: what a scalar value looks like in UTF-8.\<close>

definition scalar_value :: "nat \<Rightarrow> bool" where
  "scalar_value c \<longleftrightarrow> c \<le> 0x10FFFF \<and> \<not> (0xD800 \<le> c \<and> c \<le> 0xDFFF)"

definition byte :: "nat \<Rightarrow> char" where "byte n = char_of n"

definition encodeUtf8 :: "nat \<Rightarrow> string" where
  "encodeUtf8 c =
     (if c < 0x80 then [byte c]
      else if c < 0x800 then [byte (0xC0 + c div 64), byte (0x80 + c mod 64)]
      else if c < 0x10000 then [byte (0xE0 + c div 4096), byte (0x80 + c div 64 mod 64), byte (0x80 + c mod 64)]
      else [byte (0xF0 + c div 262144), byte (0x80 + c div 4096 mod 64), byte (0x80 + c div 64 mod 64), byte (0x80 + c mod 64)])"

lemma of_char_less: "(of_char c :: nat) < 256"
  by (cases c) (auto simp: of_char_def of_bool_def)

lemma of_char_byte: "n < 256 \<Longrightarrow> of_char (byte n) = n"
  by (simp add: byte_def)

lemma byte_of_char [simp]: "byte (of_char c) = c"
  by (simp add: byte_def)

text \<open>The bit masks of the decoder as ranges of bytes.\<close>

lemma mask_low: "(n::nat) AND 0x1F = n mod 32" "n AND 0x0F = n mod 16" "n AND 0x07 = n mod 8" "n AND 0x3F = n mod 64"
proof -
  have "n AND mask 5 = n mod 2 ^ 5" "n AND mask 4 = n mod 2 ^ 4" "n AND mask 3 = n mod 2 ^ 3" "n AND mask 6 = n mod 2 ^ 6"
    by (simp_all only: take_bit_eq_mask[symmetric] take_bit_eq_mod)
  then show "n AND 0x1F = n mod 32" "n AND 0x0F = n mod 16" "n AND 0x07 = n mod 8" "n AND 0x3F = n mod 64"
    by (simp_all add: mask_eq_exp_minus_1)
qed

lemma and_high: "n < 2 ^ (k + j) \<Longrightarrow> n AND push_bit k (mask j) = 2 ^ k * (n div 2 ^ k)" for n :: nat
proof -
  assume n: "n < 2 ^ (k + j)"
  then have t: "take_bit (k + j) n = n" by (simp add: take_bit_nat_eq_self)
  have "n AND push_bit k (mask j) = push_bit k (drop_bit k n)"
  proof (rule bit_eqI)
    fix i
    have "bit n i \<Longrightarrow> i < k + j" using t by (metis bit_take_bit_iff)
    then show "bit (n AND push_bit k (mask j)) i = bit (push_bit k (drop_bit k n)) i"
      by (auto simp: bit_and_iff bit_push_bit_iff bit_mask_iff bit_drop_bit_eq)
  qed
  then show ?thesis by (simp add: push_bit_eq_mult drop_bit_eq_div)
qed

lemma mask_high:
  assumes "n < (256::nat)"
  shows "n AND 0xE0 = 0xC0 \<longleftrightarrow> 192 \<le> n \<and> n < 224" "n AND 0xF0 = 0xE0 \<longleftrightarrow> 224 \<le> n \<and> n < 240"
    "n AND 0xF8 = 0xF0 \<longleftrightarrow> 240 \<le> n \<and> n < 248" "n AND 0xC0 = 0x80 \<longleftrightarrow> 128 \<le> n \<and> n < 192"
proof -
  have "n AND 0xE0 = 32 * (n div 32)" "n AND 0xF0 = 16 * (n div 16)" "n AND 0xF8 = 8 * (n div 8)" "n AND 0xC0 = 64 * (n div 64)"
    using and_high[of n 5 3] and_high[of n 4 4] and_high[of n 3 5] and_high[of n 6 2] assms
    by (simp_all add: push_bit_eq_mult mask_eq_exp_minus_1)
  then show "n AND 0xE0 = 0xC0 \<longleftrightarrow> 192 \<le> n \<and> n < 224" "n AND 0xF0 = 0xE0 \<longleftrightarrow> 224 \<le> n \<and> n < 240"
    "n AND 0xF8 = 0xF0 \<longleftrightarrow> 240 \<le> n \<and> n < 248" "n AND 0xC0 = 0x80 \<longleftrightarrow> 128 \<le> n \<and> n < 192"
    by auto
qed

lemma shift_or: "x < 64 \<Longrightarrow> push_bit 6 v OR x = v * 64 + x" for v x :: nat
proof -
  assume x: "x < 64"
  have "push_bit 6 v AND x = 0"
  proof (rule bit_eqI)
    fix i
    have "take_bit 6 x = x" using x by (simp add: take_bit_nat_eq_self)
    then have "bit x i \<Longrightarrow> i < 6" by (metis bit_take_bit_iff)
    then show "bit (push_bit 6 v AND x) i = bit 0 i" by (auto simp: bit_and_iff bit_push_bit_iff)
  qed
  then have "push_bit 6 v + x = push_bit 6 v OR x" by (rule disjunctive_add_eq_or)
  then show ?thesis by (simp add: push_bit_eq_mult)
qed

definition is_cont :: "char \<Rightarrow> bool" where
  "is_cont c \<longleftrightarrow> 128 \<le> (of_char c :: nat) \<and> (of_char c :: nat) < 192"

lemma cont_bytes_step [simp]:
  "cont_bytes v (c # cs) = (if is_cont c then cont_bytes (v * 64 + of_char c mod 64) cs else None)"
  using mask_high(4)[OF of_char_less, of c] by (simp add: is_cont_def mask_low(4) shift_or)

declare cont_bytes.simps(2) [simp del]

definition checked :: "nat \<Rightarrow> nat \<Rightarrow> string \<Rightarrow> (nat \<times> string) option" where
  "checked least v r = (if least \<le> v \<and> scalar_value v then Some (v, r) else None)"

definition low6 :: "char \<Rightarrow> nat" where "low6 c = of_char c mod 64"

lemma decode_cases:
  "decodeUtf8 (c # cs) = (let lead = of_char c in
     if lead < 128 then Some (lead, cs)
     else if lead < 192 then None
     else if lead < 224 then (case cs of
         c1 # r \<Rightarrow> if is_cont c1 then checked 0x80 (lead mod 32 * 64 + low6 c1) r else None | _ \<Rightarrow> None)
     else if lead < 240 then (case cs of
         c1 # c2 # r \<Rightarrow> if is_cont c1 \<and> is_cont c2 then checked 0x800 ((lead mod 16 * 64 + low6 c1) * 64 + low6 c2) r else None
       | _ \<Rightarrow> None)
     else if lead < 248 then (case cs of
         c1 # c2 # c3 # r \<Rightarrow> if is_cont c1 \<and> is_cont c2 \<and> is_cont c3
           then checked 0x10000 (((lead mod 8 * 64 + low6 c1) * 64 + low6 c2) * 64 + low6 c3) r else None
       | _ \<Rightarrow> None)
     else None)"
proof -
  let ?l = "of_char c :: nat"
  note m = mask_high(1-3)[OF of_char_less, of c]
  consider "?l < 128" | "128 \<le> ?l" "?l < 192" | "192 \<le> ?l" "?l < 224" | "224 \<le> ?l" "?l < 240"
    | "240 \<le> ?l" "?l < 248" | "248 \<le> ?l" by linarith
  then show ?thesis
  proof cases
    case 3
    then have d: "decodeUtf8 (c # cs) = (if 2 > Suc (length cs) then None
        else (case cont_bytes (?l mod 32) (take 1 cs) of None \<Rightarrow> None | Some v \<Rightarrow> checked 0x80 v (drop 1 cs)))"
      by (auto simp: decodeUtf8_def Let_def m mask_low kMinForLength_def checked_def scalar_value_def split: option.split)
    show ?thesis unfolding d using 3 by (cases cs) (simp_all add: Let_def low6_def)
  next
    case 4
    then have d: "decodeUtf8 (c # cs) = (if 3 > Suc (length cs) then None
        else (case cont_bytes (?l mod 16) (take 2 cs) of None \<Rightarrow> None | Some v \<Rightarrow> checked 0x800 v (drop 2 cs)))"
      by (auto simp: decodeUtf8_def Let_def m mask_low kMinForLength_def checked_def scalar_value_def split: option.split)
    show ?thesis unfolding d using 4 by (auto simp: Let_def low6_def numeral_2_eq_2 numeral_3_eq_3 split: list.split)
  next
    case 5
    then have d: "decodeUtf8 (c # cs) = (if 4 > Suc (length cs) then None
        else (case cont_bytes (?l mod 8) (take 3 cs) of None \<Rightarrow> None | Some v \<Rightarrow> checked 0x10000 v (drop 3 cs)))"
      by (auto simp: decodeUtf8_def Let_def m mask_low kMinForLength_def checked_def scalar_value_def split: option.split)
    show ?thesis unfolding d using 5 by (auto simp: Let_def low6_def numeral_3_eq_3 split: list.split)
  qed (simp_all add: decodeUtf8_def Let_def m)
qed

lemma encode_lengths:
  "c < 0x80 \<Longrightarrow> encodeUtf8 c = [byte c]"
  "0x80 \<le> c \<Longrightarrow> c < 0x800 \<Longrightarrow> encodeUtf8 c = [byte (0xC0 + c div 64), byte (0x80 + c mod 64)]"
  "0x800 \<le> c \<Longrightarrow> c < 0x10000 \<Longrightarrow> encodeUtf8 c =
     [byte (0xE0 + c div 4096), byte (0x80 + c div 64 mod 64), byte (0x80 + c mod 64)]"
  "0x10000 \<le> c \<Longrightarrow> encodeUtf8 c = [byte (0xF0 + c div 262144), byte (0x80 + c div 4096 mod 64),
     byte (0x80 + c div 64 mod 64), byte (0x80 + c mod 64)]"
  by (simp_all add: encodeUtf8_def)

text \<open>The arithmetic of the continuation bytes, on plain numbers.\<close>

lemma offset_mod: "y < m \<Longrightarrow> (k * m + y) mod m = y" "k * m \<le> n \<Longrightarrow> n < Suc k * m \<Longrightarrow> k * m + n mod m = n" for k m n y :: nat
proof -
  show y: "y < m \<Longrightarrow> (k * m + y) mod m = y" for y by simp
  assume n: "k * m \<le> n" "n < Suc k * m"
  then obtain y where "n = k * m + y" using le_Suc_ex by blast
  with n y[of y] show "k * m + n mod m = n" by simp
qed

lemma cont_arith:
  "128 \<le> n \<Longrightarrow> n < 192 \<Longrightarrow> 128 + n mod 64 = n" "y < 64 \<Longrightarrow> (128 + y) mod 64 = y" for n y :: nat
  using offset_mod(1)[of y 64 2] offset_mod(2)[of 2 64 n] by simp_all

lemma lead_arith:
  "c < 0x800 \<Longrightarrow> (0xC0 + c div 64) mod 32 = c div 64 \<and> 0xC0 + c div 64 < 0xE0"
  "c < 0x10000 \<Longrightarrow> (0xE0 + c div 4096) mod 16 = c div 4096 \<and> 0xE0 + c div 4096 < 0xF0"
  "c \<le> 0x10FFFF \<Longrightarrow> (0xF0 + c div 262144) mod 8 = c div 262144 \<and> 0xF0 + c div 262144 < 0xF8" for c :: nat
proof -
  have h: "x < 32 \<Longrightarrow> (192 + x) mod 32 = x" "x < 16 \<Longrightarrow> (224 + x) mod 16 = x" "x < 8 \<Longrightarrow> (240 + x) mod 8 = x" for x :: nat
    using offset_mod(1)[of x 32 6] offset_mod(1)[of x 16 14] offset_mod(1)[of x 8 30] by simp_all
  show "c < 0x800 \<Longrightarrow> (0xC0 + c div 64) mod 32 = c div 64 \<and> 0xC0 + c div 64 < 0xE0"
    using h(1)[of "c div 64"] by (simp add: less_mult_imp_div_less)
  show "c < 0x10000 \<Longrightarrow> (0xE0 + c div 4096) mod 16 = c div 4096 \<and> 0xE0 + c div 4096 < 0xF0"
    using h(2)[of "c div 4096"] by (simp add: less_mult_imp_div_less)
  assume "c \<le> 0x10FFFF"
  then have "c div 262144 < 8" by (simp add: less_mult_imp_div_less)
  then show "(0xF0 + c div 262144) mod 8 = c div 262144 \<and> 0xF0 + c div 262144 < 0xF8"
    using h(3)[of "c div 262144"] by simp
qed

lemma div_arith: "c div 4096 = c div 64 div 64" "c div 262144 = c div 64 div 64 div 64" for c :: nat
  by (simp_all add: div_mult2_eq[symmetric])

lemma split_arith:
  "c div 64 * 64 + c mod 64 = c"
  "(c div 4096 * 64 + c div 64 mod 64) * 64 + c mod 64 = c"
  "((c div 262144 * 64 + c div 4096 mod 64) * 64 + c div 64 mod 64) * 64 + c mod 64 = c" for c :: nat
  by (simp_all only: div_arith div_mult_mod_eq)

lemma join_step: "b < 64 \<Longrightarrow> (a * 64 + b) div 64 = a" "b < 64 \<Longrightarrow> (a * 64 + b) mod 64 = b" for a b :: nat
  by simp_all

lemma join_arith:
  "b < 64 \<Longrightarrow> v = a * 64 + b \<Longrightarrow> v div 64 = a \<and> v mod 64 = b"
  "b < 64 \<Longrightarrow> d < 64 \<Longrightarrow> v = (a * 64 + b) * 64 + d \<Longrightarrow> v div 4096 = a \<and> v div 64 mod 64 = b \<and> v mod 64 = d"
  "b < 64 \<Longrightarrow> d < 64 \<Longrightarrow> e < 64 \<Longrightarrow> v = ((a * 64 + b) * 64 + d) * 64 + e \<Longrightarrow>
     v div 262144 = a \<and> v div 4096 mod 64 = b \<and> v div 64 mod 64 = d \<and> v mod 64 = e" for v a b d e :: nat
  by (simp_all only: div_arith join_step simp_thms)

lemma lead_rebuild:
  "192 \<le> n \<Longrightarrow> n < 224 \<Longrightarrow> 0xC0 + n mod 32 = n" "224 \<le> n \<Longrightarrow> n < 240 \<Longrightarrow> 0xE0 + n mod 16 = n"
  "240 \<le> n \<Longrightarrow> n < 248 \<Longrightarrow> 0xF0 + n mod 8 = n" for n :: nat
  using offset_mod(2)[of 6 32 n] offset_mod(2)[of 14 16 n] offset_mod(2)[of 30 8 n] by simp_all

lemma cont_rebuild: "is_cont c \<Longrightarrow> byte (0x80 + low6 c) = c" "low6 c < 64"
  using cont_arith(1)[of "of_char c"] by (simp_all add: is_cont_def low6_def)

lemma cont_byte: "y < 64 \<Longrightarrow> is_cont (byte (0x80 + y)) \<and> low6 (byte (0x80 + y)) = y"
  using cont_arith(2)[of y] of_char_byte[of "128 + y"] by (simp add: is_cont_def low6_def)

lemma checked_Some [simp]: "checked least v r = Some x \<longleftrightarrow> least \<le> v \<and> scalar_value v \<and> x = (v, r)"
  by (auto simp: checked_def)

text \<open>One rule per length.\<close>

lemma decode_length:
  "(of_char c :: nat) < 128 \<Longrightarrow> decodeUtf8 (c # r) = Some (of_char c, r)"
  "of_char c = l \<Longrightarrow> 192 \<le> l \<Longrightarrow> l < 224 \<Longrightarrow> is_cont c1 \<Longrightarrow>
     decodeUtf8 (c # c1 # r) = checked 0x80 (l mod 32 * 64 + low6 c1) r"
  "of_char c = l \<Longrightarrow> 224 \<le> l \<Longrightarrow> l < 240 \<Longrightarrow> is_cont c1 \<Longrightarrow> is_cont c2 \<Longrightarrow>
     decodeUtf8 (c # c1 # c2 # r) = checked 0x800 ((l mod 16 * 64 + low6 c1) * 64 + low6 c2) r"
  "of_char c = l \<Longrightarrow> 240 \<le> l \<Longrightarrow> l < 248 \<Longrightarrow> is_cont c1 \<Longrightarrow> is_cont c2 \<Longrightarrow> is_cont c3 \<Longrightarrow>
     decodeUtf8 (c # c1 # c2 # c3 # r) = checked 0x10000 (((l mod 8 * 64 + low6 c1) * 64 + low6 c2) * 64 + low6 c3) r"
  unfolding decode_cases Let_def by simp_all

lemma decode_encode:
  assumes s: "scalar_value c"
  shows "decodeUtf8 (encodeUtf8 c @ r) = Some (c, r)"
proof -
  have m: "c mod 64 < 64" "c div 64 mod 64 < 64" "c div 4096 mod 64 < 64" by simp_all
  note cb = cont_byte[OF m(1)] cont_byte[OF m(2)] cont_byte[OF m(3)]
  consider "c < 0x80" | "0x80 \<le> c" "c < 0x800" | "0x800 \<le> c" "c < 0x10000" | "0x10000 \<le> c" "c \<le> 0x10FFFF"
    using s by (fastforce simp: scalar_value_def)
  then show ?thesis
  proof cases
    case 1
    then show ?thesis using decode_length(1)[of "byte c" r] of_char_byte[of c] by (simp add: encode_lengths(1))
  next
    case 2
    from lead_arith(1)[OF 2(2)] have "of_char (byte (0xC0 + c div 64)) = (0xC0 + c div 64 :: nat)" by (intro of_char_byte) simp
    from decode_length(2)[OF this _ _ conjunct1[OF cb(1)], of r] lead_arith(1)[OF 2(2)] cb(1) 2(1) s
    show ?thesis unfolding encode_lengths(2)[OF 2] by (simp only: append.simps checked_Some le_add1 split_arith simp_thms)
  next
    case 3
    from lead_arith(2)[OF 3(2)] have "of_char (byte (0xE0 + c div 4096)) = (0xE0 + c div 4096 :: nat)" by (intro of_char_byte) simp
    from decode_length(3)[OF this _ _ conjunct1[OF cb(2)] conjunct1[OF cb(1)], of r] lead_arith(2)[OF 3(2)] cb(1,2) 3(1) s
    show ?thesis unfolding encode_lengths(3)[OF 3] by (simp only: append.simps checked_Some le_add1 split_arith simp_thms)
  next
    case 4
    from lead_arith(3)[OF 4(2)] have "of_char (byte (0xF0 + c div 262144)) = (0xF0 + c div 262144 :: nat)" by (intro of_char_byte) simp
    from decode_length(4)[OF this _ _ conjunct1[OF cb(3)] conjunct1[OF cb(2)] conjunct1[OF cb(1)], of r] lead_arith(3)[OF 4(2)] cb 4(1) s
    show ?thesis unfolding encode_lengths(4)[OF 4(1)] by (simp only: append.simps checked_Some le_add1 split_arith simp_thms)
  qed
qed

lemma lead_ranges: "n < 128 \<or> 128 \<le> n \<and> n < 192 \<or> 192 \<le> n \<and> n < 224 \<or> 224 \<le> n \<and> n < 240 \<or> 240 \<le> n \<and> n < 248 \<or> 248 \<le> n"
  for n :: nat by linarith

lemma decode_range:
  "(of_char c :: nat) < 128 \<Longrightarrow> decodeUtf8 (c # cs) = Some (of_char c, cs)"
  "128 \<le> (of_char c :: nat) \<Longrightarrow> (of_char c :: nat) < 192 \<Longrightarrow> decodeUtf8 (c # cs) = None"
  "192 \<le> (of_char c :: nat) \<Longrightarrow> (of_char c :: nat) < 224 \<Longrightarrow> decodeUtf8 (c # cs) = (case cs of
     c1 # r \<Rightarrow> if is_cont c1 then checked 0x80 (of_char c mod 32 * 64 + low6 c1) r else None | _ \<Rightarrow> None)"
  "224 \<le> (of_char c :: nat) \<Longrightarrow> (of_char c :: nat) < 240 \<Longrightarrow> decodeUtf8 (c # cs) = (case cs of
     c1 # c2 # r \<Rightarrow> if is_cont c1 \<and> is_cont c2 then checked 0x800 ((of_char c mod 16 * 64 + low6 c1) * 64 + low6 c2) r else None
   | _ \<Rightarrow> None)"
  "240 \<le> (of_char c :: nat) \<Longrightarrow> (of_char c :: nat) < 248 \<Longrightarrow> decodeUtf8 (c # cs) = (case cs of
     c1 # c2 # c3 # r \<Rightarrow> if is_cont c1 \<and> is_cont c2 \<and> is_cont c3
       then checked 0x10000 (((of_char c mod 8 * 64 + low6 c1) * 64 + low6 c2) * 64 + low6 c3) r else None
   | _ \<Rightarrow> None)"
  "248 \<le> (of_char c :: nat) \<Longrightarrow> decodeUtf8 (c # cs) = None"
  unfolding decode_cases Let_def by simp_all

lemma checked_r: "checked least v r' = Some (v', r) \<Longrightarrow> r' = r"
  by (simp add: checked_def split: if_splits)

lemma decode_invert:
  assumes d: "decodeUtf8 (c # cs) = Some (v, r)"
  obtains "(of_char c :: nat) < 128" "v = of_char c" "cs = r"
  | c1 where "192 \<le> (of_char c :: nat)" "(of_char c :: nat) < 224" "cs = c1 # r" "is_cont c1" "0x80 \<le> v" "scalar_value v"
      "v = of_char c mod 32 * 64 + low6 c1"
  | c1 c2 where "224 \<le> (of_char c :: nat)" "(of_char c :: nat) < 240" "cs = c1 # c2 # r" "is_cont c1" "is_cont c2" "0x800 \<le> v"
      "scalar_value v" "v = (of_char c mod 16 * 64 + low6 c1) * 64 + low6 c2"
  | c1 c2 c3 where "240 \<le> (of_char c :: nat)" "(of_char c :: nat) < 248" "cs = c1 # c2 # c3 # r" "is_cont c1" "is_cont c2" "is_cont c3"
      "0x10000 \<le> v" "scalar_value v" "v = ((of_char c mod 8 * 64 + low6 c1) * 64 + low6 c2) * 64 + low6 c3"
proof -
  consider "(of_char c :: nat) < 128" | "128 \<le> (of_char c :: nat)" "(of_char c :: nat) < 192"
    | "192 \<le> (of_char c :: nat)" "(of_char c :: nat) < 224" | "224 \<le> (of_char c :: nat)" "(of_char c :: nat) < 240"
    | "240 \<le> (of_char c :: nat)" "(of_char c :: nat) < 248" | "248 \<le> (of_char c :: nat)" using lead_ranges[of "of_char c"] by blast
  then show thesis
  proof cases
    case 1
    have "v = of_char c" "cs = r" using d[unfolded decode_range(1)[OF 1]] by auto
    then show ?thesis by (rule that(1)[OF 1])
  next
    case 3
    from d[unfolded decode_range(3)[OF 3]] obtain c1 where "cs = c1 # r" "is_cont c1"
      "0x80 \<le> v" "scalar_value v" "v = of_char c mod 32 * 64 + low6 c1"
      by (simp del: checked_Some split: list.splits if_splits) (auto simp only: checked_Some prod.inject)
    then show ?thesis by (intro that(2)[OF 3]) simp_all
  next
    case 4
    from d[unfolded decode_range(4)[OF 4]] obtain c1 c2 where "cs = c1 # c2 # r" "is_cont c1" "is_cont c2"
      "0x800 \<le> v" "scalar_value v" "v = (of_char c mod 16 * 64 + low6 c1) * 64 + low6 c2"
      by (simp del: checked_Some split: list.splits if_splits) (auto simp only: checked_Some prod.inject)
    then show ?thesis by (intro that(3)[OF 4]) simp_all
  next
    case 5
    from d[unfolded decode_range(5)[OF 5]] obtain c1 c2 c3 where "cs = c1 # c2 # c3 # r" "is_cont c1" "is_cont c2" "is_cont c3"
      "0x10000 \<le> v" "scalar_value v" "v = ((of_char c mod 8 * 64 + low6 c1) * 64 + low6 c2) * 64 + low6 c3"
      by (simp del: checked_Some split: list.splits if_splits) (auto simp only: checked_Some prod.inject)
    then show ?thesis by (intro that(4)[OF 5]) simp_all
  qed (use d decode_range(2,6)[of c cs] in simp_all)
qed

lemma decode_sound: "decodeUtf8 s = Some (v, r) \<Longrightarrow> scalar_value v \<and> s = encodeUtf8 v @ r"
proof (cases s)
  case (Cons c cs)
  assume "decodeUtf8 s = Some (v, r)"
  then have "decodeUtf8 (c # cs) = Some (v, r)" unfolding Cons .
  then show ?thesis
  proof (cases rule: decode_invert)
    case 1
    then show ?thesis by (simp add: Cons scalar_value_def encode_lengths(1))
  next
    case (2 c1)
    have "v < 0x800" using 2(7) cont_rebuild(2)[of c1] by simp
    with join_arith(1)[OF cont_rebuild(2) 2(7)] show ?thesis
      using 2 cont_rebuild(1)[OF 2(4)] lead_rebuild(1)[OF 2(1,2)] by (simp add: Cons encode_lengths(2))
  next
    case (3 c1 c2)
    have "v < 0x10000" using 3(8) cont_rebuild(2)[of c1] cont_rebuild(2)[of c2] by simp
    with join_arith(2)[OF cont_rebuild(2) cont_rebuild(2) 3(8)] show ?thesis
      using 3 cont_rebuild(1)[OF 3(4)] cont_rebuild(1)[OF 3(5)] lead_rebuild(2)[OF 3(1,2)] by (simp add: Cons encode_lengths(3))
  next
    case (4 c1 c2 c3)
    from join_arith(3)[OF cont_rebuild(2) cont_rebuild(2) cont_rebuild(2) 4(9)] show ?thesis
      using 4 cont_rebuild(1)[OF 4(4)] cont_rebuild(1)[OF 4(5)] cont_rebuild(1)[OF 4(6)] lead_rebuild(3)[OF 4(1,2)]
      by (simp add: Cons encode_lengths(4))
  qed
qed (simp add: decodeUtf8_def)

lemma decodeUtf8_iff: "decodeUtf8 s = Some (v, r) \<longleftrightarrow> scalar_value v \<and> s = encodeUtf8 v @ r"
  using decode_sound decode_encode by blast

section \<open>Names and representable text\<close>

definition isXmlWhitespace :: "string \<Rightarrow> bool" where
  "isXmlWhitespace s \<longleftrightarrow> find (\<lambda>c. c \<notin> {CHR '' '', CHR 0x09, CHR 0x0A, CHR 0x0D}) s = None"

definition isNameStartChar :: "nat \<Rightarrow> bool" where
  "isNameStartChar c \<longleftrightarrow> c = 0x5F \<or> (c \<ge> 0x41 \<and> c \<le> 0x5A) \<or> (c \<ge> 0x61 \<and> c \<le> 0x7A) \<or>
     (c \<ge> 0xC0 \<and> c \<le> 0xD6) \<or> (c \<ge> 0xD8 \<and> c \<le> 0xF6) \<or>
     (c \<ge> 0xF8 \<and> c \<le> 0x2FF) \<or> (c \<ge> 0x370 \<and> c \<le> 0x37D) \<or>
     (c \<ge> 0x37F \<and> c \<le> 0x1FFF) \<or> (c \<ge> 0x200C \<and> c \<le> 0x200D) \<or>
     (c \<ge> 0x2070 \<and> c \<le> 0x218F) \<or> (c \<ge> 0x2C00 \<and> c \<le> 0x2FEF) \<or>
     (c \<ge> 0x3001 \<and> c \<le> 0xD7FF) \<or> (c \<ge> 0xF900 \<and> c \<le> 0xFDCF) \<or>
     (c \<ge> 0xFDF0 \<and> c \<le> 0xFFFD) \<or> (c \<ge> 0x10000 \<and> c \<le> 0xEFFFF)"

definition isNameChar :: "nat \<Rightarrow> bool" where
  "isNameChar c \<longleftrightarrow> isNameStartChar c \<or> c = 0x2D \<or> c = 0x2E \<or> (c \<ge> 0x30 \<and> c \<le> 0x39) \<or> c = 0xB7 \<or>
     (c \<ge> 0x300 \<and> c \<le> 0x36F) \<or> (c \<ge> 0x203F \<and> c \<le> 0x2040)"

lemma encode_nonempty [simp]: "encodeUtf8 c \<noteq> []"
  by (simp add: encodeUtf8_def)

lemma decode_shorter: "decodeUtf8 s = Some (c, r) \<Longrightarrow> length r < length s"
  using decode_sound[of s c r] by (cases "encodeUtf8 c") auto

text \<open>The scanning loop of both checks: every code point passes, the test knows which is the first.\<close>

function all_code_points :: "(bool \<Rightarrow> nat \<Rightarrow> bool) \<Rightarrow> bool \<Rightarrow> string \<Rightarrow> bool" where
  "all_code_points ok first s = (if s = [] then True
     else (case decodeUtf8 s of None \<Rightarrow> False
       | Some (c, r) \<Rightarrow> (if \<not> ok first c then False else all_code_points ok False r)))"
  by pat_completeness auto
termination by (relation "measure (\<lambda>(ok, first, s). length s)") (auto dest: decode_shorter)

declare all_code_points.simps [simp del]

definition isValidElementName :: "string \<Rightarrow> bool" where
  "isValidElementName name \<longleftrightarrow> (if name = [] then False
     else all_code_points (\<lambda>first c. if first then isNameStartChar c else isNameChar c) True name)"

definition isXmlRepresentable :: "string \<Rightarrow> bool" where
  "isXmlRepresentable s \<longleftrightarrow> all_code_points (\<lambda>_ c. \<not> (c < 0x20 \<and> c \<noteq> 0x09 \<and> c \<noteq> 0x0A) \<and>
     \<not> (c = 0xFFFE \<or> c = 0xFFFF)) True s"

definition utf8 :: "nat list \<Rightarrow> string" where
  "utf8 cs = concat (map encodeUtf8 cs)"

lemma utf8_simps [simp]: "utf8 [] = []" "utf8 (c # cs) = encodeUtf8 c @ utf8 cs"
  by (simp_all add: utf8_def)

lemma all_code_points_Nil [simp]: "all_code_points ok first []"
  by (simp add: all_code_points.simps)

lemma all_code_points_Cons [simp]:
  "scalar_value c \<Longrightarrow> all_code_points ok first (encodeUtf8 c @ s) \<longleftrightarrow> ok first c \<and> all_code_points ok False s"
  by (subst all_code_points.simps) (simp add: decode_encode)

text \<open>A text passes exactly when it is the UTF-8 form of code points that pass.\<close>

lemma all_code_points_iff:
  "all_code_points ok first s \<longleftrightarrow> (\<exists>cs. s = utf8 cs \<and> (\<forall>c \<in> set cs. scalar_value c) \<and>
     (case cs of [] \<Rightarrow> True | c # cs' \<Rightarrow> ok first c \<and> (\<forall>c \<in> set cs'. ok False c)))"
proof (induction ok first s rule: all_code_points.induct)
  case (1 ok first s)
  show ?case
  proof (cases "decodeUtf8 s")
    case None
    then have nil: "s = []" if "s = utf8 cs" "\<forall>c \<in> set cs. scalar_value c" for cs
      using that None decode_encode by (cases cs) auto
    show ?thesis
    proof (cases "s = []")
      case True
      then show ?thesis by (auto intro: exI[of _ "[]"])
    next
      case False
      then have "\<not> all_code_points ok first s" using None by (subst all_code_points.simps) simp
      with False nil show ?thesis by auto
    qed
  next
    case (Some x)
    obtain c r where x: "x = (c, r)" by (cases x)
    with Some have s: "scalar_value c" "s = encodeUtf8 c @ r" by (simp_all add: decodeUtf8_iff)
    then have ne: "s \<noteq> []" by simp
    have split: "s = utf8 cs \<and> (\<forall>c \<in> set cs. scalar_value c) \<longleftrightarrow>
        (\<exists>cs'. cs = c # cs' \<and> r = utf8 cs' \<and> (\<forall>c \<in> set cs'. scalar_value c))" for cs
    proof (cases cs)
      case Nil
      with ne show ?thesis by simp
    next
      case (Cons d cs')
      have "d = c \<and> r = utf8 cs'" if "s = utf8 cs" "scalar_value d"
        using decode_encode[OF that(2), of "utf8 cs'"] Some x that(1) Cons by simp
      note h = this
      show ?thesis
      proof
        assume a: "s = utf8 cs \<and> (\<forall>c \<in> set cs. scalar_value c)"
        with h Cons have "d = c \<and> r = utf8 cs'" by simp
        with a Cons show "\<exists>cs'. cs = c # cs' \<and> r = utf8 cs' \<and> (\<forall>c \<in> set cs'. scalar_value c)" by simp
      next
        assume "\<exists>cs'. cs = c # cs' \<and> r = utf8 cs' \<and> (\<forall>c \<in> set cs'. scalar_value c)"
        with s show "s = utf8 cs \<and> (\<forall>c \<in> set cs. scalar_value c)" by auto
      qed
    qed
    show ?thesis
    proof (cases "ok first c")
      case True
      have same: "(case cs of [] \<Rightarrow> True | c # cs' \<Rightarrow> ok False c \<and> (\<forall>c \<in> set cs'. ok False c)) \<longleftrightarrow> (\<forall>c \<in> set cs. ok False c)" for cs
        by (cases cs) simp_all
      from 1[OF ne Some x[symmetric]] True have IH: "all_code_points ok False r \<longleftrightarrow>
          (\<exists>cs. r = utf8 cs \<and> (\<forall>c \<in> set cs. scalar_value c) \<and> (\<forall>c \<in> set cs. ok False c))" by (simp add: same)
      have "all_code_points ok first s \<longleftrightarrow> all_code_points ok False r" using True s by simp
      also have "\<dots> \<longleftrightarrow> (\<exists>cs. (s = utf8 cs \<and> (\<forall>c \<in> set cs. scalar_value c)) \<and>
          (case cs of [] \<Rightarrow> True | c # cs' \<Rightarrow> ok first c \<and> (\<forall>c \<in> set cs'. ok False c)))"
        unfolding split IH using True by auto
      finally show ?thesis by (simp only: conj_assoc)
    next
      case False
      then have "\<not> all_code_points ok first s" using s by simp
      moreover have "\<not> (\<exists>cs. (s = utf8 cs \<and> (\<forall>c \<in> set cs. scalar_value c)) \<and>
          (case cs of [] \<Rightarrow> True | c # cs' \<Rightarrow> ok first c \<and> (\<forall>c \<in> set cs'. ok False c)))"
        unfolding split using False by auto
      ultimately show ?thesis by (simp only: conj_assoc)
    qed
  qed
qed

definition xml_char :: "nat \<Rightarrow> bool" where
  "xml_char c \<longleftrightarrow> scalar_value c \<and> (c = 0x09 \<or> c = 0x0A \<or> 0x20 \<le> c) \<and> c \<noteq> 0xFFFE \<and> c \<noteq> 0xFFFF"

lemma all_code_points_same:
  "all_code_points (\<lambda>_. ok) first s \<longleftrightarrow> (\<exists>cs. s = utf8 cs \<and> (\<forall>c \<in> set cs. scalar_value c \<and> ok c))"
proof -
  have "(case cs of [] \<Rightarrow> True | c # cs' \<Rightarrow> ok c \<and> (\<forall>c \<in> set cs'. ok c)) \<longleftrightarrow> (\<forall>c \<in> set cs. ok c)" for cs
    by (cases cs) simp_all
  then show ?thesis unfolding all_code_points_iff by blast
qed

lemma isXmlRepresentable_iff:
  "isXmlRepresentable s \<longleftrightarrow> (\<exists>cs. s = utf8 cs \<and> (\<forall>c \<in> set cs. xml_char c))"
proof -
  have "scalar_value c \<and> \<not> (c < 0x20 \<and> c \<noteq> 0x09 \<and> c \<noteq> 0x0A) \<and> \<not> (c = 0xFFFE \<or> c = 0xFFFF) \<longleftrightarrow> xml_char c" for c
    by (auto simp: xml_char_def)
  then show ?thesis by (simp only: isXmlRepresentable_def all_code_points_same)
qed

lemma name_char_scalar: "isNameChar c \<Longrightarrow> scalar_value c"
  by (auto simp: isNameChar_def isNameStartChar_def scalar_value_def)

lemma isValidElementName_iff:
  "isValidElementName s \<longleftrightarrow> (\<exists>c cs. s = utf8 (c # cs) \<and> isNameStartChar c \<and> (\<forall>c \<in> set cs. isNameChar c))"
proof
  assume "isValidElementName s"
  then show "\<exists>c cs. s = utf8 (c # cs) \<and> isNameStartChar c \<and> (\<forall>c \<in> set cs. isNameChar c)"
    by (fastforce simp: isValidElementName_def all_code_points_iff split: if_splits list.splits)
next
  assume "\<exists>c cs. s = utf8 (c # cs) \<and> isNameStartChar c \<and> (\<forall>c \<in> set cs. isNameChar c)"
  then obtain c cs where s: "s = utf8 (c # cs)" "isNameStartChar c" "\<forall>c \<in> set cs. isNameChar c" by blast
  then have "\<forall>x \<in> set (c # cs). scalar_value x" using name_char_scalar by (auto simp: isNameChar_def)
  with s show "isValidElementName s"
    by (auto simp: isValidElementName_def all_code_points_iff intro!: exI[of _ "c # cs"])
qed

lemma kItemName_valid: "isValidElementName ''item''"
proof -
  have "encodeUtf8 0x69 = ''i''" "encodeUtf8 0x74 = ''t''" "encodeUtf8 0x65 = ''e''" "encodeUtf8 0x6D = ''m''"
    by (simp_all add: encodeUtf8_def byte_def char_of_def bit_0)
  then have "''item'' = utf8 [0x69, 0x74, 0x65, 0x6D]" by simp
  then show ?thesis unfolding isValidElementName_iff by (intro exI[of _ "0x69"] exI[of _ "[0x74, 0x65, 0x6D]"])
    (simp add: isNameStartChar_def isNameChar_def)
qed

text \<open>Texts in ASCII.\<close>

lemma all_code_points_ascii:
  assumes "(of_char c :: nat) < 128"
  shows "all_code_points ok first (c # s) \<longleftrightarrow> ok first (of_char c) \<and> all_code_points ok False s"
proof -
  have "encodeUtf8 (of_char c) = [c]" using assms by (simp add: encodeUtf8_def)
  then have e: "c # s = encodeUtf8 (of_char c) @ s" by simp
  have "scalar_value (of_char c)" using assms by (simp add: scalar_value_def)
  then show ?thesis unfolding e by (rule all_code_points_Cons)
qed

end
