(* ===== verification/Xml_Load.thy ===== *)
theory Xml_Load
  imports Number_Text Xml_Text Bounded_Read Config_Runtime
begin

text \<open>
  Loading with the XML backend, \<open>backends/xml/src/xml_interface.cpp\<close>: the conversion of a parsed
  document into a value (\<open>parseValue\<close> and its two loops), and \<open>XmlInterface::load\<close>.
  The XML parser is not part of the repository: it is an argument that turns a text into the
  children of its document node, or into the description of what is wrong with it. \<open>XOther\<close> is a
  node of any other type. Attribute and node values are C strings, without a zero byte.
\<close>

section \<open>Documents\<close>

datatype xml = XElement string "(string \<times> string) list" "xml list" | XPcdata string | XCdata string | XOther

type_synonym xml_parser = "string \<Rightarrow> string + xml list"

definition kRootName :: string where "kRootName = ''config''"
definition kVersionAttr :: string where "kVersionAttr = ''version''"
definition kTypeAttr :: string where "kTypeAttr = ''type''"
definition kItemName :: string where "kItemName = ''item''"

definition dash :: string where "dash = [CHR 0xE2, CHR 0x80, CHR 0x94]"

section \<open>The pieces of the conversion\<close>

text \<open>The budget is the number of nodes consumed so far.\<close>

definition consumeBudget :: "load_limits \<Rightarrow> nat \<Rightarrow> error + nat" where
  "consumeBudget L n = (if n = maxNodes L
     then fail ParseError (''XML document exceeds node limit ('' @ nat_str (maxNodes L) @ '')'')
     else Inr (n + 1))"

definition parseVersionCarrier :: "string \<Rightarrow> error + version_id" where
  "parseVersionCarrier s =
     (if s = [] then fail InvalidVersion ''version attribute must not be empty''
      else if find (\<lambda>c. \<not> is_digit c) s \<noteq> None then
        fail InvalidVersion (''version attribute must be decimal digits only, got '' @ squote @ s @ squote)
      else (case from_chars_uint64 s of
          FcValue value r \<Rightarrow> if r \<noteq> [] \<or> value > kMaxVersion
            then fail InvalidVersion (''version attribute value '' @ squote @ s @ squote @ '' is not representable in VersionId'')
            else Inr (word_of_nat value)
        | _ \<Rightarrow> fail InvalidVersion (''version attribute value '' @ squote @ s @ squote @ '' is not representable in VersionId'')))"

fun is_element :: "xml \<Rightarrow> bool" where
  "is_element (XElement n attrs cs) = True"
| "is_element x = False"

definition hasElementChildren :: "xml list \<Rightarrow> bool" where
  "hasElementChildren cs = list_ex is_element cs"

fun scalarText :: "string \<Rightarrow> string \<Rightarrow> xml list \<Rightarrow> error + string" where
  "scalarText name s [] = Inr s"
| "scalarText name s (XPcdata t # cs) = scalarText name (s @ t) cs"
| "scalarText name s (XCdata t # cs) = scalarText name (s @ t) cs"
| "scalarText name s (XElement n attrs inner # cs) =
     fail ParseError (''scalar element '' @ squote @ name @ squote @ '' must have no child elements'')"
| "scalarText name s (XOther # cs) = scalarText name s cs"

definition parseBoolText :: "string \<Rightarrow> string \<Rightarrow> error + config_value" where
  "parseBoolText s name = (if s = ''true'' then Inr (Scal (SBool True))
     else if s = ''false'' then Inr (Scal (SBool False))
     else fail ParseError (''bool element '' @ squote @ name @ squote @ '' must be exactly '' @ squote @ ''true'' @ squote
       @ '' or '' @ squote @ ''false'' @ squote @ '', got '' @ squote @ s @ squote))"

definition parseIntText :: "string \<Rightarrow> string \<Rightarrow> error + config_value" where
  "parseIntText s name = (case from_chars_int64 s of
     FcRange \<Rightarrow> fail ParseError (''int element text '' @ squote @ s @ squote @ '' is outside std::int64_t's range'')
   | FcInvalid \<Rightarrow> fail ParseError (''int element '' @ squote @ name @ squote @ '' text '' @ squote @ s @ squote @ '' is not a decimal integer'')
   | FcValue v r \<Rightarrow> (if r \<noteq> []
       then fail ParseError (''int element '' @ squote @ name @ squote @ '' text '' @ squote @ s @ squote @ '' is not a decimal integer'')
       else Inr (Scal (SInt v))))"

definition parseDoubleText :: "string \<Rightarrow> string \<Rightarrow> error + config_value" where
  "parseDoubleText s name = (let refuse = fail ParseError (''double element '' @ squote @ name @ squote @ '' text '' @ squote @ s
       @ squote @ '' is not a finite decimal floating-point literal'') in
     case from_chars_double s of
       FcValue d r \<Rightarrow> (if r \<noteq> [] \<or> \<not> is_finite_fp (decode64 d) then refuse else Inr (Scal (SDouble d)))
     | _ \<Rightarrow> refuse)"

text \<open>The attribute loop of \<open>parseValue\<close>: the type attribute, if there is one.\<close>

fun typeAttribute :: "string \<Rightarrow> string option \<Rightarrow> (string \<times> string) list \<Rightarrow> error + string option" where
  "typeAttribute name ty [] = Inr ty"
| "typeAttribute name ty ((a, v) # attrs) =
     (if a = kTypeAttr then
        (if ty \<noteq> None then fail ParseError (''duplicate '' @ squote @ ''type'' @ squote @ '' attribute on element '' @ squote @ name @ squote)
         else typeAttribute name (Some v) attrs)
      else fail ParseError (''attribute '' @ squote @ a @ squote @ '' on element '' @ squote @ name @ squote @ '' '' @ dash
        @ '' only '' @ squote @ ''type'' @ squote @ '' (and '' @ squote @ ''version'' @ squote @ '' on the document root) is reserved''))"

text \<open>A scalar element with a type attribute.\<close>

definition parseTypedText :: "string \<Rightarrow> string \<Rightarrow> string \<Rightarrow> error + config_value" where
  "parseTypedText ty s name =
     (if ty = ''null'' then
        (if s \<noteq> [] then fail ParseError (''null element '' @ squote @ name @ squote @ '' must be empty'') else Inr (Scal SNull))
      else if ty = ''bool'' then parseBoolText s name
      else if ty = ''int'' then parseIntText s name
      else parseDoubleText s name)"

section \<open>The conversion\<close>

text \<open>
  An element is its name, attributes and children; \<open>d\<close> is its depth in the model and \<open>n\<close> the budget
  consumed. The members of the object being built are added with \<open>upsert\<close>, the effect of
  \<open>ConfigValue::set\<close>.
\<close>

function parseValue :: "load_limits \<Rightarrow> string \<Rightarrow> (string \<times> string) list \<Rightarrow> xml list \<Rightarrow> nat \<Rightarrow> nat \<Rightarrow> error + (nat \<times> config_value)"
  and parseObjectMembers :: "load_limits \<Rightarrow> string \<Rightarrow> nat \<Rightarrow> nat \<Rightarrow> (string \<times> config_value) list \<Rightarrow> xml list \<Rightarrow>
        error + (nat \<times> config_value)"
  and parseArrayItems :: "load_limits \<Rightarrow> string \<Rightarrow> nat \<Rightarrow> nat \<Rightarrow> config_value list \<Rightarrow> xml list \<Rightarrow> error + (nat \<times> config_value)" where
  "parseValue L name attrs cs d n =
     (if d > kMaxTreeDepth
      then fail ParseError (''document exceeds the maximum nesting depth ('' @ nat_str kMaxTreeDepth @ '')'')
      else (case consumeBudget L n of Inl e \<Rightarrow> Inl e | Inr n1 \<Rightarrow>
        (case typeAttribute name None attrs of Inl e \<Rightarrow> Inl e
         | Inr None \<Rightarrow>
             (if hasElementChildren cs then parseObjectMembers L name d n1 [] cs
              else (case scalarText name [] cs of Inl e \<Rightarrow> Inl e
                | Inr s \<Rightarrow> (if \<not> isXmlRepresentable s
                    then fail ParseError (''text of element '' @ squote @ name @ squote @ '' is not valid UTF-8 XML character data'')
                    else Inr (n1, Scal (SString s)))))
         | Inr (Some ty) \<Rightarrow>
             (if ty = ''object'' then parseObjectMembers L name d n1 [] cs
              else if ty = ''array'' then parseArrayItems L name d n1 [] cs
              else if ty = ''null'' \<or> ty = ''bool'' \<or> ty = ''int'' \<or> ty = ''double'' then
                (case scalarText name [] cs of Inl e \<Rightarrow> Inl e | Inr s \<Rightarrow> map_sum id (Pair n1) (parseTypedText ty s name))
              else fail ParseError (''unknown type attribute value '' @ squote @ ty @ squote @ '' on element '' @ squote @ name
                @ squote @ '' (expected bool, int, double, null, object, or array)'')))))"
| "parseObjectMembers L name d n ms [] = Inr (n, Obj ms)"
| "parseObjectMembers L name d n ms (XElement key attrs inner # cs) =
     (if \<not> isPathAddressable key then fail ParseError (''element name '' @ squote @ key @ squote
        @ '' is not path-addressable (contains '' @ squote @ ''.'' @ squote @ '', '' @ squote @ ''['' @ squote @ '', or ''
        @ squote @ '']'' @ squote @ '')'')
      else if \<not> isValidElementName key then fail ParseError (''element name '' @ squote @ key @ squote
        @ '' is not a valid XML name in this mapping'')
      else if cv_contains (Obj ms) key then fail ParseError (''repeated sibling element '' @ squote @ key @ squote
        @ '' under '' @ squote @ name @ squote)
      else (case parseValue L key attrs inner (d + 1) n of Inl e \<Rightarrow> Inl e
        | Inr (n', v) \<Rightarrow> parseObjectMembers L name d n' (upsert key v ms) cs))"
| "parseObjectMembers L name d n ms (XPcdata s # cs) =
     (if \<not> isXmlWhitespace s then fail ParseError (''object element '' @ squote @ name @ squote @ '' must have no text'')
      else parseObjectMembers L name d n ms cs)"
| "parseObjectMembers L name d n ms (XCdata s # cs) =
     (if \<not> isXmlWhitespace s then fail ParseError (''object element '' @ squote @ name @ squote @ '' must have no text'')
      else parseObjectMembers L name d n ms cs)"
| "parseObjectMembers L name d n ms (XOther # cs) = parseObjectMembers L name d n ms cs"
| "parseArrayItems L name d n es [] = Inr (n, Arr es)"
| "parseArrayItems L name d n es (XElement key attrs inner # cs) =
     (if key \<noteq> kItemName then fail ParseError (''array element '' @ squote @ name @ squote
        @ '' must contain only <item> children, got '' @ squote @ key @ squote)
      else (case parseValue L key attrs inner (d + 1) n of Inl e \<Rightarrow> Inl e
        | Inr (n', v) \<Rightarrow> parseArrayItems L name d n' (es @ [v]) cs))"
| "parseArrayItems L name d n es (XPcdata s # cs) =
     (if \<not> isXmlWhitespace s then fail ParseError (''array element '' @ squote @ name @ squote @ '' must have no text'')
      else parseArrayItems L name d n es cs)"
| "parseArrayItems L name d n es (XCdata s # cs) =
     (if \<not> isXmlWhitespace s then fail ParseError (''array element '' @ squote @ name @ squote @ '' must have no text'')
      else parseArrayItems L name d n es cs)"
| "parseArrayItems L name d n es (XOther # cs) = parseArrayItems L name d n es cs"
  by pat_completeness auto
termination
  by (relation "measure (\<lambda>x. case x of Inl (L, name, attrs, cs, d, n) \<Rightarrow> Suc (2 * size_list size cs)
      | Inr (Inl (L, name, d, n, ms, cs)) \<Rightarrow> 2 * size_list size cs
      | Inr (Inr (L, name, d, n, es, cs)) \<Rightarrow> 2 * size_list size cs)") auto

declare parseValue.simps [simp del]

section \<open>Loading\<close>

text \<open>The loop over the document's children; the root is the first element.\<close>

fun checkDocument :: "bool \<Rightarrow> xml list \<Rightarrow> error + unit" where
  "checkDocument seen [] = Inr ()"
| "checkDocument seen (XElement n attrs inner # cs) =
     (if seen then fail ParseError ''document has more than one root element'' else checkDocument True cs)"
| "checkDocument seen (XPcdata s # cs) =
     (if \<not> isXmlWhitespace s then fail ParseError ''document has text outside the root element'' else checkDocument seen cs)"
| "checkDocument seen (XCdata s # cs) =
     (if \<not> isXmlWhitespace s then fail ParseError ''document has text outside the root element'' else checkDocument seen cs)"
| "checkDocument seen (XOther # cs) = checkDocument seen cs"

text \<open>\<open>document_element()\<close>; the null node has an empty name and nothing in it.\<close>

definition document_element :: "xml list \<Rightarrow> string \<times> (string \<times> string) list \<times> xml list" where
  "document_element cs = (case find is_element cs of Some (XElement n attrs inner) \<Rightarrow> (n, attrs, inner) | _ \<Rightarrow> ([], [], []))"

fun rootAttributes :: "version_id option \<Rightarrow> bool \<Rightarrow> (string \<times> string) list \<Rightarrow> error + version_id option" where
  "rootAttributes version sawType [] = Inr version"
| "rootAttributes version sawType ((a, v) # attrs) =
     (if a = kVersionAttr then
        (if version \<noteq> None then fail ParseError (''duplicate '' @ squote @ ''version'' @ squote @ '' attribute on the document root'')
         else (case parseVersionCarrier v of Inl e \<Rightarrow> Inl e | Inr carrier \<Rightarrow> rootAttributes (Some carrier) sawType attrs))
      else if a = kTypeAttr then
        (if sawType then fail ParseError (''duplicate '' @ squote @ ''type'' @ squote @ '' attribute on the document root'')
         else if v \<noteq> ''object'' then fail ParseError (''document root must be an object, got type='' @ dquote @ v @ dquote)
         else rootAttributes version True attrs)
      else fail ParseError (''attribute '' @ squote @ a @ squote @ '' on the document root '' @ dash @ '' only '' @ squote
        @ ''version'' @ squote @ '' and '' @ squote @ ''type'' @ squote @ '' are reserved''))"

text \<open>What \<open>load\<close> makes of the document, up to the value.\<close>

definition xml_document :: "load_limits \<Rightarrow> xml list \<Rightarrow> error + (version_id \<times> config_value)" where
  "xml_document L doc = (case document_element doc of (name, attrs, inner) \<Rightarrow>
     (case checkDocument False doc of Inl e \<Rightarrow> Inl e | Inr _ \<Rightarrow>
        if name \<noteq> kRootName then fail ParseError (''document root must be <config>, got <'' @ name @ ''>'')
        else (case rootAttributes None False attrs of Inl e \<Rightarrow> Inl e
          | Inr None \<Rightarrow> fail InvalidVersion (''stream carries no version metadata (root '' @ squote @ ''version'' @ squote @ '' attribute)'')
          | Inr (Some version) \<Rightarrow>
              (case consumeBudget L 0 of Inl e \<Rightarrow> Inl e | Inr n \<Rightarrow>
                (case parseObjectMembers L name 0 n [] inner of Inl e \<Rightarrow> Inl e
                 | Inr (n', v) \<Rightarrow> Inr (version, v))))))"

definition xml_load_bytes :: "xml_parser \<Rightarrow> load_limits \<Rightarrow> string \<Rightarrow> (error + vconfig) option" where
  "xml_load_bytes parser L bytes = (case parser bytes of
       Inl description \<Rightarrow> Some (fail ParseError (''XML parse failed: '' @ description))
     | Inr doc \<Rightarrow> (case xml_document L doc of
         Inl e \<Rightarrow> Some (Inl e)
       | Inr (version, root) \<Rightarrow> do {
           r \<leftarrow> cm_fromValue root;
           Some (case r of Inl e \<Rightarrow> fail ParseError (err_message e)
             | Inr m \<Rightarrow> Inr \<lparr>vc_version = version, vc_model = m\<rparr>) }))"

text \<open>On a stream that throws nothing.\<close>

definition xml_load :: "xml_parser \<Rightarrow> load_limits \<Rightarrow> string list option \<Rightarrow> (error + vconfig) option" where
  "xml_load parser L stream = (case xml_readBounded stream (maxInputBytes L) of
     Inl e \<Rightarrow> Some (Inl e)
   | Inr bytes \<Rightarrow> xml_load_bytes parser L bytes)"

lemmas xml_load_unfold = xml_load_def[unfolded xml_load_bytes_def]

section \<open>The version carrier and the scalar literals\<close>

lemma find_digits: "find (\<lambda>c. \<not> is_digit c) s = None \<longleftrightarrow> (\<forall>c \<in> set s. is_digit c)"
  by (auto simp: find_None_iff)

lemma parseVersionCarrier_iff:
  "parseVersionCarrier s = Inr v \<longleftrightarrow> s \<noteq> [] \<and> (\<forall>c \<in> set s. is_digit c) \<and> digits_val s = unat v"
proof -
  have u: "unat v \<le> kMaxVersion" for v :: version_id
  proof -
    have "unat v < 2 ^ 32" by (rule less_le_trans[OF unsigned_less]) simp
    then show ?thesis by (simp add: kMaxVersion_def)
  qed
  have w: "k \<le> kMaxVersion \<Longrightarrow> unat (word_of_nat k :: version_id) = k" for k
    by (simp add: kMaxVersion_def unsigned_of_nat take_bit_nat_eq_self)
  have d: "from_chars_uint64 s = (if digits_val s \<ge> 2 ^ 64 then FcRange else FcValue (digits_val s) [])"
    if "s \<noteq> []" "\<forall>c \<in> set s. is_digit c"
  proof -
    have t: "takeWhile is_digit s = s" "dropWhile is_digit s = []" using digits_all[OF that(2)] by blast+
    show ?thesis unfolding from_chars_uint64_def Let_def t using that(1) by simp
  qed
  show ?thesis
  proof (cases "s \<noteq> [] \<and> (\<forall>c \<in> set s. is_digit c)")
    case True
    have "kMaxVersion < 2 ^ 64" by (simp add: kMaxVersion_def)
    then have "parseVersionCarrier s = (if digits_val s > kMaxVersion
        then fail InvalidVersion (''version attribute value '' @ squote @ s @ squote @ '' is not representable in VersionId'')
        else Inr (word_of_nat (digits_val s)))"
      using True d find_digits[of s] by (simp add: parseVersionCarrier_def)
    with True u[of v] w show ?thesis by (auto simp: not_less)
  next
    case False
    then show ?thesis using find_digits[of s] by (auto simp: parseVersionCarrier_def)
  qed
qed

lemma parseVersionCarrier_error: "parseVersionCarrier s = Inl e \<Longrightarrow> err_code e = InvalidVersion"
  by (auto simp: parseVersionCarrier_def fail_def simp del: Inl_fold_fail split: if_splits chars_result.splits)

lemma parseIntText_iff: "parseIntText s name = Inr v \<longleftrightarrow> (\<exists>i. v = Scal (SInt i) \<and> from_chars_int64 s = FcValue i [])"
  by (auto simp: parseIntText_def split: chars_result.splits)

lemma parseDoubleText_iff:
  "parseDoubleText s name = Inr v \<longleftrightarrow> (\<exists>d. v = Scal (SDouble d) \<and> is_finite_fp (decode64 d) \<and> from_chars_double s = FcValue d [])"
  by (auto simp: parseDoubleText_def Let_def split: chars_result.splits)

lemma parseBoolText_iff: "parseBoolText s name = Inr v \<longleftrightarrow> (\<exists>b. v = Scal (SBool b) \<and> s = (if b then ''true'' else ''false''))"
  by (auto simp: parseBoolText_def)

section \<open>Accepted documents\<close>

text \<open>What XML can carry, as \<open>save\<close> sees it.\<close>

primrec saveable :: "config_value \<Rightarrow> bool" where
  "saveable (Scal s) = (case s of SDouble d \<Rightarrow> is_finite_fp (decode64 d) | SString t \<Rightarrow> isXmlRepresentable t | _ \<Rightarrow> True)"
| "saveable (Obj ms) = list_all (\<lambda>m. isValidElementName (fst m) \<and> snd m) (map (map_prod id saveable) ms)"
| "saveable (Arr es) = list_all id (map saveable es)"

lemma saveable_simps [simp]:
  "saveable (Obj ms) \<longleftrightarrow> (\<forall>(k, v) \<in> set ms. isValidElementName k \<and> saveable v)"
  "saveable (Arr es) \<longleftrightarrow> (\<forall>v \<in> set es. saveable v)"
  by (auto simp: list_all_iff)

declare saveable.simps(2,3) [simp del]

lemma consumeBudget_Inr: "consumeBudget L n = Inr n1 \<longleftrightarrow> n \<noteq> maxNodes L \<and> n1 = Suc n"
  by (auto simp: consumeBudget_def)

lemma parseTypedText_sound:
  "parseTypedText ty s name = Inr v \<Longrightarrow> cv_nodes v = 1 \<and> saveable v \<and> (\<exists>x. v = Scal x)"
  by (auto simp: parseTypedText_def parseBoolText_iff parseIntText_iff parseDoubleText_iff split: if_splits)


text \<open>An accepted element respects every bound, counts its nodes, and can be written again.\<close>

lemma parse_sound:
  "n \<le> maxNodes L \<Longrightarrow> parseValue L name attrs cs d n = Inr (n', v) \<Longrightarrow>
     wf_at d v \<and> n' = n + cv_nodes v \<and> n' \<le> maxNodes L \<and> saveable v"
  "n \<le> maxNodes L \<Longrightarrow> parseObjectMembers L name d n ms cs = Inr (n', v) \<Longrightarrow> d \<le> kMaxTreeDepth \<Longrightarrow>
     \<exists>new. v = Obj (ms @ new) \<and> (distinct (map fst ms) \<longrightarrow> distinct (map fst (ms @ new))) \<and>
       (\<forall>(k, c) \<in> set new. isAddressableKey k \<and> isValidElementName k \<and> wf_at (Suc d) c \<and> saveable c) \<and>
       n' = n + sum_list (map (cv_nodes \<circ> snd) new) \<and> n' \<le> maxNodes L"
  "n \<le> maxNodes L \<Longrightarrow> parseArrayItems L name d n es cs = Inr (n', v) \<Longrightarrow> d \<le> kMaxTreeDepth \<Longrightarrow>
     \<exists>new. v = Arr (es @ new) \<and> (\<forall>c \<in> set new. wf_at (Suc d) c \<and> saveable c) \<and>
       n' = n + sum_list (map cv_nodes new) \<and> n' \<le> maxNodes L"
proof (induction L name attrs cs d n and L name d n ms cs and L name d n es cs arbitrary: n' v and n' v and n' v
    rule: parseValue_parseObjectMembers_parseArrayItems.induct)
  case (1 L name attrs cs d n)
  note p = 1(5)[unfolded parseValue.simps[of L name attrs cs d n]]
  from p have d: "d \<le> kMaxTreeDepth" "\<not> d > kMaxTreeDepth" by (auto split: if_splits)
  with p obtain n1 where n1: "consumeBudget L n = Inr n1" by (auto split: sum.splits)
  with 1(4) have n1': "n1 = Suc n" "n1 \<le> maxNodes L" by (auto simp: consumeBudget_Inr)
  from p d n1 obtain ty where ty: "typeAttribute name None attrs = Inr ty" by (auto split: sum.splits)
  have object: ?case if "\<exists>new. v = Obj ([] @ new) \<and> (distinct (map fst []) \<longrightarrow> distinct (map fst ([] @ new))) \<and>
      (\<forall>(k, c) \<in> set new. isAddressableKey k \<and> isValidElementName k \<and> wf_at (Suc d) c \<and> saveable c) \<and>
      n' = n1 + sum_list (map (cv_nodes \<circ> snd) new) \<and> n' \<le> maxNodes L"
    using that d n1'(1) by (auto simp: cv_nodes_kids comp_def)
  show ?case
  proof (cases ty)
    case None
    show ?thesis
    proof (cases "hasElementChildren cs")
      case True
      with p d n1 ty None have "parseObjectMembers L name d n1 [] cs = Inr (n', v)" by simp
      from object[OF 1(1)[OF d(2) n1 ty None True n1'(2) this d(1)]] show ?thesis .
    next
      case False
      with p d n1 n1' ty None show ?thesis by (auto split: sum.splits if_splits)
    qed
  next
    case (Some x)
    consider "x = ''object''" | "x \<noteq> ''object''" "x = ''array''" | "x \<noteq> ''object''" "x \<noteq> ''array''" by blast
    then show ?thesis
    proof cases
      case 1
      with p d n1 ty Some have "parseObjectMembers L name d n1 [] cs = Inr (n', v)" by simp
      from object[OF "1.IH"(2)[OF d(2) n1 ty Some 1 n1'(2) this d(1)]] show ?thesis .
    next
      case 2
      with p d n1 ty Some have "parseArrayItems L name d n1 [] cs = Inr (n', v)" by simp
      from "1.IH"(3)[OF d(2) n1 ty Some 2 n1'(2) this d(1)] d n1'(1) show ?thesis by (auto simp: cv_nodes_kids[of "Arr es" for es])
    next
      case 3
      with p d n1 ty Some obtain s where "n' = n1" "parseTypedText x s name = Inr v"
        by (auto split: sum.splits if_splits simp: map_sum_def)
      with parseTypedText_sound[of x s name v] d n1' show ?thesis by auto
    qed
  qed
next
  case (3 L name d n ms key attrs inner cs)
  then have k: "\<not> \<not> isPathAddressable key" "\<not> \<not> isValidElementName key" "\<not> cv_contains (Obj ms) key" by (auto split: if_splits)
  with 3(4) obtain n1 c where r: "parseValue L key attrs inner (d + 1) n = Inr (n1, c)"
    "parseObjectMembers L name d n1 (upsert key c ms) cs = Inr (n', v)" by (auto split: sum.splits)
  from 3(1)[OF k 3(3) r(1)] have c: "wf_at (Suc d) c" "n1 = n + cv_nodes c" "n1 \<le> maxNodes L" "saveable c" by simp_all
  have u: "upsert key c ms = ms @ [(key, c)]" using k(3) by (simp add: cv_contains_def upsert_fresh)
  from 3(2)[OF k r(1) refl c(3) r(2) 3(5)] obtain new where
    "v = Obj ((ms @ [(key, c)]) @ new)" "distinct (map fst (ms @ [(key, c)])) \<longrightarrow> distinct (map fst ((ms @ [(key, c)]) @ new))"
    "\<forall>(k, c) \<in> set new. isAddressableKey k \<and> isValidElementName k \<and> wf_at (Suc d) c \<and> saveable c"
    "n' = n1 + sum_list (map (cv_nodes \<circ> snd) new)" "n' \<le> maxNodes L" unfolding u by blast
  with c k show ?case
    by (intro exI[of _ "(key, c) # new"]) (auto simp: isPathAddressable_iff comp_def cv_contains_def)
next
  case (8 L name d n es key attrs inner cs)
  then have k: "\<not> key \<noteq> kItemName" by (auto split: if_splits)
  with 8(4) obtain n1 c where r: "parseValue L key attrs inner (d + 1) n = Inr (n1, c)"
    "parseArrayItems L name d n1 (es @ [c]) cs = Inr (n', v)" by (auto split: sum.splits)
  from 8(1)[OF k 8(3) r(1)] have c: "wf_at (Suc d) c" "n1 = n + cv_nodes c" "n1 \<le> maxNodes L" "saveable c" by simp_all
  from 8(2)[OF k r(1) refl c(3) r(2) 8(5)] obtain new where
    "v = Arr ((es @ [c]) @ new)" "\<forall>c \<in> set new. wf_at (Suc d) c \<and> saveable c"
    "n' = n1 + sum_list (map cv_nodes new)" "n' \<le> maxNodes L" by blast
  with c show ?case by (intro exI[of _ "c # new"]) auto
qed (auto split: if_splits)

lemma xml_document_sound:
  assumes "xml_document L doc = Inr (version, v)"
  shows "wf_model_value v \<and> cv_nodes v \<le> maxNodes L \<and> saveable v"
proof -
  from assms obtain name inner n where r: "maxNodes L \<noteq> 0" "parseObjectMembers L name 0 1 [] inner = Inr (n, v)"
    by (auto simp: xml_document_def consumeBudget_Inr split: prod.splits sum.splits if_splits option.splits)
  from parse_sound(2)[OF _ r(2)] r(1) obtain new where "v = Obj new" "distinct (map fst new)"
    "\<forall>(k, c) \<in> set new. isAddressableKey k \<and> isValidElementName k \<and> wf_at (Suc 0) c \<and> saveable c"
    "n = 1 + sum_list (map (cv_nodes \<circ> snd) new)" "n \<le> maxNodes L" by auto
  then show ?thesis by (auto simp: wf_model_value_def cv_nodes_kids comp_def)
qed

definition xml_spec_load :: "xml_parser \<Rightarrow> load_limits \<Rightarrow> string list option \<Rightarrow> error + (version_id \<times> config_value)" where
  "xml_spec_load parser L stream = (case readBounded ''XML'' stream (maxInputBytes L) of
     Inl e \<Rightarrow> Inl e
   | Inr bytes \<Rightarrow> (case parser bytes of
       Inl description \<Rightarrow> fail ParseError (''XML parse failed: '' @ description)
     | Inr doc \<Rightarrow> xml_document L doc))"

text \<open>\<open>load\<close> puts exactly that value into a model: \<open>fromValue\<close> never refuses it.\<close>

lemma xml_load_models:
  assumes "maxNodes L < kNodeIdNone"
  shows "case xml_spec_load parser L stream of
      Inl e \<Rightarrow> xml_load parser L stream = Some (Inl e)
    | Inr (version, v) \<Rightarrow> \<exists>m. xml_load parser L stream = Some (Inr \<lparr>vc_version = version, vc_model = m\<rparr>) \<and> models m v"
proof (cases "xml_spec_load parser L stream")
  case (Inl e)
  then show ?thesis
    by (auto simp: xml_spec_load_def xml_load_unfold xml_readBounded_def fail_def simp del: Inl_fold_fail split: sum.splits)
next
  case (Inr x)
  obtain version v where x: "x = (version, v)" by (cases x)
  with Inr obtain bytes doc where d: "readBounded ''XML'' stream (maxInputBytes L) = Inr bytes" "parser bytes = Inr doc"
    "xml_document L doc = Inr (version, v)" by (auto simp: xml_spec_load_def split: sum.splits)
  note s = xml_document_sound[OF d(3)]
  have f: "cv_distinct v" "cv_nodes v < kNodeIdNone" "spec_fromValue v = Inr v"
    using s assms by (simp_all add: wf_model_value_def wf_at_validate spec_fromValue_def)
  from fromValue_refines[OF f(1,2)] f(3) obtain m where "cm_fromValue v = Some (Inr m)" "models m v" by auto
  with d Inr x show ?thesis by (simp add: xml_load_unfold xml_readBounded_def)
qed

section \<open>Errors\<close>

definition only_codes :: "error_code set \<Rightarrow> error + 'a \<Rightarrow> bool" where
  "only_codes C r \<longleftrightarrow> (\<forall>e. r = Inl e \<longrightarrow> err_code e \<in> C)"

lemma only_codes_leaf [simp]: "only_codes C (Inr x)" "only_codes C (fail c m) \<longleftrightarrow> c \<in> C" "only_codes C (Inl e) \<longleftrightarrow> err_code e \<in> C"
  by (auto simp: only_codes_def fail_def simp del: Inl_fold_fail)

lemma only_codes_seq [intro!]:
  "only_codes C r \<Longrightarrow> (\<And>x. r = Inr x \<Longrightarrow> only_codes C (f x)) \<Longrightarrow> only_codes C (case r of Inl e \<Rightarrow> Inl e | Inr x \<Rightarrow> f x)"
  "(b \<Longrightarrow> only_codes C r) \<Longrightarrow> (\<not> b \<Longrightarrow> only_codes C s) \<Longrightarrow> only_codes C (if b then r else s)"
  "(x = None \<Longrightarrow> only_codes C r) \<Longrightarrow> (\<And>y. x = Some y \<Longrightarrow> only_codes C (g y)) \<Longrightarrow> only_codes C (case x of None \<Rightarrow> r | Some y \<Rightarrow> g y)"
  "only_codes C r \<Longrightarrow> only_codes C (map_sum id h r)"
  by (auto simp: only_codes_def split: sum.splits option.splits) (cases r; simp)

lemma only_codes_mono: "only_codes C r \<Longrightarrow> C \<subseteq> D \<Longrightarrow> only_codes D r"
  by (auto simp: only_codes_def)

lemma parse_steps [simp]:
  "only_codes {ParseError} (consumeBudget L n)" "only_codes {ParseError} (typeAttribute name ty attrs)"
  "only_codes {ParseError} (scalarText name acc cs)" "only_codes {ParseError} (parseTypedText x s name)"
  "only_codes {ParseError} (checkDocument seen doc)" "only_codes {ParseError} (readBounded kind stream k)"
proof -
  show "only_codes {ParseError} (typeAttribute name ty attrs)"
    by (induction name ty attrs rule: typeAttribute.induct) auto
  show "only_codes {ParseError} (scalarText name acc cs)"
    by (induction name acc cs rule: scalarText.induct) auto
  show "only_codes {ParseError} (checkDocument seen doc)"
    by (induction seen doc rule: checkDocument.induct) auto
  show "only_codes {ParseError} (readBounded kind stream k)"
    using readBounded_error by (auto simp: only_codes_def)
  show "only_codes {ParseError} (parseTypedText x s name)"
  proof -
    have "only_codes {ParseError} (parseBoolText s name)" by (simp add: parseBoolText_def)
    moreover have "only_codes {ParseError} (parseIntText s name)"
      by (cases "from_chars_int64 s") (simp_all add: parseIntText_def)
    moreover have "only_codes {ParseError} (parseDoubleText s name)"
      by (cases "from_chars_double s") (simp_all add: parseDoubleText_def Let_def)
    ultimately show ?thesis by (simp add: parseTypedText_def)
  qed
qed (auto simp: consumeBudget_def)

lemma parse_codes:
  "only_codes {ParseError} (parseValue L name attrs cs d n)"
  "only_codes {ParseError} (parseObjectMembers L name d n ms cs)"
  "only_codes {ParseError} (parseArrayItems L name d n es cs)"
proof (induction L name attrs cs d n and L name d n ms cs and L name d n es cs
    rule: parseValue_parseObjectMembers_parseArrayItems.induct)
  case (1 L name attrs cs d n)
  show ?case unfolding parseValue.simps[of L name attrs cs d n] by (intro only_codes_seq; simp add: 1)
qed (auto split: prod.split)

lemma document_codes: "only_codes {ParseError, InvalidVersion} (xml_document L doc)"
proof -
  have v: "only_codes {ParseError, InvalidVersion} (parseVersionCarrier s)" for s
    using parseVersionCarrier_error by (auto simp: only_codes_def)
  have r: "only_codes {ParseError, InvalidVersion} (rootAttributes ver saw attrs)" for ver saw attrs
    by (induction ver saw attrs rule: rootAttributes.induct) (auto simp: v)
  have m: "only_codes {ParseError} x \<Longrightarrow> only_codes {ParseError, InvalidVersion} x" for x :: "error + 'b"
    by (rule only_codes_mono) auto
  obtain name attrs inner where d: "document_element doc = (name, attrs, inner)" by (cases "document_element doc")
  show ?thesis unfolding xml_document_def d prod.case
    by (intro only_codes_seq; (rule r | rule m[OF parse_steps(5)] | rule m[OF parse_steps(1)]
        | rule m[OF parse_codes(2)] | simp split: prod.split))
qed

lemma xml_spec_load_codes: "only_codes {ParseError, InvalidVersion} (xml_spec_load parser L stream)"
  unfolding xml_spec_load_def
  by (intro only_codes_seq; ((rule only_codes_mono[OF parse_steps(6)], blast) | simp add: document_codes split: sum.split))

end
