(* ===== verification/Xml_Save.thy ===== *)
theory Xml_Save
  imports Xml_Load
begin

text \<open>
  Saving with the XML backend, \<open>backends/xml/src/xml_interface.cpp\<close>: the elements \<open>appendValueElement\<close>
  builds from handles, \<open>XmlInterface::save\<close>, and the round trip.
  The document printer is an argument. \<open>std::to_chars\<close> of a double is the argument \<open>fmt\<close>. An
  append always succeeds here (\<open>Xml_Alloc\<close> has the empty handles with which the XML library reports
  exhausted memory), and \<open>value()\<close> on a failed result is \<open>None\<close>, as in the JSON emitter.
\<close>

section \<open>The emitter\<close>

definition setTypeAttribute :: "string \<Rightarrow> (string \<times> string) list \<Rightarrow> (string \<times> string) list" where
  "setTypeAttribute ty attrs = attrs @ [(kTypeAttr, ty)]"

definition setElementText :: "string \<Rightarrow> xml list \<Rightarrow> xml list" where
  "setElementText s cs = cs @ [XPcdata s]"

definition bad_name :: "string \<Rightarrow> error + 'a" where
  "bad_name name = fail SerializationError (''model key '' @ squote @ name @ squote
     @ '' is not a valid XML element name (XML 1.0 Name production, '' @ squote @ '':'' @ squote @ '' excluded)'')"

text \<open>The two child loops; the recursive call is an argument.\<close>

fun appendMembers :: "(config_node \<Rightarrow> string \<Rightarrow> (error + xml) option) \<Rightarrow> xml list \<Rightarrow>
    (string \<times> config_node) list \<Rightarrow> (error + xml list) option" where
  "appendMembers emit cs [] = Some (Inr cs)"
| "appendMembers emit cs ((key, member) # ms) = do {
     child \<leftarrow> emit member key;
     (case child of Inl e \<Rightarrow> Some (Inl e) | Inr x \<Rightarrow> appendMembers emit (cs @ [x]) ms) }"

fun appendItems :: "(nat \<Rightarrow> (error + xml) option) \<Rightarrow> xml list \<Rightarrow> nat list \<Rightarrow> (error + xml list) option" where
  "appendItems emit cs [] = Some (Inr cs)"
| "appendItems emit cs (i # idx) = do {
     child \<leftarrow> emit i;
     (case child of Inl e \<Rightarrow> Some (Inl e) | Inr x \<Rightarrow> appendItems emit (cs @ [x]) idx) }"

text \<open>The element appended for a node; on an error the document is dropped with it.\<close>

primrec appendValueElement :: "(double \<Rightarrow> string) \<Rightarrow> nat \<Rightarrow> arena \<Rightarrow> config_node \<Rightarrow> string \<Rightarrow> (error + xml) option" where
  "appendValueElement fmt 0 ar node name = None"
| "appendValueElement fmt (Suc f) ar node name =
     (if \<not> isValidElementName name then Some (bad_name name)
      else do {
        ty \<leftarrow> cn_type ar node;
        (case ty of
           TNull \<Rightarrow> Some (Inr (XElement name (setTypeAttribute ''null'' []) []))
         | TBool \<Rightarrow> (case cn_as TyBool ar node of
               Inr (VBool b) \<Rightarrow> Some (Inr (XElement name (setTypeAttribute ''bool'' [])
                 (setElementText (if b then ''true'' else ''false'') []))) | _ \<Rightarrow> None)
         | TInt \<Rightarrow> (case cn_as (TyInteger True 64) ar node of
               Inr (VInteger i) \<Rightarrow> Some (Inr (XElement name (setTypeAttribute ''int'' []) (setElementText (int_str i) [])))
             | _ \<Rightarrow> None)
         | TDouble \<Rightarrow> (case cn_as TyDouble ar node of
               Inr (VDouble d) \<Rightarrow> Some (if \<not> isfinite d
                 then fail SerializationError (''non-finite double at key '' @ squote @ name @ squote
                   @ '' is unrepresentable in the XML mapping'')
                 else Inr (XElement name (setTypeAttribute ''double'' []) (setElementText (fmt d) []))) | _ \<Rightarrow> None)
         | TString \<Rightarrow> (case cn_as TyString ar node of
               Inr (VString s) \<Rightarrow> Some (if \<not> isXmlRepresentable s
                 then fail SerializationError (''string at key '' @ squote @ name @ squote
                   @ '' contains a control character that XML 1.0 cannot represent'')
                 else Inr (XElement name [] (if s \<noteq> [] then setElementText s [] else []))) | _ \<Rightarrow> None)
         | TObject \<Rightarrow> do {
             n \<leftarrow> cn_size ar node;
             if n = 0 then Some (Inr (XElement name (setTypeAttribute ''object'' []) []))
             else do {
               members \<leftarrow> cn_members ar node;
               (case members of Inl e \<Rightarrow> None
                | Inr ms \<Rightarrow> map_option (map_sum id (XElement name [])) (appendMembers (appendValueElement fmt f ar) [] ms)) } }
         | TArray \<Rightarrow> do {
             n \<leftarrow> cn_size ar node;
             map_option (map_sum id (XElement name (setTypeAttribute ''array'' []))) (appendItems (\<lambda>i. do {
               c \<leftarrow> cn_at ar node i;
               (case c of Inl e \<Rightarrow> None | Inr child \<Rightarrow> appendValueElement fmt f ar child kItemName) }) [] [0..<n]) }) })"

text \<open>The document \<open>save\<close> builds before it prints.\<close>

definition xml_built :: "(double \<Rightarrow> string) \<Rightarrow> vconfig \<Rightarrow> (error + xml) option" where
  "xml_built fmt config = do {
     root \<leftarrow> cm_root (vc_model config);
     members \<leftarrow> cn_members (cm_arena (vc_model config)) root;
     (case members of Inl e \<Rightarrow> None
      | Inr ms \<Rightarrow> map_option (map_sum id (XElement kRootName [(kVersionAttr, nat_str (unat (vc_version config)))]))
          (appendMembers (appendValueElement fmt stack_fuel (cm_arena (vc_model config))) [] ms)) }"

definition xml_save :: "(double \<Rightarrow> string) \<Rightarrow> (xml \<Rightarrow> string) \<Rightarrow> vconfig \<Rightarrow> (string \<Rightarrow> bool) \<Rightarrow>
    (string option \<times> (error + unit)) option" where
  "xml_save fmt print config accepts_text = do {
     r \<leftarrow> xml_built fmt config;
     Some (case r of Inl e \<Rightarrow> (None, Inl e)
       | Inr doc \<Rightarrow> (let t = print doc in
           (Some t, if accepts_text t then Inr () else fail SerializationError ''failed to write XML document to stream''))) }"

section \<open>The emitted elements\<close>

text \<open>What the emitter makes of a value.\<close>

fun xml_of :: "(double \<Rightarrow> string) \<Rightarrow> string \<Rightarrow> config_value \<Rightarrow> error + xml"
  and xml_members :: "(double \<Rightarrow> string) \<Rightarrow> xml list \<Rightarrow> (string \<times> config_value) list \<Rightarrow> error + xml list"
  and xml_items :: "(double \<Rightarrow> string) \<Rightarrow> xml list \<Rightarrow> config_value list \<Rightarrow> error + xml list" where
  "xml_of fmt name (Scal s) = (if \<not> isValidElementName name then bad_name name else (case s of
       SNull \<Rightarrow> Inr (XElement name [(kTypeAttr, ''null'')] [])
     | SBool b \<Rightarrow> Inr (XElement name [(kTypeAttr, ''bool'')] [XPcdata (if b then ''true'' else ''false'')])
     | SInt i \<Rightarrow> Inr (XElement name [(kTypeAttr, ''int'')] [XPcdata (int_str (sint i))])
     | SDouble d \<Rightarrow> (if \<not> isfinite d then fail SerializationError (''non-finite double at key '' @ squote @ name @ squote
           @ '' is unrepresentable in the XML mapping'')
         else Inr (XElement name [(kTypeAttr, ''double'')] [XPcdata (fmt d)]))
     | SString t \<Rightarrow> (if \<not> isXmlRepresentable t then fail SerializationError (''string at key '' @ squote @ name @ squote
           @ '' contains a control character that XML 1.0 cannot represent'')
         else Inr (XElement name [] (if t \<noteq> [] then [XPcdata t] else [])))))"
| "xml_of fmt name (Obj ms) = (if \<not> isValidElementName name then bad_name name
     else if ms = [] then Inr (XElement name [(kTypeAttr, ''object'')] [])
     else map_sum id (XElement name []) (xml_members fmt [] ms))"
| "xml_of fmt name (Arr es) = (if \<not> isValidElementName name then bad_name name
     else map_sum id (XElement name [(kTypeAttr, ''array'')]) (xml_items fmt [] es))"
| "xml_members fmt cs [] = Inr cs"
| "xml_members fmt cs ((k, v) # ms) = (case xml_of fmt k v of Inl e \<Rightarrow> Inl e | Inr x \<Rightarrow> xml_members fmt (cs @ [x]) ms)"
| "xml_items fmt cs [] = Inr cs"
| "xml_items fmt cs (v # es) = (case xml_of fmt kItemName v of Inl e \<Rightarrow> Inl e | Inr x \<Rightarrow> xml_items fmt (cs @ [x]) es)"

lemma appendMembers_xml:
  assumes "\<forall>(k, c) \<in> set ms. emit (H k) k = Some (xml_of fmt k c)"
  shows "appendMembers emit cs (map (\<lambda>(k, c). (k, H k)) ms) = Some (xml_members fmt cs ms)"
  using assms
proof (induction ms arbitrary: cs)
  case (Cons m ms)
  then show ?case by (cases m) (auto split: sum.splits)
qed simp

lemma appendItems_xml:
  assumes "\<And>i. i < length es \<Longrightarrow> emit i = Some (xml_of fmt kItemName (es ! i))" and "j \<le> length es"
  shows "appendItems emit cs [j..<length es] = Some (xml_items fmt cs (drop j es))"
  using assms(2)
proof (induction "length es - j" arbitrary: cs j)
  case 0
  then show ?case by simp
next
  case (Suc x)
  then have j: "j < length es" by simp
  have d: "drop j es = es ! j # drop (Suc j) es" using Cons_nth_drop_Suc[OF j] by simp
  have "appendItems emit (cs @ [y]) [Suc j..<length es] = Some (xml_items fmt (cs @ [y]) (drop (Suc j) es))" for y
    using Suc(2) j by (intro Suc(1)) auto
  then show ?case using assms(1)[OF j] by (auto simp: d upt_conv_Cons[OF j] split: sum.splits)
qed

text \<open>Emitting through handles computes it.\<close>

lemma appendValueElement_views:
  assumes "models m v"
  shows "views m h p \<Longrightarrow> tree_resolve p v = Inr c \<Longrightarrow> wf_at d c \<Longrightarrow> kMaxTreeDepth < d + f \<Longrightarrow>
    appendValueElement fmt f (cm_arena m) h name = Some (xml_of fmt name c)"
proof (induction f arbitrary: h p c d name)
  case 0
  then show ?case using wf_at_depth[OF 0(3)] by simp
next
  case (Suc f)
  note ty = cn_type_views[OF Suc(2) assms Suc(3)]
  have sz: "cn_size (cm_arena m) h = Some (case c of Scal _ \<Rightarrow> 0 | Obj ms \<Rightarrow> length ms | Arr es \<Rightarrow> length es)"
    using cn_size_views[OF Suc(2) assms Suc(3)] by (cases c) simp_all
  show ?case
  proof (cases c)
    case (Scal s)
    note sv = cn_scalar_views[OF Suc(2) assms Suc(3)]
    show ?thesis using ty sv
      by (cases s) (simp_all add: Scal cn_as_def convertScalar_def fits_int64 setTypeAttribute_def setElementText_def)
  next
    case (Obj ms)
    from cn_members_views[OF Suc(2) assms, of ms] Suc(3) Obj obtain H where
      H: "cn_members (cm_arena m) h = Some (Inr (map (\<lambda>(k, c). (k, H k)) ms))"
        "\<forall>(k, c) \<in> set ms. views m (H k) (p @ [Key k])" by auto
    have e: "appendValueElement fmt f (cm_arena m) (H k) k = Some (xml_of fmt k c')" if kc: "(k, c') \<in> set ms" for k c'
    proof (rule Suc.IH)
      show "views m (H k) (p @ [Key k])" using H(2) kc by blast
      have "map_of ms k = Some c'" using kc Suc(4) Obj by simp
      then show "tree_resolve (p @ [Key k]) v = Inr c'" using Suc(3) Obj by (simp add: tree_resolve_append)
      show "wf_at (Suc d) c'" using Suc(4) kc unfolding Obj by auto
    qed (use Suc(5) in simp)
    then have "\<forall>(k, c') \<in> set ms. appendValueElement fmt f (cm_arena m) (H k) k = Some (xml_of fmt k c')" by blast
    from appendMembers_xml[of ms "appendValueElement fmt f (cm_arena m)" H fmt "[]", OF this] H(1) ty sz show ?thesis
      by (simp add: Obj setTypeAttribute_def)
  next
    case (Arr es)
    let ?emit = "\<lambda>i. do { c \<leftarrow> cn_at (cm_arena m) h i;
      (case c of Inl e \<Rightarrow> None | Inr child \<Rightarrow> appendValueElement fmt f (cm_arena m) child kItemName) }"
    have "?emit i = Some (xml_of fmt kItemName (es ! i))" if i: "i < length es" for i
    proof -
      from cn_at_views(1)[OF Suc(2) assms _ i] Suc(3) Arr obtain h' where
        h': "cn_at (cm_arena m) h i = Some (Inr h')" "views m h' (p @ [Index i])" by auto
      have "appendValueElement fmt f (cm_arena m) h' kItemName = Some (xml_of fmt kItemName (es ! i))"
      proof (rule Suc.IH[OF h'(2)])
        show "tree_resolve (p @ [Index i]) v = Inr (es ! i)" using Suc(3) Arr i by (simp add: tree_resolve_append)
        show "wf_at (Suc d) (es ! i)" using Suc(4) i unfolding Arr by simp
      qed (use Suc(5) in simp)
      with h'(1) show ?thesis by simp
    qed
    from appendItems_xml[of es ?emit fmt 0, OF this] sz ty show ?thesis by (simp add: Arr setTypeAttribute_def)
  qed
qed

section \<open>Documents without errors\<close>

primrec element_of :: "(double \<Rightarrow> string) \<Rightarrow> config_value \<Rightarrow> string \<Rightarrow> xml" where
  "element_of fmt (Scal s) = (\<lambda>name. case s of
       SNull \<Rightarrow> XElement name [(kTypeAttr, ''null'')] []
     | SBool b \<Rightarrow> XElement name [(kTypeAttr, ''bool'')] [XPcdata (if b then ''true'' else ''false'')]
     | SInt i \<Rightarrow> XElement name [(kTypeAttr, ''int'')] [XPcdata (int_str (sint i))]
     | SDouble d \<Rightarrow> XElement name [(kTypeAttr, ''double'')] [XPcdata (fmt d)]
     | SString t \<Rightarrow> XElement name [] (if t \<noteq> [] then [XPcdata t] else []))"
| "element_of fmt (Obj ms) = (\<lambda>name. if ms = [] then XElement name [(kTypeAttr, ''object'')] []
     else XElement name [] (map (\<lambda>m. snd m (fst m)) (map (map_prod id (element_of fmt)) ms)))"
| "element_of fmt (Arr es) = (\<lambda>name. XElement name [(kTypeAttr, ''array'')] (map (\<lambda>e. e kItemName) (map (element_of fmt) es)))"

lemma element_of_simps [simp]:
  "element_of fmt (Obj ms) name = (if ms = [] then XElement name [(kTypeAttr, ''object'')] []
     else XElement name [] (map (\<lambda>(k, v). element_of fmt v k) ms))"
  "element_of fmt (Arr es) name = XElement name [(kTypeAttr, ''array'')] (map (\<lambda>v. element_of fmt v kItemName) es)"
  by (auto simp: comp_def)

declare element_of.simps(2,3) [simp del]

text \<open>Emitting fails on exactly the values that XML cannot carry.\<close>

lemma xml_of_saveable:
  "isValidElementName name \<Longrightarrow> saveable v \<Longrightarrow> xml_of fmt name v = Inr (element_of fmt v name)"
  "\<forall>(k, v) \<in> set ms. isValidElementName k \<and> saveable v \<Longrightarrow>
     xml_members fmt cs ms = Inr (cs @ map (\<lambda>(k, v). element_of fmt v k) ms)"
  "\<forall>v \<in> set es. saveable v \<Longrightarrow> xml_items fmt cs es = Inr (cs @ map (\<lambda>v. element_of fmt v kItemName) es)"
  by (induction fmt name v and fmt cs ms and fmt cs es rule: xml_of_xml_members_xml_items.induct)
    (auto simp: isfinite_def kItemName_def kItemName_valid split: scalar.splits)

lemma xml_of_unsaveable:
  "\<not> (isValidElementName name \<and> saveable v) \<Longrightarrow> has_code (xml_of fmt name v) SerializationError"
  "\<not> (\<forall>(k, v) \<in> set ms. isValidElementName k \<and> saveable v) \<Longrightarrow> has_code (xml_members fmt cs ms) SerializationError"
  "\<not> (\<forall>v \<in> set es. saveable v) \<Longrightarrow> has_code (xml_items fmt cs es) SerializationError"
proof (induction fmt name v and fmt cs ms and fmt cs es rule: xml_of_xml_members_xml_items.induct)
  case (1 fmt name s)
  then show ?case by (auto simp: bad_name_def isfinite_def split: scalar.splits)
next
  case (2 fmt name ms)
  then show ?case by (cases "ms = []"; cases "xml_members fmt [] ms") (auto simp: bad_name_def)
next
  case (3 fmt name es)
  then show ?case by (cases "xml_items fmt [] es") (auto simp: bad_name_def)
next
  case (5 fmt cs k v ms)
  then show ?case using xml_of_saveable(1)[of k v fmt]
    by (cases "isValidElementName k \<and> saveable v"; cases "xml_of fmt k v") auto
next
  case (7 fmt cs v es)
  then show ?case using xml_of_saveable(1)[of kItemName v fmt]
    by (cases "saveable v"; cases "xml_of fmt kItemName v") (auto simp: kItemName_def kItemName_valid)
qed simp_all

definition root_element :: "(double \<Rightarrow> string) \<Rightarrow> vconfig \<Rightarrow> config_value \<Rightarrow> xml" where
  "root_element fmt config v = XElement kRootName [(kVersionAttr, nat_str (unat (vc_version config)))]
     (map (\<lambda>(k, v). element_of fmt v k) (cv_members v))"

lemma xml_built_emits:
  assumes m: "models (vc_model config) v"
  shows "if saveable v then xml_built fmt config = Some (Inr (root_element fmt config v))
    else \<exists>e. xml_built fmt config = Some (Inl e) \<and> err_code e = SerializationError"
proof -
  let ?ar = "cm_arena (vc_model config)"
  have wf: "wf_model_value v" by (rule models_wf[OF m])
  then obtain ms where ms: "v = Obj ms" by (cases v) (auto simp: wf_model_value_def)
  from root_views[OF m] obtain h where h: "cm_root (vc_model config) = Some h" "views (vc_model config) h []" by blast
  from cn_members_views[OF h(2) m, of ms] ms obtain H where
    H: "cn_members ?ar h = Some (Inr (map (\<lambda>(k, c). (k, H k)) ms))" "\<forall>(k, c) \<in> set ms. views (vc_model config) (H k) [Key k]" by auto
  have "appendValueElement fmt stack_fuel ?ar (H k) k = Some (xml_of fmt k c)" if kc: "(k, c) \<in> set ms" for k c
  proof (rule appendValueElement_views[OF m])
    show "views (vc_model config) (H k) [Key k]" using H(2) kc by blast
    show "tree_resolve [Key k] v = Inr c" using wf kc ms by (auto simp: wf_model_value_def)
    show "wf_at 1 c" using wf kc unfolding ms by (auto simp: wf_model_value_def)
  qed (simp add: stack_fuel_def)
  then have "\<forall>(k, c) \<in> set ms. appendValueElement fmt stack_fuel ?ar (H k) k = Some (xml_of fmt k c)" by blast
  note a = appendMembers_xml[of ms "appendValueElement fmt stack_fuel ?ar" H fmt "[]", OF this]
  show ?thesis
  proof (cases "saveable v")
    case True
    with xml_of_saveable(2)[of ms fmt "[]"] show ?thesis
      by (simp add: xml_built_def h(1) H(1) a ms root_element_def cv_members_def)
  next
    case False
    with xml_of_unsaveable(2)[of ms fmt "[]"] obtain e where "xml_members fmt [] ms = Inl e" "err_code e = SerializationError"
      by (cases "xml_members fmt [] ms") (auto simp: ms)
    with False show ?thesis by (simp add: xml_built_def h(1) H(1) a)
  qed
qed

lemma xml_save_emits:
  assumes m: "models (vc_model config) v"
  shows "if saveable v
    then xml_save fmt print config ok = Some (Some (print (root_element fmt config v)),
      if ok (print (root_element fmt config v)) then Inr () else fail SerializationError ''failed to write XML document to stream'')
    else \<exists>e. xml_save fmt print config ok = Some (None, Inl e) \<and> err_code e = SerializationError"
  using xml_built_emits[OF m, of fmt] by (auto simp: xml_save_def Let_def split: if_splits)

section \<open>The round trip\<close>

text \<open>
  What a parser that keeps whitespace sees of an indented document: between the children of an
  element with element children there is whitespace, any other element is as it was written.
\<close>

inductive laid_out :: "(xml \<Rightarrow> xml \<Rightarrow> bool) \<Rightarrow> xml list \<Rightarrow> xml list \<Rightarrow> bool" for R where
  laid_out_Nil: "laid_out R [] []"
| laid_out_space: "isXmlWhitespace w \<Longrightarrow> laid_out R cs cs' \<Longrightarrow> laid_out R cs (XPcdata w # cs')"
| laid_out_child: "R c c' \<Longrightarrow> laid_out R cs cs' \<Longrightarrow> laid_out R (c # cs) (c' # cs')"

lemma laid_out_mono [mono]: "R \<le> S \<Longrightarrow> laid_out R \<le> laid_out S"
proof (intro le_funI le_boolI)
  fix cs cs' assume RS: "R \<le> S" "laid_out R cs cs'"
  from RS(2) show "laid_out S cs cs'"
    by (induction rule: laid_out.induct) (use RS(1) in \<open>auto intro: laid_out.intros\<close>)
qed

inductive formatted :: "xml \<Rightarrow> xml \<Rightarrow> bool" where
  formatted_text: "\<not> hasElementChildren cs \<Longrightarrow> formatted (XElement n a cs) (XElement n a cs)"
| formatted_container: "hasElementChildren cs \<Longrightarrow> laid_out formatted cs cs' \<Longrightarrow> formatted (XElement n a cs) (XElement n a cs')"

inductive_cases formattedE: "formatted (XElement n a cs) x"

lemma hasElementChildren_simps [simp]:
  "\<not> hasElementChildren []" "hasElementChildren (x # cs) \<longleftrightarrow> is_element x \<or> hasElementChildren cs"
  by (simp_all add: hasElementChildren_def)

lemma formatted_element: "formatted c c' \<Longrightarrow> is_element c'"
  by (induction rule: formatted.induct) simp_all

lemma laid_out_elements: "laid_out formatted cs cs' \<Longrightarrow> cs \<noteq> [] \<Longrightarrow> hasElementChildren cs'"
proof (induction rule: laid_out.induct)
  case (laid_out_child c c' cs cs')
  then show ?case using formatted_element by simp
qed auto

lemma element_of_element [simp]: "is_element (element_of fmt v name)"
  by (cases v) (auto split: scalar.split)

text \<open>The children of a container, laid out in any way.\<close>

lemma formatted_inner:
  assumes "formatted (XElement n a (map f xs)) (XElement n' a' cs)" and "\<And>x. is_element (f x)"
  shows "n' = n \<and> a' = a \<and> laid_out formatted (map f xs) cs"
  using assms(1)
proof (rule formattedE)
  assume "XElement n' a' cs = XElement n a (map f xs)" "\<not> hasElementChildren (map f xs)"
  then show ?thesis using assms(2) by (cases xs) (auto intro: laid_out_Nil)
qed auto

lemma bool_texts: "parseBoolText (if b then ''true'' else ''false'') name = Inr (Scal (SBool b))"
  by (simp add: parseBoolText_def)

lemma scalar_reads:
  assumes "to_chars_ok fmt" "saveable (Scal s)" "d \<le> kMaxTreeDepth" "n < maxNodes L"
    and "element_of fmt (Scal s) name = XElement name attrs cs"
  shows "parseValue L name attrs cs d n = Inr (Suc n, Scal s)"
proof -
  have b: "consumeBudget L n = Inr (Suc n)" "\<not> d > kMaxTreeDepth" using assms(3,4) by (simp_all add: consumeBudget_def)
  show ?thesis
  proof (cases s)
    case (SInt i)
    then have "parseIntText (int_str (sint i)) name = Inr (Scal (SInt i))" unfolding parseIntText_iff by (simp add: from_chars_int_str)
    with b SInt assms(5) show ?thesis
      by (auto simp: parseValue.simps parseTypedText_def)
  next
    case (SDouble x)
    with assms(1,2) have "parseDoubleText (fmt x) name = Inr (Scal (SDouble x))"
      unfolding parseDoubleText_iff by (simp add: to_chars_ok_def)
    with b SDouble assms(5) show ?thesis by (auto simp: parseValue.simps parseTypedText_def)
  next
    case (SString t)
    with b assms(2,5) show ?thesis by (cases "t = []") (auto simp: parseValue.simps)
  qed (use b assms(5) in \<open>auto simp: parseValue.simps parseTypedText_def bool_texts\<close>)
qed

lemma whitespace_members [simp]:
  "isXmlWhitespace w \<Longrightarrow> parseObjectMembers L name d n ms (XPcdata w # cs) = parseObjectMembers L name d n ms cs"
  "isXmlWhitespace w \<Longrightarrow> parseArrayItems L name d n es (XPcdata w # cs) = parseArrayItems L name d n es cs"
  by simp_all

text \<open>The two child loops over laid-out children, given that each child reads back.\<close>

definition reads_back_at :: "(double \<Rightarrow> string) \<Rightarrow> load_limits \<Rightarrow> nat \<Rightarrow> string \<Rightarrow> config_value \<Rightarrow> bool" where
  "reads_back_at fmt L d name v \<longleftrightarrow> (\<forall>n name' attrs cs. n + cv_nodes v \<le> maxNodes L \<longrightarrow>
     formatted (element_of fmt v name) (XElement name' attrs cs) \<longrightarrow>
     name' = name \<and> parseValue L name attrs cs d n = Inr (n + cv_nodes v, v))"

lemma members_read_back:
  assumes "laid_out formatted xs cs" "xs = map (\<lambda>(k, v). element_of fmt v k) ms"
    and "\<forall>(k, v) \<in> set ms. isAddressableKey k \<and> isValidElementName k \<and> reads_back_at fmt L (Suc d) k v"
    and "distinct (map fst acc @ map fst ms)" "n + sum_list (map (cv_nodes \<circ> snd) ms) \<le> maxNodes L"
  shows "parseObjectMembers L name d n acc cs = Inr (n + sum_list (map (cv_nodes \<circ> snd) ms), Obj (acc @ ms))"
  using assms
proof (induction arbitrary: ms acc n rule: laid_out.induct)
  case (laid_out_child c c' xs cs)
  then obtain k v ms' where ms: "ms = (k, v) # ms'" "c = element_of fmt v k" "xs = map (\<lambda>(k, v). element_of fmt v k) ms'"
    by (cases ms) auto
  from formatted_element[OF laid_out_child(1)] obtain name' attrs inner where c': "c' = XElement name' attrs inner"
    by (cases c') auto
  have b: "n + cv_nodes v \<le> maxNodes L" "isAddressableKey k" "isValidElementName k" "reads_back_at fmt L (Suc d) k v"
    using laid_out_child.prems(2,4) ms(1) by auto
  from b(4) b(1) laid_out_child(1) c' ms(2) have r: "name' = k" "parseValue L k attrs inner (Suc d) n = Inr (n + cv_nodes v, v)"
    unfolding reads_back_at_def by blast+
  have k: "k \<notin> fst ` set acc" using laid_out_child.prems(3) ms(1) by auto
  have "parseObjectMembers L name d (n + cv_nodes v) (acc @ [(k, v)]) cs =
      Inr (n + cv_nodes v + sum_list (map (cv_nodes \<circ> snd) ms'), Obj ((acc @ [(k, v)]) @ ms'))"
    by (rule laid_out_child.IH[OF ms(3)]) (use laid_out_child.prems(2-4) ms(1) in auto)
  with r k b show ?case by (simp add: c' ms(1) isPathAddressable_iff cv_contains_def upsert_fresh add.assoc comp_def)
qed auto

lemma items_read_back:
  assumes "laid_out formatted xs cs" "xs = map (\<lambda>v. element_of fmt v kItemName) es"
    and "\<forall>v \<in> set es. reads_back_at fmt L (Suc d) kItemName v"
    and "n + sum_list (map cv_nodes es) \<le> maxNodes L"
  shows "parseArrayItems L name d n acc cs = Inr (n + sum_list (map cv_nodes es), Arr (acc @ es))"
  using assms
proof (induction arbitrary: es acc n rule: laid_out.induct)
  case (laid_out_child c c' xs cs)
  then obtain v es' where es: "es = v # es'" "c = element_of fmt v kItemName" "xs = map (\<lambda>v. element_of fmt v kItemName) es'"
    by (cases es) auto
  from formatted_element[OF laid_out_child(1)] obtain name' attrs inner where c': "c' = XElement name' attrs inner"
    by (cases c') auto
  have b: "n + cv_nodes v \<le> maxNodes L" "reads_back_at fmt L (Suc d) kItemName v"
    using laid_out_child.prems(2,3) es(1) by auto
  from b(2) b(1) laid_out_child(1) c' es(2) have r: "name' = kItemName"
    "parseValue L kItemName attrs inner (Suc d) n = Inr (n + cv_nodes v, v)"
    unfolding reads_back_at_def by blast+
  have "parseArrayItems L name d (n + cv_nodes v) (acc @ [v]) cs =
      Inr (n + cv_nodes v + sum_list (map cv_nodes es'), Arr ((acc @ [v]) @ es'))"
    by (rule laid_out_child.IH[OF es(3)]) (use laid_out_child.prems(2,3) es(1) in auto)
  with r show ?case by (simp add: c' es(1) add.assoc)
qed auto

lemma value_reads_back:
  assumes fmt: "to_chars_ok fmt"
  shows "saveable v \<Longrightarrow> wf_at d v \<Longrightarrow> reads_back_at fmt L d name v"
proof (induction v arbitrary: d name)
  case (Scal s)
  show ?case unfolding reads_back_at_def
  proof (intro allI impI)
    fix n name' attrs cs
    assume a: "n + cv_nodes (Scal s) \<le> maxNodes L" "formatted (element_of fmt (Scal s) name) (XElement name' attrs cs)"
    have t: "\<exists>attrs cs. element_of fmt (Scal s) name = XElement name attrs cs \<and> \<not> hasElementChildren cs"
      by (cases s) auto
    with a(2) have e: "element_of fmt (Scal s) name = XElement name attrs cs" "name' = name" by (auto elim: formattedE)
    from scalar_reads[OF fmt Scal(1) _ _ e(1)] a(1) Scal(2) e(2)
    show "name' = name \<and> parseValue L name attrs cs d n = Inr (n + cv_nodes (Scal s), Scal s)" by simp
  qed
next
  case (Obj ms)
  have kids: "\<forall>(k, v) \<in> set ms. isAddressableKey k \<and> isValidElementName k \<and> reads_back_at fmt L (Suc d) k v"
  proof (intro ballI, clarify)
    fix k v assume kv: "(k, v) \<in> set ms"
    have "v \<in> Basic_BNFs.snds (k, v)" by (simp add: snds.simps)
    note IH = Obj.IH[OF kv this]
    have v: "saveable v" "isValidElementName k" using Obj.prems(1) kv by auto
    have w: "wf_at (Suc d) v" "isAddressableKey k" using Obj.prems(2) kv by auto
    show "isAddressableKey k \<and> isValidElementName k \<and> reads_back_at fmt L (Suc d) k v"
      using IH[OF v(1) w(1)] v(2) w(2) by blast
  qed
  have d: "\<not> d > kMaxTreeDepth" "distinct (map fst ms)" using Obj.prems(2) by auto
  show ?case unfolding reads_back_at_def
  proof (intro allI impI)
    fix n name' attrs cs
    assume a: "n + cv_nodes (Obj ms) \<le> maxNodes L" "formatted (element_of fmt (Obj ms) name) (XElement name' attrs cs)"
    from a(1) have n: "Suc n + sum_list (map (cv_nodes \<circ> snd) ms) \<le> maxNodes L" by (simp add: cv_nodes_kids comp_def)
    then have b: "consumeBudget L n = Inr (Suc n)" by (simp add: consumeBudget_def)
    show "name' = name \<and> parseValue L name attrs cs d n = Inr (n + cv_nodes (Obj ms), Obj ms)"
    proof (cases "ms = []")
      case True
      with a(2) have "name' = name" "attrs = [(kTypeAttr, ''object'')]" "cs = []" by (auto elim: formattedE)
      with b d True show ?thesis by (simp add: parseValue.simps cv_nodes_kids)
    next
      case False
      with a(2) have f: "formatted (XElement name [] (map (\<lambda>(k, v). element_of fmt v k) ms)) (XElement name' attrs cs)" by simp
      from formatted_inner[OF f] have i: "name' = name" "attrs = []" "laid_out formatted (map (\<lambda>(k, v). element_of fmt v k) ms) cs"
        by (auto split: prod.split)
      from members_read_back[OF i(3) refl kids, of "[]" "Suc n"] d n laid_out_elements[OF i(3)] False b i show ?thesis
        by (simp add: parseValue.simps cv_nodes_kids comp_def)
    qed
  qed
next
  case (Arr es)
  have items: "\<forall>v \<in> set es. reads_back_at fmt L (Suc d) kItemName v" using Arr.IH Arr.prems by auto
  have d: "\<not> d > kMaxTreeDepth" using Arr.prems(2) by auto
  show ?case unfolding reads_back_at_def
  proof (intro allI impI)
    fix n name' attrs cs
    assume a: "n + cv_nodes (Arr es) \<le> maxNodes L" "formatted (element_of fmt (Arr es) name) (XElement name' attrs cs)"
    from a(1) have n: "Suc n + sum_list (map cv_nodes es) \<le> maxNodes L" by (simp add: cv_nodes_kids[of "Arr es"])
    then have b: "consumeBudget L n = Inr (Suc n)" by (simp add: consumeBudget_def)
    from a(2) have f: "formatted (XElement name [(kTypeAttr, ''array'')] (map (\<lambda>v. element_of fmt v kItemName) es)) (XElement name' attrs cs)" by simp
    from formatted_inner[OF f] have i: "name' = name" "attrs = [(kTypeAttr, ''array'')]"
      "laid_out formatted (map (\<lambda>v. element_of fmt v kItemName) es) cs" by auto
    from items_read_back[OF i(3) refl items n, of name "[]"] d b i
    show "name' = name \<and> parseValue L name attrs cs d n = Inr (n + cv_nodes (Arr es), Arr es)"
      by (simp add: parseValue.simps cv_nodes_kids[of "Arr es"])
  qed
qed

lemma laid_out_whitespace: "laid_out formatted [] cs \<Longrightarrow> checkDocument seen cs = Inr () \<and> find is_element cs = None"
  by (induction "[] :: xml list" cs rule: laid_out.induct) auto

lemma laid_out_root:
  assumes "laid_out formatted xs doc" "xs = [XElement n a (map f ys)]" "\<And>y. is_element (f y)"
  shows "\<exists>cs. checkDocument False doc = Inr () \<and> document_element doc = (n, a, cs) \<and> laid_out formatted (map f ys) cs"
  using assms(1,2)
proof (induction rule: laid_out.induct)
  case (laid_out_space w cs cs')
  then show ?case by (auto simp: document_element_def)
next
  case (laid_out_child c c' cs cs')
  from formatted_element[OF laid_out_child(1)] obtain n' a' inner where c': "c' = XElement n' a' inner" by (cases c') auto
  have "formatted (XElement n a (map f ys)) (XElement n' a' inner)" using laid_out_child(1,4) c' by simp
  from formatted_inner[OF this assms(3)] laid_out_whitespace[of cs' True] laid_out_child(2,4) c' show ?case
    by (auto simp: document_element_def)
qed simp

lemma carrier_text: "parseVersionCarrier (nat_str (unat v)) = Inr v"
  unfolding parseVersionCarrier_iff by (auto intro: nat_str_digits)

lemma xml_document_reads_back:
  assumes "to_chars_ok fmt" and v: "saveable v" "wf_model_value v" "cv_nodes v \<le> maxNodes L"
    and doc: "laid_out formatted [root_element fmt config v] doc"
  shows "xml_document L doc = Inr (vc_version config, v)"
proof -
  obtain ms where ms: "v = Obj ms" using v(2) by (cases v) (auto simp: wf_model_value_def)
  have re: "[root_element fmt config v] = [XElement kRootName [(kVersionAttr, nat_str (unat (vc_version config)))]
      (map (\<lambda>(k, v). element_of fmt v k) ms)]" by (simp add: root_element_def ms cv_members_def)
  have el: "is_element ((\<lambda>(k, v). element_of fmt v k) m)" for m by (cases m) simp
  from laid_out_root[OF doc re el] obtain cs where
    d: "checkDocument False doc = Inr ()"
      "document_element doc = (kRootName, [(kVersionAttr, nat_str (unat (vc_version config)))], cs)"
      "laid_out formatted (map (\<lambda>(k, v). element_of fmt v k) ms) cs" by blast
  have kids: "\<forall>(k, v) \<in> set ms. isAddressableKey k \<and> isValidElementName k \<and> reads_back_at fmt L (Suc 0) k v"
    using v(1,2) value_reads_back[OF assms(1)] by (fastforce simp: ms wf_model_value_def)
  have n: "1 + sum_list (map (cv_nodes \<circ> snd) ms) \<le> maxNodes L" using v(3) by (simp add: ms cv_nodes_kids comp_def)
  have "distinct (map fst [] @ map fst ms)" using v(2) by (simp add: ms wf_model_value_def)
  from members_read_back[OF d(3) refl kids this n, of kRootName] n show ?thesis
    by (simp add: xml_document_def d carrier_text consumeBudget_def ms)
qed

lemma xml_roundtrip:
  assumes m: "models (vc_model config) v" and s: "saveable v"
    and L: "cv_nodes v \<le> maxNodes L" "maxNodes L < kNodeIdNone" "maxInputBytes L < 2 ^ 64"
    and fmt: "to_chars_ok fmt" and t: "t = print (root_element fmt config v)"
    and parse: "parser t = Inr doc" "laid_out formatted [root_element fmt config v] doc"
    and chunks: "concat chunks = t" "[] \<notin> set chunks" "length t \<le> maxInputBytes L"
  shows "xml_save fmt print config (\<lambda>_. True) = Some (Some t, Inr ())"
    "\<exists>m'. xml_load parser L (Some chunks) = Some (Inr \<lparr>vc_version = vc_version config, vc_model = m'\<rparr>) \<and> models m' v"
proof -
  show "xml_save fmt print config (\<lambda>_. True) = Some (Some t, Inr ())"
    using xml_save_emits[OF m, of fmt print "\<lambda>_. True"] s t by simp
  have r: "readBounded ''XML'' (Some chunks) (maxInputBytes L) = Inr t"
    using readBounded_spec[OF chunks(2) L(3)] chunks(1,3) by simp
  have "xml_spec_load parser L (Some chunks) = Inr (vc_version config, v)"
    using xml_document_reads_back[OF fmt s models_wf[OF m] L(1) parse(2)] by (simp add: xml_spec_load_def r parse(1))
  with xml_load_models[OF L(2), of parser "Some chunks"]
  show "\<exists>m'. xml_load parser L (Some chunks) = Some (Inr \<lparr>vc_version = vc_version config, vc_model = m'\<rparr>) \<and> models m' v"
    by simp
qed

text \<open>Whatever \<open>load\<close> accepts can be saved again.\<close>

lemma load_then_save:
  assumes "maxNodes L < kNodeIdNone" and "xml_load parser L stream = Some (Inr config)"
  shows "\<exists>v. models (vc_model config) v \<and> wf_model_value v \<and> cv_nodes v \<le> maxNodes L \<and>
    xml_save fmt print config (\<lambda>_. True) = Some (Some (print (root_element fmt config v)), Inr ())"
proof -
  from xml_load_models[OF assms(1), of parser stream] assms(2) obtain version v where
    v: "xml_spec_load parser L stream = Inr (version, v)" "models (vc_model config) v" by (auto split: sum.splits)
  then obtain doc where "xml_document L doc = Inr (version, v)" by (auto simp: xml_spec_load_def split: sum.splits)
  from xml_document_sound[OF this] xml_save_emits[OF v(2), of fmt print "\<lambda>_. True"] v(2) show ?thesis by auto
qed

end
