(* ===== verification/File_System.thy ===== *)
theory File_System
  imports Cfg_Prelude
begin

text \<open>
  The file system the checkpoint store works on, as much of POSIX and \<open>std::filesystem\<close> as
  \<open>checkpoint/src/checkpoint_store.cpp\<close> uses: paths as byte strings, nodes that are regular files or
  directories, and the calls. The environment answers every call: it succeeds, fails with an
  error number whatever the state, or (a write) is short; the list of answers is part of the
  state, so a statement about all worlds is one about all patterns of failures. Every call that
  changes a node appends the new file system to a log, which shows what another process, or a
  reboot, can see between two calls. Other writers and symbolic links are not modelled.
\<close>

section \<open>Paths\<close>

type_synonym path = string

definition filename :: "path \<Rightarrow> path" where
  "filename p = rev (takeWhile (\<lambda>c. c \<noteq> CHR ''/'') (rev p))"

definition parent_path :: "path \<Rightarrow> path" where
  "parent_path p = (let d = dropWhile (\<lambda>c. c \<noteq> CHR ''/'') (rev p); stripped = dropWhile (\<lambda>c. c = CHR ''/'') d in
     if d \<noteq> [] \<and> stripped = [] then ''/'' else rev stripped)"

definition append_path :: "path \<Rightarrow> path \<Rightarrow> path" where
  "append_path p q = (if q \<noteq> [] \<and> hd q = CHR ''/'' then q
     else if p \<noteq> [] \<and> last p \<noteq> CHR ''/'' then p @ ''/'' @ q else p @ q)"

text \<open>The extension starts at the last dot, unless the dot is the first character.\<close>

definition stem :: "path \<Rightarrow> path" where
  "stem p = (let f = filename p; s = rev (tl (dropWhile (\<lambda>c. c \<noteq> CHR ''.'') (rev f))) in
     if f = ''..'' \<or> CHR ''.'' \<notin> set f \<or> s = [] then f else s)"

definition extension :: "path \<Rightarrow> path" where
  "extension p = drop (length (stem p)) (filename p)"

text \<open>A path with the directories above it, and those alone.\<close>

fun ancestors :: "path \<Rightarrow> path list" where
  "ancestors p = p # (if length (parent_path p) < length p \<and> parent_path p \<noteq> [] then ancestors (parent_path p) else [])"

declare ancestors.simps [simp del]

definition above :: "path \<Rightarrow> path list" where
  "above p = (if parent_path p = [] then [] else ancestors (parent_path p))"

section \<open>Nodes and the world\<close>

datatype errno = ENOENT | EEXIST | EINTR | EIO | ENOTDIR | EISDIR | ENOTEMPTY | Errno nat

datatype answer = Succeeds | Fails errno | Short nat

datatype fs_node = RegularFile string nat nat | Directory

type_synonym fsys = "path \<Rightarrow> fs_node option"

text \<open>\<open>RegularFile bytes mode mtime\<close>. \<open>w_now\<close> is the clock of the file system,
  \<open>w_sequence\<close> the process-wide \<open>g_temp_sequence\<close>, \<open>w_ticks\<close> the steady clock by the value of
  the sequence at the reading (every reading draws one).\<close>

record world =
  w_nodes :: fsys
  w_log :: "fsys list"
  w_answers :: "answer list"
  w_now :: nat
  w_ticks :: "nat \<Rightarrow> nat"
  w_sequence :: "64 word"

definition next_answer :: "world \<Rightarrow> answer \<times> world" where
  "next_answer w = (case w_answers w of [] \<Rightarrow> (Succeeds, w) | a # as \<Rightarrow> (a, w\<lparr>w_answers := as\<rparr>))"

definition put_nodes :: "fsys \<Rightarrow> world \<Rightarrow> world" where
  "put_nodes ns w = w\<lparr>w_nodes := ns, w_log := w_log w @ [ns]\<rparr>"

section \<open>Calls\<close>

definition environment_error :: "answer \<Rightarrow> errno option" where
  "environment_error a = (case a of Fails e \<Rightarrow> if e = ENOENT \<or> e = ENOTDIR then None else Some e | _ \<Rightarrow> None)"

text \<open>
  That a path is missing is an answer about the state, never a failure of the environment; the error
  tells whether a file stands where a directory of the path should be.
\<close>

definition missing :: "fsys \<Rightarrow> path \<Rightarrow> errno" where
  "missing ns p = (if list_ex (\<lambda>q. ns q \<noteq> None \<and> ns q \<noteq> Some Directory) (above p) then ENOTDIR else ENOENT)"

definition sys_stat :: "path \<Rightarrow> world \<Rightarrow> world \<times> (errno + fs_node)" where
  "sys_stat p w = (case next_answer w of (a, w1) \<Rightarrow>
     (w1, case environment_error a of Some e \<Rightarrow> Inl e
        | None \<Rightarrow> (case w_nodes w p of None \<Rightarrow> Inl (missing (w_nodes w) p) | Some n \<Rightarrow> Inr n)))"

text \<open>\<open>open\<close> with \<open>O_CREAT | O_EXCL\<close> and mode 0600.\<close>

definition sys_create :: "path \<Rightarrow> world \<Rightarrow> world \<times> errno option" where
  "sys_create p w = (case next_answer w of (a, w1) \<Rightarrow> (case a of Fails e \<Rightarrow> (w1, Some e)
     | _ \<Rightarrow> (if w_nodes w p \<noteq> None then (w1, Some EEXIST)
             else (put_nodes ((w_nodes w)(p \<mapsto> RegularFile [] 384 (w_now w))) w1, None))))"

text \<open>\<open>write\<close> appends to the file behind the descriptor; it returns the count or an error.\<close>

definition append_node :: "string \<Rightarrow> nat \<Rightarrow> fs_node \<Rightarrow> fs_node" where
  "append_node s now n = (case n of RegularFile b m t \<Rightarrow> RegularFile (b @ s) m now | Directory \<Rightarrow> Directory)"

definition sys_write :: "path \<Rightarrow> string \<Rightarrow> world \<Rightarrow> world \<times> (errno + nat)" where
  "sys_write p s w = (case next_answer w of (a, w1) \<Rightarrow> (case a of Fails e \<Rightarrow> (w1, Inl e)
     | Short k \<Rightarrow> (put_nodes ((w_nodes w)(p := map_option (append_node (take k s) (w_now w)) (w_nodes w p))) w1, Inr (min k (length s)))
     | Succeeds \<Rightarrow> (put_nodes ((w_nodes w)(p := map_option (append_node s (w_now w)) (w_nodes w p))) w1, Inr (length s))))"

definition set_mode :: "nat \<Rightarrow> fs_node \<Rightarrow> fs_node" where
  "set_mode m n = (case n of RegularFile b m' t \<Rightarrow> RegularFile b m t | Directory \<Rightarrow> Directory)"

definition sys_fchmod :: "path \<Rightarrow> nat \<Rightarrow> world \<Rightarrow> world \<times> errno option" where
  "sys_fchmod p m w = (case next_answer w of (a, w1) \<Rightarrow> (case a of Fails e \<Rightarrow> (w1, Some e)
     | _ \<Rightarrow> (put_nodes ((w_nodes w)(p := map_option (set_mode m) (w_nodes w p))) w1, None)))"

definition sys_close :: "world \<Rightarrow> world \<times> errno option" where
  "sys_close w = (case next_answer w of (a, w1) \<Rightarrow> (w1, case a of Fails e \<Rightarrow> Some e | _ \<Rightarrow> None))"

definition sys_rename :: "path \<Rightarrow> path \<Rightarrow> world \<Rightarrow> world \<times> errno option" where
  "sys_rename p q w = (case next_answer w of (a, w1) \<Rightarrow> (case a of Fails e \<Rightarrow> (w1, Some e)
     | _ \<Rightarrow> (case w_nodes w p of
           None \<Rightarrow> (w1, Some ENOENT)
         | Some n \<Rightarrow> (if w_nodes w q = Some Directory then (w1, Some EISDIR)
             else (put_nodes ((w_nodes w)(p := None, q := Some n)) w1, None)))))"

text \<open>\<open>fs::remove\<close>: a missing path is no error, and of the directories only an empty one is removed.\<close>

definition holds_entries :: "fsys \<Rightarrow> path \<Rightarrow> bool" where
  "holds_entries ns p \<longleftrightarrow> (\<exists>q. q \<noteq> p \<and> parent_path q = p \<and> ns q \<noteq> None)"

definition fs_remove :: "path \<Rightarrow> world \<Rightarrow> world \<times> errno option" where
  "fs_remove p w = (case next_answer w of (a, w1) \<Rightarrow> (case a of Fails e \<Rightarrow> (w1, Some e)
     | _ \<Rightarrow> (if w_nodes w p = None then (w1, None)
             else if w_nodes w p = Some Directory \<and> holds_entries (w_nodes w) p then (w1, Some ENOTEMPTY)
             else (put_nodes ((w_nodes w)(p := None)) w1, None))))"

definition fs_exists :: "path \<Rightarrow> world \<Rightarrow> world \<times> (errno + bool)" where
  "fs_exists p w = (case sys_stat p w of (w1, r) \<Rightarrow> (w1, case r of
     Inl e \<Rightarrow> if e = ENOENT \<or> e = ENOTDIR then Inr False else Inl e | Inr n \<Rightarrow> Inr True))"

definition fs_is_regular_file :: "path \<Rightarrow> world \<Rightarrow> world \<times> (errno + bool)" where
  "fs_is_regular_file p w = (case sys_stat p w of (w1, r) \<Rightarrow> (w1, case r of
     Inl e \<Rightarrow> Inl e | Inr n \<Rightarrow> Inr (n \<noteq> Directory)))"

definition fs_last_write_time :: "path \<Rightarrow> world \<Rightarrow> world \<times> (errno + nat)" where
  "fs_last_write_time p w = (case sys_stat p w of (w1, r) \<Rightarrow> (w1, case r of
     Inl e \<Rightarrow> Inl e | Inr (RegularFile b m t) \<Rightarrow> Inr t | Inr Directory \<Rightarrow> Inr 0))"

text \<open>
  \<open>fs::create_directories\<close>: a file in the way is found first; then the missing directories are made
  one by one from the top, and a failure leaves those made before it.
\<close>

fun make_directories :: "path list \<Rightarrow> world \<Rightarrow> world \<times> errno option" where
  "make_directories [] w = (w, None)"
| "make_directories (q # qs) w = (case next_answer w of (a, w1) \<Rightarrow> (case a of Fails e \<Rightarrow> (w1, Some e)
     | _ \<Rightarrow> make_directories qs (put_nodes ((w_nodes w1)(q \<mapsto> Directory)) w1)))"

definition fs_create_directories :: "path \<Rightarrow> world \<Rightarrow> world \<times> errno option" where
  "fs_create_directories p w = (case next_answer w of (a, w1) \<Rightarrow> (case a of Fails e \<Rightarrow> (w1, Some e)
     | _ \<Rightarrow> (if list_ex (\<lambda>q. w_nodes w q \<noteq> None \<and> w_nodes w q \<noteq> Some Directory) (ancestors p) then (w1, Some ENOTDIR)
             else make_directories (rev (filter (\<lambda>q. w_nodes w q = None) (ancestors p))) w1)))"

section \<open>What the calls leave alone\<close>

lemma next_answer_nodes: "next_answer w = (a, w1) \<Longrightarrow> w_nodes w1 = w_nodes w \<and> w_log w1 = w_log w \<and> length (w_answers w1) \<le> length (w_answers w)"
  by (auto simp: next_answer_def split: list.splits)

text \<open>
  \<open>safe P w w'\<close>: from \<open>w\<close> to \<open>w'\<close> the log only grew, by file systems with \<open>P\<close>, and the current
  one is the last of them.
\<close>

definition safe :: "(fsys \<Rightarrow> bool) \<Rightarrow> world \<Rightarrow> world \<Rightarrow> bool" where
  "safe P w w' \<longleftrightarrow> (\<exists>new. w_log w' = w_log w @ new \<and> (\<forall>ns \<in> set new. P ns) \<and>
     w_nodes w' = (if new = [] then w_nodes w else last new))"

lemma safe_refl [simp]: "safe P w w"
  by (simp add: safe_def)

lemma safe_trans: "safe P w w1 \<Longrightarrow> safe P w1 w2 \<Longrightarrow> safe P w w2"
  unfolding safe_def by (elim exE conjE, rule_tac x = "new @ newa" in exI) (auto split: if_splits)

lemma safe_mono: "safe P w w' \<Longrightarrow> (\<And>ns. P ns \<Longrightarrow> Q ns) \<Longrightarrow> safe Q w w'"
  unfolding safe_def by blast

lemma safe_now: "safe P w w' \<Longrightarrow> P (w_nodes w) \<Longrightarrow> P (w_nodes w')"
  unfolding safe_def by (auto split: if_splits)

lemma safe_answer: "next_answer w = (a, w1) \<Longrightarrow> safe P w w1"
  using next_answer_nodes[of w a w1] by (simp add: safe_def)

lemma safe_put: "next_answer w = (a, w1) \<Longrightarrow> P ns \<Longrightarrow> safe P w (put_nodes ns w1)"
  using next_answer_nodes[of w a w1] unfolding safe_def put_nodes_def by (intro exI[of _ "[ns]"]) simp

lemma put_nodes_simps [simp]: "w_nodes (put_nodes ns w) = ns" "w_log (put_nodes ns w) = w_log w @ [ns]" "w_answers (put_nodes ns w) = w_answers w"
  by (simp_all add: put_nodes_def)

text \<open>Reads change nothing.\<close>

lemma stat_reads: "sys_stat p w = (w1, r) \<Longrightarrow> safe P w w1 \<and> w_nodes w1 = w_nodes w"
  by (cases "next_answer w") (auto simp: sys_stat_def dest: safe_answer next_answer_nodes)

lemma read_calls:
  "fs_exists p w = (w1, x) \<Longrightarrow> safe P w w1 \<and> w_nodes w1 = w_nodes w"
  "fs_is_regular_file p w = (w1, x) \<Longrightarrow> safe P w w1 \<and> w_nodes w1 = w_nodes w"
  "fs_last_write_time p w = (w1, t) \<Longrightarrow> safe P w w1 \<and> w_nodes w1 = w_nodes w"
proof -
  obtain w2 r where s: "sys_stat p w = (w2, r)" by (cases "sys_stat p w")
  note r = stat_reads[OF s, of P]
  show "fs_exists p w = (w1, x) \<Longrightarrow> safe P w w1 \<and> w_nodes w1 = w_nodes w"
    "fs_is_regular_file p w = (w1, x) \<Longrightarrow> safe P w w1 \<and> w_nodes w1 = w_nodes w"
    "fs_last_write_time p w = (w1, t) \<Longrightarrow> safe P w w1 \<and> w_nodes w1 = w_nodes w"
    using r by (simp_all add: fs_exists_def fs_is_regular_file_def fs_last_write_time_def s)
qed

lemma close_reads: "sys_close w = (w1, c) \<Longrightarrow> safe P w w1 \<and> w_nodes w1 = w_nodes w"
  by (cases "next_answer w") (auto simp: sys_close_def dest: safe_answer next_answer_nodes)

text \<open>When no call fails.\<close>

lemma missing_error: "missing ns p = ENOENT \<or> missing ns p = ENOTDIR"
  by (simp add: missing_def)

text \<open>Making directories changes nothing but missing ones above the path, and nothing at all over a file.\<close>

definition made_directories :: "path list \<Rightarrow> fsys \<Rightarrow> fsys \<Rightarrow> bool" where
  "made_directories dirs old ns \<longleftrightarrow> (\<forall>q. ns q = old q \<or> (q \<in> set dirs \<and> ns q = Some Directory))"

lemma made_directories_step:
  assumes "made_directories qs (old(x \<mapsto> Directory)) ns"
  shows "made_directories (x # qs) old ns"
  unfolding made_directories_def
proof
  fix q
  from assms have "ns q = (old(x \<mapsto> Directory)) q \<or> (q \<in> set qs \<and> ns q = Some Directory)" by (simp only: made_directories_def)
  then show "ns q = old q \<or> (q \<in> set (x # qs) \<and> ns q = Some Directory)" by (auto split: if_splits)
qed

lemma make_directories_nodes:
  "make_directories qs w = (w1, r) \<Longrightarrow> safe (made_directories qs (w_nodes w)) w w1 \<and>
    (r = None \<longrightarrow> w_nodes w1 = (\<lambda>q. if q \<in> set qs then Some Directory else w_nodes w q))"
proof (induction qs arbitrary: w)
  case Nil
  then show ?case by simp
next
  case (Cons x qs)
  obtain a w2 where a: "next_answer w = (a, w2)" by (cases "next_answer w")
  note n = next_answer_nodes[OF a]
  show ?case
  proof (cases "\<exists>e. a = Fails e")
    case True
    with Cons.prems safe_answer[OF a] show ?thesis by (auto simp: a)
  next
    case False
    let ?w = "put_nodes ((w_nodes w2)(x \<mapsto> Directory)) w2"
    from Cons.prems False have m: "make_directories qs ?w = (w1, r)" by (cases a) (simp_all add: a)
    have 1: "safe (made_directories (x # qs) (w_nodes w)) w ?w"
      using n by (intro safe_put[OF a]) (simp add: made_directories_def)
    have 2: "safe (made_directories (x # qs) (w_nodes w)) ?w w1"
      by (rule safe_mono[OF conjunct1[OF Cons.IH[OF m]]]) (intro made_directories_step, simp only: put_nodes_simps conjunct1[OF n])
    show ?thesis using safe_trans[OF 1 2] conjunct2[OF Cons.IH[OF m]] n by (auto simp: fun_eq_iff)
  qed
qed

lemma create_directories:
  assumes "fs_create_directories p w = (w1, r)"
  shows "safe (made_directories (ancestors p) (w_nodes w)) w w1"
    "r = None \<Longrightarrow> w_nodes w1 = (\<lambda>q. if q \<in> set (ancestors p) then Some Directory else w_nodes w q)"
    "w_nodes w q = Some (RegularFile b m t) \<Longrightarrow> w_nodes w1 q = Some (RegularFile b m t)"
    "r = None \<Longrightarrow> w_nodes w q = Some (RegularFile b m t) \<Longrightarrow> q \<notin> set (ancestors p)"
proof -
  obtain a w2 where a: "next_answer w = (a, w2)" by (cases "next_answer w")
  note n = next_answer_nodes[OF a]
  let ?file = "list_ex (\<lambda>q. w_nodes w q \<noteq> None \<and> w_nodes w q \<noteq> Some Directory) (ancestors p)"
  let ?new = "rev (filter (\<lambda>q. w_nodes w q = None) (ancestors p))"
  consider (stopped) "w1 = w2" "r \<noteq> None" | (made) "\<not> ?file" "make_directories ?new w2 = (w1, r)"
    using assms by (cases a) (auto simp: fs_create_directories_def a split: if_splits)
  note cases = this
  show s: "safe (made_directories (ancestors p) (w_nodes w)) w w1"
    using cases
  proof cases
    case stopped
    then show ?thesis using safe_answer[OF a] by simp
  next
    case made
    from make_directories_nodes[OF made(2)] n have "safe (made_directories ?new (w_nodes w)) w2 w1" by simp
    then have "safe (made_directories (ancestors p) (w_nodes w)) w2 w1" by (rule safe_mono) (auto simp: made_directories_def)
    then show ?thesis using safe_trans[OF safe_answer[OF a]] by blast
  qed
  have no_file: "\<not> ?file \<Longrightarrow> w_nodes w q = Some (RegularFile b m t) \<Longrightarrow> q \<notin> set (ancestors p)" for q b m t
    by (auto simp: list_ex_iff)
  show "w_nodes w1 = (\<lambda>q. if q \<in> set (ancestors p) then Some Directory else w_nodes w q)" if "r = None"
    using cases
  proof cases
    case made
    have "w_nodes w q = Some Directory" if "q \<in> set (ancestors p)" "w_nodes w q \<noteq> None" for q
      using made(1) that by (auto simp: list_ex_iff)
    with make_directories_nodes[OF made(2)] that n show ?thesis by (auto simp: fun_eq_iff)
  qed (use that in simp)
  show "q \<notin> set (ancestors p)" if "r = None" "w_nodes w q = Some (RegularFile b m t)"
    using cases that no_file by cases auto
  show "w_nodes w1 q = Some (RegularFile b m t)" if f: "w_nodes w q = Some (RegularFile b m t)"
    using cases
  proof cases
    case made
    have "made_directories (ancestors p) (w_nodes w) (w_nodes w1)" using safe_now[OF s] by (simp add: made_directories_def)
    then have "w_nodes w1 q = w_nodes w q" using no_file[OF made(1) f] by (auto simp: made_directories_def)
    with f show ?thesis by simp
  qed (use n f in simp)
qed

lemma quiet_answer: "w_answers w = [] \<Longrightarrow> next_answer w = (Succeeds, w)"
  by (simp add: next_answer_def)

end
