(* ===== verification/Std_Sort.thy ===== *)
theory Std_Sort
  imports "HOL-Library.Multiset" Cfg_Prelude
begin

text \<open>
  \<open>std::sort\<close> with a comparator. The standard asks of the comparator that it is a strict weak order;
  the locale states that contract and proves what a sorted range is. The algorithm here is an
  insertion sort; \<open>sorted_unique\<close> shows that where the comparator separates the elements every
  correct sort gives the same result.
\<close>

primrec insert_before :: "('a \<Rightarrow> 'a \<Rightarrow> bool) \<Rightarrow> 'a \<Rightarrow> 'a list \<Rightarrow> 'a list" where
  "insert_before before x [] = [x]"
| "insert_before before x (y # ys) = (if before y x then y # insert_before before x ys else x # y # ys)"

definition std_sort :: "('a \<Rightarrow> 'a \<Rightarrow> bool) \<Rightarrow> 'a list \<Rightarrow> 'a list" where
  "std_sort before xs = foldr (insert_before before) xs []"

lemma mset_insert_before [simp]: "mset (insert_before b x ys) = add_mset x (mset ys)"
  by (induction ys) auto

lemma mset_std_sort [simp]: "mset (std_sort b xs) = mset xs"
  by (induction xs) (simp_all add: std_sort_def)

lemma set_std_sort [simp]: "set (std_sort b xs) = set xs"
  by (metis mset_std_sort set_mset_mset)

lemma length_std_sort [simp]: "length (std_sort b xs) = length xs"
  by (metis mset_std_sort size_mset)

lemma distinct_std_sort [simp]: "distinct (map f (std_sort b xs)) = distinct (map f xs)"
  by (metis mset_map mset_std_sort mset_eq_imp_distinct_iff)

lemma std_sort_Nil_iff [simp]: "std_sort b xs = [] \<longleftrightarrow> xs = []"
  by (metis length_0_conv length_std_sort)

definition separated_by :: "('a \<Rightarrow> 'a \<Rightarrow> bool) \<Rightarrow> 'a set \<Rightarrow> bool" where
  "separated_by before A \<longleftrightarrow> (\<forall>x \<in> A. \<forall>y \<in> A. x \<noteq> y \<longrightarrow> before x y \<or> before y x)"

locale strict_weak_order =
  fixes before :: "'a \<Rightarrow> 'a \<Rightarrow> bool"
  assumes irrefl: "\<not> before x x"
    and transitive: "before x y \<Longrightarrow> before y z \<Longrightarrow> before x z"
    and incomparable: "\<not> before x y \<Longrightarrow> \<not> before y z \<Longrightarrow> \<not> before x z"
begin

lemma asym: "before x y \<Longrightarrow> \<not> before y x"
  using irrefl transitive by blast

lemma insert_before_sorted:
  "sorted_wrt (\<lambda>x y. \<not> before y x) ys \<Longrightarrow> sorted_wrt (\<lambda>x y. \<not> before y x) (insert_before before x ys)"
proof (induction ys)
  case (Cons y ys)
  have m: "set (insert_before before x ys) = insert x (set ys)" by (metis mset_insert_before set_mset_add_mset_insert set_mset_mset)
  show ?case
  proof (cases "before y x")
    case True
    with Cons m asym[OF True] show ?thesis by auto
  next
    case False
    have "\<not> before z x" if "z \<in> set ys" for z
      using Cons.prems that False incomparable[of z y x] by auto
    with Cons.prems False show ?thesis by auto
  qed
qed simp

lemma std_sort_sorted: "sorted_wrt (\<lambda>x y. \<not> before y x) (std_sort before xs)"
  by (induction xs) (simp_all add: std_sort_def insert_before_sorted)

text \<open>On a list the comparator separates, the order is strict and the result unique.\<close>

lemma sorted_strict:
  "sorted_wrt (\<lambda>x y. \<not> before y x) xs \<Longrightarrow> distinct xs \<Longrightarrow> separated_by before (set xs) \<Longrightarrow> sorted_wrt before xs"
proof (induction xs)
  case (Cons x xs)
  have "separated_by before (set xs)" using Cons.prems(3) by (simp add: separated_by_def)
  moreover have "before x y" if "y \<in> set xs" for y
    using Cons.prems that unfolding separated_by_def by (metis distinct.simps(2) list.set_intros sorted_wrt.simps(2))
  ultimately show ?case using Cons by auto
qed simp

lemma std_sort_strict: "distinct xs \<Longrightarrow> separated_by before (set xs) \<Longrightarrow> sorted_wrt before (std_sort before xs)"
  using sorted_strict[OF std_sort_sorted[of xs]] distinct_std_sort[of "\<lambda>x. x" before xs] by simp

lemma sorted_unique: "sorted_wrt before xs \<Longrightarrow> sorted_wrt before ys \<Longrightarrow> set xs = set ys \<Longrightarrow> xs = ys"
proof (induction xs arbitrary: ys)
  case (Cons x xs)
  then obtain y zs where y: "ys = y # zs" by (cases ys) auto
  have "x = y" using Cons.prems y asym by (metis list.set_intros(1) set_ConsD sorted_wrt.simps(2))
  moreover have "x \<notin> set xs" "y \<notin> set zs" using Cons.prems(1,2) y irrefl by auto
  ultimately have "set xs = set zs" using Cons.prems(3) y by auto
  with Cons y \<open>x = y\<close> show ?case by simp
qed simp

lemma before_in_tl: "sorted_wrt before xs \<Longrightarrow> x \<in> set (tl xs) \<longleftrightarrow> x \<in> set xs \<and> (\<exists>y \<in> set xs. before y x)"
  using irrefl asym by (cases xs) (simp, fastforce)

lemma before_in_drop:
  "sorted_wrt before xs \<Longrightarrow> x \<in> set (drop k xs) \<longleftrightarrow> x \<in> set xs \<and> k \<le> card {y \<in> set xs. before y x}"
proof (induction xs arbitrary: k)
  case (Cons a xs)
  have a: "a \<notin> set xs" using Cons.prems irrefl by auto
  show ?case
  proof (cases "x \<in> set xs")
    case True
    with Cons.prems have "{y \<in> set (a # xs). before y x} = insert a {y \<in> set xs. before y x}" by auto
    then have c: "card {y \<in> set (a # xs). before y x} = Suc (card {y \<in> set xs. before y x})" using a by simp
    show ?thesis
    proof (cases k)
      case (Suc n)
      have "x \<in> set (drop k (a # xs)) \<longleftrightarrow> x \<in> set (drop n xs)" using Suc by simp
      also have "\<dots> \<longleftrightarrow> k \<le> card {y \<in> set (a # xs). before y x}"
        using Cons.IH[of n] Cons.prems True unfolding c Suc by simp
      finally show ?thesis using True by simp
    qed (use True in simp)
  next
    case False
    show ?thesis
    proof (cases "x = a")
      case True
      with Cons.prems irrefl asym have "{y \<in> set (a # xs). before y x} = {}" by auto
      then have "card {y \<in> set (a # xs). before y x} = 0" by (simp only: card.empty)
      moreover have "x \<in> set (drop k (a # xs)) \<longleftrightarrow> k = 0" using True False in_set_dropD[of x] by (cases k) auto
      ultimately show ?thesis using True by (simp only: le_zero_eq list.set_intros simp_thms)
    next
      case ne: False
      with False have "x \<notin> set (a # xs)" by simp
      then show ?thesis using in_set_dropD by fast
    qed
  qed
qed simp

end

section \<open>Comparing paths\<close>

text \<open>\<open>operator<\<close> on \<open>std::string\<close>: lexicographic on unsigned bytes.\<close>

fun string_less :: "string \<Rightarrow> string \<Rightarrow> bool" where
  "string_less _ [] = False"
| "string_less [] (y # ys) = True"
| "string_less (x # xs) (y # ys) = ((of_char x :: nat) < of_char y \<or> x = y \<and> string_less xs ys)"

lemma string_less_irrefl: "\<not> string_less xs xs"
  by (induction xs) auto

lemma string_less_trans: "string_less xs ys \<Longrightarrow> string_less ys zs \<Longrightarrow> string_less xs zs"
proof (induction xs ys arbitrary: zs rule: string_less.induct)
  case (2 y ys) then show ?case by (cases zs) auto
next
  case (3 x xs y ys) then show ?case by (cases zs) auto
qed simp

lemma string_less_total: "xs \<noteq> ys \<Longrightarrow> string_less xs ys \<or> string_less ys xs"
proof (induction xs ys rule: string_less.induct)
  case (1 xs) then show ?case by (cases xs) auto
next
  case (3 x xs y ys)
  have "x \<noteq> y \<Longrightarrow> (of_char x :: nat) \<noteq> of_char y" by simp
  with 3 show ?case by (auto simp: linorder_neq_iff)
qed simp

interpretation path_order: strict_weak_order string_less
  using string_less_irrefl string_less_trans string_less_total by unfold_locales metis+

end
