(* ===== verification/Checkpoint_Ops.thy ===== *)
theory Checkpoint_Ops
  imports File_System Std_Sort Config_Runtime
begin

text \<open>
  The checkpoint store, \<open>checkpoint/src/checkpoint_store.cpp\<close>, operation by operation over the world
  of \<open>File_System\<close> (the POSIX side of the conditional compilation).
  \<open>os\<close> is what the system chooses: the text of an error number, and the order in which it lists a
  directory. The backend behind \<open>IConfigInterface\<close> is an argument that may throw; \<open>Bad_alloc\<close> is the
  \<open>std::bad_alloc\<close> every operation lets pass. The bodies of the public operations are named \<open>Impl\<close> as in the code.
\<close>

section \<open>Options, results and the interfaces\<close>

record os =
  os_message :: "errno \<Rightarrow> string"
  os_listing :: "fsys \<Rightarrow> path \<Rightarrow> path list"

record checkpoint_options =
  canonical_path :: path
  checkpoint_directory :: path
  retention :: nat
  max_file_bytes :: nat

text \<open>\<open>be_save\<close> returns the text in the stream, whether the stream is good, and the outcome.\<close>

record backend =
  be_load :: "string \<Rightarrow> (error + vconfig) backend_call"
  be_save :: "vconfig \<Rightarrow> string \<times> bool \<times> (error + unit) backend_call"

type_synonym rejection = "path \<times> error"

record prepared_restore =
  pr_path :: path
  pr_source_version :: version_id
  pr_config :: vconfig

record restore_search =
  rs_candidate :: "prepared_restore option"
  rs_rejected :: "rejection list"

record prune_report =
  pp_removed :: "path list"
  pp_rejected :: "rejection list"

section \<open>Files\<close>

definition storageErrorMessage :: "os \<Rightarrow> string \<Rightarrow> path \<Rightarrow> errno \<Rightarrow> string" where
  "storageErrorMessage os operation p e = operation @ '' '' @ squote @ p @ squote @ '': '' @ os_message os e"

definition parentOrCurrent :: "path \<Rightarrow> path" where
  "parentOrCurrent p = (if parent_path p = [] then ''.'' else parent_path p)"

definition temporaryCandidate :: "path \<Rightarrow> world \<Rightarrow> world \<times> path" where
  "temporaryCandidate destination w =
     (w\<lparr>w_sequence := w_sequence w + 1\<rparr>,
      append_path (parentOrCurrent destination)
        (filename destination @ ''.tmp.'' @ nat_str (w_ticks w (unat (w_sequence w))) @ ''.'' @ nat_str (unat (w_sequence w))))"

definition removeTemporary :: "path \<Rightarrow> world \<Rightarrow> world" where
  "removeTemporary p w = fst (fs_remove p w)"

definition kBufferSize :: nat where "kBufferSize = 16 * 1024"

text \<open>
  The read loop on the bytes not yet read; a failed read delivers nothing. The subtraction is on
  \<open>std::size_t\<close>.
\<close>

function read_loop :: "path \<Rightarrow> nat \<Rightarrow> string \<Rightarrow> string \<Rightarrow> world \<Rightarrow> world \<times> (error + string)" where
  "read_loop p max_bytes bytes unread w = (case next_answer w of (a, w1) \<Rightarrow>
     let chunk = (case a of Fails e \<Rightarrow> [] | _ \<Rightarrow> take kBufferSize unread) in
     if length chunk > (max_bytes + 2 ^ 64 - length bytes) mod 2 ^ 64
     then (w1, fail StorageError (''file '' @ squote @ p @ squote @ '' exceeds size limit ('' @ nat_str max_bytes @ '' bytes)''))
     else (case a of
         Fails e \<Rightarrow> (w1, fail StorageError (''failed while reading '' @ squote @ p @ squote))
       | _ \<Rightarrow> (if length chunk < kBufferSize then (w1, Inr (bytes @ chunk))
               else read_loop p max_bytes (bytes @ chunk) (drop kBufferSize unread) w1)))"
  by pat_completeness auto
termination
  by (relation "measure (\<lambda>(p, m, b, u, w). length u)") (auto simp: kBufferSize_def Let_def split: if_splits answer.splits)

declare read_loop.simps [simp del]

definition readFileBytes :: "path \<Rightarrow> nat \<Rightarrow> world \<Rightarrow> world \<times> (error + string)" where
  "readFileBytes p max_bytes w = (case next_answer w of (a, w1) \<Rightarrow>
     let cannot_open = (w1, fail StorageError (''cannot open '' @ squote @ p @ squote @ '' for reading'')) in
     (case a of Fails e \<Rightarrow> cannot_open
      | _ \<Rightarrow> (case w_nodes w p of
          None \<Rightarrow> cannot_open
        | Some Directory \<Rightarrow> (w1, fail StorageError (''failed while reading '' @ squote @ p @ squote))
        | Some (RegularFile b m t) \<Rightarrow> read_loop p max_bytes [] b w1)))"

text \<open>The write loop; the result is \<open>write_error\<close>.\<close>

function write_loop :: "path \<Rightarrow> string \<Rightarrow> world \<Rightarrow> world \<times> errno option" where
  "write_loop p bytes w = (if bytes = [] then (w, None)
     else (case sys_write p bytes w of
         (w1, Inl e) \<Rightarrow> (if e = EINTR then write_loop p bytes w1 else (w1, Some e))
       | (w1, Inr n) \<Rightarrow> (if n = 0 then (w1, Some EIO) else write_loop p (drop n bytes) w1)))"
  by pat_completeness auto
termination
  by (relation "measure (\<lambda>(p, bytes, w). length (w_answers w) + length bytes)")
    (auto simp: sys_write_def next_answer_def split: list.splits answer.splits)

declare write_loop.simps [simp del]

text \<open>One attempt; \<open>None\<close> is \<open>continue\<close>.\<close>

definition writeAttempt :: "os \<Rightarrow> path \<Rightarrow> string \<Rightarrow> nat \<Rightarrow> world \<Rightarrow> world \<times> (error + path) option" where
  "writeAttempt os destination bytes final_mode w = (case temporaryCandidate destination w of (w0, candidate) \<Rightarrow>
     (case sys_create candidate w0 of
        (w1, Some e) \<Rightarrow> (w1, if e = EEXIST then None else Some (fail StorageError
          (''cannot create temporary file '' @ squote @ candidate @ squote @ '': '' @ os_message os e)))
      | (w1, None) \<Rightarrow> (case write_loop candidate bytes w1 of (w2, error1) \<Rightarrow>
          (case (if error1 = None then sys_fchmod candidate final_mode w2 else (w2, error1)) of (w3, error2) \<Rightarrow>
            (case sys_close w3 of (w4, closed) \<Rightarrow>
              (case (if error2 = None then closed else error2) of
                 Some e \<Rightarrow> (removeTemporary candidate w4, Some (fail StorageError
                   (''failed to write temporary file '' @ squote @ candidate @ squote @ '': '' @ os_message os e)))
               | None \<Rightarrow> (w4, Some (Inr candidate))))))))"

primrec writeAttempts :: "os \<Rightarrow> nat \<Rightarrow> path \<Rightarrow> string \<Rightarrow> nat \<Rightarrow> world \<Rightarrow> world \<times> (error + path)" where
  "writeAttempts os 0 destination bytes final_mode w =
     (w, fail StorageError (''cannot allocate a unique temporary file beside '' @ squote @ destination @ squote))"
| "writeAttempts os (Suc k) destination bytes final_mode w = (case writeAttempt os destination bytes final_mode w of
     (w1, Some r) \<Rightarrow> (w1, r)
   | (w1, None) \<Rightarrow> writeAttempts os k destination bytes final_mode w1)"

text \<open>Mode bits of a node; a directory is given those of a new one.\<close>

definition node_mode :: "fs_node \<Rightarrow> nat" where
  "node_mode n = (case n of RegularFile b m t \<Rightarrow> m mod 4096 | Directory \<Rightarrow> 493)"

definition writeTemporary :: "os \<Rightarrow> path \<Rightarrow> string \<Rightarrow> path \<Rightarrow> world \<Rightarrow> world \<times> (error + path)" where
  "writeTemporary os destination bytes permission_source w = (case sys_stat permission_source w of
     (w1, Inr n) \<Rightarrow> writeAttempts os 100 destination bytes (node_mode n) w1
   | (w1, Inl e) \<Rightarrow> (if e = ENOENT then writeAttempts os 100 destination bytes 384 w1
       else (w1, fail StorageError (''cannot inspect permissions of '' @ squote @ permission_source @ squote @ '': '' @ os_message os e))))"

definition replaceFile :: "os \<Rightarrow> path \<Rightarrow> path \<Rightarrow> world \<Rightarrow> world \<times> (error + unit)" where
  "replaceFile os temporary destination w = (case sys_rename temporary destination w of
     (w1, Some e) \<Rightarrow> (w1, fail StorageError (''cannot atomically replace '' @ squote @ destination @ squote @ '': '' @ os_message os e))
   | (w1, None) \<Rightarrow> (w1, Inr ()))"

section \<open>Checkpoint names\<close>

definition checkpointFilename :: "version_id \<Rightarrow> path \<Rightarrow> string" where
  "checkpointFilename version ext = (let s = nat_str (unat version) in replicate (10 - length s) CHR ''0'' @ s @ ext)"

definition isCheckpointFilename :: "path \<Rightarrow> path \<Rightarrow> bool" where
  "isCheckpointFilename p ext \<longleftrightarrow> (if extension p \<noteq> ext then False
     else length (stem p) = 10 \<and> list_all is_digit (stem p))"

text \<open>The loop of the directory iterator over the entries.\<close>

fun scan_entries :: "os \<Rightarrow> checkpoint_options \<Rightarrow> path list \<Rightarrow> path list \<Rightarrow> world \<Rightarrow> world \<times> (error + path list)" where
  "scan_entries os opts acc [] w = (w, Inr acc)"
| "scan_entries os opts acc (p # entries) w = (case fs_is_regular_file p w of
     (w1, Inl e) \<Rightarrow> (w1, fail StorageError (storageErrorMessage os ''cannot inspect checkpoint entry'' p e))
   | (w1, Inr regular) \<Rightarrow>
       (let acc' = (if regular \<and> isCheckpointFilename p (extension (canonical_path opts)) then acc @ [p] else acc) in
        case next_answer w1 of
          (Fails e, w2) \<Rightarrow> (w2, fail StorageError
            (storageErrorMessage os ''cannot enumerate checkpoint directory'' (checkpoint_directory opts) e))
        | (_, w2) \<Rightarrow> scan_entries os opts acc' entries w2))"

definition checkpointFiles :: "os \<Rightarrow> checkpoint_options \<Rightarrow> world \<Rightarrow> world \<times> (error + path list)" where
  "checkpointFiles os opts w = (case fs_exists (checkpoint_directory opts) w of
     (w1, Inl e) \<Rightarrow> (w1, fail StorageError
       (storageErrorMessage os ''cannot inspect checkpoint directory'' (checkpoint_directory opts) e))
   | (w1, Inr present) \<Rightarrow> (if \<not> present then (w1, Inr [])
       else (case next_answer w1 of (a, w2) \<Rightarrow>
         (case (case a of Fails e \<Rightarrow> Some e | _ \<Rightarrow> if w_nodes w1 (checkpoint_directory opts) = Some Directory then None else Some ENOTDIR) of
            Some e \<Rightarrow> (w2, fail StorageError
              (storageErrorMessage os ''cannot enumerate checkpoint directory'' (checkpoint_directory opts) e))
          | None \<Rightarrow> scan_entries os opts [] (os_listing os (w_nodes w2) (checkpoint_directory opts)) w2))))"

section \<open>The backend\<close>

definition loadBytes :: "string \<Rightarrow> backend \<Rightarrow> (error + vconfig) flow" where
  "loadBytes bytes be = (case be_load be bytes of
     BReturns r \<Rightarrow> Ret r
   | BThrows_bad_alloc \<Rightarrow> Bad_alloc
   | BThrows_std what \<Rightarrow> Ret (fail ParseError (''checkpoint backend load failed: '' @ what))
   | BThrows_other \<Rightarrow> Ret (fail ParseError ''checkpoint backend load failed with a non-standard exception''))"

definition saveBytes :: "vconfig \<Rightarrow> backend \<Rightarrow> (error + string) flow" where
  "saveBytes config be = (case be_save be config of (written, good, call) \<Rightarrow> (case call of
     BReturns (Inl e) \<Rightarrow> Ret (Inl e)
   | BReturns (Inr _) \<Rightarrow> Ret (if \<not> good then fail SerializationError ''checkpoint backend failed to serialize the configuration''
       else Inr written)
   | BThrows_bad_alloc \<Rightarrow> Bad_alloc
   | BThrows_std what \<Rightarrow> Ret (fail SerializationError (''checkpoint backend save failed: '' @ what))
   | BThrows_other \<Rightarrow> Ret (fail SerializationError ''checkpoint backend save failed with a non-standard exception'')))"

section \<open>Creating a store\<close>

text \<open>\<open>fs::weakly_canonical\<close> asks the file system; it returns a path or throws.\<close>

definition validateOptions :: "(path \<Rightarrow> string + path) \<Rightarrow> checkpoint_options \<Rightarrow> string + (error + checkpoint_options)" where
  "validateOptions weakly_canonical opts =
     (if canonical_path opts = [] then Inr (fail StorageError ''canonical path must not be empty'')
      else if checkpoint_directory opts = [] then Inr (fail StorageError ''checkpoint directory must not be empty'')
      else (case weakly_canonical (canonical_path opts) of Inl what \<Rightarrow> Inl what | Inr canonical \<Rightarrow>
        (case weakly_canonical (checkpoint_directory opts) of Inl what \<Rightarrow> Inl what | Inr dir \<Rightarrow>
          (if parentOrCurrent canonical = dir
           then Inr (fail StorageError ''canonical file must not be inside the checkpoint directory'')
           else Inr (Inr (opts\<lparr>canonical_path := canonical, checkpoint_directory := dir\<rparr>))))))"

definition storageException :: "string \<Rightarrow> string \<Rightarrow> error + 'a" where
  "storageException operation what = fail StorageError (operation @ '': '' @ what)"

definition cpCreate :: "(path \<Rightarrow> string + path) \<Rightarrow> checkpoint_options \<Rightarrow> error + checkpoint_options" where
  "cpCreate weakly_canonical opts = (case validateOptions weakly_canonical opts of
     Inl what \<Rightarrow> storageException ''cpCreate failed'' what
   | Inr r \<Rightarrow> r)"

section \<open>Capture and commit\<close>

text \<open>
  The end of both: write beside the destination, then replace it. The two functions it calls are the
  ones the preprocessor chooses per platform; the bodies of the operations take what it gives.
\<close>

type_synonym write_file = "path \<Rightarrow> string \<Rightarrow> path \<Rightarrow> world \<Rightarrow> world \<times> (error + path)"
type_synonym replace_file = "path \<Rightarrow> path \<Rightarrow> world \<Rightarrow> world \<times> (error + unit)"
type_synonym publisher = "path \<Rightarrow> string \<Rightarrow> path \<Rightarrow> world \<Rightarrow> world \<times> (error + unit)"

definition publish_with :: "write_file \<Rightarrow> replace_file \<Rightarrow> publisher" where
  "publish_with write_temp replace destination bytes permission_source w = (case write_temp destination bytes permission_source w of
     (w1, Inl e) \<Rightarrow> (w1, Inl e)
   | (w1, Inr temporary) \<Rightarrow> (case replace temporary destination w1 of
       (w2, Inl e) \<Rightarrow> (removeTemporary temporary w2, Inl e)
     | (w2, Inr _) \<Rightarrow> (w2, Inr ())))"

definition publish :: "os \<Rightarrow> publisher" where
  "publish os = publish_with (writeTemporary os) (replaceFile os)"

definition cpCaptureImpl :: "publisher \<Rightarrow> os \<Rightarrow> checkpoint_options \<Rightarrow> vconfig \<Rightarrow> backend \<Rightarrow> world \<Rightarrow> world \<times> (error + unit) flow" where
  "cpCaptureImpl pub os opts config be w = (case readFileBytes (canonical_path opts) (max_file_bytes opts) w of
     (w1, Inl e) \<Rightarrow> (w1, Ret (Inl e))
   | (w1, Inr bytes) \<Rightarrow> (case loadBytes bytes be of
       Bad_alloc \<Rightarrow> (w1, Bad_alloc)
     | Ret (Inl e) \<Rightarrow> (w1, Ret (Inl e))
     | Ret (Inr loaded) \<Rightarrow>
         (if vc_version loaded \<noteq> vc_version config
          then (w1, Ret (fail InvalidVersion (''canonical version '' @ vstr (vc_version loaded)
            @ '' does not match supplied config version '' @ vstr (vc_version config))))
          else (case fs_create_directories (checkpoint_directory opts) w1 of
              (w2, Some e) \<Rightarrow> (w2, Ret (fail StorageError
                (storageErrorMessage os ''cannot create checkpoint directory'' (checkpoint_directory opts) e)))
            | (w2, None) \<Rightarrow>
                (let destination = append_path (checkpoint_directory opts)
                   (checkpointFilename (vc_version config) (extension (canonical_path opts))) in
                 case fs_exists destination w2 of
                   (w3, Inl e) \<Rightarrow> (w3, Ret (fail StorageError (storageErrorMessage os ''cannot inspect checkpoint'' destination e)))
                 | (w3, Inr destination_exists) \<Rightarrow>
                     (case pub destination bytes (if destination_exists then destination else canonical_path opts) w3 of
                        (w4, r) \<Rightarrow> (w4, Ret r)))))))"

definition cpCommitImpl :: "publisher \<Rightarrow> os \<Rightarrow> checkpoint_options \<Rightarrow> vconfig \<Rightarrow> backend \<Rightarrow> world \<Rightarrow> world \<times> (error + unit) flow" where
  "cpCommitImpl pub os opts config be w = (case saveBytes config be of
     Bad_alloc \<Rightarrow> (w, Bad_alloc)
   | Ret (Inl e) \<Rightarrow> (w, Ret (Inl e))
   | Ret (Inr bytes) \<Rightarrow>
       (let destination = canonical_path opts in
        case fs_create_directories (parentOrCurrent destination) w of
          (w1, Some e) \<Rightarrow> (w1, Ret (fail StorageError
            (storageErrorMessage os ''cannot create canonical directory'' (parentOrCurrent destination) e)))
        | (w1, None) \<Rightarrow> (case pub destination bytes destination w1 of (w2, r) \<Rightarrow> (w2, Ret r))))"

section \<open>Reading the checkpoints\<close>

record loaded_candidate =
  lc_path :: path
  lc_source_version :: version_id
  lc_modified :: nat
  lc_config :: vconfig

text \<open>The body of the loops of restore and prune; restore passes the version it supports. \<open>Inl\<close> is \<open>rejected.push_back\<close>.\<close>

definition load_checkpoint :: "os \<Rightarrow> checkpoint_options \<Rightarrow> backend \<Rightarrow> version_id option \<Rightarrow> path \<Rightarrow> world \<Rightarrow> world \<times> (error + loaded_candidate) flow" where
  "load_checkpoint os opts be supported p w = (case readFileBytes p (max_file_bytes opts) w of
     (w1, Inl e) \<Rightarrow> (w1, Ret (Inl e))
   | (w1, Inr bytes) \<Rightarrow> (case loadBytes bytes be of
       Bad_alloc \<Rightarrow> (w1, Bad_alloc)
     | Ret (Inl e) \<Rightarrow> (w1, Ret (Inl e))
     | Ret (Inr loaded) \<Rightarrow>
         (if supported \<noteq> None \<and> vc_version loaded > the supported
          then (w1, Ret (fail InvalidVersion (''checkpoint version '' @ vstr (vc_version loaded)
            @ '' is newer than supported version '' @ vstr (the supported))))
          else (case fs_last_write_time p w1 of
              (w2, Inl e) \<Rightarrow> (w2, Ret (fail StorageError (storageErrorMessage os ''cannot read checkpoint modification time'' p e)))
            | (w2, Inr modified) \<Rightarrow> (w2, Ret (Inr \<lparr>lc_path = p, lc_source_version = vc_version loaded,
                lc_modified = modified, lc_config = loaded\<rparr>))))))"

fun load_checkpoints :: "os \<Rightarrow> checkpoint_options \<Rightarrow> backend \<Rightarrow> version_id option \<Rightarrow> path list \<Rightarrow> loaded_candidate list \<Rightarrow> rejection list \<Rightarrow>
    world \<Rightarrow> world \<times> (loaded_candidate list \<times> rejection list) flow" where
  "load_checkpoints os opts be supported [] candidates rejected w = (w, Ret (candidates, rejected))"
| "load_checkpoints os opts be supported (p # paths) candidates rejected w = (case load_checkpoint os opts be supported p w of
     (w1, Bad_alloc) \<Rightarrow> (w1, Bad_alloc)
   | (w1, Ret (Inl e)) \<Rightarrow> load_checkpoints os opts be supported paths candidates (rejected @ [(p, e)]) w1
   | (w1, Ret (Inr c)) \<Rightarrow> load_checkpoints os opts be supported paths (candidates @ [c]) rejected w1)"

section \<open>Restore\<close>

definition restore_before :: "loaded_candidate \<Rightarrow> loaded_candidate \<Rightarrow> bool" where
  "restore_before left right \<longleftrightarrow>
     (if lc_source_version left \<noteq> lc_source_version right then lc_source_version left > lc_source_version right
      else if lc_modified left \<noteq> lc_modified right then lc_modified left > lc_modified right
      else string_less (lc_path left) (lc_path right))"

text \<open>The loop over the sorted candidates; \<open>'s\<close> is the state the callbacks of the runtime share.\<close>

primrec try_candidates :: "'s runtime \<Rightarrow> version_id \<Rightarrow> loaded_candidate list \<Rightarrow> rejection list \<Rightarrow> 's \<Rightarrow> ('s \<times> (error + restore_search) flow) option" where
  "try_candidates rt supported [] rejected s = Some (s, Ret (Inr \<lparr>rs_candidate = None, rs_rejected = rejected\<rparr>))"
| "try_candidates rt supported (c # cs) rejected s = do {
     (s1, config, synchronized) \<leftarrow> synchronize rt s (lc_config c) supported;
     (case synchronized of
        Bad_alloc \<Rightarrow> Some (s1, Bad_alloc)
      | Ret (Inl e) \<Rightarrow> try_candidates rt supported cs (rejected @ [(lc_path c, e)]) s1
      | Ret (Inr status) \<Rightarrow>
          (if status \<noteq> InSync \<or> vc_version config \<noteq> supported
           then try_candidates rt supported cs (rejected @ [(lc_path c, \<lparr>err_code = InvalidVersion,
             err_message = ''checkpoint did not synchronize to supported version '' @ vstr supported\<rparr>)]) s1
           else Some (s1, Ret (Inr \<lparr>rs_candidate = Some \<lparr>pr_path = lc_path c, pr_source_version = lc_source_version c, pr_config = config\<rparr>,
             rs_rejected = rejected\<rparr>)))) }"

definition cpPrepareRestoreImpl ::
    "os \<Rightarrow> checkpoint_options \<Rightarrow> backend \<Rightarrow> 's runtime \<Rightarrow> version_id \<Rightarrow> 's \<Rightarrow> world \<Rightarrow> ('s \<times> world \<times> (error + restore_search) flow) option" where
  "cpPrepareRestoreImpl os opts be rt supported s w =
     (if \<not> supportsVersion rt supported
      then Some (s, w, Ret (fail InvalidVersion (''supported version '' @ vstr supported @ '' is not registered'')))
      else (case checkpointFiles os opts w of
          (w1, Inl e) \<Rightarrow> Some (s, w1, Ret (Inl e))
        | (w1, Inr paths) \<Rightarrow> (case load_checkpoints os opts be (Some supported) paths [] [] w1 of
            (w2, Bad_alloc) \<Rightarrow> Some (s, w2, Bad_alloc)
          | (w2, Ret (candidates, rejected)) \<Rightarrow> do {
              (s', r) \<leftarrow> try_candidates rt supported (std_sort restore_before candidates) rejected s;
              Some (s', w2, r) })))"

section \<open>Prune\<close>

text \<open>A \<open>CheckpointFile\<close>, and the ordered map of versions with \<open>versions[v].push_back(file)\<close>.\<close>

record checkpoint_file =
  cf_path :: path
  cf_modified :: nat

definition prune_before :: "checkpoint_file \<Rightarrow> checkpoint_file \<Rightarrow> bool" where
  "prune_before left right \<longleftrightarrow>
     (if cf_modified left \<noteq> cf_modified right then cf_modified left > cf_modified right
      else string_less (cf_path left) (cf_path right))"

fun push_version :: "version_id \<Rightarrow> checkpoint_file \<Rightarrow> (version_id \<times> checkpoint_file list) list \<Rightarrow> (version_id \<times> checkpoint_file list) list" where
  "push_version v f [] = [(v, [f])]"
| "push_version v f ((u, fs) # versions) = (if v < u then (v, [f]) # (u, fs) # versions
     else if v = u then (u, fs @ [f]) # versions else (u, fs) # push_version v f versions)"

definition group_versions :: "loaded_candidate list \<Rightarrow> (version_id \<times> checkpoint_file list) list" where
  "group_versions loaded = fold (\<lambda>c. push_version (lc_source_version c) \<lparr>cf_path = lc_path c, cf_modified = lc_modified c\<rparr>) loaded []"

definition prune_removals :: "nat \<Rightarrow> (version_id \<times> checkpoint_file list) list \<Rightarrow> path list" where
  "prune_removals keep versions =
     (let sorted = map (\<lambda>(v, files). std_sort prune_before files) versions;
          retained_versions = std_sort prune_before (map hd sorted) in
      map cf_path (concat (map tl sorted)) @ map cf_path (drop keep retained_versions))"

primrec remove_all :: "os \<Rightarrow> path list \<Rightarrow> path list \<Rightarrow> world \<Rightarrow> world \<times> (error + path list)" where
  "remove_all os [] removed w = (w, Inr removed)"
| "remove_all os (p # removals) removed w = (case fs_remove p w of
     (w1, Some e) \<Rightarrow> (w1, fail StorageError (storageErrorMessage os ''cannot prune checkpoint'' p e))
   | (w1, None) \<Rightarrow> remove_all os removals (removed @ [p]) w1)"

definition cpPruneImpl :: "os \<Rightarrow> checkpoint_options \<Rightarrow> backend \<Rightarrow> world \<Rightarrow> world \<times> (error + prune_report) flow" where
  "cpPruneImpl os opts be w = (case checkpointFiles os opts w of
     (w1, Inl e) \<Rightarrow> (w1, Ret (Inl e))
   | (w1, Inr paths) \<Rightarrow> (case load_checkpoints os opts be None paths [] [] w1 of
       (w2, Bad_alloc) \<Rightarrow> (w2, Bad_alloc)
     | (w2, Ret (loaded, rejected)) \<Rightarrow>
         (case remove_all os (prune_removals (retention opts) (group_versions loaded)) [] w2 of
            (w3, Inl e) \<Rightarrow> (w3, Ret (Inl e))
          | (w3, Inr removed) \<Rightarrow> (w3, Ret (Inr \<lparr>pp_removed = removed, pp_rejected = rejected\<rparr>)))))"

section \<open>The public operations\<close>

text \<open>
  Each runs its body in a \<open>try\<close> block that turns an exception into a \<open>StorageError\<close> and lets
  \<open>std::bad_alloc\<close> pass, the only one the bodies of this model throw.
\<close>

definition at_boundary :: "string \<Rightarrow> (error + 'a) backend_call \<Rightarrow> (error + 'a) flow" where
  "at_boundary operation call = (case call of
     BReturns r \<Rightarrow> Ret r
   | BThrows_bad_alloc \<Rightarrow> Bad_alloc
   | BThrows_std what \<Rightarrow> Ret (storageException (operation @ '' failed'') what)
   | BThrows_other \<Rightarrow> Ret (fail StorageError (operation @ '' failed with a non-standard exception'')))"

lemma at_boundary_body [simp]: "at_boundary operation (body_call f) = f"
  by (cases f) (simp_all add: at_boundary_def)

definition cpCapture :: "os \<Rightarrow> checkpoint_options \<Rightarrow> vconfig \<Rightarrow> backend \<Rightarrow> world \<Rightarrow> world \<times> (error + unit) flow" where
  "cpCapture os opts config be w = (case cpCaptureImpl (publish os) os opts config be w of
     (w', r) \<Rightarrow> (w', at_boundary ''cpCapture'' (body_call r)))"

definition cpPrepareRestore ::
    "os \<Rightarrow> checkpoint_options \<Rightarrow> backend \<Rightarrow> 's runtime \<Rightarrow> version_id \<Rightarrow> 's \<Rightarrow> world \<Rightarrow> ('s \<times> world \<times> (error + restore_search) flow) option" where
  "cpPrepareRestore os opts be rt supported s w = (case cpPrepareRestoreImpl os opts be rt supported s w of
     None \<Rightarrow> None
   | Some (s', w', r) \<Rightarrow> Some (s', w', at_boundary ''cpPrepareRestore'' (body_call r)))"

definition cpCommit :: "os \<Rightarrow> checkpoint_options \<Rightarrow> vconfig \<Rightarrow> backend \<Rightarrow> world \<Rightarrow> world \<times> (error + unit) flow" where
  "cpCommit os opts config be w = (case cpCommitImpl (publish os) os opts config be w of
     (w', r) \<Rightarrow> (w', at_boundary ''cpCommit'' (body_call r)))"

definition cpPrune :: "os \<Rightarrow> checkpoint_options \<Rightarrow> backend \<Rightarrow> world \<Rightarrow> world \<times> (error + prune_report) flow" where
  "cpPrune os opts be w = (case cpPruneImpl os opts be w of
     (w', r) \<Rightarrow> (w', at_boundary ''cpPrune'' (body_call r)))"

text \<open>So they return what the bodies return.\<close>

lemma public_operations:
  "cpCapture os opts config be w = cpCaptureImpl (publish os) os opts config be w"
  "cpPrepareRestore os opts be rt supported s w = cpPrepareRestoreImpl os opts be rt supported s w"
  "cpCommit os opts config be w = cpCommitImpl (publish os) os opts config be w"
  "cpPrune os opts be w = cpPruneImpl os opts be w"
  by (simp_all add: cpCapture_def cpPrepareRestore_def cpCommit_def cpPrune_def split: prod.split option.split)

lemmas cpCapture_unfold = public_operations(1)[unfolded cpCaptureImpl_def]
lemmas cpPrepareRestore_unfold = public_operations(2)[unfolded cpPrepareRestoreImpl_def]
lemmas cpCommit_unfold = public_operations(3)[unfolded cpCommitImpl_def]
lemmas cpPrune_unfold = public_operations(4)[unfolded cpPruneImpl_def]

end
