(* ===== verification/Checkpoint_Atomic.thy ===== *)
theory Checkpoint_Atomic
  imports Checkpoint_Ops
begin

text \<open>
  Capture and commit are atomic: whatever calls fail, at every moment the destination is what it
  was or the complete new file, and nothing else changes but temporary files beside it.
\<close>

section \<open>Names\<close>

lemma takeWhile_rev_filename: "CHR ''/'' \<notin> set q \<Longrightarrow> takeWhile (\<lambda>c. c \<noteq> CHR ''/'') (rev q @ r) = rev q @ takeWhile (\<lambda>c. c \<noteq> CHR ''/'') r"
  by (induction q rule: rev_induct) auto

lemma filename_append: "CHR ''/'' \<notin> set q \<Longrightarrow> filename (append_path p q) = q"
proof -
  assume q: "CHR ''/'' \<notin> set q"
  have s: "filename (p' @ q) = q" if "p' = [] \<or> last p' = CHR ''/''" for p'
  proof -
    have "takeWhile (\<lambda>c. c \<noteq> CHR ''/'') (rev p') = []" using that by (cases p' rule: rev_cases) simp_all
    with takeWhile_rev_filename[OF q, of "rev p'"] show ?thesis by (simp add: filename_def)
  qed
  show ?thesis
  proof (cases "p \<noteq> [] \<and> last p \<noteq> CHR ''/''")
    case True
    then have "append_path p q = (p @ ''/'') @ q" using q by (cases q) (auto simp: append_path_def)
    then show ?thesis using s[of "p @ ''/''"] by simp
  next
    case False
    then have "append_path p q = p @ q" using q by (cases q) (auto simp: append_path_def)
    then show ?thesis using s[of p] False by auto
  qed
qed

lemma filename_no_slash: "CHR ''/'' \<notin> set (filename p)"
  by (auto simp: filename_def dest: set_takeWhileD)

definition temp_of :: "path \<Rightarrow> path \<Rightarrow> bool" where
  "temp_of destination q \<longleftrightarrow> (\<exists>s. CHR ''/'' \<notin> set s \<and>
     q = append_path (parentOrCurrent destination) (filename destination @ ''.tmp.'' @ s))"

lemma temp_of_filename: "temp_of dst q \<Longrightarrow> \<exists>s. filename q = filename dst @ ''.tmp.'' @ s"
  using filename_append[of "filename dst @ ''.tmp.'' @ s" for s] filename_no_slash[of dst] by (auto simp: temp_of_def)

lemma temp_of_irrefl: "\<not> temp_of dst dst"
  using temp_of_filename[of dst dst] by auto

lemma temporaryCandidate_temp: "temporaryCandidate dst w = (w', c) \<Longrightarrow> temp_of dst c \<and> w_nodes w' = w_nodes w \<and> safe P w w'"
proof -
  have d: "CHR ''/'' \<notin> set (nat_str n)" for n using nat_str_digits[of "CHR ''/''" n] by (auto simp: is_digit_def)
  have "CHR ''/'' \<notin> set (nat_str a @ ''.'' @ nat_str b)" for a b using d by simp
  then have tmp: "temp_of dst (append_path (parentOrCurrent dst)
      (filename dst @ ''.tmp.'' @ nat_str (w_ticks w (unat (w_sequence w))) @ ''.'' @ nat_str (unat (w_sequence w))))"
    unfolding temp_of_def by blast
  assume "temporaryCandidate dst w = (w', c)"
  then have w: "w\<lparr>w_sequence := w_sequence w + 1\<rparr> = w'"
    and c: "append_path (parentOrCurrent dst)
      (filename dst @ ''.tmp.'' @ nat_str (w_ticks w (unat (w_sequence w))) @ ''.'' @ nat_str (unat (w_sequence w))) = c"
    unfolding temporaryCandidate_def by blast+
  show ?thesis using tmp unfolding c w[symmetric] by (simp add: safe_def)
qed

section \<open>Writing the temporary file\<close>

definition only_at :: "path \<Rightarrow> fsys \<Rightarrow> fsys \<Rightarrow> bool" where
  "only_at p old ns \<longleftrightarrow> (\<forall>q. q \<noteq> p \<longrightarrow> ns q = old q)"

lemma only_at_refl [simp]: "only_at p ns ns"
  by (simp add: only_at_def)

lemma only_at_upd [simp]: "only_at p old (ns(p := x)) \<longleftrightarrow> only_at p old ns"
  by (auto simp: only_at_def)

lemma only_at_trans: "only_at p a b \<Longrightarrow> only_at p b c \<Longrightarrow> only_at p a c"
  by (simp add: only_at_def)

lemma safe_only_at: "safe (only_at p (w_nodes w)) w w1 \<Longrightarrow> safe (only_at p (w_nodes w1)) w1 w2 \<Longrightarrow> safe (only_at p (w_nodes w)) w w2"
  using safe_trans[of "only_at p (w_nodes w)" w w1 w2] safe_mono[of "only_at p (w_nodes w1)" w1 w2 "only_at p (w_nodes w)"]
    safe_now[of "only_at p (w_nodes w)" w w1] only_at_trans by (metis only_at_refl)

lemma write_only_at: "sys_write p s w = (w1, r) \<Longrightarrow> safe (only_at p (w_nodes w)) w w1"
  by (cases "next_answer w") (auto simp: sys_write_def split: answer.splits intro: safe_answer safe_put)

lemma write_file:
  assumes "sys_write p s w = (w1, r)" "w_nodes w p = Some (RegularFile b m t)"
  shows "case r of Inl e \<Rightarrow> w_nodes w1 = w_nodes w
    | Inr n \<Rightarrow> w_nodes w1 p = Some (RegularFile (b @ take n s) m (w_now w))"
proof -
  obtain a w2 where a: "next_answer w = (a, w2)" by (cases "next_answer w")
  have t: "take (min k (length s)) s = take k s" for k by (cases "k \<le> length s") simp_all
  show ?thesis using assms next_answer_nodes[OF a] by (cases a) (auto simp: sys_write_def a append_node_def t)
qed

lemma write_loop_file:
  "write_loop p bytes w = (w', r) \<Longrightarrow> w_nodes w p = Some (RegularFile b m t) \<Longrightarrow>
     safe (only_at p (w_nodes w)) w w' \<and>
     (\<exists>b' t'. w_nodes w' p = Some (RegularFile b' m t') \<and> (r = None \<longrightarrow> b' = b @ bytes))"
proof (induction p bytes w arbitrary: b t rule: write_loop.induct)
  case (1 p bytes w)
  show ?case
  proof (cases "bytes = []")
    case True
    with "1.prems" show ?thesis by (simp add: write_loop.simps)
  next
    case False
    obtain w1 x where x: "sys_write p bytes w = (w1, x)" by fastforce
    note s = write_only_at[OF x] and f = write_file[OF x "1.prems"(2)]
    show ?thesis
    proof (cases x)
      case (Inl e)
      show ?thesis
      proof (cases "e = EINTR")
        case True
        with "1.prems" False x Inl have l: "write_loop p bytes w1 = (w', r)" by (simp add: write_loop.simps[of p bytes w])
        from f Inl "1.prems"(2) have "w_nodes w1 p = Some (RegularFile b m t)" by simp
        from "1.IH"(1)[OF False x[symmetric] Inl True l this] safe_only_at[OF s] show ?thesis by blast
      next
        case e: False
        with "1.prems" False x Inl f s show ?thesis by (auto simp: write_loop.simps[of p bytes w])
      qed
    next
      case (Inr n)
      show ?thesis
      proof (cases "n = 0")
        case True
        with "1.prems" False x Inr f s show ?thesis by (auto simp: write_loop.simps[of p bytes w])
      next
        case n: False
        with "1.prems" False x Inr have l: "write_loop p (drop n bytes) w1 = (w', r)" by (simp add: write_loop.simps[of p bytes w])
        from f Inr have "w_nodes w1 p = Some (RegularFile (b @ take n bytes) m (w_now w))" by simp
        from "1.IH"(2)[OF False x[symmetric] Inr n l this] safe_only_at[OF s] show ?thesis by auto
      qed
    qed
  qed
qed

lemma chmod_file:
  assumes "sys_fchmod p m w = (w1, r)"
  shows "safe (only_at p (w_nodes w)) w w1 \<and> (w_nodes w p = Some (RegularFile b m0 t) \<longrightarrow>
    (\<exists>m'. w_nodes w1 p = Some (RegularFile b m' t) \<and> (r = None \<longrightarrow> m' = m)))"
proof -
  obtain a w2 where a: "next_answer w = (a, w2)" by (cases "next_answer w")
  show ?thesis using assms next_answer_nodes[OF a] safe_answer[OF a] safe_put[OF a]
    by (cases a) (auto simp: sys_fchmod_def a set_mode_def)
qed

lemma create_file:
  assumes "sys_create p w = (w1, r)"
  shows "safe (only_at p (w_nodes w)) w w1 \<and> (case r of Some e \<Rightarrow> w_nodes w1 = w_nodes w
    | None \<Rightarrow> w_nodes w p = None \<and> w_nodes w1 = (w_nodes w)(p \<mapsto> RegularFile [] 384 (w_now w)))"
proof -
  obtain a w2 where a: "next_answer w = (a, w2)" by (cases "next_answer w")
  show ?thesis using assms next_answer_nodes[OF a] safe_answer[OF a] safe_put[OF a]
    by (cases a) (auto simp: sys_create_def a split: if_splits)
qed

lemma remove_file:
  assumes "fs_remove p w = (w1, r)"
  shows "safe (only_at p (w_nodes w)) w w1 \<and> (case r of Some e \<Rightarrow> w_nodes w1 = w_nodes w
    | None \<Rightarrow> w_nodes w1 = (w_nodes w)(p := None))"
proof -
  obtain a w2 where a: "next_answer w = (a, w2)" by (cases "next_answer w")
  have n: "w_nodes w p = None \<Longrightarrow> (w_nodes w)(p := None) = w_nodes w" by (simp add: fun_upd_idem)
  show ?thesis using assms next_answer_nodes[OF a] safe_answer[OF a] safe_put[OF a] n
    by (cases a) (auto simp: fs_remove_def a split: if_splits)
qed

lemma removeTemporary_only_at: "safe (only_at p (w_nodes w)) w (removeTemporary p w)"
  using remove_file[of p w] by (cases "fs_remove p w") (simp add: removeTemporary_def)

lemma only_at_file: "only_at p old ns \<Longrightarrow> ns p = Some n \<Longrightarrow> ns = old(p \<mapsto> n)"
  by (auto simp: only_at_def)

text \<open>One attempt writes a complete new file with the mode asked for, or reports an error or a collision.\<close>

lemma writeAttempt_file:
  assumes "writeAttempt os dst bytes mode w = (w', r)"
  shows "\<exists>c. temp_of dst c \<and> safe (only_at c (w_nodes w)) w w' \<and>
    (case r of None \<Rightarrow> w_nodes w' = w_nodes w
     | Some (Inl e) \<Rightarrow> err_code e = StorageError
     | Some (Inr p) \<Rightarrow> p = c \<and> w_nodes w c = None \<and> (\<exists>t. w_nodes w' = (w_nodes w)(c \<mapsto> RegularFile bytes mode t)))"
proof -
  obtain w0 c where c: "temporaryCandidate dst w = (w0, c)" by fastforce
  note c' = temporaryCandidate_temp[OF c, of "only_at c (w_nodes w)"]
  obtain w1 x where x: "sys_create c w0 = (w1, x)" by fastforce
  note s1 = safe_only_at[of c w w0 w1] and cr = create_file[OF x]
  from s1 c' cr have s: "safe (only_at c (w_nodes w)) w w1" by simp
  show ?thesis
  proof (cases x)
    case (Some e)
    with assms c x have "w' = w1" "r = (if e = EEXIST then None else Some (fail StorageError
        (''cannot create temporary file '' @ squote @ c @ squote @ '': '' @ os_message os e)))"
      by (simp_all add: writeAttempt_def)
    with s c' cr Some show ?thesis by (intro exI[of _ c]) (auto simp: fail_def simp del: Inl_fold_fail)
  next
    case None
    with cr c' have n: "w_nodes w c = None" "w_nodes w1 c = Some (RegularFile [] 384 (w_now w0))" by simp_all
    obtain w2 e1 where l: "write_loop c bytes w1 = (w2, e1)" by fastforce
    from write_loop_file[OF l n(2)] obtain b2 t2 where
      f2: "w_nodes w2 c = Some (RegularFile b2 384 t2)" "e1 = None \<Longrightarrow> b2 = bytes" "safe (only_at c (w_nodes w1)) w1 w2" by auto
    obtain w3 e2 where h: "(if e1 = None then sys_fchmod c mode w2 else (w2, e1)) = (w3, e2)" by fastforce
    have f3: "safe (only_at c (w_nodes w2)) w2 w3" "e2 = None \<Longrightarrow> \<exists>t. w_nodes w3 c = Some (RegularFile bytes mode t)"
      using h f2(1,2) chmod_file[of c mode w2 w3 e2 b2 384 t2] by (auto split: if_splits)
    obtain w4 cl where d: "sys_close w3 = (w4, cl)" by fastforce
    note f4 = close_reads[OF d, of "only_at c (w_nodes w3)"]
    have s4: "safe (only_at c (w_nodes w)) w w4"
      using safe_only_at[OF safe_only_at[OF safe_only_at[OF s f2(3)] f3(1)]] f4 by simp
    define err where "err = (if e2 = None then cl else e2)"
    have a: "writeAttempt os dst bytes mode w = (case err of
        Some e \<Rightarrow> (removeTemporary c w4, Some (fail StorageError
           (''failed to write temporary file '' @ squote @ c @ squote @ '': '' @ os_message os e)))
      | None \<Rightarrow> (w4, Some (Inr c)))"
      unfolding writeAttempt_def c x[unfolded None] l h d err_def by (simp only: prod.case option.case c x[unfolded None] l h d)
    show ?thesis
    proof (cases err)
      case (Some e)
      with assms a safe_only_at[OF s4 removeTemporary_only_at] c' show ?thesis
        by (intro exI[of _ c]) (auto simp: fail_def simp del: Inl_fold_fail)
    next
      case None
      then have "e2 = None" by (simp add: err_def split: if_splits)
      with f3(2) f4 obtain t where "w_nodes w4 c = Some (RegularFile bytes mode t)" by auto
      moreover have "only_at c (w_nodes w) (w_nodes w4)" using safe_now[OF s4] by simp
      ultimately have "w_nodes w4 = (w_nodes w)(c \<mapsto> RegularFile bytes mode t)" by (intro only_at_file)
      with assms a None s4 n(1) c' show ?thesis by (intro exI[of _ c]) auto
    qed
  qed
qed

text \<open>What the attempts together leave alone: everything but temporary files.\<close>

definition keeps :: "path \<Rightarrow> fsys \<Rightarrow> fsys \<Rightarrow> bool" where
  "keeps dst old ns \<longleftrightarrow> (\<forall>q. \<not> temp_of dst q \<longrightarrow> ns q = old q)"

lemma keeps_refl [simp]: "keeps dst ns ns"
  by (simp add: keeps_def)

lemma keeps_only_at: "temp_of dst c \<Longrightarrow> only_at c old ns \<Longrightarrow> keeps dst old ns"
  by (auto simp: keeps_def only_at_def)

lemma keeps_trans: "keeps dst a b \<Longrightarrow> keeps dst b c \<Longrightarrow> keeps dst a c"
  by (simp add: keeps_def)

lemma safe_keeps: "safe (keeps dst (w_nodes w)) w w1 \<Longrightarrow> safe (keeps dst (w_nodes w1)) w1 w2 \<Longrightarrow> safe (keeps dst (w_nodes w)) w w2"
  using safe_trans[of "keeps dst (w_nodes w)" w w1 w2] safe_mono[of "keeps dst (w_nodes w1)" w1 w2 "keeps dst (w_nodes w)"]
    safe_now[of "keeps dst (w_nodes w)" w w1] keeps_trans by (metis keeps_refl)

definition wrote :: "path \<Rightarrow> string \<Rightarrow> nat \<Rightarrow> world \<Rightarrow> world \<Rightarrow> error + path \<Rightarrow> bool" where
  "wrote dst bytes mode w w' r \<longleftrightarrow> safe (keeps dst (w_nodes w)) w w' \<and> (case r of
     Inl e \<Rightarrow> err_code e = StorageError
   | Inr c \<Rightarrow> temp_of dst c \<and> w_nodes w c = None \<and> (\<exists>t. w_nodes w' = (w_nodes w)(c \<mapsto> RegularFile bytes mode t)))"

lemma writeAttempts_file: "writeAttempts os k dst bytes mode w = (w', r) \<Longrightarrow> wrote dst bytes mode w w' r"
proof (induction k arbitrary: w)
  case 0
  then show ?case by (auto simp: wrote_def fail_def simp del: Inl_fold_fail)
next
  case (Suc k)
  obtain w1 x where x: "writeAttempt os dst bytes mode w = (w1, x)" by fastforce
  from writeAttempt_file[OF x] obtain c where c: "temp_of dst c" "safe (only_at c (w_nodes w)) w w1"
    "case x of None \<Rightarrow> w_nodes w1 = w_nodes w | Some (Inl e) \<Rightarrow> err_code e = StorageError
     | Some (Inr p) \<Rightarrow> p = c \<and> w_nodes w c = None \<and> (\<exists>t. w_nodes w1 = (w_nodes w)(c \<mapsto> RegularFile bytes mode t))" by blast
  have s: "safe (keeps dst (w_nodes w)) w w1" using safe_mono[OF c(2)] keeps_only_at[OF c(1)] by blast
  show ?case
  proof (cases x)
    case None
    with Suc.prems x have "writeAttempts os k dst bytes mode w1 = (w', r)" by simp
    from Suc.IH[OF this] c(3) None safe_keeps[OF s] show ?thesis by (auto simp: wrote_def split: sum.splits)
  next
    case (Some y)
    with Suc.prems x c(1,3) s show ?thesis by (auto simp: wrote_def split: sum.splits)
  qed
qed

text \<open>The mode the new file gets: that of the source of permissions, and 0600 only when there is none.\<close>

definition new_mode :: "fsys \<Rightarrow> path \<Rightarrow> nat \<Rightarrow> bool" where
  "new_mode ns source mode \<longleftrightarrow> mode = (case ns source of None \<Rightarrow> 384 | Some n \<Rightarrow> node_mode n)"

lemma writeTemporary_file:
  assumes "writeTemporary os dst bytes source w = (w', r)"
  shows "\<exists>mode. new_mode (w_nodes w) source mode \<and> wrote dst bytes mode w w' r"
proof -
  obtain w1 x where x: "sys_stat source w = (w1, x)" by fastforce
  note s = stat_reads[OF x, of "keeps dst (w_nodes w)"]
  have mode: "x = Inr n \<Longrightarrow> w_nodes w source = Some n" for n
    using x by (cases "next_answer w") (auto simp: sys_stat_def split: answer.splits option.splits)
  have none: "x = Inl ENOENT \<Longrightarrow> w_nodes w source = None"
    using x by (cases "next_answer w") (auto simp: sys_stat_def environment_error_def split: answer.splits option.splits if_splits)
  have lift: "wrote dst bytes mode w1 w' r \<Longrightarrow> wrote dst bytes mode w w' r" for mode
    using s safe_keeps[of dst w w1 w'] by (auto simp: wrote_def split: sum.splits)
  show ?thesis
  proof (cases x)
    case (Inl e)
    show ?thesis
    proof (cases "e = ENOENT")
      case True
      with assms x Inl have "writeAttempts os 100 dst bytes 384 w1 = (w', r)" by (simp add: writeTemporary_def)
      from lift[OF writeAttempts_file[OF this]] none[OF Inl[unfolded True]] show ?thesis by (auto simp: new_mode_def)
    next
      case False
      with assms x Inl s show ?thesis
        by (intro exI[of _ "case w_nodes w source of None \<Rightarrow> 384 | Some n \<Rightarrow> node_mode n"])
          (auto simp: writeTemporary_def new_mode_def wrote_def fail_def simp del: Inl_fold_fail)
    qed
  next
    case (Inr n)
    with assms x have "writeAttempts os 100 dst bytes (node_mode n) w1 = (w', r)" by (simp add: writeTemporary_def)
    from lift[OF writeAttempts_file[OF this]] mode[OF Inr] show ?thesis by (auto simp: new_mode_def)
  qed
qed

section \<open>Publishing\<close>

text \<open>\<open>published\<close>: apart from temporary files, the destination is the new file and the rest is as before.\<close>

definition published :: "path \<Rightarrow> string \<Rightarrow> nat \<Rightarrow> fsys \<Rightarrow> fsys \<Rightarrow> bool" where
  "published dst bytes mode old ns \<longleftrightarrow> (\<exists>t. \<forall>q. \<not> temp_of dst q \<longrightarrow> ns q = (old(dst \<mapsto> RegularFile bytes mode t)) q)"

text \<open>At every moment one of the two; at the end the one the result names, without a temporary file on success.\<close>

definition atomic_for :: "(fsys \<Rightarrow> path \<Rightarrow> nat \<Rightarrow> bool) \<Rightarrow> path \<Rightarrow> string \<Rightarrow> path \<Rightarrow> world \<Rightarrow> world \<Rightarrow> error + unit \<Rightarrow> bool" where
  "atomic_for ok dst bytes source w w' r \<longleftrightarrow> (\<exists>mode. ok (w_nodes w) source mode \<and>
     safe (\<lambda>ns. keeps dst (w_nodes w) ns \<or> published dst bytes mode (w_nodes w) ns) w w' \<and>
     (case r of Inl e \<Rightarrow> err_code e = StorageError \<and> keeps dst (w_nodes w) (w_nodes w')
      | Inr _ \<Rightarrow> \<exists>t. w_nodes w' = (w_nodes w)(dst \<mapsto> RegularFile bytes mode t)))"

definition unchanged :: "world \<Rightarrow> world \<Rightarrow> bool" where
  "unchanged w w' \<longleftrightarrow> w_nodes w' = w_nodes w \<and> w_log w' = w_log w"

lemma unchanged_safe: "unchanged w w' \<Longrightarrow> safe P w w'"
  by (simp add: unchanged_def safe_def)

text \<open>
  What the operations rely on of the two functions of a platform: writing leaves a complete new
  temporary file or reports an error, and replacing is one step that happens or does not. \<open>ok\<close> is
  what the platform promises of the mode of the new file.
\<close>

locale file_replacement =
  fixes write_temp :: write_file and replace :: replace_file and ok :: "fsys \<Rightarrow> path \<Rightarrow> nat \<Rightarrow> bool"
  assumes write_law: "write_temp dst bytes source w = (w', r) \<Longrightarrow> \<exists>mode. ok (w_nodes w) source mode \<and> wrote dst bytes mode w w' r"
    and replace_law: "replace c dst w = (w', x) \<Longrightarrow> w_nodes w c = Some n \<Longrightarrow> (case x of
        Inl e \<Rightarrow> err_code e = StorageError \<and> unchanged w w'
      | Inr _ \<Rightarrow> w_nodes w' = (w_nodes w)(c := None, dst \<mapsto> n) \<and> w_log w' = w_log w @ [w_nodes w'])"
    and ok_local: "ok ns source mode \<Longrightarrow> ns' source = ns source \<Longrightarrow> ok ns' source mode"
    and ok_new: "\<exists>mode. ok ns source mode"
begin

lemma publish_law:
  assumes "publish_with write_temp replace dst bytes source w = (w', r)"
  shows "atomic_for ok dst bytes source w w' r"
proof -
  obtain w1 x where x: "write_temp dst bytes source w = (w1, x)" by fastforce
  from write_law[OF x] obtain mode where m: "ok (w_nodes w) source mode" "wrote dst bytes mode w w1 x" by blast
  let ?P = "\<lambda>ns. keeps dst (w_nodes w) ns \<or> published dst bytes mode (w_nodes w) ns"
  have s: "safe (keeps dst (w_nodes w)) w w1" using m(2) by (simp add: wrote_def)
  have s': "safe ?P w w1" by (rule safe_mono[OF s]) simp
  show ?thesis
  proof (cases x)
    case (Inl e)
    with assms x have w': "w' = w1" "r = Inl e" by (simp_all add: publish_with_def)
    have "err_code e = StorageError" "keeps dst (w_nodes w) (w_nodes w1)"
      using m(2) Inl safe_now[OF s keeps_refl] by (simp_all add: wrote_def)
    with m(1) s' show ?thesis unfolding atomic_for_def w' by (intro exI[of _ mode]) simp
  next
    case (Inr c)
    with m(2) obtain t where c: "temp_of dst c" "w_nodes w c = None" "w_nodes w1 = (w_nodes w)(c \<mapsto> RegularFile bytes mode t)"
      by (auto simp: wrote_def)
    have cd: "c \<noteq> dst" using c(1) temp_of_irrefl by blast
    let ?new = "(w_nodes w)(dst \<mapsto> RegularFile bytes mode t)"
    have new: "(w_nodes w1)(c := None, dst \<mapsto> RegularFile bytes mode t) = ?new" using c(2,3) cd by (auto simp: fun_eq_iff)
    have pub: "published dst bytes mode (w_nodes w) ?new" unfolding published_def by blast
    obtain w3 y where y: "replace c dst w1 = (w3, y)" by fastforce
    note rep = replace_law[OF y, of "RegularFile bytes mode t", unfolded new]
    show ?thesis
    proof (cases y)
      case (Inr u)
      with rep c(3) have n: "w_nodes w3 = ?new" "w_log w3 = w_log w1 @ [?new]" by simp_all
      then have "safe ?P w1 w3" using pub unfolding safe_def by (intro exI[of _ "[?new]"]) simp
      moreover have "w' = w3" "r = Inr ()" using assms x \<open>x = Inr c\<close> y Inr by (simp_all add: publish_with_def)
      ultimately show ?thesis using m(1) n(1) safe_trans[OF s'] unfolding atomic_for_def by (intro exI[of _ mode]) auto
    next
      case (Inl e)
      with rep c(3) have e: "err_code e = StorageError" "unchanged w1 w3" by simp_all
      have w': "w' = removeTemporary c w3" "r = Inl e" using assms x \<open>x = Inr c\<close> y Inl by (simp_all add: publish_with_def)
      have k3: "keeps dst (w_nodes w) (w_nodes w3)" using e(2) safe_now[OF s] by (simp add: unchanged_def)
      have s4: "safe (keeps dst (w_nodes w)) w3 w'"
        using safe_mono[OF removeTemporary_only_at[of c w3]] keeps_only_at[OF c(1)] keeps_trans[OF k3] unfolding w' by blast
      have "safe ?P w w'" using safe_trans[OF safe_trans[OF s' unchanged_safe[OF e(2)]] safe_mono[OF s4, of ?P]] by simp
      with m(1) e(1) w'(2) safe_now[OF s4 k3] show ?thesis unfolding atomic_for_def by (intro exI[of _ mode]) auto
    qed
  qed
qed

end

text \<open>POSIX is such a platform.\<close>

lemma replaceFile_file:
  assumes "replaceFile os c dst w = (w', r)" "w_nodes w c = Some n"
  shows "case r of Inl e \<Rightarrow> err_code e = StorageError \<and> unchanged w w'
    | Inr _ \<Rightarrow> w_nodes w' = (w_nodes w)(c := None, dst \<mapsto> n) \<and> w_log w' = w_log w @ [w_nodes w']"
proof -
  obtain a w2 where a: "next_answer w = (a, w2)" by (cases "next_answer w")
  show ?thesis using assms next_answer_nodes[OF a]
    by (cases a) (auto simp: replaceFile_def sys_rename_def a unchanged_def fail_def simp del: Inl_fold_fail split: if_splits)
qed

interpretation posix: file_replacement "writeTemporary os" "replaceFile os" new_mode for os
proof
  show "\<exists>mode. new_mode (w_nodes w) source mode \<and> wrote dst bytes mode w w' r"
    if "writeTemporary os dst bytes source w = (w', r)" for dst bytes source w w' r by (rule writeTemporary_file[OF that])
  show "case r of Inl e \<Rightarrow> err_code e = StorageError \<and> unchanged w w'
      | Inr _ \<Rightarrow> w_nodes w' = (w_nodes w)(c := None, dst \<mapsto> n) \<and> w_log w' = w_log w @ [w_nodes w']"
    if "replaceFile os c dst w = (w', r)" "w_nodes w c = Some n" for c dst w w' r n by (rule replaceFile_file[OF that])
qed (auto simp: new_mode_def)

lemmas publish_atomic = posix.publish_law[folded publish_def]

section \<open>Commit\<close>

text \<open>A destination the directories above it do not contain.\<close>

definition proper_file :: "path \<Rightarrow> bool" where
  "proper_file p \<longleftrightarrow> filename p \<noteq> [] \<and> p \<noteq> ''.''"

lemma ancestors_shorter: "q \<in> set (ancestors p) \<Longrightarrow> q = p \<or> length q < length p"
proof (induction p rule: ancestors.induct)
  case (1 p)
  then show ?case by (subst (asm) ancestors.simps) (auto split: if_splits)
qed

lemma parent_shorter: "filename p \<noteq> [] \<Longrightarrow> length (parent_path p) < length p"
proof -
  assume f: "filename p \<noteq> []"
  let ?d = "dropWhile (\<lambda>c. c \<noteq> CHR ''/'') (rev p)"
  let ?t = "takeWhile (\<lambda>c. c \<noteq> CHR ''/'') (rev p)"
  have "length (?t @ ?d) = length (rev p)" by (simp only: takeWhile_dropWhile_id)
  then have "length ?t + length ?d = length p" by (simp only: length_append length_rev)
  moreover have "?t \<noteq> []" using f by (simp only: filename_def rev_is_Nil_conv not_False_eq_True)
  then have "0 < length ?t" by (simp only: length_greater_0_conv not_False_eq_True)
  ultimately have "length ?d < length p" by linarith
  moreover define d where "d = ?d"
  moreover define s where "s = dropWhile (\<lambda>c. c = CHR ''/'') d"
  moreover have "length s \<le> length d" unfolding s_def by (rule length_dropWhile_le)
  moreover have "parent_path p = (if d \<noteq> [] \<and> s = [] then ''/'' else rev s)"
    unfolding parent_path_def Let_def d_def s_def ..
  ultimately have l: "length d < length p" "length s \<le> length d" "parent_path p = (if d \<noteq> [] \<and> s = [] then ''/'' else rev s)"
    by (simp_all only:)
  then show ?thesis by (cases d) auto
qed

lemma proper_file_above: "proper_file p \<Longrightarrow> p \<notin> set (ancestors (parentOrCurrent p))"
proof
  assume p: "proper_file p" "p \<in> set (ancestors (parentOrCurrent p))"
  from p(1) have f: "filename p \<noteq> []" "p \<noteq> ''.''" by (simp_all add: proper_file_def)
  show False
  proof (cases "parent_path p = []")
    case True
    with ancestors_shorter[OF p(2)] f(2) have "p = []" by (simp add: parentOrCurrent_def)
    with f(1) show False by (simp add: filename_def)
  next
    case False
    with ancestors_shorter[OF p(2)] parent_shorter[OF f(1)] show False by (auto simp: parentOrCurrent_def)
  qed
qed

text \<open>
  What both operations promise of their destination: at every moment the old node or the complete
  new file, nothing else changes but temporary files and missing directories, and the result says
  which of the two it is.
\<close>

definition replaces_for :: "(fsys \<Rightarrow> path \<Rightarrow> nat \<Rightarrow> bool) \<Rightarrow> path \<Rightarrow> path list \<Rightarrow> string \<Rightarrow> path \<Rightarrow> world \<Rightarrow> world \<Rightarrow> error + unit \<Rightarrow> bool" where
  "replaces_for ok dst dirs bytes source w w' r \<longleftrightarrow> (\<exists>mode. ok (w_nodes w) source mode \<and>
     safe (\<lambda>ns. (ns dst = w_nodes w dst \<or> (\<exists>t. ns dst = Some (RegularFile bytes mode t))) \<and>
       (\<forall>q. q \<noteq> dst \<longrightarrow> \<not> temp_of dst q \<longrightarrow> ns q = w_nodes w q \<or> (q \<in> set dirs \<and> ns q = Some Directory))) w w' \<and>
     (case r of Inl e \<Rightarrow> err_code e = StorageError \<and> w_nodes w' dst = w_nodes w dst
      | Inr _ \<Rightarrow> (\<exists>t. w_nodes w' dst = Some (RegularFile bytes mode t)) \<and>
          (\<forall>q. q \<noteq> dst \<longrightarrow> w_nodes w' q = w_nodes w q \<or> (q \<in> set dirs \<and> w_nodes w' q = Some Directory))))"

abbreviation replaces :: "path \<Rightarrow> path list \<Rightarrow> string \<Rightarrow> path \<Rightarrow> world \<Rightarrow> world \<Rightarrow> error + unit \<Rightarrow> bool" where
  "replaces \<equiv> replaces_for new_mode"

lemmas replaces_def = replaces_for_def[of new_mode]

context file_replacement
begin

lemma error_atomic: "atomic_for ok dst bytes source w w (fail StorageError z)"
  using ok_new[of "w_nodes w" source] unfolding atomic_for_def by (auto simp: fail_def simp del: Inl_fold_fail)

lemma after_directories:
  assumes "safe (made_directories dirs (w_nodes w)) w w1" "dst \<notin> set dirs" "atomic_for ok dst bytes source w1 w' r"
    and "source \<in> set dirs \<Longrightarrow> w_nodes w1 source = w_nodes w source"
  shows "replaces_for ok dst dirs bytes source w w' r"
proof -
  have m: "made_directories dirs (w_nodes w) (w_nodes w1)" using safe_now[OF assms(1)] by (simp add: made_directories_def)
  have dst: "w_nodes w1 dst = w_nodes w dst" using m assms(2) unfolding made_directories_def by blast
  from assms(3) obtain mode where a: "ok (w_nodes w1) source mode"
    "safe (\<lambda>ns. keeps dst (w_nodes w1) ns \<or> published dst bytes mode (w_nodes w1) ns) w1 w'"
    "case r of Inl e \<Rightarrow> err_code e = StorageError \<and> keeps dst (w_nodes w1) (w_nodes w')
      | Inr _ \<Rightarrow> \<exists>t. w_nodes w' = (w_nodes w1)(dst \<mapsto> RegularFile bytes mode t)" unfolding atomic_for_def by blast
  let ?Q = "\<lambda>ns. (ns dst = w_nodes w dst \<or> (\<exists>t. ns dst = Some (RegularFile bytes mode t))) \<and>
       (\<forall>q. q \<noteq> dst \<longrightarrow> \<not> temp_of dst q \<longrightarrow> ns q = w_nodes w q \<or> (q \<in> set dirs \<and> ns q = Some Directory))"
  have 1: "safe ?Q w w1"
    by (rule safe_mono[OF assms(1)]) (use assms(2) in \<open>auto simp: made_directories_def\<close>)
  have 2: "safe ?Q w1 w'"
  proof (rule safe_mono[OF a(2)])
    fix ns assume "keeps dst (w_nodes w1) ns \<or> published dst bytes mode (w_nodes w1) ns"
    then show "?Q ns" using dst m temp_of_irrefl[of dst] unfolding keeps_def published_def made_directories_def by auto
  qed
  have s: "ok (w_nodes w) source mode"
    by (rule ok_local[OF a(1)]) (use m assms(4) in \<open>metis made_directories_def\<close>)
  have r: "case r of Inl e \<Rightarrow> err_code e = StorageError \<and> w_nodes w' dst = w_nodes w dst
      | Inr _ \<Rightarrow> (\<exists>t. w_nodes w' dst = Some (RegularFile bytes mode t)) \<and>
          (\<forall>q. q \<noteq> dst \<longrightarrow> w_nodes w' q = w_nodes w q \<or> (q \<in> set dirs \<and> w_nodes w' q = Some Directory))"
    using a(3) dst m temp_of_irrefl[of dst] unfolding keeps_def made_directories_def by (cases r) auto
  show ?thesis unfolding replaces_for_def using safe_trans[OF 1 2] s r by blast
qed

lemma commit_law:
  assumes "cpCommitImpl (publish_with write_temp replace) os opts config be w = (w', r)" and "proper_file (canonical_path opts)"
  shows "case saveBytes config be of
      Bad_alloc \<Rightarrow> r = Bad_alloc \<and> w' = w
    | Ret (Inl e) \<Rightarrow> r = Ret (Inl e) \<and> w' = w
    | Ret (Inr bytes) \<Rightarrow> \<exists>r'. r = Ret r' \<and>
        replaces_for ok (canonical_path opts) (ancestors (parentOrCurrent (canonical_path opts))) bytes (canonical_path opts) w w' r'"
proof (cases "saveBytes config be")
  case Bad_alloc
  with assms show ?thesis by (simp add: cpCommitImpl_def)
next
  case (Ret x)
  show ?thesis
  proof (cases x)
    case (Inl e)
    with Ret assms show ?thesis by (simp add: cpCommitImpl_def)
  next
    case (Inr bytes)
    let ?dst = "canonical_path opts" and ?dirs = "ancestors (parentOrCurrent (canonical_path opts))"
    obtain w1 c where c: "fs_create_directories (parentOrCurrent ?dst) w = (w1, c)" by fastforce
    note m = create_directories(1)[OF c] and above = proper_file_above[OF assms(2)]
    show ?thesis
    proof (cases c)
      case None
      obtain w2 y where y: "publish_with write_temp replace ?dst bytes ?dst w1 = (w2, y)" by fastforce
      from after_directories[OF m above publish_law[OF y]] above
      have "replaces_for ok ?dst ?dirs bytes ?dst w w2 y" by blast
      with assms(1) Ret Inr c None y show ?thesis by (auto simp: cpCommitImpl_def Let_def)
    next
      case (Some e)
      from after_directories[OF m above error_atomic] above
      have "replaces_for ok ?dst ?dirs bytes ?dst w w1 (fail StorageError z)" for z by blast
      with assms(1) Ret Inr c Some show ?thesis by (auto simp: cpCommitImpl_def Let_def)
    qed
  qed
qed

end

lemma commit_replaces:
  assumes "cpCommit os opts config be w = (w', r)" and "proper_file (canonical_path opts)"
  shows "case saveBytes config be of
      Bad_alloc \<Rightarrow> r = Bad_alloc \<and> w' = w
    | Ret (Inl e) \<Rightarrow> r = Ret (Inl e) \<and> w' = w
    | Ret (Inr bytes) \<Rightarrow> \<exists>r'. r = Ret r' \<and>
        replaces (canonical_path opts) (ancestors (parentOrCurrent (canonical_path opts))) bytes (canonical_path opts) w w' r'"
  by (rule posix.commit_law[OF assms(1)[unfolded public_operations publish_def] assms(2)])

section \<open>Capture\<close>

lemma read_loop_step:
  assumes "next_answer w = (a, w2)" "\<And>e. a \<noteq> Fails e"
  shows "read_loop p m b u w = (if length (take kBufferSize u) > (m + 2 ^ 64 - length b) mod 2 ^ 64
     then (w2, fail StorageError (''file '' @ squote @ p @ squote @ '' exceeds size limit ('' @ nat_str m @ '' bytes)''))
     else if length (take kBufferSize u) < kBufferSize then (w2, Inr (b @ take kBufferSize u))
     else read_loop p m (b @ take kBufferSize u) (drop kBufferSize u) w2)"
proof (cases a)
  case (Fails e)
  with assms(2) show ?thesis by blast
qed (simp_all only: read_loop.simps[of p m b u w] assms(1) prod.case Let_def answer.case)

lemma read_loop_reads: "read_loop p m b u w = (w1, r) \<Longrightarrow> w_nodes w1 = w_nodes w \<and> w_log w1 = w_log w"
proof (induction "length u" arbitrary: b u w rule: less_induct)
  case less
  obtain a w2 where a: "next_answer w = (a, w2)" by (cases "next_answer w")
  note n = next_answer_nodes[OF a]
  show ?case
  proof (cases "\<exists>e. a = Fails e")
    case True
    with less(2) n show ?thesis by (auto simp: read_loop.simps[of p m b u w] a Let_def split: if_splits)
  next
    case False
    then have "a \<noteq> Fails e" for e by blast
    note s = less(2)[unfolded read_loop_step[OF a this]]
    consider "length (take kBufferSize u) > (m + 2 ^ 64 - length b) mod 2 ^ 64 \<or> length (take kBufferSize u) < kBufferSize"
      | "\<not> length (take kBufferSize u) > (m + 2 ^ 64 - length b) mod 2 ^ 64" "\<not> length (take kBufferSize u) < kBufferSize" by blast
    then show ?thesis
    proof cases
      case 1
      with s n show ?thesis by (auto split: if_splits)
    next
      case 2
      then have "length (drop kBufferSize u) < length u" by (cases u) (simp_all add: kBufferSize_def)
      from less(1)[OF this s[unfolded if_not_P[OF 2(1)] if_not_P[OF 2(2)]]] n show ?thesis by simp
    qed
  qed
qed

lemma readFileBytes_reads: "readFileBytes p m w = (w1, r) \<Longrightarrow> safe P w w1 \<and> w_nodes w1 = w_nodes w"
proof -
  assume r: "readFileBytes p m w = (w1, r)"
  obtain a w2 where a: "next_answer w = (a, w2)" by (cases "next_answer w")
  have "w_nodes w1 = w_nodes w \<and> w_log w1 = w_log w"
    using r next_answer_nodes[OF a]
    by (cases a) (auto simp: readFileBytes_def a Let_def dest: read_loop_reads split: option.splits fs_node.splits)
  then show ?thesis by (simp add: safe_def)
qed

text \<open>What was read is the whole file, within the limit.\<close>

lemma read_loop_bytes:
  "read_loop p m b u w = (w1, Inr bytes) \<Longrightarrow> length b \<le> m \<Longrightarrow> m < 2 ^ 64 \<Longrightarrow> bytes = b @ u \<and> length bytes \<le> m"
proof (induction "length u" arbitrary: b u w rule: less_induct)
  case less
  obtain a w2 where a: "next_answer w = (a, w2)" by (cases "next_answer w")
  have room: "(m + 2 ^ 64 - length b) mod 2 ^ 64 = m - length b" using less(3,4) by (simp add: le_mod_geq)
  show ?case
  proof (cases "\<exists>e. a = Fails e")
    case True
    with less(2) show ?thesis by (auto simp: read_loop.simps[of p m b u w] a Let_def split: if_splits)
  next
    case False
    then have "a \<noteq> Fails e" for e by blast
    note s = less(2)[unfolded read_loop_step[OF a this] room]
    from s have fit: "\<not> length (take kBufferSize u) > m - length b" by (auto split: if_splits)
    show ?thesis
    proof (cases "length (take kBufferSize u) < kBufferSize")
      case True
      then have "take kBufferSize u = u" by simp
      with s[unfolded if_not_P[OF fit] if_P[OF True]] fit less(3) show ?thesis by (simp only: prod.inject sum.inject) auto
    next
      case False
      then have l: "length (drop kBufferSize u) < length u" by (cases u) (simp_all add: kBufferSize_def)
      have "length (b @ take kBufferSize u) \<le> m" using fit less(3) unfolding length_append not_less by linarith
      from less(1)[OF l s[unfolded if_not_P[OF fit] if_not_P[OF False]] this less(4)]
      show ?thesis unfolding append_assoc append_take_drop_id .
    qed
  qed
qed

lemma readFileBytes_bytes:
  assumes "readFileBytes p m w = (w1, Inr bytes)" "m < 2 ^ 64"
  shows "\<exists>mode t. w_nodes w p = Some (RegularFile bytes mode t) \<and> length bytes \<le> m"
proof -
  obtain a w2 where a: "next_answer w = (a, w2)" by (cases "next_answer w")
  show ?thesis using assms read_loop_bytes[of p m "[]"]
    by (cases a) (auto simp: readFileBytes_def a Let_def split: option.splits fs_node.splits)
qed

text \<open>Entries of a directory that is not written with a trailing slash.\<close>

lemma entry_parent:
  assumes "CHR ''/'' \<notin> set q" "dir \<noteq> []" "last dir \<noteq> CHR ''/''"
  shows "parentOrCurrent (append_path dir q) = dir"
proof -
  obtain d x where dx: "dir = d @ [x]" "x \<noteq> CHR ''/''" using assms(2,3) by (cases dir rule: rev_cases) auto
  have a: "append_path dir q = dir @ CHR ''/'' # q"
    using assms by (cases q) (auto simp: append_path_def)
  have "dropWhile (\<lambda>c. c \<noteq> CHR ''/'') (rev (append_path dir q)) = CHR ''/'' # rev dir"
    using assms(1) unfolding a by (subst rev_append, subst rev.simps, subst append_assoc, subst dropWhile_append2) auto
  then have "parent_path (append_path dir q) = dir" using dx by (simp add: parent_path_def)
  then show ?thesis using assms(2) by (simp add: parentOrCurrent_def)
qed

lemma entry_not_above:
  assumes "dir \<noteq> []" "last dir \<noteq> CHR ''/''" "CHR ''/'' \<notin> set q"
  shows "append_path dir q \<notin> set (ancestors dir)"
proof -
  have "length dir < length (append_path dir q)" using assms by (cases q) (auto simp: append_path_def)
  with ancestors_shorter[of "append_path dir q" dir] show ?thesis by auto
qed

lemma temp_of_sibling:
  assumes "temp_of (append_path dir f) q" "CHR ''/'' \<notin> set f" "dir \<noteq> []" "last dir \<noteq> CHR ''/''"
  shows "parentOrCurrent q = dir"
proof -
  from assms(1) obtain s where s: "CHR ''/'' \<notin> set s"
    "q = append_path (parentOrCurrent (append_path dir f)) (filename (append_path dir f) @ ''.tmp.'' @ s)"
    unfolding temp_of_def by blast
  have "q = append_path dir (f @ ''.tmp.'' @ s)"
    unfolding s(2) entry_parent[OF assms(2-4)] filename_append[OF assms(2)] ..
  moreover have "CHR ''/'' \<notin> set (f @ ''.tmp.'' @ s)" using s(1) assms(2) by simp
  ultimately show ?thesis using entry_parent assms(3,4) by blast
qed

lemma extension_no_slash: "CHR ''/'' \<notin> set (extension p)"
  using filename_no_slash[of p] by (auto simp: extension_def dest: in_set_dropD)

lemma checkpointFilename_no_slash: "CHR ''/'' \<notin> set ext \<Longrightarrow> CHR ''/'' \<notin> set (checkpointFilename v ext)"
  using nat_str_digits[of "CHR ''/''" "unat v"] by (auto simp: checkpointFilename_def Let_def is_digit_def)

definition checkpoint_path :: "checkpoint_options \<Rightarrow> version_id \<Rightarrow> path" where
  "checkpoint_path opts v = append_path (checkpoint_directory opts) (checkpointFilename v (extension (canonical_path opts)))"

text \<open>What \<open>cpCreate\<close> checks, with a directory named without a trailing slash.\<close>

definition separate :: "checkpoint_options \<Rightarrow> bool" where
  "separate opts \<longleftrightarrow> checkpoint_directory opts \<noteq> [] \<and> last (checkpoint_directory opts) \<noteq> CHR ''/'' \<and>
     parentOrCurrent (canonical_path opts) \<noteq> checkpoint_directory opts"

lemma separate_checkpoint:
  assumes "separate opts"
  shows "canonical_path opts \<noteq> checkpoint_path opts v" "\<not> temp_of (checkpoint_path opts v) (canonical_path opts)"
    "checkpoint_path opts v \<notin> set (ancestors (checkpoint_directory opts))"
proof -
  let ?f = "checkpointFilename v (extension (canonical_path opts))"
  have f: "CHR ''/'' \<notin> set ?f" by (intro checkpointFilename_no_slash extension_no_slash)
  from assms have d: "checkpoint_directory opts \<noteq> []" "last (checkpoint_directory opts) \<noteq> CHR ''/''"
    "parentOrCurrent (canonical_path opts) \<noteq> checkpoint_directory opts" by (simp_all add: separate_def)
  show "canonical_path opts \<noteq> checkpoint_path opts v" using entry_parent[OF f d(1,2)] d(3) unfolding checkpoint_path_def by metis
  show "\<not> temp_of (checkpoint_path opts v) (canonical_path opts)"
    using temp_of_sibling[OF _ f d(1,2)] d(3) unfolding checkpoint_path_def by blast
  show "checkpoint_path opts v \<notin> set (ancestors (checkpoint_directory opts))"
    unfolding checkpoint_path_def by (rule entry_not_above[OF d(1,2) f])
qed

text \<open>No name in the checkpoint directory is the canonical file.\<close>

lemma separate_entry:
  assumes "separate opts" "CHR ''/'' \<notin> set f"
  shows "append_path (checkpoint_directory opts) f \<noteq> canonical_path opts"
  using entry_parent[OF assms(2), of "checkpoint_directory opts"] assms(1) by (auto simp: separate_def)

text \<open>Which options \<open>cpCreate\<close> accepts, and what it makes of them.\<close>

lemma create_accepts:
  "cpCreate weakly_canonical opts = Inr opts' \<longleftrightarrow> canonical_path opts \<noteq> [] \<and> checkpoint_directory opts \<noteq> [] \<and>
     (\<exists>c d. weakly_canonical (canonical_path opts) = Inr c \<and> weakly_canonical (checkpoint_directory opts) = Inr d \<and>
        parentOrCurrent c \<noteq> d \<and> opts' = opts\<lparr>canonical_path := c, checkpoint_directory := d\<rparr>)"
  by (auto simp: cpCreate_def validateOptions_def storageException_def fail_def simp del: Inl_fold_fail split: sum.splits)

lemma create_rejects: "cpCreate weakly_canonical opts = Inl e \<Longrightarrow> err_code e = StorageError"
  by (auto simp: cpCreate_def validateOptions_def storageException_def fail_def simp del: Inl_fold_fail split: sum.splits if_splits)

lemma create_separate:
  "cpCreate weakly_canonical opts = Inr opts' \<Longrightarrow>
     separate opts' \<longleftrightarrow> checkpoint_directory opts' \<noteq> [] \<and> last (checkpoint_directory opts') \<noteq> CHR ''/''"
  unfolding create_accepts separate_def by auto

lemma create_directories_file:
  assumes "fs_create_directories p w = (w1, r)" and f: "w_nodes w q = Some (RegularFile b m t)"
  shows "safe (\<lambda>ns. ns q = w_nodes w q) w w1"
proof (cases "q \<in> set (ancestors p)")
  case False
  then show ?thesis by (intro safe_mono[OF create_directories(1)[OF assms(1)]]) (auto simp: made_directories_def)
next
  case True
  obtain a w2 where a: "next_answer w = (a, w2)" by (cases "next_answer w")
  have "list_ex (\<lambda>q. w_nodes w q \<noteq> None \<and> w_nodes w q \<noteq> Some Directory) (ancestors p)" using True f by (auto simp: list_ex_iff)
  then have "w1 = w2" using assms(1) by (cases a) (simp_all add: fs_create_directories_def a)
  then show ?thesis using safe_answer[OF a] by simp
qed

lemma fs_exists_answer: "fs_exists p w = (w1, Inr b) \<Longrightarrow> b \<longleftrightarrow> w_nodes w p \<noteq> None"
  by (cases "next_answer w") (auto simp: fs_exists_def sys_stat_def environment_error_def split: option.splits if_splits answer.splits)

text \<open>The steps of capture after the version check.\<close>

definition capture_tail :: "publisher \<Rightarrow> os \<Rightarrow> checkpoint_options \<Rightarrow> version_id \<Rightarrow> string \<Rightarrow> world \<Rightarrow> world \<times> (error + unit) flow" where
  "capture_tail pub os opts version bytes w1 = (case fs_create_directories (checkpoint_directory opts) w1 of
      (w2, Some e) \<Rightarrow> (w2, Ret (fail StorageError
        (storageErrorMessage os ''cannot create checkpoint directory'' (checkpoint_directory opts) e)))
    | (w2, None) \<Rightarrow>
        (case fs_exists (checkpoint_path opts version) w2 of
           (w3, Inl e) \<Rightarrow> (w3, Ret (fail StorageError (storageErrorMessage os ''cannot inspect checkpoint'' (checkpoint_path opts version) e)))
         | (w3, Inr destination_exists) \<Rightarrow>
             (case pub (checkpoint_path opts version) bytes
                 (if destination_exists then checkpoint_path opts version else canonical_path opts) w3 of
                (w4, r) \<Rightarrow> (w4, Ret r))))"

lemma cpCaptureImpl_unfold:
  "cpCaptureImpl pub os opts config be w = (case readFileBytes (canonical_path opts) (max_file_bytes opts) w of
     (w1, Inl e) \<Rightarrow> (w1, Ret (Inl e))
   | (w1, Inr bytes) \<Rightarrow> (case loadBytes bytes be of
       Bad_alloc \<Rightarrow> (w1, Bad_alloc)
     | Ret (Inl e) \<Rightarrow> (w1, Ret (Inl e))
     | Ret (Inr loaded) \<Rightarrow>
         (if vc_version loaded \<noteq> vc_version config
          then (w1, Ret (fail InvalidVersion (''canonical version '' @ vstr (vc_version loaded)
            @ '' does not match supplied config version '' @ vstr (vc_version config))))
          else capture_tail pub os opts (vc_version config) bytes w1)))"
  unfolding cpCaptureImpl_def capture_tail_def checkpoint_path_def Let_def ..

text \<open>
  Capture either changes nothing and reports why, or replaces the checkpoint of the version by the
  bytes of the canonical file, which it leaves alone.
\<close>

definition captures_for :: "(fsys \<Rightarrow> path \<Rightarrow> nat \<Rightarrow> bool) \<Rightarrow> checkpoint_options \<Rightarrow> vconfig \<Rightarrow> backend \<Rightarrow> world \<Rightarrow> world \<Rightarrow> (error + unit) flow \<Rightarrow> bool" where
  "captures_for ok opts config be w w' r \<longleftrightarrow> (\<exists>bytes m t loaded r' source.
     w_nodes w (canonical_path opts) = Some (RegularFile bytes m t) \<and> length bytes \<le> max_file_bytes opts \<and>
     loadBytes bytes be = Ret (Inr loaded) \<and> vc_version loaded = vc_version config \<and>
     r = Ret r' \<and> source = (if w_nodes w (checkpoint_path opts (vc_version config)) = None then canonical_path opts else checkpoint_path opts (vc_version config)) \<and>
     replaces_for ok (checkpoint_path opts (vc_version config)) (ancestors (checkpoint_directory opts)) bytes source w w' r' \<and>
     safe (\<lambda>ns. ns (canonical_path opts) = w_nodes w (canonical_path opts)) w w')"

abbreviation captures :: "checkpoint_options \<Rightarrow> vconfig \<Rightarrow> backend \<Rightarrow> world \<Rightarrow> world \<Rightarrow> (error + unit) flow \<Rightarrow> bool" where
  "captures \<equiv> captures_for new_mode"

lemmas captures_def = captures_for_def[of new_mode]

lemma replaces_unchanged: "unchanged w w1 \<Longrightarrow> replaces_for ok dst dirs bytes s w1 w' r \<Longrightarrow> replaces_for ok dst dirs bytes s w w' r"
proof -
  assume u: "unchanged w w1" and r: "replaces_for ok dst dirs bytes s w1 w' r"
  from u have e: "w_nodes w1 = w_nodes w" "w_log w1 = w_log w" by (simp_all add: unchanged_def)
  from r show ?thesis unfolding replaces_for_def safe_def e .
qed

context file_replacement
begin

lemma capture_tail_law:
  assumes "capture_tail (publish_with write_temp replace) os opts v bytes w = (w', r)" "separate opts"
    and f: "w_nodes w (canonical_path opts) = Some (RegularFile b m t)"
    and source: "source = (if w_nodes w (checkpoint_path opts v) = None then canonical_path opts else checkpoint_path opts v)"
  shows "\<exists>r'. r = Ret r' \<and>
    replaces_for ok (checkpoint_path opts v) (ancestors (checkpoint_directory opts)) bytes source w w' r' \<and>
    safe (\<lambda>ns. ns (canonical_path opts) = w_nodes w (canonical_path opts)) w w'"
proof -
  let ?dst = "checkpoint_path opts v" and ?dirs = "ancestors (checkpoint_directory opts)" and ?can = "canonical_path opts"
  note sep = separate_checkpoint[OF assms(2), of v]
  obtain w2 c where c: "fs_create_directories (checkpoint_directory opts) w = (w2, c)" by fastforce
  note m = create_directories(1)[OF c]
  have src: "w_nodes w2 source = w_nodes w source" if "source \<in> set ?dirs"
    using that sep(3) create_directories(3)[OF c f] f unfolding source by (auto split: if_splits)
  have untouched: "safe (\<lambda>ns. ns ?can = w_nodes w ?can) w w'"
    if "replaces_for ok ?dst ?dirs bytes s w w' x" "?can \<notin> set ?dirs" for s x
    using that sep(1,2) unfolding replaces_for_def by (elim exE conjE) (erule safe_mono, blast)
  show ?thesis
  proof (cases c)
    case (Some e)
    from assms(1) c Some obtain z where w': "w' = w2" "r = Ret (fail StorageError z)" by (auto simp: capture_tail_def)
    from after_directories[OF m sep(3) error_atomic src]
    have "replaces_for ok ?dst ?dirs bytes source w w2 (fail StorageError z)" .
    moreover have "safe (\<lambda>ns. ns ?can = w_nodes w ?can) w w2" by (rule create_directories_file[OF c f])
    ultimately show ?thesis unfolding w' by blast
  next
    case None
    have can: "?can \<notin> set ?dirs" by (rule create_directories(4)[OF c None f])
    obtain w3 x where x: "fs_exists ?dst w2 = (w3, x)" by fastforce
    note e = read_calls(1)[OF x, of "made_directories ?dirs (w_nodes w)"]
    have m3: "safe (made_directories ?dirs (w_nodes w)) w w3" using m e safe_trans by blast
    have src3: "source \<in> set ?dirs \<Longrightarrow> w_nodes w3 source = w_nodes w source" using src e by simp
    show ?thesis
    proof (cases x)
      case (Inl er)
      from assms(1) c None x Inl obtain z where w': "w' = w3" "r = Ret (fail StorageError z)" by (auto simp: capture_tail_def)
      from after_directories[OF m3 sep(3) error_atomic src3]
      have "replaces_for ok ?dst ?dirs bytes source w w3 (fail StorageError z)" .
      with untouched[of source "fail StorageError z"] can show ?thesis unfolding w' by blast
    next
      case (Inr ex)
      have "w_nodes w2 ?dst = w_nodes w ?dst" using safe_now[OF m] sep(3) by (auto simp: made_directories_def)
      then have s: "(if ex then ?dst else ?can) = source"
        using fs_exists_answer[OF x[unfolded Inr]] unfolding source by simp
      obtain w4 y where y: "publish_with write_temp replace ?dst bytes source w3 = (w4, y)" by fastforce
      from assms(1) c None x Inr y s have w': "w' = w4" "r = Ret y" by (simp_all add: capture_tail_def)
      have "replaces_for ok ?dst ?dirs bytes source w w4 y"
        by (rule after_directories[OF m3 sep(3) publish_law[OF y] src3])
      with untouched[of source y] can show ?thesis unfolding w' by blast
    qed
  qed
qed

lemma capture_law:
  assumes "cpCaptureImpl (publish_with write_temp replace) os opts config be w = (w', r)" "separate opts" "max_file_bytes opts < 2 ^ 64"
  shows "(unchanged w w' \<and> (r = Bad_alloc \<or> (\<exists>e. r = Ret (Inl e)))) \<or> captures_for ok opts config be w w' r"
proof -
  obtain w1 x where x: "readFileBytes (canonical_path opts) (max_file_bytes opts) w = (w1, x)" by fastforce
  have u: "unchanged w w1" using readFileBytes_reads[OF x, of "\<lambda>_. False"] unfolding unchanged_def safe_def
    by (metis append_Nil2 last_in_set)
  show ?thesis
  proof (cases x)
    case (Inl e)
    with assms(1) x have "w' = w1" "r = Ret (Inl e)" by (simp_all add: cpCaptureImpl_unfold)
    with u show ?thesis by blast
  next
    case (Inr bytes)
    from readFileBytes_bytes[OF x[unfolded Inr] assms(3)] obtain m t where
      f: "w_nodes w (canonical_path opts) = Some (RegularFile bytes m t)" "length bytes \<le> max_file_bytes opts" by blast
    show ?thesis
    proof (cases "\<exists>loaded. loadBytes bytes be = Ret (Inr loaded) \<and> vc_version loaded = vc_version config")
      case False
      then have "w' = w1 \<and> (r = Bad_alloc \<or> (\<exists>e. r = Ret (Inl e)))"
        using assms(1) x Inr by (auto simp: cpCaptureImpl_unfold fail_def simp del: Inl_fold_fail split: flow.splits sum.splits if_splits)
      with u show ?thesis by blast
    next
      case True
      then obtain loaded where l: "loadBytes bytes be = Ret (Inr loaded)" "vc_version loaded = vc_version config" by blast
      with assms(1) x Inr have tail: "capture_tail (publish_with write_temp replace) os opts (vc_version config) bytes w1 = (w', r)" by (simp add: cpCaptureImpl_unfold)
      let ?source = "if w_nodes w (checkpoint_path opts (vc_version config)) = None then canonical_path opts
        else checkpoint_path opts (vc_version config)"
      from capture_tail_law[OF tail assms(2), of bytes m t ?source] f(1) u obtain r' where
        h: "r = Ret r'" "replaces_for ok (checkpoint_path opts (vc_version config)) (ancestors (checkpoint_directory opts)) bytes ?source w1 w' r'"
        "safe (\<lambda>ns. ns (canonical_path opts) = w_nodes w1 (canonical_path opts)) w1 w'" unfolding unchanged_def by auto
      have k: "safe (\<lambda>ns. ns (canonical_path opts) = w_nodes w (canonical_path opts)) w w'"
        using safe_trans[OF unchanged_safe[OF u]] h(3) u unfolding unchanged_def by simp
      have "captures_for ok opts config be w w' r" unfolding captures_for_def
        by (intro exI[of _ bytes] exI[of _ m] exI[of _ t] exI[of _ loaded] exI[of _ r'] exI[of _ ?source] conjI f l h(1) refl replaces_unchanged[OF u h(2)] k)
      then show ?thesis ..
    qed
  qed
qed

end

lemma capture_captures:
  assumes "cpCapture os opts config be w = (w', r)" "separate opts" "max_file_bytes opts < 2 ^ 64"
  shows "(unchanged w w' \<and> (r = Bad_alloc \<or> (\<exists>e. r = Ret (Inl e)))) \<or> captures opts config be w w' r"
  by (rule posix.capture_law[OF assms(1)[unfolded public_operations publish_def] assms(2,3)])

section \<open>When nothing fails\<close>

lemma quiet_write_loop: "w_answers w = [] \<Longrightarrow> \<exists>w'. write_loop p bytes w = (w', None) \<and> w_answers w' = []"
proof (cases "bytes = []")
  case True
  assume "w_answers w = []"
  with True show ?thesis by (simp add: write_loop.simps)
next
  case False
  assume q: "w_answers w = []"
  from False q show ?thesis
    by (subst write_loop.simps) (simp add: sys_write_def quiet_answer write_loop.simps[of p "[]"])
qed

lemma quiet_writeAttempt:
  assumes "w_answers w = []" "w_nodes w (snd (temporaryCandidate dst w)) = None"
  shows "\<exists>w'. writeAttempt os dst bytes mode w = (w', Some (Inr (snd (temporaryCandidate dst w)))) \<and> w_answers w' = []"
proof -
  obtain w0 c where c: "temporaryCandidate dst w = (w0, c)" by fastforce
  have w0: "w_answers w0 = []" "w_nodes w0 c = None" using assms c by (auto simp: temporaryCandidate_def)
  obtain w1 where w1: "sys_create c w0 = (w1, None)" "w_answers w1 = []"
    using w0 by (simp add: sys_create_def quiet_answer)
  obtain w2 where w2: "write_loop c bytes w1 = (w2, None)" "w_answers w2 = []" using quiet_write_loop[OF w1(2)] by blast
  obtain w3 where w3: "sys_fchmod c mode w2 = (w3, None)" "w_answers w3 = []" using w2(2) by (simp add: sys_fchmod_def quiet_answer)
  have w4: "sys_close w3 = (w3, None)" using w3(2) by (simp add: sys_close_def quiet_answer)
  show ?thesis unfolding writeAttempt_def c w1(1) w2(1) using w3 w4 by (simp add: c w1(1) w2(1))
qed

lemma quiet_writeTemporary:
  assumes "w_answers w = []" "w_nodes w (snd (temporaryCandidate dst w)) = None"
    and no_file: "w_nodes w source = None \<Longrightarrow> missing (w_nodes w) source = ENOENT"
  shows "\<exists>w' c. writeTemporary os dst bytes source w = (w', Inr c) \<and> w_answers w' = []"
proof -
  have s: "sys_stat source w = (w, case w_nodes w source of None \<Rightarrow> Inl ENOENT | Some n \<Rightarrow> Inr n)"
    using no_file by (simp add: sys_stat_def quiet_answer[OF assms(1)] environment_error_def split: option.split)
  have k: "(100 :: nat) = Suc 99" by simp
  have a: "\<exists>w' c. writeAttempts os 100 dst bytes mode w = (w', Inr c) \<and> w_answers w' = []" for mode
    unfolding k writeAttempts.simps using quiet_writeAttempt[OF assms(1,2), of os bytes mode] by auto
  show ?thesis using a by (cases "w_nodes w source") (simp_all add: writeTemporary_def s)
qed

lemma quiet_publish:
  assumes "w_answers w = []" "w_nodes w (snd (temporaryCandidate dst w)) = None" "w_nodes w dst \<noteq> Some Directory"
    and "w_nodes w source = None \<Longrightarrow> missing (w_nodes w) source = ENOENT"
  shows "\<exists>w'. publish os dst bytes source w = (w', Inr ()) \<and> w_answers w' = []"
proof -
  obtain w1 c where c: "writeTemporary os dst bytes source w = (w1, Inr c)" "w_answers w1 = []"
    using quiet_writeTemporary[OF assms(1,2,4)] by blast
  from writeTemporary_file[OF c(1)] obtain mode t where
    t: "temp_of dst c" "w_nodes w1 = (w_nodes w)(c \<mapsto> RegularFile bytes mode t)" by (auto simp: wrote_def)
  have "c \<noteq> dst" using t(1) temp_of_irrefl by blast
  then show ?thesis using c t(2) assms(3) by (simp add: publish_def publish_with_def replaceFile_def sys_rename_def quiet_answer)
qed

lemma candidate_not_above: "snd (temporaryCandidate dst w) \<notin> set (ancestors (parentOrCurrent dst))"
proof -
  obtain w0 c where c: "temporaryCandidate dst w = (w0, c)" by fastforce
  then have "temp_of dst c" using temporaryCandidate_temp by blast
  then obtain s where s: "CHR ''/'' \<notin> set s" "c = append_path (parentOrCurrent dst) (filename dst @ ''.tmp.'' @ s)"
    unfolding temp_of_def by blast
  have "length p < length (append_path p (f @ ''.tmp.'' @ s))" if "CHR ''/'' \<notin> set f" for p f
    using that by (cases f) (auto simp: append_path_def)
  from this[OF filename_no_slash[of dst], of "parentOrCurrent dst"] ancestors_shorter[of c "parentOrCurrent dst"]
  show ?thesis unfolding c snd_conv s(2) by auto
qed

end
