(* ===== verification/Checkpoint_Restore.thy ===== *)
theory Checkpoint_Restore
  imports Checkpoint_Atomic
begin

text \<open>
  Restore and prune. Restore changes no file and returns the best checkpoint, in the order of the
  source, that synchronizes; prune removes exactly the verified checkpoints its rule does not keep.
  Both rest on the comparators being strict weak orders, which is what \<open>std::sort\<close> asks of them.
\<close>

section \<open>The comparators\<close>

interpretation restore_order: strict_weak_order restore_before
proof
  show "\<not> restore_before x x" for x by (simp add: restore_before_def string_less_irrefl)
  show "restore_before x y \<Longrightarrow> restore_before y z \<Longrightarrow> restore_before x z" for x y z
    by (auto simp: restore_before_def string_less_irrefl elim: string_less_trans split: if_splits)
  show "\<not> restore_before x y \<Longrightarrow> \<not> restore_before y z \<Longrightarrow> \<not> restore_before x z" for x y z
    using path_order.incomparable[of "lc_path x" "lc_path y" "lc_path z"] by (auto simp: restore_before_def split: if_splits)
qed

interpretation prune_order: strict_weak_order prune_before
proof
  show "\<not> prune_before x x" for x by (simp add: prune_before_def string_less_irrefl)
  show "prune_before x y \<Longrightarrow> prune_before y z \<Longrightarrow> prune_before x z" for x y z
    by (auto simp: prune_before_def elim: string_less_trans split: if_splits)
  show "\<not> prune_before x y \<Longrightarrow> \<not> prune_before y z \<Longrightarrow> \<not> prune_before x z" for x y z
    using path_order.incomparable[of "cf_path x" "cf_path y" "cf_path z"] by (auto simp: prune_before_def split: if_splits)
qed

section \<open>Listing and loading\<close>

lemma unchanged_refl [simp]: "unchanged w w"
  by (simp add: unchanged_def)

lemma unchanged_trans: "unchanged w w1 \<Longrightarrow> unchanged w1 w2 \<Longrightarrow> unchanged w w2"
  by (simp add: unchanged_def)

lemma unchanged_nodes: "unchanged w w1 \<Longrightarrow> w_nodes w1 = w_nodes w"
  by (simp add: unchanged_def)

lemma safe_unchanged: "(\<And>P. safe P w w1) \<Longrightarrow> unchanged w w1"
proof -
  assume "\<And>P. safe P w w1"
  from this[of "\<lambda>_. False"] obtain new where "w_log w1 = w_log w @ new" "\<forall>ns \<in> set new. False"
    "w_nodes w1 = (if new = [] then w_nodes w else last new)" unfolding safe_def by blast
  moreover from this(2) have "new = []" by (cases new) auto
  ultimately show ?thesis by (simp add: unchanged_def)
qed

lemma read_unchanged:
  "fs_exists p w = (w1, x) \<Longrightarrow> unchanged w w1"
  "fs_is_regular_file p w = (w1, x) \<Longrightarrow> unchanged w w1"
  "fs_last_write_time p w = (w1, t) \<Longrightarrow> unchanged w w1"
  "readFileBytes p m w = (w1, r) \<Longrightarrow> unchanged w w1"
  "next_answer w = (a, w1) \<Longrightarrow> unchanged w w1"
  by (rule safe_unchanged, (rule conjunct1[OF read_calls(1)] conjunct1[OF read_calls(2)] conjunct1[OF read_calls(3)]
      conjunct1[OF readFileBytes_reads] safe_answer, assumption))+

definition is_regular :: "fs_node option \<Rightarrow> bool" where
  "is_regular n = (case n of Some (RegularFile b m t) \<Rightarrow> True | _ \<Rightarrow> False)"

definition is_checkpoint :: "checkpoint_options \<Rightarrow> fsys \<Rightarrow> path \<Rightarrow> bool" where
  "is_checkpoint opts ns p \<longleftrightarrow> is_regular (ns p) \<and> isCheckpointFilename p (extension (canonical_path opts))"

definition checkpoints :: "os \<Rightarrow> checkpoint_options \<Rightarrow> fsys \<Rightarrow> path list" where
  "checkpoints os opts ns = (if ns (checkpoint_directory opts) = None then []
     else filter (is_checkpoint opts ns) (os_listing os ns (checkpoint_directory opts)))"

lemma regular_file_answer: "fs_is_regular_file p w = (w1, Inr b) \<Longrightarrow> b = is_regular (w_nodes w p)"
  by (cases "next_answer w") (auto simp: fs_is_regular_file_def sys_stat_def is_regular_def split: option.splits fs_node.splits)

lemma exists_answer: "fs_exists p w = (w1, Inr b) \<Longrightarrow> b = (w_nodes w p \<noteq> None)"
  by (cases "next_answer w") (auto simp: fs_exists_def sys_stat_def environment_error_def split: option.splits if_splits answer.splits)

lemma scan_entries_files:
  "scan_entries os opts acc es w = (w', r) \<Longrightarrow> unchanged w w' \<and> (\<forall>ps. r = Inr ps \<longrightarrow> ps = acc @ filter (is_checkpoint opts (w_nodes w)) es)"
proof (induction es arbitrary: acc w)
  case (Cons p es)
  obtain w1 x where x: "fs_is_regular_file p w = (w1, x)" by fastforce
  obtain a w2 where a: "next_answer w1 = (a, w2)" by fastforce
  note u = read_unchanged(2)[OF x] read_unchanged(5)[OF a]
  show ?case
  proof (cases x)
    case (Inl e)
    with Cons.prems x u show ?thesis by (auto simp: fail_def simp del: Inl_fold_fail)
  next
    case (Inr b)
    define acc' where "acc' = (if is_checkpoint opts (w_nodes w) p then acc @ [p] else acc)"
    have acc: "(if b \<and> isCheckpointFilename p (extension (canonical_path opts)) then acc @ [p] else acc) = acc'"
      using regular_file_answer[OF x[unfolded Inr]] by (simp add: acc'_def is_checkpoint_def)
    show ?thesis
    proof (cases "\<exists>e. a = Fails e")
      case True
      then obtain e where "a = Fails e" by blast
      with Cons.prems x Inr a have "w' = w2" "\<exists>z. r = fail StorageError z" by (simp_all add: Let_def) blast?
      with unchanged_trans[OF u] show ?thesis by (auto simp: fail_def simp del: Inl_fold_fail)
    next
      case False
      then have "scan_entries os opts acc' es w2 = (w', r)" using Cons.prems x Inr a by (cases a) (auto simp: acc)
      from Cons.IH[OF this] u show ?thesis by (auto simp: unchanged_def acc'_def)
    qed
  qed
qed auto

lemma checkpointFiles_files:
  assumes "checkpointFiles os opts w = (w', r)"
  shows "unchanged w w' \<and> (\<forall>ps. r = Inr ps \<longrightarrow> ps = checkpoints os opts (w_nodes w))"
proof -
  obtain w1 x where x: "fs_exists (checkpoint_directory opts) w = (w1, x)" by fastforce
  obtain a w2 where a: "next_answer w1 = (a, w2)" by fastforce
  note u = read_unchanged(1)[OF x] read_unchanged(5)[OF a]
  note u2 = unchanged_trans[OF u]
  show ?thesis
  proof (cases x)
    case (Inl e)
    with assms x u show ?thesis by (auto simp: checkpointFiles_def fail_def simp del: Inl_fold_fail)
  next
    case (Inr b)
    note b = exists_answer[OF x[unfolded Inr]]
    show ?thesis
    proof (cases b)
      case False
      with assms x Inr u b show ?thesis by (auto simp: checkpointFiles_def checkpoints_def)
    next
      case True
      let ?err = "case a of Fails e \<Rightarrow> Some e | _ \<Rightarrow> if w_nodes w1 (checkpoint_directory opts) = Some Directory then None else Some ENOTDIR"
      show ?thesis
      proof (cases ?err)
        case (Some e)
        with assms x Inr True a have "w' = w2" "\<exists>z. r = fail StorageError z" by (simp_all add: checkpointFiles_def) blast?
        with u2 show ?thesis by (auto simp: fail_def simp del: Inl_fold_fail)
      next
        case None
        with assms x Inr True a have "scan_entries os opts [] (os_listing os (w_nodes w2) (checkpoint_directory opts)) w2 = (w', r)"
          by (simp add: checkpointFiles_def)
        note f = scan_entries_files[OF this, unfolded unchanged_nodes[OF u2]]
        have "w_nodes w (checkpoint_directory opts) \<noteq> None" using b True by simp
        then have "checkpoints os opts (w_nodes w) =
            filter (is_checkpoint opts (w_nodes w)) (os_listing os (w_nodes w) (checkpoint_directory opts))"
          unfolding checkpoints_def by (rule if_not_P)
        with f unchanged_trans[OF u2] show ?thesis by simp
      qed
    qed
  qed
qed

text \<open>A verified checkpoint: a file within the limit whose bytes the backend loads, at a version that is supported.\<close>

definition verified :: "checkpoint_options \<Rightarrow> backend \<Rightarrow> version_id option \<Rightarrow> fsys \<Rightarrow> loaded_candidate \<Rightarrow> bool" where
  "verified opts be supported ns c \<longleftrightarrow> (\<exists>bytes m. ns (lc_path c) = Some (RegularFile bytes m (lc_modified c)) \<and>
     length bytes \<le> max_file_bytes opts \<and> loadBytes bytes be = Ret (Inr (lc_config c)) \<and>
     lc_source_version c = vc_version (lc_config c) \<and> (supported \<noteq> None \<longrightarrow> lc_source_version c \<le> the supported))"

lemma write_time_answer: "fs_last_write_time p w = (w1, Inr t) \<Longrightarrow> w_nodes w p = Some (RegularFile b m t') \<Longrightarrow> t = t'"
  by (cases "next_answer w") (auto simp: fs_last_write_time_def sys_stat_def split: option.splits)

lemma load_checkpoint_verified:
  assumes "load_checkpoint os opts be lim p w = (w', r)"
  shows "unchanged w w' \<and> (\<forall>c. r = Ret (Inr c) \<longrightarrow> lc_path c = p \<and> (max_file_bytes opts < 2 ^ 64 \<longrightarrow> verified opts be lim (w_nodes w) c))"
proof -
  obtain w1 x where x: "readFileBytes p (max_file_bytes opts) w = (w1, x)" by fastforce
  note u = read_unchanged(4)[OF x]
  show ?thesis
  proof (cases "\<exists>bytes loaded. x = Inr bytes \<and> loadBytes bytes be = Ret (Inr loaded) \<and> \<not> (lim \<noteq> None \<and> vc_version loaded > the lim)")
    case False
    then have "w' = w1 \<and> (r = Bad_alloc \<or> (\<exists>e. r = Ret (Inl e)))"
      using assms x by (auto simp: load_checkpoint_def fail_def simp del: Inl_fold_fail split: sum.splits flow.splits if_splits)
    with u show ?thesis by auto
  next
    case True
    then obtain bytes loaded where l: "x = Inr bytes" "loadBytes bytes be = Ret (Inr loaded)" "\<not> (lim \<noteq> None \<and> vc_version loaded > the lim)" by blast
    obtain w2 y where y: "fs_last_write_time p w1 = (w2, y)" by fastforce
    note u2 = unchanged_trans[OF u read_unchanged(3)[OF y]]
    show ?thesis
    proof (cases y)
      case (Inl e)
      with assms x l y u2 show ?thesis by (auto simp: load_checkpoint_def fail_def simp del: Inl_fold_fail)
    next
      case (Inr t)
      have r: "w' = w2" "r = Ret (Inr \<lparr>lc_path = p, lc_source_version = vc_version loaded, lc_modified = t, lc_config = loaded\<rparr>)"
        using assms unfolding load_checkpoint_def x l(1,2) prod.case sum.case flow.case if_not_P[OF l(3)] y Inr by simp_all
      have "verified opts be lim (w_nodes w) \<lparr>lc_path = p, lc_source_version = vc_version loaded, lc_modified = t, lc_config = loaded\<rparr>"
        if m: "max_file_bytes opts < 2 ^ 64"
      proof -
        from readFileBytes_bytes[OF x[unfolded l(1)] m] obtain mode t' where
          f: "w_nodes w p = Some (RegularFile bytes mode t')" "length bytes \<le> max_file_bytes opts" by blast
        with write_time_answer[OF y[unfolded Inr], of bytes mode t'] u have "t = t'" by (simp add: unchanged_def)
        with f l(2,3) show ?thesis by (auto simp: verified_def)
      qed
      with r u2 show ?thesis by simp
    qed
  qed
qed

text \<open>Why a checkpoint was refused before it was tried.\<close>

definition refused :: "os \<Rightarrow> checkpoint_options \<Rightarrow> backend \<Rightarrow> version_id option \<Rightarrow> fsys \<Rightarrow> rejection \<Rightarrow> bool" where
  "refused os opts be lim ns x \<longleftrightarrow> (\<exists>w1 w2. w_nodes w1 = ns \<and> load_checkpoint os opts be lim (fst x) w1 = (w2, Ret (Inl (snd x))))"

lemma load_checkpoints_loaded:
  "load_checkpoints os opts be lim paths cs rs w = (w', r) \<Longrightarrow> unchanged w w' \<and>
     (\<forall>cs' rs'. r = Ret (cs', rs') \<longrightarrow> (\<exists>new rej. cs' = cs @ new \<and> rs' = rs @ rej \<and>
        mset paths = mset (map lc_path new) + mset (map fst rej) \<and>
        (\<forall>x \<in> set rej. refused os opts be lim (w_nodes w) x) \<and>
        (max_file_bytes opts < 2 ^ 64 \<longrightarrow> (\<forall>c \<in> set new. verified opts be lim (w_nodes w) c))))"
proof (induction paths arbitrary: cs rs w)
  case (Cons p paths)
  obtain w1 x where x: "load_checkpoint os opts be lim p w = (w1, x)" by fastforce
  note l = load_checkpoint_verified[OF x]
  then have n: "w_nodes w1 = w_nodes w" by (simp add: unchanged_def)
  show ?case
  proof (cases x)
    case Bad_alloc
    with Cons.prems x l show ?thesis by simp
  next
    case (Ret y)
    show ?thesis
    proof (cases y)
      case (Inl e)
      with Cons.prems x Ret have s: "load_checkpoints os opts be lim paths cs (rs @ [(p, e)]) w1 = (w', r)" by simp
      have "refused os opts be lim (w_nodes w) (p, e)" using x Ret Inl unfolding refused_def by auto
      with Cons.IH[OF s] l n show ?thesis by (fastforce intro: unchanged_trans)
    next
      case (Inr c)
      with Cons.prems x Ret have s: "load_checkpoints os opts be lim paths (cs @ [c]) rs w1 = (w', r)" by simp
      from Cons.IH[OF s] l n Ret Inr show ?thesis by (fastforce intro: unchanged_trans)
    qed
  qed
qed auto

section \<open>Restore\<close>

definition syncs :: "'s runtime \<Rightarrow> version_id \<Rightarrow> loaded_candidate \<Rightarrow> prepared_restore \<Rightarrow> bool" where
  "syncs rt supported c pr \<longleftrightarrow> pr_path pr = lc_path c \<and> pr_source_version pr = lc_source_version c \<and>
     vc_version (pr_config pr) = supported \<and>
     (\<exists>s s'. synchronize rt s (lc_config c) supported = Some (s', pr_config pr, Ret (Inr InSync)))"

text \<open>A candidate that was tried and reported with the error of its synchronization.\<close>

definition not_synced :: "'s runtime \<Rightarrow> version_id \<Rightarrow> loaded_candidate \<Rightarrow> rejection \<Rightarrow> bool" where
  "not_synced rt supported c x \<longleftrightarrow> fst x = lc_path c \<and> (\<exists>s s' config r.
     synchronize rt s (lc_config c) supported = Some (s', config, Ret r) \<and>
     (case r of Inl e \<Rightarrow> snd x = e | Inr status \<Rightarrow> (status \<noteq> InSync \<or> vc_version config \<noteq> supported) \<and> err_code (snd x) = InvalidVersion))"

lemma try_candidates_first:
  "try_candidates rt v cs rejected s = Some (s', r) \<Longrightarrow> r \<noteq> Bad_alloc \<Longrightarrow>
     \<exists>search tried later late. r = Ret (Inr search) \<and> cs = tried @ later \<and> rs_rejected search = rejected @ late \<and>
       list_all2 (not_synced rt v) tried late \<and>
       (case rs_candidate search of None \<Rightarrow> later = [] | Some pr \<Rightarrow> \<exists>c rest. later = c # rest \<and> syncs rt v c pr)"
proof (induction cs arbitrary: rejected s)
  case Nil
  then show ?case by auto
next
  case (Cons c cs)
  then obtain s1 config x where x: "synchronize rt s (lc_config c) v = Some (s1, config, x)"
    by (auto split: Option.bind_splits)
  have more: ?case if step: "try_candidates rt v cs (rejected @ [y]) s1 = Some (s', r)" and ns: "not_synced rt v c y" for y
  proof -
    from Cons.IH[OF step Cons.prems(2)] obtain search tried later late where
      h: "r = Ret (Inr search)" "cs = tried @ later" "rs_rejected search = (rejected @ [y]) @ late"
        "list_all2 (not_synced rt v) tried late"
        "case rs_candidate search of None \<Rightarrow> later = [] | Some pr \<Rightarrow> \<exists>c rest. later = c # rest \<and> syncs rt v c pr" by blast
    have "c # cs = (c # tried) @ later" "rs_rejected search = rejected @ (y # late)" using h(2,3) by simp_all
    moreover have "list_all2 (not_synced rt v) (c # tried) (y # late)" using h(4) ns by simp
    ultimately show ?thesis using h(1,5) by blast
  qed
  show ?case
  proof (cases x)
    case Bad_alloc
    with Cons.prems x show ?thesis by simp
  next
    case (Ret z)
    show ?thesis
    proof (cases z)
      case (Inl e)
      with Cons.prems(1) x Ret have "try_candidates rt v cs (rejected @ [(lc_path c, e)]) s1 = Some (s', r)" by simp
      moreover have "not_synced rt v c (lc_path c, e)" using x Ret Inl unfolding not_synced_def
        by (intro conjI exI[of _ s] exI[of _ s1] exI[of _ config] exI[of _ "Inl e"]) simp_all
      ultimately show ?thesis by (rule more)
    next
      case (Inr status)
      show ?thesis
      proof (cases "status \<noteq> InSync \<or> vc_version config \<noteq> v")
        case True
        have "not_synced rt v c (lc_path c, \<lparr>err_code = InvalidVersion, err_message = msg\<rparr>)" for msg
          using x Ret Inr True unfolding not_synced_def
          by (intro conjI exI[of _ s] exI[of _ s1] exI[of _ config] exI[of _ "Inr status"]) simp_all
        with more Cons.prems(1) x Ret Inr True show ?thesis by simp
      next
        case False
        let ?pr = "\<lparr>pr_path = lc_path c, pr_source_version = lc_source_version c, pr_config = config\<rparr>"
        have "syncs rt v c ?pr" using x Ret Inr False unfolding syncs_def by auto
        moreover have "r = Ret (Inr \<lparr>rs_candidate = Some ?pr, rs_rejected = rejected\<rparr>)"
          using Cons.prems(1) x Ret Inr False by simp
        ultimately show ?thesis by (intro exI[of _ "\<lparr>rs_candidate = Some ?pr, rs_rejected = rejected\<rparr>"] exI[of _ "[]"] exI[of _ "c # cs"]) simp
      qed
    qed
  qed
qed

text \<open>The order of the search: version, then time, then name.\<close>

definition outranks :: "loaded_candidate \<Rightarrow> loaded_candidate \<Rightarrow> bool" where
  "outranks d c \<longleftrightarrow> lc_source_version d > lc_source_version c \<or>
     (lc_source_version d = lc_source_version c \<and> (lc_modified d > lc_modified c \<or>
       (lc_modified d = lc_modified c \<and> string_less (lc_path d) (lc_path c))))"

lemma restore_before_outranks: "restore_before = outranks"
  by (auto simp: fun_eq_iff restore_before_def outranks_def)

text \<open>
  What a search reports: every checkpoint of the directory was refused on loading, or loaded; the
  one returned synchronized, and all loaded ones that rank before it were tried and did not.
\<close>

definition finds_best :: "os \<Rightarrow> checkpoint_options \<Rightarrow> backend \<Rightarrow> 's runtime \<Rightarrow> version_id \<Rightarrow> fsys \<Rightarrow> restore_search \<Rightarrow> bool" where
  "finds_best os opts be rt supported ns search \<longleftrightarrow> (\<exists>loaded early late. rs_rejected search = early @ late \<and>
     mset (checkpoints os opts ns) = mset (map lc_path loaded) + mset (map fst early) \<and>
     (\<forall>x \<in> set early. refused os opts be (Some supported) ns x) \<and>
     (\<forall>c \<in> set loaded. verified opts be (Some supported) ns c) \<and>
     (case rs_candidate search of
        None \<Rightarrow> \<forall>d \<in> set loaded. \<exists>x \<in> set late. not_synced rt supported d x
      | Some pr \<Rightarrow> \<exists>c \<in> set loaded. syncs rt supported c pr \<and>
          (\<forall>d \<in> set loaded. outranks d c \<longrightarrow> (\<exists>x \<in> set late. not_synced rt supported d x))))"

lemma list_all2_ex: "list_all2 R xs ys \<Longrightarrow> x \<in> set xs \<Longrightarrow> \<exists>y \<in> set ys. R x y"
  by (induction rule: list_all2_induct) auto

lemma restore_finds_best:
  assumes "cpPrepareRestore os opts be rt v s w = Some (s', w', Ret r)" "max_file_bytes opts < 2 ^ 64"
  shows "unchanged w w' \<and> (\<forall>search. r = Inr search \<longrightarrow> finds_best os opts be rt v (w_nodes w) search)"
proof (cases "supportsVersion rt v")
  case False
  with assms(1) have "w' = w" "\<exists>z. r = fail InvalidVersion z" by (simp_all add: cpPrepareRestore_unfold) blast?
  then show ?thesis by (auto simp: fail_def simp del: Inl_fold_fail)
next
  case True
  obtain w1 x where x: "checkpointFiles os opts w = (w1, x)" by fastforce
  note f = checkpointFiles_files[OF x]
  show ?thesis
  proof (cases x)
    case (Inl e)
    with assms(1) True x have "w' = w1" "r = Inl e" by (simp_all add: cpPrepareRestore_unfold)
    with f show ?thesis by simp
  next
    case (Inr paths)
    obtain w2 y where y: "load_checkpoints os opts be (Some v) paths [] [] w1 = (w2, y)" by fastforce
    note u = f[THEN conjunct1]
    note l = load_checkpoints_loaded[OF y, unfolded unchanged_nodes[OF u]]
    have paths: "paths = checkpoints os opts (w_nodes w)" using f Inr by simp
    show ?thesis
    proof (cases y)
      case Bad_alloc
      with assms(1) True x Inr y show ?thesis by (simp add: cpPrepareRestore_unfold)
    next
      case (Ret cr)
      obtain cands early where cr: "cr = (cands, early)" by fastforce
      from assms(1) True x Inr y Ret cr have
        t: "try_candidates rt v (std_sort restore_before cands) early s = Some (s', Ret r)" and w': "w' = w2"
        by (auto simp: cpPrepareRestore_unfold split: Option.bind_splits)
      from l Ret cr assms(2) have cands: "mset paths = mset (map lc_path cands) + mset (map fst early)"
        "\<forall>x \<in> set early. refused os opts be (Some v) (w_nodes w) x" "\<forall>c \<in> set cands. verified opts be (Some v) (w_nodes w) c" by auto
      from try_candidates_first[OF t] obtain search tried later late where
        h: "r = Inr search" "std_sort restore_before cands = tried @ later" "rs_rejected search = early @ late"
          "list_all2 (not_synced rt v) tried late"
          "case rs_candidate search of None \<Rightarrow> later = [] | Some pr \<Rightarrow> \<exists>c rest. later = c # rest \<and> syncs rt v c pr" by auto
      have set: "set cands = set tried \<union> set later" using set_std_sort[of restore_before cands] h(2) by simp
      have sorted: "sorted_wrt (\<lambda>x y. \<not> restore_before y x) (tried @ later)" using restore_order.std_sort_sorted[of cands] h(2) by simp
      have "case rs_candidate search of
          None \<Rightarrow> \<forall>d \<in> set cands. \<exists>x \<in> set late. not_synced rt v d x
        | Some pr \<Rightarrow> \<exists>c \<in> set cands. syncs rt v c pr \<and>
            (\<forall>d \<in> set cands. restore_before d c \<longrightarrow> (\<exists>x \<in> set late. not_synced rt v d x))"
      proof (cases "rs_candidate search")
        case None
        with h(5) set list_all2_ex[OF h(4)] show ?thesis by auto
      next
        case (Some pr)
        with h(5) obtain c rest where c: "later = c # rest" "syncs rt v c pr" by auto
        have "d \<in> set tried" if "d \<in> set cands" "restore_before d c" for d
          using that set sorted c(1) restore_order.irrefl by (auto simp: sorted_wrt_append)
        with Some c set list_all2_ex[OF h(4)] show ?thesis by auto
      qed
      then have "finds_best os opts be rt v (w_nodes w) search"
        unfolding finds_best_def restore_before_outranks[symmetric] using h(3) cands paths by blast
      with h(1) unchanged_trans[OF u l[THEN conjunct1]] w' show ?thesis by simp
    qed
  qed
qed

section \<open>When nothing fails\<close>

lemma quiet_reads:
  assumes "w_answers w = []"
  shows "fs_exists p w = (w, Inr (w_nodes w p \<noteq> None))"
    "w_nodes w p \<noteq> None \<Longrightarrow> fs_is_regular_file p w = (w, Inr (is_regular (w_nodes w p)))"
    "w_nodes w p = Some (RegularFile b m t) \<Longrightarrow> fs_last_write_time p w = (w, Inr t)"
proof -
  have s: "sys_stat p w = (w, case w_nodes w p of None \<Rightarrow> Inl (missing (w_nodes w) p) | Some n \<Rightarrow> Inr n)"
    by (simp add: sys_stat_def quiet_answer[OF assms] environment_error_def)
  show "fs_exists p w = (w, Inr (w_nodes w p \<noteq> None))"
    using missing_error[of "w_nodes w" p] by (cases "w_nodes w p") (auto simp: fs_exists_def s)
  show "w_nodes w p \<noteq> None \<Longrightarrow> fs_is_regular_file p w = (w, Inr (is_regular (w_nodes w p)))"
    by (auto simp: fs_is_regular_file_def s is_regular_def split: option.splits fs_node.splits)
  show "w_nodes w p = Some (RegularFile b m t) \<Longrightarrow> fs_last_write_time p w = (w, Inr t)" by (simp add: fs_last_write_time_def s)
qed

lemma quiet_read_loop:
  "w_answers w = [] \<Longrightarrow> length b + length u \<le> m \<Longrightarrow> m < 2 ^ 64 \<Longrightarrow> read_loop p m b u w = (w, Inr (b @ u))"
proof (induction "length u" arbitrary: b u rule: less_induct)
  case less
  have room: "(m + 2 ^ 64 - length b) mod 2 ^ 64 = m - length b" using less(3,4) by (simp add: le_mod_geq)
  have "length (take kBufferSize u) \<le> length u" by simp
  with less(3) have fit: "\<not> length (take kBufferSize u) > m - length b" by linarith
  have "Succeeds \<noteq> Fails e" for e by simp
  note s = read_loop_step[OF quiet_answer[OF less(2)] this, of p m b u, unfolded room if_not_P[OF fit]]
  show ?case
  proof (cases "length (take kBufferSize u) < kBufferSize")
    case True
    then have "take kBufferSize u = u" by simp
    with s[unfolded if_P[OF True]] show ?thesis by simp
  next
    case False
    then have l: "length (drop kBufferSize u) < length u" by (cases u) (simp_all add: kBufferSize_def)
    have "length (b @ take kBufferSize u) + length (drop kBufferSize u) \<le> m"
      using less(3) by (metis append_assoc append_take_drop_id length_append)
    from less(1)[OF l less(2) this less(4)] s[unfolded if_not_P[OF False]] show ?thesis
      unfolding append_assoc append_take_drop_id by (simp only:)
  qed
qed

lemma quiet_readFileBytes:
  "w_answers w = [] \<Longrightarrow> w_nodes w p = Some (RegularFile b m t) \<Longrightarrow> length b \<le> k \<Longrightarrow> k < 2 ^ 64 \<Longrightarrow> readFileBytes p k w = (w, Inr b)"
  using quiet_read_loop[of w "[]" b k p] by (simp add: readFileBytes_def quiet_answer Let_def)

lemma quiet_scan:
  "w_answers w = [] \<Longrightarrow> (\<And>p. p \<in> set es \<Longrightarrow> w_nodes w p \<noteq> None) \<Longrightarrow>
     scan_entries os opts acc es w = (w, Inr (acc @ filter (is_checkpoint opts (w_nodes w)) es))"
proof (induction es arbitrary: acc)
  case (Cons p es)
  have p: "w_nodes w p \<noteq> None" using Cons.prems(2) by simp
  show ?case using Cons.IH[OF Cons.prems(1)] Cons.prems(2)
    by (simp add: quiet_reads(2)[OF Cons.prems(1) p] quiet_answer[OF Cons.prems(1)] is_checkpoint_def Let_def)
qed simp

lemma quiet_checkpointFiles:
  assumes "w_answers w = []" "w_nodes w (checkpoint_directory opts) = Some Directory"
    and "\<And>p. p \<in> set (os_listing os (w_nodes w) (checkpoint_directory opts)) \<Longrightarrow> w_nodes w p \<noteq> None"
  shows "checkpointFiles os opts w = (w, Inr (checkpoints os opts (w_nodes w)))"
proof -
  note s = quiet_scan[OF assms(1) assms(3), of "os_listing os (w_nodes w) (checkpoint_directory opts)" os opts "[]"]
  show ?thesis
    unfolding checkpointFiles_def quiet_reads(1)[OF assms(1)] quiet_answer[OF assms(1)] checkpoints_def
    using s assms(2) by (simp add: quiet_answer[OF assms(1)])
qed

lemma quiet_load_checkpoint:
  assumes "w_answers w = []" "max_file_bytes opts < 2 ^ 64" "verified opts be lim (w_nodes w) c"
  shows "load_checkpoint os opts be lim (lc_path c) w = (w, Ret (Inr c))"
proof -
  from assms(3) obtain bytes m where f: "w_nodes w (lc_path c) = Some (RegularFile bytes m (lc_modified c))"
    "length bytes \<le> max_file_bytes opts" and l: "loadBytes bytes be = Ret (Inr (lc_config c))"
    and v: "lc_source_version c = vc_version (lc_config c)" "lim \<noteq> None \<longrightarrow> lc_source_version c \<le> the lim" unfolding verified_def by blast
  have n: "\<not> (lim \<noteq> None \<and> vc_version (lc_config c) > the lim)" using v by auto
  have "\<lparr>lc_path = lc_path c, lc_source_version = vc_version (lc_config c), lc_modified = lc_modified c, lc_config = lc_config c\<rparr> = c"
    using v(1) by simp
  then show ?thesis unfolding load_checkpoint_def quiet_readFileBytes[OF assms(1) f assms(2)] prod.case sum.case l flow.case
      if_not_P[OF n] quiet_reads(3)[OF assms(1) f(1)] by simp
qed

lemma quiet_read_world: "read_loop p k b u w = (w', x) \<Longrightarrow> w_answers w = [] \<Longrightarrow> w' = w"
proof (induction "length u" arbitrary: b u rule: less_induct)
  case less
  have answer: "Succeeds \<noteq> Fails e" for e by simp
  from less(2) have s: "(if length (take kBufferSize u) > (k + 2 ^ 64 - length b) mod 2 ^ 64
     then (w, fail StorageError (''file '' @ squote @ p @ squote @ '' exceeds size limit ('' @ nat_str k @ '' bytes)''))
     else if length (take kBufferSize u) < kBufferSize then (w, Inr (b @ take kBufferSize u))
     else read_loop p k (b @ take kBufferSize u) (drop kBufferSize u) w) = (w', x)"
    by (subst (asm) read_loop_step[OF quiet_answer[OF less(3)] answer])
  consider "length (take kBufferSize u) > (k + 2 ^ 64 - length b) mod 2 ^ 64 \<or> length (take kBufferSize u) < kBufferSize"
    | "\<not> length (take kBufferSize u) > (k + 2 ^ 64 - length b) mod 2 ^ 64" "\<not> length (take kBufferSize u) < kBufferSize" by blast
  then show ?case
  proof cases
    case 1
    with s show ?thesis by (auto split: if_splits)
  next
    case 2
    then have "length (drop kBufferSize u) < length u" by (cases u) (simp_all add: kBufferSize_def)
    from less(1)[OF this s[unfolded if_not_P[OF 2(1)] if_not_P[OF 2(2)]] less(3)] show ?thesis .
  qed
qed

lemma quiet_load_world:
  assumes "w_answers w = []" "load_checkpoint os opts be lim p w = (w1, r)"
  shows "w1 = w"
proof -
  obtain w2 x where x: "readFileBytes p (max_file_bytes opts) w = (w2, x)" by fastforce
  have q2: "w2 = w" using x assms(1)
    by (auto simp: readFileBytes_def quiet_answer Let_def dest: quiet_read_world split: option.splits fs_node.splits)
  obtain w3 t where t: "fs_last_write_time p w = (w3, t)" by fastforce
  have q3: "w3 = w" using t assms(1) by (auto simp: fs_last_write_time_def sys_stat_def quiet_answer split: option.splits)
  show ?thesis using assms(2) x t unfolding q2 q3
    by (auto simp: load_checkpoint_def split: sum.splits flow.splits if_splits)
qed

lemma loads_all:
  assumes "\<And>bytes. be_load be bytes \<noteq> BThrows_bad_alloc" "w_answers w = []" "max_file_bytes opts < 2 ^ 64"
  shows "\<exists>cands rejected. load_checkpoints os opts be lim paths cs rs w = (w, Ret (cands, rejected)) \<and> set cs \<subseteq> set cands \<and>
    (\<forall>c. verified opts be lim (w_nodes w) c \<longrightarrow> lc_path c \<in> set paths \<longrightarrow> c \<in> set cands)"
proof (induction paths arbitrary: cs rs)
  case (Cons p paths)
  obtain w1 x where x: "load_checkpoint os opts be lim p w = (w1, x)" by fastforce
  note q = quiet_load_world[OF assms(2) x]
  have "loadBytes bytes be \<noteq> Bad_alloc" for bytes using assms(1)[of bytes] by (auto simp: loadBytes_def split: backend_call.splits)
  then have "x \<noteq> Bad_alloc" using x by (auto simp: load_checkpoint_def split: prod.splits sum.splits flow.splits if_splits)
  then obtain y where y: "x = Ret y" by (cases x) auto
  have p: "y = Inr c" if "verified opts be lim (w_nodes w) c" "lc_path c = p" for c
    using quiet_load_checkpoint[OF assms(2,3) that(1), of os] x y unfolding that(2) by simp
  show ?case
  proof (cases y)
    case (Inl e)
    from Cons.IH[of cs "rs @ [(p, e)]"] Inl p show ?thesis using x y q by auto
  next
    case (Inr d)
    from Cons.IH[of "cs @ [d]" rs] Inr p show ?thesis using x y q by auto
  qed
qed simp

lemma tries_until_synced:
  assumes "\<And>c s. c \<in> set cs \<Longrightarrow> \<exists>s' cfg r. synchronize rt s (lc_config c) v = Some (s', cfg, Ret r)"
    and "c \<in> set cs" "\<And>s. \<exists>s' cfg. synchronize rt s (lc_config c) v = Some (s', cfg, Ret (Inr InSync)) \<and> vc_version cfg = v"
  shows "\<exists>s' search pr. try_candidates rt v cs rejected s = Some (s', Ret (Inr search)) \<and> rs_candidate search = Some pr"
  using assms(1,2)
proof (induction cs arbitrary: rejected s)
  case (Cons d cs)
  from Cons.prems(1)[of d s] obtain s1 cfg r where d: "synchronize rt s (lc_config d) v = Some (s1, cfg, Ret r)" by auto
  show ?case
  proof (cases "r = Inr InSync \<and> vc_version cfg = v")
    case True
    with d show ?thesis by auto
  next
    case False
    have "c \<noteq> d" using False d assms(3)[of s] by auto
    then have "c \<in> set cs" using Cons.prems(2) by simp
    from Cons.IH[OF Cons.prems(1) this] have ih: "\<exists>s' search pr. try_candidates rt v cs rej s1 = Some (s', Ret (Inr search)) \<and> rs_candidate search = Some pr" for rej
      by auto
    show ?thesis
    proof (cases r)
      case (Inl e)
      with d ih show ?thesis by simp
    next
      case (Inr status)
      with False d ih show ?thesis by auto
    qed
  qed
qed simp

lemma restore_finds_one:
  assumes quiet: "w_answers w = []" and "max_file_bytes opts < 2 ^ 64" "supportsVersion rt v"
    and dir: "w_nodes w (checkpoint_directory opts) = Some Directory"
      "\<And>p. p \<in> set (os_listing os (w_nodes w) (checkpoint_directory opts)) \<Longrightarrow> w_nodes w p \<noteq> None"
    and backend: "\<And>bytes. be_load be bytes \<noteq> BThrows_bad_alloc"
    and runtime: "\<And>c s. verified opts be (Some v) (w_nodes w) c \<Longrightarrow> \<exists>s' cfg r. synchronize rt s (lc_config c) v = Some (s', cfg, Ret r)"
    and good: "lc_path c \<in> set (checkpoints os opts (w_nodes w))" "verified opts be (Some v) (w_nodes w) c"
      "\<And>s. \<exists>s' cfg. synchronize rt s (lc_config c) v = Some (s', cfg, Ret (Inr InSync)) \<and> vc_version cfg = v"
  shows "\<exists>s' w' search pr. cpPrepareRestore os opts be rt v s w = Some (s', w', Ret (Inr search)) \<and> rs_candidate search = Some pr"
proof -
  let ?paths = "checkpoints os opts (w_nodes w)"
  from loads_all[OF backend quiet assms(2), of os "Some v" ?paths "[]" "[]"] good(1,2) obtain cands rejected where
    l: "load_checkpoints os opts be (Some v) ?paths [] [] w = (w, Ret (cands, rejected))" and c: "c \<in> set cands" by blast
  have "\<exists>s' cfg r. synchronize rt s (lc_config d) v = Some (s', cfg, Ret r)" if "d \<in> set (std_sort restore_before cands)" for d s
  proof (rule runtime)
    show "verified opts be (Some v) (w_nodes w) d" using load_checkpoints_loaded[OF l] assms(2) that by auto
  qed
  moreover have "c \<in> set (std_sort restore_before cands)" using c by simp
  ultimately obtain s' search pr where
    "try_candidates rt v (std_sort restore_before cands) rejected s = Some (s', Ret (Inr search))" "rs_candidate search = Some pr"
    using tries_until_synced[OF _ _ good(3)] by metis
  then show ?thesis using assms(3) quiet_checkpointFiles[OF quiet dir] l by (simp add: cpPrepareRestore_unfold)
qed

end
