(* ===== verification/Checkpoint_Prune.thy ===== *)
theory Checkpoint_Prune
  imports Checkpoint_Restore
begin

text \<open>
  Prune, and the names of checkpoints. What prune keeps is stated without the groups and sorts of the
  source: the newest verified checkpoint of each version, for the \<open>retention\<close> newest of these.
\<close>

section \<open>Grouping by version\<close>

abbreviation as_file :: "loaded_candidate \<Rightarrow> checkpoint_file" where
  "as_file c \<equiv> \<lparr>cf_path = lc_path c, cf_modified = lc_modified c\<rparr>"

lemma push_version_keys: "set (map fst (push_version v f g)) = insert v (fst ` set g)"
  by (induction v f g rule: push_version.induct) auto

lemma push_version_sorted: "sorted_wrt (<) (map fst g) \<Longrightarrow> sorted_wrt (<) (map fst (push_version v f g))"
  by (induction v f g rule: push_version.induct) (use push_version_keys in \<open>fastforce simp del: map_map\<close>)+

lemma push_version_lookup:
  "sorted_wrt (<) (map fst g) \<Longrightarrow> map_of (push_version v f g) =
     (map_of g)(v \<mapsto> (case map_of g v of None \<Rightarrow> [f] | Some fs \<Rightarrow> fs @ [f]))"
proof (induction v f g rule: push_version.induct)
  case (2 v f u fs g)
  have less: "map_of g v = None" if "v \<le> u"
    using 2(2) that by (force simp: map_of_eq_None_iff)
  show ?case
  proof (cases "v < u")
    case True
    with less show ?thesis by (auto simp: fun_eq_iff)
  next
    case False
    with 2 show ?thesis by (cases "v = u") (auto simp: fun_eq_iff)
  qed
qed simp

definition of_version :: "loaded_candidate list \<Rightarrow> version_id \<Rightarrow> checkpoint_file list" where
  "of_version L v = map as_file (filter (\<lambda>c. lc_source_version c = v) L)"

lemma group_versions_lookup:
  "sorted_wrt (<) (map fst (group_versions L)) \<and>
   map_of (group_versions L) = (\<lambda>v. if of_version L v = [] then None else Some (of_version L v))"
proof (induction L rule: rev_induct)
  case Nil
  then show ?case by (simp add: group_versions_def of_version_def fun_eq_iff)
next
  case (snoc c L)
  have g: "group_versions (L @ [c]) = push_version (lc_source_version c) (as_file c) (group_versions L)" by (simp add: group_versions_def)
  show ?case unfolding g using snoc push_version_sorted push_version_lookup
    by (auto simp: of_version_def fun_eq_iff)
qed

lemma sorted_less_distinct: "sorted_wrt (<) (xs :: 'a :: linorder list) \<Longrightarrow> distinct xs"
  by (induction xs) auto

lemma group_versions_iff: "(v, fs) \<in> set (group_versions L) \<longleftrightarrow> fs = of_version L v \<and> fs \<noteq> []"
proof -
  have "distinct (map fst (group_versions L))" using group_versions_lookup[of L] sorted_less_distinct by blast
  then have "(v, fs) \<in> set (group_versions L) \<longleftrightarrow> map_of (group_versions L) v = Some fs" by simp
  with group_versions_lookup[of L] show ?thesis by auto
qed

section \<open>What prune keeps\<close>

definition newer :: "loaded_candidate \<Rightarrow> loaded_candidate \<Rightarrow> bool" where
  "newer c d \<longleftrightarrow> lc_modified c > lc_modified d \<or> (lc_modified c = lc_modified d \<and> string_less (lc_path c) (lc_path d))"

lemma newer_before: "newer c d \<longleftrightarrow> prune_before (as_file c) (as_file d)"
  by (auto simp: newer_def prune_before_def)

definition version_head :: "loaded_candidate list \<Rightarrow> loaded_candidate \<Rightarrow> bool" where
  "version_head L c \<longleftrightarrow> list_all (\<lambda>d. lc_source_version d = lc_source_version c \<longrightarrow> \<not> newer d c) L"

definition kept :: "nat \<Rightarrow> loaded_candidate list \<Rightarrow> loaded_candidate \<Rightarrow> bool" where
  "kept keep L c \<longleftrightarrow> version_head L c \<and> card {h \<in> set L. version_head L h \<and> newer h c} < keep"

lemma as_file_inj: "distinct (map lc_path L) \<Longrightarrow> inj_on as_file (set L)"
  by (auto simp: inj_on_def distinct_map)

lemma files_separated: "distinct (map lc_path L) \<Longrightarrow> separated_by prune_before (as_file ` set L)"
  using string_less_total by (auto simp: separated_by_def prune_before_def)

lemma separated_subset: "separated_by b A \<Longrightarrow> B \<subseteq> A \<Longrightarrow> separated_by b B"
  by (auto simp: separated_by_def)

lemma of_version_set: "set (of_version L v) = as_file ` {c \<in> set L. lc_source_version c = v}"
  by (auto simp: of_version_def)

lemma of_version_sorted:
  assumes "distinct (map lc_path L)"
  shows "sorted_wrt prune_before (std_sort prune_before (of_version L v))"
proof (rule prune_order.std_sort_strict)
  have "distinct (map cf_path (of_version L v))"
    using distinct_map_filter[OF assms] by (simp add: of_version_def comp_def)
  then show "distinct (of_version L v)" by (simp only: distinct_map)
  show "separated_by prune_before (set (of_version L v))"
    by (rule separated_subset[OF files_separated[OF assms]]) (auto simp: of_version_set)
qed

lemma tails:
  assumes "distinct (map lc_path L)"
  shows "as_file c \<in> set (tl (std_sort prune_before (of_version L v))) \<and> c \<in> set L \<longleftrightarrow>
    c \<in> set L \<and> lc_source_version c = v \<and> \<not> version_head L c"
proof -
  note b = prune_order.before_in_tl[OF of_version_sorted[OF assms, of v], of "as_file c"]
  have "as_file c \<in> set (of_version L v) \<longleftrightarrow> lc_source_version c = v" if "c \<in> set L"
    using that as_file_inj[OF assms] unfolding of_version_set by (auto simp: inj_on_def)
  then show ?thesis using b by (auto simp: of_version_set version_head_def newer_before list_all_iff)
qed

definition head_of :: "loaded_candidate list \<Rightarrow> version_id \<Rightarrow> checkpoint_file" where
  "head_of L v = hd (std_sort prune_before (of_version L v))"

lemma head_of_file: "of_version L v \<noteq> [] \<Longrightarrow> \<exists>c \<in> set L. lc_source_version c = v \<and> head_of L v = as_file c"
proof -
  assume "of_version L v \<noteq> []"
  then have "head_of L v \<in> set (std_sort prune_before (of_version L v))" unfolding head_of_def by (intro hd_in_set) simp
  then show ?thesis by (auto simp: of_version_set)
qed

lemma head_of_iff:
  assumes "distinct (map lc_path L)" "c \<in> set L"
  shows "head_of L (lc_source_version c) = as_file c \<longleftrightarrow> version_head L c"
proof -
  let ?xs = "std_sort prune_before (of_version L (lc_source_version c))"
  have m: "as_file c \<in> set ?xs" using assms(2) by (auto simp: of_version_set)
  then obtain y ys where xs: "?xs = y # ys" by (cases ?xs) auto
  have "y \<notin> set ys" using of_version_sorted[OF assms(1), of "lc_source_version c"] prune_order.irrefl unfolding xs by auto
  then have "hd ?xs = as_file c \<longleftrightarrow> as_file c \<notin> set (tl ?xs)" using m unfolding xs by auto
  with tails[OF assms(1), of c "lc_source_version c"] assms(2) show ?thesis by (auto simp: head_of_def)
qed

lemma heads_set:
  assumes "distinct (map lc_path L)"
  shows "head_of L ` {v. of_version L v \<noteq> []} = as_file ` {c \<in> set L. version_head L c}"
proof (intro equalityI subsetI)
  fix x assume "x \<in> head_of L ` {v. of_version L v \<noteq> []}"
  then obtain v where "of_version L v \<noteq> []" "x = head_of L v" by blast
  with head_of_file[of L v] head_of_iff[OF assms] show "x \<in> as_file ` {c \<in> set L. version_head L c}" by auto
next
  fix x assume "x \<in> as_file ` {c \<in> set L. version_head L c}"
  then obtain c where c: "c \<in> set L" "version_head L c" "x = as_file c" by blast
  then have "as_file c \<in> set (of_version L (lc_source_version c))" by (auto simp: of_version_set)
  then have "of_version L (lc_source_version c) \<noteq> []" by (metis empty_iff list.set(1))
  moreover have "x = head_of L (lc_source_version c)" using head_of_iff[OF assms c(1)] c(2,3) by simp
  ultimately show "x \<in> head_of L ` {v. of_version L v \<noteq> []}" by simp
qed

lemma heads_inj: "distinct (map lc_path L) \<Longrightarrow> inj_on (head_of L) {v. of_version L v \<noteq> []}"
proof (rule inj_onI)
  fix u v assume d: "distinct (map lc_path L)" and uv: "u \<in> {v. of_version L v \<noteq> []}" "v \<in> {v. of_version L v \<noteq> []}" "head_of L u = head_of L v"
  from head_of_file[of L u] uv(1) obtain c where c: "c \<in> set L" "lc_source_version c = u" "head_of L u = as_file c" by auto
  from head_of_file[of L v] uv(2) obtain c' where c': "c' \<in> set L" "lc_source_version c' = v" "head_of L v = as_file c'" by auto
  have "as_file c = as_file c'" using uv(3) c(3) c'(3) by simp
  with inj_onD[OF as_file_inj[OF d] _ c(1) c'(1)] have "c = c'" by blast
  with c(2) c'(2) show "u = v" by simp
qed

lemma group_keys: "set (map fst (group_versions L)) = {v. of_version L v \<noteq> []}" "distinct (map fst (group_versions L))"
proof -
  show "distinct (map fst (group_versions L))" using group_versions_lookup[of L] sorted_less_distinct by blast
  show "set (map fst (group_versions L)) = {v. of_version L v \<noteq> []}"
    using group_versions_iff[of _ _ L] by (auto simp: image_iff) (metis fst_conv)
qed

lemma group_map: "map (\<lambda>(v, fs). f fs) (group_versions L) = map (\<lambda>v. f (of_version L v)) (map fst (group_versions L))"
  using group_versions_iff[of _ _ L] by (auto simp: comp_def)

lemma newer_heads_card:
  assumes "distinct (map lc_path L)"
  shows "card {y \<in> as_file ` {h \<in> set L. version_head L h}. prune_before y (as_file c)} = card {h \<in> set L. version_head L h \<and> newer h c}"
proof -
  have e: "{y \<in> as_file ` {h \<in> set L. version_head L h}. prune_before y (as_file c)} = as_file ` {h \<in> set L. version_head L h \<and> newer h c}"
    by (auto simp: newer_before)
  have "inj_on as_file {h \<in> set L. version_head L h \<and> newer h c}" by (rule inj_on_subset[OF as_file_inj[OF assms]]) auto
  then show ?thesis unfolding e by (rule card_image)
qed

lemma prune_removals_exact:
  assumes "distinct (map lc_path L)"
  shows "set (prune_removals keep (group_versions L)) = lc_path ` {c \<in> set L. \<not> kept keep L c}"
proof -
  define vs where "vs = map fst (group_versions L)"
  have vs: "set vs = {v. of_version L v \<noteq> []}" "distinct vs" using group_keys[of L] unfolding vs_def by blast+
  let ?tails = "concat (map (\<lambda>v. tl (std_sort prune_before (of_version L v))) vs)" and ?heads = "map (head_of L) vs"
  have p: "prune_removals keep (group_versions L) = map cf_path ?tails @ map cf_path (drop keep (std_sort prune_before ?heads))"
    unfolding prune_removals_def Let_def group_map vs_def[symmetric] map_map comp_def head_of_def ..
  have hs: "set ?heads = as_file ` {c \<in> set L. version_head L c}" using heads_set[OF assms] vs(1) by simp
  have sorted: "sorted_wrt prune_before (std_sort prune_before ?heads)"
  proof (rule prune_order.std_sort_strict)
    show "distinct ?heads" using vs heads_inj[OF assms] by (simp add: distinct_map)
    show "separated_by prune_before (set ?heads)" unfolding hs by (rule separated_subset[OF files_separated[OF assms]]) auto
  qed
  have drop: "x \<in> set (drop keep (std_sort prune_before ?heads)) \<longleftrightarrow> (\<exists>c \<in> set L. x = as_file c \<and> version_head L c \<and> \<not> kept keep L c)" for x
  proof -
    have "x \<in> set (drop keep (std_sort prune_before ?heads)) \<longleftrightarrow> x \<in> as_file ` {c \<in> set L. version_head L c} \<and>
        keep \<le> card {y \<in> as_file ` {h \<in> set L. version_head L h}. prune_before y x}"
      using prune_order.before_in_drop[OF sorted, of x keep] unfolding set_std_sort hs .
    also have "\<dots> \<longleftrightarrow> (\<exists>c \<in> set L. x = as_file c \<and> version_head L c \<and> \<not> kept keep L c)"
      using newer_heads_card[OF assms] unfolding kept_def not_less by auto
    finally show ?thesis .
  qed
  have tails: "x \<in> set ?tails \<longleftrightarrow> (\<exists>c \<in> set L. x = as_file c \<and> \<not> version_head L c)" for x
  proof
    assume "x \<in> set ?tails"
    then obtain v where v: "x \<in> set (tl (std_sort prune_before (of_version L v)))" by auto
    then have "x \<in> set (std_sort prune_before (of_version L v))" by (metis list.sel(2) list.set_sel(2))
    then obtain c where "c \<in> set L" "x = as_file c" by (auto simp: of_version_set)
    with v tails[OF assms, of c v] show "\<exists>c \<in> set L. x = as_file c \<and> \<not> version_head L c" by blast
  next
    assume "\<exists>c \<in> set L. x = as_file c \<and> \<not> version_head L c"
    then obtain c where c: "c \<in> set L" "x = as_file c" "\<not> version_head L c" by blast
    with tails[OF assms, of c "lc_source_version c"] have t: "x \<in> set (tl (std_sort prune_before (of_version L (lc_source_version c))))" by blast
    moreover have "as_file c \<in> set (of_version L (lc_source_version c))" using c(1) by (auto simp: of_version_set)
    then have "lc_source_version c \<in> set vs" unfolding vs(1) by (metis empty_iff list.set(1) mem_Collect_eq)
    ultimately show "x \<in> set ?tails" by auto
  qed
  have "set (prune_removals keep (group_versions L)) = cf_path ` {x. x \<in> set ?tails \<or> x \<in> set (drop keep (std_sort prune_before ?heads))}"
    unfolding p by auto
  also have "{x. x \<in> set ?tails \<or> x \<in> set (drop keep (std_sort prune_before ?heads))} = as_file ` {c \<in> set L. \<not> kept keep L c}"
    unfolding tails drop by (auto simp: kept_def)
  also have "cf_path ` as_file ` {c \<in> set L. \<not> kept keep L c} = lc_path ` {c \<in> set L. \<not> kept keep L c}" by (simp add: image_image)
  finally show ?thesis .
qed

section \<open>Removing\<close>

definition removes :: "path set \<Rightarrow> fsys \<Rightarrow> fsys \<Rightarrow> bool" where
  "removes ps old ns \<longleftrightarrow> (\<forall>q. ns q = old q \<or> (q \<in> ps \<and> ns q = None))"

lemma remove_all_removes:
  "remove_all os ps removed w = (w', r) \<Longrightarrow> safe (removes (set ps) (w_nodes w)) w w' \<and>
     (case r of Inl e \<Rightarrow> err_code e = StorageError
      | Inr rs \<Rightarrow> rs = removed @ ps \<and> w_nodes w' = (\<lambda>q. if q \<in> set ps then None else w_nodes w q))"
proof (induction ps arbitrary: removed w)
  case (Cons p ps)
  obtain w1 x where x: "fs_remove p w = (w1, x)" by fastforce
  note f = remove_file[OF x]
  have s: "safe (removes (set (p # ps)) (w_nodes w)) w w1"
  proof (cases x)
    case (Some e)
    with f have "w_nodes w1 = w_nodes w" by simp
    then show ?thesis using x by (cases "next_answer w") (auto simp: fs_remove_def Some dest: safe_answer split: answer.splits if_splits)
  next
    case None
    obtain a w2 where a: "next_answer w = (a, w2)" by (cases "next_answer w")
    have "removes (set (p # ps)) (w_nodes w) ((w_nodes w)(p := None))" by (auto simp: removes_def)
    then show ?thesis using x None safe_answer[OF a] safe_put[OF a] by (cases a) (auto simp: fs_remove_def a split: if_splits)
  qed
  show ?case
  proof (cases x)
    case (Some e)
    with Cons.prems x s show ?thesis by (auto simp: fail_def simp del: Inl_fold_fail)
  next
    case None
    with f have n: "w_nodes w1 = (w_nodes w)(p := None)" by simp
    from Cons.prems x None have "remove_all os ps (removed @ [p]) w1 = (w', r)" by simp
    note ih = Cons.IH[OF this]
    have "safe (removes (set (p # ps)) (w_nodes w)) w1 w'"
      by (rule safe_mono[OF ih[THEN conjunct1]]) (auto simp: removes_def n split: if_splits)
    moreover have "case r of Inl e \<Rightarrow> err_code e = StorageError
      | Inr rs \<Rightarrow> rs = removed @ p # ps \<and> w_nodes w' = (\<lambda>q. if q \<in> set (p # ps) then None else w_nodes w q)"
      using ih[THEN conjunct2] by (auto simp: n fun_eq_iff split: sum.splits)
    ultimately show ?thesis using safe_trans[OF s] by auto
  qed
qed auto

text \<open>What the system promises of a listing: each entry once, as the directory joined with a name.\<close>

definition lists_entries :: "os \<Rightarrow> bool" where
  "lists_entries os \<longleftrightarrow> (\<forall>ns dir. distinct (os_listing os ns dir) \<and>
     (\<forall>p \<in> set (os_listing os ns dir). \<exists>f. CHR ''/'' \<notin> set f \<and> p = append_path dir f))"

lemma checkpoints_distinct: "lists_entries os \<Longrightarrow> distinct (checkpoints os opts ns)"
  by (auto simp: checkpoints_def lists_entries_def)

lemma canonical_not_listed: "lists_entries os \<Longrightarrow> separate opts \<Longrightarrow> canonical_path opts \<notin> set (checkpoints os opts ns)"
proof
  assume l: "lists_entries os" and s: "separate opts" and c: "canonical_path opts \<in> set (checkpoints os opts ns)"
  from c have "canonical_path opts \<in> set (os_listing os ns (checkpoint_directory opts))" by (auto simp: checkpoints_def split: if_splits)
  with l obtain f where f: "CHR ''/'' \<notin> set f" "canonical_path opts = append_path (checkpoint_directory opts) f"
    unfolding lists_entries_def by blast
  from entry_parent[OF f(1)] s f(2) show False unfolding separate_def by metis
qed

definition prunes :: "os \<Rightarrow> checkpoint_options \<Rightarrow> backend \<Rightarrow> world \<Rightarrow> world \<Rightarrow> (error + prune_report) \<Rightarrow> bool" where
  "prunes os opts be w w' r \<longleftrightarrow> (\<exists>loaded rejected.
     mset (checkpoints os opts (w_nodes w)) = mset (map lc_path loaded) + mset (map fst rejected) \<and>
     (\<forall>x \<in> set rejected. refused os opts be None (w_nodes w) x) \<and>
     (\<forall>c \<in> set loaded. verified opts be None (w_nodes w) c) \<and>
     safe (removes (lc_path ` {c \<in> set loaded. \<not> kept (retention opts) loaded c}) (w_nodes w)) w w' \<and>
     (case r of Inl e \<Rightarrow> err_code e = StorageError
      | Inr report \<Rightarrow> pp_rejected report = rejected \<and>
          set (pp_removed report) = lc_path ` {c \<in> set loaded. \<not> kept (retention opts) loaded c} \<and>
          w_nodes w' = (\<lambda>q. if q \<in> set (pp_removed report) then None else w_nodes w q)))"

lemma prune_prunes:
  assumes "cpPrune os opts be w = (w', r)" "lists_entries os" "max_file_bytes opts < 2 ^ 64"
  shows "(unchanged w w' \<and> (r = Bad_alloc \<or> (\<exists>e. r = Ret (Inl e)))) \<or> (\<exists>x. r = Ret x \<and> prunes os opts be w w' x)"
proof -
  obtain w1 x where x: "checkpointFiles os opts w = (w1, x)" by fastforce
  note f = checkpointFiles_files[OF x]
  show ?thesis
  proof (cases x)
    case (Inl e)
    with assms(1) x have "w' = w1" "r = Ret (Inl e)" by (simp_all add: cpPrune_unfold)
    with f show ?thesis by blast
  next
    case (Inr paths)
    obtain w2 y where y: "load_checkpoints os opts be None paths [] [] w1 = (w2, y)" by fastforce
    note u = f[THEN conjunct1]
    note l = load_checkpoints_loaded[OF y, unfolded unchanged_nodes[OF u]]
    have u2: "unchanged w w2" using unchanged_trans[OF u] l by blast
    have paths: "paths = checkpoints os opts (w_nodes w)" using f Inr by simp
    show ?thesis
    proof (cases y)
      case Bad_alloc
      with assms(1) x Inr y have "w' = w2" "r = Bad_alloc" by (simp_all add: cpPrune_unfold)
      with u2 show ?thesis by blast
    next
      case (Ret cr)
      obtain loaded rejected where cr: "cr = (loaded, rejected)" by fastforce
      let ?ps = "prune_removals (retention opts) (group_versions loaded)"
      obtain w3 z where z: "remove_all os ?ps [] w2 = (w3, z)" by fastforce
      note rm = remove_all_removes[OF z, unfolded unchanged_nodes[OF u2]]
      from l Ret cr assms(3) have h: "mset paths = mset (map lc_path loaded) + mset (map fst rejected)"
        "\<forall>x \<in> set rejected. refused os opts be None (w_nodes w) x" "\<forall>c \<in> set loaded. verified opts be None (w_nodes w) c" by auto
      have "distinct (map lc_path loaded @ map fst rejected)"
        using checkpoints_distinct[OF assms(2), of opts "w_nodes w"] mset_eq_imp_distinct_iff[of paths "map lc_path loaded @ map fst rejected"] h(1)
        unfolding paths by simp
      then have "distinct (map lc_path loaded)" by simp
      note ex = prune_removals_exact[OF this, of "retention opts"]
      define rep where "rep = (case z of Inl e \<Rightarrow> Inl e | Inr removed \<Rightarrow> Inr \<lparr>pp_removed = removed, pp_rejected = rejected\<rparr>)"
      have r: "w' = w3" "r = Ret rep" using assms(1) x Inr y Ret cr z by (simp_all add: cpPrune_unfold rep_def split: sum.splits)
      have "safe (removes (lc_path ` {c \<in> set loaded. \<not> kept (retention opts) loaded c}) (w_nodes w)) w w'"
        using safe_trans[OF unchanged_safe[OF u2]] rm unfolding r(1) ex by blast
      moreover have "case rep of Inl e \<Rightarrow> err_code e = StorageError
        | Inr report \<Rightarrow> pp_rejected report = rejected \<and>
          set (pp_removed report) = lc_path ` {c \<in> set loaded. \<not> kept (retention opts) loaded c} \<and>
          w_nodes w' = (\<lambda>q. if q \<in> set (pp_removed report) then None else w_nodes w q)"
        using rm[THEN conjunct2] unfolding rep_def r(1) ex[symmetric] by (cases z) simp_all
      ultimately have "prunes os opts be w w' rep" unfolding prunes_def using h unfolding paths by blast
      with r(2) show ?thesis by blast
    qed
  qed
qed

text \<open>Prune leaves the canonical file and everything that is not a checkpoint alone.\<close>

lemma prunes_keeps_others:
  assumes "prunes os opts be w w' x" "q \<notin> set (checkpoints os opts (w_nodes w))"
  shows "safe (\<lambda>ns. ns q = w_nodes w q) w w'"
proof -
  from assms(1) obtain loaded and rejected :: "rejection list" where
    m: "mset (checkpoints os opts (w_nodes w)) = mset (map lc_path loaded) + mset (map fst rejected)"
    and s: "safe (removes (lc_path ` {c \<in> set loaded. \<not> kept (retention opts) loaded c}) (w_nodes w)) w w'"
    unfolding prunes_def by blast
  have "set (checkpoints os opts (w_nodes w)) = set (map lc_path loaded) \<union> set (map fst rejected)"
    using m by (metis mset_append set_append set_mset_mset)
  with assms(2) have "q \<notin> lc_path ` {c \<in> set loaded. \<not> kept (retention opts) loaded c}" by auto
  then show ?thesis by (intro safe_mono[OF s]) (auto simp: removes_def)
qed

section \<open>Names\<close>

lemma extension_shape: "extension p = [] \<or> (\<exists>e. extension p = CHR ''.'' # e \<and> CHR ''.'' \<notin> set e)"
proof -
  define f where "f = filename p"
  define d where "d = dropWhile (\<lambda>c. c \<noteq> CHR ''.'') (rev f)"
  define e where "e = takeWhile (\<lambda>c. c \<noteq> CHR ''.'') (rev f)"
  have f: "f = rev d @ rev e" unfolding d_def e_def by (metis rev_append rev_rev_ident takeWhile_dropWhile_id)
  show ?thesis
  proof (cases "f = ''..'' \<or> CHR ''.'' \<notin> set f \<or> rev (tl d) = []")
    case True
    then have "stem p = f" unfolding stem_def Let_def f_def[symmetric] d_def[symmetric] by simp
    then show ?thesis by (simp add: extension_def f_def)
  next
    case False
    then have s: "stem p = rev (tl d)" unfolding stem_def Let_def f_def[symmetric] d_def[symmetric] by simp
    have "d \<noteq> []" using False by auto
    then have "hd d = CHR ''.''" unfolding d_def using hd_dropWhile[of "\<lambda>c. c \<noteq> CHR ''.''" "rev f"] by simp
    with \<open>d \<noteq> []\<close> have d: "rev d = rev (tl d) @ ''.''" by (cases d) auto
    have "extension p = ''.'' @ rev e" unfolding extension_def s f_def[symmetric] f d by simp
    moreover have "CHR ''.'' \<notin> set (rev e)" unfolding e_def by (auto dest: set_takeWhileD)
    ultimately show ?thesis by auto
  qed
qed

lemma checkpointFilename_parts:
  assumes "ext = [] \<or> (\<exists>e. ext = CHR ''.'' # e \<and> CHR ''.'' \<notin> set e)" "CHR ''/'' \<notin> set ext"
    and "list_all is_digit ds" "ds \<noteq> []"
  shows "stem (append_path dir (ds @ ext)) = ds" "extension (append_path dir (ds @ ext)) = ext"
proof -
  have "CHR ''/'' \<notin> set (ds @ ext)" using assms(2,3) by (auto simp: list_all_iff is_digit_def)
  note f = filename_append[OF this, of dir]
  have dot: "CHR ''.'' \<notin> set ds" using assms(3) by (auto simp: list_all_iff is_digit_def)
  show s: "stem (append_path dir (ds @ ext)) = ds"
  proof (cases "ext = []")
    case True
    with dot show ?thesis unfolding stem_def Let_def f by simp
  next
    case False
    with assms(1) obtain e where e: "ext = CHR ''.'' # e" "CHR ''.'' \<notin> set e" by blast
    have r: "rev (ds @ ext) = rev e @ CHR ''.'' # rev ds" by (simp add: e(1))
    have "dropWhile (\<lambda>c. c \<noteq> CHR ''.'') (rev (ds @ ext)) = CHR ''.'' # rev ds"
      unfolding r by (subst dropWhile_append2) (use e(2) in auto)
    moreover have "ds @ ext \<noteq> ''..''" using dot assms(4) by (cases ds) auto
    ultimately show ?thesis using assms(4) e(1) unfolding stem_def Let_def f by simp
  qed
  show "extension (append_path dir (ds @ ext)) = ext" unfolding extension_def s f by simp
qed

lemma nat_str_length: "n < 10 ^ Suc k \<Longrightarrow> length (nat_str n) \<le> Suc k"
proof (induction k arbitrary: n)
  case 0
  then show ?case by (subst nat_str.simps) simp
next
  case (Suc k)
  show ?case
  proof (cases "n < 10")
    case True
    then show ?thesis by (subst nat_str.simps) simp
  next
    case False
    have "n div 10 < 10 ^ Suc k" using Suc.prems by (simp add: less_mult_imp_div_less)
    from Suc.IH[OF this] False show ?thesis by (subst nat_str.simps) simp
  qed
qed

lemma digits_val_zeros: "digits_val (replicate k CHR ''0'' @ s) = digits_val s"
  by (induction k) (simp_all add: digits_val_def digit_val_def)

definition version_digits :: "version_id \<Rightarrow> string" where
  "version_digits v = (let s = nat_str (unat v) in replicate (10 - length s) CHR ''0'' @ s)"

lemma version_digits: "length (version_digits v) = 10" "list_all is_digit (version_digits v)" "digits_val (version_digits v) = unat v"
proof -
  have "unat v < 2 ^ 32" using unsigned_less[of v, where ?'a = nat] by simp
  then have "unat v < 10 ^ Suc 9" by simp
  from nat_str_length[OF this] show "length (version_digits v) = 10" by (simp add: version_digits_def Let_def)
  show "list_all is_digit (version_digits v)" using nat_str_digits[of _ "unat v"]
    by (auto simp: version_digits_def Let_def list_all_iff is_digit_def)
  show "digits_val (version_digits v) = unat v" by (simp add: version_digits_def Let_def digits_val_zeros)
qed

lemma checkpoint_name:
  "isCheckpointFilename (checkpoint_path opts v) (extension (canonical_path opts))"
  "digits_val (stem (checkpoint_path opts v)) = unat v"
proof -
  let ?ext = "extension (canonical_path opts)"
  have p: "checkpoint_path opts v = append_path (checkpoint_directory opts) (version_digits v @ ?ext)"
    by (simp add: checkpoint_path_def checkpointFilename_def version_digits_def Let_def)
  have ne: "version_digits v \<noteq> []" using version_digits(1)[of v] by auto
  have q: "stem (append_path dir (version_digits v @ ?ext)) = version_digits v" "extension (append_path dir (version_digits v @ ?ext)) = ?ext" for dir
    by (intro checkpointFilename_parts extension_shape extension_no_slash version_digits(2) ne)+
  show "isCheckpointFilename (checkpoint_path opts v) ?ext" using version_digits(1,2)[of v] by (simp add: isCheckpointFilename_def p q)
  show "digits_val (stem (checkpoint_path opts v)) = unat v" by (simp add: p q version_digits(3))
qed

lemma checkpoint_path_inject: "checkpoint_path opts u = checkpoint_path opts v \<Longrightarrow> u = v"
  using checkpoint_name(2)[of opts u] checkpoint_name(2)[of opts v] by (simp add: word_unat_eq_iff)

text \<open>A capture that succeeded is a checkpoint restore will find.\<close>

lemma captured_verified:
  assumes "cpCapture os opts config be w = (w', Ret (Inr u))" "separate opts" "max_file_bytes opts < 2 ^ 64"
  shows "is_checkpoint opts (w_nodes w') (checkpoint_path opts (vc_version config)) \<and>
    (\<exists>c. verified opts be (Some (vc_version config)) (w_nodes w') c \<and>
      lc_path c = checkpoint_path opts (vc_version config) \<and> lc_source_version c = vc_version config)"
proof -
  let ?dst = "checkpoint_path opts (vc_version config)"
  from capture_captures[OF assms] obtain bytes loaded source where
    b: "length bytes \<le> max_file_bytes opts" "loadBytes bytes be = Ret (Inr loaded)" "vc_version loaded = vc_version config"
    and r: "replaces ?dst (ancestors (checkpoint_directory opts)) bytes source w w' (Inr u)"
    unfolding captures_def by auto
  from r obtain mode t where n: "w_nodes w' ?dst = Some (RegularFile bytes mode t)" unfolding replaces_def by auto
  have "verified opts be (Some (vc_version config)) (w_nodes w')
      \<lparr>lc_path = ?dst, lc_source_version = vc_version config, lc_modified = t, lc_config = loaded\<rparr>"
    using n b by (auto simp: verified_def)
  moreover have "is_checkpoint opts (w_nodes w') ?dst"
    using n checkpoint_name(1)[of opts] by (simp add: is_checkpoint_def is_regular_def)
  ultimately show ?thesis by force
qed

end
