(* ===== verification/Checkpoint_Json.thy ===== *)
theory Checkpoint_Json
  imports Checkpoint_Prune Json_Save
begin

text \<open>
  The checkpoint store with the JSON backend: a configuration that was committed and then captured
  is in the checkpoint, value for value.
\<close>

text \<open>\<open>JsonInterface\<close> behind \<open>IConfigInterface\<close>, on the string streams of \<open>loadBytes\<close> and \<open>saveBytes\<close>.\<close>

definition json_backend :: "(double json \<Rightarrow> dump_outcome) \<Rightarrow> json_parser \<Rightarrow> load_limits \<Rightarrow> backend" where
  "json_backend dump parser L = \<lparr>
     be_load = (\<lambda>bytes. case the (json_load parser L (Some (if bytes = [] then [] else [bytes]))) of
       Ret r \<Rightarrow> BReturns r | Bad_alloc \<Rightarrow> BThrows_bad_alloc),
     be_save = (\<lambda>config. case the (json_save dump config (\<lambda>t. True)) of
       (t, r) \<Rightarrow> ((case t of None \<Rightarrow> [] | Some s \<Rightarrow> s), True, case r of Ret x \<Rightarrow> BReturns x | Bad_alloc \<Rightarrow> BThrows_bad_alloc))\<rparr>"

lemma json_backend_roundtrip:
  assumes "models (vc_model config) v" and "finite_doubles v" and "\<not> cv_contains v kVersionKey"
    and "cv_nodes v \<le> maxNodes L" "maxNodes L < kNodeIdNone" "maxInputBytes L < 2 ^ 64"
    and "dump (spec_save config v) = DText t" and "\<And>d. float_literal (lit d)"
    and "parser (t @ [CHR 0x0A]) = (events_of (printed lit (spec_save config v)), PDone)" "length t < maxInputBytes L"
  shows "saveBytes config (json_backend dump parser L) = Ret (Inr (t @ [CHR 0x0A]))"
    "\<exists>m. loadBytes (t @ [CHR 0x0A]) (json_backend dump parser L) = Ret (Inr \<lparr>vc_version = vc_version config, vc_model = m\<rparr>) \<and> models m v"
proof -
  have c: "concat [t @ [CHR 0x0A]] = t @ [CHR 0x0A]" "[] \<notin> set [t @ [CHR 0x0A]]" by simp_all
  note j = json_roundtrip[where parser = parser and lit = lit and dump = dump, OF assms(1-9) c assms(10)]
  show "saveBytes config (json_backend dump parser L) = Ret (Inr (t @ [CHR 0x0A]))"
    using j(1)[of "\<lambda>t. True"] by (simp add: saveBytes_def json_backend_def)
  show "\<exists>m. loadBytes (t @ [CHR 0x0A]) (json_backend dump parser L) = Ret (Inr \<lparr>vc_version = vc_version config, vc_model = m\<rparr>) \<and> models m v"
    using j(2) by (auto simp: loadBytes_def json_backend_def)
qed

lemma commit_then_capture:
  assumes "cpCommit os opts config be w = (w1, Ret (Inr u))" "cpCapture os opts config be w1 = (w2, Ret (Inr u'))"
    and "separate opts" "proper_file (canonical_path opts)" "max_file_bytes opts < 2 ^ 64"
    and "saveBytes config be = Ret (Inr bytes)" "loadBytes bytes be = Ret (Inr loaded)"
  shows "\<exists>mode t mode' t'. w_nodes w2 (canonical_path opts) = Some (RegularFile bytes mode t) \<and>
    w_nodes w2 (checkpoint_path opts (vc_version config)) = Some (RegularFile bytes mode' t') \<and>
    verified opts be (Some (vc_version config)) (w_nodes w2)
      \<lparr>lc_path = checkpoint_path opts (vc_version config), lc_source_version = vc_version config, lc_modified = t', lc_config = loaded\<rparr>"
proof -
  from commit_replaces[OF assms(1,4)] assms(6) have
    "replaces (canonical_path opts) (ancestors (parentOrCurrent (canonical_path opts))) bytes (canonical_path opts) w w1 (Inr u)" by auto
  then obtain mode t where can: "w_nodes w1 (canonical_path opts) = Some (RegularFile bytes mode t)" unfolding replaces_def by auto
  from capture_captures[OF assms(2,3,5)] can assms(7) obtain source where
    b: "length bytes \<le> max_file_bytes opts" "vc_version loaded = vc_version config"
    and r: "replaces (checkpoint_path opts (vc_version config)) (ancestors (checkpoint_directory opts)) bytes source w1 w2 (Inr u')"
    and s: "safe (\<lambda>ns. ns (canonical_path opts) = w_nodes w1 (canonical_path opts)) w1 w2"
    unfolding captures_def by auto
  from r obtain mode' t' where "w_nodes w2 (checkpoint_path opts (vc_version config)) = Some (RegularFile bytes mode' t')"
    unfolding replaces_def by auto
  with can safe_now[OF s] b assms(7) show ?thesis by (auto simp: verified_def)
qed

end
