(* ===== verification/Alloc_Failure.thy ===== *)
theory Alloc_Failure
  imports Model_Refinement Version_Catalog
begin

text \<open>
  \<open>ConfigModel::set\<close> when memory runs out: the \<open>SubtreeGuard\<close>s of \<open>config_model.cpp\<close>. A list of
  answers says which allocations succeed (when it is used up, all do); a failing one is the
  \<open>std::bad_alloc\<close> that unwinds through the guards of the frames it leaves. The operations here
  return the answers left, the arena after unwinding and whether they completed; \<open>None\<close> is undefined
  behaviour, as in \<open>Config_Model\<close>. Where an allocation may or may not happen (a \<open>reserve\<close> within the
  capacity, a string short enough to be stored in place) the model lets it fail.
\<close>

section \<open>The guarded operations\<close>

definition alloc_ok :: "bool list \<Rightarrow> bool \<times> bool list" where
  "alloc_ok as = (case as of [] \<Rightarrow> (True, []) | b # bs \<Rightarrow> (b, bs))"

text \<open>\<open>~SubtreeGuard\<close> with an id.\<close>

definition guard_frees :: "arena \<Rightarrow> nat \<Rightarrow> arena option" where
  "guard_frees ar i = freeSubtree stack_fuel ar i"

text \<open>Only growing the vector of nodes allocates; a slot of the free list is there already.\<close>

definition try_allocate :: "bool list \<Rightarrow> arena \<Rightarrow> node_type \<Rightarrow> (bool list \<times> arena \<times> nat option) option" where
  "try_allocate as ar ty = (if free_head ar = kNodeIdNone then
       (case alloc_ok as of (ok, as1) \<Rightarrow>
          if ok then do { (i, ar1) \<leftarrow> allocate ar ty; Some (as1, ar1, Some i) } else Some (as1, ar, None))
     else do { (i, ar1) \<leftarrow> allocate ar ty; Some (as, ar1, Some i) })"

text \<open>Linking a child that a guard owns: the string copy and the vector may throw.\<close>

definition try_link :: "bool list \<Rightarrow> arena \<Rightarrow> nat \<Rightarrow> path_segment \<Rightarrow> nat \<Rightarrow> (bool list \<times> arena \<times> bool) option" where
  "try_link as ar container s child = (case alloc_ok as of (ok, as1) \<Rightarrow>
     if ok then do { ar1 \<leftarrow> link_child ar container s child; Some (as1, ar1, True) }
     else do { ar1 \<leftarrow> guard_frees ar child; Some (as1, ar1, False) })"

text \<open>
  The frame of \<open>buildFromValue\<close>: a new node with its guard, the copy of the scalar or the \<open>reserve\<close>,
  and what fills it.
\<close>

definition guarded_node :: "bool list \<Rightarrow> arena \<Rightarrow> node_type \<Rightarrow> nat \<Rightarrow>
    (bool list \<Rightarrow> arena \<Rightarrow> nat \<Rightarrow> (bool list \<times> arena \<times> bool) option) \<Rightarrow> (bool list \<times> arena \<times> nat option) option" where
  "guarded_node as ar ty parent contents = do {
     (as1, ar1, r) \<leftarrow> try_allocate as ar ty;
     (case r of None \<Rightarrow> Some (as1, ar1, None)
      | Some i \<Rightarrow> do {
          ar2 \<leftarrow> arena_modify ar1 i (\<lambda>n. n\<lparr>nparent := parent\<rparr>);
          (as3, ar3, ok) \<leftarrow> (case alloc_ok as1 of (ok, as2) \<Rightarrow>
             if ok then contents as2 ar2 i else Some (as2, ar2, False));
          if ok then Some (as3, ar3, Some i)
          else do { ar4 \<leftarrow> guard_frees ar3 i; Some (as3, ar4, None) } }) }"

fun try_build :: "bool list \<Rightarrow> arena \<Rightarrow> config_value \<Rightarrow> nat \<Rightarrow> (bool list \<times> arena \<times> nat option) option"
  and try_members :: "bool list \<Rightarrow> arena \<Rightarrow> nat \<Rightarrow> (string \<times> config_value) list \<Rightarrow> (bool list \<times> arena \<times> bool) option"
  and try_elements :: "bool list \<Rightarrow> arena \<Rightarrow> nat \<Rightarrow> config_value list \<Rightarrow> (bool list \<times> arena \<times> bool) option" where
  "try_build as ar (Scal s) parent = guarded_node as ar (scalar_type s) parent
     (\<lambda>as2 ar2 i. do { ar3 \<leftarrow> arena_modify ar2 i (\<lambda>n. n\<lparr>nscalar := s\<rparr>); Some (as2, ar3, True) })"
| "try_build as ar (Obj ms) parent = guarded_node as ar TObject parent (\<lambda>as2 ar2 i. try_members as2 ar2 i ms)"
| "try_build as ar (Arr es) parent = guarded_node as ar TArray parent (\<lambda>as2 ar2 i. try_elements as2 ar2 i es)"
| "try_members as ar i [] = Some (as, ar, True)"
| "try_members as ar i ((k, v) # ms) = do {
     (as1, ar1, r) \<leftarrow> try_build as ar v i;
     (case r of None \<Rightarrow> Some (as1, ar1, False)
      | Some child \<Rightarrow> do {
          (as2, ar2, ok) \<leftarrow> try_link as1 ar1 i (Key k) child;
          if ok then try_members as2 ar2 i ms else Some (as2, ar2, False) }) }"
| "try_elements as ar i [] = Some (as, ar, True)"
| "try_elements as ar i (v # es) = do {
     (as1, ar1, r) \<leftarrow> try_build as ar v i;
     (case r of None \<Rightarrow> Some (as1, ar1, False)
      | Some child \<Rightarrow> do {
          (as2, ar2, ok) \<leftarrow> try_link as1 ar1 i (Index 0) child;
          if ok then try_elements as2 ar2 i es else Some (as2, ar2, False) }) }"

text \<open>What \<open>assignContents\<close> does once the replacement is built; none of it throws.\<close>

definition splice_built :: "nat \<Rightarrow> arena \<Rightarrow> nat \<Rightarrow> nat \<Rightarrow> arena option" where
  "splice_built fuel ar1 target built = do {
     ar2 \<leftarrow> freeChildren fuel ar1 target;
     b \<leftarrow> arena_get ar2 built;
     ar3 \<leftarrow> arena_modify ar2 target
       (\<lambda>n. n\<lparr>nscalar := nscalar b, nmembers := nmembers b, nelements := nelements b\<rparr>);
     ar4 \<leftarrow> arena_modify ar3 built (\<lambda>n. n\<lparr>nmembers := [], nelements := []\<rparr>);
     ar5 \<leftarrow> foldM (set_parent target) ar4 (map snd (nmembers b));
     ar6 \<leftarrow> foldM (set_parent target) ar5 (nelements b);
     release ar6 built }"

definition try_assign :: "nat \<Rightarrow> bool list \<Rightarrow> arena \<Rightarrow> nat \<Rightarrow> config_value \<Rightarrow> (bool list \<times> arena \<times> bool) option" where
  "try_assign fuel as ar target v = do {
     t \<leftarrow> arena_get ar target;
     if ntype t \<noteq> cv_type v then None
     else do {
       (as1, ar1, r) \<leftarrow> try_build as ar v kNodeIdNone;
       (case r of None \<Rightarrow> Some (as1, ar1, False)
        | Some built \<Rightarrow> do { ar2 \<leftarrow> splice_built fuel ar1 target built; Some (as1, ar2, True) }) } }"

text \<open>
  One round of the loop of \<open>applyWrite\<close>. When the link throws, the guard of the container runs
  first, then the guard of the chain.
\<close>

definition try_wrap :: "bool list \<Rightarrow> arena \<Rightarrow> nat \<Rightarrow> path_segment \<Rightarrow> (bool list \<times> arena \<times> nat option) option" where
  "try_wrap as ar chain s = do {
     (as1, ar1, r) \<leftarrow> try_allocate as ar (container_type s);
     (case r of None \<Rightarrow> do { ar2 \<leftarrow> guard_frees ar1 chain; Some (as1, ar2, None) }
      | Some container \<Rightarrow> do {
          ar2 \<leftarrow> set_parent container ar1 chain;
          (case alloc_ok as1 of (ok, as2) \<Rightarrow>
             if ok then do { ar3 \<leftarrow> link_child ar2 container s chain; Some (as2, ar3, Some container) }
             else do {
               ar3 \<leftarrow> guard_frees ar2 container;
               ar4 \<leftarrow> guard_frees ar3 chain;
               Some (as2, ar4, None) }) }) }"

primrec try_wraps :: "bool list \<Rightarrow> arena \<Rightarrow> nat \<Rightarrow> path_segment list \<Rightarrow> (bool list \<times> arena \<times> nat option) option" where
  "try_wraps as ar chain [] = Some (as, ar, Some chain)"
| "try_wraps as ar chain (s # ss) = do {
     (as1, ar1, r) \<leftarrow> try_wrap as ar chain s;
     (case r of None \<Rightarrow> Some (as1, ar1, None) | Some container \<Rightarrow> try_wraps as1 ar1 container ss) }"

definition try_apply ::
    "nat \<Rightarrow> bool list \<Rightarrow> arena \<Rightarrow> write_plan \<Rightarrow> path_segment list \<Rightarrow> config_value \<Rightarrow> (bool list \<times> arena \<times> bool) option" where
  "try_apply fuel as ar plan segments v =
     (if wp_createFrom plan = length segments then try_assign fuel as ar (wp_node plan) v
      else do {
        (as1, ar1, r1) \<leftarrow> try_build as ar v kNodeIdNone;
        (case r1 of None \<Rightarrow> Some (as1, ar1, False)
         | Some built \<Rightarrow> do {
             (as2, ar2, r2) \<leftarrow> try_wraps as1 ar1 built (rev (drop (wp_createFrom plan + 1) segments));
             (case r2 of None \<Rightarrow> Some (as2, ar2, False)
              | Some chain \<Rightarrow> do {
                  ar3 \<leftarrow> set_parent (wp_node plan) ar2 chain;
                  try_link as2 ar3 (wp_node plan) (segments ! wp_createFrom plan) chain }) }) })"

text \<open>\<open>set\<close>. Parsing, validation and planning only read the model; one of their allocations may fail.\<close>

definition try_set :: "bool list \<Rightarrow> cmodel \<Rightarrow> string \<Rightarrow> config_value \<Rightarrow> (bool list \<times> cmodel \<times> (error + unit) flow) option" where
  "try_set as m path subtree = (case alloc_ok as of (ok, as1) \<Rightarrow>
     if \<not> ok then Some (as1, m, Bad_alloc)
     else (case cp_parse path of
         Inl e \<Rightarrow> Some (as1, m, Ret (Inl e))
       | Inr segments \<Rightarrow> (case validateTree subtree (length segments) of
           Inl e \<Rightarrow> Some (as1, m, Ret (Inl e))
         | Inr _ \<Rightarrow> do {
             plan \<leftarrow> planWrite (cm_arena m) (cm_rootId m) segments (cv_type subtree);
             (case plan of
                Inl e \<Rightarrow> Some (as1, m, Ret (Inl e))
              | Inr pl \<Rightarrow> do {
                  (as2, ar, ok) \<leftarrow> try_apply stack_fuel as1 (cm_arena m) pl segments subtree;
                  Some (as2, m\<lparr>cm_arena := ar\<rparr>, if ok then Ret (Inr ()) else Bad_alloc) }) })))"

section \<open>What a failure leaves\<close>

text \<open>Nothing: the forest and the frame are in place, and no handle became valid or invalid.\<close>

definition undone :: "arena \<Rightarrow> forest \<Rightarrow> nat multiset \<Rightarrow> arena \<Rightarrow> bool" where
  "undone ar F R ar' \<longleftrightarrow> (\<exists>fl'. heap ar' F fl' R) \<and> agree R ar ar' \<and> live ar' = live ar"

lemma unwrappedrefl: "heap ar F fl R \<Longrightarrow> undone ar F R ar"
  using agree_refl by (auto simp: undone_def)

lemma unwrappedtrans: "undone ar F R ar1 \<Longrightarrow> undone ar1 F R ar2 \<Longrightarrow> undone ar F R ar2"
  by (auto simp: undone_def intro: agree_trans)

lemma rep_live: "rep (nodes ar) p t \<Longrightarrow> i \<in># mids t \<Longrightarrow> live ar i \<noteq> None"
proof (induction rule: rep.induct)
  case (rep_intro p t)
  consider "i = tid t" | c where "c \<in> set (kids t)" "i \<in># mids c"
    using rep_intro.prems by (auto simp: mids_kids[of t] kmids_def simp flip: sum_mset_sum_list)
  then show ?case
  proof cases
    case 1
    then show ?thesis using rep_intro.hyps(1) by (simp add: slot_slotn slotn_def live_def)
  next
    case 2
    then show ?thesis using rep_intro by blast
  qed
qed

text \<open>A tree that was added and freed again.\<close>

lemma heap_undone:
  assumes h: "heap ar F fl R" and t: "heap ar1 ((p, t) # F) fl1 R" and a: "agree R ar ar1" "live ar \<subseteq>\<^sub>m live ar1"
    and fits: "fits stack_fuel t"
  shows "\<exists>ar2. guard_frees ar1 (tid t) = Some ar2 \<and> undone ar F R ar2"
proof -
  from heap_free[OF fits t] obtain ar2 fl2 where
    f: "freeSubtree stack_fuel ar1 (tid t) = Some ar2" "heap ar2 F fl2 R" "agree R ar1 ar2"
    "live ar2 = live_without ar1 (mids t)" by blast
  have ag: "agree R ar ar2" by (rule agree_trans[OF a(1) f(3)])
  have "live ar2 i = live ar i" for i
  proof (cases "live ar i")
    case (Some g)
    then have "i \<notin># mids t" using heap_new[OF t h] by auto
    then show ?thesis using Some a(2) by (auto simp: f(4) live_without_at map_le_def dom_def)
  next
    case None
    show ?thesis
    proof (rule ccontr)
      assume "live ar2 i \<noteq> live ar i"
      with None have l: "live ar2 i \<noteq> None" by simp
      then have i: "i \<in># kmids (map snd F) + R" by (rule heap_live[OF f(2)])
      have "i \<notin># kmids (map snd F)"
      proof
        assume "i \<in># kmids (map snd F)"
        then obtain q s where s: "(q, s) \<in> set F" "i \<in># mids s" by (auto simp: kmids_def simp flip: sum_mset_sum_list)
        have "rep (nodes ar) q s" by (rule heapD(1)[OF h s(1)])
        from rep_live[OF this s(2)] None show False by simp
      qed
      with i have R: "i \<in># R" by simp
      then have "i < length (nodes ar)" using agree_refl[OF h] by (simp add: agree_def)
      with ag R l None show False by (auto simp: agree_def live_def split: if_splits)
    qed
  qed
  then show ?thesis using f(1,2) ag by (auto simp: guard_frees_def undone_def fun_eq_iff)
qed

lemma try_allocate_cases:
  assumes "allocate ar ty = Some (i, ar1)"
  obtains (fails) as1 where "try_allocate as ar ty = Some (as1, ar, None)"
    | (ok) as1 where "try_allocate as ar ty = Some (as1, ar1, Some i)"
proof -
  have "(\<exists>as1. try_allocate as ar ty = Some (as1, ar, None)) \<or> (\<exists>as1. try_allocate as ar ty = Some (as1, ar1, Some i))"
    using assms by (auto simp: try_allocate_def split: prod.splits)
  then show thesis using fails ok by blast
qed

section \<open>Building under failures\<close>

text \<open>A frame that throws: what it built so far hangs below its own node, which its guard frees.\<close>

definition partial :: "arena \<Rightarrow> nat \<Rightarrow> nat \<Rightarrow> forest \<Rightarrow> nat multiset \<Rightarrow> arena \<Rightarrow> bool" where
  "partial ar p i F R ar' \<longleftrightarrow> (\<exists>t fl'. tid t = i \<and> fits stack_fuel t \<and> heap ar' ((p, t) # F) fl' R \<and>
     agree R ar ar' \<and> live ar \<subseteq>\<^sub>m live ar')"

lemma partialI: "heap ar' ((p, t) # F) fl' R \<Longrightarrow> fits stack_fuel t \<Longrightarrow> agree R ar ar' \<Longrightarrow> live ar \<subseteq>\<^sub>m live ar' \<Longrightarrow>
    partial ar p (tid t) F R ar'"
  by (auto simp: partial_def)

lemma partial_weaken: "partial ar1 p i F R ar2 \<Longrightarrow> agree R ar ar1 \<Longrightarrow> live ar \<subseteq>\<^sub>m live ar1 \<Longrightarrow> partial ar p i F R ar2"
  by (fastforce simp: partial_def intro: agree_trans map_le_trans)

lemma partial_freed:
  assumes "heap ar F fl R" and "partial ar p i F R ar1"
  obtains ar2 where "guard_frees ar1 i = Some ar2" "undone ar F R ar2"
  using assms(2) heap_undone[OF assms(1)] unfolding partial_def by blast

lemma alloc_then:
  assumes "\<And>as3. \<exists>as' ar' ok. k as3 = Some (as', ar', ok) \<and> Q ok ar'" and "Q False ar2"
  shows "\<exists>as' ar' ok. (case alloc_ok as2 of (ok, as3) \<Rightarrow> if ok then k as3 else Some (as3, ar2, False)) =
    Some (as', ar', ok) \<and> Q ok ar'"
  using assms by (cases "alloc_ok as2") (simp add: ex_bool_eq)

definition completes :: "nat \<Rightarrow> nat \<Rightarrow> node_type \<Rightarrow> forest \<Rightarrow> nat multiset \<Rightarrow>
    (bool list \<Rightarrow> arena \<Rightarrow> nat \<Rightarrow> (bool list \<times> arena \<times> bool) option) \<Rightarrow> (arena \<Rightarrow> nat \<Rightarrow> arena option) \<Rightarrow> bool" where
  "completes n p ty F R f g \<longleftrightarrow> (\<forall>as ar2 i fl2. heap ar2 ((p, INode i ty SNull [] []) # F) fl2 R \<longrightarrow> room ar2 fl2 = n \<longrightarrow>
     (\<exists>as' ar' ok. f as ar2 i = Some (as', ar', ok) \<and> (if ok then g ar2 i = Some ar' else partial ar2 p i F R ar')))"

lemma guarded_node_tries:
  assumes h: "heap ar F fl R" and room: "0 < room ar fl" and contents: "completes (room ar fl - 1) p ty F R f g"
  shows "\<exists>as' ar' r. guarded_node as ar ty p f = Some (as', ar', r) \<and> (case r of None \<Rightarrow> undone ar F R ar'
    | Some i \<Rightarrow> \<exists>ar1 ar2. allocate ar ty = Some (i, ar1) \<and> arena_modify ar1 i (\<lambda>n. n\<lparr>nparent := p\<rparr>) = Some ar2 \<and>
        g ar2 i = Some ar')"
proof -
  from heap_fresh[OF h room, where p = p and ty = ty] obtain i ar1 ar2 fl2 where
    a: "allocate ar ty = Some (i, ar1)" "arena_modify ar1 i (\<lambda>n. n\<lparr>nparent := p\<rparr>) = Some ar2"
    "heap ar2 ((p, INode i ty SNull [] []) # F) fl2 R" "agree R ar ar2" "live ar \<subseteq>\<^sub>m live ar2"
    "room ar2 fl2 = room ar fl - 1" .
  have bare: "partial ar2 p i F R ar2"
    using partialI[OF a(3) _ agree_refl[OF a(3)] map_le_refl] by (simp add: stack_fuel_def)
  show ?thesis using a(1)
  proof (cases rule: try_allocate_cases[where as = as])
    case fails
    then show ?thesis using unwrappedrefl[OF h] by (simp add: guarded_node_def)
  next
    case (ok as1)
    have "\<exists>as' ar' ok. (case alloc_ok as1 of (ok, as2) \<Rightarrow> if ok then f as2 ar2 i else Some (as2, ar2, False)) =
      Some (as', ar', ok) \<and> (if ok then g ar2 i = Some ar' else partial ar2 p i F R ar')"
      by (rule alloc_then) (use contents a(3,6) bare in \<open>auto simp: completes_def\<close>)
    then obtain as2 ar3 b where
      c: "(case alloc_ok as1 of (ok, as2) \<Rightarrow> if ok then f as2 ar2 i else Some (as2, ar2, False)) = Some (as2, ar3, b)"
      "if b then g ar2 i = Some ar3 else partial ar2 p i F R ar3" by blast
    show ?thesis
    proof (cases b)
      case True
      then show ?thesis using ok a(1,2) c by (simp add: guarded_node_def)
    next
      case False
      with c(2) have "partial ar p i F R ar3" by (auto intro: partial_weaken a(4,5))
      from partial_freed[OF h this] obtain ar4 where "guard_frees ar3 i = Some ar4" "undone ar F R ar4" .
      then show ?thesis using ok a(1,2) c(1) False by (simp add: guarded_node_def)
    qed
  qed
qed

text \<open>Either the build is undone, or it is the build without failures.\<close>

definition tries :: "config_value \<Rightarrow> bool" where
  "tries v \<longleftrightarrow> (\<forall>as ar F fl R p. heap ar F fl R \<longrightarrow> cv_nodes v \<le> room ar fl \<longrightarrow>
     (\<exists>as' ar' r. try_build as ar v p = Some (as', ar', r) \<and>
       (case r of None \<Rightarrow> undone ar F R ar' | Some i \<Rightarrow> buildFromValue ar v p = Some (i, ar'))))"

lemma triesD: "tries v \<Longrightarrow> heap ar F fl R \<Longrightarrow> cv_nodes v \<le> room ar fl \<Longrightarrow>
    \<exists>as' ar' r. try_build as ar v p = Some (as', ar', r) \<and>
       (case r of None \<Rightarrow> undone ar F R ar' | Some i \<Rightarrow> buildFromValue ar v p = Some (i, ar'))"
  unfolding tries_def by blast

lemma try_link_cases:
  assumes "link_child ar i s c = Some ar1" and "guard_frees ar c = Some ar2"
  obtains (fails) as1 where "try_link as ar i s c = Some (as1, ar2, False)"
    | (ok) as1 where "try_link as ar i s c = Some (as1, ar1, True)"
proof -
  have "(\<exists>as1. try_link as ar i s c = Some (as1, ar2, False)) \<or> (\<exists>as1. try_link as ar i s c = Some (as1, ar1, True))"
    using assms by (auto simp: try_link_def split: prod.splits)
  then show thesis using fails ok by blast
qed

lemma stack_fits: "(\<And>c. c \<in> set (kids t) \<Longrightarrow> fits kMaxTreeDepth c) \<Longrightarrow> fits stack_fuel t"
  by (simp add: stack_fuel_def)

lemma mids_add_child: "mids (add_child t s c) = mids c + mids t"
proof -
  have "kmids (kids (add_child t s c)) = kmids (c # kids t)" by (rule kmids_mset) simp
  then show ?thesis by (simp add: mids_kids[of t] mids_kids[of "add_child t s c"])
qed

text \<open>One child: built under its own guard and linked, or freed.\<close>

lemma try_child:
  assumes v: "tries v" "wf_at (Suc d) v" and h: "heap ar ((p, t) # F) fl R" and room: "cv_nodes v \<le> room ar fl"
  obtains (fails) as1 ar1 where "try_build as ar v (tid t) = Some (as1, ar1, None)" "undone ar ((p, t) # F) R ar1"
  | (unlinked) as1 ar1 c as2 ar2 where "try_build as ar v (tid t) = Some (as1, ar1, Some c)"
      "try_link as1 ar1 (tid t) s c = Some (as2, ar2, False)" "undone ar ((p, t) # F) R ar2"
  | (linked) as1 ar1 c as2 ar2 fl2 where "try_build as ar v (tid t) = Some (as1, ar1, Some (tid c))"
      "buildFromValue ar v (tid t) = Some (tid c, ar1)"
      "try_link as1 ar1 (tid t) s (tid c) = Some (as2, ar2, True)" "link_child ar1 (tid t) s (tid c) = Some ar2"
      "heap ar2 ((p, add_child t s c) # F) fl2 R" "agree R ar ar2" "live ar \<subseteq>\<^sub>m live ar2" "fits kMaxTreeDepth c"
      "room ar2 fl2 = room ar fl - cv_nodes v"
proof -
  from triesD[OF v(1) h room, of as "tid t"] obtain as1 ar1 r where
    b: "try_build as ar v (tid t) = Some (as1, ar1, r)"
    "case r of None \<Rightarrow> undone ar ((p, t) # F) R ar1 | Some i \<Rightarrow> buildFromValue ar v (tid t) = Some (i, ar1)" by blast
  show thesis
  proof (cases r)
    case None
    then show thesis using b fails by simp
  next
    case (Some j)
    then have j: "buildFromValue ar v (tid t) = Some (j, ar1)" using b(2) by simp
    from heap_build[OF h room, of "tid t"] j obtain c fl1 where
      n: "j = tid c" "heap ar1 ((tid t, c) # (p, t) # F) fl1 R" "agree R ar ar1" "live ar \<subseteq>\<^sub>m live ar1" "erase c = v"
      "shaped c" "room ar1 fl1 = room ar fl - cv_nodes v" by (metis option.inject prod.inject)
    have fit: "fits kMaxTreeDepth c" using wf_at_fits[OF n(6)] n(5) v(2) by simp
    then have "fits stack_fuel c"
      by (intro wf_at_fits[OF n(6), of "Suc d"]) (simp_all add: stack_fuel_def n(5) v(2))
    from heap_undone[OF h n(2) _ n(4) this] agree_mono n(3) obtain ar3 where
      g: "guard_frees ar1 (tid c) = Some ar3" "undone ar ((p, t) # F) R ar3" by blast
    from heap_link[OF n(2), of s] obtain ar2 where
      l: "link_child ar1 (tid t) s (tid c) = Some ar2" "heap ar2 ((p, add_child t s c) # F) fl1 R" "agree R ar1 ar2"
      "live ar2 = live ar1" by blast
    show thesis using l(1) g(1)
    proof (cases rule: try_link_cases[where as = as1])
      case (fails as2)
      then show thesis using unlinked[of as1 ar1 "tid c" as2 ar3] b(1) Some n(1) g(2) by simp
    next
      case (ok as2)
      have "room ar2 fl1 = room ar1 fl1" using heap_room[OF l(2)] heap_room[OF n(2)] by (simp add: mids_add_child)
      then show thesis
        using linked[of as1 ar1 c as2 ar2 fl1] ok b(1) Some n(1) j l fit n(7) agree_trans[OF n(3) l(3)] n(4) by simp
    qed
  qed
qed

lemma try_members_tries:
  assumes "\<forall>(k, v) \<in> set ms. tries v \<and> wf_at (Suc d) v" and "heap ar ((p, INode i TObject SNull ns []) # F) fl R"
    and "sum_list (map (cv_nodes \<circ> snd) ms) \<le> room ar fl" and "\<forall>(k, c) \<in> set ns. fits kMaxTreeDepth c"
  shows "\<exists>as' ar' ok. try_members as ar i ms = Some (as', ar', ok) \<and>
    (if ok then buildMembers ar i ms = Some ar' else partial ar p i F R ar')"
  using assms
proof (induction ms arbitrary: as ar fl ns)
  case (Cons m ms)
  let ?t = "INode i TObject SNull ns []"
  obtain k v where m: "m = (k, v)" by (cases m)
  have v: "tries v" "wf_at (Suc d) v" "cv_nodes v \<le> room ar fl" using Cons.prems(1,3) m by auto
  have stop: "partial ar p i F R ar'" if "undone ar ((p, ?t) # F) R ar'" for ar'
    using that Cons.prems(4) by (auto simp: undone_def stack_fuel_def intro!: partialI[where t = ?t, simplified])
  from v(1,2) Cons.prems(2) v(3) show ?case
  proof (cases rule: try_child[where as = as and s = "Key k"])
    case fails
    then show ?thesis using stop m by auto
  next
    case unlinked
    then show ?thesis using stop m by auto
  next
    case (linked as1 ar1 c as2 ar2 fl2)
    have "\<forall>(k, v) \<in> set ms. tries v \<and> wf_at (Suc d) v" "heap ar2 ((p, INode i TObject SNull (ns @ [(k, c)]) []) # F) fl2 R"
      "sum_list (map (cv_nodes \<circ> snd) ms) \<le> room ar2 fl2" "\<forall>(k, c) \<in> set (ns @ [(k, c)]). fits kMaxTreeDepth c"
      using Cons.prems linked m by (auto simp: comp_def)
    from Cons.IH[OF this, of as2] obtain as' ar' ok where
      "try_members as2 ar2 i ms = Some (as', ar', ok)"
      "if ok then buildMembers ar2 i ms = Some ar' else partial ar2 p i F R ar'" by blast
    then show ?thesis using linked m partial_weaken[OF _ linked(6,7)] by auto
  qed
qed auto

lemma try_elements_tries:
  assumes "\<forall>v \<in> set es. tries v \<and> wf_at (Suc d) v" and "heap ar ((p, INode i TArray SNull [] ns) # F) fl R"
    and "sum_list (map cv_nodes es) \<le> room ar fl" and "\<forall>c \<in> set ns. fits kMaxTreeDepth c"
  shows "\<exists>as' ar' ok. try_elements as ar i es = Some (as', ar', ok) \<and>
    (if ok then buildElements ar i es = Some ar' else partial ar p i F R ar')"
  using assms
proof (induction es arbitrary: as ar fl ns)
  case (Cons v es)
  let ?t = "INode i TArray SNull [] ns"
  have v: "tries v" "wf_at (Suc d) v" "cv_nodes v \<le> room ar fl" using Cons.prems(1,3) by auto
  have stop: "partial ar p i F R ar'" if "undone ar ((p, ?t) # F) R ar'" for ar'
    using that Cons.prems(4) by (auto simp: undone_def stack_fuel_def intro!: partialI[where t = ?t, simplified])
  from v(1,2) Cons.prems(2) v(3) show ?case
  proof (cases rule: try_child[where as = as and s = "Index 0"])
    case fails
    then show ?thesis using stop by auto
  next
    case unlinked
    then show ?thesis using stop by auto
  next
    case (linked as1 ar1 c as2 ar2 fl2)
    have "\<forall>v \<in> set es. tries v \<and> wf_at (Suc d) v" "heap ar2 ((p, INode i TArray SNull [] (ns @ [c])) # F) fl2 R"
      "sum_list (map cv_nodes es) \<le> room ar2 fl2" "\<forall>c \<in> set (ns @ [c]). fits kMaxTreeDepth c"
      using Cons.prems linked by auto
    from Cons.IH[OF this, of as2] obtain as' ar' ok where
      "try_elements as2 ar2 i es = Some (as', ar', ok)"
      "if ok then buildElements ar2 i es = Some ar' else partial ar2 p i F R ar'" by blast
    then show ?thesis using linked partial_weaken[OF _ linked(6,7)] by auto
  qed
qed auto

lemma tries_all: "wf_at d v \<Longrightarrow> tries v"
proof (induction v arbitrary: d rule: config_value_kids_induct)
  case (Kids v)
  have kids: "tries x \<and> wf_at (Suc d) x" if "x \<in> set (cv_kids v)" for x
    using Kids.IH[OF that] wf_at_kid[OF Kids.prems that] by blast
  show ?case unfolding tries_def
  proof (intro allI impI)
    fix as ar F fl R p
    assume h: "heap ar F fl R" and room: "cv_nodes v \<le> room ar fl"
    have r: "0 < room ar fl" using room cv_nodes_pos[of v] by linarith
    note node = guarded_node_tries[OF h r]
    show "\<exists>as' ar' r. try_build as ar v p = Some (as', ar', r) \<and>
       (case r of None \<Rightarrow> undone ar F R ar' | Some i \<Rightarrow> buildFromValue ar v p = Some (i, ar'))"
    proof (cases v)
      case (Scal s)
      have "completes (room ar fl - 1) p (scalar_type s) F R
          (\<lambda>as2 ar2 i. do { ar3 \<leftarrow> arena_modify ar2 i (\<lambda>n. n\<lparr>nscalar := s\<rparr>); Some (as2, ar3, True) })
          (\<lambda>ar2 i. arena_modify ar2 i (\<lambda>n. n\<lparr>nscalar := s\<rparr>))"
        unfolding completes_def by (auto simp: arena_modify_def ex_bool_eq dest: heap_slotn)
      from node[OF this, of as] show ?thesis using Scal
        by (elim ex_forward) (auto split: option.splits)
    next
      case (Obj ms)
      have "completes (room ar fl - 1) p TObject F R (\<lambda>as2 ar2 i. try_members as2 ar2 i ms) (\<lambda>ar2 i. buildMembers ar2 i ms)"
        unfolding completes_def using kids room Obj
        by (intro allI impI try_members_tries) (force simp: comp_def)+
      from node[OF this, of as] show ?thesis using Obj
        by (elim ex_forward) (auto split: option.splits)
    next
      case (Arr es)
      have "completes (room ar fl - 1) p TArray F R (\<lambda>as2 ar2 i. try_elements as2 ar2 i es) (\<lambda>ar2 i. buildElements ar2 i es)"
        unfolding completes_def using kids room Arr
        by (intro allI impI try_elements_tries) (force simp: comp_def)+
      from node[OF this, of as] show ?thesis using Arr
        by (elim ex_forward) (auto split: option.splits)
    qed
  qed
qed

lemmas try_build_tries = triesD[OF tries_all]

section \<open>Writing under failures\<close>

lemma splice_built_eq: "buildFromValue ar v kNodeIdNone = Some (built, ar1) \<Longrightarrow> assignContents n ar target v = Some ar' \<Longrightarrow>
    splice_built n ar1 target built = Some ar'"
  by (auto simp: assignContents_def splice_built_def split: if_splits Option.bind_splits)

lemma try_assign_tries:
  assumes h: "heap ar [] fl R" and v: "wf_at d v" "cv_nodes v \<le> room ar fl" and plain: "assignContents n ar target v = Some ar0"
  shows "\<exists>as' ar' ok. try_assign n as ar target v = Some (as', ar', ok) \<and> (if ok then ar' = ar0 else undone ar [] R ar')"
proof -
  from try_build_tries[OF v(1) h v(2), of as kNodeIdNone] obtain as1 ar1 r where
    b: "try_build as ar v kNodeIdNone = Some (as1, ar1, r)"
    "case r of None \<Rightarrow> undone ar [] R ar1 | Some i \<Rightarrow> buildFromValue ar v kNodeIdNone = Some (i, ar1)" by blast
  from plain obtain t where t: "arena_get ar target = Some t" "ntype t = cv_type v"
    by (auto simp: assignContents_def split: if_splits Option.bind_splits)
  show ?thesis
  proof (cases r)
    case None
    then show ?thesis using b t by (simp add: try_assign_def ex_bool_eq)
  next
    case (Some i)
    then show ?thesis using b t splice_built_eq[OF _ plain] by (simp add: try_assign_def ex_bool_eq)
  qed
qed

text \<open>The chain that hangs off the forest while \<open>applyWrite\<close> wraps it.\<close>

definition pending :: "arena \<Rightarrow> nat multiset \<Rightarrow> arena \<Rightarrow> nat list \<Rightarrow> nat \<Rightarrow> itree \<Rightarrow> bool" where
  "pending ar R ar1 fl1 d c \<longleftrightarrow> heap ar1 [(kNodeIdNone, c)] fl1 R \<and> agree R ar ar1 \<and> live ar \<subseteq>\<^sub>m live ar1 \<and>
     shaped c \<and> wf_at d (erase c)"

lemma try_wrap_tries:
  assumes h: "heap ar [] fl R" and p: "pending ar R ar1 fl1 (Suc d) c" and room: "0 < room ar1 fl1" and s: "wf_segments [s]"
  shows "\<exists>as' ar' r. try_wrap as ar1 (tid c) s = Some (as', ar', r) \<and> (case r of None \<Rightarrow> undone ar [] R ar'
    | Some i \<Rightarrow> wrap_chain (tid c, ar1) s = Some (i, ar') \<and> (\<exists>t fl'. i = tid t \<and> pending ar R ar' fl' d t \<and>
        room ar' fl' = room ar1 fl1 - 1))"
proof -
  note c = p[unfolded pending_def, THEN conjunct1] p[unfolded pending_def, THEN conjunct2]
  have fit: "fits stack_fuel c" "fits kMaxTreeDepth c" using c(2) wf_at_fits[of c "Suc d"] by (auto simp: stack_fuel_def simp del: fits.simps)
  let ?t0 = "\<lambda>i. INode i (container_type s) SNull [] []"
  from heap_allocate[OF c(1) room, of "container_type s"] obtain i ar2 fl2 where
    a: "allocate ar1 (container_type s) = Some (i, ar2)" "heap ar2 ((kNodeIdNone, ?t0 i) # [(kNodeIdNone, c)]) fl2 R"
    "agree R ar1 ar2" "live ar1 i = None" "\<exists>g. live ar2 = (live ar1)(i \<mapsto> g)" by blast
  have "heap ar2 ((kNodeIdNone, c) # [(kNodeIdNone, ?t0 i)]) fl2 R" by (rule heap_perm[OF a(2)]) simp
  from heap_set_parent[OF this, of i] obtain ar3 where
    b: "set_parent i ar2 (tid c) = Some ar3" "heap ar3 ((i, c) # [(kNodeIdNone, ?t0 i)]) fl2 R"
    "agree R ar2 ar3" "live ar3 = live ar2" by blast
  from heap_link[of ar3 "?t0 i" c kNodeIdNone "[]" fl2 R s] b(2) obtain ar4 where
    l: "link_child ar3 i s (tid c) = Some ar4" by auto
  from heap_wrap_chain[OF c(1) room, of s] c(2) obtain t ar5 fl5 where
    w: "wrap_chain (tid c, ar1) s = Some (tid t, ar5)" "heap ar5 [(kNodeIdNone, t)] fl5 R" "agree R ar1 ar5"
    "live ar1 \<subseteq>\<^sub>m live ar5" "shaped t" "erase t = chain_value [s] (erase c)" by blast
  have t: "i = tid t" "ar5 = ar4" using w(1) a(1) b(1) l by (auto simp: wrap_chain_def)
  have "cv_nodes (chain_value [s] (erase c)) = Suc (cv_nodes (erase c))" by (cases s) auto
  then have rm: "room ar5 fl5 = room ar1 fl1 - 1"
    using heap_room[OF w(2)] heap_room[OF c(1)] size_mids[OF w(5)] size_mids[of c] c(2) w(6) by simp
  have "pending ar R ar5 fl5 d t" using c(2) w wf_chain[OF s, of d "erase c"]
    by (auto simp: pending_def intro: agree_trans map_le_trans)
  with rm have wrapped: "wrap_chain (tid c, ar1) s = Some (i, ar4)" "\<exists>t fl'. i = tid t \<and> pending ar R ar4 fl' d t \<and>
        room ar4 fl' = room ar1 fl1 - 1" using t w(1) by auto
  have u1: "\<exists>ar'. guard_frees ar1 (tid c) = Some ar' \<and> undone ar [] R ar'"
    using heap_undone[OF h c(1)] c(2) fit(1) by blast
  have 6: "heap ar3 ((kNodeIdNone, ?t0 i) # [(i, c)]) fl2 R" by (rule heap_perm[OF b(2)]) simp
  have "fits stack_fuel (?t0 i)" by (simp add: stack_fuel_def)
  from heap_free[OF this 6] obtain ar6 fl6 where
    6: "guard_frees ar3 i = Some ar6" "heap ar6 [(i, c)] fl6 R" "agree R ar3 ar6" "live ar6 = live_without ar3 {#i#}"
    by (auto simp: guard_frees_def)
  have "live ar \<subseteq>\<^sub>m live ar6" using c(2) a(4,5) b(4) by (fastforce simp: 6(4) map_le_def live_without_at)
  moreover have "agree R ar ar6" using c(2) a(3) b(3) 6(3) by (blast intro: agree_trans)
  ultimately have u2: "\<exists>ar'. guard_frees ar6 (tid c) = Some ar' \<and> undone ar [] R ar'"
    using heap_undone[OF h 6(2)] fit(1) by blast
  show ?thesis using a(1)
  proof (cases rule: try_allocate_cases[where as = as])
    case (fails as1)
    then show ?thesis using u1 by (auto simp: try_wrap_def)
  next
    case (ok as1)
    then show ?thesis using b(1) l 6(1) u2 wrapped by (cases "alloc_ok as1"; cases "fst (alloc_ok as1)") (auto simp: try_wrap_def)
  qed
qed

lemma wf_segments_each: "wf_segments ps \<longleftrightarrow> (\<forall>s \<in> set ps. wf_segments [s])"
  by (induction ps rule: wf_segments.induct) auto

lemma try_wraps_tries:
  assumes h: "heap ar [] fl R"
  shows "pending ar R ar1 fl1 (d + length ss) c \<Longrightarrow> length ss \<le> room ar1 fl1 \<Longrightarrow> wf_segments ss \<Longrightarrow>
    \<exists>as' ar' r. try_wraps as ar1 (tid c) ss = Some (as', ar', r) \<and> (case r of None \<Rightarrow> undone ar [] R ar'
      | Some i \<Rightarrow> foldM wrap_chain (tid c, ar1) ss = Some (i, ar') \<and> (\<exists>t fl'. i = tid t \<and> pending ar R ar' fl' d t))"
proof (induction ss arbitrary: as ar1 fl1 c)
  case (Cons s ss)
  have "pending ar R ar1 fl1 (Suc (d + length ss)) c" "0 < room ar1 fl1" "wf_segments [s]"
    using Cons.prems wf_segments_each[of "s # ss"] by auto
  from try_wrap_tries[OF h this, of as] obtain as2 ar2 r where
    w: "try_wrap as ar1 (tid c) s = Some (as2, ar2, r)" "case r of None \<Rightarrow> undone ar [] R ar2
    | Some i \<Rightarrow> wrap_chain (tid c, ar1) s = Some (i, ar2) \<and> (\<exists>t fl'. i = tid t \<and> pending ar R ar2 fl' (d + length ss) t \<and>
        room ar2 fl' = room ar1 fl1 - 1)" by blast
  show ?case
  proof (cases r)
    case None
    then show ?thesis using w by simp
  next
    case (Some i)
    with w(2) obtain t fl2 where t: "wrap_chain (tid c, ar1) s = Some (i, ar2)" "i = tid t"
      "pending ar R ar2 fl2 (d + length ss) t" "room ar2 fl2 = room ar1 fl1 - 1" by auto
    have "length ss \<le> room ar2 fl2" "wf_segments ss" using Cons.prems(2,3) t(4) wf_segments_each[of ss] wf_segments_each[of "s # ss"] by auto
    from Cons.IH[OF t(3) this, of as2] show ?thesis using w(1) Some t(1,2) by (simp cong: option.case_cong)
  qed
qed auto

lemma try_apply_tries:
  assumes h: "heap ar [] fl R" and v: "wf_at (length segs) v" "cv_nodes v + length segs \<le> room ar fl"
    and segs: "wf_segments segs" and plain: "applyWrite n ar plan segs v = Some ar0"
  shows "\<exists>as' ar' ok. try_apply n as ar plan segs v = Some (as', ar', ok) \<and> (if ok then ar' = ar0 else undone ar [] R ar')"
proof (cases "wp_createFrom plan = length segs")
  case True
  then show ?thesis using try_assign_tries[OF h v(1), of n "wp_node plan" ar0 as] v(2) plain
    by (simp add: try_apply_def applyWrite_def)
next
  case False
  let ?ss = "rev (drop (wp_createFrom plan + 1) segs)"
  from False plain obtain built ar1 chain ar2 ar3 where
    p: "buildFromValue ar v kNodeIdNone = Some (built, ar1)" "foldM wrap_chain (built, ar1) ?ss = Some (chain, ar2)"
    "set_parent (wp_node plan) ar2 chain = Some ar3" "link_child ar3 (wp_node plan) (segs ! wp_createFrom plan) chain = Some ar0"
    by (auto simp: applyWrite_def split: Option.bind_splits)
  have vr: "cv_nodes v \<le> room ar fl" using v(2) by simp
  from try_build_tries[OF v(1) h vr, of as kNodeIdNone] obtain as1 ar1' r where
    b: "try_build as ar v kNodeIdNone = Some (as1, ar1', r)"
    "case r of None \<Rightarrow> undone ar [] R ar1' | Some i \<Rightarrow> buildFromValue ar v kNodeIdNone = Some (i, ar1')" by blast
  show ?thesis
  proof (cases r)
    case None
    then show ?thesis using b False by (simp add: try_apply_def ex_bool_eq)
  next
    case (Some i)
    with b(2) p(1) have i: "i = built" "ar1' = ar1" by auto
    from heap_build[OF h vr, of kNodeIdNone] p(1) obtain c fl1 where
      c: "built = tid c" "heap ar1 [(kNodeIdNone, c)] fl1 R" "agree R ar ar1" "live ar \<subseteq>\<^sub>m live ar1" "erase c = v"
      "shaped c" "room ar1 fl1 = room ar fl - cv_nodes v" by (metis option.inject prod.inject)
    have d: "length segs - length ?ss + length ?ss = length segs" by simp
    have pd: "pending ar R ar1 fl1 (length segs - length ?ss + length ?ss) c"
      unfolding d using c v(1) by (simp add: pending_def)
    have "length ?ss \<le> room ar1 fl1" "wf_segments ?ss" using c(7) v(2) segs wf_segments_each[of segs] wf_segments_each[of ?ss] by (auto dest: in_set_dropD)
    from try_wraps_tries[OF h pd this, of as1] obtain as2 ar2' r2 where
      w: "try_wraps as1 ar1 built ?ss = Some (as2, ar2', r2)" "case r2 of None \<Rightarrow> undone ar [] R ar2'
      | Some i \<Rightarrow> foldM wrap_chain (built, ar1) ?ss = Some (i, ar2') \<and>
          (\<exists>t fl'. i = tid t \<and> pending ar R ar2' fl' (length segs - length ?ss) t)" unfolding c(1) by blast
    show ?thesis
    proof (cases r2)
      case None
      then show ?thesis using b(1) Some i w False by (simp add: try_apply_def ex_bool_eq)
    next
      case (Some j)
      with w(2) p(2) have j: "j = chain" "ar2' = ar2" by auto
      from w(2) Some obtain t fl2 where t: "j = tid t" "pending ar R ar2 fl2 (length segs - length ?ss) t"
        unfolding j(2) by auto
      from t(2) have t': "heap ar2 [(kNodeIdNone, t)] fl2 R" "agree R ar ar2" "live ar \<subseteq>\<^sub>m live ar2" "shaped t"
        "wf_at (length segs - length ?ss) (erase t)" by (auto simp: pending_def)
      from heap_set_parent[OF t'(1), of "wp_node plan"] p(3) t(1) j(1) have
        h3: "heap ar3 [(wp_node plan, t)] fl2 R" "agree R ar2 ar3" "live ar3 = live ar2" by auto
      have fit: "fits stack_fuel t" by (rule wf_at_fits[OF t'(4,5)]) (simp add: stack_fuel_def)
      from heap_undone[OF h h3(1) agree_trans[OF t'(2) h3(2)] _ fit] t'(3) h3(3) obtain ar4 where
        g: "guard_frees ar3 chain = Some ar4" "undone ar [] R ar4" using t(1) j(1) by auto
      from p(4) g(1) show ?thesis
      proof (cases rule: try_link_cases[where as = as2])
        case fails
        then show ?thesis using b(1) \<open>r = Some i\<close> i w(1) Some j p(3) g(2) False by (simp add: try_apply_def ex_bool_eq)
      next
        case ok
        then show ?thesis using b(1) \<open>r = Some i\<close> i w(1) Some j p(3) False by (simp add: try_apply_def ex_bool_eq)
      qed
    qed
  qed
qed

text \<open>
  The model after a failed write: every handle that was valid is, every handle that was not is
  not, and every node a handle can reach is the one it was.
\<close>

definition untouched :: "cmodel \<Rightarrow> cmodel \<Rightarrow> bool" where
  "untouched m m' \<longleftrightarrow> cm_rootId m' = cm_rootId m \<and> live (cm_arena m') = live (cm_arena m) \<and>
     (\<forall>i. live (cm_arena m) i \<noteq> None \<longrightarrow> nodes (cm_arena m') ! i = nodes (cm_arena m) ! i)"

lemma untouched_refl [simp]: "untouched m m"
  by (simp add: untouched_def)

lemma unwrappedholds:
  assumes h: "holds m T fl" and u: "undone (cm_arena m) [] (mids T) ar'"
  shows "models (m\<lparr>cm_arena := ar'\<rparr>) (erase T) \<and> untouched m (m\<lparr>cm_arena := ar'\<rparr>)"
proof -
  from u obtain fl' where u': "heap ar' [] fl' (mids T)" "agree (mids T) (cm_arena m) ar'" "live ar' = live (cm_arena m)"
    by (auto simp: undone_def)
  have "heap ar' [(kNodeIdNone, T)] fl' {#}"
    using heap_unframe[of "cm_arena m" "[]" "[(kNodeIdNone, T)]" fl "{#}" ar' "[]" fl'] holdsD(1)[OF h] u'(1,2) by simp
  then have "holds (m\<lparr>cm_arena := ar'\<rparr>) T fl'" using holdsD[OF h] by (simp add: holds_def)
  moreover have "nodes ar' ! i = nodes (cm_arena m) ! i" if "live (cm_arena m) i \<noteq> None" for i
    using heap_live[OF holdsD(1)[OF h] that] u'(2) by (simp add: agree_def)
  ultimately show ?thesis using u'(3) by (auto simp: untouched_def dest: modelsI)
qed

lemma try_set_tries:
  assumes "models m v" and "cv_distinct new" and "room_for v new"
  shows "\<exists>as' m' r. try_set as m path new = Some (as', m', r) \<and>
    (case r of Bad_alloc \<Rightarrow> models m' v \<and> untouched m m' | Ret x \<Rightarrow> cm_set m path new = Some (m', x))"
proof -
  obtain m0 where plain: "cm_set m path new = Some (m0, map_sum id (\<lambda>_. ()) (spec_set v path new))"
    using set_refines[OF assms, of path] by blast
  obtain ok as1 where a: "alloc_ok as = (ok, as1)" by fastforce
  show ?thesis
  proof (cases ok)
    case False
    then show ?thesis using a assms(1) by (simp add: try_set_def)
  next
    case ok: True
    show ?thesis
    proof (cases "cp_parse path")
      case (Inl e)
      then show ?thesis using ok a by (simp add: try_set_def cm_set_def)
    next
      case parse: (Inr p)
      show ?thesis
      proof (cases "validateTree new (length p)")
        case (Inl e)
        then show ?thesis using ok a parse by (simp add: try_set_def cm_set_def)
      next
        case val: (Inr u)
        from plain obtain pl where pl: "planWrite (cm_arena m) (cm_rootId m) p (cv_type new) = Some pl"
          by (auto simp: cm_set_def parse val split: Option.bind_splits)
        show ?thesis
        proof (cases pl)
          case (Inl e)
          then show ?thesis using ok a parse val pl by (simp add: try_set_def cm_set_def)
        next
          case (Inr plan)
          from plain obtain ar0 where w: "applyWrite stack_fuel (cm_arena m) plan p new = Some ar0"
            by (auto simp: cm_set_def parse val pl Inr split: Option.bind_splits)
          from assms(1) obtain T fl where h: "holds m T fl" and v: "erase T = v" unfolding models_def by blast
          have wn: "wf_at (length p) new" using val assms(2) by (simp add: wf_at_validate)
          have "cv_nodes new + length p \<le> room (cm_arena m) fl"
            using holds_room[OF h] assms(3) wf_at_depth[OF wn] by (simp add: room_for_def v)
          moreover have "heap (cm_arena m) [] fl (mids T)"
            using heap_frame[of "cm_arena m" "[]" "[(kNodeIdNone, T)]" fl "{#}"] holdsD(1)[OF h] by simp
          moreover have "wf_segments p" using parsed_segments[OF parse] by simp
          ultimately obtain as2 ar' k where t: "try_apply stack_fuel as1 (cm_arena m) plan p new = Some (as2, ar', k)"
            "if k then ar' = ar0 else undone (cm_arena m) [] (mids T) ar'"
            using try_apply_tries[OF _ wn _ _ w] by blast
          show ?thesis using ok a parse val pl Inr w t unwrappedholds[OF h] v
            by (cases k) (simp_all add: try_set_def cm_set_def)
        qed
      qed
    qed
  qed
qed

end
