(* ===== verification/Example_Kit.thy ===== *)
theory Example_Kit
  imports Config_Runtime Config_Store Typed_Read
begin

text \<open>
  What the programs under \<open>examples/\<close> share: building default trees, unwrapping results or exiting,
  threading a model through fallible steps, and \<open>moveKey\<close>. The lemmas describe a model by the
  map of its top-level members, which is all the migrations look at.
\<close>

section \<open>Default trees\<close>

text \<open>\<open>value.set(key, ConfigValue::of(x))\<close>; a throwing \<open>of\<close> or a failed assertion is \<open>None\<close>.\<close>

definition set_of :: "config_value \<Rightarrow> string \<Rightarrow> cpp_scalar \<Rightarrow> config_value option" where
  "set_of v key x = (case cv_of x of Of_value c \<Rightarrow> cv_set v key c | Of_throws t \<Rightarrow> None)"

lemma set_of_simps [simp]:
  "set_of (Obj ms) k (CBool b) = Some (Obj (upsert k (Scal (SBool b)) ms))"
  "set_of (Obj ms) k (CSigned i) = Some (Obj (upsert k (Scal (SInt (word_of_int i))) ms))"
  "set_of (Obj ms) k (CFloat d) = Some (Obj (upsert k (Scal (SDouble d)) ms))"
  "set_of (Obj ms) k (CStr (Some s)) = Some (Obj (upsert k (Scal (SString s)) ms))"
  by (simp_all add: set_of_def cv_of_def ofPreconditionViolation_def cv_set_def)

text \<open>A factory and a migration as the catalog and the registry call them: they touch no other state.\<close>

definition factory :: "config_value option \<Rightarrow> 's default_factory" where
  "factory d = (\<lambda>s. (s, FReturns (the d)))"

definition migration :: "(cmodel \<Rightarrow> (cmodel \<times> (error + unit)) option) \<Rightarrow> 's migration_fn" where
  "migration f = (\<lambda>s m a b. case the (f m) of (m', r) \<Rightarrow> (s, m', AReturns r))"

section \<open>Steps that return on the first error\<close>

definition then_with ::
    "(cmodel \<times> (error + 'a)) option \<Rightarrow> (cmodel \<Rightarrow> 'a \<Rightarrow> (cmodel \<times> (error + 'b)) option) \<Rightarrow> (cmodel \<times> (error + 'b)) option" where
  "then_with step f = do { (m, r) \<leftarrow> step; (case r of Inl e \<Rightarrow> Some (m, Inl e) | Inr x \<Rightarrow> f m x) }"

lemma then_with_simps [simp]:
  "then_with (Some (m, Inr x)) f = f m x" "then_with (Some (m, Inl e)) f = Some (m, Inl e)"
  by (simp_all add: then_with_def)

text \<open>A read leaves the model alone.\<close>

definition reading :: "cmodel \<Rightarrow> (error + 'a) option \<Rightarrow> (cmodel \<times> (error + 'a)) option" where
  "reading m r = map_option (Pair m) r"

lemma reading_simps [simp]: "reading m (Some r) = Some (m, r)"
  by (simp add: reading_def)

definition moveKey :: "cmodel \<Rightarrow> string \<Rightarrow> string \<Rightarrow> (cmodel \<times> (error + unit)) option" where
  "moveKey model source target =
     then_with (reading model (cm_getValue model source)) (\<lambda>model value.
     then_with (cm_set model target value) (\<lambda>model _.
     cm_remove model source))"

section \<open>Unwrapping or exiting\<close>

text \<open>
  How a process ends: by an exit status, or by \<open>std::terminate\<close> for an exception nothing catches.
  A step of a \<open>main\<close> has ended the process or goes on with a value. What is printed is left out.
\<close>

datatype process_end = Exit nat | Terminate

type_synonym 'a run = "process_end + 'a"

definition EXIT_SUCCESS :: nat where "EXIT_SUCCESS = 0"
definition EXIT_FAILURE :: nat where "EXIT_FAILURE = 1"

definition orDie :: "error + 'a \<Rightarrow> 'a run" where
  "orDie result = (case result of Inl e \<Rightarrow> Inl (Exit EXIT_FAILURE) | Inr x \<Rightarrow> Inr x)"

definition uncaught :: "'a flow \<Rightarrow> 'a run" where
  "uncaught r = (case r of Bad_alloc \<Rightarrow> Inl Terminate | Ret x \<Rightarrow> Inr x)"

text \<open>A sequence of calls each unwrapped, then a last step.\<close>

definition do_all :: "(error + unit) list \<Rightarrow> 'a run \<Rightarrow> 'a run" where
  "do_all rs continue = (if list_all (\<lambda>r. orDie r = Inr ()) rs then continue else Inl (Exit EXIT_FAILURE))"

text \<open>The rest of \<open>main\<close> after such a step, and a test that returns \<open>EXIT_FAILURE\<close> when it holds.\<close>

definition next_step :: "'a run \<Rightarrow> ('a \<Rightarrow> process_end option) \<Rightarrow> process_end option" where
  "next_step r f = (case r of Inl e \<Rightarrow> Some e | Inr x \<Rightarrow> f x)"

definition fail_if :: "bool \<Rightarrow> process_end option \<Rightarrow> process_end option" where
  "fail_if wrong continue = (if wrong then Some (Exit EXIT_FAILURE) else continue)"

lemma run_simps [simp]:
  "orDie (Inr x) = Inr x" "orDie (Inl e) = Inl (Exit EXIT_FAILURE)" "uncaught (Ret y) = Inr y" "uncaught Bad_alloc = Inl Terminate"
  "next_step (Inr z) f = f z" "next_step (Inl n) f = Some n" "fail_if False c = c" "fail_if True c = Some (Exit EXIT_FAILURE)"
  "do_all [] go = go" "do_all (Inr u # rs) go = do_all rs go"
  by (simp_all add: do_all_def orDie_def uncaught_def next_step_def fail_if_def)

text \<open>\<open>r.has_value() || r.error().code != code\<close>.\<close>

definition not_failed_with :: "error_code \<Rightarrow> error + 'a \<Rightarrow> bool" where
  "not_failed_with code r \<longleftrightarrow> (case r of Inl e \<Rightarrow> err_code e \<noteq> code | Inr _ \<Rightarrow> True)"

text \<open>\<open>expectEq\<close>: unwrap, compare, exit when it differs.\<close>

definition expectEq :: "error + 'a \<Rightarrow> 'a \<Rightarrow> unit run" where
  "expectEq actual expected = (case orDie actual of Inl e \<Rightarrow> Inl e
     | Inr x \<Rightarrow> if x = expected then Inr () else Inl (Exit EXIT_FAILURE))"

lemma expectEq_simps [simp]: "expectEq (Inr x) x = Inr ()"
  by (simp add: expectEq_def orDie_def)

text \<open>Several reads in a row.\<close>

definition expectAll :: "cmodel \<Rightarrow> (cpp_type \<times> string \<times> cpp_value) list \<Rightarrow> unit run option" where
  "expectAll model checks = foldr (\<lambda>(ty, path, expected) continue. do {
     actual \<leftarrow> cm_get ty model path;
     (case expectEq actual expected of Inl e \<Rightarrow> Some (Inl e) | Inr _ \<Rightarrow> continue) }) checks (Some (Inr ()))"

section \<open>Models by their top-level members\<close>

definition members_are :: "('m \<Rightarrow> config_value \<Rightarrow> bool) \<Rightarrow> 'm \<Rightarrow> (string \<rightharpoonup> config_value) \<Rightarrow> nat \<Rightarrow> bool" where
  "members_are repr m \<mu> n \<longleftrightarrow> (\<exists>ms. repr m (Obj ms) \<and> map_of ms = \<mu> \<and> Suc (mnodes ms) \<le> n)"

text \<open>The members of a section: none yet when the key is absent.\<close>

definition section_of :: "(string \<rightharpoonup> config_value) \<Rightarrow> string \<Rightarrow> (string \<times> config_value) list option" where
  "section_of \<mu> b = (case \<mu> b of None \<Rightarrow> Some [] | Some (Obj xs) \<Rightarrow> Some xs | Some _ \<Rightarrow> None)"

lemma members_areD:
  assumes "members_are repr m \<mu> n"
  obtains ms where "repr m (Obj ms)" "map_of ms = \<mu>" "Suc (mnodes ms) \<le> n"
  using assms unfolding members_are_def by blast

lemma members_areI: "repr m (Obj ms) \<Longrightarrow> map_of ms = \<mu> \<Longrightarrow> Suc (mnodes ms) \<le> n \<Longrightarrow> members_are repr m \<mu> n"
  unfolding members_are_def by blast

lemma section_ofD: "section_of \<mu> b = Some xs \<Longrightarrow> (\<mu> b = None \<and> xs = []) \<or> \<mu> b = Some (Obj xs)"
  by (auto simp: section_of_def split: option.splits config_value.splits)

lemmas fold_mnodes = mnodes_def [symmetric]

lemma mnodes_delete: "mnodes (delete_key k ms) \<le> mnodes ms"
  by (induction k ms rule: delete_key.induct) auto

lemma mnodes_upsert_le: "map_of ms k = Some (Obj xs) \<Longrightarrow> mnodes ys \<le> mnodes xs + j \<Longrightarrow>
    mnodes (upsert k (Obj ys) ms) \<le> mnodes ms + j"
  using mnodes_upsert[of ms k "Obj xs" "Obj ys"] by (simp add: fold_mnodes)

lemma mnodes_upsert_leaf: "map_of xs k = Some c0 \<Longrightarrow> mnodes (upsert k c xs) \<le> mnodes xs + cv_nodes c"
  using mnodes_upsert[of xs k c0 c] by simp

text \<open>The reads and writes of a migration, on the members.\<close>

context config_store
begin

lemma get_member:
  "members_are repr m \<mu> n \<Longrightarrow> cp_parse path = Inr [Key a] \<Longrightarrow> \<mu> a = Some c \<Longrightarrow> get m path = Some (Inr c)"
  by (auto simp: members_are_def get_law spec_get_def)

lemma get_absent: "members_are repr m \<mu> n \<Longrightarrow> cp_parse path = Inr [Key a] \<Longrightarrow> \<mu> a = None \<Longrightarrow> get m path = Some (no_member a)"
  by (auto simp: members_are_def get_law spec_get_def)

lemma get_in_section:
  "members_are repr m \<mu> n \<Longrightarrow> cp_parse path = Inr [Key a, Key b] \<Longrightarrow> section_of \<mu> a = Some xs \<Longrightarrow> map_of xs b = Some c \<Longrightarrow>
    get m path = Some (Inr c)"
  by (auto simp: members_are_def get_law spec_get_def dest!: section_ofD)

lemma put_members:
  assumes m: "members_are repr m \<mu> n" and c: "wf_at d c" and room: "n + cv_nodes c + kMaxTreeDepth \<le> kNodeIdNone"
    and spec: "\<And>ms. map_of ms = \<mu> \<Longrightarrow> \<exists>ms'. spec_set (Obj ms) path c = Inr (Obj ms') \<and> map_of ms' = \<mu>' \<and>
      mnodes ms' \<le> mnodes ms + k"
  shows "\<exists>m'. put m path c = Some (m', Inr ()) \<and> members_are repr m' \<mu>' (n + k)"
proof -
  from m obtain ms where ms: "repr m (Obj ms)" "map_of ms = \<mu>" "Suc (mnodes ms) \<le> n" by (rule members_areD)
  from spec[OF ms(2)] obtain ms' where s: "spec_set (Obj ms) path c = Inr (Obj ms')" "map_of ms' = \<mu>'"
    "mnodes ms' \<le> mnodes ms + k" by blast
  have "cv_distinct c" using c by (simp add: wf_at_validate)
  moreover have "room_for (Obj ms) c" using ms(3) room by (simp add: room_for_def fold_mnodes)
  ultimately obtain m' where "put m path c = Some (m', Inr ())" "repr m' (Obj ms')"
    using put_law[OF ms(1), of c path] s(1) by auto
  then show ?thesis using s(2,3) ms(3) by (intro exI[of _ m'] conjI members_areI[of _ _ ms']) auto
qed

lemma put_member:
  assumes "members_are repr m \<mu> n" "wf_at 1 c" "n + cv_nodes c + kMaxTreeDepth \<le> kNodeIdNone"
    and "cp_parse path = Inr [Key b]" "\<mu> b = None"
  shows "\<exists>m'. put m path c = Some (m', Inr ()) \<and> members_are repr m' (\<mu>(b \<mapsto> c)) (n + cv_nodes c)"
  using assms by (intro put_members) (auto simp: spec_set_def wf_at_validate map_add_def fun_eq_iff split: option.split)

lemma put_in_section:
  assumes "members_are repr m \<mu> n" "wf_at 2 c" "n + cv_nodes c + kMaxTreeDepth \<le> kNodeIdNone"
    and path: "cp_parse path = Inr [Key b, Key k]" and xs: "section_of \<mu> b = Some xs" "map_of xs k = None"
  shows "\<exists>m'. put m path c = Some (m', Inr ()) \<and> members_are repr m' (\<mu>(b \<mapsto> Obj (xs @ [(k, c)]))) (n + Suc (cv_nodes c))"
proof (rule put_members[OF assms(1-3)])
  fix ms assume ms: "map_of ms = \<mu>"
  from section_ofD[OF xs(1)] show "\<exists>ms'. spec_set (Obj ms) path c = Inr (Obj ms') \<and> map_of ms' = \<mu>(b \<mapsto> Obj (xs @ [(k, c)])) \<and>
      mnodes ms' \<le> mnodes ms + Suc (cv_nodes c)"
  proof (elim disjE conjE)
    assume b: "\<mu> b = None" "xs = []"
    then show ?thesis using path ms assms(2)
      by (intro exI[of _ "ms @ [(b, Obj [(k, c)])]"])
        (auto simp: spec_set_def wf_at_validate map_add_def fun_eq_iff numeral_2_eq_2 split: option.split)
  next
    assume b: "\<mu> b = Some (Obj xs)"
    have "mnodes (upsert b (Obj (xs @ [(k, c)])) ms) \<le> mnodes ms + Suc (cv_nodes c)"
      using b ms by (intro mnodes_upsert_le[of ms b xs]) auto
    then show ?thesis using path ms assms(2) xs(2) b
      by (intro exI[of _ "upsert b (Obj (xs @ [(k, c)])) ms"])
        (auto simp: spec_set_def wf_at_validate map_of_upsert fun_eq_iff numeral_2_eq_2)
  qed
qed

lemma replace_in_section:
  assumes "members_are repr m \<mu> n" "wf_at 2 c" "n + cv_nodes c + kMaxTreeDepth \<le> kNodeIdNone"
    and path: "cp_parse path = Inr [Key b, Key k]" and xs: "\<mu> b = Some (Obj xs)" "map_of xs k = Some c0" "cv_type c0 = cv_type c"
  shows "\<exists>m'. put m path c = Some (m', Inr ()) \<and> members_are repr m' (\<mu>(b \<mapsto> Obj (upsert k c xs))) (n + cv_nodes c)"
proof (rule put_members[OF assms(1-3)])
  fix ms assume ms: "map_of ms = \<mu>"
  have s: "tree_set [] c c0 = Inr c" using xs(3) by simp
  show "\<exists>ms'. spec_set (Obj ms) path c = Inr (Obj ms') \<and> map_of ms' = \<mu>(b \<mapsto> Obj (upsert k c xs)) \<and>
      mnodes ms' \<le> mnodes ms + cv_nodes c"
    using path ms assms(2) xs s
    by (intro exI[of _ "upsert b (Obj (upsert k c xs)) ms"])
      (auto simp: spec_set_def wf_at_validate map_of_upsert fun_eq_iff numeral_2_eq_2 fold_mnodes
        intro!: mnodes_upsert_le mnodes_upsert_leaf)
qed

lemma del_members:
  assumes m: "members_are repr m \<mu> n"
    and spec: "\<And>ms. map_of ms = \<mu> \<Longrightarrow> cv_distinct (Obj ms) \<Longrightarrow> \<exists>ms'. spec_remove (Obj ms) path = Inr (Obj ms') \<and> map_of ms' = \<mu>' \<and>
      mnodes ms' \<le> mnodes ms"
  shows "\<exists>m'. del m path = Some (m', Inr ()) \<and> members_are repr m' \<mu>' n"
proof -
  from m obtain ms where ms: "repr m (Obj ms)" "map_of ms = \<mu>" "Suc (mnodes ms) \<le> n" by (rule members_areD)
  have "cv_distinct (Obj ms)" using repr_wf[OF ms(1)] by (simp add: wf_model_value_def wf_at_validate)
  from spec[OF ms(2) this] obtain ms' where s: "spec_remove (Obj ms) path = Inr (Obj ms')" "map_of ms' = \<mu>'"
    "mnodes ms' \<le> mnodes ms" by blast
  then obtain m' where "del m path = Some (m', Inr ())" "repr m' (Obj ms')"
    using del_law[OF ms(1), of path] by auto
  then show ?thesis using s(2,3) ms(3) by (intro exI[of _ m'] conjI members_areI[of _ _ ms']) auto
qed

lemma del_member:
  assumes "members_are repr m \<mu> n" "cp_parse path = Inr [Key a]" "\<mu> a = Some c"
  shows "\<exists>m'. del m path = Some (m', Inr ()) \<and> members_are repr m' (\<mu>(a := None)) n"
  using assms by (intro del_members) (auto simp: spec_remove_def map_of_delete_key mnodes_delete)

lemma del_in_section:
  assumes "members_are repr m \<mu> n" "cp_parse path = Inr [Key a, Key b]" "\<mu> a = Some (Obj xs)" "map_of xs b = Some c"
  shows "\<exists>m'. del m path = Some (m', Inr ()) \<and> members_are repr m' (\<mu>(a \<mapsto> Obj (delete_key b xs))) n"
  using assms
  by (intro del_members)
    (auto simp: spec_remove_def map_of_upsert fun_eq_iff mnodes_delete intro!: mnodes_upsert_le[where j = 0, simplified])

end

abbreviation has_members :: "cmodel \<Rightarrow> (string \<rightharpoonup> config_value) \<Rightarrow> nat \<Rightarrow> bool" where
  "has_members \<equiv> members_are models"

text \<open>The same model with its members written differently.\<close>

lemma has_members_eq: "has_members m \<mu> n \<Longrightarrow> (\<And>k. \<mu> k = \<nu> k) \<Longrightarrow> n \<le> n' \<Longrightarrow> has_members m \<nu> n'"
  by (force simp: members_are_def fun_eq_iff)

text \<open>One leaf moves: a top-level one into a section, or one from a section into another.\<close>

lemma moveKey_into_section:
  assumes m: "has_members m \<mu> n" and room: "n + 200 \<le> kNodeIdNone"
    and path: "cp_parse source = Inr [Key a]" "cp_parse target = Inr [Key b, Key k]" "a \<noteq> b"
    and at: "\<mu> a = Some (Scal s)" "section_of \<mu> b = Some xs" "map_of xs k = None"
    and new: "\<And>i. \<nu> i = (\<mu>(b \<mapsto> Obj (xs @ [(k, Scal s)]), a := None)) i"
  shows "\<exists>m'. moveKey m source target = Some (m', Inr ()) \<and> has_members m' \<nu> (n + 2)"
proof -
  have c: "wf_at 2 (Scal s)" "n + cv_nodes (Scal s) + kMaxTreeDepth \<le> kNodeIdNone"
    using room by (simp_all add: kMaxTreeDepth_def)
  from cs.put_in_section[OF m c path(2) at(2,3)] obtain m1 where
    1: "cm_set m target (Scal s) = Some (m1, Inr ())" "has_members m1 (\<mu>(b \<mapsto> Obj (xs @ [(k, Scal s)]))) (n + 2)"
    by auto
  from cs.del_member[OF 1(2) path(1), of "Scal s"] path(3) at(1) obtain m2 where
    2: "cm_remove m1 source = Some (m2, Inr ())" "has_members m2 (\<mu>(b \<mapsto> Obj (xs @ [(k, Scal s)]), a := None)) (n + 2)"
    by auto
  then show ?thesis using 1(1) cs.get_member[OF m path(1) at(1)] has_members_eq[OF 2(2), of \<nu>] new
    by (simp add: moveKey_def)
qed

lemma moveKey_across:
  assumes m: "has_members m \<mu> n" and room: "n + 200 \<le> kNodeIdNone"
    and path: "cp_parse source = Inr [Key a, Key j]" "cp_parse target = Inr [Key b, Key k]" "a \<noteq> b"
    and at: "\<mu> a = Some (Obj ys)" "map_of ys j = Some (Scal s)" "section_of \<mu> b = Some xs" "map_of xs k = None"
    and new: "\<And>i. \<nu> i = (\<mu>(b \<mapsto> Obj (xs @ [(k, Scal s)]), a \<mapsto> Obj (delete_key j ys))) i"
  shows "\<exists>m'. moveKey m source target = Some (m', Inr ()) \<and> has_members m' \<nu> (n + 2)"
proof -
  have c: "wf_at 2 (Scal s)" "n + cv_nodes (Scal s) + kMaxTreeDepth \<le> kNodeIdNone"
    using room by (simp_all add: kMaxTreeDepth_def)
  from cs.put_in_section[OF m c path(2) at(3,4)] obtain m1 where
    1: "cm_set m target (Scal s) = Some (m1, Inr ())" "has_members m1 (\<mu>(b \<mapsto> Obj (xs @ [(k, Scal s)]))) (n + 2)"
    by auto
  from cs.del_in_section[OF 1(2) path(1)] path(3) at(1,2) obtain m2 where
    2: "cm_remove m1 source = Some (m2, Inr ())"
    "has_members m2 (\<mu>(b \<mapsto> Obj (xs @ [(k, Scal s)]), a \<mapsto> Obj (delete_key j ys))) (n + 2)"
    by auto
  moreover have "section_of \<mu> a = Some ys" using at(1) by (simp add: section_of_def)
  ultimately show ?thesis using 1(1) cs.get_in_section[OF m path(1) _ at(2)] has_members_eq[OF 2(2), of \<nu>] new
    by (simp add: moveKey_def)
qed

lemma put_leaf:
  assumes m: "has_members m \<mu> n" and room: "n + 200 \<le> kNodeIdNone" and path: "cp_parse path = Inr [Key b, Key k]"
    and at: "section_of \<mu> b = Some xs" "map_of xs k = None"
    and new: "\<And>i. \<nu> i = (\<mu>(b \<mapsto> Obj (xs @ [(k, Scal s)]))) i"
  shows "\<exists>m'. cm_set m path (Scal s) = Some (m', Inr ()) \<and> has_members m' \<nu> (n + 2)"
proof -
  have "wf_at 2 (Scal s)" "n + cv_nodes (Scal s) + kMaxTreeDepth \<le> kNodeIdNone"
    using room by (simp_all add: kMaxTreeDepth_def)
  from cs.put_in_section[OF m this path at] obtain m1 where
    "cm_set m path (Scal s) = Some (m1, Inr ())" "has_members m1 (\<mu>(b \<mapsto> Obj (xs @ [(k, Scal s)]))) (n + 2)"
    by auto
  then show ?thesis using has_members_eq[of m1 _ "n + 2" \<nu>] new by simp
qed

lemma remove_member:
  assumes m: "has_members m \<mu> n" and path: "cp_parse path = Inr [Key a]" and at: "\<mu> a = Some c"
    and new: "\<And>i. \<nu> i = (\<mu>(a := None)) i"
  shows "\<exists>m'. cm_remove m path = Some (m', Inr ()) \<and> has_members m' \<nu> n"
  using cs.del_member[OF m path at] has_members_eq[of _ "\<mu>(a := None)" n \<nu>] new by force

lemma remove_in_section:
  assumes m: "has_members m \<mu> n" and path: "cp_parse path = Inr [Key a, Key b]" and at: "\<mu> a = Some (Obj xs)" "map_of xs b = Some c"
    and new: "\<And>i. \<nu> i = (\<mu>(a \<mapsto> Obj (delete_key b xs))) i"
  shows "\<exists>m'. cm_remove m path = Some (m', Inr ()) \<and> has_members m' \<nu> n"
  using cs.del_in_section[OF m path at] has_members_eq[of _ "\<mu>(a \<mapsto> Obj (delete_key b xs))" n \<nu>] new by force

text \<open>Nothing is moved from a path that is not there, and the model is not touched.\<close>

lemma moveKey_absent:
  "has_members m \<mu> n \<Longrightarrow> cp_parse source = Inr [Key a] \<Longrightarrow> \<mu> a = None \<Longrightarrow> moveKey m source target = Some (m, no_member a)"
  by (simp add: moveKey_def cs.get_absent no_member_def then_with_def)

lemma parse_dotted: "isAddressableKey a \<Longrightarrow> isAddressableKey b \<Longrightarrow> cp_parse (a @ ''.'' @ b) = Inr [Key a, Key b]"
  using cp_parse_join[of a "[Key a]" b] cp_parse_key[of a] by simp

section \<open>Writes and reads with a known result\<close>

lemma set_ok:
  assumes "models m v" "spec_set v path new = Inr v'" "cv_distinct new" "room_for v new"
  obtains m' where "cm_set m path new = Some (m', Inr ())" "models m' v'"
  using cs.put_law[OF assms(1,3,4), of path] assms(2) by auto

lemma set_refused:
  assumes "models m v" "spec_set v path new = fail c t" "cv_distinct new" "room_for v new"
  shows "cm_set m path new = Some (m, fail c t)"
  using cs.put_law[OF assms(1,3,4), of path] assms(2) by auto

lemma remove_ok:
  assumes "models m v" "spec_remove v path = Inr v'"
  obtains m' where "cm_remove m path = Some (m', Inr ())" "models m' v'"
  using cs.del_law[OF assms(1), of path] assms(2) by auto

text \<open>One move, on the tree.\<close>

lemma moveKey_tree:
  assumes "models m v" "spec_get v source = Inr c" "spec_set v target c = Inr v1" "spec_remove v1 source = Inr v2"
    and "cv_distinct c" "room_for v c"
  shows "\<exists>m'. moveKey m source target = Some (m', Inr ()) \<and> models m' v2"
proof -
  from set_ok[OF assms(1,3,5,6)] obtain m1 where 1: "cm_set m target c = Some (m1, Inr ())" "models m1 v1" .
  from remove_ok[OF 1(2) assms(4)] obtain m2 where "cm_remove m1 source = Some (m2, Inr ())" "models m2 v2" .
  with 1(1) assms(2) show ?thesis by (simp add: moveKey_def cm.get_law[OF assms(1)])
qed

lemma set_scalar_int: "cm_set_scalar m path (CSigned i) = cm_set m path (Scal (SInt (word_of_int i)))"
  by (simp add: cm_set_scalar_def ofPreconditionViolation_def cv_of_def)

lemma set_scalar_text: "cm_set_scalar m path (CStr (Some s)) = cm_set m path (Scal (SString s))"
  by (simp add: cm_set_scalar_def ofPreconditionViolation_def cv_of_def)

lemma read_simps [simp]: "convertScalar TyString (SString s) = Inr (VString s)"
  "convertScalar (TyInteger True 64) (SInt i) = Inr (VInteger (sint i))" "convertScalar TyBool (SBool b) = Inr (VBool b)"
  by (simp_all add: convertScalar_def fits_int64)

lemma get_bool: "has_members m \<mu> n \<Longrightarrow> cp_parse path = Inr [Key a] \<Longrightarrow> \<mu> a = Some (Scal (SBool b)) \<Longrightarrow>
    cm_get TyBool m path = Some (Inr (VBool b))"
  by (auto simp: members_are_def cm_get_models spec_read_def spec_get_def convertScalar_def)

text \<open>Members after repair.\<close>

lemma fill_map:
  assumes "wf_at n (Obj ds)"
  shows "fill (Obj ds) (Obj ms) = Obj (fill_members ds ms)"
    "map_of (fill_members ds ms) k = (case map_of ds k of None \<Rightarrow> map_of ms k
      | Some d \<Rightarrow> Some (case map_of ms k of None \<Rightarrow> d | Some c \<Rightarrow> fill d c))"
  using assms by (simp_all add: map_of_fill_members)

section \<open>Catalogs of two and of three versions\<close>

definition two_versions :: "config_value option \<Rightarrow> config_value option \<Rightarrow> 's catalog" where
  "two_versions d1 d2 = [\<lparr>va_version = 1, va_factory = Some (factory d1)\<rparr>, \<lparr>va_version = 2, va_factory = Some (factory d2)\<rparr>]"

definition three_versions :: "config_value option \<Rightarrow> config_value option \<Rightarrow> config_value option \<Rightarrow> 's catalog" where
  "three_versions d1 d2 d3 = two_versions d1 d2 @ [\<lparr>va_version = 3, va_factory = Some (factory d3)\<rparr>]"

type_synonym model_step = "cmodel \<Rightarrow> (cmodel \<times> (error + unit)) option"

definition one_migration :: "model_step \<Rightarrow> 's registry" where
  "one_migration f = [\<lparr>e_from = 1, e_to = 2, e_apply = Some (migration f)\<rparr>]"

definition two_migrations :: "model_step \<Rightarrow> model_step \<Rightarrow> 's registry" where
  "two_migrations f g = one_migration f @ [\<lparr>e_from = 2, e_to = 3, e_apply = Some (migration g)\<rparr>]"

lemmas wiring_defs = two_versions_def three_versions_def one_migration_def two_migrations_def

text \<open>What the calls of a \<open>main\<close> that register them come to.\<close>

lemma registered_two: "registerVersion [] \<lparr>va_version = 1, va_factory = Some (factory d1)\<rparr> =
    ([\<lparr>va_version = 1, va_factory = Some (factory d1)\<rparr>], Inr ())"
  "registerVersion [\<lparr>va_version = 1, va_factory = Some (factory d1)\<rparr>] \<lparr>va_version = 2, va_factory = Some (factory d2)\<rparr> =
    (two_versions d1 d2, Inr ())"
  "registerVersion (two_versions d1 d2) \<lparr>va_version = 3, va_factory = Some (factory d3)\<rparr> = (three_versions d1 d2 d3, Inr ())"
  by (simp_all add: wiring_defs registerVersion_def findEntry_def cat_at_def)

lemma registered_migrations: "registerMigration [] 1 2 (Some (migration f)) = (one_migration f, Inr ())"
  "registerMigration (one_migration f) 2 3 (Some (migration g)) = (two_migrations f g, Inr ())"
  by (simp_all add: wiring_defs registerMigration_def is_edge_def)

lemma wired:
  "cat_inv (two_versions d1 d2)" "cat_inv (three_versions d1 d2 d3)" "reg_inv (one_migration f)" "reg_inv (two_migrations f g)"
  "reg_validate (one_migration f) (two_versions d1 d2) = Inr ()" "reg_validate (two_migrations f g) (three_versions d1 d2 d3) = Inr ()"
  "cat_versions (two_versions d1 d2) = [1, 2]" "cat_versions (three_versions d1 d2 d3) = [1, 2, 3]"
  by (simp_all add: wiring_defs cat_inv_def reg_inv_def reg_validate_def cat_contains_def cat_at_def
      findEntry_def nextVersion_def cat_versions_def is_edge_def)

definition runtime2 :: "config_value option \<Rightarrow> config_value option \<Rightarrow> model_step \<Rightarrow> 's runtime" where
  "runtime2 d1 d2 f = \<lparr>rt_catalog = two_versions d1 d2, rt_registry = one_migration f\<rparr>"

definition runtime3 ::
    "config_value option \<Rightarrow> config_value option \<Rightarrow> config_value option \<Rightarrow> model_step \<Rightarrow> model_step \<Rightarrow> 's runtime" where
  "runtime3 d1 d2 d3 f g = \<lparr>rt_catalog = three_versions d1 d2 d3, rt_registry = two_migrations f g\<rparr>"

lemma runtimes_created: "rt_create (two_versions d1 d2) (one_migration f) = Inr (runtime2 d1 d2 f)"
  "rt_create (three_versions d1 d2 d3) (two_migrations f g) = Inr (runtime3 d1 d2 d3 f g)"
  by (simp_all add: rt_create_def wired runtime2_def runtime3_def)

lemma runtimes_inv: "rt_inv (runtime2 d1 d2 f)" "rt_inv (runtime3 d1 d2 d3 f g)"
  by (simp_all add: rt_inv_def wired runtime2_def runtime3_def) (simp_all add: wiring_defs)

lemma runtime_defaults:
  "default_of (rt_catalog (runtime2 d1 d2 f)) 1 s = Some (s, FReturns (the d1))"
  "default_of (rt_catalog (runtime2 d1 d2 f)) 2 s = Some (s, FReturns (the d2))"
  "default_of (rt_catalog (runtime3 d1 d2 d3 f g)) 3 s = Some (s, FReturns (the d3))"
  by (simp_all add: default_of_def runtime2_def runtime3_def wiring_defs findEntry_def cat_at_def factory_def)

lemma runtimes_known: "set (cat_versions (rt_catalog (runtime2 d1 d2 f))) = {1, 2}"
  "set (cat_versions (rt_catalog (runtime3 d1 d2 d3 f g))) = {1, 2, 3}"
  by (simp_all add: runtime2_def runtime3_def wired)

lemma runtimes_latest: "latestVersion (rt_catalog (runtime2 d1 d2 f)) = Inr 2"
  "latestVersion (rt_catalog (runtime3 d1 d2 d3 f g)) = Inr 3"
  by (simp_all add: latestVersion_def runtime2_def runtime3_def wiring_defs)

text \<open>The upgrades, from what the migrations make of the model.\<close>

lemma upgrade2:
  assumes "f m = Some (m', Inr ())" "models m' v" "good_default v (the d2)"
  shows "\<exists>cfg'. synchronize (runtime2 d1 d2 f) s \<lparr>vc_version = 1, vc_model = m\<rparr> 2 = Some (s, cfg', Ret (Inr InSync)) \<and>
    vc_version cfg' = 2 \<and> models (vc_model cfg') (fill (the d2) v)"
proof -
  let ?rt = "runtime2 d1 d2 f" and ?cfg = "\<lparr>vc_version = 1, vc_model = m\<rparr>"
  have "run_chain (rt_registry ?rt) (vc_version ?cfg) (chain_to (rt_catalog ?rt) (vc_version ?cfg) 2) s (vc_model ?cfg) =
      (s, \<lparr>vc_version = 2, vc_model = m'\<rparr>, Ret (Inr ()))"
    using assms(1) by (simp add: runtime2_def chain_to_def wired migration_def step_result_def findMigration_def one_migration_def is_edge_def)
  from sync_upgrade(3)[OF runtimes_inv(1) _ _ _ this refl _ runtime_defaults(2)] assms(2,3) show ?thesis by (simp add: runtimes_known)
qed

lemma upgrade3:
  assumes "f m = Some (m1, Inr ())" "g m1 = Some (m2, Inr ())" "models m2 v" "good_default v (the d3)"
  shows "\<exists>cfg'. synchronize (runtime3 d1 d2 d3 f g) s \<lparr>vc_version = 1, vc_model = m\<rparr> 3 = Some (s, cfg', Ret (Inr InSync)) \<and>
    vc_version cfg' = 3 \<and> models (vc_model cfg') (fill (the d3) v)"
proof -
  let ?rt = "runtime3 d1 d2 d3 f g" and ?cfg = "\<lparr>vc_version = 1, vc_model = m\<rparr>"
  have "run_chain (rt_registry ?rt) (vc_version ?cfg) (chain_to (rt_catalog ?rt) (vc_version ?cfg) 3) s (vc_model ?cfg) =
      (s, \<lparr>vc_version = 3, vc_model = m2\<rparr>, Ret (Inr ()))"
    using assms(1,2) by (simp add: runtime3_def chain_to_def wired migration_def step_result_def findMigration_def
        two_migrations_def one_migration_def is_edge_def)
  from sync_upgrade(3)[OF runtimes_inv(2) _ _ _ this refl _ runtime_defaults(3)] assms(3,4) show ?thesis by (simp add: runtimes_known)
qed

end
