(* ===== verification/Example_Basics.thy ===== *)
theory Example_Basics
  imports Example_Kit
begin

text \<open>
  \<open>examples/01_basic_model.cpp\<close> and \<open>examples/02_versioning_and_migration.cpp\<close>: their trees, the
  migration, and both \<open>main\<close>s, which check what they demonstrate and exit with \<open>EXIT_FAILURE\<close> when it
  does not hold. The theorems are that neither does.
\<close>

section \<open>Example 01\<close>

definition basic_root :: "config_value option" where
  "basic_root = do {
     p0 \<leftarrow> (case cv_of (CSigned 8080) of Of_value c \<Rightarrow> cv_push cv_array c | Of_throws _ \<Rightarrow> None);
     ports \<leftarrow> (case cv_of (CSigned 8443) of Of_value c \<Rightarrow> cv_push p0 c | Of_throws _ \<Rightarrow> None);
     network \<leftarrow> set_of cv_object ''host'' (CStr (Some ''localhost''));
     network \<leftarrow> cv_set network ''ports'' ports;
     root \<leftarrow> set_of cv_object ''app_name'' (CStr (Some ''demo''));
     root \<leftarrow> set_of root ''retries'' (CSigned 3);
     cv_set root ''network'' network }"

definition basic_main :: "process_end option" where
  "basic_main = do {
     root \<leftarrow> basic_root;
     model \<leftarrow> cm_fromValue root;
     next_step (orDie model) (\<lambda>model. do {
     host \<leftarrow> cm_get TyString model ''network.host'';
     next_step (orDie host) (\<lambda>host. do {
     firstPort \<leftarrow> cm_get (TyInteger True 64) model ''network.ports[0]'';
     next_step (orDie firstPort) (\<lambda>firstPort. do {
     (model, r) \<leftarrow> cm_set_scalar model ''retries'' (CSigned 5);
     next_step (orDie r) (\<lambda>_. do {
     before \<leftarrow> cm_contains model ''network.timeout_ms'';
     (model, r) \<leftarrow> cm_set_scalar model ''network.timeout_ms'' (CSigned 2500);
     next_step (orDie r) (\<lambda>_. do {
     after \<leftarrow> cm_contains model ''network.timeout_ms'';
     (model, r) \<leftarrow> cm_remove model ''network.timeout_ms'';
     next_step (orDie r) (\<lambda>_. do {
     removed \<leftarrow> cm_contains model ''network.timeout_ms'';
     (model, crossType) \<leftarrow> cm_set_scalar model ''retries'' (CStr (Some ''many''));
     fail_if (not_failed_with InvalidType crossType) (do {
     retries \<leftarrow> cm_get (TyInteger True 64) model ''retries'';
     next_step (orDie retries) (\<lambda>retries. do {
     absent \<leftarrow> cm_get (TyInteger True 64) model ''network.proxy.port'';
     fail_if (not_failed_with NodeNotFound absent) (Some (Exit EXIT_SUCCESS)) }) }) }) }) }) }) }) }) }"

section \<open>Example 02\<close>

definition vm_v1Defaults :: "config_value option" where
  "vm_v1Defaults = do {
     root \<leftarrow> set_of cv_object ''app_name'' (CStr (Some ''demo''));
     set_of root ''timeout'' (CSigned 30) }"

definition vm_v2Defaults :: "config_value option" where
  "vm_v2Defaults = do {
     network \<leftarrow> set_of cv_object ''timeout'' (CSigned 30);
     network \<leftarrow> set_of network ''retries'' (CSigned 3);
     root \<leftarrow> set_of cv_object ''app_name'' (CStr (Some ''demo''));
     cv_set root ''network'' network }"

definition vm_migrateV1ToV2 :: "cmodel \<Rightarrow> (cmodel \<times> (error + unit)) option" where
  "vm_migrateV1ToV2 model =
     then_with (reading model (cm_getValue model ''timeout'')) (\<lambda>model timeout.
     then_with (cm_set model ''network.timeout'' timeout) (\<lambda>model _.
     cm_remove model ''timeout''))"

definition vm_runtime :: "'s runtime run" where
  "vm_runtime = (let
     (catalog, r1) = registerVersion [] \<lparr>va_version = 1, va_factory = Some (factory vm_v1Defaults)\<rparr>;
     (catalog, r2) = registerVersion catalog \<lparr>va_version = 2, va_factory = Some (factory vm_v2Defaults)\<rparr>;
     (registry, r3) = registerMigration [] 1 2 (Some (migration vm_migrateV1ToV2))
   in do_all [r1, r2, r3] (orDie (rt_create catalog registry)))"

text \<open>The runtime's callbacks share no state here: it is \<open>unit\<close>.\<close>

definition vm_main :: "process_end option" where
  "vm_main = next_step vm_runtime (\<lambda>runtime. do {
     (_, created) \<leftarrow> rt_createDefault runtime 1 ();
     next_step (uncaught created) (\<lambda>created.
     next_step (orDie created) (\<lambda>config. do {
     (m, r) \<leftarrow> cm_set_scalar (vc_model config) ''timeout'' (CSigned 45);
     next_step (orDie r) (\<lambda>_. do {
     let config = config\<lparr>vc_model := m\<rparr>;
     timeout \<leftarrow> cm_get (TyInteger True 64) (vc_model config) ''timeout'';
     next_step (orDie timeout) (\<lambda>_. do {
     present \<leftarrow> cm_contains (vc_model config) ''network.retries'';
     fail_if (ss_status (inspect config 2) \<noteq> UpgradeRequired) (do {
     (_, config, result) \<leftarrow> synchronize runtime () config 2;
     next_step (uncaught result) (\<lambda>result.
     next_step (orDie result) (\<lambda>result. do {
     movedTimeout \<leftarrow> cm_get (TyInteger True 64) (vc_model config) ''network.timeout'';
     next_step (orDie movedTimeout) (\<lambda>movedTimeout. do {
     repairedRetries \<leftarrow> cm_get (TyInteger True 64) (vc_model config) ''network.retries'';
     next_step (orDie repairedRetries) (\<lambda>repairedRetries. do {
     left \<leftarrow> cm_contains (vc_model config) ''timeout'';
     fail_if (vc_version config \<noteq> 2 \<or> movedTimeout \<noteq> VInteger 45 \<or> repairedRetries \<noteq> VInteger 3 \<or> left)
       (Some (Exit EXIT_SUCCESS)) }) }) })) }) }) }) })) })"

section \<open>The examples succeed\<close>

lemma basic_root_value: "basic_root = Some (Obj [(''app_name'', Scal (SString ''demo'')), (''retries'', Scal (SInt 3)),
    (''network'', Obj [(''host'', Scal (SString ''localhost'')), (''ports'', Arr [Scal (SInt 8080), Scal (SInt 8443)])])])"
  by (simp add: basic_root_def cv_of_def cv_push_def cv_array_def cv_object_def cv_set_def)

lemma basic_paths:
  "cp_parse ''retries'' = Inr [Key ''retries'']" "cp_parse ''timeout'' = Inr [Key ''timeout'']"
  "cp_parse ''network.host'' = Inr [Key ''network'', Key ''host'']"
  "cp_parse ''network.timeout_ms'' = Inr [Key ''network'', Key ''timeout_ms'']"
  "cp_parse ''network.timeout'' = Inr [Key ''network'', Key ''timeout'']"
  "cp_parse ''network.retries'' = Inr [Key ''network'', Key ''retries'']"
  "cp_parse ''network.proxy.port'' = Inr [Key ''network'', Key ''proxy'', Key ''port'']"
  "cp_parse ''network.ports[0]'' = Inr [Key ''network'', Key ''ports'', Index 0]"
  using cp_parse_key[of "''retries''"] cp_parse_key[of "''timeout''"] parse_dotted[of "''network''" "''host''"]
    parse_dotted[of "''network''" "''timeout_ms''"] parse_dotted[of "''network''" "''timeout''"]
    parse_dotted[of "''network''" "''retries''"]
    cp_parse_join[OF parse_dotted[of "''network''" "''proxy''"], of "''port''"]
    cp_parse_render[of "[Key ''network'', Key ''ports'', Index 0]"]
  by (simp_all add: isAddressableKey_def is_reserved_def wf_path_def nat_str.simps char_of_def bit_0)

lemma basic_main_succeeds: "basic_main = Some (Exit EXIT_SUCCESS)"
proof -
  let ?v = "\<lambda>r ns. Obj [(''app_name'', Scal (SString ''demo'')), (''retries'', Scal (SInt r)),
    (''network'', Obj ([(''host'', Scal (SString ''localhost'')), (''ports'', Arr [Scal (SInt 8080), Scal (SInt 8443)])] @ ns))]"
  let ?t = "[(''timeout_ms'', Scal (SInt 2500))]"
  have room: "room_for (?v r ns) (Scal s)" if "ns = [] \<or> ns = ?t" for r ns s
    using that by (auto simp: room_for_def kMaxTreeDepth_def kNodeIdNone_def)
  have wf: "wf_model_value (?v 3 [])"
    by (auto simp: wf_model_value_def kMaxTreeDepth_def isAddressableKey_def is_reserved_def)
  then have "spec_fromValue (?v 3 []) = Inr (?v 3 [])" "cv_distinct (?v 3 [])"
    by (simp_all add: spec_fromValue_def wf_model_value_def wf_at_validate)
  with fromValue_refines[of "?v 3 []"] obtain m0 where
    0: "cm_fromValue (?v 3 []) = Some (Inr m0)" "models m0 (?v 3 [])" by (auto simp: kNodeIdNone_def)
  have "spec_set (?v 3 []) ''retries'' (Scal (SInt 5)) = Inr (?v 5 [])"
    by (simp add: spec_set_def basic_paths kMaxTreeDepth_def)
  from set_ok[OF 0(2) this _ room] obtain m1 where
    1: "cm_set m0 ''retries'' (Scal (SInt 5)) = Some (m1, Inr ())" "models m1 (?v 5 [])" by auto
  have "spec_set (?v 5 []) ''network.timeout_ms'' (Scal (SInt 2500)) = Inr (?v 5 ?t)"
    by (simp add: spec_set_def basic_paths kMaxTreeDepth_def)
  from set_ok[OF 1(2) this _ room] obtain m2 where
    2: "cm_set m1 ''network.timeout_ms'' (Scal (SInt 2500)) = Some (m2, Inr ())" "models m2 (?v 5 ?t)" by auto
  have "spec_remove (?v 5 ?t) ''network.timeout_ms'' = Inr (?v 5 [])"
    by (simp add: spec_remove_def basic_paths)
  from remove_ok[OF 2(2) this] obtain m3 where
    3: "cm_remove m2 ''network.timeout_ms'' = Some (m3, Inr ())" "models m3 (?v 5 [])" .
  have "spec_set (?v 5 []) ''retries'' (Scal (SString ''many'')) = changes_type"
    by (simp add: spec_set_def basic_paths kMaxTreeDepth_def changes_type_def)
  from set_refused[OF 3(2) this[unfolded changes_type_def] _ room] have
    4: "cm_set m3 ''retries'' (Scal (SString ''many'')) = Some (m3, changes_type)" by (simp add: changes_type_def)
  have g: "cm_get TyString m0 ''network.host'' = Some (Inr (VString ''localhost''))"
    "cm_get (TyInteger True 64) m0 ''network.ports[0]'' = Some (Inr (VInteger 8080))"
    "cm_get (TyInteger True 64) m3 ''retries'' = Some (Inr (VInteger 5))"
    "cm_get (TyInteger True 64) m3 ''network.proxy.port'' = Some (no_member ''proxy'')"
    by (simp_all add: cm_get_models[OF 0(2)] cm_get_models[OF 3(2)] spec_read_def spec_get_def basic_paths no_member_def)
  have c: "\<exists>b. cm_contains m1 ''network.timeout_ms'' = Some b" "\<exists>b. cm_contains m2 ''network.timeout_ms'' = Some b"
    "\<exists>b. cm_contains m3 ''network.timeout_ms'' = Some b"
    using cm.has_law[OF 1(2)] cm.has_law[OF 2(2)] cm.has_law[OF 3(2)] by blast+
  have e: "\<not> not_failed_with InvalidType (changes_type :: error + unit)" "\<not> not_failed_with NodeNotFound (no_member k :: error + cpp_value)" for k
    by (simp_all add: not_failed_with_def changes_type_def no_member_def)
  have i: "word_of_int 5 = (5 :: int64)" "word_of_int 2500 = (2500 :: int64)" by simp_all
  from c obtain b1 b2 b3 where c: "cm_contains m1 ''network.timeout_ms'' = Some b1" "cm_contains m2 ''network.timeout_ms'' = Some b2"
    "cm_contains m3 ''network.timeout_ms'' = Some b3" by blast
  have r: "basic_root = Some (?v 3 [])" by (simp add: basic_root_value)
  show ?thesis
    by (simp only: basic_main_def r 0(1) g c e i set_scalar_int set_scalar_text 1(1) 2(1) 3(1) 4 Option.bind_lunit run_simps split if_False fail_if_def)
qed

lemma vm_defaults:
  "vm_v1Defaults = Some (Obj [(''app_name'', Scal (SString ''demo'')), (''timeout'', Scal (SInt 30))])"
  "vm_v2Defaults = Some (Obj [(''app_name'', Scal (SString ''demo'')),
     (''network'', Obj [(''timeout'', Scal (SInt 30)), (''retries'', Scal (SInt 3))])])"
  by (simp_all add: vm_v1Defaults_def vm_v2Defaults_def cv_object_def cv_set_def)

lemma vm_migrate_is_moveKey: "vm_migrateV1ToV2 m = moveKey m ''timeout'' ''network.timeout''"
  by (simp add: vm_migrateV1ToV2_def moveKey_def)

lemma vm_runtime_ok: "vm_runtime = Inr (runtime2 vm_v1Defaults vm_v2Defaults vm_migrateV1ToV2)"
  by (simp add: vm_runtime_def registered_two registered_migrations runtimes_created)

lemma vm_main_succeeds: "vm_main = Some (Exit EXIT_SUCCESS)"
proof -
  let ?rt = "runtime2 vm_v1Defaults vm_v2Defaults vm_migrateV1ToV2 :: unit runtime"
  let ?v = "\<lambda>t. Obj [(''app_name'', Scal (SString ''demo'')), (''timeout'', Scal (SInt t))]"
  let ?v2 = "Obj [(''app_name'', Scal (SString ''demo'')), (''network'', Obj [(''timeout'', Scal (SInt 45))])]"
  let ?v3 = "Obj [(''app_name'', Scal (SString ''demo'')), (''network'', Obj [(''timeout'', Scal (SInt 45)), (''retries'', Scal (SInt 3))])]"
  have d: "the vm_v1Defaults = ?v 30" "the vm_v2Defaults = Obj [(''app_name'', Scal (SString ''demo'')),
     (''network'', Obj [(''timeout'', Scal (SInt 30)), (''retries'', Scal (SInt 3))])]" by (simp_all add: vm_defaults)
  have "wf_model_value (?v 30)"
    by (auto simp: wf_model_value_def kMaxTreeDepth_def isAddressableKey_def is_reserved_def)
  with createDefault_ok[OF runtime_defaults(1)[of vm_v1Defaults vm_v2Defaults vm_migrateV1ToV2 "()"]] obtain m0 where
    "cat_createDefault (rt_catalog ?rt) 1 () = Some ((), Ret (Inr m0))" and m0: "models m0 (?v 30)"
    by (auto simp: d kNodeIdNone_def)
  then have c: "rt_createDefault ?rt 1 () = Some ((), Ret (Inr \<lparr>vc_version = 1, vc_model = m0\<rparr>))"
    by (simp add: rt_createDefault_def)
  have "spec_set (?v 30) ''timeout'' (Scal (SInt 45)) = Inr (?v 45)"
    by (simp add: spec_set_def basic_paths kMaxTreeDepth_def)
  from set_ok[OF m0 this] obtain m1 where
    1: "cm_set m0 ''timeout'' (Scal (SInt 45)) = Some (m1, Inr ())" "models m1 (?v 45)"
    by (auto simp: room_for_def kMaxTreeDepth_def kNodeIdNone_def)
  have g: "cm_getValue m1 ''timeout'' = Some (Inr (Scal (SInt 45)))"
    by (simp add: cm.get_law[OF 1(2)] spec_get_def basic_paths)
  have "spec_set (?v 45) ''network.timeout'' (Scal (SInt 45)) = Inr (Obj [(''app_name'', Scal (SString ''demo'')),
      (''timeout'', Scal (SInt 45)), (''network'', Obj [(''timeout'', Scal (SInt 45))])])"
    by (simp add: spec_set_def basic_paths kMaxTreeDepth_def)
  from set_ok[OF 1(2) this] obtain m2 where
    2: "cm_set m1 ''network.timeout'' (Scal (SInt 45)) = Some (m2, Inr ())"
    "models m2 (Obj [(''app_name'', Scal (SString ''demo'')), (''timeout'', Scal (SInt 45)), (''network'', Obj [(''timeout'', Scal (SInt 45))])])"
    by (auto simp: room_for_def kMaxTreeDepth_def kNodeIdNone_def)
  have "spec_remove (Obj [(''app_name'', Scal (SString ''demo'')), (''timeout'', Scal (SInt 45)),
      (''network'', Obj [(''timeout'', Scal (SInt 45))])]) ''timeout'' = Inr ?v2"
    by (simp add: spec_remove_def basic_paths)
  from remove_ok[OF 2(2) this] obtain m3 where 3: "cm_remove m2 ''timeout'' = Some (m3, Inr ())" "models m3 ?v2" .
  have f: "vm_migrateV1ToV2 m1 = Some (m3, Inr ())" using g 2(1) 3(1) by (simp add: vm_migrateV1ToV2_def)
  have good: "good_default ?v2 (the vm_v2Defaults)"
    by (auto simp: good_default_def d room_for_def kMaxTreeDepth_def kNodeIdNone_def wf_model_value_def isAddressableKey_def is_reserved_def)
  have "fill (the vm_v2Defaults) ?v2 = ?v3" by (simp add: d)
  with upgrade2[where f = vm_migrateV1ToV2, OF f 3(2) good, of vm_v1Defaults "()"] obtain cfg where
    s: "synchronize ?rt () \<lparr>vc_version = 1, vc_model = m1\<rparr> 2 = Some ((), cfg, Ret (Inr InSync))" "vc_version cfg = 2" "models (vc_model cfg) ?v3"
    by auto
  have r: "cm_get (TyInteger True 64) m1 ''timeout'' = Some (Inr (VInteger 45))"
    "cm_get (TyInteger True 64) (vc_model cfg) ''network.timeout'' = Some (Inr (VInteger 45))"
    "cm_get (TyInteger True 64) (vc_model cfg) ''network.retries'' = Some (Inr (VInteger 3))"
    by (simp_all add: cm_get_models[OF 1(2)] cm_get_models[OF s(3)] spec_read_def spec_get_def basic_paths)
  have l: "cm_contains (vc_model cfg) ''timeout'' = Some False" "cm_contains m1 ''network.retries'' = Some False"
    by (simp_all add: cm.has_law[OF s(3)] cm.has_law[OF 1(2)] spec_get_def basic_paths no_member_def)
  have i: "word_of_int 45 = (45 :: int64)" by simp
  have u: "ss_status (inspect \<lparr>vc_version = 1, vc_model = m1\<rparr> 2) = UpgradeRequired" by (simp add: inspect_def)
  show ?thesis
    unfolding vm_main_def vm_runtime_ok run_simps c set_scalar_int i vconfig.simps 1(1)
    by (simp add: c set_scalar_int 1(1) r l u s)
qed

end
