(* ===== verification/Example_Relaygate.thy ===== *)
theory Example_Relaygate
  imports Example_Kit
begin

text \<open>
  The schema of \<open>relaygate\<close>, \<open>examples/03_relaygate_lifecycle.cpp\<close>: the default trees of its three
  versions, the two migrations, the catalog and the registry \<open>main\<close> assembles. \<open>upgraded\<close> is what an
  upgrade from version 1 to version 3 makes of the members of a configuration.
\<close>

section \<open>Default factories\<close>

definition rg_v1Defaults :: "config_value option" where
  "rg_v1Defaults = do {
     root \<leftarrow> set_of cv_object ''server_host'' (CStr (Some ''127.0.0.1''));
     root \<leftarrow> set_of root ''server_port'' (CSigned 8080);
     root \<leftarrow> set_of root ''log_file'' (CStr (Some ''/var/log/relaygate.log''));
     root \<leftarrow> set_of root ''verbose'' (CBool False);
     set_of root ''max_connections'' (CSigned 100) }"

definition rg_v2Defaults :: "config_value option" where
  "rg_v2Defaults = do {
     server \<leftarrow> set_of cv_object ''host'' (CStr (Some ''127.0.0.1''));
     server \<leftarrow> set_of server ''port'' (CSigned 8080);
     server \<leftarrow> set_of server ''max_connections'' (CSigned 100);
     logging \<leftarrow> set_of cv_object ''file'' (CStr (Some ''/var/log/relaygate.log''));
     logging \<leftarrow> set_of logging ''level'' (CStr (Some ''info''));
     root \<leftarrow> cv_set cv_object ''server'' server;
     cv_set root ''logging'' logging }"

definition rg_v3Defaults :: "config_value option" where
  "rg_v3Defaults = do {
     listener \<leftarrow> set_of cv_object ''host'' (CStr (Some ''127.0.0.1''));
     listener \<leftarrow> set_of listener ''port'' (CSigned 8080);
     tls \<leftarrow> set_of cv_object ''enabled'' (CBool False);
     tls \<leftarrow> set_of tls ''cert_file'' (CStr (Some []));
     listeners \<leftarrow> cv_push cv_array listener;
     server \<leftarrow> cv_set cv_object ''listeners'' listeners;
     server \<leftarrow> cv_set server ''tls'' tls;
     limits \<leftarrow> set_of cv_object ''max_connections'' (CSigned 100);
     limits \<leftarrow> set_of limits ''request_timeout_ms'' (CSigned 30000);
     logging \<leftarrow> set_of cv_object ''file'' (CStr (Some ''/var/log/relaygate.log''));
     logging \<leftarrow> set_of logging ''level'' (CStr (Some ''info''));
     root \<leftarrow> cv_set cv_object ''server'' server;
     root \<leftarrow> cv_set root ''limits'' limits;
     cv_set root ''logging'' logging }"

section \<open>Migrations\<close>

definition rg_migrateV1ToV2 :: "cmodel \<Rightarrow> (cmodel \<times> (error + unit)) option" where
  "rg_migrateV1ToV2 model =
     then_with (moveKey model ''server_host'' ''server.host'') (\<lambda>model _.
     then_with (moveKey model ''server_port'' ''server.port'') (\<lambda>model _.
     then_with (moveKey model ''max_connections'' ''server.max_connections'') (\<lambda>model _.
     then_with (moveKey model ''log_file'' ''logging.file'') (\<lambda>model _.
     then_with (reading model (cm_get TyBool model ''verbose'')) (\<lambda>model verbose.
     then_with (cm_set_scalar model ''logging.level''
       (CStr (Some (if verbose = VBool True then ''debug'' else ''info'')))) (\<lambda>model _.
     cm_remove model ''verbose''))))))"

definition rg_migrateV2ToV3 :: "cmodel \<Rightarrow> (cmodel \<times> (error + unit)) option" where
  "rg_migrateV2ToV3 model =
     then_with (reading model (cm_getValue model ''server.host'')) (\<lambda>model host.
     then_with (reading model (cm_getValue model ''server.port'')) (\<lambda>model port. do {
       listener \<leftarrow> cv_set cv_object ''host'' host;
       listener \<leftarrow> cv_set listener ''port'' port;
       listeners \<leftarrow> cv_push cv_array listener;
       then_with (cm_set model ''server.listeners'' listeners) (\<lambda>model _.
       then_with (cm_remove model ''server.host'') (\<lambda>model _.
       then_with (cm_remove model ''server.port'') (\<lambda>model _.
       moveKey model ''server.max_connections'' ''limits.max_connections''))) }))"

section \<open>The runtime\<close>

definition rg_kLatest :: version_id where "rg_kLatest = 3"

definition rg_runtime :: "'s runtime run" where
  "rg_runtime = (let
     (catalog, r1) = registerVersion [] \<lparr>va_version = 1, va_factory = Some (factory rg_v1Defaults)\<rparr>;
     (catalog, r2) = registerVersion catalog \<lparr>va_version = 2, va_factory = Some (factory rg_v2Defaults)\<rparr>;
     (catalog, r3) = registerVersion catalog \<lparr>va_version = 3, va_factory = Some (factory rg_v3Defaults)\<rparr>;
     (registry, r4) = registerMigration [] 1 2 (Some (migration rg_migrateV1ToV2));
     (registry, r5) = registerMigration registry 2 3 (Some (migration rg_migrateV2ToV3))
   in do_all [r1, r2, r3, r4, r5] (orDie (rt_create catalog registry)))"

section \<open>The default trees\<close>

lemma rg_defaults:
  "rg_v1Defaults = Some (Obj [(''server_host'', Scal (SString ''127.0.0.1'')), (''server_port'', Scal (SInt 8080)),
     (''log_file'', Scal (SString ''/var/log/relaygate.log'')), (''verbose'', Scal (SBool False)),
     (''max_connections'', Scal (SInt 100))])"
  "rg_v3Defaults = Some (Obj [
     (''server'', Obj [(''listeners'', Arr [Obj [(''host'', Scal (SString ''127.0.0.1'')), (''port'', Scal (SInt 8080))]]),
        (''tls'', Obj [(''enabled'', Scal (SBool False)), (''cert_file'', Scal (SString []))])]),
     (''limits'', Obj [(''max_connections'', Scal (SInt 100)), (''request_timeout_ms'', Scal (SInt 30000))]),
     (''logging'', Obj [(''file'', Scal (SString ''/var/log/relaygate.log'')), (''level'', Scal (SString ''info''))])])"
  by (simp_all add: rg_v1Defaults_def rg_v3Defaults_def cv_object_def cv_array_def cv_push_def cv_set_def)

lemma rg_defaults_wf:
  "wf_model_value (the rg_v1Defaults)" "cv_nodes (the rg_v1Defaults) = 6"
  "wf_model_value (the rg_v3Defaults)" "cv_nodes (the rg_v3Defaults) = 15"
  by (auto simp: rg_defaults wf_model_value_def kMaxTreeDepth_def isAddressableKey_def is_reserved_def)

text \<open>The wiring \<open>main\<close> does at startup is accepted.\<close>

abbreviation rg_rt :: "'s runtime" where
  "rg_rt \<equiv> runtime3 rg_v1Defaults rg_v2Defaults rg_v3Defaults rg_migrateV1ToV2 rg_migrateV2ToV3"

lemma rg_runtime_ok: "rg_runtime = Inr rg_rt"
  by (simp add: rg_runtime_def registered_two registered_migrations runtimes_created)

section \<open>The migrations on the members\<close>

text \<open>A version 1 file: the five settings are leaves, and no section of a later version is there.\<close>

definition rg_v1_file :: "(string \<rightharpoonup> config_value) \<Rightarrow> scalar \<Rightarrow> scalar \<Rightarrow> scalar \<Rightarrow> bool \<Rightarrow> scalar \<Rightarrow> bool" where
  "rg_v1_file \<mu> host port logfile verbose conns \<longleftrightarrow>
     \<mu> ''server_host'' = Some (Scal host) \<and> \<mu> ''server_port'' = Some (Scal port) \<and> \<mu> ''log_file'' = Some (Scal logfile) \<and>
     \<mu> ''verbose'' = Some (Scal (SBool verbose)) \<and> \<mu> ''max_connections'' = Some (Scal conns) \<and>
     \<mu> ''server'' = None \<and> \<mu> ''logging'' = None \<and> \<mu> ''limits'' = None"

definition rg_v1_keys :: "string list" where
  "rg_v1_keys = [''server_host'', ''server_port'', ''log_file'', ''verbose'', ''max_connections'']"

definition rg_v2_members ::
    "(string \<rightharpoonup> config_value) \<Rightarrow> scalar \<Rightarrow> scalar \<Rightarrow> scalar \<Rightarrow> bool \<Rightarrow> scalar \<Rightarrow> string \<rightharpoonup> config_value" where
  "rg_v2_members \<mu> host port logfile verbose conns k =
     (if k = ''server'' then Some (Obj [(''host'', Scal host), (''port'', Scal port), (''max_connections'', Scal conns)])
      else if k = ''logging'' then Some (Obj [(''file'', Scal logfile),
        (''level'', Scal (SString (if verbose then ''debug'' else ''info'')))])
      else if k \<in> set rg_v1_keys then None else \<mu> k)"

lemma rg_paths:
  "cp_parse ''server_host'' = Inr [Key ''server_host'']" "cp_parse ''server_port'' = Inr [Key ''server_port'']"
  "cp_parse ''log_file'' = Inr [Key ''log_file'']" "cp_parse ''verbose'' = Inr [Key ''verbose'']"
  "cp_parse ''max_connections'' = Inr [Key ''max_connections'']"
  "cp_parse ''server.host'' = Inr [Key ''server'', Key ''host'']" "cp_parse ''server.port'' = Inr [Key ''server'', Key ''port'']"
  "cp_parse ''server.max_connections'' = Inr [Key ''server'', Key ''max_connections'']"
  "cp_parse ''server.listeners'' = Inr [Key ''server'', Key ''listeners'']"
  "cp_parse ''limits.max_connections'' = Inr [Key ''limits'', Key ''max_connections'']"
  "cp_parse ''logging.file'' = Inr [Key ''logging'', Key ''file'']" "cp_parse ''logging.level'' = Inr [Key ''logging'', Key ''level'']"
  using cp_parse_key[of "''server_host''"] cp_parse_key[of "''server_port''"] cp_parse_key[of "''log_file''"]
    cp_parse_key[of "''verbose''"] cp_parse_key[of "''max_connections''"]
    parse_dotted[of "''server''" "''host''"] parse_dotted[of "''server''" "''port''"] parse_dotted[of "''server''" "''max_connections''"]
    parse_dotted[of "''server''" "''listeners''"] parse_dotted[of "''limits''" "''max_connections''"]
    parse_dotted[of "''logging''" "''file''"] parse_dotted[of "''logging''" "''level''"]
  by (simp_all add: isAddressableKey_def is_reserved_def)

lemma rg_migrate12:
  assumes m: "has_members m \<mu> n" and v1: "rg_v1_file \<mu> host port logfile verbose conns" and room: "n + 300 \<le> kNodeIdNone"
  shows "\<exists>m'. rg_migrateV1ToV2 m = Some (m', Inr ()) \<and>
    has_members m' (rg_v2_members \<mu> host port logfile verbose conns) (n + 10)"
proof -
  note f = v1[unfolded rg_v1_file_def] section_of_def fun_eq_iff
  let ?level = "Scal (SString (if verbose then ''debug'' else ''info''))"
  let ?m1 = "\<mu>(''server'' \<mapsto> Obj [(''host'', Scal host)], ''server_host'' := None)"
  let ?m2 = "?m1(''server'' \<mapsto> Obj [(''host'', Scal host), (''port'', Scal port)], ''server_port'' := None)"
  let ?m3 = "?m2(''server'' \<mapsto> Obj [(''host'', Scal host), (''port'', Scal port), (''max_connections'', Scal conns)],
    ''max_connections'' := None)"
  let ?m4 = "?m3(''logging'' \<mapsto> Obj [(''file'', Scal logfile)], ''log_file'' := None)"
  have "\<exists>m1. moveKey m ''server_host'' ''server.host'' = Some (m1, Inr ()) \<and> has_members m1 ?m1 (n + 2)"
    using room f by (intro moveKey_into_section[OF m _ rg_paths(1,6)]) auto
  then obtain m1 where 1: "moveKey m ''server_host'' ''server.host'' = Some (m1, Inr ())" "has_members m1 ?m1 (n + 2)" by blast
  have "\<exists>m2. moveKey m1 ''server_port'' ''server.port'' = Some (m2, Inr ()) \<and> has_members m2 ?m2 (n + 2 + 2)"
    using room f by (intro moveKey_into_section[OF 1(2) _ rg_paths(2,7)]) auto
  then obtain m2 where 2: "moveKey m1 ''server_port'' ''server.port'' = Some (m2, Inr ())" "has_members m2 ?m2 (n + 2 + 2)" by blast
  have "\<exists>m3. moveKey m2 ''max_connections'' ''server.max_connections'' = Some (m3, Inr ()) \<and> has_members m3 ?m3 (n + 2 + 2 + 2)"
    using room f by (intro moveKey_into_section[OF 2(2) _ rg_paths(5,8)]) auto
  then obtain m3 where 3: "moveKey m2 ''max_connections'' ''server.max_connections'' = Some (m3, Inr ())" "has_members m3 ?m3 (n + 2 + 2 + 2)" by blast
  have "\<exists>m4. moveKey m3 ''log_file'' ''logging.file'' = Some (m4, Inr ()) \<and> has_members m4 ?m4 (n + 2 + 2 + 2 + 2)"
    using room f by (intro moveKey_into_section[OF 3(2) _ rg_paths(3,11)]) auto
  then obtain m4 where 4: "moveKey m3 ''log_file'' ''logging.file'' = Some (m4, Inr ())" "has_members m4 ?m4 (n + 2 + 2 + 2 + 2)" by blast
  have g: "cm_get TyBool m4 ''verbose'' = Some (Inr (VBool verbose))"
    using f by (intro get_bool[OF 4(2) rg_paths(4)]) simp
  let ?m5 = "?m4(''logging'' \<mapsto> Obj [(''file'', Scal logfile), (''level'', ?level)])"
  have "\<exists>m5. cm_set m4 ''logging.level'' ?level = Some (m5, Inr ()) \<and> has_members m5 ?m5 (n + 2 + 2 + 2 + 2 + 2)"
    using room by (intro put_leaf[OF 4(2) _ rg_paths(12)]) (auto simp: section_of_def)
  then obtain m5 where 5: "cm_set m4 ''logging.level'' ?level = Some (m5, Inr ())" "has_members m5 ?m5 (n + 2 + 2 + 2 + 2 + 2)" by blast
  have "\<exists>m6. cm_remove m5 ''verbose'' = Some (m6, Inr ()) \<and>
      has_members m6 (rg_v2_members \<mu> host port logfile verbose conns) (n + 2 + 2 + 2 + 2 + 2)"
    using f by (intro remove_member[OF 5(2) rg_paths(4)]) (auto simp: rg_v2_members_def rg_v1_keys_def)
  then obtain m6 where 6: "cm_remove m5 ''verbose'' = Some (m6, Inr ())"
    "has_members m6 (rg_v2_members \<mu> host port logfile verbose conns) (n + 2 + 2 + 2 + 2 + 2)" by blast
  have "has_members m6 (rg_v2_members \<mu> host port logfile verbose conns) (n + 10)"
    by (rule has_members_eq[OF 6(2)]) simp_all
  then show ?thesis using 1(1) 2(1) 3(1) 4(1) g 5(1) 6(1)
    by (simp add: rg_migrateV1ToV2_def set_scalar_text)
qed

definition rg_v3_members ::
    "(string \<rightharpoonup> config_value) \<Rightarrow> scalar \<Rightarrow> scalar \<Rightarrow> scalar \<Rightarrow> bool \<Rightarrow> scalar \<Rightarrow> string \<rightharpoonup> config_value" where
  "rg_v3_members \<mu> host port logfile verbose conns k =
     (if k = ''server'' then Some (Obj [(''listeners'', Arr [Obj [(''host'', Scal host), (''port'', Scal port)]])])
      else if k = ''limits'' then Some (Obj [(''max_connections'', Scal conns)])
      else rg_v2_members \<mu> host port logfile verbose conns k)"

lemma rg_migrate23:
  assumes m: "has_members m (rg_v2_members \<mu> host port logfile verbose conns) n" and lim: "\<mu> ''limits'' = None"
    and room: "n + 300 \<le> kNodeIdNone"
  shows "\<exists>m'. rg_migrateV2ToV3 m = Some (m', Inr ()) \<and>
    has_members m' (rg_v3_members \<mu> host port logfile verbose conns) (n + 10)"
proof -
  let ?m = "rg_v2_members \<mu> host port logfile verbose conns"
  let ?ls = "Arr [Obj [(''host'', Scal host), (''port'', Scal port)]]"
  have s: "?m ''server'' = Some (Obj [(''host'', Scal host), (''port'', Scal port), (''max_connections'', Scal conns)])"
    "?m ''limits'' = None" using lim by (simp_all add: rg_v2_members_def rg_v1_keys_def)
  have g: "cm_getValue m ''server.host'' = Some (Inr (Scal host))" "cm_getValue m ''server.port'' = Some (Inr (Scal port))"
    using s by (auto simp: section_of_def intro!: cs.get_in_section[OF m rg_paths(6)] cs.get_in_section[OF m rg_paths(7)])
  have "\<exists>m1. cm_set m ''server.listeners'' ?ls = Some (m1, Inr ()) \<and>
      has_members m1 (?m(''server'' \<mapsto> Obj ([(''host'', Scal host), (''port'', Scal port), (''max_connections'', Scal conns)] @
        [(''listeners'', ?ls)]))) (n + Suc (cv_nodes ?ls))"
    using room s by (intro cs.put_in_section[OF m _ _ rg_paths(9)])
      (auto simp: section_of_def kMaxTreeDepth_def isAddressableKey_def is_reserved_def)
  then obtain m1 where 1: "cm_set m ''server.listeners'' ?ls = Some (m1, Inr ())"
    "has_members m1 (?m(''server'' \<mapsto> Obj [(''host'', Scal host), (''port'', Scal port), (''max_connections'', Scal conns),
        (''listeners'', ?ls)])) (n + 5)" by (auto simp: eval_nat_numeral)
  have "\<exists>m2. cm_remove m1 ''server.host'' = Some (m2, Inr ()) \<and> has_members m2 (?m(''server'' \<mapsto>
      Obj [(''port'', Scal port), (''max_connections'', Scal conns), (''listeners'', ?ls)])) (n + 5)"
    by (intro remove_in_section[OF 1(2) rg_paths(6)]) auto
  then obtain m2 where 2: "cm_remove m1 ''server.host'' = Some (m2, Inr ())" "has_members m2 (?m(''server'' \<mapsto>
      Obj [(''port'', Scal port), (''max_connections'', Scal conns), (''listeners'', ?ls)])) (n + 5)" by blast
  have "\<exists>m3. cm_remove m2 ''server.port'' = Some (m3, Inr ()) \<and> has_members m3 (?m(''server'' \<mapsto>
      Obj [(''max_connections'', Scal conns), (''listeners'', ?ls)])) (n + 5)"
    by (intro remove_in_section[OF 2(2) rg_paths(7)]) auto
  then obtain m3 where 3: "cm_remove m2 ''server.port'' = Some (m3, Inr ())" "has_members m3 (?m(''server'' \<mapsto>
      Obj [(''max_connections'', Scal conns), (''listeners'', ?ls)])) (n + 5)" by blast
  have "\<exists>m4. moveKey m3 ''server.max_connections'' ''limits.max_connections'' = Some (m4, Inr ()) \<and>
      has_members m4 (rg_v3_members \<mu> host port logfile verbose conns) (n + 5 + 2)"
    using room s by (intro moveKey_across[OF 3(2) _ rg_paths(8,10)]) (auto simp: section_of_def rg_v3_members_def)
  then obtain m4 where 4: "moveKey m3 ''server.max_connections'' ''limits.max_connections'' = Some (m4, Inr ())"
    "has_members m4 (rg_v3_members \<mu> host port logfile verbose conns) (n + 5 + 2)" by blast
  have "has_members m4 (rg_v3_members \<mu> host port logfile verbose conns) (n + 10)"
    by (rule has_members_eq[OF 4(2)]) simp_all
  then show ?thesis using g 1(1) 2(1) 3(1) 4(1)
    by (simp add: rg_migrateV2ToV3_def cv_set_def cv_push_def cv_object_def cv_array_def)
qed

section \<open>The upgrade\<close>

text \<open>The members of the configuration after an upgrade: what was set before is in its new place, and
  only \<open>server.tls\<close> and \<open>limits.request_timeout_ms\<close> are defaults.\<close>

definition rg_upgraded ::
    "(string \<rightharpoonup> config_value) \<Rightarrow> scalar \<Rightarrow> scalar \<Rightarrow> scalar \<Rightarrow> bool \<Rightarrow> scalar \<Rightarrow> string \<rightharpoonup> config_value" where
  "rg_upgraded \<mu> host port logfile verbose conns k =
     (if k = ''server'' then Some (Obj [(''listeners'', Arr [Obj [(''host'', Scal host), (''port'', Scal port)]]),
        (''tls'', Obj [(''enabled'', Scal (SBool False)), (''cert_file'', Scal (SString []))])])
      else if k = ''limits'' then Some (Obj [(''max_connections'', Scal conns), (''request_timeout_ms'', Scal (SInt 30000))])
      else if k = ''logging'' then Some (Obj [(''file'', Scal logfile),
        (''level'', Scal (SString (if verbose then ''debug'' else ''info'')))])
      else if k \<in> set rg_v1_keys then None else \<mu> k)"

lemma rg_fill:
  assumes "map_of ms = rg_v3_members \<mu> host port logfile verbose conns"
  shows "\<exists>w. fill (the rg_v3Defaults) (Obj ms) = Obj w \<and> map_of w = rg_upgraded \<mu> host port logfile verbose conns"
proof -
  obtain ds where ds: "the rg_v3Defaults = Obj ds" by (simp add: rg_defaults)
  have "wf_at 0 (Obj ds)" using rg_defaults_wf(3) ds by (simp add: wf_model_value_def)
  note f = fill_map[OF this]
  let ?u = "rg_upgraded \<mu> host port logfile verbose conns" and ?v3 = "rg_v3_members \<mu> host port logfile verbose conns"
  have ds': "ds = [(''server'', Obj [(''listeners'', Arr [Obj [(''host'', Scal (SString ''127.0.0.1'')), (''port'', Scal (SInt 8080))]]),
        (''tls'', Obj [(''enabled'', Scal (SBool False)), (''cert_file'', Scal (SString []))])]),
     (''limits'', Obj [(''max_connections'', Scal (SInt 100)), (''request_timeout_ms'', Scal (SInt 30000))]),
     (''logging'', Obj [(''file'', Scal (SString ''/var/log/relaygate.log'')), (''level'', Scal (SString ''info''))])]"
    using ds by (simp add: rg_defaults)
  have d: "map_of ds ''server'' = Some (Obj [(''listeners'', Arr [Obj [(''host'', Scal (SString ''127.0.0.1'')), (''port'', Scal (SInt 8080))]]),
        (''tls'', Obj [(''enabled'', Scal (SBool False)), (''cert_file'', Scal (SString []))])])"
    "map_of ds ''limits'' = Some (Obj [(''max_connections'', Scal (SInt 100)), (''request_timeout_ms'', Scal (SInt 30000))])"
    "map_of ds ''logging'' = Some (Obj [(''file'', Scal (SString ''/var/log/relaygate.log'')), (''level'', Scal (SString ''info''))])"
    "k \<notin> {''server'', ''limits'', ''logging''} \<Longrightarrow> map_of ds k = None" for k
    by (simp_all add: ds')
  have v: "?v3 ''server'' = Some (Obj [(''listeners'', Arr [Obj [(''host'', Scal host), (''port'', Scal port)]])])"
    "?v3 ''limits'' = Some (Obj [(''max_connections'', Scal conns)])"
    "?v3 ''logging'' = Some (Obj [(''file'', Scal logfile), (''level'', Scal (SString (if verbose then ''debug'' else ''info'')))])"
    by (simp_all add: rg_v3_members_def rg_v2_members_def)
  have "map_of (fill_members ds ms) k = ?u k" for k
  proof -
    consider "k = ''server''" | "k = ''limits''" | "k = ''logging''" | "k \<notin> {''server'', ''limits'', ''logging''}" by blast
    then show ?thesis
    proof cases
      case 4
      then have "map_of ds k = None" "?v3 k = ?u k" using d(4) by (simp_all add: rg_v3_members_def rg_v2_members_def rg_upgraded_def)
      then show ?thesis by (simp add: f(2) assms)
    qed (simp_all add: f(2) assms v d(1-3) rg_upgraded_def)
  qed
  then show ?thesis using f(1) ds by auto
qed

lemma rg_upgrade:
  assumes m: "models m (Obj ms)" and v1: "rg_v1_file (map_of ms) host port logfile verbose conns"
    and room: "cv_nodes (Obj ms) + 1000 \<le> kNodeIdNone"
  shows "\<exists>cfg' w. synchronize_latest rg_rt s \<lparr>vc_version = 1, vc_model = m\<rparr> = Some (s, cfg', Ret (Inr InSync)) \<and>
      vc_version cfg' = 3 \<and> models (vc_model cfg') (Obj w) \<and> map_of w = rg_upgraded (map_of ms) host port logfile verbose conns"
proof -
  let ?n = "cv_nodes (Obj ms)"
  have h: "has_members m (map_of ms) ?n" unfolding members_are_def cv_nodes_Obj using m by blast
  from rg_migrate12[OF h v1] room obtain m2 where
    2: "rg_migrateV1ToV2 m = Some (m2, Inr ())" "has_members m2 (rg_v2_members (map_of ms) host port logfile verbose conns) (?n + 10)"
    by auto
  have lim: "map_of ms ''limits'' = None" using v1 by (simp add: rg_v1_file_def)
  from rg_migrate23[OF 2(2) lim] room obtain m3 where
    3: "rg_migrateV2ToV3 m2 = Some (m3, Inr ())" "has_members m3 (rg_v3_members (map_of ms) host port logfile verbose conns) (?n + 10 + 10)"
    by auto
  from members_areD[OF 3(2)] obtain ms3 where
    ms3: "models m3 (Obj ms3)" "map_of ms3 = rg_v3_members (map_of ms) host port logfile verbose conns" "Suc (mnodes ms3) \<le> ?n + 10 + 10" .
  from rg_fill[OF ms3(2)] obtain w where
    w: "fill (the rg_v3Defaults) (Obj ms3) = Obj w" "map_of w = rg_upgraded (map_of ms) host port logfile verbose conns" by blast
  have good: "good_default (Obj ms3) (the rg_v3Defaults)"
    using rg_defaults_wf(3,4) room ms3(3) by (simp add: good_default_def room_for_def kMaxTreeDepth_def fold_mnodes cv_nodes_Obj)
  from upgrade3[where f = rg_migrateV1ToV2 and g = rg_migrateV2ToV3, OF 2(1) 3(1) ms3(1) good, of rg_v1Defaults rg_v2Defaults s] w
  show ?thesis by (auto simp: synchronize_latest_def runtimes_latest)
qed

end
