(* ===== verification/Checkpoint_Quiet.thy ===== *)
theory Checkpoint_Quiet
  imports Checkpoint_Prune
begin

text \<open>
  The checkpoint store in a world whose calls all succeed: what each operation returns, and exactly
  which nodes the file system has afterwards.
\<close>

section \<open>Commit and capture\<close>

lemma quiet_make_directories:
  "w_answers w = [] \<Longrightarrow> \<exists>log. make_directories qs w =
     (w\<lparr>w_nodes := (\<lambda>q. if q \<in> set qs then Some Directory else w_nodes w q), w_log := log\<rparr>, None)"
proof (induction qs arbitrary: w)
  case Nil
  show ?case by (rule exI[of _ "w_log w"]) simp
next
  case (Cons x qs)
  let ?w = "put_nodes ((w_nodes w)(x \<mapsto> Directory)) w"
  have e: "(\<lambda>q. if q \<in> set qs then Some Directory else w_nodes ?w q) =
      (\<lambda>q. if q \<in> set (x # qs) then Some Directory else w_nodes w q)" by (auto simp: fun_eq_iff)
  from Cons.IH[of ?w] Cons.prems obtain log where
    "make_directories qs ?w = (?w\<lparr>w_nodes := (\<lambda>q. if q \<in> set qs then Some Directory else w_nodes ?w q), w_log := log\<rparr>, None)" by auto
  then show ?case unfolding e by (intro exI[of _ log]) (simp add: quiet_answer[OF Cons.prems] put_nodes_def)
qed

lemma quiet_create_directories:
  assumes "w_answers w = []" "list_all (\<lambda>q. w_nodes w q = None \<or> w_nodes w q = Some Directory) (ancestors p)"
  shows "\<exists>log. fs_create_directories p w =
    (w\<lparr>w_nodes := (\<lambda>q. if q \<in> set (ancestors p) then Some Directory else w_nodes w q), w_log := log\<rparr>, None)"
proof -
  let ?new = "rev (filter (\<lambda>q. w_nodes w q = None) (ancestors p))"
  have ok: "\<not> list_ex (\<lambda>q. w_nodes w q \<noteq> None \<and> w_nodes w q \<noteq> Some Directory) (ancestors p)"
    using assms(2) by (auto simp: list_ex_iff list_all_iff)
  have e: "(\<lambda>q. if q \<in> set ?new then Some Directory else w_nodes w q) =
      (\<lambda>q. if q \<in> set (ancestors p) then Some Directory else w_nodes w q)"
    using assms(2) by (auto simp: fun_eq_iff list_all_iff)
  from quiet_make_directories[OF assms(1), of ?new] show ?thesis
    unfolding fs_create_directories_def quiet_answer[OF assms(1)] e using ok by (simp only: prod.case answer.case if_False)
qed

text \<open>Below directories a missing path is just missing.\<close>

lemma missing_below:
  assumes "\<And>q. q \<in> set (ancestors (parentOrCurrent p)) \<Longrightarrow> ns q = Some Directory"
  shows "missing ns p = ENOENT"
  using assms by (auto simp: missing_def above_def parentOrCurrent_def list_ex_iff)

lemma quiet_publish_nodes:
  assumes "w_answers w = []" "w_nodes w (snd (temporaryCandidate dst w)) = None" "w_nodes w dst \<noteq> Some Directory"
    and "w_nodes w source = None \<Longrightarrow> missing (w_nodes w) source = ENOENT"
  shows "\<exists>w' mode t. publish os dst bytes source w = (w', Inr ()) \<and> w_answers w' = [] \<and> w_nodes w' = (w_nodes w)(dst \<mapsto> RegularFile bytes mode t)"
proof -
  from quiet_publish[OF assms, of os bytes] obtain w' where
    p: "publish os dst bytes source w = (w', Inr ())" "w_answers w' = []" by blast
  from publish_atomic[OF p(1)] p show ?thesis unfolding atomic_for_def by auto
qed

text \<open>The nodes once the directories above a file are there and the file is \<open>bytes\<close>.\<close>

definition with_file :: "path \<Rightarrow> string \<Rightarrow> path list \<Rightarrow> fsys \<Rightarrow> fsys \<Rightarrow> bool" where
  "with_file p bytes dirs old ns \<longleftrightarrow> (\<exists>mode t. ns = (\<lambda>q. if q \<in> set dirs then Some Directory else old q)(p \<mapsto> RegularFile bytes mode t))"

lemma quiet_commit:
  assumes "w_answers w = []" "saveBytes config be = Ret (Inr bytes)" "proper_file (canonical_path opts)"
    and "list_all (\<lambda>q. w_nodes w q = None \<or> w_nodes w q = Some Directory) (ancestors (parentOrCurrent (canonical_path opts)))"
    and "w_nodes w (snd (temporaryCandidate (canonical_path opts) w)) = None" "w_nodes w (canonical_path opts) \<noteq> Some Directory"
  shows "\<exists>w'. cpCommit os opts config be w = (w', Ret (Inr ())) \<and> w_answers w' = [] \<and>
    with_file (canonical_path opts) bytes (ancestors (parentOrCurrent (canonical_path opts))) (w_nodes w) (w_nodes w')"
proof -
  let ?dst = "canonical_path opts" and ?dirs = "ancestors (parentOrCurrent (canonical_path opts))"
  obtain log where l: "fs_create_directories (parentOrCurrent ?dst) w =
      (w\<lparr>w_nodes := (\<lambda>q. if q \<in> set ?dirs then Some Directory else w_nodes w q), w_log := log\<rparr>, None)"
    using quiet_create_directories[OF assms(1,4)] by blast
  define w1 where "w1 = w\<lparr>w_nodes := (\<lambda>q. if q \<in> set ?dirs then Some Directory else w_nodes w q), w_log := log\<rparr>"
  have d: "fs_create_directories (parentOrCurrent ?dst) w = (w1, None)" unfolding w1_def by (rule l)
  have "snd (temporaryCandidate ?dst w1) = snd (temporaryCandidate ?dst w)"
    by (simp add: temporaryCandidate_def w1_def)
  moreover have w1: "w_answers w1 = []" "w_nodes w1 = (\<lambda>q. if q \<in> set ?dirs then Some Directory else w_nodes w q)"
    using assms(1) by (simp_all add: w1_def)
  moreover have "?dst \<notin> set ?dirs" by (rule proper_file_above[OF assms(3)])
  moreover have "snd (temporaryCandidate ?dst w) \<notin> set ?dirs" by (rule candidate_not_above)
  ultimately obtain w2 mode t where p: "publish os ?dst bytes ?dst w1 = (w2, Inr ())" "w_answers w2 = []"
    "w_nodes w2 = (w_nodes w1)(?dst \<mapsto> RegularFile bytes mode t)"
    using quiet_publish_nodes[of w1 ?dst ?dst os bytes] assms(5,6) missing_below[of ?dst "w_nodes w1"] by auto
  from p(3) have "with_file ?dst bytes ?dirs (w_nodes w) (w_nodes w2)" unfolding with_file_def w1(2) by blast
  with p(1,2) show ?thesis by (simp add: cpCommit_unfold assms(2) d Let_def)
qed

lemma quiet_capture:
  assumes "w_answers w = []" "separate opts" "max_file_bytes opts < 2 ^ 64"
    and stored: "w_nodes w (canonical_path opts) = Some (RegularFile bytes m t)" "length bytes \<le> max_file_bytes opts"
    and loads: "loadBytes bytes be = Ret (Inr loaded)" "vc_version loaded = vc_version config"
    and dirs: "list_all (\<lambda>q. w_nodes w q = None \<or> w_nodes w q = Some Directory) (ancestors (checkpoint_directory opts))"
    and room: "w_nodes w (snd (temporaryCandidate (checkpoint_path opts (vc_version config)) w)) = None"
      "w_nodes w (checkpoint_path opts (vc_version config)) \<noteq> Some Directory"
  shows "\<exists>w'. cpCapture os opts config be w = (w', Ret (Inr ())) \<and> w_answers w' = [] \<and>
    with_file (checkpoint_path opts (vc_version config)) bytes (ancestors (checkpoint_directory opts)) (w_nodes w) (w_nodes w')"
proof -
  let ?dst = "checkpoint_path opts (vc_version config)" and ?dirs = "ancestors (checkpoint_directory opts)"
  obtain log where l: "fs_create_directories (checkpoint_directory opts) w =
      (w\<lparr>w_nodes := (\<lambda>q. if q \<in> set ?dirs then Some Directory else w_nodes w q), w_log := log\<rparr>, None)"
    using quiet_create_directories[OF assms(1) dirs] by blast
  define w1 where "w1 = w\<lparr>w_nodes := (\<lambda>q. if q \<in> set ?dirs then Some Directory else w_nodes w q), w_log := log\<rparr>"
  have d: "fs_create_directories (checkpoint_directory opts) w = (w1, None)" unfolding w1_def by (rule l)
  have w1: "w_answers w1 = []" "w_nodes w1 = (\<lambda>q. if q \<in> set ?dirs then Some Directory else w_nodes w q)"
    using assms(1) by (simp_all add: w1_def)
  have t: "snd (temporaryCandidate ?dst w1) = snd (temporaryCandidate ?dst w)"
    by (simp add: temporaryCandidate_def w1_def)
  have "CHR ''/'' \<notin> set (checkpointFilename v (extension (canonical_path opts)))" for v
    by (intro checkpointFilename_no_slash extension_no_slash)
  from entry_parent[OF this] assms(2) have "parentOrCurrent ?dst = checkpoint_directory opts"
    by (simp add: separate_def checkpoint_path_def)
  then have "snd (temporaryCandidate ?dst w) \<notin> set ?dirs" using candidate_not_above[of ?dst w] by simp
  moreover have "?dst \<notin> set ?dirs" by (rule separate_checkpoint(3)[OF assms(2)])
  ultimately have p: "\<exists>w' mode t. publish os ?dst bytes s w1 = (w', Inr ()) \<and> w_answers w' = [] \<and>
      w_nodes w' = (w_nodes w1)(?dst \<mapsto> RegularFile bytes mode t)" if "w_nodes w1 s \<noteq> None" for s
    using quiet_publish_nodes[OF w1(1), of ?dst s os bytes] room t w1(2) that by auto
  have source: "w_nodes w1 (if w_nodes w1 ?dst \<noteq> None then ?dst else canonical_path opts) \<noteq> None" using stored(1) w1(2) by auto
  have "\<exists>w'. capture_tail (publish os) os opts (vc_version config) bytes w = (w', Ret (Inr ())) \<and> w_answers w' = [] \<and>
      with_file ?dst bytes ?dirs (w_nodes w) (w_nodes w')"
    unfolding capture_tail_def d prod.case option.case quiet_reads(1)[OF w1(1)] sum.case with_file_def w1(2)[symmetric]
    using p[of "if w_nodes w1 ?dst \<noteq> None then ?dst else canonical_path opts", OF source] by (elim exE conjE) (simp only: prod.case, blast)
  then show ?thesis using quiet_readFileBytes[OF assms(1) stored assms(3)] loads by (simp add: cpCaptureImpl_unfold public_operations)
qed

lemma commit_succeeds:
  assumes "w_answers w = []" "saveBytes config be = Ret (Inr bytes)" "proper_file (canonical_path opts)"
    and "list_all (\<lambda>q. w_nodes w q = None \<or> w_nodes w q = Some Directory) (ancestors (parentOrCurrent (canonical_path opts)))"
    and "w_nodes w (snd (temporaryCandidate (canonical_path opts) w)) = None" "w_nodes w (canonical_path opts) \<noteq> Some Directory"
  shows "\<exists>w'. cpCommit os opts config be w = (w', Ret (Inr ())) \<and> w_answers w' = []"
  using quiet_commit[OF assms] by blast

lemma capture_succeeds:
  assumes "w_answers w = []" "separate opts" "max_file_bytes opts < 2 ^ 64"
    and stored: "w_nodes w (canonical_path opts) = Some (RegularFile bytes m t)" "length bytes \<le> max_file_bytes opts"
    and loads: "loadBytes bytes be = Ret (Inr loaded)" "vc_version loaded = vc_version config"
    and dirs: "list_all (\<lambda>q. w_nodes w q = None \<or> w_nodes w q = Some Directory) (ancestors (checkpoint_directory opts))"
    and room: "w_nodes w (snd (temporaryCandidate (checkpoint_path opts (vc_version config)) w)) = None"
      "w_nodes w (checkpoint_path opts (vc_version config)) \<noteq> Some Directory"
  shows "\<exists>w'. cpCapture os opts config be w = (w', Ret (Inr ()))"
  using quiet_capture[OF assms] by blast

section \<open>A directory with one checkpoint, that loads\<close>

lemma quiet_prune_one:
  assumes "w_answers w = []" "max_file_bytes opts < 2 ^ 64" "w_nodes w (checkpoint_directory opts) = Some Directory"
    and "os_listing os (w_nodes w) (checkpoint_directory opts) = [lc_path c]" "is_checkpoint opts (w_nodes w) (lc_path c)"
    and "verified opts be None (w_nodes w) c" "0 < retention opts"
  shows "cpPrune os opts be w = (w, Ret (Inr \<lparr>pp_removed = [], pp_rejected = []\<rparr>))"
proof -
  have l: "checkpointFiles os opts w = (w, Inr [lc_path c])"
    using quiet_checkpointFiles[OF assms(1,3), of os] assms(4,5,6) by (auto simp: checkpoints_def assms(3) verified_def)
  have s: "std_sort b [x] = [x]" for b and x :: checkpoint_file by (cases "std_sort b [x]") (metis list.simps(3) mset_std_sort mset_single_iff)+
  show ?thesis
    using quiet_load_checkpoint[OF assms(1,2,6), of os] assms(7)
    by (simp add: cpPrune_unfold l group_versions_def prune_removals_def s)
qed

lemma quiet_restore_one:
  assumes "w_answers w = []" "max_file_bytes opts < 2 ^ 64" "supportsVersion rt v" "w_nodes w (checkpoint_directory opts) = Some Directory"
    and "os_listing os (w_nodes w) (checkpoint_directory opts) = [lc_path c]" "is_checkpoint opts (w_nodes w) (lc_path c)"
    and "verified opts be (Some v) (w_nodes w) c"
    and "synchronize rt s (lc_config c) v = Some (s', config, Ret (Inr InSync))" "vc_version config = v"
  shows "cpPrepareRestore os opts be rt v s w = Some (s', w, Ret (Inr \<lparr>rs_candidate = Some
    \<lparr>pr_path = lc_path c, pr_source_version = lc_source_version c, pr_config = config\<rparr>, rs_rejected = []\<rparr>))"
proof -
  have l: "checkpointFiles os opts w = (w, Inr [lc_path c])"
    using quiet_checkpointFiles[OF assms(1,4), of os] assms(5,6,7) by (auto simp: checkpoints_def assms(4) verified_def)
  have "std_sort restore_before [c] = [c]" by (simp add: std_sort_def)
  then show ?thesis using quiet_load_checkpoint[OF assms(1,2,7), of os] assms(3,8,9) by (simp add: cpPrepareRestore_unfold l)
qed

end
