(* ===== verification/Example_Files.thy ===== *)
theory Example_Files
  imports Example_Kit Checkpoint_Json Checkpoint_Quiet
begin

text \<open>
  What the \<open>main\<close>s of the examples that work on files share: the calls of \<open>std::filesystem\<close> and the
  file streams they use beyond those of the checkpoint store, over the same world, and a \<open>main\<close>
  that threads the world.
\<close>

section \<open>Calls\<close>

text \<open>\<open>fs::remove_all\<close>: the node and everything below it.\<close>

definition below :: "path \<Rightarrow> path \<Rightarrow> bool" where
  "below p q \<longleftrightarrow> q = p \<or> take (Suc (length p)) q = p @ ''/''"

definition fs_remove_all :: "path \<Rightarrow> world \<Rightarrow> world \<times> errno option" where
  "fs_remove_all p w = (case next_answer w of (a, w1) \<Rightarrow> (case a of Fails e \<Rightarrow> (w1, Some e)
     | _ \<Rightarrow> (put_nodes (\<lambda>q. if below p q then None else w_nodes w q) w1, None)))"

text \<open>A file can be created where its directory is.\<close>

definition parent_present :: "path \<Rightarrow> world \<Rightarrow> bool" where
  "parent_present p w \<longleftrightarrow> parent_path p = [] \<or> w_nodes w (parent_path p) = Some Directory"

text \<open>\<open>fs::copy_file\<close> with \<open>overwrite_existing\<close>. 95 is \<open>ENOTSUP\<close>.\<close>

definition fs_copy_file :: "path \<Rightarrow> path \<Rightarrow> world \<Rightarrow> world \<times> errno option" where
  "fs_copy_file p q w = (case next_answer w of (a, w1) \<Rightarrow> (case a of Fails e \<Rightarrow> (w1, Some e)
     | _ \<Rightarrow> (case w_nodes w p of
           None \<Rightarrow> (w1, Some ENOENT)
         | Some Directory \<Rightarrow> (w1, Some (Errno 95))
         | Some (RegularFile bytes mode t) \<Rightarrow>
             (if p = q then (w1, Some EEXIST)
              else if w_nodes w q = Some Directory then (w1, Some (Errno 95))
              else if \<not> parent_present q w then (w1, Some ENOENT)
              else (put_nodes ((w_nodes w)(q \<mapsto> RegularFile bytes mode (w_now w))) w1, None)))))"

text \<open>
  \<open>std::ifstream in(path)\<close>, \<open>None\<close> when \<open>is_open\<close> is false. A stream over a regular file hands out its
  bytes; a directory opens and its first read fails, as a failing read does: no bytes.
\<close>

definition open_in :: "path \<Rightarrow> world \<Rightarrow> world \<times> string list option" where
  "open_in p w = (case next_answer w of (a, w1) \<Rightarrow> (case a of Fails e \<Rightarrow> (w1, None)
     | _ \<Rightarrow> (case w_nodes w p of
           None \<Rightarrow> (w1, None)
         | Some Directory \<Rightarrow> (w1, Some [])
         | Some (RegularFile bytes mode t) \<Rightarrow> (case next_answer w1 of (b, w2) \<Rightarrow>
             (w2, Some (case b of Fails e \<Rightarrow> [] | _ \<Rightarrow> if bytes = [] then [] else [bytes]))))))"

text \<open>\<open>std::ofstream out(path)\<close> truncates or creates (mode 0644); the boolean is \<open>is_open\<close>.\<close>

definition open_out :: "path \<Rightarrow> world \<Rightarrow> world \<times> bool" where
  "open_out p w = (case next_answer w of (a, w1) \<Rightarrow> (case a of Fails e \<Rightarrow> (w1, False)
     | _ \<Rightarrow> (if w_nodes w p = Some Directory \<or> \<not> parent_present p w then (w1, False)
             else (put_nodes ((w_nodes w)(p \<mapsto> RegularFile [] (case w_nodes w p of Some n \<Rightarrow> node_mode n | None \<Rightarrow> 420) (w_now w))) w1, True))))"

text \<open>
  The stream keeps what is inserted in its buffer, and its destructor writes the buffer out; what
  fails there is reported to nobody.
\<close>

definition close_out :: "path \<Rightarrow> string \<Rightarrow> world \<Rightarrow> world" where
  "close_out p text w = (case next_answer w of (a, w1) \<Rightarrow> (case a of Fails e \<Rightarrow> w1
     | _ \<Rightarrow> put_nodes ((w_nodes w)(p := map_option (append_node text (w_now w)) (w_nodes w p))) w1))"

text \<open>Whether an insertion into the stream succeeds, and what the stream then holds.\<close>

definition stream_takes :: "answer \<Rightarrow> bool" where
  "stream_takes a \<longleftrightarrow> (case a of Fails e \<Rightarrow> False | _ \<Rightarrow> True)"

definition stream_holds :: "answer \<Rightarrow> string option \<Rightarrow> string" where
  "stream_holds a text = (case text of Some t \<Rightarrow> if stream_takes a then t else [] | None \<Rightarrow> [])"

lemma stream_simps [simp]: "stream_takes Succeeds" "stream_holds Succeeds (Some t) = t"
  by (simp_all add: stream_takes_def stream_holds_def)

section \<open>Threading the world\<close>

type_synonym process_run = "(world \<times> process_end) option"

definition next_in :: "world \<Rightarrow> 'a run \<Rightarrow> ('a \<Rightarrow> process_run) \<Rightarrow> process_run" where
  "next_in w r f = (case r of Inl e \<Rightarrow> Some (w, e) | Inr x \<Rightarrow> f x)"

definition fail_in :: "world \<Rightarrow> bool \<Rightarrow> process_run \<Rightarrow> process_run" where
  "fail_in w wrong continue = (if wrong then Some (w, Exit EXIT_FAILURE) else continue)"

text \<open>\<open>orDie\<close> of a call that may throw, and \<open>value()\<close>, which throws on an error.\<close>

definition orDie_call :: "(error + 'a) flow \<Rightarrow> 'a run" where
  "orDie_call r = (case r of Bad_alloc \<Rightarrow> Inl Terminate | Ret x \<Rightarrow> orDie x)"

definition value_of :: "error + 'a \<Rightarrow> 'a run" where
  "value_of r = (case r of Inl e \<Rightarrow> Inl Terminate | Inr x \<Rightarrow> Inr x)"

lemma run_in_simps [simp]:
  "next_in w (Inr x) f = f x" "next_in w (Inl e) f = Some (w, e)" "fail_in w False c = c" "fail_in w True c = Some (w, Exit EXIT_FAILURE)"
  "orDie_call (Ret r) = orDie r" "orDie_call Bad_alloc = Inl Terminate" "value_of (Inr y) = Inr y"
  by (simp_all add: next_in_def fail_in_def orDie_call_def value_of_def)

section \<open>Entries of a directory\<close>

definition plain_directory :: "path \<Rightarrow> bool" where
  "plain_directory d \<longleftrightarrow> d \<noteq> [] \<and> last d \<noteq> CHR ''/''"

lemma append_plain: "plain_directory d \<Longrightarrow> f \<noteq> [] \<Longrightarrow> CHR ''/'' \<notin> set f \<Longrightarrow> append_path d f = d @ CHR ''/'' # f"
  by (cases f) (auto simp: append_path_def plain_directory_def)

lemma parent_plain: "plain_directory d \<Longrightarrow> CHR ''/'' \<notin> set f \<Longrightarrow> f \<noteq> [] \<Longrightarrow> parent_path (append_path d f) = d"
  using entry_parent[of f d] parent_path_def[of "append_path d f"]
proof -
  assume d: "plain_directory d" and f: "CHR ''/'' \<notin> set f" "f \<noteq> []"
  have p: "parentOrCurrent (append_path d f) = d" using d by (intro entry_parent[OF f(1)]) (simp_all add: plain_directory_def)
  show "parent_path (append_path d f) = d"
  proof (cases "parent_path (append_path d f) = []")
    case True
    have "dropWhile (\<lambda>c. c \<noteq> CHR ''/'') (rev (append_path d f)) = CHR ''/'' # rev d"
      unfolding append_plain[OF d f(2,1)] using f(1)
      by (subst rev_append, subst rev.simps, subst append_assoc, subst dropWhile_append2) auto
    then show ?thesis using True d by (auto simp: parent_path_def plain_directory_def Let_def split: if_splits)
  qed (use p in \<open>simp add: parentOrCurrent_def\<close>)
qed

lemma entry_above: "plain_directory d \<Longrightarrow> f \<noteq> [] \<Longrightarrow> CHR ''/'' \<notin> set f \<Longrightarrow> append_path d f \<notin> set (ancestors d)"
  using ancestors_shorter[of "append_path d f" d] append_plain[of d f] by fastforce

lemma self_above: "d \<in> set (ancestors d)"
  by (subst ancestors.simps) simp

definition holds_bytes :: "world \<Rightarrow> path \<Rightarrow> string \<Rightarrow> bool" where
  "holds_bytes w p bytes \<longleftrightarrow> (\<exists>mode t. w_nodes w p = Some (RegularFile bytes mode t))"

section \<open>When no call fails\<close>

lemma quiet_remove_all: "w_answers w = [] \<Longrightarrow> fs_remove_all p w = (put_nodes (\<lambda>q. if below p q then None else w_nodes w q) w, None)"
  by (simp add: fs_remove_all_def quiet_answer)

lemma quiet_copy_file:
  "w_answers w = [] \<Longrightarrow> w_nodes w p = Some (RegularFile bytes mode t) \<Longrightarrow> p \<noteq> q \<Longrightarrow> w_nodes w q \<noteq> Some Directory \<Longrightarrow>
    parent_present q w \<Longrightarrow> fs_copy_file p q w = (put_nodes ((w_nodes w)(q \<mapsto> RegularFile bytes mode (w_now w))) w, None)"
  by (simp add: fs_copy_file_def quiet_answer)

lemma quiet_open_in:
  "w_answers w = [] \<Longrightarrow> w_nodes w p = Some (RegularFile bytes mode t) \<Longrightarrow> open_in p w = (w, Some (if bytes = [] then [] else [bytes]))"
  by (simp add: open_in_def quiet_answer)

lemma quiet_open_out:
  "w_answers w = [] \<Longrightarrow> w_nodes w p \<noteq> Some Directory \<Longrightarrow> parent_present p w \<Longrightarrow>
    \<exists>mode. open_out p w = (put_nodes ((w_nodes w)(p \<mapsto> RegularFile [] mode (w_now w))) w, True)"
  unfolding open_out_def by (simp add: quiet_answer) blast

lemma quiet_close_out:
  "w_answers w = [] \<Longrightarrow> w_nodes w p = Some (RegularFile [] mode t) \<Longrightarrow>
    close_out p text w = put_nodes ((w_nodes w)(p \<mapsto> RegularFile text mode (w_now w))) w"
  by (simp add: close_out_def quiet_answer append_node_def)

section \<open>A JSON library that reads back what it prints\<close>

text \<open>One document: printed within the size limit, and its text parsed to the document's events.\<close>

definition prints_back :: "(double json \<Rightarrow> dump_outcome) \<Rightarrow> json_parser \<Rightarrow> (double \<Rightarrow> string) \<Rightarrow> double json \<Rightarrow> string \<Rightarrow> bool" where
  "prints_back dump parser lit doc bytes \<longleftrightarrow> (\<exists>t. bytes = t @ [CHR 0x0A] \<and> dump doc = DText t \<and>
     parser bytes = (events_of (printed lit doc), PDone) \<and> length t < maxInputBytes default_limits)"

lemma default_limits_bounds: "maxNodes default_limits < kNodeIdNone" "maxInputBytes default_limits < 2 ^ 64"
  by (simp_all add: default_limits_def kNodeIdNone_def)

lemma prints_back_roundtrip:
  assumes "models (vc_model config) v" "finite_doubles v" "\<not> cv_contains v kVersionKey" "cv_nodes v \<le> maxNodes default_limits"
    and "\<And>d. float_literal (lit d)" "prints_back dump parser lit (spec_save config v) bytes"
  shows "json_save dump config ok = Some (Some bytes, Ret (if ok bytes then Inr ()
        else fail SerializationError ''failed to write JSON document to stream''))"
    "bytes \<noteq> []" "\<exists>m. json_load parser default_limits (Some [bytes]) = Some (Ret (Inr \<lparr>vc_version = vc_version config, vc_model = m\<rparr>)) \<and> models m v"
proof -
  from assms(6) obtain t where t: "bytes = t @ [CHR 0x0A]" "dump (spec_save config v) = DText t"
    "parser (t @ [CHR 0x0A]) = (events_of (printed lit (spec_save config v)), PDone)" "length t < maxInputBytes default_limits"
    unfolding prints_back_def by blast
  have c: "concat [bytes] = t @ [CHR 0x0A]" "[] \<notin> set [bytes]" by (simp_all add: t(1))
  note j = json_roundtrip[where parser = parser and lit = lit and dump = dump, OF assms(1-4) default_limits_bounds t(2) assms(5) t(3) c t(4)]
  show "json_save dump config ok = Some (Some bytes, Ret (if ok bytes then Inr ()
        else fail SerializationError ''failed to write JSON document to stream''))" using j(1) t(1) by simp
  show "\<exists>m. json_load parser default_limits (Some [bytes]) = Some (Ret (Inr \<lparr>vc_version = vc_version config, vc_model = m\<rparr>)) \<and> models m v"
    by (rule j(2))
  show "bytes \<noteq> []" by (simp add: t(1))
qed

text \<open>The document of a configuration.\<close>

definition document_at :: "version_id \<Rightarrow> config_value \<Rightarrow> double json" where
  "document_at version v = JObject ((kVersionKey, JUnsigned (ucast version)) # map (map_prod id document_of) (cv_members v))"

lemma spec_save_document: "spec_save config v = document_at (vc_version config) v"
  by (simp add: spec_save_def document_at_def)

text \<open>A file written by hand, by the document it is parsed to.\<close>

lemma parsed_load:
  assumes "parser bytes = (events_of j, PDone)" "bytes \<noteq> []" "length bytes \<le> maxInputBytes default_limits"
    and "spec_load default_limits j = Inr (version, v)"
  shows "\<exists>m. json_load parser default_limits (Some [bytes]) = Some (Ret (Inr \<lparr>vc_version = version, vc_model = m\<rparr>)) \<and> models m v"
proof -
  have "readBounded ''JSON'' (Some [bytes]) (maxInputBytes default_limits) = Inr bytes"
    using readBounded_spec[of "[bytes]" "maxInputBytes default_limits" "''JSON''"] default_limits_bounds(2) assms(2,3) by simp
  from load_document[of default_limits "Some [bytes]" bytes parser, OF default_limits_bounds(1) this assms(1)] assms(4)
  show ?thesis by simp
qed

end
