(* ===== verification/Example_Lifecycle.thy ===== *)
theory Example_Lifecycle
  imports Example_Relaygate Example_Files
begin

text \<open>
  The \<open>main\<close> of \<open>examples/03_relaygate_lifecycle.cpp\<close>, phase by phase: first launch, relaunch, upgrade
  of an old file, and a file from a newer version, over the file system and the JSON backend.
\<close>

section \<open>Files\<close>

definition rg_loadFile :: "json_parser \<Rightarrow> path \<Rightarrow> world \<Rightarrow> (world \<times> (error + vconfig) flow) option" where
  "rg_loadFile parser p w = (case open_in p w of
     (w1, None) \<Rightarrow> Some (w1, Ret (fail ParseError (''cannot open '' @ p @ '' for reading'')))
   | (w1, Some chunks) \<Rightarrow> map_option (Pair w1) (json_load parser default_limits (Some chunks)))"

definition rg_saveFile :: "(double json \<Rightarrow> dump_outcome) \<Rightarrow> vconfig \<Rightarrow> path \<Rightarrow> world \<Rightarrow> (world \<times> (error + unit) flow) option" where
  "rg_saveFile dump config p w = (case open_out p w of
     (w1, False) \<Rightarrow> Some (w1, Ret (fail SerializationError (''cannot open '' @ p @ '' for writing'')))
   | (w1, True) \<Rightarrow> (case next_answer w1 of (a, w2) \<Rightarrow> do {
       (text, r) \<leftarrow> json_save dump config (\<lambda>t. stream_takes a);
       Some (close_out p (stream_holds a text) w2, r) }))"

definition toJsonText :: "(double json \<Rightarrow> dump_outcome) \<Rightarrow> vconfig \<Rightarrow> string run option" where
  "toJsonText dump config = do {
     (text, r) \<leftarrow> json_save dump config (\<lambda>t. True);
     Some (case orDie_call r of Inl e \<Rightarrow> Inl e | Inr _ \<Rightarrow> Inr (stream_holds Succeeds text)) }"

section \<open>The phases\<close>

definition rg_reset :: "path \<Rightarrow> world \<Rightarrow> (world \<Rightarrow> process_run) \<Rightarrow> process_run" where
  "rg_reset outDir w continue = (let
     (w, ec) = fs_remove (append_path outDir ''relaygate.json'') w;
     (w, ec) = fs_remove (append_path outDir ''legacy.json'') w;
     (w, thrown) = fs_create_directories outDir w
   in if thrown \<noteq> None then Some (w, Terminate) else continue w)"

definition rg_first_launch :: "(double json \<Rightarrow> dump_outcome) \<Rightarrow> unit runtime \<Rightarrow> path \<Rightarrow> world \<Rightarrow> (world \<Rightarrow> process_run) \<Rightarrow> process_run" where
  "rg_first_launch dump runtime configFile w continue = (case fs_exists configFile w of
     (w, Inl thrown) \<Rightarrow> Some (w, Terminate)
   | (w, Inr present) \<Rightarrow> fail_in w present (do {
       (_, r) \<leftarrow> rt_createDefault runtime rg_kLatest ();
       next_in w (orDie_call r) (\<lambda>config. do {
       (w, r) \<leftarrow> rg_saveFile dump config configFile w;
       next_in w (orDie_call r) (\<lambda>_. continue w) }) }))"

definition rg_relaunch ::
    "(double json \<Rightarrow> dump_outcome) \<Rightarrow> json_parser \<Rightarrow> unit runtime \<Rightarrow> path \<Rightarrow> world \<Rightarrow> (world \<Rightarrow> process_run) \<Rightarrow> process_run" where
  "rg_relaunch dump parser runtime configFile w continue = do {
     (w, r) \<leftarrow> rg_loadFile parser configFile w;
     next_in w (orDie_call r) (\<lambda>config.
     fail_in w (ss_status (inspect config rg_kLatest) \<noteq> InSync) (do {
     (_, config, r) \<leftarrow> synchronize_latest runtime () config;
     next_in w (orDie_call r) (\<lambda>status.
     fail_in w (status \<noteq> InSync) (do {
     (m, r) \<leftarrow> cm_set_scalar (vc_model config) ''logging.level'' (CStr (Some ''warn''));
     next_in w (orDie r) (\<lambda>_. do {
     (w, r) \<leftarrow> rg_saveFile dump (config\<lparr>vc_model := m\<rparr>) configFile w;
     next_in w (orDie_call r) (\<lambda>_. continue w) }) })) })) }"

text \<open>The reads of the upgraded configuration, each with what it is expected to be.\<close>

definition rg_expected :: "(cpp_type \<times> string \<times> cpp_value) list" where
  "rg_expected = [
     (TyString, ''server.listeners[0].host'', VString ''0.0.0.0''),
     (TyInteger True 64, ''server.listeners[0].port'', VInteger 9090),
     (TyString, ''logging.level'', VString ''debug''),
     (TyInteger True 64, ''limits.max_connections'', VInteger 200),
     (TyBool, ''server.tls.enabled'', VBool False),
     (TyInteger True 64, ''limits.request_timeout_ms'', VInteger 30000)]"

definition rg_upgrade_legacy ::
    "(double json \<Rightarrow> dump_outcome) \<Rightarrow> json_parser \<Rightarrow> unit runtime \<Rightarrow> path \<Rightarrow> path \<Rightarrow> world \<Rightarrow> (world \<Rightarrow> process_run) \<Rightarrow> process_run" where
  "rg_upgrade_legacy dump parser runtime shipped legacyFile w continue = (case fs_copy_file shipped legacyFile w of
     (w, Some thrown) \<Rightarrow> Some (w, Terminate)
   | (w, None) \<Rightarrow> do {
     (w, r) \<leftarrow> rg_loadFile parser legacyFile w;
     next_in w (orDie_call r) (\<lambda>config.
     fail_in w (ss_status (inspect config rg_kLatest) \<noteq> UpgradeRequired) (do {
     (_, config, r) \<leftarrow> synchronize_latest runtime () config;
     next_in w (orDie_call r) (\<lambda>_. do {
     expected \<leftarrow> expectAll (vc_model config) rg_expected;
     next_in w expected (\<lambda>_.
     fail_in w (vc_version config \<noteq> rg_kLatest) (do {
     (w, r) \<leftarrow> rg_saveFile dump config legacyFile w;
     next_in w (orDie_call r) (\<lambda>_. do {
     printed_text \<leftarrow> toJsonText dump config;
     next_in w printed_text (\<lambda>_. continue w) }) })) }) })) })"

definition rg_future :: "json_parser \<Rightarrow> unit runtime \<Rightarrow> path \<Rightarrow> world \<Rightarrow> process_run" where
  "rg_future parser runtime shipped w = do {
     (w, r) \<leftarrow> rg_loadFile parser shipped w;
     next_in w (orDie_call r) (\<lambda>config. do {
     (_, config, r) \<leftarrow> synchronize runtime () config rg_kLatest;
     next_in w (orDie_call r) (\<lambda>status.
     fail_in w (status \<noteq> DowngradeRequired \<or> vc_version config \<noteq> 99) (Some (w, Exit EXIT_SUCCESS))) }) }"

definition rg_main :: "(double json \<Rightarrow> dump_outcome) \<Rightarrow> json_parser \<Rightarrow> path \<Rightarrow> path \<Rightarrow> world \<Rightarrow> process_run" where
  "rg_main dump parser dataDir outDir w = next_in w rg_runtime (\<lambda>runtime.
     let configFile = append_path outDir ''relaygate.json''; legacyFile = append_path outDir ''legacy.json'' in
     rg_reset outDir w (\<lambda>w.
     rg_first_launch dump runtime configFile w (\<lambda>w.
     rg_relaunch dump parser runtime configFile w (\<lambda>w.
     rg_upgrade_legacy dump parser runtime (append_path dataDir ''relaygate_v1.json'') legacyFile w (\<lambda>w.
     rg_future parser runtime (append_path dataDir ''relaygate_future.json'') w)))))"

section \<open>The disk\<close>

text \<open>Two shipped files, and an output directory that is there.\<close>

definition rg_ready :: "path \<Rightarrow> (path \<rightharpoonup> string) \<Rightarrow> world \<Rightarrow> bool" where
  "rg_ready dir shipped w \<longleftrightarrow> w_answers w = [] \<and> list_all (\<lambda>q. w_nodes w q = Some Directory) (ancestors dir) \<and>
     (\<forall>p bytes. shipped p = Some bytes \<longrightarrow> p \<noteq> append_path dir ''relaygate.json'' \<and> p \<noteq> append_path dir ''legacy.json'' \<and>
        (\<exists>mode t. w_nodes w p = Some (RegularFile bytes mode t)))"

definition rg_output :: "path \<Rightarrow> path \<Rightarrow> bool" where
  "rg_output dir p \<longleftrightarrow> p = append_path dir ''relaygate.json'' \<or> p = append_path dir ''legacy.json''"

lemma output_facts: "plain_directory d \<Longrightarrow> rg_output d p \<Longrightarrow> p \<notin> set (ancestors d) \<and> parent_path p = d"
  using entry_above[of d] parent_plain[of d] by (auto simp: rg_output_def)

lemma ready_parent: "plain_directory d \<Longrightarrow> rg_ready d shipped w \<Longrightarrow> rg_output d p \<Longrightarrow> parent_present p w"
  using output_facts[of d p] self_above[of d] by (auto simp: rg_ready_def parent_present_def list_all_iff)

lemma ready_put:
  assumes "plain_directory d" "rg_ready d shipped w" "rg_output d p"
  shows "rg_ready d shipped (put_nodes ((w_nodes w)(p \<mapsto> RegularFile bytes mode t)) w)"
  using assms output_facts[OF assms(1,3)] by (auto simp: rg_ready_def list_all_iff rg_output_def)

lemma ready_open: "rg_ready d shipped w \<Longrightarrow> w_answers w = []"
  by (simp add: rg_ready_def)

text \<open>Reading a file whose bytes load, and writing a configuration that prints.\<close>

lemma rg_load:
  assumes "w_answers w = []" "holds_bytes w p bytes" "bytes \<noteq> []" "json_load parser default_limits (Some [bytes]) = Some r"
  shows "rg_loadFile parser p w = Some (w, r)"
  using assms by (auto simp: rg_loadFile_def quiet_open_in holds_bytes_def)

lemma rg_save:
  assumes d: "plain_directory d" and w: "rg_ready d shipped w" "rg_output d p" "w_nodes w p \<noteq> Some Directory"
    and s: "\<And>ok. json_save dump config ok = Some (Some bytes, Ret (if ok bytes then Inr () else fail SerializationError z))"
  shows "\<exists>w'. rg_saveFile dump config p w = Some (w', Ret (Inr ())) \<and> rg_ready d shipped w' \<and> holds_bytes w' p bytes \<and>
    (\<forall>q. q \<noteq> p \<longrightarrow> w_nodes w' q = w_nodes w q)"
proof -
  note q = ready_open[OF w(1)]
  from quiet_open_out[OF q w(3) ready_parent[OF d w(1,2)]] obtain mode where
    o: "open_out p w = (put_nodes ((w_nodes w)(p \<mapsto> RegularFile [] mode (w_now w))) w, True)" by blast
  let ?w1 = "put_nodes ((w_nodes w)(p \<mapsto> RegularFile [] mode (w_now w))) w"
  have c: "close_out p bytes ?w1 = put_nodes ((w_nodes ?w1)(p \<mapsto> RegularFile bytes mode (w_now ?w1))) ?w1"
    using q by (intro quiet_close_out[of _ _ mode "w_now w"]) simp_all
  have "rg_saveFile dump config p w = Some (put_nodes ((w_nodes ?w1)(p \<mapsto> RegularFile bytes mode (w_now ?w1))) ?w1, Ret (Inr ()))"
    using q c by (simp add: rg_saveFile_def o quiet_answer s)
  moreover have "rg_ready d shipped (put_nodes ((w_nodes ?w1)(p \<mapsto> RegularFile bytes mode (w_now ?w1))) ?w1)"
    by (intro ready_put d w)
  ultimately show ?thesis by (auto simp: holds_bytes_def)
qed

section \<open>A write that is lost\<close>

text \<open>
  The stream is written out by its destructor, after \<open>save\<close> has tested it: when that write fails,
  \<open>saveFile\<close> has already reported success, and the file is empty.
\<close>

lemma saved_but_lost:
  assumes "w_answers w = [Succeeds, Succeeds, Fails e]" "w_nodes w p \<noteq> Some Directory" "parent_present p w"
    and "\<And>ok. json_save dump config ok = Some (Some bytes, Ret (if ok bytes then Inr () else fail SerializationError z))"
  shows "\<exists>w' mode t. rg_saveFile dump config p w = Some (w', Ret (Inr ())) \<and> w_nodes w' p = Some (RegularFile [] mode t)"
  using assms by (simp add: rg_saveFile_def open_out_def next_answer_def close_out_def)

section \<open>The documents\<close>

text \<open>The defaults of version 3 after the operator has turned logging up.\<close>

definition rg_warned :: config_value where
  "rg_warned = Obj [
     (''server'', Obj [(''listeners'', Arr [Obj [(''host'', Scal (SString ''127.0.0.1'')), (''port'', Scal (SInt 8080))]]),
        (''tls'', Obj [(''enabled'', Scal (SBool False)), (''cert_file'', Scal (SString []))])]),
     (''limits'', Obj [(''max_connections'', Scal (SInt 100)), (''request_timeout_ms'', Scal (SInt 30000))]),
     (''logging'', Obj [(''file'', Scal (SString ''/var/log/relaygate.log'')), (''level'', Scal (SString ''warn''))])]"

text \<open>\<open>examples/data/relaygate_v1.json\<close>, as the parser reports it.\<close>

definition rg_file :: json_doc where
  "rg_file = JObject [(''__version'', JUnsigned 1), (''server_host'', JString ''0.0.0.0''), (''server_port'', JUnsigned 9090),
     (''log_file'', JString ''/var/log/relaygate.log''), (''verbose'', JBool True), (''max_connections'', JUnsigned 200)]"

definition rg_v1_members :: "(string \<times> config_value) list" where
  "rg_v1_members = [(''server_host'', Scal (SString ''0.0.0.0'')), (''server_port'', Scal (SInt 9090)),
     (''log_file'', Scal (SString ''/var/log/relaygate.log'')), (''verbose'', Scal (SBool True)), (''max_connections'', Scal (SInt 200))]"

lemma rg_file_loads: "spec_load default_limits rg_file = Inr (1, Obj rg_v1_members)"
  by (simp add: spec_load_def read_document_def rg_file_def rg_v1_members_def kMaxInt_def kVersionKey_def isPathAddressable_iff
      isAddressableKey_def is_reserved_def carrier_of_def kMaxVersion_def default_limits_def read_attach_def kMaxTreeDepth_def)

text \<open>The members of the upgraded configuration, in whatever order they come.\<close>

definition rg_legacy_members :: "(string \<times> config_value) list \<Rightarrow> bool" where
  "rg_legacy_members w \<longleftrightarrow> distinct (map fst w) \<and>
     map_of w = rg_upgraded (map_of rg_v1_members) (SString ''0.0.0.0'') (SInt 9090) (SString ''/var/log/relaygate.log'') True (SInt 200)"

lemma rg_v1_members_file: "rg_v1_file (map_of rg_v1_members) (SString ''0.0.0.0'') (SInt 9090) (SString ''/var/log/relaygate.log'') True (SInt 200)"
  by (simp add: rg_v1_file_def rg_v1_members_def)

lemma rg_printable:
  assumes "v = the rg_v3Defaults \<or> v = rg_warned"
  shows "finite_doubles v" "\<not> cv_contains v kVersionKey" "cv_nodes v \<le> maxNodes default_limits"
  using assms by (auto simp: rg_defaults rg_warned_def cv_contains_def cv_members_def kVersionKey_def default_limits_def)

text \<open>What the upgrade makes of the file can be saved.\<close>

lemma finite_members: "finite_doubles (Obj ms) \<longleftrightarrow> (\<forall>(k, c) \<in> set ms. finite_doubles c)"
  by (induction ms) auto

lemma rg_upgraded_saves:
  assumes m: "models (vc_model config) (Obj w)"
    and w: "map_of w = rg_upgraded (map_of rg_v1_members) (SString ''0.0.0.0'') (SInt 9090) (SString ''/var/log/relaygate.log'') True (SInt 200)"
    and dump: "dump (document_at (vc_version config) (Obj w)) = DText t"
  shows "json_save dump config ok = Some (Some (t @ [CHR 0x0A]), Ret (if ok (t @ [CHR 0x0A]) then Inr ()
        else fail SerializationError ''failed to write JSON document to stream''))"
proof -
  have dist: "distinct (map fst w)" using models_wf[OF m] by (simp add: wf_model_value_def)
  have f: "finite_doubles (Obj w)" unfolding finite_members
  proof (intro ballI, clarify)
    fix k c assume "(k, c) \<in> set w"
    then have "map_of w k = Some c" using dist by simp
    then show "finite_doubles c" unfolding w by (auto simp: rg_upgraded_def rg_v1_keys_def rg_v1_members_def split: if_splits)
  qed
  have n: "\<not> cv_contains (Obj w) kVersionKey"
  proof
    assume "cv_contains (Obj w) kVersionKey"
    then have "map_of w kVersionKey \<noteq> None" by (auto simp: cv_contains_def cv_members_def map_of_eq_None_iff)
    then show False unfolding w by (simp add: rg_upgraded_def rg_v1_keys_def rg_v1_members_def kVersionKey_def)
  qed
  have "json_members [(kVersionKey, JUnsigned (ucast (vc_version config)))] (cv_members (Obj w)) =
      Inr ((kVersionKey, JUnsigned (ucast (vc_version config))) # map (map_prod id document_of) w)"
    using json_of_finite(2)[of w] f by (simp add: cv_members_def)
  then show ?thesis using dump by (simp add: save_emits[OF m] n document_at_def cv_members_def)
qed

section \<open>The phases, when no call fails\<close>

lemma rg_reset_runs:
  assumes d: "plain_directory d" and q: "w_answers w = []"
    and free: "list_all (\<lambda>q. w_nodes w q = None \<or> w_nodes w q = Some Directory) (ancestors d)"
    and out: "\<And>p. rg_output d p \<Longrightarrow> w_nodes w p \<noteq> Some Directory"
    and shipped: "\<And>p bytes. shipped p = Some bytes \<Longrightarrow> \<not> rg_output d p \<and> holds_bytes w p bytes"
  shows "\<exists>w'. rg_reset d w continue = continue w' \<and> rg_ready d shipped w' \<and> (\<forall>p. rg_output d p \<longrightarrow> w_nodes w' p = None)"
proof -
  let ?c = "append_path d ''relaygate.json''" and ?l = "append_path d ''legacy.json''"
  have r: "\<exists>w'. fs_remove p v = (w', None) \<and> w_answers w' = [] \<and> w_nodes w' = (w_nodes v)(p := None)"
    if "w_answers v = []" "w_nodes v p \<noteq> Some Directory" for p v
    using that by (auto simp: fs_remove_def quiet_answer)
  have o: "w_nodes w ?c \<noteq> Some Directory" "w_nodes w ?l \<noteq> Some Directory" using out by (simp_all add: rg_output_def)
  obtain w1 where 1: "fs_remove ?c w = (w1, None)" "w_answers w1 = []" "w_nodes w1 = (w_nodes w)(?c := None)" using r[OF q o(1)] by blast
  have l1: "w_nodes w1 ?l \<noteq> Some Directory" using o(2) 1(3) by simp
  obtain w2 where 2: "fs_remove ?l w1 = (w2, None)" "w_answers w2 = []" "w_nodes w2 = (w_nodes w1)(?l := None)" using r[OF 1(2) l1] by blast
  have "list_all (\<lambda>q. w_nodes w2 q = None \<or> w_nodes w2 q = Some Directory) (ancestors d)"
    using free by (auto simp: 1(3) 2(3) list_all_iff)
  from quiet_create_directories[OF 2(2) this] obtain log where c: "fs_create_directories d w2 =
      (w2\<lparr>w_nodes := (\<lambda>q. if q \<in> set (ancestors d) then Some Directory else w_nodes w2 q), w_log := log\<rparr>, None)" by blast
  let ?w3 = "w2\<lparr>w_nodes := (\<lambda>q. if q \<in> set (ancestors d) then Some Directory else w_nodes w2 q), w_log := log\<rparr>"
  have "rg_ready d shipped ?w3" unfolding rg_ready_def
  proof (intro conjI allI impI)
    fix p bytes assume s: "shipped p = Some bytes"
    from shipped[OF s] show "p \<noteq> ?c" "p \<noteq> ?l" by (simp_all add: rg_output_def)
    from shipped[OF s] free have "p \<notin> set (ancestors d)" by (auto simp: holds_bytes_def list_all_iff)
    then show "\<exists>mode t. w_nodes ?w3 p = Some (RegularFile bytes mode t)"
      using shipped[OF s] by (simp add: 1(3) 2(3) holds_bytes_def rg_output_def)
  qed (use 2(2) in \<open>simp_all add: list_all_iff\<close>)
  moreover have "\<forall>p. rg_output d p \<longrightarrow> w_nodes ?w3 p = None"
    using output_facts[OF d] by (auto simp: 1(3) 2(3) rg_output_def)
  moreover have "rg_reset d w continue = continue ?w3" by (simp add: rg_reset_def 1(1) 2(1) c)
  ultimately show ?thesis by blast
qed

lemma rg_first_launch_runs:
  assumes d: "plain_directory d" and w: "rg_ready d shipped w" "rg_output d p" "w_nodes w p = None"
    and lit: "\<And>x. float_literal (lit x)" and p0: "prints_back dump parser lit (document_at 3 (the rg_v3Defaults)) bytes0"
  shows "\<exists>w'. rg_first_launch dump rg_rt p w continue = continue w' \<and> rg_ready d shipped w' \<and> holds_bytes w' p bytes0 \<and>
    (\<forall>q. q \<noteq> p \<longrightarrow> w_nodes w' q = w_nodes w q)"
proof -
  have n: "cv_nodes (the rg_v3Defaults) < kNodeIdNone" by (simp add: rg_defaults_wf(4) kNodeIdNone_def)
  from createDefault_ok[OF runtime_defaults(3)[of rg_v1Defaults rg_v2Defaults rg_v3Defaults rg_migrateV1ToV2 rg_migrateV2ToV3 "()"] rg_defaults_wf(3) n]
  obtain m where m: "cat_createDefault (rt_catalog (rg_rt :: unit runtime)) 3 () = Some ((), Ret (Inr m))" "models m (the rg_v3Defaults)" by blast
  let ?cfg = "\<lparr>vc_version = 3, vc_model = m\<rparr>"
  have c: "rt_createDefault rg_rt rg_kLatest () = Some ((), Ret (Inr ?cfg))" by (simp add: rt_createDefault_def m(1) rg_kLatest_def)
  have s: "json_save dump ?cfg ok = Some (Some bytes0, Ret (if ok bytes0 then Inr () else fail SerializationError ''failed to write JSON document to stream''))" for ok
    using prints_back_roundtrip(1)[where parser = parser and dump = dump and lit = lit and config = ?cfg, OF _ rg_printable[OF disjI1[OF refl]] lit, of bytes0 ok] m(2) p0
    by (simp add: spec_save_document)
  from rg_save[OF d w(1,2) _ s] w(3) obtain w1 where
    1: "rg_saveFile dump ?cfg p w = Some (w1, Ret (Inr ()))" "rg_ready d shipped w1" "holds_bytes w1 p bytes0" "\<forall>q. q \<noteq> p \<longrightarrow> w_nodes w1 q = w_nodes w q"
    by auto
  have "rg_first_launch dump rg_rt p w continue = continue w1"
    using quiet_reads(1)[OF ready_open[OF w(1)], of p] w(3) by (simp add: rg_first_launch_def c 1(1))
  with 1 show ?thesis by blast
qed

lemma rg_warn: "spec_set (the rg_v3Defaults) ''logging.level'' (Scal (SString ''warn'')) = Inr rg_warned"
  "fill (the rg_v3Defaults) (the rg_v3Defaults) = the rg_v3Defaults" "good_default (the rg_v3Defaults) (the rg_v3Defaults)"
  "room_for (the rg_v3Defaults) (Scal (SString ''warn''))"
proof -
  show "good_default (the rg_v3Defaults) (the rg_v3Defaults)"
    using rg_defaults_wf(3,4) by (simp add: good_default_def room_for_def kMaxTreeDepth_def kNodeIdNone_def)
qed (simp_all add: spec_set_def rg_paths rg_defaults rg_warned_def kMaxTreeDepth_def room_for_def kNodeIdNone_def)

lemma rg_relaunch_runs:
  assumes d: "plain_directory d" and w: "rg_ready d shipped w" "rg_output d p" "holds_bytes w p bytes0"
    and lit: "\<And>x. float_literal (lit x)" and p0: "prints_back dump parser lit (document_at 3 (the rg_v3Defaults)) bytes0"
    and p1: "prints_back dump parser lit (document_at 3 rg_warned) bytes1"
  shows "\<exists>w'. rg_relaunch dump parser rg_rt p w continue = continue w' \<and> rg_ready d shipped w' \<and> holds_bytes w' p bytes1 \<and>
    (\<forall>q. q \<noteq> p \<longrightarrow> w_nodes w' q = w_nodes w q)"
proof -
  have n: "cv_nodes (the rg_v3Defaults) < kNodeIdNone" by (simp add: rg_defaults_wf(4) kNodeIdNone_def)
  from createDefault_ok[OF runtime_defaults(3)[of rg_v1Defaults rg_v2Defaults rg_v3Defaults rg_migrateV1ToV2 rg_migrateV2ToV3 "()"] rg_defaults_wf(3) n]
  obtain m0 where m0: "models m0 (the rg_v3Defaults)" by blast
  note j = prints_back_roundtrip[where parser = parser and dump = dump and lit = lit and config = "\<lparr>vc_version = 3, vc_model = m0\<rparr>",
      OF _ rg_printable[OF disjI1[OF refl]] lit, unfolded spec_save_document, simplified, OF m0 p0]
  from j(3) obtain m where m: "json_load parser default_limits (Some [bytes0]) = Some (Ret (Inr \<lparr>vc_version = 3, vc_model = m\<rparr>))"
    "models m (the rg_v3Defaults)" by blast
  let ?cfg = "\<lparr>vc_version = 3, vc_model = m\<rparr>"
  have k: "cat_contains (rt_catalog (rg_rt :: unit runtime)) (vc_version ?cfg)"
    using wired(2) by (simp add: cat_contains_iff runtime3_def wired)
  from sync_current[of rg_rt ?cfg "the rg_v3Defaults" "()", OF k _ _ rg_warn(3)] m(2) runtime_defaults(3)[where s = "()"] rg_warn(2)
  have s: "synchronize_latest rg_rt () ?cfg = Some ((), ?cfg, Ret (Inr InSync))" by (auto simp: synchronize_latest_def runtimes_latest)
  from set_ok[OF m(2) rg_warn(1) _ rg_warn(4)] obtain m1 where
    1: "cm_set m ''logging.level'' (Scal (SString ''warn'')) = Some (m1, Inr ())" "models m1 rg_warned" by auto
  have sv: "json_save dump \<lparr>vc_version = 3, vc_model = m1\<rparr> ok = Some (Some bytes1, Ret (if ok bytes1 then Inr () else fail SerializationError ''failed to write JSON document to stream''))" for ok
    using prints_back_roundtrip(1)[where parser = parser and dump = dump and lit = lit and config = "\<lparr>vc_version = 3, vc_model = m1\<rparr>", OF _ rg_printable[OF disjI2[OF refl]] lit, of bytes1 ok] 1(2) p1
    by (simp add: spec_save_document)
  have "w_nodes w p \<noteq> Some Directory" using w(3) by (auto simp: holds_bytes_def)
  from rg_save[OF d w(1,2) this sv] obtain w1 where
    2: "rg_saveFile dump \<lparr>vc_version = 3, vc_model = m1\<rparr> p w = Some (w1, Ret (Inr ()))" "rg_ready d shipped w1" "holds_bytes w1 p bytes1" "\<forall>q. q \<noteq> p \<longrightarrow> w_nodes w1 q = w_nodes w q" by blast
  have "ss_status (inspect ?cfg rg_kLatest) = InSync" by (simp add: inspect_def rg_kLatest_def)
  then have "rg_relaunch dump parser rg_rt p w continue = continue w1"
    by (simp add: rg_relaunch_def rg_load[OF ready_open[OF w(1)] w(3) j(2) m(1)] s set_scalar_text 1(1) 2(1))
  with 2 show ?thesis by blast
qed

lemma rg_read_paths:
  "cp_parse ''server.listeners[0].host'' = Inr [Key ''server'', Key ''listeners'', Index 0, Key ''host'']"
  "cp_parse ''server.listeners[0].port'' = Inr [Key ''server'', Key ''listeners'', Index 0, Key ''port'']"
  "cp_parse ''server.tls.enabled'' = Inr [Key ''server'', Key ''tls'', Key ''enabled'']"
  "cp_parse ''limits.request_timeout_ms'' = Inr [Key ''limits'', Key ''request_timeout_ms'']"
  using cp_parse_render[of "[Key ''server'', Key ''listeners'', Index 0, Key ''host'']"]
    cp_parse_render[of "[Key ''server'', Key ''listeners'', Index 0, Key ''port'']"]
    cp_parse_join[OF parse_dotted[of "''server''" "''tls''"], of "''enabled''"] parse_dotted[of "''limits''" "''request_timeout_ms''"]
  by (simp_all add: isAddressableKey_def is_reserved_def wf_path_def nat_str.simps char_of_def bit_0)

lemma rg_expects:
  assumes m: "models m (Obj w)"
    and w: "map_of w = rg_upgraded (map_of rg_v1_members) (SString ''0.0.0.0'') (SInt 9090) (SString ''/var/log/relaygate.log'') True (SInt 200)"
  shows "expectAll m rg_expected = Some (Inr ())"
proof -
  have "cm_get TyString m ''server.listeners[0].host'' = Some (Inr (VString ''0.0.0.0''))"
    "cm_get (TyInteger True 64) m ''server.listeners[0].port'' = Some (Inr (VInteger 9090))"
    "cm_get TyString m ''logging.level'' = Some (Inr (VString ''debug''))"
    "cm_get (TyInteger True 64) m ''limits.max_connections'' = Some (Inr (VInteger 200))"
    "cm_get TyBool m ''server.tls.enabled'' = Some (Inr (VBool False))"
    "cm_get (TyInteger True 64) m ''limits.request_timeout_ms'' = Some (Inr (VInteger 30000))"
    by (simp_all add: cm_get_models[OF m] spec_read_def spec_get_def rg_read_paths rg_paths w rg_upgraded_def)
  then show ?thesis by (simp add: expectAll_def rg_expected_def)
qed

lemma rg_upgrade_legacy_runs:
  assumes d: "plain_directory d" and w: "rg_ready d shipped w" "rg_output d p" "w_nodes w p = None"
    and source: "shipped source = Some bytes" "parser bytes = (events_of rg_file, PDone)" "bytes \<noteq> []" "length bytes \<le> 4 * 1024 * 1024"
    and dump: "\<And>v. rg_legacy_members v \<Longrightarrow> \<exists>t. dump (document_at 3 (Obj v)) = DText t"
  shows "\<exists>w'. rg_upgrade_legacy dump parser rg_rt source p w continue = continue w' \<and> rg_ready d shipped w' \<and>
    (\<forall>q. q \<noteq> p \<longrightarrow> w_nodes w' q = w_nodes w q) \<and>
    (\<exists>v t. rg_legacy_members v \<and>
      dump (document_at 3 (Obj v)) = DText t \<and> holds_bytes w' p (t @ [CHR 0x0A]))"
proof -
  from w(1) source(1) w(2) obtain mode t where f: "w_nodes w source = Some (RegularFile bytes mode t)" "source \<noteq> p"
    by (fastforce simp: rg_ready_def rg_output_def)
  let ?w1 = "put_nodes ((w_nodes w)(p \<mapsto> RegularFile bytes mode (w_now w))) w"
  have c: "fs_copy_file source p w = (?w1, None)"
    using w(3) by (intro quiet_copy_file[OF ready_open[OF w(1)] f _ ready_parent[OF d w(1,2)]]) simp
  have r1: "rg_ready d shipped ?w1" by (rule ready_put[OF d w(1,2)])
  have h1: "holds_bytes ?w1 p bytes" by (simp add: holds_bytes_def)
  have "length bytes \<le> maxInputBytes default_limits" using source(4) by (simp add: default_limits_def)
  from parsed_load[of parser, OF source(2,3) this rg_file_loads] obtain m where
    m: "json_load parser default_limits (Some [bytes]) = Some (Ret (Inr \<lparr>vc_version = 1, vc_model = m\<rparr>))" "models m (Obj rg_v1_members)" by blast
  have room: "cv_nodes (Obj rg_v1_members) + 1000 \<le> kNodeIdNone" by (simp add: rg_v1_members_def kNodeIdNone_def)
  from rg_upgrade[OF m(2) rg_v1_members_file room, of "()"] obtain cfg v where
    u: "synchronize_latest rg_rt () \<lparr>vc_version = 1, vc_model = m\<rparr> = Some ((), cfg, Ret (Inr InSync))" "vc_version cfg = 3"
      "models (vc_model cfg) (Obj v)"
    and v: "map_of v = rg_upgraded (map_of rg_v1_members) (SString ''0.0.0.0'') (SInt 9090) (SString ''/var/log/relaygate.log'') True (SInt 200)" by blast
  have lm: "rg_legacy_members v" using v models_wf[OF u(3)] by (simp add: rg_legacy_members_def wf_model_value_def)
  from dump[OF this] obtain tx where tx: "dump (document_at 3 (Obj v)) = DText tx" by blast
  note s = rg_upgraded_saves[where dump = dump, OF u(3) v, unfolded u(2), OF tx]
  have "w_nodes ?w1 p \<noteq> Some Directory" by simp
  from rg_save[OF d r1 w(2) this s] obtain w2 where
    2: "rg_saveFile dump cfg p ?w1 = Some (w2, Ret (Inr ()))" "rg_ready d shipped w2" "holds_bytes w2 p (tx @ [CHR 0x0A])" "\<forall>q. q \<noteq> p \<longrightarrow> w_nodes w2 q = w_nodes ?w1 q" by blast
  have p: "toJsonText dump cfg = Some (Inr (tx @ [CHR 0x0A]))" by (simp add: toJsonText_def s)
  have i: "ss_status (inspect \<lparr>vc_version = 1, vc_model = m\<rparr> 3) = UpgradeRequired" by (simp add: inspect_def)
  have "rg_upgrade_legacy dump parser rg_rt source p w continue = continue w2"
    by (simp add: rg_upgrade_legacy_def c rg_load[OF ready_open[OF r1] h1 source(3) m(1)] i u(1,2) rg_expects[OF u(3) v] 2(1) p rg_kLatest_def)
  moreover have "\<forall>q. q \<noteq> p \<longrightarrow> w_nodes w2 q = w_nodes w q" using 2(4) by simp
  ultimately show ?thesis using 2(2,3) lm tx by blast
qed

lemma rg_future_runs:
  assumes w: "w_answers w = []" "holds_bytes w source bytes" "bytes \<noteq> []" "length bytes \<le> 4 * 1024 * 1024"
    and p: "parser bytes = (events_of j, PDone)" "spec_load default_limits j = Inr (99, v)"
  shows "rg_future parser rg_rt source w = Some (w, Exit EXIT_SUCCESS)"
proof -
  have "length bytes \<le> maxInputBytes default_limits" using w(4) by (simp add: default_limits_def)
  from parsed_load[of parser, OF p(1) w(3) this p(2)] obtain m where
    m: "json_load parser default_limits (Some [bytes]) = Some (Ret (Inr \<lparr>vc_version = 99, vc_model = m\<rparr>))" by blast
  have "synchronize rg_rt () \<lparr>vc_version = 99, vc_model = m\<rparr> rg_kLatest = Some ((), \<lparr>vc_version = 99, vc_model = m\<rparr>, Ret (Inr DowngradeRequired))"
    by (simp add: synchronize_def inspect_def cat_contains_iff runtime3_def wired rg_kLatest_def)
  then show ?thesis by (simp add: rg_future_def rg_load[OF w(1-3) m])
qed

lemma rg_main_runs:
  assumes d: "plain_directory d" and w: "w_answers w = []"
      "list_all (\<lambda>q. w_nodes w q = None \<or> w_nodes w q = Some Directory) (ancestors d)"
      "\<And>p. rg_output d p \<Longrightarrow> w_nodes w p \<noteq> Some Directory"
    and old: "holds_bytes w (append_path data ''relaygate_v1.json'') old" "parser old = (events_of rg_file, PDone)" "old \<noteq> []" "length old \<le> 4 * 1024 * 1024"
    and later: "holds_bytes w (append_path data ''relaygate_future.json'') later" "parser later = (events_of j, PDone)"
      "spec_load default_limits j = Inr (99, v)" "later \<noteq> []" "length later \<le> 4 * 1024 * 1024"
    and apart: "\<not> rg_output d (append_path data ''relaygate_v1.json'')" "\<not> rg_output d (append_path data ''relaygate_future.json'')"
    and lit: "\<And>x. float_literal (lit x)" and p0: "prints_back dump parser lit (document_at 3 (the rg_v3Defaults)) bytes0"
    and p1: "prints_back dump parser lit (document_at 3 rg_warned) bytes1" and dump: "\<And>v. rg_legacy_members v \<Longrightarrow> \<exists>t. dump (document_at 3 (Obj v)) = DText t"
  shows "\<exists>w'. rg_main dump parser data d w = Some (w', Exit EXIT_SUCCESS) \<and> holds_bytes w' (append_path d ''relaygate.json'') bytes1 \<and>
    (\<exists>v t. rg_legacy_members v \<and>
      dump (document_at 3 (Obj v)) = DText t \<and> holds_bytes w' (append_path d ''legacy.json'') (t @ [CHR 0x0A])) \<and>
    holds_bytes w' (append_path data ''relaygate_future.json'') later"
proof -
  let ?a = "append_path data ''relaygate_v1.json''" and ?b = "append_path data ''relaygate_future.json''"
    and ?c = "append_path d ''relaygate.json''" and ?l = "append_path d ''legacy.json''"
  let ?s = "[?b \<mapsto> later, ?a \<mapsto> old]"
  have ab: "?a \<noteq> ?b" by (auto simp: append_path_def)
  have o: "rg_output d ?c" "rg_output d ?l" "?c \<noteq> ?l" by (auto simp: rg_output_def append_path_def)
  have "\<not> rg_output d p \<and> holds_bytes w p bytes" if "?s p = Some bytes" for p bytes
    using that old(1) later(1) apart by (auto split: if_splits)
  note sh = this
  let ?k4 = "\<lambda>w. rg_future parser rg_rt ?b w"
  let ?k3 = "\<lambda>w. rg_upgrade_legacy dump parser rg_rt ?a ?l w ?k4"
  let ?k2 = "\<lambda>w. rg_relaunch dump parser rg_rt ?c w ?k3"
  let ?k1 = "\<lambda>w. rg_first_launch dump rg_rt ?c w ?k2"
  from rg_reset_runs[OF d w, of ?s ?k1] sh obtain w1 where
    1: "rg_reset d w ?k1 = ?k1 w1" "rg_ready d ?s w1" "\<forall>p. rg_output d p \<longrightarrow> w_nodes w1 p = None" by blast
  from rg_first_launch_runs[OF d 1(2) o(1) 1(3)[rule_format, OF o(1)] lit p0, of ?k2] obtain w2 where
    2: "?k1 w1 = ?k2 w2" "rg_ready d ?s w2" "holds_bytes w2 ?c bytes0" "\<forall>q. q \<noteq> ?c \<longrightarrow> w_nodes w2 q = w_nodes w1 q" by blast
  from rg_relaunch_runs[OF d 2(2) o(1) 2(3) lit p0 p1, of ?k3] obtain w3 where
    3: "?k2 w2 = ?k3 w3" "rg_ready d ?s w3" "holds_bytes w3 ?c bytes1" "\<forall>q. q \<noteq> ?c \<longrightarrow> w_nodes w3 q = w_nodes w2 q" by blast
  have l: "w_nodes w3 ?l = None" using 1(3) 2(4) 3(4) o by metis
  have "?s ?a = Some old" by simp
  from rg_upgrade_legacy_runs[where shipped = ?s and source = ?a and dump = dump and parser = parser and bytes = old and d = d and p = ?l and w = w3, OF d 3(2) o(2) l this old(2-4) dump, of ?k4] obtain w4 where
    4: "?k3 w3 = ?k4 w4" "rg_ready d ?s w4" "\<forall>q. q \<noteq> ?l \<longrightarrow> w_nodes w4 q = w_nodes w3 q"
    and lg: "\<exists>v t. rg_legacy_members v \<and>
      dump (document_at 3 (Obj v)) = DText t \<and> holds_bytes w4 ?l (t @ [CHR 0x0A])" by blast
  have h: "holds_bytes w4 ?b later" using 4(2) ab by (auto simp: rg_ready_def holds_bytes_def)
  have "?k4 w4 = Some (w4, Exit EXIT_SUCCESS)" by (rule rg_future_runs[where parser = parser and j = j, OF ready_open[OF 4(2)] h later(4,5,2,3)])
  then have "rg_main dump parser data d w = Some (w4, Exit EXIT_SUCCESS)"
    using 1(1) 2(1) 3(1) 4(1) by (simp add: rg_main_def rg_runtime_ok Let_def)
  moreover have "holds_bytes w4 ?c bytes1" using 3(3) 4(3) o(3) by (simp add: holds_bytes_def)
  ultimately show ?thesis using lg h by blast
qed

end
