(* ===== verification/Example_Firmware.thy ===== *)
theory Example_Firmware
  imports Example_Files
begin

text \<open>
  \<open>examples/05_firmware_rollback.cpp\<close>: the checkpoint store, the runtime and the JSON backend working
  together. A firmware that supports version 3 captures the version 1 configuration, upgrades it and
  commits it; a downgraded one that supports version 2 finds the checkpoint and goes back to it.
\<close>

section \<open>Default factories and migrations\<close>

definition fw_v1Defaults :: "config_value option" where
  "fw_v1Defaults = do {
     root \<leftarrow> set_of cv_object ''device_name'' (CStr (Some ''sensor''));
     set_of root ''sample_period_ms'' (CSigned 1000) }"

definition fw_v2Defaults :: "config_value option" where
  "fw_v2Defaults = do {
     device \<leftarrow> set_of cv_object ''name'' (CStr (Some ''sensor''));
     sampling \<leftarrow> set_of cv_object ''period_ms'' (CSigned 1000);
     root \<leftarrow> cv_set cv_object ''device'' device;
     cv_set root ''sampling'' sampling }"

definition fw_v3Defaults :: "config_value option" where
  "fw_v3Defaults = do {
     root \<leftarrow> fw_v2Defaults;
     upload \<leftarrow> set_of cv_object ''batch_size'' (CSigned 50);
     cv_set root ''upload'' upload }"

definition moveValue :: "cmodel \<Rightarrow> string \<Rightarrow> string \<Rightarrow> (cmodel \<times> (error + unit)) option" where
  "moveValue model source target =
     then_with (reading model (cm_getValue model source)) (\<lambda>model value.
     then_with (cm_set model target value) (\<lambda>model _.
     cm_remove model source))"

definition fw_migrateV1ToV2 :: "cmodel \<Rightarrow> (cmodel \<times> (error + unit)) option" where
  "fw_migrateV1ToV2 model =
     then_with (moveValue model ''device_name'' ''device.name'') (\<lambda>model _.
     moveValue model ''sample_period_ms'' ''sampling.period_ms'')"

definition fw_migrateV2ToV3 :: "cmodel \<Rightarrow> (cmodel \<times> (error + unit)) option" where
  "fw_migrateV2ToV3 model = Some (model, Inr ())"

section \<open>The runtimes of the two firmwares\<close>

definition makeV2Runtime :: "'s runtime run" where
  "makeV2Runtime = (let
     (catalog, r1) = registerVersion [] \<lparr>va_version = 1, va_factory = Some (factory fw_v1Defaults)\<rparr>;
     (catalog, r2) = registerVersion catalog \<lparr>va_version = 2, va_factory = Some (factory fw_v2Defaults)\<rparr>;
     (registry, r3) = registerMigration [] 1 2 (Some (migration fw_migrateV1ToV2))
   in do_all [r1, r2, r3] (orDie (rt_create catalog registry)))"

definition makeV3Runtime :: "'s runtime run" where
  "makeV3Runtime = (let
     (catalog, r1) = registerVersion [] \<lparr>va_version = 1, va_factory = Some (factory fw_v1Defaults)\<rparr>;
     (catalog, r2) = registerVersion catalog \<lparr>va_version = 2, va_factory = Some (factory fw_v2Defaults)\<rparr>;
     (catalog, r3) = registerVersion catalog \<lparr>va_version = 3, va_factory = Some (factory fw_v3Defaults)\<rparr>;
     (registry, r4) = registerMigration [] 1 2 (Some (migration fw_migrateV1ToV2));
     (registry, r5) = registerMigration registry 2 3 (Some (migration fw_migrateV2ToV3))
   in do_all [r1, r2, r3, r4, r5] (orDie (rt_create catalog registry)))"

section \<open>The program\<close>

definition fw_loadFile :: "json_parser \<Rightarrow> path \<Rightarrow> world \<Rightarrow> (world \<times> vconfig run) option" where
  "fw_loadFile parser p w = (case open_in p w of
     (w1, None) \<Rightarrow> Some (w1, Inl (Exit EXIT_FAILURE))
   | (w1, Some chunks) \<Rightarrow> do {
       r \<leftarrow> json_load parser default_limits (Some chunks);
       Some (w1, orDie_call r) })"

text \<open>The firmware that supports version 3: capture, upgrade, commit, prune.\<close>

definition fw_upgrade :: "os \<Rightarrow> (double json \<Rightarrow> dump_outcome) \<Rightarrow> json_parser \<Rightarrow> path \<Rightarrow> unit runtime \<Rightarrow> checkpoint_options \<Rightarrow> world \<Rightarrow>
    (world \<Rightarrow> process_run) \<Rightarrow> process_run" where
  "fw_upgrade os dump parser canonical v3_runtime store w continue = (let backend = json_backend dump parser default_limits in do {
     (w, r) \<leftarrow> fw_loadFile parser canonical w;
     next_in w r (\<lambda>config.
     fail_in w (ss_status (inspect config 3) \<noteq> UpgradeRequired) (do {
     let (w, r) = cpCapture os store config backend w;
     next_in w (orDie_call r) (\<lambda>_. do {
     (_, config, r) \<leftarrow> synchronize v3_runtime () config 3;
     next_in w (orDie_call r) (\<lambda>_. do {
     let (w, r) = cpCommit os store config backend w;
     next_in w (orDie_call r) (\<lambda>_. do {
     let (w, r) = cpPrune os store backend w;
     next_in w (orDie_call r) (\<lambda>_. continue w) }) }) }) })) })"

text \<open>What the program checks of the prepared configuration.\<close>

definition fw_accepts :: "prepared_restore \<Rightarrow> bool run option" where
  "fw_accepts restore = (let model = vc_model (pr_config restore) in
     if pr_source_version restore \<noteq> 1 \<or> vc_version (pr_config restore) \<noteq> 2 then Some (Inr False)
     else do {
       name \<leftarrow> cm_get TyString model ''device.name'';
       (case value_of name of Inl e \<Rightarrow> Some (Inl e)
        | Inr name \<Rightarrow> if name \<noteq> VString ''line-sensor-7'' then Some (Inr False) else do {
            period \<leftarrow> cm_get (TyInteger True 64) model ''sampling.period_ms'';
            (case value_of period of Inl e \<Rightarrow> Some (Inl e)
             | Inr period \<Rightarrow> if period \<noteq> VInteger 250 then Some (Inr False) else do {
                 newer \<leftarrow> cm_contains model ''upload.batch_size'';
                 Some (Inr (\<not> newer)) }) }) })"

text \<open>The firmware that supports version 2: find the checkpoint, check it, commit it.\<close>

definition fw_rollback :: "os \<Rightarrow> (double json \<Rightarrow> dump_outcome) \<Rightarrow> json_parser \<Rightarrow> path \<Rightarrow> unit runtime \<Rightarrow> checkpoint_options \<Rightarrow> world \<Rightarrow> process_run" where
  "fw_rollback os dump parser canonical v2_runtime store w = (let backend = json_backend dump parser default_limits in do {
     (w, r) \<leftarrow> fw_loadFile parser canonical w;
     next_in w r (\<lambda>config. do {
     (_, config, r) \<leftarrow> synchronize v2_runtime () config 2;
     next_in w (orDie_call r) (\<lambda>downgrade.
     fail_in w (downgrade \<noteq> DowngradeRequired) (do {
     (_, w, r) \<leftarrow> cpPrepareRestore os store backend v2_runtime 2 () w;
     next_in w (orDie_call r) (\<lambda>search. (case rs_candidate search of None \<Rightarrow> Some (w, Exit EXIT_FAILURE) | Some restore \<Rightarrow> do {
     accepted \<leftarrow> fw_accepts restore;
     next_in w accepted (\<lambda>accepted.
     fail_in w (\<not> accepted) (do {
     let (w, r) = cpCommit os store (pr_config restore) backend w;
     next_in w (orDie_call r) (\<lambda>_. do {
     (w, r) \<leftarrow> fw_loadFile parser canonical w;
     next_in w r (\<lambda>config.
     fail_in w (vc_version config \<noteq> 2) (Some (w, Exit EXIT_SUCCESS))) }) })) })) })) }) })"

definition fw_main :: "os \<Rightarrow> (path \<Rightarrow> string + path) \<Rightarrow> (double json \<Rightarrow> dump_outcome) \<Rightarrow> json_parser \<Rightarrow> path \<Rightarrow> path \<Rightarrow> world \<Rightarrow> process_run" where
  "fw_main os weakly_canonical dump parser data_dir output_dir w = (let
     canonical = append_path output_dir ''device.json'';
     checkpoints = append_path output_dir ''device.checkpoints'';
     (w, error) = fs_remove_all checkpoints w;
     (w, error) = fs_create_directories output_dir w;
     (w, error) = fs_copy_file (append_path data_dir ''device_v1.json'') canonical w
   in fail_in w (error \<noteq> None) (
     next_in w makeV3Runtime (\<lambda>v3_runtime.
     next_in w (orDie (cpCreate weakly_canonical \<lparr>canonical_path = canonical, checkpoint_directory = checkpoints,
       retention = 2, max_file_bytes = 16 * 1024 * 1024\<rparr>)) (\<lambda>store.
     fw_upgrade os dump parser canonical v3_runtime store w (\<lambda>w.
     next_in w makeV2Runtime (\<lambda>v2_runtime.
     fw_rollback os dump parser canonical v2_runtime store w))))))"

section \<open>The configurations it goes through\<close>

definition fw_v1 :: config_value where
  "fw_v1 = Obj [(''device_name'', Scal (SString ''line-sensor-7'')), (''sample_period_ms'', Scal (SInt 250))]"

definition fw_v2 :: config_value where
  "fw_v2 = Obj [(''device'', Obj [(''name'', Scal (SString ''line-sensor-7''))]), (''sampling'', Obj [(''period_ms'', Scal (SInt 250))])]"

definition fw_v3 :: config_value where
  "fw_v3 = Obj [(''device'', Obj [(''name'', Scal (SString ''line-sensor-7''))]), (''sampling'', Obj [(''period_ms'', Scal (SInt 250))]),
     (''upload'', Obj [(''batch_size'', Scal (SInt 50))])]"

text \<open>The document in \<open>examples/data/device_v1.json\<close>, as the parser reports it.\<close>

definition fw_file :: json_doc where
  "fw_file = JObject [(''__version'', JUnsigned 1), (''device_name'', JString ''line-sensor-7''), (''sample_period_ms'', JUnsigned 250)]"

lemma fw_file_loads: "spec_load default_limits fw_file = Inr (1, fw_v1)"
  by (simp add: spec_load_def read_document_def fw_file_def fw_v1_def kMaxInt_def kVersionKey_def isPathAddressable_iff isAddressableKey_def
      is_reserved_def carrier_of_def kMaxVersion_def default_limits_def read_attach_def kMaxTreeDepth_def)

lemma fw_defaults:
  "fw_v1Defaults = Some (Obj [(''device_name'', Scal (SString ''sensor'')), (''sample_period_ms'', Scal (SInt 1000))])"
  "fw_v2Defaults = Some (Obj [(''device'', Obj [(''name'', Scal (SString ''sensor''))]), (''sampling'', Obj [(''period_ms'', Scal (SInt 1000))])])"
  "fw_v3Defaults = Some (Obj [(''device'', Obj [(''name'', Scal (SString ''sensor''))]), (''sampling'', Obj [(''period_ms'', Scal (SInt 1000))]),
     (''upload'', Obj [(''batch_size'', Scal (SInt 50))])])"
  by (simp_all add: fw_v1Defaults_def fw_v2Defaults_def fw_v3Defaults_def cv_object_def cv_set_def)

lemma fw_runtimes_ok: "makeV2Runtime = Inr (runtime2 fw_v1Defaults fw_v2Defaults fw_migrateV1ToV2)"
  "makeV3Runtime = Inr (runtime3 fw_v1Defaults fw_v2Defaults fw_v3Defaults fw_migrateV1ToV2 fw_migrateV2ToV3)"
  by (simp_all add: makeV2Runtime_def makeV3Runtime_def registered_two registered_migrations runtimes_created)

lemma fw_paths:
  "cp_parse ''device_name'' = Inr [Key ''device_name'']" "cp_parse ''sample_period_ms'' = Inr [Key ''sample_period_ms'']"
  "cp_parse ''device.name'' = Inr [Key ''device'', Key ''name'']" "cp_parse ''sampling.period_ms'' = Inr [Key ''sampling'', Key ''period_ms'']"
  "cp_parse ''upload.batch_size'' = Inr [Key ''upload'', Key ''batch_size'']"
  using cp_parse_key[of "''device_name''"] cp_parse_key[of "''sample_period_ms''"] parse_dotted[of "''device''" "''name''"]
    parse_dotted[of "''sampling''" "''period_ms''"] parse_dotted[of "''upload''" "''batch_size''"]
  by (simp_all add: isAddressableKey_def is_reserved_def)

lemma moveValue_is_moveKey: "moveValue m source target = moveKey m source target"
  by (simp add: moveValue_def moveKey_def)

lemma fw_migrate12:
  assumes m: "models m fw_v1"
  shows "\<exists>m'. fw_migrateV1ToV2 m = Some (m', Inr ()) \<and> models m' fw_v2"
proof -
  let ?d = "(''device'', Obj [(''name'', Scal (SString ''line-sensor-7''))])"
  let ?s = "(''sample_period_ms'', Scal (SInt 250))"
  have "spec_get fw_v1 ''device_name'' = Inr (Scal (SString ''line-sensor-7''))"
    "spec_set fw_v1 ''device.name'' (Scal (SString ''line-sensor-7'')) =
      Inr (Obj [(''device_name'', Scal (SString ''line-sensor-7'')), ?s, ?d])"
    "spec_remove (Obj [(''device_name'', Scal (SString ''line-sensor-7'')), ?s, ?d]) ''device_name'' = Inr (Obj [?s, ?d])"
    by (simp_all add: spec_get_def spec_set_def spec_remove_def fw_paths fw_v1_def kMaxTreeDepth_def)
  from moveKey_tree[OF m this] obtain m1 where
    1: "moveKey m ''device_name'' ''device.name'' = Some (m1, Inr ())" "models m1 (Obj [?s, ?d])"
    by (auto simp: fw_v1_def room_for_def kMaxTreeDepth_def kNodeIdNone_def)
  have "spec_get (Obj [?s, ?d]) ''sample_period_ms'' = Inr (Scal (SInt 250))"
    "spec_set (Obj [?s, ?d]) ''sampling.period_ms'' (Scal (SInt 250)) =
      Inr (Obj [?s, ?d, (''sampling'', Obj [(''period_ms'', Scal (SInt 250))])])"
    "spec_remove (Obj [?s, ?d, (''sampling'', Obj [(''period_ms'', Scal (SInt 250))])]) ''sample_period_ms'' = Inr fw_v2"
    by (simp_all add: spec_get_def spec_set_def spec_remove_def fw_paths fw_v2_def kMaxTreeDepth_def)
  from moveKey_tree[OF 1(2) this] obtain m2 where
    "moveKey m1 ''sample_period_ms'' ''sampling.period_ms'' = Some (m2, Inr ())" "models m2 fw_v2"
    by (auto simp: fw_v2_def room_for_def kMaxTreeDepth_def kNodeIdNone_def)
  then show ?thesis using 1(1) by (simp add: fw_migrateV1ToV2_def moveValue_is_moveKey)
qed

lemma fw_wf: "good_default fw_v2 (the fw_v2Defaults)" "good_default fw_v2 (the fw_v3Defaults)"
  "fill (the fw_v2Defaults) fw_v2 = fw_v2" "fill (the fw_v3Defaults) fw_v2 = fw_v3"
  by (auto simp: good_default_def fw_defaults fw_v2_def fw_v3_def room_for_def kMaxTreeDepth_def kNodeIdNone_def
      wf_model_value_def isAddressableKey_def is_reserved_def)

abbreviation fw_rt2 :: "'s runtime" where
  "fw_rt2 \<equiv> runtime2 fw_v1Defaults fw_v2Defaults fw_migrateV1ToV2"

abbreviation fw_rt3 :: "'s runtime" where
  "fw_rt3 \<equiv> runtime3 fw_v1Defaults fw_v2Defaults fw_v3Defaults fw_migrateV1ToV2 fw_migrateV2ToV3"

lemma fw_syncs:
  assumes m: "models m fw_v1"
  shows "\<exists>cfg. synchronize fw_rt3 s \<lparr>vc_version = 1, vc_model = m\<rparr> 3 = Some (s, cfg, Ret (Inr InSync)) \<and>
      vc_version cfg = 3 \<and> models (vc_model cfg) fw_v3"
    "\<exists>cfg. synchronize fw_rt2 s \<lparr>vc_version = 1, vc_model = m\<rparr> 2 = Some (s, cfg, Ret (Inr InSync)) \<and>
      vc_version cfg = 2 \<and> models (vc_model cfg) fw_v2"
proof -
  from fw_migrate12[OF m] obtain m2 where f: "fw_migrateV1ToV2 m = Some (m2, Inr ())" and m2: "models m2 fw_v2" by blast
  have g: "fw_migrateV2ToV3 m2 = Some (m2, Inr ())" by (simp add: fw_migrateV2ToV3_def)
  show "\<exists>cfg. synchronize fw_rt3 s \<lparr>vc_version = 1, vc_model = m\<rparr> 3 = Some (s, cfg, Ret (Inr InSync)) \<and>
      vc_version cfg = 3 \<and> models (vc_model cfg) fw_v3"
    using upgrade3[where f = fw_migrateV1ToV2 and g = fw_migrateV2ToV3, OF f g m2 fw_wf(2)] unfolding fw_wf(4) .
  show "\<exists>cfg. synchronize fw_rt2 s \<lparr>vc_version = 1, vc_model = m\<rparr> 2 = Some (s, cfg, Ret (Inr InSync)) \<and>
      vc_version cfg = 2 \<and> models (vc_model cfg) fw_v2"
    using upgrade2[where f = fw_migrateV1ToV2, OF f m2 fw_wf(1)] unfolding fw_wf(3) .
qed

lemma fw_refuses: "synchronize fw_rt2 s \<lparr>vc_version = 3, vc_model = m\<rparr> 2 = Some (s, \<lparr>vc_version = 3, vc_model = m\<rparr>, Ret (Inr DowngradeRequired))"
  by (simp add: synchronize_def inspect_def cat_contains_iff runtimes_known runtime2_def wired)

lemma fw_accepts_v2:
  assumes "models (vc_model cfg) fw_v2" "vc_version cfg = 2"
  shows "fw_accepts \<lparr>pr_path = p, pr_source_version = 1, pr_config = cfg\<rparr> = Some (Inr True)"
proof -
  have "cm_get TyString (vc_model cfg) ''device.name'' = Some (Inr (VString ''line-sensor-7''))"
    "cm_get (TyInteger True 64) (vc_model cfg) ''sampling.period_ms'' = Some (Inr (VInteger 250))"
    by (simp_all add: cm_get_models[OF assms(1)] spec_read_def spec_get_def fw_paths fw_v2_def)
  moreover have "cm_contains (vc_model cfg) ''upload.batch_size'' = Some False"
    by (simp add: cm.has_law[OF assms(1)] spec_get_def fw_paths fw_v2_def no_member_def)
  ultimately show ?thesis using assms(2) by (simp add: fw_accepts_def Let_def)
qed

section \<open>Where the files are\<close>

definition fw_store :: "path \<Rightarrow> checkpoint_options" where
  "fw_store dir = \<lparr>canonical_path = append_path dir ''device.json'', checkpoint_directory = append_path dir ''device.checkpoints'',
     retention = 2, max_file_bytes = 16 * 1024 * 1024\<rparr>"

lemma fw_store_simps [simp]: "retention (fw_store d) = 2" "max_file_bytes (fw_store d) = 16 * 1024 * 1024"
  "canonical_path (fw_store d) = append_path d ''device.json''" "checkpoint_directory (fw_store d) = append_path d ''device.checkpoints''"
  by (simp_all add: fw_store_def)

abbreviation fw_checkpoint :: "path \<Rightarrow> path" where
  "fw_checkpoint d \<equiv> checkpoint_path (fw_store d) 1"

lemma ancestors_entry: "plain_directory d \<Longrightarrow> CHR ''/'' \<notin> set f \<Longrightarrow> f \<noteq> [] \<Longrightarrow> ancestors (append_path d f) = append_path d f # ancestors d"
  by (subst ancestors.simps) (simp add: parent_plain, simp add: append_plain plain_directory_def)

lemma fw_parents:
  assumes "plain_directory d"
  shows "parentOrCurrent (append_path d ''device.json'') = d" "parent_path (append_path d ''device.json'') = d"
    "ancestors (append_path d ''device.checkpoints'') = append_path d ''device.checkpoints'' # ancestors d"
    "plain_directory (append_path d ''device.checkpoints'')"
  using assms entry_parent[of "''device.json''" d] parent_plain[of d "''device.json''"] ancestors_entry[of d "''device.checkpoints''"]
  by (simp_all add: plain_directory_def append_plain[OF assms, of "''device.checkpoints''"])

lemma fw_separate:
  assumes "plain_directory d"
  shows "separate (fw_store d)" "proper_file (append_path d ''device.json'')"
  using assms fw_parents[OF assms]
    filename_append[of "''device.json''" d]
  by (auto simp: separate_def plain_directory_def proper_file_def append_path_def)

lemma fw_checkpoint_path:
  assumes "plain_directory d"
  shows "fw_checkpoint d = append_path (append_path d ''device.checkpoints'') (checkpointFilename 1 (extension (append_path d ''device.json'')))"
    "CHR ''/'' \<notin> set (checkpointFilename 1 (extension (append_path d ''device.json'')))"
    "checkpointFilename 1 (extension (append_path d ''device.json'')) \<noteq> []"
proof -
  show "CHR ''/'' \<notin> set (checkpointFilename 1 (extension (append_path d ''device.json'')))"
    by (intro checkpointFilename_no_slash extension_no_slash)
qed (simp_all add: checkpoint_path_def checkpointFilename_def Let_def)

text \<open>What lies in the checkpoint directory, and what does not.\<close>

lemma below_entry: "plain_directory d \<Longrightarrow> CHR ''/'' \<notin> set f \<Longrightarrow> f \<noteq> [] \<Longrightarrow> below d (append_path d f)"
  by (simp add: below_def append_plain)

lemma below_longer: "below d q \<Longrightarrow> length d \<le> length q"
  unfolding below_def by (metis append_eq_conv_conj append_take_drop_id length_append le_add1 order_refl trans_le_add1)

lemma temp_of_plain:
  assumes "plain_directory d" "CHR ''/'' \<notin> set f" "f \<noteq> []" "temp_of (append_path d f) q"
  shows "\<exists>s. CHR ''/'' \<notin> set s \<and> q = append_path d (f @ ''.tmp.'' @ s)"
proof -
  from assms(4) obtain s where "CHR ''/'' \<notin> set s"
    "q = append_path (parentOrCurrent (append_path d f)) (filename (append_path d f) @ ''.tmp.'' @ s)" unfolding temp_of_def by blast
  moreover have "parentOrCurrent (append_path d f) = d"
    using assms(1) by (intro entry_parent[OF assms(2)]) (simp_all add: plain_directory_def)
  ultimately show ?thesis using filename_append[OF assms(2)] by auto
qed

lemma temp_not_above: "plain_directory d \<Longrightarrow> CHR ''/'' \<notin> set f \<Longrightarrow> f \<noteq> [] \<Longrightarrow> temp_of (append_path d f) q \<Longrightarrow> q \<notin> set (ancestors d)"
  using temp_of_plain[of d f q] ancestors_shorter[of q d] append_plain[of d] by fastforce

lemma fw_apart:
  assumes d: "plain_directory d"
  shows "\<not> below (append_path d ''device.checkpoints'') (append_path d ''device.json'')"
    "temp_of (append_path d ''device.json'') q \<Longrightarrow> \<not> below (append_path d ''device.checkpoints'') q"
    "temp_of (append_path d ''device.json'') q \<Longrightarrow> q \<notin> set (ancestors (append_path d ''device.checkpoints''))"
    "temp_of (fw_checkpoint d) q \<Longrightarrow> below (append_path d ''device.checkpoints'') q"
    "below (append_path d ''device.checkpoints'') (fw_checkpoint d)"
    "p \<in> set (ancestors d) \<Longrightarrow> \<not> below (append_path d ''device.checkpoints'') p"
    "append_path d ''device.json'' \<notin> set (ancestors d)"
proof -
  let ?dir = "append_path d ''device.checkpoints''"
  have dir: "plain_directory ?dir" by (rule fw_parents(4)[OF d])
  have n: "\<not> below ?dir (d @ CHR ''/'' # ''device.j'' @ s)" for s
    using append_plain[OF d, of "''device.checkpoints''"] by (simp add: below_def)
  show 1: "\<not> below ?dir (append_path d ''device.json'')"
    using n[of "''son''"] append_plain[OF d, of "''device.json''"] by simp
  show t: "\<not> below ?dir q" if q: "temp_of (append_path d ''device.json'') q" for q
  proof -
    from temp_of_plain[OF d _ _ q] obtain s where "CHR ''/'' \<notin> set s" "q = append_path d (''device.json'' @ ''.tmp.'' @ s)" by auto
    with n[of "''son.tmp.'' @ s"] append_plain[OF d, of "''device.json.tmp.'' @ s"] show ?thesis by simp
  qed
  show "q \<notin> set (ancestors ?dir)" if "temp_of (append_path d ''device.json'') q"
    using t[OF that] temp_not_above[OF d _ _ that] fw_parents(3)[OF d] by (auto simp: below_def)
  show "below ?dir (fw_checkpoint d)" unfolding fw_checkpoint_path(1)[OF d] by (intro below_entry dir fw_checkpoint_path d)
  show "below ?dir q" if q: "temp_of (fw_checkpoint d) q"
  proof -
    from temp_of_plain[OF dir fw_checkpoint_path(2,3)[OF d] q[unfolded fw_checkpoint_path(1)[OF d]]] obtain s where
      "CHR ''/'' \<notin> set s" "q = append_path ?dir (checkpointFilename 1 (extension (append_path d ''device.json'')) @ ''.tmp.'' @ s)" by blast
    then show ?thesis using fw_checkpoint_path(2)[OF d] by (auto intro: below_entry[OF dir])
  qed
  have l: "length d < length ?dir" using append_plain[OF d, of "''device.checkpoints''"] by simp
  show "\<not> below ?dir p" if "p \<in> set (ancestors d)"
    using ancestors_shorter[OF that] below_longer[of ?dir p] l by auto
  have "length d < length (append_path d ''device.json'')" using append_plain[OF d, of "''device.json''"] by simp
  then show "append_path d ''device.json'' \<notin> set (ancestors d)"
    using ancestors_shorter[of "append_path d ''device.json''" d] by auto
qed

section \<open>The run\<close>

text \<open>A system that lists a directory that holds one entry as that entry.\<close>

definition lists_the_one :: "os \<Rightarrow> path \<Rightarrow> path \<Rightarrow> bool" where
  "lists_the_one os dir p \<longleftrightarrow> (\<forall>ns. (\<forall>f. f \<noteq> [] \<and> CHR ''/'' \<notin> set f \<longrightarrow> (ns (append_path dir f) \<noteq> None \<longleftrightarrow> append_path dir f = p)) \<longrightarrow>
     os_listing os ns dir = [p])"

text \<open>The canonical file is there, and nothing is in the way of a write.\<close>

definition fw_ready :: "path \<Rightarrow> string \<Rightarrow> world \<Rightarrow> bool" where
  "fw_ready d bytes w \<longleftrightarrow> w_answers w = [] \<and> list_all (\<lambda>q. w_nodes w q = None \<or> w_nodes w q = Some Directory) (ancestors d) \<and>
     (\<forall>q. temp_of (append_path d ''device.json'') q \<longrightarrow> w_nodes w q = None) \<and>
     (\<exists>mode t. w_nodes w (append_path d ''device.json'') = Some (RegularFile bytes mode t))"

text \<open>The checkpoint of version 1 is there too, alone.\<close>

definition fw_captured :: "os \<Rightarrow> path \<Rightarrow> string \<Rightarrow> world \<Rightarrow> bool" where
  "fw_captured os d bytes w \<longleftrightarrow> w_nodes w (append_path d ''device.checkpoints'') = Some Directory \<and>
     (\<exists>mode t. w_nodes w (fw_checkpoint d) = Some (RegularFile bytes mode t)) \<and>
     os_listing os (w_nodes w) (append_path d ''device.checkpoints'') = [fw_checkpoint d]"

lemma temp_candidate: "temp_of dst (snd (temporaryCandidate dst w))"
proof -
  obtain w' c where "temporaryCandidate dst w = (w', c)" by fastforce
  with temporaryCandidate_temp[OF this] show ?thesis by simp
qed

lemma fw_loads:
  assumes "fw_ready d bytes w" "bytes \<noteq> []" "json_load parser default_limits (Some [bytes]) = Some (Ret (Inr config))"
  shows "fw_loadFile parser (append_path d ''device.json'') w = Some (w, Inr config)"
proof -
  from assms(1) obtain mode t where "w_answers w = []" "w_nodes w (append_path d ''device.json'') = Some (RegularFile bytes mode t)"
    unfolding fw_ready_def by blast
  then show ?thesis using assms(2,3) by (simp add: fw_loadFile_def quiet_open_in)
qed

text \<open>A commit in such a world.\<close>

lemma fw_commit:
  assumes d: "plain_directory d" and w: "fw_ready d bytes w" and s: "saveBytes config be = Ret (Inr new)"
  shows "\<exists>w'. cpCommit os (fw_store d) config be w = (w', Ret (Inr ())) \<and> fw_ready d new w' \<and>
    with_file (append_path d ''device.json'') new (ancestors d) (w_nodes w) (w_nodes w')"
proof -
  let ?can = "append_path d ''device.json''"
  note r = w[unfolded fw_ready_def]
  have "w_nodes w (snd (temporaryCandidate ?can w)) = None" using r temp_candidate by blast
  moreover have "w_nodes w ?can \<noteq> Some Directory" using r by auto
  ultimately obtain w' where c: "cpCommit os (fw_store d) config be w = (w', Ret (Inr ()))" "w_answers w' = []"
    "with_file ?can new (ancestors d) (w_nodes w) (w_nodes w')"
    using quiet_commit[OF _ s, of w "fw_store d" os] r fw_separate[OF d] fw_parents(1)[OF d] by auto
  from c(3) obtain mode t where n: "w_nodes w' = (\<lambda>q. if q \<in> set (ancestors d) then Some Directory else w_nodes w q)(?can \<mapsto> RegularFile new mode t)"
    unfolding with_file_def by blast
  have "fw_ready d new w'" unfolding fw_ready_def
  proof (intro conjI allI impI)
    show "list_all (\<lambda>q. w_nodes w' q = None \<or> w_nodes w' q = Some Directory) (ancestors d)"
      using fw_apart(7)[OF d] by (auto simp: n list_all_iff)
    show "w_nodes w' q = None" if q: "temp_of ?can q" for q
    proof -
      have "q \<noteq> ?can" using q temp_of_irrefl by blast
      moreover have "q \<notin> set (ancestors d)" using fw_apart(3)[OF d q] fw_parents(3)[OF d] by simp
      ultimately show ?thesis using r q by (simp add: n)
    qed
  qed (use c(2) n in auto)
  with c show ?thesis by blast
qed

lemma fw_commit_keeps:
  assumes d: "plain_directory d" and "with_file (append_path d ''device.json'') new (ancestors d) old ns"
    and "below (append_path d ''device.checkpoints'') q"
  shows "ns q = old q"
  using assms(2,3) fw_apart(1,6)[OF d] unfolding with_file_def by fastforce

text \<open>The capture of the configuration at version 1.\<close>

lemma fw_capture:
  assumes d: "plain_directory d" and w: "fw_ready d bytes w" and l: "loadBytes bytes be = Ret (Inr config)" "vc_version config = 1"
    and len: "length bytes \<le> 4 * 1024 * 1024" and empty: "\<And>q. below (append_path d ''device.checkpoints'') q \<Longrightarrow> w_nodes w q = None"
  shows "\<exists>w'. cpCapture os (fw_store d) config be w = (w', Ret (Inr ())) \<and> fw_ready d bytes w' \<and>
    with_file (fw_checkpoint d) bytes (ancestors (append_path d ''device.checkpoints'')) (w_nodes w) (w_nodes w')"
proof -
  let ?dir = "append_path d ''device.checkpoints''" and ?can = "append_path d ''device.json''"
  note r = w[unfolded fw_ready_def]
  from r obtain mode t where can: "w_nodes w ?can = Some (RegularFile bytes mode t)" by blast
  have dirs: "list_all (\<lambda>q. w_nodes w q = None \<or> w_nodes w q = Some Directory) (ancestors ?dir)"
    using r empty[of ?dir] unfolding fw_parents(3)[OF d] by (simp add: below_def)
  have room: "w_nodes w (snd (temporaryCandidate (fw_checkpoint d) w)) = None" "w_nodes w (fw_checkpoint d) \<noteq> Some Directory"
    using empty fw_apart(4,5)[OF d] temp_candidate by auto
  obtain w' where c: "cpCapture os (fw_store d) config be w = (w', Ret (Inr ()))" "w_answers w' = []"
    "with_file (fw_checkpoint d) bytes (ancestors ?dir) (w_nodes w) (w_nodes w')"
    using quiet_capture[OF _ fw_separate(1)[OF d], of w bytes mode t be config config os] r can len l room dirs by auto
  from c(3) obtain mode' t' where n: "w_nodes w' = (\<lambda>q. if q \<in> set (ancestors ?dir) then Some Directory else w_nodes w q)(fw_checkpoint d \<mapsto> RegularFile bytes mode' t')"
    unfolding with_file_def by blast
  have "fw_ready d bytes w'" unfolding fw_ready_def
  proof (intro conjI allI impI)
    show "list_all (\<lambda>q. w_nodes w' q = None \<or> w_nodes w' q = Some Directory) (ancestors d)"
      using fw_apart(5,6)[OF d] fw_parents(3)[OF d] by (auto simp: n list_all_iff)
    show "w_nodes w' q = None" if q: "temp_of ?can q" for q
      using r q fw_apart(2,3)[OF d q] fw_apart(5)[OF d] by (auto simp: n)
    have "?can \<notin> set (ancestors ?dir)" using fw_apart(7)[OF d] append_plain[OF d] fw_parents(3)[OF d] by simp
    moreover have "?can \<noteq> fw_checkpoint d" using fw_apart(1,5)[OF d] by metis
    ultimately show "\<exists>mode t. w_nodes w' ?can = Some (RegularFile bytes mode t)" using can by (simp add: n)
  qed (use c(2) in simp)
  with c show ?thesis by blast
qed

lemma fw_captured_alone:
  assumes d: "plain_directory d" and f: "with_file (fw_checkpoint d) bytes (ancestors (append_path d ''device.checkpoints'')) old (w_nodes w)"
    and os: "lists_the_one os (append_path d ''device.checkpoints'') (fw_checkpoint d)"
    and empty: "\<And>q. below (append_path d ''device.checkpoints'') q \<Longrightarrow> old q = None"
    and ns: "\<And>q. below (append_path d ''device.checkpoints'') q \<Longrightarrow> w_nodes w' q = w_nodes w q"
  shows "fw_captured os d bytes w'"
proof -
  let ?dir = "append_path d ''device.checkpoints''"
  have dir: "plain_directory ?dir" by (rule fw_parents(4)[OF d])
  from f obtain mode t where n: "w_nodes w = (\<lambda>q. if q \<in> set (ancestors ?dir) then Some Directory else old q)(fw_checkpoint d \<mapsto> RegularFile bytes mode t)"
    unfolding with_file_def by blast
  have b: "below ?dir ?dir" by (simp add: below_def)
  have e: "w_nodes w' (append_path ?dir g) \<noteq> None \<longleftrightarrow> append_path ?dir g = fw_checkpoint d" if g: "g \<noteq> []" "CHR ''/'' \<notin> set g" for g
  proof -
    have a: "below ?dir (append_path ?dir g)" by (rule below_entry[OF dir g(2,1)])
    have "append_path ?dir g \<notin> set (ancestors ?dir)"
      using dir g(2) by (intro entry_not_above) (simp_all add: plain_directory_def)
    then show ?thesis using ns[OF a] empty[OF a] by (simp add: n)
  qed
  have "?dir \<noteq> fw_checkpoint d"
    unfolding fw_checkpoint_path(1)[OF d] using append_plain[OF dir fw_checkpoint_path(3,2)[OF d]] by (metis append_self_conv list.distinct(1))
  then have "w_nodes w' ?dir = Some Directory" using ns[OF b] fw_parents(3)[OF d] by (simp add: n)
  moreover have "w_nodes w' (fw_checkpoint d) = Some (RegularFile bytes mode t)" using ns[OF fw_apart(5)[OF d]] by (simp add: n)
  moreover have "os_listing os (w_nodes w') ?dir = [fw_checkpoint d]" using os e unfolding lists_the_one_def by blast
  ultimately show ?thesis unfolding fw_captured_def by blast
qed

lemma fw_json:
  assumes "models (vc_model config) v" "v = fw_v2 \<or> v = fw_v3" "\<And>x. float_literal (lit x)"
    and "prints_back dump parser lit (document_at (vc_version config) v) bytes"
  shows "saveBytes config (json_backend dump parser default_limits) = Ret (Inr bytes)" "bytes \<noteq> []"
    "\<exists>m. json_load parser default_limits (Some [bytes]) = Some (Ret (Inr \<lparr>vc_version = vc_version config, vc_model = m\<rparr>)) \<and> models m v"
proof -
  have v: "finite_doubles v" "\<not> cv_contains v kVersionKey" "cv_nodes v \<le> maxNodes default_limits"
    using assms(2) by (auto simp: fw_v2_def fw_v3_def cv_contains_def cv_members_def kVersionKey_def default_limits_def)
  note p = prints_back_roundtrip[where parser = parser and dump = dump and lit = lit, OF assms(1) v assms(3) assms(4)[folded spec_save_document]]
  show "saveBytes config (json_backend dump parser default_limits) = Ret (Inr bytes)"
    using p(1)[of "\<lambda>t. True"] by (simp add: saveBytes_def json_backend_def)
  show "bytes \<noteq> []" by (rule p(2))
  show "\<exists>m. json_load parser default_limits (Some [bytes]) = Some (Ret (Inr \<lparr>vc_version = vc_version config, vc_model = m\<rparr>)) \<and> models m v"
    by (rule p(3))
qed

lemma json_backend_loads: "bytes \<noteq> [] \<Longrightarrow> json_load parser default_limits (Some [bytes]) = Some (Ret r) \<Longrightarrow>
    loadBytes bytes (json_backend dump parser default_limits) = Ret r"
  by (simp add: loadBytes_def json_backend_def)

text \<open>The checkpoint, as the searches of the store load it.\<close>

lemma fw_candidate:
  assumes "fw_captured os d bytes w" "loadBytes bytes be = Ret (Inr \<lparr>vc_version = 1, vc_model = m\<rparr>)" "length bytes \<le> 4 * 1024 * 1024"
  shows "\<exists>t. verified (fw_store d) be None (w_nodes w) \<lparr>lc_path = fw_checkpoint d, lc_source_version = 1, lc_modified = t, lc_config = \<lparr>vc_version = 1, vc_model = m\<rparr>\<rparr> \<and>
    verified (fw_store d) be (Some 2) (w_nodes w) \<lparr>lc_path = fw_checkpoint d, lc_source_version = 1, lc_modified = t, lc_config = \<lparr>vc_version = 1, vc_model = m\<rparr>\<rparr>"
    "is_checkpoint (fw_store d) (w_nodes w) (fw_checkpoint d)"
  using assms checkpoint_name(1)[of "fw_store d" 1] unfolding fw_captured_def
  by (auto simp: verified_def is_checkpoint_def is_regular_def)

lemma fw_upgrade_runs:
  assumes d: "plain_directory d" and w: "fw_ready d bytes w"
    and empty: "\<And>q. below (append_path d ''device.checkpoints'') q \<Longrightarrow> w_nodes w q = None"
    and os: "lists_the_one os (append_path d ''device.checkpoints'') (fw_checkpoint d)"
    and data: "bytes \<noteq> []" "length bytes \<le> 4 * 1024 * 1024"
      "json_load parser default_limits (Some [bytes]) = Some (Ret (Inr \<lparr>vc_version = 1, vc_model = m\<rparr>))" "models m fw_v1"
    and lit: "\<And>x. float_literal (lit x)" and p3: "prints_back dump parser lit (document_at 3 fw_v3) bytes3"
  shows "\<exists>w'. fw_upgrade os dump parser (append_path d ''device.json'') fw_rt3 (fw_store d) w continue = continue w' \<and>
    fw_ready d bytes3 w' \<and> fw_captured os d bytes w'"
proof -
  let ?be = "json_backend dump parser default_limits" and ?cfg = "\<lparr>vc_version = 1, vc_model = m\<rparr>"
  have l: "loadBytes bytes ?be = Ret (Inr ?cfg)" by (rule json_backend_loads[OF data(1,3)])
  from fw_capture[OF d w l _ data(2) empty] obtain w1 where
    1: "cpCapture os (fw_store d) ?cfg ?be w = (w1, Ret (Inr ()))" "fw_ready d bytes w1"
    and f: "with_file (fw_checkpoint d) bytes (ancestors (append_path d ''device.checkpoints'')) (w_nodes w) (w_nodes w1)"
    by auto
  from fw_syncs(1)[OF data(4), of "()"] obtain cfg3 where
    s: "synchronize fw_rt3 () ?cfg 3 = Some ((), cfg3, Ret (Inr InSync))" "vc_version cfg3 = 3" "models (vc_model cfg3) fw_v3" by blast
  note j = fw_json[where parser = parser and dump = dump and lit = lit, OF s(3) disjI2[OF refl] lit, unfolded s(2), OF p3]
  from fw_commit[OF d 1(2) j(1)] obtain w2 where
    2: "cpCommit os (fw_store d) cfg3 ?be w1 = (w2, Ret (Inr ()))" "fw_ready d bytes3 w2"
      "with_file (append_path d ''device.json'') bytes3 (ancestors d) (w_nodes w1) (w_nodes w2)" by blast
  have c: "fw_captured os d bytes w2" by (rule fw_captured_alone[OF d f os empty fw_commit_keeps[OF d 2(3)]])
  note cand = fw_candidate[OF c l data(2)]
  from cand(1) obtain t where v: "verified (fw_store d) ?be None (w_nodes w2)
    \<lparr>lc_path = fw_checkpoint d, lc_source_version = 1, lc_modified = t, lc_config = ?cfg\<rparr>" by blast
  have "cpPrune os (fw_store d) ?be w2 = (w2, Ret (Inr \<lparr>pp_removed = [], pp_rejected = []\<rparr>))"
    using c 2(2) cand(2) by (intro quiet_prune_one[OF _ _ _ _ _ v]) (simp_all add: fw_captured_def fw_ready_def)
  moreover have "ss_status (inspect ?cfg 3) = UpgradeRequired" by (simp add: inspect_def)
  ultimately have "fw_upgrade os dump parser (append_path d ''device.json'') fw_rt3 (fw_store d) w continue = continue w2"
    by (simp add: fw_upgrade_def Let_def fw_loads[OF w data(1,3)] 1(1) 2(1) s(1))
  with 2(2) c show ?thesis by blast
qed

lemma fw_rollback_runs:
  assumes d: "plain_directory d" and w: "fw_ready d bytes3 w" "fw_captured os d bytes w"
    and data: "bytes \<noteq> []" "length bytes \<le> 4 * 1024 * 1024"
      "json_load parser default_limits (Some [bytes]) = Some (Ret (Inr \<lparr>vc_version = 1, vc_model = m\<rparr>))" "models m fw_v1"
    and newer: "bytes3 \<noteq> []" "json_load parser default_limits (Some [bytes3]) = Some (Ret (Inr \<lparr>vc_version = 3, vc_model = m3\<rparr>))"
    and lit: "\<And>x. float_literal (lit x)" and p2: "prints_back dump parser lit (document_at 2 fw_v2) bytes2"
  shows "\<exists>w'. fw_rollback os dump parser (append_path d ''device.json'') fw_rt2 (fw_store d) w = Some (w', Exit EXIT_SUCCESS) \<and>
    fw_ready d bytes2 w' \<and> w_nodes w' (fw_checkpoint d) = w_nodes w (fw_checkpoint d)"
proof -
  let ?be = "json_backend dump parser default_limits" and ?cfg = "\<lparr>vc_version = 1, vc_model = m\<rparr>"
  have l: "loadBytes bytes ?be = Ret (Inr ?cfg)" by (rule json_backend_loads[OF data(1,3)])
  from fw_syncs(2)[OF data(4), of "()"] obtain cfg2 where
    s: "synchronize fw_rt2 () ?cfg 2 = Some ((), cfg2, Ret (Inr InSync))" "vc_version cfg2 = 2" "models (vc_model cfg2) fw_v2" by blast
  note cand = fw_candidate[OF w(2) l data(2)]
  from cand(1) obtain t where v: "verified (fw_store d) ?be (Some 2) (w_nodes w)
    \<lparr>lc_path = fw_checkpoint d, lc_source_version = 1, lc_modified = t, lc_config = ?cfg\<rparr>" by blast
  have sup: "supportsVersion (fw_rt2 :: unit runtime) 2"
    by (simp add: supportsVersion_def cat_contains_iff runtime2_def wired)
  let ?pr = "\<lparr>pr_path = fw_checkpoint d, pr_source_version = 1, pr_config = cfg2\<rparr>"
  have r: "cpPrepareRestore os (fw_store d) ?be fw_rt2 2 () w = Some ((), w, Ret (Inr \<lparr>rs_candidate = Some ?pr, rs_rejected = []\<rparr>))"
    using quiet_restore_one[OF _ _ sup _ _ _ v, of os "()" "()" cfg2] w cand(2) s by (simp add: fw_captured_def fw_ready_def)
  note j = fw_json[where parser = parser and dump = dump and lit = lit, OF s(3) disjI1[OF refl] lit, unfolded s(2), OF p2]
  from fw_commit[OF d w(1) j(1)] obtain w1 where
    1: "cpCommit os (fw_store d) cfg2 ?be w = (w1, Ret (Inr ()))" "fw_ready d bytes2 w1"
      "with_file (append_path d ''device.json'') bytes2 (ancestors d) (w_nodes w) (w_nodes w1)" by blast
  from j(3) obtain m2 where m2: "json_load parser default_limits (Some [bytes2]) = Some (Ret (Inr \<lparr>vc_version = 2, vc_model = m2\<rparr>))" by blast
  have "fw_rollback os dump parser (append_path d ''device.json'') fw_rt2 (fw_store d) w = Some (w1, Exit EXIT_SUCCESS)"
    by (simp add: fw_rollback_def Let_def fw_loads[OF w(1) newer] fw_refuses r fw_accepts_v2[OF s(3,2)] 1(1) fw_loads[OF 1(2) j(2) m2])
  moreover have "w_nodes w1 (fw_checkpoint d) = w_nodes w (fw_checkpoint d)" by (rule fw_commit_keeps[OF d 1(3) fw_apart(5)[OF d]])
  ultimately show ?thesis using 1(2) by blast
qed

lemma fw_create:
  assumes "plain_directory d" "weakly_canonical (append_path d ''device.json'') = Inr (append_path d ''device.json'')"
    "weakly_canonical (append_path d ''device.checkpoints'') = Inr (append_path d ''device.checkpoints'')"
  shows "cpCreate weakly_canonical \<lparr>canonical_path = append_path d ''device.json'', checkpoint_directory = append_path d ''device.checkpoints'',
    retention = 2, max_file_bytes = 16 * 1024 * 1024\<rparr> = Inr (fw_store d)"
  using assms fw_parents(1)[OF assms(1)] append_plain[OF assms(1)]
  by (simp add: cpCreate_def validateOptions_def fw_store_def)

text \<open>The input is put in place.\<close>

lemma fw_setup:
  assumes d: "plain_directory d" and quiet: "w_answers w = []"
    and shipped: "w_nodes w source = Some (RegularFile bytes mode t)" "source \<noteq> append_path d ''device.json''"
      "\<not> below (append_path d ''device.checkpoints'') source"
    and free: "list_all (\<lambda>q. w_nodes w q = None \<or> w_nodes w q = Some Directory) (ancestors d)"
      "w_nodes w (append_path d ''device.json'') \<noteq> Some Directory" "\<And>q. temp_of (append_path d ''device.json'') q \<Longrightarrow> w_nodes w q = None"
  shows "\<exists>w1 w2 w3. fs_remove_all (append_path d ''device.checkpoints'') w = (w1, None) \<and> fs_create_directories d w1 = (w2, None) \<and>
    fs_copy_file source (append_path d ''device.json'') w2 = (w3, None) \<and> fw_ready d bytes w3 \<and>
    (\<forall>q. below (append_path d ''device.checkpoints'') q \<longrightarrow> w_nodes w3 q = None)"
proof -
  let ?dir = "append_path d ''device.checkpoints''" and ?can = "append_path d ''device.json''"
  define w1 where "w1 = put_nodes (\<lambda>q. if below ?dir q then None else w_nodes w q) w"
  have "list_all (\<lambda>q. w_nodes w1 q = None \<or> w_nodes w1 q = Some Directory) (ancestors d)"
    using free(1) by (auto simp: w1_def list_all_iff)
  from quiet_create_directories[OF _ this] quiet obtain log where l: "fs_create_directories d w1 =
      (w1\<lparr>w_nodes := (\<lambda>q. if q \<in> set (ancestors d) then Some Directory else w_nodes w1 q), w_log := log\<rparr>, None)"
    by (auto simp: w1_def)
  define w2 where "w2 = w1\<lparr>w_nodes := (\<lambda>q. if q \<in> set (ancestors d) then Some Directory else w_nodes w1 q), w_log := log\<rparr>"
  define w3 where "w3 = put_nodes ((w_nodes w2)(?can \<mapsto> RegularFile bytes mode (w_now w2))) w2"
  have q: "w_answers w1 = []" "w_answers w2 = []" "w_answers w3 = []" using quiet by (simp_all add: w1_def w2_def w3_def)
  have 1: "fs_remove_all ?dir w = (w1, None)" unfolding w1_def by (rule quiet_remove_all[OF quiet])
  have 2: "fs_create_directories d w1 = (w2, None)" unfolding w2_def by (rule l)
  have s: "source \<notin> set (ancestors d)" using shipped(1) free(1) by (auto simp: list_all_iff)
  have 3: "fs_copy_file source ?can w2 = (w3, None)" unfolding w3_def
  proof (rule quiet_copy_file[OF q(2)])
    show "w_nodes w2 source = Some (RegularFile bytes mode t)" using shipped s by (simp add: w2_def w1_def)
    show "w_nodes w2 ?can \<noteq> Some Directory" using free(2) fw_apart(7)[OF d] by (simp add: w2_def w1_def)
    have "d \<in> set (ancestors d)" by (subst ancestors.simps) simp
    then show "parent_present ?can w2" by (simp add: parent_present_def fw_parents(2)[OF d] w2_def)
  qed (rule shipped(2))
  have n: "w_nodes w3 = (\<lambda>q. if q \<in> set (ancestors d) then Some Directory else if below ?dir q then None else w_nodes w q)(?can \<mapsto> RegularFile bytes mode (w_now w2))"
    unfolding w3_def put_nodes_simps by (rule ext) (simp add: w2_def w1_def)
  have "fw_ready d bytes w3" unfolding fw_ready_def
  proof (intro conjI allI impI)
    show "w_nodes w3 q = None" if t: "temp_of ?can q" for q
      using free(3)[OF t] fw_apart(3)[OF d t] fw_parents(3)[OF d] t temp_of_irrefl[of ?can] by (auto simp: n)
  qed (use q(3) n fw_apart(7)[OF d] in \<open>auto simp: list_all_iff\<close>)
  moreover have "\<forall>q. below ?dir q \<longrightarrow> w_nodes w3 q = None" using fw_apart(1,6)[OF d] by (auto simp: n)
  ultimately show ?thesis using 1 2 3 by blast
qed

lemma fw_main_succeeds:
  assumes d: "plain_directory d" and quiet: "w_answers w = []"
    and shipped: "w_nodes w (append_path data_dir ''device_v1.json'') = Some (RegularFile bytes mode t)"
      "append_path data_dir ''device_v1.json'' \<noteq> append_path d ''device.json''"
      "\<not> below (append_path d ''device.checkpoints'') (append_path data_dir ''device_v1.json'')"
    and free: "list_all (\<lambda>q. w_nodes w q = None \<or> w_nodes w q = Some Directory) (ancestors d)"
      "w_nodes w (append_path d ''device.json'') \<noteq> Some Directory" "\<And>q. temp_of (append_path d ''device.json'') q \<Longrightarrow> w_nodes w q = None"
    and canonical: "weakly_canonical (append_path d ''device.json'') = Inr (append_path d ''device.json'')"
      "weakly_canonical (append_path d ''device.checkpoints'') = Inr (append_path d ''device.checkpoints'')"
    and os: "lists_the_one os (append_path d ''device.checkpoints'') (fw_checkpoint d)"
    and bytes: "parser bytes = (events_of fw_file, PDone)" "bytes \<noteq> []" "length bytes \<le> 4 * 1024 * 1024"
    and lit: "\<And>x. float_literal (lit x)" and p3: "prints_back dump parser lit (document_at 3 fw_v3) bytes3"
    and p2: "prints_back dump parser lit (document_at 2 fw_v2) bytes2"
  shows "\<exists>w'. fw_main os weakly_canonical dump parser data_dir d w = Some (w', Exit EXIT_SUCCESS) \<and>
    (\<exists>mode t. w_nodes w' (append_path d ''device.json'') = Some (RegularFile bytes2 mode t)) \<and>
    (\<exists>mode t. w_nodes w' (fw_checkpoint d) = Some (RegularFile bytes mode t))"
proof -
  from fw_setup[OF d quiet shipped free] obtain w1 w2 w3 where
    s: "fs_remove_all (append_path d ''device.checkpoints'') w = (w1, None)" "fs_create_directories d w1 = (w2, None)"
      "fs_copy_file (append_path data_dir ''device_v1.json'') (append_path d ''device.json'') w2 = (w3, None)" "fw_ready d bytes w3"
    and empty: "\<And>q. below (append_path d ''device.checkpoints'') q \<Longrightarrow> w_nodes w3 q = None" by blast
  have len: "length bytes \<le> maxInputBytes default_limits" using bytes(3) by (simp add: default_limits_def)
  from parsed_load[of parser, OF bytes(1,2) len fw_file_loads] obtain m where
    m: "json_load parser default_limits (Some [bytes]) = Some (Ret (Inr \<lparr>vc_version = 1, vc_model = m\<rparr>))" "models m fw_v1" by blast
  from fw_syncs(1)[OF m(2), of "()"] obtain cfg3 :: vconfig where c3: "vc_version cfg3 = 3" "models (vc_model cfg3) fw_v3" by blast
  note j3 = fw_json[where parser = parser and dump = dump and lit = lit, OF c3(2) disjI2[OF refl] lit, unfolded c3(1), OF p3]
  from j3(3) obtain m3 where m3: "json_load parser default_limits (Some [bytes3]) = Some (Ret (Inr \<lparr>vc_version = 3, vc_model = m3\<rparr>))" by blast
  let ?roll = "\<lambda>w. fw_rollback os dump parser (append_path d ''device.json'') fw_rt2 (fw_store d) w"
  from fw_upgrade_runs[OF d s(4) empty os bytes(2,3) m lit p3, of ?roll] obtain w4 where
    4: "fw_upgrade os dump parser (append_path d ''device.json'') fw_rt3 (fw_store d) w3 ?roll = ?roll w4"
      "fw_ready d bytes3 w4" "fw_captured os d bytes w4" by blast
  from fw_rollback_runs[OF d 4(2,3) bytes(2,3) m j3(2) m3 lit p2] obtain w5 where
    5: "?roll w4 = Some (w5, Exit EXIT_SUCCESS)" "fw_ready d bytes2 w5" "w_nodes w5 (fw_checkpoint d) = w_nodes w4 (fw_checkpoint d)" by blast
  have "fw_main os weakly_canonical dump parser data_dir d w = Some (w5, Exit EXIT_SUCCESS)"
    using 4(1) 5(1) fw_create[OF d canonical] by (simp add: fw_main_def Let_def s fw_runtimes_ok)
  with 5 4(3) show ?thesis by (auto simp: fw_ready_def fw_captured_def)
qed

end
