(* ===== verification/Example_Sensorbridge.thy ===== *)
theory Example_Sensorbridge
  imports Example_Files Xml_Save
begin

text \<open>
  \<open>examples/04_sensorbridge_xml.cpp\<close>: the runtime over the XML backend and files, and the corners of
  the XML mapping, a member named \<open>version\<close>, a key that is no element name, and the round trip. The
  XML parser and printer and \<open>std::to_chars\<close> are arguments, as they are of the backend.
\<close>

section \<open>Default factories and the migration\<close>

text \<open>1.0, 0.5 and 2.5.\<close>

definition sb_one :: double where "sb_one = 0x3FF0000000000000"
definition sb_half :: double where "sb_half = 0x3FE0000000000000"
definition sb_scale :: double where "sb_scale = 0x4004000000000000"

definition sb_defaultSensors :: "config_value option" where
  "sb_defaultSensors = do {
     sensor \<leftarrow> set_of cv_object ''id'' (CStr (Some ''internal''));
     sensor \<leftarrow> set_of sensor ''enabled'' (CBool True);
     sensor \<leftarrow> set_of sensor ''scale'' (CFloat sb_one);
     cv_push cv_array sensor }"

definition sb_v1Defaults :: "config_value option" where
  "sb_v1Defaults = do {
     root \<leftarrow> set_of cv_object ''device_name'' (CStr (Some ''sensorbridge''));
     root \<leftarrow> set_of root ''poll_interval_ms'' (CSigned 1000);
     root \<leftarrow> set_of root ''notes'' (CStr (Some []));
     root \<leftarrow> cv_set root ''last_error'' (Scal SNull);
     sensors \<leftarrow> sb_defaultSensors;
     cv_set root ''sensors'' sensors }"

definition sb_v2Defaults :: "config_value option" where
  "sb_v2Defaults = do {
     device \<leftarrow> set_of cv_object ''name'' (CStr (Some ''sensorbridge''));
     polling \<leftarrow> set_of cv_object ''interval_ms'' (CSigned 1000);
     polling \<leftarrow> set_of polling ''jitter_pct'' (CSigned 5);
     root \<leftarrow> cv_set cv_object ''device'' device;
     root \<leftarrow> cv_set root ''polling'' polling;
     root \<leftarrow> set_of root ''notes'' (CStr (Some []));
     root \<leftarrow> cv_set root ''last_error'' (Scal SNull);
     sensors \<leftarrow> sb_defaultSensors;
     cv_set root ''sensors'' sensors }"

definition sb_migrateV1ToV2 :: "cmodel \<Rightarrow> (cmodel \<times> (error + unit)) option" where
  "sb_migrateV1ToV2 model =
     then_with (moveKey model ''device_name'' ''device.name'') (\<lambda>model _.
     moveKey model ''poll_interval_ms'' ''polling.interval_ms'')"

definition sb_kLatest :: version_id where "sb_kLatest = 2"

definition sb_runtime :: "'s runtime run" where
  "sb_runtime = (let
     (catalog, r1) = registerVersion [] \<lparr>va_version = 1, va_factory = Some (factory sb_v1Defaults)\<rparr>;
     (catalog, r2) = registerVersion catalog \<lparr>va_version = 2, va_factory = Some (factory sb_v2Defaults)\<rparr>;
     (registry, r3) = registerMigration [] 1 2 (Some (migration sb_migrateV1ToV2))
   in do_all [r1, r2, r3] (orDie (rt_create catalog registry)))"

section \<open>Files\<close>

definition sb_loadFile :: "xml_parser \<Rightarrow> path \<Rightarrow> world \<Rightarrow> (world \<times> (error + vconfig)) option" where
  "sb_loadFile parser p w = (case open_in p w of
     (w1, None) \<Rightarrow> Some (w1, fail ParseError (''cannot open '' @ p @ '' for reading''))
   | (w1, Some chunks) \<Rightarrow> map_option (Pair w1) (xml_load parser default_limits (Some chunks)))"

definition sb_saveFile :: "(double \<Rightarrow> string) \<Rightarrow> (xml \<Rightarrow> string) \<Rightarrow> vconfig \<Rightarrow> path \<Rightarrow> world \<Rightarrow> (world \<times> (error + unit)) option" where
  "sb_saveFile fmt print config p w = (case open_out p w of
     (w1, False) \<Rightarrow> Some (w1, fail SerializationError (''cannot open '' @ p @ '' for writing''))
   | (w1, True) \<Rightarrow> (case next_answer w1 of (a, w2) \<Rightarrow> do {
       (text, r) \<leftarrow> xml_save fmt print config (\<lambda>t. stream_takes a);
       Some (close_out p (stream_holds a text) w2, r) }))"

definition toXmlText :: "(double \<Rightarrow> string) \<Rightarrow> (xml \<Rightarrow> string) \<Rightarrow> vconfig \<Rightarrow> string run option" where
  "toXmlText fmt print config = do {
     (text, r) \<leftarrow> xml_save fmt print config (\<lambda>t. True);
     Some (case orDie r of Inl e \<Rightarrow> Inl e | Inr _ \<Rightarrow> Inr (stream_holds Succeeds text)) }"

text \<open>\<open>text.find(s) != npos\<close>, and the stream buffer over a string.\<close>

definition occurs_in :: "string \<Rightarrow> string \<Rightarrow> bool" where
  "occurs_in s t \<longleftrightarrow> list_ex (\<lambda>i. take (length s) (drop i t) = s) [0..<Suc (length t)]"

definition string_stream :: "string \<Rightarrow> string list" where
  "string_stream t = (if t = [] then [] else [t])"

section \<open>The phases\<close>

definition sb_load_expected :: "(cpp_type \<times> string \<times> cpp_value) list" where
  "sb_load_expected = [
     (TyString, ''device_name'', VString ''bench-rig-07''),
     (TyInteger True 64, ''poll_interval_ms'', VInteger 250),
     (TyString, ''sensors[1].id'', VString ''thermo-b''),
     (TyBool, ''sensors[1].enabled'', VBool False),
     (TyDouble, ''sensors[1].scale'', VDouble sb_scale)]"

definition sb_load :: "xml_parser \<Rightarrow> path \<Rightarrow> world \<Rightarrow> (world \<Rightarrow> vconfig \<Rightarrow> process_run) \<Rightarrow> process_run" where
  "sb_load parser shipped w continue = do {
     (w, r) \<leftarrow> sb_loadFile parser shipped w;
     next_in w (orDie r) (\<lambda>config.
     fail_in w (vc_version config \<noteq> 1) (do {
     expected \<leftarrow> expectAll (vc_model config) sb_load_expected;
     next_in w expected (\<lambda>_. continue w config) })) }"

definition sb_upgrade_expected :: "(cpp_type \<times> string \<times> cpp_value) list" where
  "sb_upgrade_expected = [
     (TyString, ''device.name'', VString ''bench-rig-07''),
     (TyInteger True 64, ''polling.interval_ms'', VInteger 250),
     (TyInteger True 64, ''polling.jitter_pct'', VInteger 5)]"

definition sb_upgrade :: "unit runtime \<Rightarrow> world \<Rightarrow> vconfig \<Rightarrow> (world \<Rightarrow> vconfig \<Rightarrow> process_run) \<Rightarrow> process_run" where
  "sb_upgrade runtime w config continue = fail_in w (ss_status (inspect config sb_kLatest) \<noteq> UpgradeRequired) (do {
     (_, config, r) \<leftarrow> synchronize runtime () config sb_kLatest;
     next_in w (orDie_call r) (\<lambda>_. do {
     expected \<leftarrow> expectAll (vc_model config) sb_upgrade_expected;
     next_in w expected (\<lambda>_. continue w config) }) })"

definition sb_save ::
    "(double \<Rightarrow> string) \<Rightarrow> (xml \<Rightarrow> string) \<Rightarrow> path \<Rightarrow> world \<Rightarrow> vconfig \<Rightarrow> (world \<Rightarrow> process_run) \<Rightarrow> process_run" where
  "sb_save fmt print configFile w config continue = do {
     (w, r) \<leftarrow> sb_saveFile fmt print config configFile w;
     next_in w (orDie r) (\<lambda>_. do {
     emitted \<leftarrow> toXmlText fmt print config;
     next_in w emitted (\<lambda>emitted.
     fail_in w (\<not> occurs_in ''<config version=\"2\">'' emitted \<or> \<not> occurs_in ''<jitter_pct type=\"int\">5</jitter_pct>'' emitted)
       (continue w)) }) }"

definition sb_version_member ::
    "(double \<Rightarrow> string) \<Rightarrow> (xml \<Rightarrow> string) \<Rightarrow> xml_parser \<Rightarrow> world \<Rightarrow> vconfig \<Rightarrow> (vconfig \<Rightarrow> process_run) \<Rightarrow> process_run" where
  "sb_version_member fmt print parser w config continue = do {
     (m, r) \<leftarrow> cm_set_scalar (vc_model config) ''version'' (CStr (Some ''the operator wrote this''));
     next_in w (orDie r) (\<lambda>_. do {
     let config = config\<lparr>vc_model := m\<rparr>;
     emitted \<leftarrow> toXmlText fmt print config;
     next_in w emitted (\<lambda>emitted. do {
     loaded \<leftarrow> xml_load parser default_limits (Some (string_stream emitted));
     next_in w (orDie loaded) (\<lambda>reloaded. do {
     expected \<leftarrow> expectAll (vc_model reloaded) [(TyString, ''version'', VString ''the operator wrote this'')];
     next_in w expected (\<lambda>_.
     fail_in w (vc_version reloaded \<noteq> sb_kLatest) (do {
     (m, r) \<leftarrow> cm_remove (vc_model config) ''version'';
     next_in w (orDie r) (\<lambda>_. continue (config\<lparr>vc_model := m\<rparr>)) })) }) }) }) }"

definition sb_bad_name ::
    "(double \<Rightarrow> string) \<Rightarrow> (xml \<Rightarrow> string) \<Rightarrow> world \<Rightarrow> vconfig \<Rightarrow> (vconfig \<Rightarrow> process_run) \<Rightarrow> process_run" where
  "sb_bad_name fmt print w config continue = do {
     (m, r) \<leftarrow> cm_set (vc_model config) ''2fast'' (Scal (SBool True));
     next_in w (orDie r) (\<lambda>_. do {
     let config = config\<lparr>vc_model := m\<rparr>;
     (text, saved) \<leftarrow> xml_save fmt print config (\<lambda>t. True);
     fail_in w (not_failed_with SerializationError saved) (do {
     (m, r) \<leftarrow> cm_remove (vc_model config) ''2fast'';
     next_in w (orDie r) (\<lambda>_. continue (config\<lparr>vc_model := m\<rparr>)) }) }) }"

definition sb_roundtrip :: "(double \<Rightarrow> string) \<Rightarrow> (xml \<Rightarrow> string) \<Rightarrow> xml_parser \<Rightarrow> path \<Rightarrow> world \<Rightarrow> vconfig \<Rightarrow> process_run" where
  "sb_roundtrip fmt print parser configFile w config = do {
     (w, r) \<leftarrow> sb_loadFile parser configFile w;
     next_in w (orDie r) (\<lambda>reloaded. do {
     again \<leftarrow> toXmlText fmt print reloaded;
     next_in w again (\<lambda>again. do {
     before \<leftarrow> toXmlText fmt print config;
     next_in w before (\<lambda>before. fail_in w (again \<noteq> before) (Some (w, Exit EXIT_SUCCESS))) }) }) }"

definition sb_main :: "(double \<Rightarrow> string) \<Rightarrow> (xml \<Rightarrow> string) \<Rightarrow> xml_parser \<Rightarrow> path \<Rightarrow> path \<Rightarrow> world \<Rightarrow> process_run" where
  "sb_main fmt print parser dataDir outDir w = next_in w sb_runtime (\<lambda>runtime. let configFile = append_path outDir ''sensorbridge.xml'' in
     case fs_create_directories outDir w of
       (w, Some thrown) \<Rightarrow> Some (w, Terminate)
     | (w, None) \<Rightarrow>
         sb_load parser (append_path dataDir ''sensorbridge_v1.xml'') w (\<lambda>w config.
         sb_upgrade runtime w config (\<lambda>w config.
         sb_save fmt print configFile w config (\<lambda>w.
         sb_version_member fmt print parser w config (\<lambda>config.
         sb_bad_name fmt print w config (\<lambda>config.
         sb_roundtrip fmt print parser configFile w config))))))"

section \<open>The configurations it goes through\<close>

definition sb_sensors :: config_value where
  "sb_sensors = Arr [Obj [(''id'', Scal (SString ''thermo-a'')), (''enabled'', Scal (SBool True)), (''scale'', Scal (SDouble sb_half))],
     Obj [(''id'', Scal (SString ''thermo-b'')), (''enabled'', Scal (SBool False)), (''scale'', Scal (SDouble sb_scale))]]"

definition sb_common :: "(string \<times> config_value) list" where
  "sb_common = [(''notes'', Scal (SString ''calibrated 2026-06-30'')), (''last_error'', Scal SNull), (''sensors'', sb_sensors)]"

text \<open>The shipped file, and what the upgrade makes of it.\<close>

definition sb_v1 :: config_value where
  "sb_v1 = Obj ([(''device_name'', Scal (SString ''bench-rig-07'')), (''poll_interval_ms'', Scal (SInt 250))] @ sb_common)"

definition sb_device :: "(string \<times> config_value) list \<Rightarrow> (string \<times> config_value) list" where
  "sb_device polling = [(''device'', Obj [(''name'', Scal (SString ''bench-rig-07''))]), (''polling'', Obj ((''interval_ms'', Scal (SInt 250)) # polling))]"

definition sb_v2 :: config_value where
  "sb_v2 = Obj (sb_common @ sb_device [(''jitter_pct'', Scal (SInt 5))])"

definition sb_v2_with :: "string \<Rightarrow> scalar \<Rightarrow> config_value" where
  "sb_v2_with k s = Obj (sb_common @ sb_device [(''jitter_pct'', Scal (SInt 5))] @ [(k, Scal s)])"

lemmas sb_values = sb_v1_def sb_v2_def sb_v2_with_def sb_common_def sb_device_def sb_sensors_def

lemma sb_defaults:
  "sb_v2Defaults = Some (Obj [(''device'', Obj [(''name'', Scal (SString ''sensorbridge''))]),
     (''polling'', Obj [(''interval_ms'', Scal (SInt 1000)), (''jitter_pct'', Scal (SInt 5))]), (''notes'', Scal (SString [])),
     (''last_error'', Scal SNull), (''sensors'', Arr [Obj [(''id'', Scal (SString ''internal'')), (''enabled'', Scal (SBool True)),
       (''scale'', Scal (SDouble sb_one))]])])"
  by (simp add: sb_v2Defaults_def sb_defaultSensors_def cv_object_def cv_array_def cv_push_def cv_set_def)

lemma sb_runtime_ok: "sb_runtime = Inr (runtime2 sb_v1Defaults sb_v2Defaults sb_migrateV1ToV2)"
  by (simp add: sb_runtime_def registered_two registered_migrations runtimes_created)

abbreviation sb_rt :: "'s runtime" where
  "sb_rt \<equiv> runtime2 sb_v1Defaults sb_v2Defaults sb_migrateV1ToV2"

lemma sb_paths:
  "cp_parse ''device_name'' = Inr [Key ''device_name'']" "cp_parse ''poll_interval_ms'' = Inr [Key ''poll_interval_ms'']"
  "cp_parse ''version'' = Inr [Key ''version'']" "cp_parse ''2fast'' = Inr [Key ''2fast'']"
  "cp_parse ''device.name'' = Inr [Key ''device'', Key ''name'']" "cp_parse ''polling.interval_ms'' = Inr [Key ''polling'', Key ''interval_ms'']"
  "cp_parse ''polling.jitter_pct'' = Inr [Key ''polling'', Key ''jitter_pct'']"
  "cp_parse ''sensors[1].id'' = Inr [Key ''sensors'', Index 1, Key ''id'']"
  "cp_parse ''sensors[1].enabled'' = Inr [Key ''sensors'', Index 1, Key ''enabled'']"
  "cp_parse ''sensors[1].scale'' = Inr [Key ''sensors'', Index 1, Key ''scale'']"
  using cp_parse_key[of "''device_name''"] cp_parse_key[of "''poll_interval_ms''"] cp_parse_key[of "''version''"] cp_parse_key[of "''2fast''"]
    parse_dotted[of "''device''" "''name''"] parse_dotted[of "''polling''" "''interval_ms''"] parse_dotted[of "''polling''" "''jitter_pct''"]
    cp_parse_render[of "[Key ''sensors'', Index 1, Key ''id'']"] cp_parse_render[of "[Key ''sensors'', Index 1, Key ''enabled'']"]
    cp_parse_render[of "[Key ''sensors'', Index 1, Key ''scale'']"]
  by (simp_all add: isAddressableKey_def is_reserved_def wf_path_def nat_str.simps char_of_def bit_0 size_t_max_def)

lemma sb_room: "room_for (Obj (sb_common @ ms)) c" if "mnodes ms + cv_nodes c \<le> 100"
  using that by (simp add: room_for_def sb_common_def sb_sensors_def kMaxTreeDepth_def kNodeIdNone_def fold_mnodes)

lemma sb_migrate:
  assumes m: "models m sb_v1"
  shows "\<exists>m'. sb_migrateV1ToV2 m = Some (m', Inr ()) \<and> models m' (Obj (sb_common @ sb_device []))"
proof -
  let ?p = "(''poll_interval_ms'', Scal (SInt 250))" and ?d = "(''device'', Obj [(''name'', Scal (SString ''bench-rig-07''))])"
  have "spec_get sb_v1 ''device_name'' = Inr (Scal (SString ''bench-rig-07''))"
    "spec_set sb_v1 ''device.name'' (Scal (SString ''bench-rig-07'')) =
      Inr (Obj ([(''device_name'', Scal (SString ''bench-rig-07'')), ?p] @ sb_common @ [?d]))"
    "spec_remove (Obj ([(''device_name'', Scal (SString ''bench-rig-07'')), ?p] @ sb_common @ [?d])) ''device_name'' = Inr (Obj (?p # sb_common @ [?d]))"
    by (simp_all add: spec_get_def spec_set_def spec_remove_def sb_paths sb_v1_def sb_common_def kMaxTreeDepth_def)
  from moveKey_tree[OF m this] obtain m1 where
    1: "moveKey m ''device_name'' ''device.name'' = Some (m1, Inr ())" "models m1 (Obj (?p # sb_common @ [?d]))"
    by (auto simp: sb_values room_for_def kMaxTreeDepth_def kNodeIdNone_def)
  have "spec_get (Obj (?p # sb_common @ [?d])) ''poll_interval_ms'' = Inr (Scal (SInt 250))"
    "spec_set (Obj (?p # sb_common @ [?d])) ''polling.interval_ms'' (Scal (SInt 250)) =
      Inr (Obj (?p # sb_common @ [?d, (''polling'', Obj [(''interval_ms'', Scal (SInt 250))])]))"
    "spec_remove (Obj (?p # sb_common @ [?d, (''polling'', Obj [(''interval_ms'', Scal (SInt 250))])])) ''poll_interval_ms'' =
      Inr (Obj (sb_common @ sb_device []))"
    by (simp_all add: spec_get_def spec_set_def spec_remove_def sb_paths sb_common_def sb_device_def kMaxTreeDepth_def)
  from moveKey_tree[OF 1(2) this] obtain m2 where
    "moveKey m1 ''poll_interval_ms'' ''polling.interval_ms'' = Some (m2, Inr ())" "models m2 (Obj (sb_common @ sb_device []))"
    by (auto simp: sb_values room_for_def kMaxTreeDepth_def kNodeIdNone_def)
  then show ?thesis using 1(1) by (simp add: sb_migrateV1ToV2_def)
qed

lemma sb_fill: "good_default (Obj (sb_common @ sb_device [])) (the sb_v2Defaults)"
  "fill (the sb_v2Defaults) (Obj (sb_common @ sb_device [])) = sb_v2"
  by (auto simp: good_default_def sb_defaults sb_values room_for_def kMaxTreeDepth_def kNodeIdNone_def
      wf_model_value_def isAddressableKey_def is_reserved_def)

lemma sb_sync:
  assumes "models m sb_v1"
  shows "\<exists>cfg. synchronize sb_rt s \<lparr>vc_version = 1, vc_model = m\<rparr> 2 = Some (s, cfg, Ret (Inr InSync)) \<and>
      vc_version cfg = 2 \<and> models (vc_model cfg) sb_v2"
proof -
  from sb_migrate[OF assms] obtain m' where f: "sb_migrateV1ToV2 m = Some (m', Inr ())" "models m' (Obj (sb_common @ sb_device []))" by blast
  show ?thesis using upgrade2[where f = sb_migrateV1ToV2, OF f sb_fill(1)] unfolding sb_fill(2) .
qed

text \<open>The reads the program checks.\<close>

lemma read_double [simp]: "convertScalar TyDouble (SDouble d) = Inr (VDouble d)"
  by (simp add: convertScalar_def)

lemma sb_expects:
  "models m sb_v1 \<Longrightarrow> expectAll m sb_load_expected = Some (Inr ())"
  "models m sb_v2 \<Longrightarrow> expectAll m sb_upgrade_expected = Some (Inr ())"
  by (simp_all add: expectAll_def sb_load_expected_def sb_upgrade_expected_def cm_get_models spec_read_def spec_get_def sb_paths sb_values)

section \<open>An XML library that reads back what it prints\<close>

definition xml_at :: "(double \<Rightarrow> string) \<Rightarrow> version_id \<Rightarrow> config_value \<Rightarrow> xml" where
  "xml_at fmt version v = XElement kRootName [(kVersionAttr, nat_str (unat version))] (map (\<lambda>(k, v). element_of fmt v k) (cv_members v))"

lemma root_element_at: "root_element fmt config v = xml_at fmt (vc_version config) v"
  by (simp add: root_element_def xml_at_def)

definition xml_prints_back :: "(xml \<Rightarrow> string) \<Rightarrow> xml_parser \<Rightarrow> xml \<Rightarrow> bool" where
  "xml_prints_back print parser root \<longleftrightarrow> print root \<noteq> [] \<and> length (print root) \<le> maxInputBytes default_limits \<and>
     (\<exists>doc. parser (print root) = Inr doc \<and> laid_out formatted [root] doc)"

lemma xml_saves:
  assumes "models (vc_model config) v" "saveable v"
  shows "xml_save fmt print config ok = Some (Some (print (xml_at fmt (vc_version config) v)),
    if ok (print (xml_at fmt (vc_version config) v)) then Inr () else fail SerializationError ''failed to write XML document to stream'')"
    "toXmlText fmt print config = Some (Inr (print (xml_at fmt (vc_version config) v)))"
  using xml_save_emits[OF assms(1), of fmt print] assms(2) by (simp_all add: toXmlText_def root_element_at)

lemma xml_reloads:
  assumes "models (vc_model (config :: vconfig)) v" "saveable v" "cv_nodes v \<le> maxNodes default_limits" "to_chars_ok fmt"
    and "xml_prints_back print parser (xml_at fmt (vc_version config) v)"
  shows "\<exists>m. xml_load parser default_limits (Some [print (xml_at fmt (vc_version config) v)]) =
    Some (Inr \<lparr>vc_version = vc_version config, vc_model = m\<rparr>) \<and> models m v"
proof -
  let ?t = "print (xml_at fmt (vc_version config) v)"
  from assms(5) obtain doc where doc: "?t \<noteq> []" "length ?t \<le> maxInputBytes default_limits" "parser ?t = Inr doc"
    "laid_out formatted [root_element fmt config v] doc" unfolding xml_prints_back_def root_element_at by blast
  have c: "concat [?t] = ?t" "[] \<notin> set [?t]" using doc(1) by simp_all
  have t: "?t = print (root_element fmt config v)" by (simp add: root_element_at)
  show ?thesis by (rule xml_roundtrip(2)[where parser = parser and fmt = fmt and print = print, OF assms(1-3) default_limits_bounds assms(4) t doc(3,4) c doc(2)])
qed

lemma sb_finite: "isfinite sb_half" "isfinite sb_scale" "isfinite sb_one"
  by (simp_all add: sb_half_def sb_scale_def sb_one_def isfinite_def decode64_def Let_def)

lemma sb_names:
  "isValidElementName ''device''" "isValidElementName ''name''" "isValidElementName ''polling''" "isValidElementName ''interval_ms''"
  "isValidElementName ''jitter_pct''" "isValidElementName ''notes''" "isValidElementName ''last_error''" "isValidElementName ''sensors''"
  "isValidElementName ''id''" "isValidElementName ''enabled''" "isValidElementName ''scale''" "isValidElementName ''version''"
  "\<not> isValidElementName ''2fast''"
  by (simp_all add: isValidElementName_def all_code_points_ascii isNameStartChar_def isNameChar_def)

lemma sb_texts: "isXmlRepresentable ''bench-rig-07''" "isXmlRepresentable ''calibrated 2026-06-30''" "isXmlRepresentable ''thermo-a''"
  "isXmlRepresentable ''thermo-b''" "isXmlRepresentable ''the operator wrote this''"
  by (simp_all add: isXmlRepresentable_def all_code_points_ascii)

lemma sb_saveable: "saveable sb_v2" "saveable (sb_v2_with ''version'' (SString ''the operator wrote this''))"
  "\<not> saveable (sb_v2_with ''2fast'' (SBool True))"
  using sb_finite[unfolded isfinite_def] by (simp_all add: sb_values sb_names sb_texts)

section \<open>The phases, when no call fails\<close>

lemma sb_file:
  assumes "w_answers w = []" "holds_bytes w p bytes" "bytes \<noteq> []" "xml_load parser default_limits (Some [bytes]) = Some r"
  shows "sb_loadFile parser p w = Some (w, r)"
  using assms by (auto simp: sb_loadFile_def quiet_open_in holds_bytes_def)

lemma sb_file_loads:
  assumes "parser bytes = Inr doc" "xml_document default_limits doc = Inr (1, sb_v1)" "bytes \<noteq> []" "length bytes \<le> 4 * 1024 * 1024"
  shows "\<exists>m. xml_load parser default_limits (Some [bytes]) = Some (Inr \<lparr>vc_version = 1, vc_model = m\<rparr>) \<and> models m sb_v1"
proof -
  have "length bytes \<le> maxInputBytes default_limits" using assms(4) by (simp add: default_limits_def)
  then have "readBounded ''XML'' (Some [bytes]) (maxInputBytes default_limits) = Inr bytes"
    using readBounded_spec[of "[bytes]" "maxInputBytes default_limits" "''XML''"] default_limits_bounds(2) assms(3) by simp
  then have "xml_spec_load parser default_limits (Some [bytes]) = Inr (1, sb_v1)" by (simp add: xml_spec_load_def assms(1,2))
  with xml_load_models[OF default_limits_bounds(1), of parser "Some [bytes]"] show ?thesis by simp
qed

lemma sb_save_runs:
  assumes q: "w_answers w = []" and p: "w_nodes w p \<noteq> Some Directory" "parent_present p w"
    and m: "models (vc_model config) sb_v2" "vc_version config = 2"
    and seen: "occurs_in ''<config version=\"2\">'' (print (xml_at fmt 2 sb_v2))"
      "occurs_in ''<jitter_pct type=\"int\">5</jitter_pct>'' (print (xml_at fmt 2 sb_v2))"
  shows "\<exists>w'. sb_save fmt print p w config continue = continue w' \<and> w_answers w' = [] \<and> holds_bytes w' p (print (xml_at fmt 2 sb_v2))"
proof -
  let ?t = "print (xml_at fmt 2 sb_v2)"
  from quiet_open_out[OF q p] obtain mode where
    o: "open_out p w = (put_nodes ((w_nodes w)(p \<mapsto> RegularFile [] mode (w_now w))) w, True)" by blast
  let ?w1 = "put_nodes ((w_nodes w)(p \<mapsto> RegularFile [] mode (w_now w))) w"
  let ?w2 = "put_nodes ((w_nodes ?w1)(p \<mapsto> RegularFile ?t mode (w_now ?w1))) ?w1"
  have c: "close_out p ?t ?w1 = ?w2" using q by (intro quiet_close_out[of _ _ mode "w_now w"]) simp_all
  note s = xml_saves[where fmt = fmt and print = print, OF m(1) sb_saveable(1), unfolded m(2)]
  have "sb_saveFile fmt print config p w = Some (?w2, Inr ())"
    using q c by (simp add: sb_saveFile_def o quiet_answer s(1))
  then have "sb_save fmt print p w config continue = continue ?w2"
    using seen by (simp add: sb_save_def s(2))
  then show ?thesis using q by (intro exI[of _ ?w2]) (simp add: holds_bytes_def)
qed

lemma sb_member:
  assumes m: "models m sb_v2" and k: "cp_parse k = Inr [Key k]" "k \<notin> {''device'', ''polling'', ''notes'', ''last_error'', ''sensors''}"
  shows "\<exists>m'. cm_set m k (Scal s) = Some (m', Inr ()) \<and> models m' (sb_v2_with k s)"
    "models m' (sb_v2_with k s) \<Longrightarrow> \<exists>m''. cm_remove m' k = Some (m'', Inr ()) \<and> models m'' sb_v2"
proof -
  have "spec_set sb_v2 k (Scal s) = Inr (sb_v2_with k s)" using k(2) by (simp add: spec_set_def k(1) sb_values kMaxTreeDepth_def)
  from set_ok[OF m this] show "\<exists>m'. cm_set m k (Scal s) = Some (m', Inr ()) \<and> models m' (sb_v2_with k s)"
    by (auto simp: sb_values room_for_def kMaxTreeDepth_def kNodeIdNone_def)
  have r: "spec_remove (sb_v2_with k s) k = Inr sb_v2" using k(2) by (auto simp: spec_remove_def k(1) sb_values)
  show "models m' (sb_v2_with k s) \<Longrightarrow> \<exists>m''. cm_remove m' k = Some (m'', Inr ()) \<and> models m'' sb_v2"
    using remove_ok[OF _ r] by metis
qed

lemma sb_nodes: "cv_nodes sb_v2 \<le> maxNodes default_limits" "cv_nodes (sb_v2_with k s) \<le> maxNodes default_limits"
  by (simp_all add: sb_values default_limits_def)

lemma sb_version_member_runs:
  assumes m: "models (vc_model config) sb_v2" "vc_version config = 2" and fmt: "to_chars_ok fmt"
    and p: "xml_prints_back print parser (xml_at fmt 2 (sb_v2_with ''version'' (SString ''the operator wrote this'')))"
  shows "\<exists>m'. sb_version_member fmt print parser w config continue = continue (config\<lparr>vc_model := m'\<rparr>) \<and> models m' sb_v2"
proof -
  let ?v = "sb_v2_with ''version'' (SString ''the operator wrote this'')" and ?s = "SString ''the operator wrote this''"
  from sb_member(1)[OF m(1) sb_paths(3), of ?s] obtain m1 where
    1: "cm_set (vc_model config) ''version'' (Scal ?s) = Some (m1, Inr ())" "models m1 ?v" by auto
  from sb_member(2)[OF m(1) sb_paths(3), of m1 ?s] 1(2) obtain m2 where
    2: "cm_remove m1 ''version'' = Some (m2, Inr ())" "models m2 sb_v2" by auto
  let ?c = "config\<lparr>vc_model := m1\<rparr>"
  have c: "models (vc_model ?c) ?v" "vc_version ?c = 2" using 1(2) m(2) by simp_all
  note s = xml_saves(2)[where fmt = fmt and print = print, OF c(1) sb_saveable(2), unfolded c(2)]
  from xml_reloads[where print = print and parser = parser and fmt = fmt, OF c(1) sb_saveable(2) sb_nodes(2) fmt, unfolded c(2), OF p] obtain mr where
    r: "xml_load parser default_limits (Some [print (xml_at fmt 2 ?v)]) = Some (Inr \<lparr>vc_version = 2, vc_model = mr\<rparr>)" "models mr ?v" by blast
  have n: "string_stream (print (xml_at fmt 2 ?v)) = [print (xml_at fmt 2 ?v)]" using p by (simp add: string_stream_def xml_prints_back_def)
  have e: "expectAll mr [(TyString, ''version'', VString ''the operator wrote this'')] = Some (Inr ())"
    by (simp add: expectAll_def cm_get_models[OF r(2)] spec_read_def spec_get_def sb_paths sb_values)
  have "sb_version_member fmt print parser w config continue = continue (config\<lparr>vc_model := m2\<rparr>)"
    by (simp add: sb_version_member_def set_scalar_text 1(1) s n r(1) e sb_kLatest_def 2(1))
  with 2(2) show ?thesis by blast
qed

lemma sb_bad_name_runs:
  assumes m: "models (vc_model config) sb_v2"
  shows "\<exists>m'. sb_bad_name fmt print w config continue = continue (config\<lparr>vc_model := m'\<rparr>) \<and> models m' sb_v2"
proof -
  let ?v = "sb_v2_with ''2fast'' (SBool True)"
  from sb_member(1)[OF m sb_paths(4), of "SBool True"] obtain m1 where
    1: "cm_set (vc_model config) ''2fast'' (Scal (SBool True)) = Some (m1, Inr ())" "models m1 ?v" by auto
  from sb_member(2)[OF m sb_paths(4), of m1 "SBool True"] 1(2) obtain m2 where
    2: "cm_remove m1 ''2fast'' = Some (m2, Inr ())" "models m2 sb_v2" by auto
  have c: "models (vc_model (config\<lparr>vc_model := m1\<rparr>)) ?v" using 1(2) by simp
  from xml_save_emits[OF c, of fmt print "\<lambda>t. True"] sb_saveable(3) obtain e where
    e: "xml_save fmt print (config\<lparr>vc_model := m1\<rparr>) (\<lambda>t. True) = Some (None, Inl e)" "err_code e = SerializationError" by auto
  have "\<not> not_failed_with SerializationError (Inl e :: error + unit)" by (simp add: not_failed_with_def e(2))
  then have "sb_bad_name fmt print w config continue = continue (config\<lparr>vc_model := m2\<rparr>)"
    by (simp add: sb_bad_name_def 1(1) e(1) 2(1) del: Inl_fold_fail)
  with 2(2) show ?thesis by blast
qed

lemma sb_roundtrip_runs:
  assumes q: "w_answers w = []" "holds_bytes w p (print (xml_at fmt 2 sb_v2))" and m: "models (vc_model config) sb_v2" "vc_version config = 2"
    and fmt: "to_chars_ok fmt" and p: "xml_prints_back print parser (xml_at fmt 2 sb_v2)"
  shows "sb_roundtrip fmt print parser p w config = Some (w, Exit EXIT_SUCCESS)"
proof -
  from xml_reloads[where print = print and parser = parser and fmt = fmt, OF m(1) sb_saveable(1) sb_nodes(1) fmt, unfolded m(2), OF p] obtain mr where
    r: "xml_load parser default_limits (Some [print (xml_at fmt 2 sb_v2)]) = Some (Inr \<lparr>vc_version = 2, vc_model = mr\<rparr>)" "models mr sb_v2" by blast
  have n: "print (xml_at fmt 2 sb_v2) \<noteq> []" using p by (simp add: xml_prints_back_def)
  have c: "models (vc_model \<lparr>vc_version = 2, vc_model = mr\<rparr>) sb_v2" using r(2) by simp
  note s = xml_saves(2)[where fmt = fmt and print = print, OF m(1) sb_saveable(1), unfolded m(2)]
    xml_saves(2)[where fmt = fmt and print = print, OF c sb_saveable(1)]
  show ?thesis by (simp add: sb_roundtrip_def sb_file[OF q n r(1)] s)
qed

lemma sb_main_runs:
  assumes d: "plain_directory d" and w: "w_answers w = []"
      "list_all (\<lambda>q. w_nodes w q = None \<or> w_nodes w q = Some Directory) (ancestors d)" "w_nodes w (append_path d ''sensorbridge.xml'') \<noteq> Some Directory"
    and shipped: "holds_bytes w (append_path data ''sensorbridge_v1.xml'') bytes" "parser bytes = Inr doc"
      "xml_document default_limits doc = Inr (1, sb_v1)" "bytes \<noteq> []" "length bytes \<le> 4 * 1024 * 1024"
    and fmt: "to_chars_ok fmt" and p: "xml_prints_back print parser (xml_at fmt 2 sb_v2)"
      "xml_prints_back print parser (xml_at fmt 2 (sb_v2_with ''version'' (SString ''the operator wrote this'')))"
    and seen: "occurs_in ''<config version=\"2\">'' (print (xml_at fmt 2 sb_v2))"
      "occurs_in ''<jitter_pct type=\"int\">5</jitter_pct>'' (print (xml_at fmt 2 sb_v2))"
  shows "\<exists>w'. sb_main fmt print parser data d w = Some (w', Exit EXIT_SUCCESS) \<and>
    holds_bytes w' (append_path d ''sensorbridge.xml'') (print (xml_at fmt 2 sb_v2))"
proof -
  let ?f = "append_path d ''sensorbridge.xml''" and ?s = "append_path data ''sensorbridge_v1.xml''"
  from quiet_create_directories[OF w(1,2)] obtain log where c: "fs_create_directories d w =
      (w\<lparr>w_nodes := (\<lambda>q. if q \<in> set (ancestors d) then Some Directory else w_nodes w q), w_log := log\<rparr>, None)" by blast
  let ?w1 = "w\<lparr>w_nodes := (\<lambda>q. if q \<in> set (ancestors d) then Some Directory else w_nodes w q), w_log := log\<rparr>"
  have s: "?s \<notin> set (ancestors d)" using shipped(1) w(2) by (auto simp: holds_bytes_def list_all_iff)
  have q1: "w_answers ?w1 = []" "holds_bytes ?w1 ?s bytes" using w(1) shipped(1) s by (simp_all add: holds_bytes_def)
  have f: "w_nodes ?w1 ?f \<noteq> Some Directory" "parent_present ?f ?w1"
    using w(3) entry_above[OF d, of "''sensorbridge.xml''"] parent_plain[OF d, of "''sensorbridge.xml''"] self_above[of d]
    by (simp_all add: parent_present_def)
  from sb_file_loads[where parser = parser, OF shipped(2-5)] obtain m where
    m: "xml_load parser default_limits (Some [bytes]) = Some (Inr \<lparr>vc_version = 1, vc_model = m\<rparr>)" "models m sb_v1" by blast
  from sb_sync[OF m(2), of "()"] obtain cfg where
    u: "synchronize sb_rt () \<lparr>vc_version = 1, vc_model = m\<rparr> 2 = Some ((), cfg, Ret (Inr InSync))" "vc_version cfg = 2" "models (vc_model cfg) sb_v2" by blast
  have load: "sb_load parser ?s ?w1 k = k ?w1 \<lparr>vc_version = 1, vc_model = m\<rparr>" for k
    by (simp add: sb_load_def sb_file[OF q1 shipped(4) m(1)] sb_expects(1)[OF m(2)])
  have "ss_status (inspect \<lparr>vc_version = 1, vc_model = m\<rparr> 2) = UpgradeRequired" by (simp add: inspect_def)
  then have up: "sb_upgrade sb_rt ?w1 \<lparr>vc_version = 1, vc_model = m\<rparr> k = k ?w1 cfg" for k
    by (simp add: sb_upgrade_def sb_kLatest_def u(1) sb_expects(2)[OF u(3)])
  let ?k3 = "\<lambda>w config. sb_roundtrip fmt print parser ?f w config"
  let ?k2 = "\<lambda>w config. sb_bad_name fmt print w config (?k3 w)"
  let ?k1 = "\<lambda>w. sb_version_member fmt print parser w cfg (?k2 w)"
  from sb_save_runs[where fmt = fmt and print = print, OF q1(1) f u(3,2) seen, of ?k1] obtain w2 where
    2: "sb_save fmt print ?f ?w1 cfg ?k1 = ?k1 w2" "w_answers w2 = []" "holds_bytes w2 ?f (print (xml_at fmt 2 sb_v2))" by blast
  from sb_version_member_runs[where fmt = fmt and print = print and parser = parser, OF u(3,2) fmt p(2), of w2 "?k2 w2"] obtain m3 where
    3: "?k1 w2 = ?k2 w2 (cfg\<lparr>vc_model := m3\<rparr>)" "models m3 sb_v2" by blast
  have "models (vc_model (cfg\<lparr>vc_model := m3\<rparr>)) sb_v2" using 3(2) by simp
  from sb_bad_name_runs[OF this, of fmt print w2 "?k3 w2"] obtain m4 where
    4: "?k2 w2 (cfg\<lparr>vc_model := m3\<rparr>) = ?k3 w2 (cfg\<lparr>vc_model := m4\<rparr>)" "models m4 sb_v2" by auto
  have "?k3 w2 (cfg\<lparr>vc_model := m4\<rparr>) = Some (w2, Exit EXIT_SUCCESS)"
    by (rule sb_roundtrip_runs[OF 2(2,3) _ _ fmt p(1)]) (simp_all add: 4(2) u(2))
  then have "sb_main fmt print parser data d w = Some (w2, Exit EXIT_SUCCESS)"
    using 2(1) 3(1) 4(1) by (simp add: sb_main_def sb_runtime_ok c load up Let_def)
  with 2(3) show ?thesis by blast
qed

text \<open>A document as it was emitted, without any white space, is one of its layouts.\<close>

lemma emitted_formatted: "formatted (element_of fmt v k) (element_of fmt v k)"
proof (induction v arbitrary: k)
  case (Scal s)
  show ?case by (cases s) (auto intro: formatted_text)
next
  case (Obj ms)
  have "laid_out formatted (map (\<lambda>(k, v). element_of fmt v k) ms') (map (\<lambda>(k, v). element_of fmt v k) ms')" if "set ms' \<subseteq> set ms" for ms'
    using that Obj by (induction ms') (force intro: laid_out.intros simp: snds.simps)+
  from this[of ms] show ?case by (cases ms) (auto intro: formatted_text formatted_container)
next
  case (Arr es)
  have "laid_out formatted (map (\<lambda>v. element_of fmt v kItemName) es') (map (\<lambda>v. element_of fmt v kItemName) es')" if "set es' \<subseteq> set es" for es'
    using that Arr by (induction es') (auto intro: laid_out.intros)
  from this[of es] show ?case by (cases es) (auto intro: formatted_text formatted_container)
qed

lemma emitted_root: "laid_out formatted [xml_at fmt version v] [xml_at fmt version v]"
proof -
  have "laid_out formatted (map (\<lambda>(k, v). element_of fmt v k) ms) (map (\<lambda>(k, v). element_of fmt v k) ms)" for ms
    by (induction ms) (auto intro: laid_out.intros emitted_formatted)
  from this[of "cv_members v"] have "formatted (xml_at fmt version v) (xml_at fmt version v)"
    by (cases "cv_members v") (auto simp: xml_at_def intro: formatted_text formatted_container)
  then show ?thesis by (intro laid_out.intros)
qed

end
