(* ===== verification/Checkpoint_Windows.thy ===== *)
theory Checkpoint_Windows
  imports Checkpoint_Atomic
begin

text \<open>
  The Windows branch of \<open>checkpoint/src/checkpoint_store.cpp\<close>: its \<open>writeTemporary\<close> and
  \<open>replaceFile\<close> over the same world, and that they too are a \<open>file_replacement\<close>, so that capture and
  commit are atomic there as on POSIX. The calls are as documented: \<open>CopyFileW\<close> copies contents,
  attributes and write time and fails if the copy exists, \<open>CreateFileW\<close> truncates an existing file or
  creates a new one, and opening a read-only file for writing is denied. The mode stands for the
  attributes; a file is read-only if its owner may not write.
\<close>

section \<open>Calls\<close>

text \<open>The number \<open>GetLastError\<close> gives, from \<open>winerror.h\<close>.\<close>

primrec windows_error :: "errno \<Rightarrow> nat" where
  "windows_error ENOENT = 2"
| "windows_error EEXIST = 80"
| "windows_error EINTR = 995"
| "windows_error EIO = 1117"
| "windows_error ENOTDIR = 3"
| "windows_error ENOTEMPTY = 145"
| "windows_error EISDIR = 5"
| "windows_error (Errno n) = n"

definition ERROR_FILE_EXISTS :: nat where "ERROR_FILE_EXISTS = 80"
definition access_denied :: errno where "access_denied = Errno 5"
definition disk_full :: errno where "disk_full = Errno 112"

definition read_only :: "nat \<Rightarrow> bool" where
  "read_only mode \<longleftrightarrow> even (mode div 128)"

text \<open>A copy that is cut short is left behind.\<close>

definition CopyFileW :: "path \<Rightarrow> path \<Rightarrow> world \<Rightarrow> world \<times> errno option" where
  "CopyFileW p q w = (case next_answer w of (a, w1) \<Rightarrow> (case a of Fails e \<Rightarrow> (w1, Some e)
     | _ \<Rightarrow> (case w_nodes w p of
           None \<Rightarrow> (w1, Some ENOENT)
         | Some Directory \<Rightarrow> (w1, Some access_denied)
         | Some (RegularFile b m t) \<Rightarrow> (if w_nodes w q \<noteq> None then (w1, Some EEXIST)
             else (case a of
                 Short k \<Rightarrow> (put_nodes ((w_nodes w)(q \<mapsto> RegularFile (take k b) m t)) w1, Some disk_full)
               | _ \<Rightarrow> (put_nodes ((w_nodes w)(q \<mapsto> RegularFile b m t)) w1, None))))))"

definition open_truncate :: "path \<Rightarrow> world \<Rightarrow> world \<times> errno option" where
  "open_truncate q w = (case next_answer w of (a, w1) \<Rightarrow> (case a of Fails e \<Rightarrow> (w1, Some e)
     | _ \<Rightarrow> (case w_nodes w q of
           None \<Rightarrow> (w1, Some ENOENT)
         | Some Directory \<Rightarrow> (w1, Some access_denied)
         | Some (RegularFile b m t) \<Rightarrow> (if read_only m then (w1, Some access_denied)
             else (put_nodes ((w_nodes w)(q \<mapsto> RegularFile [] m (w_now w))) w1, None)))))"

definition normal_attributes :: nat where "normal_attributes = 511"

definition open_new :: "path \<Rightarrow> world \<Rightarrow> world \<times> errno option" where
  "open_new q w = (case next_answer w of (a, w1) \<Rightarrow> (case a of Fails e \<Rightarrow> (w1, Some e)
     | _ \<Rightarrow> (if w_nodes w q \<noteq> None then (w1, Some EEXIST)
             else (put_nodes ((w_nodes w)(q \<mapsto> RegularFile [] normal_attributes (w_now w))) w1, None))))"

section \<open>The functions of the branch\<close>

definition MAXDWORD :: nat where "MAXDWORD = 2 ^ 32 - 1"

text \<open>\<open>WriteFile\<close> appends to the file behind the handle, as \<open>write\<close> does; the result is \<open>write_ok\<close>.\<close>

function write_chunks :: "path \<Rightarrow> string \<Rightarrow> world \<Rightarrow> world \<times> bool" where
  "write_chunks p bytes w = (if bytes = [] then (w, True)
     else (case sys_write p (take MAXDWORD bytes) w of
         (w1, Inl e) \<Rightarrow> (w1, False)
       | (w1, Inr n) \<Rightarrow> (if n = 0 then (w1, False) else write_chunks p (drop n bytes) w1)))"
  by pat_completeness auto
termination by (relation "measure (\<lambda>(p, bytes, w). length bytes)") auto

declare write_chunks.simps [simp del]

definition windows_writeAttempt :: "os \<Rightarrow> path \<Rightarrow> string \<Rightarrow> path \<Rightarrow> world \<Rightarrow> world \<times> (error + path) option" where
  "windows_writeAttempt os destination bytes permission_source w = (case temporaryCandidate destination w of (w0, candidate) \<Rightarrow>
     (case fs_exists permission_source w0 of
        (w1, Inl e) \<Rightarrow> (w1, Some (fail StorageError (storageErrorMessage os ''cannot inspect permission source'' permission_source e)))
      | (w1, Inr source_exists) \<Rightarrow>
          (case (if source_exists then CopyFileW permission_source candidate w1 else (w1, None)) of
             (w2, Some e) \<Rightarrow> (w2, if windows_error e = ERROR_FILE_EXISTS then None else Some (fail StorageError
               (''cannot create temporary file '' @ squote @ candidate @ squote @ '' (Windows error '' @ nat_str (windows_error e) @ '')'')))
           | (w2, None) \<Rightarrow>
               (case (if source_exists then open_truncate candidate w2 else open_new candidate w2) of
                  (w3, Some e) \<Rightarrow> (if \<not> source_exists \<and> windows_error e = ERROR_FILE_EXISTS then (w3, None)
                    else (if source_exists then removeTemporary candidate w3 else w3, Some (fail StorageError
                      (''cannot open temporary file '' @ squote @ candidate @ squote @ '' (Windows error '' @ nat_str (windows_error e) @ '')''))))
                | (w3, None) \<Rightarrow> (case write_chunks candidate bytes w3 of (w4, write_ok) \<Rightarrow> (case sys_close w4 of (w5, closed) \<Rightarrow>
                    (if \<not> (write_ok \<and> closed = None)
                     then (removeTemporary candidate w5, Some (fail StorageError
                       (''failed to write temporary file '' @ squote @ candidate @ squote)))
                     else (w5, Some (Inr candidate)))))))))"

primrec windows_writeAttempts :: "os \<Rightarrow> nat \<Rightarrow> path \<Rightarrow> string \<Rightarrow> path \<Rightarrow> world \<Rightarrow> world \<times> (error + path)" where
  "windows_writeAttempts os 0 destination bytes permission_source w =
     (w, fail StorageError (''cannot allocate a unique temporary file beside '' @ squote @ destination @ squote))"
| "windows_writeAttempts os (Suc k) destination bytes permission_source w =
     (case windows_writeAttempt os destination bytes permission_source w of
        (w1, Some r) \<Rightarrow> (w1, r)
      | (w1, None) \<Rightarrow> windows_writeAttempts os k destination bytes permission_source w1)"

definition windows_writeTemporary :: "os \<Rightarrow> write_file" where
  "windows_writeTemporary os = windows_writeAttempts os 100"

definition windows_replaceFile :: replace_file where
  "windows_replaceFile temporary destination w = (case sys_rename temporary destination w of
     (w1, Some e) \<Rightarrow> (w1, fail StorageError
       (''cannot atomically replace '' @ squote @ destination @ squote @ '' (Windows error '' @ nat_str (windows_error e) @ '')''))
   | (w1, None) \<Rightarrow> (w1, Inr ()))"

definition windows_publish :: "os \<Rightarrow> publisher" where
  "windows_publish os = publish_with (windows_writeTemporary os) windows_replaceFile"

section \<open>A new file carries the attributes of the old one\<close>

definition copied_attributes :: "fs_node option \<Rightarrow> nat" where
  "copied_attributes n = (case n of Some (RegularFile b m t) \<Rightarrow> m | _ \<Rightarrow> normal_attributes)"

definition windows_mode :: "fsys \<Rightarrow> path \<Rightarrow> nat \<Rightarrow> bool" where
  "windows_mode ns source mode \<longleftrightarrow> mode = copied_attributes (ns source)"

lemma copy_file:
  assumes "CopyFileW p q w = (w1, r)"
  shows "safe (only_at q (w_nodes w)) w w1 \<and> (case r of
      Some e \<Rightarrow> windows_error e = ERROR_FILE_EXISTS \<longrightarrow> w_nodes w1 = w_nodes w
    | None \<Rightarrow> w_nodes w q = None \<and> (\<exists>b m t. w_nodes w p = Some (RegularFile b m t) \<and> w_nodes w1 = (w_nodes w)(q \<mapsto> RegularFile b m t)))"
proof -
  obtain a w2 where a: "next_answer w = (a, w2)" by (cases "next_answer w")
  show ?thesis using assms next_answer_nodes[OF a] safe_answer[OF a] safe_put[OF a]
    by (cases a) (auto simp: CopyFileW_def a disk_full_def ERROR_FILE_EXISTS_def split: option.splits fs_node.splits if_splits)
qed

lemma open_file:
  assumes "open_truncate q w = (w1, r)"
  shows "safe (only_at q (w_nodes w)) w w1 \<and> (case r of Some e \<Rightarrow> w_nodes w1 = w_nodes w
    | None \<Rightarrow> \<exists>b m t. w_nodes w q = Some (RegularFile b m t) \<and> \<not> read_only m \<and> w_nodes w1 q = Some (RegularFile [] m (w_now w)))"
proof -
  obtain a w2 where a: "next_answer w = (a, w2)" by (cases "next_answer w")
  show ?thesis using assms next_answer_nodes[OF a] safe_answer[OF a] safe_put[OF a]
    by (cases a) (auto simp: open_truncate_def a split: option.splits fs_node.splits if_splits)
qed

lemma open_new_file:
  assumes "open_new q w = (w1, r)"
  shows "safe (only_at q (w_nodes w)) w w1 \<and> (case r of Some e \<Rightarrow> w_nodes w1 = w_nodes w
    | None \<Rightarrow> w_nodes w q = None \<and> w_nodes w1 q = Some (RegularFile [] normal_attributes (w_now w)))"
proof -
  obtain a w2 where a: "next_answer w = (a, w2)" by (cases "next_answer w")
  show ?thesis using assms next_answer_nodes[OF a] safe_answer[OF a] safe_put[OF a]
    by (cases a) (auto simp: open_new_def a split: if_splits)
qed

lemma write_chunks_file:
  "write_chunks p bytes w = (w', r) \<Longrightarrow> w_nodes w p = Some (RegularFile b m t) \<Longrightarrow>
     safe (only_at p (w_nodes w)) w w' \<and> (\<exists>b' t'. w_nodes w' p = Some (RegularFile b' m t') \<and> (r \<longrightarrow> b' = b @ bytes))"
proof (induction p bytes w arbitrary: b t rule: write_chunks.induct)
  case (1 p bytes w)
  show ?case
  proof (cases "bytes = []")
    case True
    with "1.prems" show ?thesis by (simp add: write_chunks.simps)
  next
    case False
    obtain w1 x where x: "sys_write p (take MAXDWORD bytes) w = (w1, x)" by fastforce
    note s = write_only_at[OF x] and f = write_file[OF x "1.prems"(2)]
    show ?thesis
    proof (cases "\<exists>n. x = Inr n \<and> n \<noteq> 0")
      case False
      with "1.prems" \<open>bytes \<noteq> []\<close> x f s show ?thesis by (auto simp: write_chunks.simps[of p bytes w] split: sum.splits)
    next
      case True
      then obtain n where n: "x = Inr n" "n \<noteq> 0" by blast
      with "1.prems" False x have l: "write_chunks p (drop n bytes) w1 = (w', r)" by (simp add: write_chunks.simps[of p bytes w])
      have "n \<le> MAXDWORD"
        using x n(1) by (cases "next_answer w") (auto simp: sys_write_def min_def split: answer.splits if_splits)
      with f n(1) have "w_nodes w1 p = Some (RegularFile (b @ take n bytes) m (w_now w))" by (simp add: min_def)
      from "1.IH"[OF False x[symmetric] n l this] safe_only_at[OF s] show ?thesis by auto
    qed
  qed
qed

text \<open>Opening the candidate, with or without a copy of the source in it.\<close>

definition windows_open :: "path \<Rightarrow> path \<Rightarrow> bool \<Rightarrow> world \<Rightarrow> world \<times> errno + world \<times> errno option" where
  "windows_open source c source_exists w = (case (if source_exists then CopyFileW source c w else (w, None)) of
     (w2, Some e) \<Rightarrow> Inl (w2, e)
   | (w2, None) \<Rightarrow> Inr (if source_exists then open_truncate c w2 else open_new c w2))"

lemma windows_open_file:
  assumes "windows_open source c source_exists w = x" "source_exists \<longleftrightarrow> w_nodes w source \<noteq> None"
  shows "case x of
      Inl (w2, e) \<Rightarrow> safe (only_at c (w_nodes w)) w w2 \<and> (windows_error e = ERROR_FILE_EXISTS \<longrightarrow> w_nodes w2 = w_nodes w)
    | Inr (w3, r) \<Rightarrow> safe (only_at c (w_nodes w)) w w3 \<and> (case r of
          Some e \<Rightarrow> \<not> source_exists \<longrightarrow> w_nodes w3 = w_nodes w
        | None \<Rightarrow> w_nodes w c = None \<and> (\<exists>m t. windows_mode (w_nodes w) source m \<and> \<not> read_only m \<and> w_nodes w3 c = Some (RegularFile [] m t)))"
proof (cases source_exists)
  case False
  obtain w3 r where o: "open_new c w = (w3, r)" by fastforce
  with assms False have x: "x = Inr (w3, r)" "w_nodes w source = None" by (auto simp: windows_open_def)
  show ?thesis using open_new_file[OF o] False unfolding x(1)
    by (cases r) (auto simp: windows_mode_def copied_attributes_def x(2) read_only_def normal_attributes_def)
next
  case True
  obtain w2 y where y: "CopyFileW source c w = (w2, y)" by fastforce
  note f = copy_file[OF y]
  show ?thesis
  proof (cases y)
    case (Some e)
    with assms(1) True y have "x = Inl (w2, e)" by (simp add: windows_open_def)
    with f Some show ?thesis by simp
  next
    case None
    obtain w3 r where o: "open_truncate c w2 = (w3, r)" by fastforce
    with assms(1) True y None have x: "x = Inr (w3, r)" by (simp add: windows_open_def)
    from f None obtain b m t where
      n: "w_nodes w c = None" "w_nodes w source = Some (RegularFile b m t)" "w_nodes w2 = (w_nodes w)(c \<mapsto> RegularFile b m t)" by auto
    have s: "safe (only_at c (w_nodes w)) w w3" using safe_only_at[of c w w2 w3] f open_file[OF o] by blast
    show ?thesis
    proof (cases r)
      case None
      with open_file[OF o] n(3) have "w_nodes w3 c = Some (RegularFile [] m (w_now w2))" "\<not> read_only m" by auto
      with s n(1,2) None show ?thesis unfolding x by (auto simp: windows_mode_def copied_attributes_def)
    qed (use s True x in auto)
  qed
qed

lemma windows_writeAttempt_unfold:
  "windows_writeAttempt os dst bytes source w = (case temporaryCandidate dst w of (w0, c) \<Rightarrow> (case fs_exists source w0 of
     (w1, Inl e) \<Rightarrow> (w1, Some (fail StorageError (storageErrorMessage os ''cannot inspect permission source'' source e)))
   | (w1, Inr source_exists) \<Rightarrow> (case windows_open source c source_exists w1 of
       Inl (w2, e) \<Rightarrow> (w2, if windows_error e = ERROR_FILE_EXISTS then None else Some (fail StorageError
         (''cannot create temporary file '' @ squote @ c @ squote @ '' (Windows error '' @ nat_str (windows_error e) @ '')'')))
     | Inr (w3, Some e) \<Rightarrow> (if \<not> source_exists \<and> windows_error e = ERROR_FILE_EXISTS then (w3, None)
         else (if source_exists then removeTemporary c w3 else w3, Some (fail StorageError
           (''cannot open temporary file '' @ squote @ c @ squote @ '' (Windows error '' @ nat_str (windows_error e) @ '')''))))
     | Inr (w3, None) \<Rightarrow> (case write_chunks c bytes w3 of (w4, write_ok) \<Rightarrow> (case sys_close w4 of (w5, closed) \<Rightarrow>
         (if \<not> (write_ok \<and> closed = None)
          then (removeTemporary c w5, Some (fail StorageError (''failed to write temporary file '' @ squote @ c @ squote)))
          else (w5, Some (Inr c))))))))"
  unfolding windows_writeAttempt_def windows_open_def
  by (auto split: prod.splits sum.splits option.splits)

definition attempted :: "path \<Rightarrow> string \<Rightarrow> path \<Rightarrow> world \<Rightarrow> world \<Rightarrow> (error + path) option \<Rightarrow> bool" where
  "attempted dst bytes source w w' r \<longleftrightarrow> (\<exists>c. temp_of dst c \<and> safe (only_at c (w_nodes w)) w w' \<and>
     (case r of None \<Rightarrow> w_nodes w' = w_nodes w
      | Some (Inl e) \<Rightarrow> err_code e = StorageError
      | Some (Inr p) \<Rightarrow> p = c \<and> w_nodes w c = None \<and>
          (\<exists>m t. windows_mode (w_nodes w) source m \<and> \<not> read_only m \<and> w_nodes w' = (w_nodes w)(c \<mapsto> RegularFile bytes m t))))"

lemma attemptedI:
  assumes "temp_of dst c" "safe (only_at c (w_nodes w)) w w'"
  shows "w_nodes w' = w_nodes w \<Longrightarrow> attempted dst bytes source w w' None"
    "attempted dst bytes source w w' (Some (fail StorageError z))"
    "w_nodes w c = None \<Longrightarrow> windows_mode (w_nodes w) source m \<Longrightarrow> \<not> read_only m \<Longrightarrow> w_nodes w' c = Some (RegularFile bytes m t) \<Longrightarrow>
       attempted dst bytes source w w' (Some (Inr c))"
  using assms only_at_file[OF safe_now[OF assms(2) only_at_refl]]
  unfolding attempted_def fail_def by (auto simp del: Inl_fold_fail)

lemma windows_writeAttempt_file:
  assumes "windows_writeAttempt os dst bytes source w = (w', r)"
  shows "attempted dst bytes source w w' r"
proof -
  obtain w0 c where c: "temporaryCandidate dst w = (w0, c)" by fastforce
  let ?P = "only_at c (w_nodes w)"
  note c' = temporaryCandidate_temp[OF c, of ?P]
  then have tmp: "temp_of dst c" by blast
  obtain w1 x where x: "fs_exists source w0 = (w1, x)" by fastforce
  note e = read_calls(1)[OF x, of ?P]
  have s1: "safe ?P w w1" "w_nodes w1 = w_nodes w" using safe_trans[of ?P w w0 w1] c' e by simp_all
  show ?thesis
  proof (cases x)
    case (Inl er)
    with assms c x show ?thesis using attemptedI(2)[OF tmp s1(1)] by (auto simp: windows_writeAttempt_unfold simp del: Inl_fold_fail)
  next
    case (Inr present)
    have ex: "present \<longleftrightarrow> w_nodes w1 source \<noteq> None"
      using x Inr c' s1(2) by (cases "next_answer w0") (auto simp: fs_exists_def sys_stat_def environment_error_def split: answer.splits option.splits if_splits)
    obtain y where y: "windows_open source c present w1 = y" by blast
    note f = windows_open_file[OF y ex, unfolded s1(2)]
    have s: "safe ?P w w2" if "safe ?P w1 w2" for w2 using safe_trans[OF s1(1) that] .
    have u: "windows_writeAttempt os dst bytes source w = (case y of
        Inl (w2, e) \<Rightarrow> (w2, if windows_error e = ERROR_FILE_EXISTS then None else Some (fail StorageError
          (''cannot create temporary file '' @ squote @ c @ squote @ '' (Windows error '' @ nat_str (windows_error e) @ '')'')))
      | Inr (w3, Some e) \<Rightarrow> (if \<not> present \<and> windows_error e = ERROR_FILE_EXISTS then (w3, None)
          else (if present then removeTemporary c w3 else w3, Some (fail StorageError
            (''cannot open temporary file '' @ squote @ c @ squote @ '' (Windows error '' @ nat_str (windows_error e) @ '')''))))
      | Inr (w3, None) \<Rightarrow> (case write_chunks c bytes w3 of (w4, write_ok) \<Rightarrow> (case sys_close w4 of (w5, closed) \<Rightarrow>
          (if \<not> (write_ok \<and> closed = None)
           then (removeTemporary c w5, Some (fail StorageError (''failed to write temporary file '' @ squote @ c @ squote)))
           else (w5, Some (Inr c))))))"
      unfolding windows_writeAttempt_unfold c x Inr y prod.case sum.case ..
    consider w2 e where "y = Inl (w2, e)" | w3 e where "y = Inr (w3, Some e)" | w3 where "y = Inr (w3, None)"
      by (cases y) (auto, metis option.exhaust)
    then show ?thesis
    proof cases
      case (1 w2 e)
      with f s[of w2] have k: "safe ?P w w2" "windows_error e = ERROR_FILE_EXISTS \<Longrightarrow> w_nodes w2 = w_nodes w" by simp_all
      show ?thesis using assms attemptedI(1,2)[OF tmp k(1)] k(2) unfolding u 1 by (auto split: if_splits)
    next
      case (2 w3 e)
      with f s[of w3] have k: "safe ?P w w3" "\<not> present \<Longrightarrow> w_nodes w3 = w_nodes w" by simp_all
      note d = attemptedI(2)[OF tmp safe_only_at[OF k(1) removeTemporary_only_at]]
      show ?thesis using assms attemptedI(1,2)[OF tmp k(1)] k(2) d unfolding u 2 by (auto split: if_splits)
    next
      case (3 w3)
      with f s[of w3] obtain m t where k: "safe ?P w w3" "w_nodes w c = None" "windows_mode (w_nodes w) source m" "\<not> read_only m"
        "w_nodes w3 c = Some (RegularFile [] m t)" by auto
      obtain w4 ok where l: "write_chunks c bytes w3 = (w4, ok)" by fastforce
      from write_chunks_file[OF l k(5)] obtain b' t' where
        f4: "safe (only_at c (w_nodes w3)) w3 w4" "w_nodes w4 c = Some (RegularFile b' m t')" "ok \<Longrightarrow> b' = bytes" by auto
      obtain w5 cl where d: "sys_close w4 = (w5, cl)" by fastforce
      note f5 = close_reads[OF d, of "only_at c (w_nodes w4)"]
      have s5: "safe ?P w w5" using safe_only_at[OF safe_only_at[OF k(1) f4(1)]] f5 by blast
      have n5: "ok \<Longrightarrow> w_nodes w5 c = Some (RegularFile bytes m t')" using f4 f5 by simp
      note g = attemptedI(2)[OF tmp safe_only_at[OF s5 removeTemporary_only_at]]
      show ?thesis using assms attemptedI(3)[OF tmp s5 k(2-4) n5] g unfolding u 3 by (auto simp: l d split: if_splits)
    qed
  qed
qed

lemma windows_writeAttempts_file:
  "windows_writeAttempts os k dst bytes source w = (w', r) \<Longrightarrow> \<exists>mode. windows_mode (w_nodes w) source mode \<and> wrote dst bytes mode w w' r"
proof (induction k arbitrary: w)
  case 0
  have "\<exists>mode. windows_mode (w_nodes w) source mode" by (simp add: windows_mode_def)
  with 0 show ?case by (auto simp: wrote_def fail_def simp del: Inl_fold_fail)
next
  case (Suc k)
  obtain w1 x where x: "windows_writeAttempt os dst bytes source w = (w1, x)" by fastforce
  from windows_writeAttempt_file[OF x] obtain c where c: "temp_of dst c" "safe (only_at c (w_nodes w)) w w1"
    "case x of None \<Rightarrow> w_nodes w1 = w_nodes w | Some (Inl e) \<Rightarrow> err_code e = StorageError
     | Some (Inr p) \<Rightarrow> p = c \<and> w_nodes w c = None \<and>
         (\<exists>m t. windows_mode (w_nodes w) source m \<and> \<not> read_only m \<and> w_nodes w1 = (w_nodes w)(c \<mapsto> RegularFile bytes m t))"
    unfolding attempted_def by blast
  have s: "safe (keeps dst (w_nodes w)) w w1" using safe_mono[OF c(2)] keeps_only_at[OF c(1)] by blast
  have some: "\<exists>mode. windows_mode (w_nodes w) source mode" by (simp add: windows_mode_def)
  show ?case
  proof (cases x)
    case None
    with Suc.prems x have "windows_writeAttempts os k dst bytes source w1 = (w', r)" by simp
    from Suc.IH[OF this] c(3) None safe_keeps[OF s] show ?thesis by (auto simp: wrote_def split: sum.splits)
  next
    case (Some z)
    with Suc.prems x c(1,3) s some show ?thesis by (auto simp: wrote_def split: sum.splits)
  qed
qed

interpretation windows: file_replacement "windows_writeTemporary os" windows_replaceFile windows_mode for os
proof
  show "\<exists>mode. windows_mode (w_nodes w) source mode \<and> wrote dst bytes mode w w' r"
    if "windows_writeTemporary os dst bytes source w = (w', r)" for dst bytes source w w' r
    using windows_writeAttempts_file[OF that[unfolded windows_writeTemporary_def]] .
  show "case r of Inl e \<Rightarrow> err_code e = StorageError \<and> unchanged w w'
      | Inr _ \<Rightarrow> w_nodes w' = (w_nodes w)(c := None, dst \<mapsto> n) \<and> w_log w' = w_log w @ [w_nodes w']"
    if "windows_replaceFile c dst w = (w', r)" "w_nodes w c = Some n" for c dst w w' r n
  proof -
    obtain a w2 where a: "next_answer w = (a, w2)" by (cases "next_answer w")
    show ?thesis using that next_answer_nodes[OF a]
      by (cases a) (auto simp: windows_replaceFile_def sys_rename_def a unchanged_def fail_def simp del: Inl_fold_fail split: if_splits)
  qed
qed (simp_all add: windows_mode_def)

section \<open>Capture and commit on Windows\<close>

lemma windows_commit:
  assumes "cpCommitImpl (windows_publish os) os opts config be w = (w', r)" and "proper_file (canonical_path opts)"
  shows "case saveBytes config be of
      Bad_alloc \<Rightarrow> r = Bad_alloc \<and> w' = w
    | Ret (Inl e) \<Rightarrow> r = Ret (Inl e) \<and> w' = w
    | Ret (Inr bytes) \<Rightarrow> \<exists>r'. r = Ret r' \<and> replaces_for windows_mode (canonical_path opts)
        (ancestors (parentOrCurrent (canonical_path opts))) bytes (canonical_path opts) w w' r'"
  by (rule windows.commit_law[OF assms(1)[unfolded windows_publish_def] assms(2)])

lemma windows_capture:
  assumes "cpCaptureImpl (windows_publish os) os opts config be w = (w', r)" "separate opts" "max_file_bytes opts < 2 ^ 64"
  shows "(unchanged w w' \<and> (r = Bad_alloc \<or> (\<exists>e. r = Ret (Inl e)))) \<or> captures_for windows_mode opts config be w w' r"
  by (rule windows.capture_law[OF assms(1)[unfolded windows_publish_def] assms(2,3)])

section \<open>Progress\<close>

lemma quiet_write_chunks: "w_answers w = [] \<Longrightarrow> \<exists>w'. write_chunks p bytes w = (w', True) \<and> w_answers w' = []"
proof (induction p bytes w rule: write_chunks.induct)
  case (1 p bytes w)
  show ?case
  proof (cases "bytes = []")
    case True
    with "1.prems" show ?thesis by (simp add: write_chunks.simps)
  next
    case False
    obtain w1 where x: "sys_write p (take MAXDWORD bytes) w = (w1, Inr (min (length bytes) MAXDWORD))" "w_answers w1 = []"
      using "1.prems" by (simp add: sys_write_def quiet_answer)
    have n: "min (length bytes) MAXDWORD \<noteq> 0" using False by (simp add: MAXDWORD_def min_def)
    from "1.IH"[OF False x(1)[symmetric] refl n x(2)] False n show ?thesis
      by (subst write_chunks.simps) (simp add: x(1))
  qed
qed

lemma quiet_windows_open:
  assumes "w_answers w = []" "w_nodes w c = None"
    and "case w_nodes w source of None \<Rightarrow> True | Some Directory \<Rightarrow> False | Some (RegularFile b m t) \<Rightarrow> \<not> read_only m"
  shows "\<exists>w'. windows_open source c (w_nodes w source \<noteq> None) w = Inr (w', None) \<and> w_answers w' = []"
proof (cases "w_nodes w source")
  case None
  with assms show ?thesis by (simp add: windows_open_def open_new_def quiet_answer)
next
  case (Some n)
  with assms obtain b m t where "n = RegularFile b m t" "\<not> read_only m" by (cases n) auto
  with Some assms(1,2) show ?thesis by (simp add: windows_open_def CopyFileW_def open_truncate_def quiet_answer)
qed

lemma quiet_windows_publish:
  assumes "w_answers w = []" "w_nodes w (snd (temporaryCandidate dst w)) = None" "w_nodes w dst \<noteq> Some Directory"
    and "case w_nodes w source of None \<Rightarrow> True | Some Directory \<Rightarrow> False | Some (RegularFile b m t) \<Rightarrow> \<not> read_only m"
  shows "\<exists>w'. windows_publish os dst bytes source w = (w', Inr ()) \<and> w_answers w' = []"
proof -
  obtain w0 c where c: "temporaryCandidate dst w = (w0, c)" by fastforce
  then have w0: "w_answers w0 = []" "w_nodes w0 = w_nodes w" using assms(1) by (auto simp: temporaryCandidate_def)
  have x: "fs_exists source w0 = (w0, Inr (w_nodes w0 source \<noteq> None))"
    using w0(1) missing_error[of "w_nodes w0" source]
    by (auto simp: fs_exists_def sys_stat_def quiet_answer environment_error_def split: option.split)
  from quiet_windows_open[of w0 c source] w0 assms(2,4) c obtain w3 where
    w3: "windows_open source c (w_nodes w0 source \<noteq> None) w0 = Inr (w3, None)" "w_answers w3 = []" by auto
  obtain w4 where w4: "write_chunks c bytes w3 = (w4, True)" "w_answers w4 = []" using quiet_write_chunks[OF w3(2)] by blast
  have d: "sys_close w4 = (w4, None)" using w4(2) by (simp add: sys_close_def quiet_answer)
  have a: "windows_writeAttempt os dst bytes source w = (w4, Some (Inr c))"
    unfolding windows_writeAttempt_unfold c x w3(1) prod.case sum.case option.case w4(1) d by simp
  have k: "(100 :: nat) = Suc 99" by simp
  have t: "windows_writeTemporary os dst bytes source w = (w4, Inr c)"
    unfolding windows_writeTemporary_def k windows_writeAttempts.simps a by simp
  from windows_writeAttempt_file[OF a] obtain m t where
    n: "temp_of dst c" "w_nodes w4 = (w_nodes w)(c \<mapsto> RegularFile bytes m t)" by (auto simp: attempted_def)
  have "c \<noteq> dst" using n(1) temp_of_irrefl by blast
  then show ?thesis using t n(2) assms(3) w4(2)
    by (simp add: windows_publish_def publish_with_def windows_replaceFile_def sys_rename_def quiet_answer)
qed

text \<open>A read-only source of permissions stops the operation: the copy of it cannot be opened for writing.\<close>

lemma windows_read_only_attempts:
  "windows_writeAttempts os k dst bytes source w = (w', Inr p) \<Longrightarrow> \<not> read_only (copied_attributes (w_nodes w source))"
proof (induction k arbitrary: w)
  case (Suc k)
  obtain w1 x where x: "windows_writeAttempt os dst bytes source w = (w1, x)" by fastforce
  with windows_writeAttempt_file[OF x] Suc.prems Suc.IH[of w1] show ?case
    by (cases x) (auto simp: attempted_def windows_mode_def split: sum.splits)
qed (simp add: fail_def del: Inl_fold_fail)

lemma windows_read_only_refused:
  assumes "w_nodes w source = Some (RegularFile b m t)" "read_only m" "windows_publish os dst bytes source w = (w', r)"
  shows "\<exists>e. r = Inl e"
proof -
  obtain w1 x where x: "windows_writeTemporary os dst bytes source w = (w1, x)" by fastforce
  with windows_read_only_attempts[of os 100 dst bytes source w] assms(1,2) obtain e where "x = Inl e"
    by (cases x) (auto simp: windows_writeTemporary_def copied_attributes_def)
  with x assms(3) show ?thesis by (auto simp: windows_publish_def publish_with_def)
qed

end
