(* ===== verification/Checkpoint_Xml.thy ===== *)
theory Checkpoint_Xml
  imports Checkpoint_Json Xml_Save
begin

text \<open>
  The checkpoint store with the XML backend: a configuration that was committed and then captured
  is in the checkpoint, value for value, however the printer lays the document out.
\<close>

text \<open>\<open>XmlInterface\<close> behind \<open>IConfigInterface\<close>, on the string streams of \<open>loadBytes\<close> and \<open>saveBytes\<close>.\<close>

definition xml_backend :: "(double \<Rightarrow> string) \<Rightarrow> (xml \<Rightarrow> string) \<Rightarrow> xml_parser \<Rightarrow> load_limits \<Rightarrow> backend" where
  "xml_backend fmt print parser L = \<lparr>
     be_load = (\<lambda>bytes. BReturns (the (xml_load parser L (Some (if bytes = [] then [] else [bytes]))))),
     be_save = (\<lambda>config. case the (xml_save fmt print config (\<lambda>t. True)) of
       (t, r) \<Rightarrow> ((case t of None \<Rightarrow> [] | Some s \<Rightarrow> s), True, BReturns r))\<rparr>"

lemma xml_backend_roundtrip:
  assumes "models (vc_model config) v" and "saveable v"
    and "cv_nodes v \<le> maxNodes L" "maxNodes L < kNodeIdNone" "maxInputBytes L < 2 ^ 64"
    and "to_chars_ok fmt" and "t = print (root_element fmt config v)"
    and "parser t = Inr doc" "laid_out formatted [root_element fmt config v] doc"
    and "t \<noteq> []" "length t \<le> maxInputBytes L"
  shows "saveBytes config (xml_backend fmt print parser L) = Ret (Inr t)"
    "\<exists>m. loadBytes t (xml_backend fmt print parser L) = Ret (Inr \<lparr>vc_version = vc_version config, vc_model = m\<rparr>) \<and> models m v"
proof -
  have c: "concat [t] = t" "[] \<notin> set [t]" using assms(10) by simp_all
  note x = xml_roundtrip[where parser = parser and fmt = fmt and print = print, OF assms(1-9) c assms(11)]
  show "saveBytes config (xml_backend fmt print parser L) = Ret (Inr t)"
    using x(1) by (simp add: saveBytes_def xml_backend_def)
  show "\<exists>m. loadBytes t (xml_backend fmt print parser L) = Ret (Inr \<lparr>vc_version = vc_version config, vc_model = m\<rparr>) \<and> models m v"
    using x(2) assms(10) by (auto simp: loadBytes_def xml_backend_def)
qed

end
