(* ===== verification/Stream_State.thy ===== *)
theory Stream_State
  imports Json_Save Xml_Save
begin

text \<open>
  Loading from a \<open>std::istream\<close> with its state and its exception mask, as \<open>readBounded\<close> and the
  \<open>catch\<close> clauses of both backends treat it (\<open>backends/json/src/json_interface.cpp\<close>,
  \<open>backends/xml/src/xml_interface.cpp\<close>). A stream buffer of the caller may throw in any \<open>sgetn\<close>, and
  \<open>clear\<close> throws when the new state meets the mask. At the end, JSON \<open>save\<close> to a stream that may throw.
\<close>

section \<open>Streams\<close>

datatype ios_bit = Eofbit | Failbit | Badbit

text \<open>
  \<open>is_reads\<close> is what the calls of \<open>sgetn\<close> on the buffer to come will give, \<open>None\<close> without a buffer, and \<open>is_what\<close> the
  text of the \<open>std::ios_base::failure\<close> of the library.
\<close>

record in_stream =
  is_reads :: "string backend_call list option"
  is_state :: "ios_bit set"
  is_mask :: "ios_bit set"
  is_what :: string

definition stream_clear :: "ios_bit set \<Rightarrow> in_stream \<Rightarrow> in_stream \<times> unit backend_call" where
  "stream_clear state s = (s\<lparr>is_state := state\<rparr>, if state \<inter> is_mask s = {} then BReturns () else BThrows_std (is_what s))"

section \<open>The bounded read\<close>

text \<open>The loop, with the calls it leaves.\<close>

fun stream_read :: "string \<Rightarrow> nat \<Rightarrow> string \<Rightarrow> string backend_call list \<Rightarrow> string backend_call list \<times> (error + string) backend_call" where
  "stream_read kind max_bytes bytes [] = ([], BReturns (Inr bytes))"
| "stream_read kind max_bytes bytes (BReturns chunk # calls) =
     (if chunk = [] then (calls, BReturns (Inr bytes))
      else if length chunk > (max_bytes + 2 ^ 64 - length bytes) mod 2 ^ 64
      then (calls, BReturns (fail ParseError (kind @ '' document exceeds input limit ('' @ nat_str max_bytes @ '' bytes)'')))
      else stream_read kind max_bytes (bytes @ chunk) calls)"
| "stream_read kind max_bytes bytes (BThrows_bad_alloc # calls) = (calls, BThrows_bad_alloc)"
| "stream_read kind max_bytes bytes (BThrows_std what # calls) = (calls, BThrows_std what)"
| "stream_read kind max_bytes bytes (BThrows_other # calls) = (calls, BThrows_other)"

definition stream_readBounded :: "string \<Rightarrow> in_stream \<Rightarrow> nat \<Rightarrow> in_stream \<times> (error + string) backend_call" where
  "stream_readBounded kind s max_bytes = (case is_reads s of
     None \<Rightarrow> (s, BReturns (fail ParseError (kind @ '' stream has no buffer'')))
   | Some calls \<Rightarrow> (case stream_read kind max_bytes [] calls of
       (calls', BReturns (Inr bytes)) \<Rightarrow> (case stream_clear (insert Eofbit (is_state s)) (s\<lparr>is_reads := Some calls'\<rparr>) of
           (s', BReturns _) \<Rightarrow> (s', BReturns (Inr bytes))
         | (s', BThrows_bad_alloc) \<Rightarrow> (s', BThrows_bad_alloc)
         | (s', BThrows_std what) \<Rightarrow> (s', BThrows_std what)
         | (s', BThrows_other) \<Rightarrow> (s', BThrows_other))
     | (calls', r) \<Rightarrow> (s\<lparr>is_reads := Some calls'\<rparr>, r)))"

section \<open>Load\<close>

text \<open>The \<open>catch\<close> clauses of the two functions, which differ in the name of the format.\<close>

definition load_handlers :: "string \<Rightarrow> (error + 'a) backend_call \<Rightarrow> (error + 'a) flow" where
  "load_handlers kind call = (case call of
     BReturns r \<Rightarrow> Ret r
   | BThrows_bad_alloc \<Rightarrow> Bad_alloc
   | BThrows_std what \<Rightarrow> Ret (fail ParseError (kind @ '' load failed: '' @ what))
   | BThrows_other \<Rightarrow> Ret (fail ParseError (kind @ '' load failed with a non-standard exception'')))"

definition load_stream :: "string \<Rightarrow> (string \<Rightarrow> (error + vconfig) backend_call option) \<Rightarrow> load_limits \<Rightarrow> in_stream \<Rightarrow>
    (in_stream \<times> (error + vconfig) flow) option" where
  "load_stream kind body L s = (case stream_readBounded kind s (maxInputBytes L) of
     (s', BReturns (Inr bytes)) \<Rightarrow> do { r \<leftarrow> body bytes; Some (s', load_handlers kind r) }
   | (s', BReturns (Inl e)) \<Rightarrow> Some (s', load_handlers kind (BReturns (Inl e)))
   | (s', BThrows_bad_alloc) \<Rightarrow> Some (s', load_handlers kind BThrows_bad_alloc)
   | (s', BThrows_std what) \<Rightarrow> Some (s', load_handlers kind (BThrows_std what))
   | (s', BThrows_other) \<Rightarrow> Some (s', load_handlers kind BThrows_other))"

definition json_load_from :: "json_parser \<Rightarrow> load_limits \<Rightarrow> in_stream \<Rightarrow> (in_stream \<times> (error + vconfig) flow) option" where
  "json_load_from parser L = load_stream ''JSON'' (\<lambda>bytes. map_option body_call (json_load_bytes parser L bytes)) L"

definition xml_load_from :: "xml_parser \<Rightarrow> load_limits \<Rightarrow> in_stream \<Rightarrow> (in_stream \<times> (error + vconfig) flow) option" where
  "xml_load_from parser L = load_stream ''XML'' (\<lambda>bytes. map_option BReturns (xml_load_bytes parser L bytes)) L"

lemma load_handlers_body [simp]: "load_handlers kind (body_call r) = r" "load_handlers kind (BReturns x) = Ret x"
  by (cases r) (simp_all add: load_handlers_def)

section \<open>What the mask does\<close>

fun chunks_left :: "nat \<Rightarrow> string \<Rightarrow> string list \<Rightarrow> string list" where
  "chunks_left max_bytes bytes [] = []"
| "chunks_left max_bytes bytes (chunk # chunks) =
     (if chunk = [] \<or> length chunk > (max_bytes + 2 ^ 64 - length bytes) mod 2 ^ 64 then chunks
      else chunks_left max_bytes (bytes @ chunk) chunks)"

lemma stream_read_chunks: "stream_read kind n bytes (map BReturns chunks) =
    (map BReturns (chunks_left n bytes chunks), BReturns (read_chunks kind n bytes chunks))"
  by (induction kind n bytes chunks rule: read_chunks.induct) simp_all

abbreviation after_read :: "in_stream \<Rightarrow> nat \<Rightarrow> string list \<Rightarrow> in_stream" where
  "after_read s n chunks \<equiv> s\<lparr>is_reads := Some (map BReturns (chunks_left n [] chunks))\<rparr>"

abbreviation at_eof :: "in_stream \<Rightarrow> in_stream" where
  "at_eof s \<equiv> s\<lparr>is_state := insert Eofbit (is_state s)\<rparr>"

text \<open>
  A buffer that throws nothing: as the bounded read without a mask, unless the mask has \<open>eofbit\<close> or a
  bit that is set already; then a document that was read to its end is lost.
\<close>

lemma readBounded_masked:
  assumes "is_reads s = Some (map BReturns chunks)"
  shows "stream_readBounded kind s n = (case readBounded kind (Some chunks) n of
      Inl e \<Rightarrow> (after_read s n chunks, BReturns (Inl e))
    | Inr bytes \<Rightarrow> (at_eof (after_read s n chunks),
        if insert Eofbit (is_state s) \<inter> is_mask s = {} then BReturns (Inr bytes) else BThrows_std (is_what s)))"
  by (simp add: stream_readBounded_def assms stream_read_chunks readBounded_def stream_clear_def split: sum.split)

lemma load_stream_masked:
  assumes "is_reads s = Some (map BReturns chunks)"
    and "\<And>bytes. readBounded kind (Some chunks) (maxInputBytes L) = Inr bytes \<Longrightarrow> map_option (load_handlers kind) (body bytes) = loaded"
    and "\<And>e. readBounded kind (Some chunks) (maxInputBytes L) = Inl e \<Longrightarrow> loaded = Some (Ret (Inl e))"
  shows "load_stream kind body L s = (case readBounded kind (Some chunks) (maxInputBytes L) of
      Inl e \<Rightarrow> map_option (Pair (after_read s (maxInputBytes L) chunks)) loaded
    | Inr bytes \<Rightarrow> (if insert Eofbit (is_state s) \<inter> is_mask s = {} then map_option (Pair (at_eof (after_read s (maxInputBytes L) chunks))) loaded
        else Some (at_eof (after_read s (maxInputBytes L) chunks), Ret (fail ParseError (kind @ '' load failed: '' @ is_what s)))))"
proof (cases "readBounded kind (Some chunks) (maxInputBytes L)")
  case (Inl e)
  with assms(3) show ?thesis by (simp add: load_stream_def readBounded_masked[OF assms(1)])
next
  case (Inr bytes)
  with assms(2)[OF Inr, symmetric] show ?thesis
    by (cases "body bytes") (simp_all add: load_stream_def readBounded_masked[OF assms(1)] load_handlers_def)
qed

lemma loads_masked:
  assumes "is_reads s = Some (map BReturns chunks)"
  shows "json_load_from parser L s = (case readBounded ''JSON'' (Some chunks) (maxInputBytes L) of
      Inl e \<Rightarrow> map_option (Pair (after_read s (maxInputBytes L) chunks)) (json_load parser L (Some chunks))
    | Inr bytes \<Rightarrow> (if insert Eofbit (is_state s) \<inter> is_mask s = {}
        then map_option (Pair (at_eof (after_read s (maxInputBytes L) chunks))) (json_load parser L (Some chunks))
        else Some (at_eof (after_read s (maxInputBytes L) chunks), Ret (fail ParseError (''JSON load failed: '' @ is_what s)))))"
    "xml_load_from xparser L s = (case readBounded ''XML'' (Some chunks) (maxInputBytes L) of
      Inl e \<Rightarrow> map_option (Pair (after_read s (maxInputBytes L) chunks)) (map_option Ret (xml_load xparser L (Some chunks)))
    | Inr bytes \<Rightarrow> (if insert Eofbit (is_state s) \<inter> is_mask s = {}
        then map_option (Pair (at_eof (after_read s (maxInputBytes L) chunks))) (map_option Ret (xml_load xparser L (Some chunks)))
        else Some (at_eof (after_read s (maxInputBytes L) chunks), Ret (fail ParseError (''XML load failed: '' @ is_what s)))))"
proof -
  have id: "load_handlers kind \<circ> body_call = id" "load_handlers kind \<circ> BReturns = Ret" for kind :: string
    by (auto simp: fun_eq_iff)
  have append: "''JSON'' @ '' load failed: '' @ t = ''JSON load failed: '' @ t" "''XML'' @ '' load failed: '' @ t = ''XML load failed: '' @ t" for t :: string
    by simp_all
  note j = load_stream_masked[OF assms, of "''JSON''" L "\<lambda>bytes. map_option body_call (json_load_bytes parser L bytes)" "json_load parser L (Some chunks)"]
  note x = load_stream_masked[OF assms, of "''XML''" L "\<lambda>bytes. map_option BReturns (xml_load_bytes xparser L bytes)" "map_option Ret (xml_load xparser L (Some chunks))"]
  show "json_load_from parser L s = (case readBounded ''JSON'' (Some chunks) (maxInputBytes L) of
      Inl e \<Rightarrow> map_option (Pair (after_read s (maxInputBytes L) chunks)) (json_load parser L (Some chunks))
    | Inr bytes \<Rightarrow> (if insert Eofbit (is_state s) \<inter> is_mask s = {}
        then map_option (Pair (at_eof (after_read s (maxInputBytes L) chunks))) (json_load parser L (Some chunks))
        else Some (at_eof (after_read s (maxInputBytes L) chunks), Ret (fail ParseError (''JSON load failed: '' @ is_what s)))))"
    using j[unfolded append] by (simp add: json_load_from_def json_load_def option.map_comp id(1) option.map_id)
  show "xml_load_from xparser L s = (case readBounded ''XML'' (Some chunks) (maxInputBytes L) of
      Inl e \<Rightarrow> map_option (Pair (after_read s (maxInputBytes L) chunks)) (map_option Ret (xml_load xparser L (Some chunks)))
    | Inr bytes \<Rightarrow> (if insert Eofbit (is_state s) \<inter> is_mask s = {}
        then map_option (Pair (at_eof (after_read s (maxInputBytes L) chunks))) (map_option Ret (xml_load xparser L (Some chunks)))
        else Some (at_eof (after_read s (maxInputBytes L) chunks), Ret (fail ParseError (''XML load failed: '' @ is_what s)))))"
    using x[unfolded append] by (simp add: xml_load_from_def xml_load_def xml_readBounded_def option.map_comp id(2))
qed

section \<open>Saving to a stream that throws\<close>

text \<open>The stream decides only what is reported: what is written to it is what a good stream gets.\<close>

lemma json_save_stream: "json_save_to dump config out = map_option (\<lambda>(t, r). (t, case t of None \<Rightarrow> r
    | Some text \<Rightarrow> (case out text of
        Stream_good \<Rightarrow> Ret (Inr ())
      | Stream_bad \<Rightarrow> Ret (fail SerializationError ''failed to write JSON document to stream'')
      | Stream_throws_bad_alloc \<Rightarrow> Bad_alloc
      | Stream_throws_std what \<Rightarrow> Ret (fail SerializationError (''JSON save failed: '' @ what))
      | Stream_throws_other \<Rightarrow> Ret (fail SerializationError ''JSON save failed with a non-standard exception''))))
  (json_save dump config (\<lambda>_. True))"
  unfolding json_save_to_def json_save_unfold
  by (auto simp: map_option_case comp_def split: Option.bind_splits sum.splits dump_outcome.splits)

end
