(* ===== verification/Xml_Alloc.thy ===== *)
theory Xml_Alloc
  imports Alloc_Failure Stream_State
begin

text \<open>
  \<open>XmlInterface::save\<close> when the XML library runs out of memory (\<open>backends/xml/src/xml_interface.cpp\<close>):
  \<open>checkAlloc\<close> and the guarded appends around it. The library does not throw: it gives an empty
  handle, a node or attribute without its name, or \<open>false\<close>. A list of answers says which of its
  requests succeed (when it is used up, all do), as in \<open>Alloc_Failure\<close>. Each operation here is the one
  of \<open>Xml_Save\<close> with the requests it makes, in the order of the source.
\<close>

section \<open>Computations that ask for memory\<close>

type_synonym 'a mem = "bool list \<Rightarrow> (bool list \<times> 'a flow) option"

definition mem_return :: "'a \<Rightarrow> 'a mem" where
  "mem_return v as = Some (as, Ret v)"

definition mem_then :: "'a mem \<Rightarrow> ('a \<Rightarrow> 'b mem) \<Rightarrow> 'b mem" where
  "mem_then m f as = (case m as of
     None \<Rightarrow> None
   | Some (as1, Bad_alloc) \<Rightarrow> Some (as1, Bad_alloc)
   | Some (as1, Ret v) \<Rightarrow> f v as1)"

text \<open>A step that asks for nothing.\<close>

definition mem_of :: "'a option \<Rightarrow> 'a mem" where
  "mem_of x as = map_option (\<lambda>v. (as, Ret v)) x"

text \<open>A request of the library, with what it hands back.\<close>

definition request :: "(bool \<Rightarrow> 'a) \<Rightarrow> 'a mem" where
  "request answer as = (case alloc_ok as of (ok, as1) \<Rightarrow> Some (as1, Ret (answer ok)))"

section \<open>The guarded appends\<close>

definition checkAlloc :: "bool \<Rightarrow> unit mem" where
  "checkAlloc ok as = Some (as, if ok then Ret () else Bad_alloc)"

text \<open>
  Appending a node or an attribute by name asks for the handle and then for its name, whose failure
  shows only as an empty name.
\<close>

definition name_kept :: "string \<Rightarrow> bool" where
  "name_kept name = (case name of [] \<Rightarrow> False | c # _ \<Rightarrow> c \<noteq> CHR 0x00)"

definition appendNamed :: "string \<Rightarrow> unit mem" where
  "appendNamed name = mem_then (request id) (\<lambda>handle.
     mem_then (checkAlloc handle) (\<lambda>_.
     mem_then (request (\<lambda>ok. if ok then name else [])) (\<lambda>kept. checkAlloc (name_kept kept))))"

definition appendNamedChild :: "string \<Rightarrow> unit mem" where
  "appendNamedChild name = appendNamed name"

definition appendNamedAttribute :: "string \<Rightarrow> unit mem" where
  "appendNamedAttribute name = appendNamed name"

definition mem_setElementText :: "string \<Rightarrow> xml list \<Rightarrow> xml list mem" where
  "mem_setElementText text cs = mem_then (request id) (\<lambda>handle.
     mem_then (checkAlloc handle) (\<lambda>_.
     mem_then (request id) (\<lambda>set.
     mem_then (checkAlloc set) (\<lambda>_. mem_return (setElementText text cs)))))"

definition mem_setTypeAttribute :: "string \<Rightarrow> (string \<times> string) list \<Rightarrow> (string \<times> string) list mem" where
  "mem_setTypeAttribute ty attrs = mem_then (appendNamedAttribute kTypeAttr) (\<lambda>_.
     mem_then (request id) (\<lambda>set.
     mem_then (checkAlloc set) (\<lambda>_. mem_return (setTypeAttribute ty attrs))))"

section \<open>The emitter\<close>

fun mem_appendMembers :: "(config_node \<Rightarrow> string \<Rightarrow> (error + xml) mem) \<Rightarrow> xml list \<Rightarrow>
    (string \<times> config_node) list \<Rightarrow> (error + xml list) mem" where
  "mem_appendMembers emit cs [] = mem_return (Inr cs)"
| "mem_appendMembers emit cs ((key, member) # ms) = mem_then (emit member key)
     (\<lambda>child. case child of Inl e \<Rightarrow> mem_return (Inl e) | Inr x \<Rightarrow> mem_appendMembers emit (cs @ [x]) ms)"

fun mem_appendItems :: "(nat \<Rightarrow> (error + xml) mem) \<Rightarrow> xml list \<Rightarrow> nat list \<Rightarrow> (error + xml list) mem" where
  "mem_appendItems emit cs [] = mem_return (Inr cs)"
| "mem_appendItems emit cs (i # idx) = mem_then (emit i)
     (\<lambda>child. case child of Inl e \<Rightarrow> mem_return (Inl e) | Inr x \<Rightarrow> mem_appendItems emit (cs @ [x]) idx)"

text \<open>The type attribute, then the text, of a scalar element.\<close>

definition mem_typed_text :: "string \<Rightarrow> string \<Rightarrow> string \<Rightarrow> (error + xml) mem" where
  "mem_typed_text name ty text = mem_then (mem_setTypeAttribute ty []) (\<lambda>attrs.
     mem_then (mem_setElementText text []) (\<lambda>cs. mem_return (Inr (XElement name attrs cs))))"

primrec mem_appendValueElement :: "(double \<Rightarrow> string) \<Rightarrow> nat \<Rightarrow> arena \<Rightarrow> config_node \<Rightarrow> string \<Rightarrow> (error + xml) mem" where
  "mem_appendValueElement fmt 0 ar node name = mem_of None"
| "mem_appendValueElement fmt (Suc f) ar node name =
     (if \<not> isValidElementName name then mem_return (bad_name name)
      else mem_then (appendNamedChild name) (\<lambda>_. mem_then (mem_of (cn_type ar node)) (\<lambda>ty. case ty of
           TNull \<Rightarrow> mem_then (mem_setTypeAttribute ''null'' []) (\<lambda>attrs. mem_return (Inr (XElement name attrs [])))
         | TBool \<Rightarrow> (case cn_as TyBool ar node of
               Inr (VBool b) \<Rightarrow> mem_typed_text name ''bool'' (if b then ''true'' else ''false'') | _ \<Rightarrow> mem_of None)
         | TInt \<Rightarrow> (case cn_as (TyInteger True 64) ar node of
               Inr (VInteger i) \<Rightarrow> mem_typed_text name ''int'' (int_str i) | _ \<Rightarrow> mem_of None)
         | TDouble \<Rightarrow> (case cn_as TyDouble ar node of
               Inr (VDouble d) \<Rightarrow> (if \<not> isfinite d
                 then mem_return (fail SerializationError (''non-finite double at key '' @ squote @ name @ squote
                   @ '' is unrepresentable in the XML mapping''))
                 else mem_typed_text name ''double'' (fmt d)) | _ \<Rightarrow> mem_of None)
         | TString \<Rightarrow> (case cn_as TyString ar node of
               Inr (VString s) \<Rightarrow> (if \<not> isXmlRepresentable s
                 then mem_return (fail SerializationError (''string at key '' @ squote @ name @ squote
                   @ '' contains a control character that XML 1.0 cannot represent''))
                 else if s \<noteq> [] then mem_then (mem_setElementText s []) (\<lambda>cs. mem_return (Inr (XElement name [] cs)))
                 else mem_return (Inr (XElement name [] []))) | _ \<Rightarrow> mem_of None)
         | TObject \<Rightarrow> mem_then (mem_of (cn_size ar node)) (\<lambda>n.
             if n = 0 then mem_then (mem_setTypeAttribute ''object'' []) (\<lambda>attrs. mem_return (Inr (XElement name attrs [])))
             else mem_then (mem_of (cn_members ar node)) (\<lambda>members. case members of Inl e \<Rightarrow> mem_of None
                | Inr ms \<Rightarrow> mem_then (mem_appendMembers (mem_appendValueElement fmt f ar) [] ms)
                    (\<lambda>r. mem_return (map_sum id (XElement name []) r))))
         | TArray \<Rightarrow> mem_then (mem_setTypeAttribute ''array'' []) (\<lambda>attrs. mem_then (mem_of (cn_size ar node)) (\<lambda>n.
             mem_then (mem_appendItems (\<lambda>i. mem_then (mem_of (cn_at ar node i)) (\<lambda>c. case c of Inl e \<Rightarrow> mem_of None
                 | Inr child \<Rightarrow> mem_appendValueElement fmt f ar child kItemName)) [] [0..<n])
               (\<lambda>r. mem_return (map_sum id (XElement name attrs) r)))))))"

section \<open>Save\<close>

definition build_document :: "(double \<Rightarrow> string) \<Rightarrow> vconfig \<Rightarrow> (error + xml) mem" where
  "build_document fmt config = mem_then (appendNamedChild kRootName) (\<lambda>_.
     mem_then (appendNamedAttribute kVersionAttr) (\<lambda>_.
     mem_then (request id) (\<lambda>set. mem_then (checkAlloc set) (\<lambda>_.
     mem_then (mem_of (cm_root (vc_model config))) (\<lambda>root.
     mem_then (mem_of (cn_members (cm_arena (vc_model config)) root)) (\<lambda>members. case members of Inl e \<Rightarrow> mem_of None
      | Inr ms \<Rightarrow> mem_then (mem_appendMembers (mem_appendValueElement fmt stack_fuel (cm_arena (vc_model config))) [] ms)
          (\<lambda>r. mem_return (map_sum id (XElement kRootName [(kVersionAttr, nat_str (unat (vc_version config)))]) r))))))))"

text \<open>What printing the document to the stream makes of the call, through the \<open>catch\<close> clauses.\<close>

definition save_handlers :: "stream_outcome \<Rightarrow> (error + unit) flow" where
  "save_handlers written = (case written of
     Stream_good \<Rightarrow> Ret (Inr ())
   | Stream_bad \<Rightarrow> Ret (fail SerializationError ''failed to write XML document to stream'')
   | Stream_throws_bad_alloc \<Rightarrow> Bad_alloc
   | Stream_throws_std what \<Rightarrow> Ret (fail SerializationError (''XML save failed: '' @ what))
   | Stream_throws_other \<Rightarrow> Ret (fail SerializationError ''XML save failed with a non-standard exception''))"

definition mem_xml_save :: "(double \<Rightarrow> string) \<Rightarrow> (xml \<Rightarrow> string) \<Rightarrow> vconfig \<Rightarrow> (string \<Rightarrow> stream_outcome) \<Rightarrow> bool list \<Rightarrow>
    (bool list \<times> string option \<times> (error + unit) flow) option" where
  "mem_xml_save fmt print config out as = do {
     (as1, r) \<leftarrow> build_document fmt config as;
     Some (as1, case r of Bad_alloc \<Rightarrow> (None, Bad_alloc)
       | Ret (Inl e) \<Rightarrow> (None, Ret (Inl e))
       | Ret (Inr doc) \<Rightarrow> (Some (print doc), save_handlers (out (print doc)))) }"

section \<open>Either the memory or the result\<close>

text \<open>
  \<open>m\<close> does what \<open>x\<close> does as long as its requests are served, and stops with \<open>std::bad_alloc\<close> at the
  first one that is not.
\<close>

definition follows :: "'a mem \<Rightarrow> 'a option \<Rightarrow> bool" where
  "follows m x \<longleftrightarrow> (\<forall>v as. x = Some v \<longrightarrow>
     (\<exists>used rest. as = used @ rest \<and> m as = Some (rest, if False \<in> set used then Bad_alloc else Ret v)))"

lemma follows_return: "follows (mem_return v) (Some v)"
  by (simp add: follows_def mem_return_def)

lemma follows_of: "follows (mem_of x) x"
  by (simp add: follows_def mem_of_def)

lemma follows_none: "follows m None"
  by (simp add: follows_def)

lemma follows_then:
  assumes "follows m x" and "\<And>v. x = Some v \<Longrightarrow> follows (f v) (g v)"
  shows "follows (mem_then m f) (x \<bind> g)"
  unfolding follows_def
proof (intro allI impI)
  fix w as
  assume "x \<bind> g = Some w"
  then obtain v where v: "x = Some v" "g v = Some w" by (cases x) auto
  from assms(1) v(1) obtain used rest where
    m: "as = used @ rest" "m as = Some (rest, if False \<in> set used then Bad_alloc else Ret v)"
    unfolding follows_def by blast
  show "\<exists>used rest. as = used @ rest \<and> mem_then m f as = Some (rest, if False \<in> set used then Bad_alloc else Ret w)"
  proof (cases "False \<in> set used")
    case True
    with m show ?thesis by (intro exI[of _ used] exI[of _ rest]) (simp add: mem_then_def)
  next
    case False
    from assms(2)[OF v(1)] v(2) obtain used' rest' where
      f: "rest = used' @ rest'" "f v rest = Some (rest', if False \<in> set used' then Bad_alloc else Ret w)"
      unfolding follows_def by blast
    with m False show ?thesis by (intro exI[of _ "used @ used'"] exI[of _ rest']) (simp add: mem_then_def)
  qed
qed

text \<open>The same for a first step that computes nothing, and for a last one that only wraps the result.\<close>

lemma follows_guard:
  assumes "follows m (Some v)" and "follows (f v) y"
  shows "follows (mem_then m f) y"
  using follows_then[of m "Some v" f "\<lambda>_. y"] assms by simp

lemma follows_wrap:
  assumes "follows m x"
  shows "follows (mem_then m (\<lambda>r. mem_return (h r))) (map_option h x)"
  using follows_then[OF assms, of "\<lambda>r. mem_return (h r)" "Some \<circ> h"]
  by (simp add: map_conv_bind_option comp_def follows_return)

lemma request_checked:
  assumes "ok (answer True)" and "\<not> ok (answer False)" and "follows (f (answer True)) x"
  shows "follows (mem_then (request answer) (\<lambda>h. mem_then (checkAlloc (ok h)) (\<lambda>_. f h))) x"
  unfolding follows_def
proof (intro allI impI)
  fix v as
  assume x: "x = Some v"
  show "\<exists>used rest. as = used @ rest \<and> mem_then (request answer) (\<lambda>h. mem_then (checkAlloc (ok h)) (\<lambda>_. f h)) as =
      Some (rest, if False \<in> set used then Bad_alloc else Ret v)"
  proof (cases as)
    case Nil
    from assms(3) x have "f (answer True) [] = Some ([], Ret v)" by (force simp: follows_def)
    with Nil assms(1) show ?thesis by (simp add: mem_then_def request_def checkAlloc_def alloc_ok_def)
  next
    case (Cons b bs)
    show ?thesis
    proof (cases b)
      case True
      from assms(3) x obtain used rest where "bs = used @ rest"
        "f (answer True) bs = Some (rest, if False \<in> set used then Bad_alloc else Ret v)" unfolding follows_def by blast
      with Cons True assms(1) show ?thesis
        by (intro exI[of _ "True # used"] exI[of _ rest]) (simp add: mem_then_def request_def checkAlloc_def alloc_ok_def)
    next
      case False
      with Cons assms(2) show ?thesis
        by (intro exI[of _ "[False]"] exI[of _ bs]) (simp add: mem_then_def request_def checkAlloc_def alloc_ok_def)
    qed
  qed
qed

text \<open>A handle or a flag that is checked as it is.\<close>

lemma follows_served:
  assumes "follows m x"
  shows "follows (mem_then (request id) (\<lambda>ok. mem_then (checkAlloc ok) (\<lambda>_. m))) x"
  using request_checked[of "\<lambda>b. b" id "\<lambda>_. m" x] assms by simp

lemma mem_then_return [simp]: "mem_then m mem_return = m"
  by (auto simp: fun_eq_iff mem_then_def mem_return_def split: option.splits flow.splits)

lemma no_name_kept [simp]: "\<not> name_kept []"
  by (simp add: name_kept_def)

lemma follows_append:
  assumes "name_kept name"
  shows "follows (appendNamed name) (Some ())"
proof -
  have "follows (mem_then (request (\<lambda>ok. if ok then name else [])) (\<lambda>kept. checkAlloc (name_kept kept))) (Some ())"
    using request_checked[of name_kept "\<lambda>ok. if ok then name else []" "\<lambda>_. mem_return ()" "Some ()"] assms
    by (simp add: follows_return)
  then show ?thesis unfolding appendNamed_def by (rule follows_served)
qed

lemma byte_not_nul: "0 < n \<Longrightarrow> n < 256 \<Longrightarrow> byte n \<noteq> CHR 0x00"
  using of_char_byte[of n] by auto

lemma encode_not_nul:
  assumes "0 < c" and "c < 0x110000"
  shows "name_kept (encodeUtf8 c @ t)"
proof -
  have "c div 64 < 64" if "c < 0x800" using that by simp
  moreover have "c div 4096 < 16" if "c < 0x10000" using that by simp
  moreover have "c div 262144 < 8" using assms(2) by simp
  ultimately show ?thesis using assms(1) by (simp add: encodeUtf8_def name_kept_def byte_not_nul)
qed

lemma valid_name_kept:
  assumes "isValidElementName name"
  shows "name_kept name"
proof -
  from assms obtain c cs where "name = encodeUtf8 c @ utf8 cs" "isNameStartChar c"
    by (auto simp: isValidElementName_iff)
  then show ?thesis using encode_not_nul[of c "utf8 cs"] by (auto simp: isNameStartChar_def)
qed

lemma follows_text: "follows (mem_setElementText text cs) (Some (setElementText text cs))"
  unfolding mem_setElementText_def by (intro follows_served follows_return)

lemma follows_type: "follows (mem_setTypeAttribute ty attrs) (Some (setTypeAttribute ty attrs))"
proof -
  have "name_kept kTypeAttr" by (simp add: name_kept_def kTypeAttr_def)
  from follows_append[OF this] show ?thesis unfolding mem_setTypeAttribute_def appendNamedAttribute_def
    by (rule follows_guard) (intro follows_served follows_return)
qed

section \<open>Every operation follows the one of the emitter\<close>

lemma follows_typed_text:
  "follows (mem_typed_text name ty text) (Some (Inr (XElement name (setTypeAttribute ty []) (setElementText text []))))"
  unfolding mem_typed_text_def by (intro follows_guard[OF follows_type] follows_guard[OF follows_text] follows_return)

lemma follows_child:
  assumes "isValidElementName name" and "follows m x"
  shows "follows (mem_then (appendNamedChild name) (\<lambda>_. m)) x"
  unfolding appendNamedChild_def by (rule follows_guard[OF follows_append[OF valid_name_kept[OF assms(1)]] assms(2)])

lemma follows_members:
  assumes "\<And>node key. follows (emit' node key) (emit node key)"
  shows "follows (mem_appendMembers emit' cs ms) (appendMembers emit cs ms)"
  by (induction ms arbitrary: cs) (auto intro!: follows_return follows_then assms split: sum.split)

lemma follows_items:
  assumes "\<And>i. follows (emit' i) (emit i)"
  shows "follows (mem_appendItems emit' cs idx) (appendItems emit cs idx)"
  by (induction idx arbitrary: cs) (auto intro!: follows_return follows_then assms split: sum.split)

lemma follows_element: "follows (mem_appendValueElement fmt f ar node name) (appendValueElement fmt f ar node name)"
proof (induction f arbitrary: node name)
  case 0
  show ?case by (simp add: follows_none)
next
  case (Suc f)
  show ?case
  proof (cases "isValidElementName name")
    case False
    then show ?thesis by (simp add: follows_return)
  next
    case True
    have items: "follows (mem_appendItems (\<lambda>i. mem_then (mem_of (cn_at ar node i)) (\<lambda>c. case c of Inl e \<Rightarrow> mem_of None
          | Inr child \<Rightarrow> mem_appendValueElement fmt f ar child kItemName)) [] [0..<n])
        (appendItems (\<lambda>i. do { c \<leftarrow> cn_at ar node i;
          (case c of Inl e \<Rightarrow> None | Inr child \<Rightarrow> appendValueElement fmt f ar child kItemName) }) [] [0..<n])" for n
      by (intro follows_items follows_then[OF follows_of]) (auto intro: follows_none Suc.IH split: sum.split)
    have members: "follows (mem_appendMembers (mem_appendValueElement fmt f ar) [] ms) (appendMembers (appendValueElement fmt f ar) [] ms)" for ms
      by (rule follows_members) (rule Suc.IH)
    show ?thesis
      unfolding appendValueElement.simps mem_appendValueElement.simps if_not_P[OF not_not[THEN iffD2, OF True]]
    proof (rule follows_child[OF True], rule follows_then[OF follows_of], goal_cases)
      case (1 ty)
      show ?case
        by (cases ty) (auto intro!: follows_guard[OF follows_type] follows_guard[OF follows_text] follows_return follows_none
          follows_typed_text follows_then[OF follows_of] follows_wrap items members split: sum.split cpp_value.split)
    qed
  qed
qed

lemma follows_document: "follows (build_document fmt config) (xml_built fmt config)"
proof -
  have k: "name_kept kRootName" "name_kept kVersionAttr" by (simp_all add: name_kept_def kRootName_def kVersionAttr_def)
  show ?thesis unfolding build_document_def xml_built_def appendNamedChild_def appendNamedAttribute_def
    by (intro follows_guard[OF follows_append[OF k(1)]] follows_guard[OF follows_append[OF k(2)]] follows_served)
      (auto intro!: follows_then[OF follows_of] follows_none follows_wrap follows_members follows_element split: sum.split)
qed

text \<open>
  Whatever requests fail, \<open>save\<close> either throws \<open>std::bad_alloc\<close> with nothing printed, or prints the
  whole document, or reports what cannot be represented.
\<close>

lemma xml_save_requests:
  assumes "models (vc_model config) v"
  obtains used rest where "as = used @ rest"
    and "False \<in> set used \<Longrightarrow> mem_xml_save fmt print config out as = Some (rest, None, Bad_alloc)"
    and "False \<notin> set used \<Longrightarrow> saveable v \<Longrightarrow> mem_xml_save fmt print config out as =
      Some (rest, Some (print (root_element fmt config v)), save_handlers (out (print (root_element fmt config v))))"
    and "False \<notin> set used \<Longrightarrow> \<not> saveable v \<Longrightarrow>
      \<exists>e. mem_xml_save fmt print config out as = Some (rest, None, Ret (Inl e)) \<and> err_code e = SerializationError"
proof -
  note d = xml_built_emits[OF assms, of fmt]
  then obtain r where r: "xml_built fmt config = Some r" by (cases "saveable v") auto
  from follows_document[of fmt config] r obtain used rest where
    u: "as = used @ rest" "build_document fmt config as = Some (rest, if False \<in> set used then Bad_alloc else Ret r)"
    unfolding follows_def by blast
  show thesis
  proof (rule that[OF u(1)])
    show "mem_xml_save fmt print config out as = Some (rest, None, Bad_alloc)" if "False \<in> set used"
      using u(2) that by (simp add: mem_xml_save_def)
    show "mem_xml_save fmt print config out as =
      Some (rest, Some (print (root_element fmt config v)), save_handlers (out (print (root_element fmt config v))))"
      if "False \<notin> set used" "saveable v"
      using u(2) that d r by (simp add: mem_xml_save_def)
    show "\<exists>e. mem_xml_save fmt print config out as = Some (rest, None, Ret (Inl e)) \<and> err_code e = SerializationError"
      if "False \<notin> set used" "\<not> saveable v"
      using u(2) that d r by (auto simp: mem_xml_save_def)
  qed
qed

end
