(* ===== verification/Handle_Types.thy ===== *)
theory Handle_Types
  imports Node_View
begin

text \<open>
  The type of a node never changes: whatever \<open>set\<close> and \<open>remove\<close> do, a handle that is still valid
  afterwards reports the type it reported before. A write that would change a type is refused, and a
  slot that is used again gets a new generation.
\<close>

section \<open>Removing keeps types\<close>

lemma tree_remove_keeps_type:
  "tree_remove p v = Inr v' \<Longrightarrow> p \<noteq> [] \<Longrightarrow> tree_resolve q v = Inr c \<Longrightarrow> \<not> (\<exists>r. q = p @ r) \<Longrightarrow> wf_at d v \<Longrightarrow>
     \<exists>c'. tree_resolve (shift_after p q) v' = Inr c' \<and> cv_type c' = cv_type c"
proof (induction p v arbitrary: v' q c d rule: tree_remove.induct)
  case (2 k ps ms)
  obtain e where d: "map_of ms k = Some e"
    using "2.prems"(1) by (cases "map_of ms k") (simp_all add: no_member_def)
  show ?case
  proof (cases "q = []")
    case True
    with 2 tree_remove_type[OF "2.prems"(1)] show ?thesis by (cases ps) auto
  next
    case False
    then obtain k' r where q: "q = Key k' # r" using "2.prems"(3)
      by (cases q rule: list.exhaust; cases "hd q") (auto simp: traverses_nonarray_def)
    show ?thesis
    proof (cases "ps = []")
      case True
      with 2 d q show ?thesis by (auto simp: map_of_delete_key split: option.splits)
    next
      case ps: False
      then obtain s ps' where s: "ps = s # ps'" by (cases ps) auto
      from "2.prems"(1) ps d obtain d' where d': "tree_remove ps e = Inr d'" "v' = Obj (upsert k d' ms)"
        by (auto split: sum.splits)
      from "2.IH"[OF d ps d'(1) ps, of r c "Suc d"] map_of_wf[OF "2.prems"(5) d] "2.prems"(3,4) q d d'(2) s
      show ?thesis by (cases "k' = k") (auto simp: map_of_upsert split: option.splits)
    qed
  qed
next
  case (4 j ps es)
  have j: "\<not> length es \<le> j" using "4.prems"(1) by (auto simp: out_of_range_def split: if_splits)
  show ?case
  proof (cases "q = []")
    case True
    with 4 tree_remove_type[OF "4.prems"(1)] show ?thesis by (cases ps) auto
  next
    case False
    then obtain i r where q: "q = Index i # r" using "4.prems"(3)
      by (cases q rule: list.exhaust; cases "hd q") (auto simp: traverses_nonobject_def)
    then have i: "i < length es" "tree_resolve r (es ! i) = Inr c" using "4.prems"(3) by (auto simp: out_of_range_def split: if_splits)
    show ?thesis
    proof (cases "ps = []")
      case True
      with 4 q i j show ?thesis by (auto simp: nth_drop_nth length_drop_nth)
    next
      case ps: False
      then obtain s ps' where s: "ps = s # ps'" by (cases ps) auto
      from "4.prems"(1) ps j obtain d' where d': "tree_remove ps (es ! j) = Inr d'" "v' = Arr (es[j := d'])"
        by (auto split: sum.splits)
      from "4.IH"[OF j ps d'(1) ps, of r c "Suc d"] j "4.prems"(4,5) q i d'(2) s show ?thesis by (cases "i = j") auto
    qed
  qed
qed (auto simp: traverses_nonobject_def traverses_nonarray_def)

lemma shift_after_wf: "wf_path p \<Longrightarrow> wf_path q \<Longrightarrow> wf_path (shift_after p q)"
proof -
  have s: "wf_segment y \<Longrightarrow> wf_segment (shift_segment x y)" for x y by (cases x; cases y) auto
  have k: "\<not> is_index y \<Longrightarrow> \<not> is_index (shift_segment x y)" for x y by (cases x; cases y) auto
  have a: "\<forall>y \<in> set q. wf_segment y \<Longrightarrow> \<forall>y \<in> set (shift_after p q). wf_segment y" for p q
    by (induction p q rule: shift_after.induct) (auto simp: s)
  assume "wf_path p" "wf_path q"
  then show ?thesis using a[of q p] k by (cases "(p, q)" rule: shift_after.cases) (auto simp: wf_path_def)
qed

section \<open>Handles\<close>

lemma type_after_set:
  assumes m: "models m v" "cv_distinct new" "room_for v new" "cm_set m path new = Some (m', r)"
    and h: "cp_parse qpath = Inr q" "cm_nodeAt m qpath = Some (Inr h)" "cn_valid (cm_arena m') h"
  shows "cn_type (cm_arena m') h = cn_type (cm_arena m) h"
proof (cases r)
  case (Inl e)
  with cs.put_atomic[OF m(1-3)] m(4) show ?thesis by blast
next
  case (Inr u)
  with m(4) have ok: "cm_set m path new = Some (m', Inr ())" by simp
  obtain p v' where p: "cp_parse path = Inr p" "tree_set p new v = Inr v'" "models m' v'" by (rule cs.put_ok[OF m(1-3) ok])
  obtain c where c: "tree_resolve q v = Inr c"
    using nodeAt_error[OF m(1), of qpath] h(1,2) by (cases "tree_resolve q v") (auto simp: spec_get_def)
  from set_handles[OF m(1-3) ok p(1) h(1,2)] h(3) have n: "\<not> (\<exists>r. r \<noteq> [] \<and> q = p @ r)" "cm_nodeAt m' qpath = Some (Inr h)" by blast+
  then have "\<not> below_path p q" by (auto simp: below_path_def)
  from tree_set_keeps_type[OF p(2) this c] obtain c' where c': "tree_resolve q v' = Inr c'" "cv_type c' = cv_type c" by blast
  show ?thesis
    using cn_type_views[OF nodeAt_views[OF m(1) h(2,1)] m(1) c] cn_type_views[OF nodeAt_views[OF p(3) n(2) h(1)] p(3) c'(1)] c'(2) by simp
qed

lemma type_after_remove:
  assumes m: "models m v" "cm_remove m path = Some (m', r)"
    and h: "cp_parse qpath = Inr q" "cm_nodeAt m qpath = Some (Inr h)" "cn_valid (cm_arena m') h"
  shows "cn_type (cm_arena m') h = cn_type (cm_arena m) h"
proof (cases r)
  case (Inl e)
  with cs.del_atomic[OF m(1)] m(2) show ?thesis by blast
next
  case (Inr u)
  with m(2) have ok: "cm_remove m path = Some (m', Inr ())" by simp
  from cs.del_law[OF m(1), of path] ok obtain v' where v': "spec_remove v path = Inr v'" "models m' v'"
    by (cases "spec_remove v path") auto
  then obtain p where p: "cp_parse path = Inr p" "tree_remove p v = Inr v'" by (auto simp: spec_remove_def split: sum.splits)
  note wf = cp_parse_wf[OF p(1)] cp_parse_wf[OF h(1)]
  obtain c where c: "tree_resolve q v = Inr c"
    using nodeAt_error[OF m(1), of qpath] h(1,2) by (cases "tree_resolve q v") (auto simp: spec_get_def)
  note rh = remove_handles[OF m(1) ok p(1) h(1,2)]
  have no: "\<not> (\<exists>r. q = p @ r)" using rh(1) h(3) by blast
  let ?q = "shift_after p q"
  have r: "cp_parse (render_path ?q) = Inr ?q" by (rule cp_parse_render[OF shift_after_wf[OF wf]])
  from tree_remove_keeps_type[OF p(2) _ c no] models_wf[OF m(1)] wf(1) obtain c' where c': "tree_resolve ?q v' = Inr c'" "cv_type c' = cv_type c"
    by (auto simp: wf_path_def wf_model_value_def)
  show ?thesis
    using cn_type_views[OF nodeAt_views[OF m(1) h(2,1)] m(1) c]
      cn_type_views[OF nodeAt_views[OF v'(2) rh(2)[OF no r] r] v'(2) c'(1)] c'(2) by simp
qed

lemma nodeAt_type:
  assumes "models m v" "cp_parse qpath = Inr q" "cm_nodeAt m qpath = Some (Inr h)"
  shows "\<exists>t. cn_type (cm_arena m) h = Some t"
proof -
  obtain c where c: "tree_resolve q v = Inr c"
    using nodeAt_error[OF assms(1), of qpath] assms(2,3) by (cases "tree_resolve q v") (auto simp: spec_get_def)
  from cn_type_views[OF nodeAt_views[OF assms(1,3,2)] assms(1) c] show ?thesis by blast
qed

end
