(* ===== verification/Spec2Isabelle.thy ===== *)
theory Spec2Isabelle
  imports Config_Runtime Model_Runs Json_Save Xml_Save Checkpoint_Json Alloc_Failure Example_Basics Example_Lifecycle Example_Firmware Example_Sensorbridge Checkpoint_Quiet Checkpoint_Windows Checkpoint_Xml Stream_State Xml_Alloc Handle_Types
begin

text \<open>
  A model of configmanager, a C++20 library for versioned configuration trees: a mutable tree
  model addressed by dotted paths (\<open>ConfigModel\<close>), read-only handles into it (\<open>ConfigNode\<close>), a
  catalog of versions with their default configurations, a registry of migrations between
  adjacent versions, and a runtime that migrates and repairs a stored configuration in one
  transaction; backends that load and save a configuration as JSON and as XML; and a checkpoint
  store that replaces the configuration file atomically, keeps copies of it per version, and
  finds the best copy to go back to.

  Parts of the program and the theories that model them (file names are relative to the
  repository):
  \<^item> \<open>Cfg_Prelude\<close>: \<open>include/configmanager/result.hpp\<close> and the generic lemmas. \<open>Result<T>\<close> is
    \<open>error + 'a\<close>, \<open>Inl\<close> the error with its code and message. An outer \<open>option\<close> is \<open>None\<close> where the
    C++ would be undefined (a dead or absent slot, an assertion) or recurse past the bound
    below, so a theorem that says \<open>= Some r\<close> says that none of this happens.
  \<^item> \<open>Config_Value\<close>: \<open>config_value.hpp/.cpp\<close>, the detached value tree \<open>config_value\<close> and its builder
    with the hash index (\<open>object_builder\<close>), the overloads of \<open>of\<close>.
  \<^item> \<open>Config_Path\<close>: \<open>config_path.hpp/.cpp\<close>, the parser \<open>cp_parse\<close>, the documented grammar \<open>g_path\<close>, and
    canonical path texts.
  \<^item> \<open>Node_Arena\<close>: \<open>src/node_arena.hpp\<close>, the slot arena with its intrusive free list and 32-bit
    generations; \<open>Subtree_Heap\<close> holds the separation-style lemmas on subtrees living in it
    (\<open>heap ar F fl R\<close>: the arena holds exactly the forest \<open>F\<close> and the free list \<open>fl\<close>).
  \<^item> \<open>Config_Node\<close> and \<open>Node_View\<close>: \<open>config_node.hpp/.cpp\<close>, the handle and its accessors; a handle is a
    slot id with the generation it was taken at.
  \<^item> \<open>Config_Model\<close>: \<open>config_model.hpp/.cpp\<close>, every operation of \<open>ConfigModel\<close> on the arena, in the order
    of the source (\<open>validateTree\<close>, \<open>buildFromValue\<close>, \<open>freeSubtree\<close>, \<open>assignContents\<close>, \<open>planWrite\<close>,
    \<open>applyWrite\<close>, \<open>resolve\<close>, and the public operations \<open>cm_*\<close>). \<open>cm_clone\<close> copies the arena.
  \<^item> \<open>Alloc_Failure\<close>: \<open>set\<close> again, with allocations that fail: \<open>try_set\<close> takes a list of answers, one
    per allocation, and unwinds through the \<open>SubtreeGuard\<close>s of \<open>config_model.cpp\<close>; proved to leave the
    model as it was or to do what \<open>cm_set\<close> does.
  \<^item> \<open>Config_Tree\<close>: the abstract specification of the same operations on the value tree alone
    (\<open>tree_set\<close>, \<open>tree_remove\<close>, \<open>tree_resolve\<close>). \<open>Model_Refinement\<close> proves that the arena operations
    implement it: \<open>models m v\<close> says that the arena of \<open>m\<close> holds exactly the tree \<open>v\<close>, with no slot
    leaked and every other slot on the free list. What a value must satisfy is stated there without the
    code's \<open>validateTree\<close>: \<open>defects\<close> lists the nodes below the depth limit and the keys that are no path of
    the grammar in document order, \<open>spec_validate\<close> takes the first.
  \<^item> \<open>Model_Runs\<close>: sequences of \<open>set\<close> and \<open>remove\<close> on a model and on its value, and that the slots the free
    list threads after one are exactly the dead ones.
  \<^item> \<open>Handle_Types\<close>: that the type of a node is fixed, over \<open>set\<close> and \<open>remove\<close>.
  \<^item> \<open>Config_Store\<close>: the interface the rest of the library relies on, as the locales
    \<open>config_reader\<close> and \<open>config_store\<close>, and their interpretations \<open>cm\<close> and \<open>cs\<close> on \<open>ConfigModel\<close>.
  \<^item> \<open>Version_Catalog\<close>: \<open>version_catalog.hpp/.cpp\<close>; \<open>Migration\<close>: \<open>migration_registry.hpp/.cpp\<close> and
    \<open>migration_engine.hpp/.cpp\<close>. Callbacks and default factories are arbitrary functions on a state
    \<open>'s\<close> that may return, fail, or throw; \<open>Bad_alloc\<close> is the rethrown \<open>std::bad_alloc\<close>. \<open>steps_complete\<close> and \<open>step_stops\<close> say
    of callbacks that each of a list of steps returned success, or that one did not.
  \<^item> \<open>Config_Runtime\<close>: \<open>config_runtime.hpp/.cpp\<close>: repair (\<open>fillMissing\<close>), \<open>synchronize\<close> and
    \<open>createDefault\<close>; \<open>fill\<close> is what repair does to the value.
  \<^item> \<open>Typed_Read\<close>: the typed reads \<open>as<T>()\<close> and \<open>get<T>()\<close>, the lossless conversion \<open>convertScalar\<close> of
    \<open>config_node.hpp\<close>. A \<open>double\<close> is its 64 bits; \<open>decode64\<close> reads them as a sign and a multiple of
    \<open>2^-1074\<close>, and rounding to binary32 and binary64 is to nearest, ties to even.
  \<^item> \<open>Json_Load\<close> and \<open>Json_Save\<close>: \<open>backends/json/src/json_interface.cpp\<close>, the bounded read, the SAX
    handler \<open>ValueBuilder\<close> as a state machine over parser events, its equivalence with the recursive
    reading of a document, the emitter \<open>toJson\<close>, \<open>load\<close> and \<open>save\<close>. The lexer and the printer of the
    JSON library are arguments: a parser turns a text into its events and says how it ends, a
    printer turns a document into a text or throws. \<open>Bounded_Read\<close> holds \<open>load_limits.hpp\<close> and the
    bounded read both backends have a copy of.
  \<^item> \<open>Xml_Text\<close>, \<open>Number_Text\<close>, \<open>Xml_Load\<close> and \<open>Xml_Save\<close>: \<open>backends/xml/src/xml_interface.cpp\<close>. \<open>Xml_Text\<close>
    is the strict UTF-8 decoder and the checks on names and strings, proved to be the encoding form
    of Unicode and the productions of XML 1.0; \<open>Number_Text\<close> is what the code uses of
    \<open>std::from_chars\<close>; \<open>Xml_Load\<close> and \<open>Xml_Save\<close> are the conversions between elements and values,
    \<open>load\<close> and \<open>save\<close>. The XML parser and the document printer are arguments; \<open>std::to_chars\<close> of a
    double is an argument with the property \<open>to_chars_ok\<close>, that the text reads back as the double.
    \<open>laid_out\<close> is what indenting does to a document.
  \<^item> \<open>Stream_State\<close>: \<open>load\<close> of both backends from a stream with its state, its exception mask and a
    buffer that may throw, through the \<open>catch\<close> clauses; \<open>json_load\<close> and \<open>xml_load\<close> are its case of an
    unmasked stream.
  \<^item> \<open>Xml_Alloc\<close>: XML \<open>save\<close> again, with an XML library that runs out of memory at any of its requests
    and \<open>checkAlloc\<close> after each of them, and a stream that may throw; \<open>follows\<close> relates each
    operation to the one of \<open>Xml_Save\<close>.
  \<^item> \<open>File_System\<close>, \<open>Std_Sort\<close> and \<open>Checkpoint_*\<close>: \<open>checkpoint/src/checkpoint_store.cpp\<close>. \<open>File_System\<close> is what
    the store uses of POSIX and \<open>std::filesystem\<close>, with a list of answers in the state by which the
    environment lets any call fail or be short, and a log of every file system in between
    (\<open>fs::create_directories\<close> makes one directory at a time and a failure leaves those made, \<open>fs::remove\<close>
    refuses a directory with entries, \<open>stat\<close> tells a missing file from a file in the way of a directory); \<open>Std_Sort\<close> is
    \<open>std::sort\<close> with its contract on the comparator as the locale \<open>strict_weak_order\<close>, interpreted on
    both comparators of the store. \<open>Checkpoint_Ops\<close> has the operations, the bodies over the pair of functions the preprocessor
    chooses and the public ones for POSIX; \<open>Checkpoint_Atomic\<close> the atomicity of commit and capture, in the locale
    \<open>file_replacement\<close> with the laws of such a pair, interpreted on the POSIX branch there and on the
    Windows branch in \<open>Checkpoint_Windows\<close>, \<open>Checkpoint_Restore\<close> what restore returns and when it finds a
    candidate, \<open>Checkpoint_Prune\<close> what prune keeps and the names of checkpoints, \<open>Checkpoint_Json\<close> and
    \<open>Checkpoint_Xml\<close> the store over the two backends.
  \<^item> \<open>Example_Kit\<close>, \<open>Example_Basics\<close>, \<open>Example_Relaygate\<close>: the programs under \<open>examples/\<close>, clients of the
    library: what they share (with lemmas that describe a model by the map of its members, in the
    context of the locale \<open>config_store\<close>), the first two with their \<open>main\<close>, and the schema of \<open>relaygate\<close>.
    \<open>Example_Lifecycle\<close> is the \<open>main\<close> of \<open>relaygate\<close>, phase by phase. \<open>Example_Files\<close> adds the file streams and calls they use beyond those of the checkpoint store;
    \<open>Example_Firmware\<close> is the rollback program, the checkpoint store, the runtime and the JSON backend
    composed, with the lemmas of \<open>Checkpoint_Quiet\<close> on a world in which no call fails.
    \<open>Example_Sensorbridge\<close> is the program over the XML backend.

  Bounds and fuel. \<open>stack_fuel\<close> is one more than \<open>kMaxTreeDepth\<close>, and the recursions of the source that
  walk the arena (\<open>buildValue\<close>, \<open>freeSubtree\<close>, \<open>fillMissing\<close>) take it as their bound; a model holds only
  trees within the depth limit (\<open>wf_model_value\<close>), so the bound is never reached: the refinement
  theorems give \<open>Some\<close>. \<open>migrate\<close> is a \<open>partial_function\<close>, its termination is a theorem.
  \<open>std::size_t\<close> is 64 bits wide, slot ids and versions are 32 bits wide. \<open>room_for\<close> is the one capacity
  hypothesis: the nodes of the tree, of the new value and of the created chain stay below the
  32-bit id space, as the arena does not check it.

  Not modelled: allocation failure outside \<open>set\<close>, XML \<open>save\<close> and the parts that are arguments (a parser,
  a stream or a callback may throw \<open>std::bad_alloc\<close>, and it propagates), moved-from models,
  hash-table internals, and the text of \<open>std::exception::what\<close> (an argument).
  The conversion to \<open>long double\<close> is not modelled, nor symbolic links, paths in the native format of Windows,
  other processes writing the same files, steps inside one call (\<open>rename\<close> and \<open>MoveFileExW\<close> replace a
  file in one step each), and \<open>fsync\<close> (which the code
  does not call: the log is the order of calls, not of blocks on a disk). A backend of the checkpoint
  store is a function, so it keeps no state. Tests are not modelled; of the examples, what is printed
  is left out.
\<close>

section \<open>The model against its specification\<close>

section \<open>Sample inputs of the witnesses\<close>

definition sample :: config_value where
  "sample = Obj [(''a'', Obj [(''x'', Scal (SInt 1))]), (''l'', Arr [Scal (SInt 2), Scal SNull])]"

lemma sample_wf: "wf_model_value sample" "cv_distinct sample" "cv_nodes sample = 6"
  by (auto simp: sample_def wf_model_value_def kMaxTreeDepth_def isAddressableKey_def is_reserved_def)

lemma sample_room: "room_for sample (Scal s)" "room_for sample sample"
  by (simp_all add: room_for_def sample_wf kMaxTreeDepth_def kNodeIdNone_def)

lemma wf_spec_fromValue: "wf_model_value v \<Longrightarrow> spec_fromValue v = Inr v"
  by (simp add: spec_fromValue_def wf_model_value_def wf_at_validate)

lemma sample_model: "\<exists>m. cm_fromValue sample = Some (Inr m) \<and> models m sample"
  using fromValue_refines[of sample] sample_wf wf_spec_fromValue[OF sample_wf(1)]
  by (simp add: kNodeIdNone_def)

lemma sample_paths: "cp_parse ''a'' = Inr [Key ''a'']" "cp_parse ''a.x'' = Inr [Key ''a'', Key ''x'']"
  "cp_parse ''a.y'' = Inr [Key ''a'', Key ''y'']" "cp_parse ''l[0]'' = Inr [Key ''l'', Index 0]"
  "cp_parse ''l[1]'' = Inr [Key ''l'', Index 1]"
proof -
  have k: "isAddressableKey ''a''" "isAddressableKey ''x''" "isAddressableKey ''y''" "isAddressableKey ''l''"
    by (simp_all add: isAddressableKey_def is_reserved_def)
  show "cp_parse ''a'' = Inr [Key ''a'']" by (rule cp_parse_key[OF k(1)])
  from cp_parse_join[OF this k(2)] cp_parse_join[OF this k(3)]
  show "cp_parse ''a.x'' = Inr [Key ''a'', Key ''x'']" "cp_parse ''a.y'' = Inr [Key ''a'', Key ''y'']" by simp_all
  show "cp_parse ''l[0]'' = Inr [Key ''l'', Index 0]" "cp_parse ''l[1]'' = Inr [Key ''l'', Index 1]"
    using cp_parse_render[of "[Key ''l'', Index 0]"] cp_parse_render[of "[Key ''l'', Index 1]"] k
    by (simp_all add: wf_path_def size_t_max_def nat_str.simps char_of_def bit_0)
qed

text \<open>C1: ConfigModel::set on the slot arena, for every parsed or unparsable path and every value: it never touches a dead slot and never exceeds the stack bound, its result (error code and message included) is that of the tree specification, the new model represents the specified value, and a rejected write leaves the model unchanged.\<close>

theorem set_implements_spec:
  assumes "models m v" and "cv_distinct new" and "room_for v new"
  shows "\<exists>m'. cm_set m path new = Some (m', map_sum id (\<lambda>_. ()) (spec_set v path new)) \<and>
    models m' (case spec_set v path new of Inl e \<Rightarrow> v | Inr v' \<Rightarrow> v') \<and> (isl (spec_set v path new) \<longrightarrow> m' = m)"
  by (rule cs.put_law[OF assms])

theorem set_implements_spec_witness:
  "\<exists>m m'. cm_fromValue sample = Some (Inr m) \<and> cm_set m ''a.y'' (Scal (SBool True)) = Some (m', Inr ()) \<and>
     models m' (Obj [(''a'', Obj [(''x'', Scal (SInt 1)), (''y'', Scal (SBool True))]), (''l'', Arr [Scal (SInt 2), Scal SNull])])"
proof -
  obtain m where m: "cm_fromValue sample = Some (Inr m)" "models m sample" using sample_model by blast
  have "spec_set sample ''a.y'' (Scal (SBool True)) =
      Inr (Obj [(''a'', Obj [(''x'', Scal (SInt 1)), (''y'', Scal (SBool True))]), (''l'', Arr [Scal (SInt 2), Scal SNull])])"
    by (simp add: spec_set_def sample_paths kMaxTreeDepth_def sample_def)
  with set_implements_spec[OF m(2) _ sample_room(1), of "SBool True" "''a.y''"] m(1) show ?thesis by auto
qed

text \<open>C2: ConfigModel::remove: it always returns, with the result of the tree specification (NodeNotFound, InvalidType or InvalidPath where documented), unlinks and frees exactly the subtree at the path, and leaves the model unchanged on error.\<close>

theorem remove_implements_spec:
  assumes "models m v"
  shows "\<exists>m'. cm_remove m path = Some (m', map_sum id (\<lambda>_. ()) (spec_remove v path)) \<and>
    models m' (case spec_remove v path of Inl e \<Rightarrow> v | Inr v' \<Rightarrow> v') \<and> (isl (spec_remove v path) \<longrightarrow> m' = m)"
  by (rule cs.del_law[OF assms])

theorem remove_implements_spec_witness:
  "\<exists>m m'. cm_fromValue sample = Some (Inr m) \<and> cm_remove m ''l[0]'' = Some (m', Inr ()) \<and>
     models m' (Obj [(''a'', Obj [(''x'', Scal (SInt 1))]), (''l'', Arr [Scal SNull])])"
proof -
  obtain m where m: "cm_fromValue sample = Some (Inr m)" "models m sample" using sample_model by blast
  have "spec_remove sample ''l[0]'' = Inr (Obj [(''a'', Obj [(''x'', Scal (SInt 1))]), (''l'', Arr [Scal SNull])])"
    by (simp add: spec_remove_def sample_paths sample_def drop_nth_def)
  with remove_implements_spec[OF m(2), of "''l[0]''"] m(1) show ?thesis by auto
qed

text \<open>C16: ConfigModel::getValue and contains: getValue reads back exactly the subtree the value tree has at the path (member order included) or the documented error, and contains answers whether it would.\<close>

theorem reads_implement_spec:
  assumes "models m v"
  shows "cm_getValue m path = Some (spec_get v path) \<and> cm_contains m path = Some (\<not> isl (spec_get v path))"
  using cm.get_law[OF assms] cm.has_law[OF assms] by simp

theorem reads_implement_spec_witness:
  "\<exists>m. cm_fromValue sample = Some (Inr m) \<and> cm_getValue m ''a'' = Some (Inr (Obj [(''x'', Scal (SInt 1))])) \<and>
     cm_contains m ''a.y'' = Some False"
proof -
  obtain m where m: "cm_fromValue sample = Some (Inr m)" "models m sample" using sample_model by blast
  have "spec_get sample ''a'' = Inr (Obj [(''x'', Scal (SInt 1))])" "isl (spec_get sample ''a.y'')"
    by (simp_all add: spec_get_def sample_paths sample_def no_member_def)
  with reads_implement_spec[OF m(2), of "''a''"] reads_implement_spec[OF m(2), of "''a.y''"] m(1) show ?thesis by auto
qed

text \<open>C11: ConfigModel::fromValue accepts exactly the values whose root is an object, whose every node is at most kMaxTreeDepth segments below it, and whose every key, written as a path text, is the path of that one key in the documented grammar; the model it builds represents the value. Every other value is rejected with the error of its first defect in document order, the root's type first (spec_fromValue, which lists the defects of a value without the code's validateTree).\<close>

theorem fromValue_implements_spec:
  assumes "cv_distinct v" and "cv_nodes v < kNodeIdNone"
  shows "(case spec_fromValue v of Inl e \<Rightarrow> cm_fromValue v = Some (Inl e)
      | Inr w \<Rightarrow> w = v \<and> (\<exists>m. cm_fromValue v = Some (Inr m) \<and> models m v)) \<and>
    ((\<exists>m. cm_fromValue v = Some (Inr m)) \<longleftrightarrow> cv_type v = TObject \<and>
      (\<forall>p c. tree_resolve p v = Inr c \<longrightarrow> length p \<le> kMaxTreeDepth \<and> (\<forall>k. Key k \<in> set p \<longrightarrow> g_path k [Key k])))"
  using fromValue_refines[OF assms] fromValue_accepts[OF assms] by blast

theorem fromValue_implements_spec_witness:
  "\<exists>m. cm_fromValue sample = Some (Inr m) \<and> models m sample \<and> g_path ''x'' [Key ''x'']"
proof -
  have r: "tree_resolve [Key ''a'', Key ''x''] sample = Inr (Scal (SInt 1))" by (simp add: sample_def)
  note s = fromValue_implements_spec[OF sample_wf(2)]
  from s wf_spec_fromValue[OF sample_wf(1)] sample_wf(3) obtain m where m: "cm_fromValue sample = Some (Inr m)" "models m sample"
    by (auto simp: kNodeIdNone_def)
  with s sample_wf(3) have "\<forall>p c. tree_resolve p sample = Inr c \<longrightarrow> length p \<le> kMaxTreeDepth \<and> (\<forall>k. Key k \<in> set p \<longrightarrow> g_path k [Key k])"
    by (simp add: kNodeIdNone_def)
  from this[rule_format, OF r] m show ?thesis by auto
qed

text \<open>A value written with set is read back unchanged by getValue at the same path, also when the write created the path.\<close>

theorem get_after_set:
  assumes "models m v" "cv_distinct new" "room_for v new" "cm_set m path new = Some (m', Inr ())"
  shows "cm_getValue m' path = Some (Inr new)"
  by (rule cs.get_put[OF assms])

theorem get_after_set_witness:
  "\<exists>m m'. cm_fromValue sample = Some (Inr m) \<and> cm_set m ''a.y'' (Scal (SBool True)) = Some (m', Inr ()) \<and>
     cm_getValue m' ''a.y'' = Some (Inr (Scal (SBool True)))"
proof -
  obtain m where m: "cm_fromValue sample = Some (Inr m)" "models m sample" using sample_model by blast
  have "\<not> isl (spec_set sample ''a.y'' (Scal (SBool True)))"
    by (simp add: spec_set_def sample_paths kMaxTreeDepth_def sample_def)
  then obtain m' where m': "cm_set m ''a.y'' (Scal (SBool True)) = Some (m', Inr ())"
    using cs.put_law[OF m(2) _ sample_room(1), of "SBool True" "''a.y''"]
    by (cases "spec_set sample ''a.y'' (Scal (SBool True))") auto
  from get_after_set[OF m(2) _ sample_room(1) this] m(1) m' show ?thesis by auto
qed

text \<open>A successful set changes nothing off its path: a path that leaves the written one at some segment resolves to the same subtree before and after, and neither appears nor disappears.\<close>

theorem set_frames_other_paths:
  assumes "models m v" "cv_distinct new" "room_for v new" "cm_set m path new = Some (m', Inr ())"
    and "cp_parse path = Inr p" "cp_parse other = Inr q" "diverge p q"
  shows "cm_getValue m' other = Some (Inr c) \<longleftrightarrow> cm_getValue m other = Some (Inr c)"
  by (rule cs.get_put_other[OF assms])

theorem set_frames_other_paths_witness:
  "\<exists>m m'. cm_fromValue sample = Some (Inr m) \<and> cm_set m ''a.y'' (Scal (SBool True)) = Some (m', Inr ()) \<and>
     cm_getValue m' ''l[0]'' = Some (Inr (Scal (SInt 2)))"
proof -
  obtain m where m: "cm_fromValue sample = Some (Inr m)" "models m sample" using sample_model by blast
  have "\<not> isl (spec_set sample ''a.y'' (Scal (SBool True)))"
    by (simp add: spec_set_def sample_paths kMaxTreeDepth_def sample_def)
  then obtain m' where m': "cm_set m ''a.y'' (Scal (SBool True)) = Some (m', Inr ())"
    using cs.put_law[OF m(2) _ sample_room(1), of "SBool True" "''a.y''"]
    by (cases "spec_set sample ''a.y'' (Scal (SBool True))") auto
  have g: "cm_getValue m ''l[0]'' = Some (Inr (Scal (SInt 2)))"
    by (simp add: cm.get_law[OF m(2)] spec_get_def sample_paths sample_def)
  have "diverge [Key ''a'', Key ''y''] [Key ''l'', Index 0]" by simp
  from set_frames_other_paths[OF m(2) _ sample_room(1) m' sample_paths(3,4) this] g m(1) m' show ?thesis by auto
qed

text \<open>After removing an object member the path reports exactly the missing-member error, and every path that leaves the removed one resolves as before.\<close>

theorem remove_removes_only_that:
  assumes "models m v" "cm_remove m path = Some (m', Inr ())" "cp_parse path = Inr (p @ [Key k])"
  shows "cm_getValue m' path = Some (no_member k) \<and>
    (cp_parse other = Inr q \<longrightarrow> diverge (p @ [Key k]) q \<longrightarrow>
       (cm_getValue m' other = Some (Inr c) \<longleftrightarrow> cm_getValue m other = Some (Inr c)))"
  using cs.get_del[OF assms] cs.get_del_other[OF assms, of other q c] by simp

theorem remove_removes_only_that_witness:
  "\<exists>m m'. cm_fromValue sample = Some (Inr m) \<and> cm_remove m ''a.x'' = Some (m', Inr ()) \<and>
     cm_getValue m' ''a.x'' = Some (no_member ''x'') \<and> cm_getValue m' ''l[0]'' = Some (Inr (Scal (SInt 2)))"
proof -
  obtain m where m: "cm_fromValue sample = Some (Inr m)" "models m sample" using sample_model by blast
  have "\<not> isl (spec_remove sample ''a.x'')" by (simp add: spec_remove_def sample_paths sample_def)
  then obtain m' where m': "cm_remove m ''a.x'' = Some (m', Inr ())"
    using cs.del_law[OF m(2), of "''a.x''"] by (cases "spec_remove sample ''a.x''") auto
  have p: "cp_parse ''a.x'' = Inr ([Key ''a''] @ [Key ''x''])" by (simp add: sample_paths)
  have g: "cm_getValue m ''l[0]'' = Some (Inr (Scal (SInt 2)))"
    by (simp add: cm.get_law[OF m(2)] spec_get_def sample_paths sample_def)
  from remove_removes_only_that[OF m(2) m' p, of "''l[0]''" "[Key ''l'', Index 0]" "Scal (SInt 2)"] g m(1) m'
  show ?thesis by (auto simp: sample_paths)
qed

text \<open>remove succeeds exactly on the paths contains accepts.\<close>

theorem remove_iff_contains:
  assumes "models m v"
  shows "(\<exists>m'. cm_remove m path = Some (m', Inr ())) \<longleftrightarrow> cm_contains m path = Some True"
  by (rule cs.del_iff_has[OF assms])

theorem remove_iff_contains_witness:
  "\<exists>m. cm_fromValue sample = Some (Inr m) \<and> \<not> (\<exists>m'. cm_remove m ''a.y'' = Some (m', Inr ()))"
proof -
  obtain m where m: "cm_fromValue sample = Some (Inr m)" "models m sample" using sample_model by blast
  have "cm_contains m ''a.y'' = Some False"
    by (simp add: cm.has_law[OF m(2)] spec_get_def sample_paths sample_def no_member_def)
  with remove_iff_contains[OF m(2), of "''a.y''"] m(1) show ?thesis by auto
qed

text \<open>C13: Handle stability across set: a handle taken at any path stays valid, and nodeAt returns the same handle again, unless its path lies strictly below the written one; then the handle is detected as stale.\<close>

theorem set_keeps_handles:
  assumes "models m v" "cv_distinct new" "room_for v new" "cm_set m path new = Some (m', Inr ())"
    and "cp_parse path = Inr p" "cp_parse qpath = Inr q" "cm_nodeAt m qpath = Some (Inr h)"
  shows "cn_valid (cm_arena m') h = (\<not> (\<exists>r. r \<noteq> [] \<and> q = p @ r)) \<and>
    (cn_valid (cm_arena m') h \<longrightarrow> cm_nodeAt m' qpath = Some (Inr h))"
  using set_handles[OF assms] by blast

theorem set_keeps_handles_witness:
  "\<exists>m m' h. cm_fromValue sample = Some (Inr m) \<and> cm_nodeAt m ''a.x'' = Some (Inr h) \<and>
     cm_set m ''a'' (Obj []) = Some (m', Inr ()) \<and> \<not> cn_valid (cm_arena m') h"
proof -
  obtain m where m: "cm_fromValue sample = Some (Inr m)" "models m sample" using sample_model by blast
  have room: "room_for sample (Obj [])" by (simp add: room_for_def sample_wf kMaxTreeDepth_def kNodeIdNone_def)
  have "\<not> isl (spec_set sample ''a'' (Obj []))"
    by (simp add: spec_set_def sample_paths kMaxTreeDepth_def sample_def)
  then obtain m' where m': "cm_set m ''a'' (Obj []) = Some (m', Inr ())"
    using cs.put_law[OF m(2) _ room, of "''a''"] by (cases "spec_set sample ''a'' (Obj [])") auto
  have "tree_resolve [Key ''a'', Key ''x''] sample = Inr (Scal (SInt 1))" by (simp add: sample_def)
  from nodeAt_ok[OF m(2) sample_paths(2) this] obtain h where h: "cm_nodeAt m ''a.x'' = Some (Inr h)" by blast
  from set_keeps_handles[OF m(2) _ room m' sample_paths(1,2) h] m(1) m' h show ?thesis by auto
qed

text \<open>C17: Handle stability across remove: exactly the handles at or below the removed node become invalid; every other handle stays valid and is what nodeAt returns for its (index-shifted) path.\<close>

theorem remove_keeps_handles:
  assumes "models m v" "cm_remove m path = Some (m', Inr ())"
    and "cp_parse path = Inr p" "cp_parse qpath = Inr q" "cm_nodeAt m qpath = Some (Inr h)"
  shows "cn_valid (cm_arena m') h = (\<not> (\<exists>r. q = p @ r)) \<and>
    (cn_valid (cm_arena m') h \<longrightarrow> cp_parse rpath = Inr (shift_after p q) \<longrightarrow> cm_nodeAt m' rpath = Some (Inr h))"
  using remove_handles[OF assms] by blast

theorem remove_keeps_handles_witness:
  "\<exists>m m' h. cm_fromValue sample = Some (Inr m) \<and> cm_nodeAt m ''l[1]'' = Some (Inr h) \<and>
     cm_remove m ''l[0]'' = Some (m', Inr ()) \<and> cm_nodeAt m' ''l[0]'' = Some (Inr h)"
proof -
  obtain m where m: "cm_fromValue sample = Some (Inr m)" "models m sample" using sample_model by blast
  have "\<not> isl (spec_remove sample ''l[0]'')" by (simp add: spec_remove_def sample_paths sample_def)
  then obtain m' where m': "cm_remove m ''l[0]'' = Some (m', Inr ())"
    using cs.del_law[OF m(2), of "''l[0]''"] by (cases "spec_remove sample ''l[0]''") auto
  have "tree_resolve [Key ''l'', Index 1] sample = Inr (Scal SNull)" by (simp add: sample_def)
  from nodeAt_ok[OF m(2) sample_paths(5) this] obtain h where h: "cm_nodeAt m ''l[1]'' = Some (Inr h)" by blast
  from remove_keeps_handles[OF m(2) m' sample_paths(4,5) h, of "''l[0]''"] m(1) m' h show ?thesis
    by (auto simp: sample_paths)
qed

text \<open>C14: Types of nodes are fixed: whatever a call of set or remove returns, a handle taken before it that is still valid afterwards reports the same type as before; a write that would change a type is refused, and a slot that is reused is another node.\<close>

theorem valid_handle_keeps_type:
  assumes "models m v" "cp_parse qpath = Inr q" "cm_nodeAt m qpath = Some (Inr h)"
    and "(cv_distinct new \<and> room_for v new \<and> cm_set m path new = Some (m', r)) \<or> cm_remove m path = Some (m', r)"
    and "cn_valid (cm_arena m') h"
  shows "\<exists>t. cn_type (cm_arena m) h = Some t \<and> cn_type (cm_arena m') h = Some t"
  using assms(4) nodeAt_type[OF assms(1-3)] type_after_set[OF assms(1) _ _ _ assms(2,3,5)] type_after_remove[OF assms(1) _ assms(2,3,5)] by metis

theorem valid_handle_keeps_type_witness:
  "\<exists>m m' h. cm_fromValue sample = Some (Inr m) \<and> cm_nodeAt m ''l[1]'' = Some (Inr h) \<and>
     cm_remove m ''l[0]'' = Some (m', Inr ()) \<and> cn_type (cm_arena m') h = Some TNull"
proof -
  obtain m where m: "cm_fromValue sample = Some (Inr m)" "models m sample" using sample_model by blast
  have "\<not> isl (spec_remove sample ''l[0]'')" by (simp add: spec_remove_def sample_paths sample_def)
  then obtain m' where m': "cm_remove m ''l[0]'' = Some (m', Inr ())"
    using cs.del_law[OF m(2), of "''l[0]''"] by (cases "spec_remove sample ''l[0]''") auto
  have r: "tree_resolve [Key ''l'', Index 1] sample = Inr (Scal SNull)" by (simp add: sample_def)
  from nodeAt_ok[OF m(2) sample_paths(5) r] obtain h where h: "cm_nodeAt m ''l[1]'' = Some (Inr h)" by blast
  have t: "cn_type (cm_arena m) h = Some TNull"
    using cn_type_views[OF nodeAt_views[OF m(2) h sample_paths(5)] m(2) r] by simp
  have "cn_valid (cm_arena m') h" using remove_handles(1)[OF m(2) m' sample_paths(4,5) h] by simp
  from valid_handle_keeps_type[OF m(2) sample_paths(5) h _ this] m' t have "cn_type (cm_arena m') h = Some TNull" by auto
  with m(1) h m' show ?thesis by blast
qed

section \<open>Handles and the arena\<close>

text \<open>The read-only accessors of a ConfigNode handle agree with the value tree: type, size, keys in order and scalar payload are those of the subtree at the handle's path.\<close>

theorem accessors_agree:
  assumes "models m v" "cm_nodeAt m path = Some (Inr h)" "cp_parse path = Inr p" "tree_resolve p v = Inr c"
  shows "cn_type (cm_arena m) h = Some (cv_type c) \<and> cn_size (cm_arena m) h = Some (length (cv_kids c)) \<and>
    cn_keys (cm_arena m) h = (case c of Obj ms \<Rightarrow> Inr (map fst ms)
      | _ \<Rightarrow> fail InvalidType ''keys() requires an Object node'') \<and>
    cn_scalarValue (cm_arena m) h = (case c of Scal sc \<Rightarrow> Inr sc | _ \<Rightarrow> fail InvalidType ''node is not a scalar'')"
proof -
  note ctx = nodeAt_views[OF assms(1-3)] assms(1,4)
  show ?thesis using cn_type_views[OF ctx] cn_size_views[OF ctx] cn_keys_views[OF ctx] cn_scalar_views[OF ctx] by blast
qed

theorem accessors_agree_witness:
  "\<exists>m h. cm_fromValue sample = Some (Inr m) \<and> cm_nodeAt m ''a'' = Some (Inr h) \<and> cn_keys (cm_arena m) h = Inr [''x'']"
proof -
  obtain m where m: "cm_fromValue sample = Some (Inr m)" "models m sample" using sample_model by blast
  have r: "tree_resolve [Key ''a''] sample = Inr (Obj [(''x'', Scal (SInt 1))])" by (simp add: sample_def)
  from nodeAt_ok[OF m(2) sample_paths(1) this] obtain h where h: "cm_nodeAt m ''a'' = Some (Inr h)" by blast
  from accessors_agree[OF m(2) h sample_paths(1) r] m(1) h show ?thesis by auto
qed

text \<open>Navigating from a handle: child and at reach exactly the members and elements of the subtree (the handle they return reads the child's type), and report the documented error for an absent key or index.\<close>

theorem navigation_agrees:
  assumes "models m v" "cm_nodeAt m path = Some (Inr h)" "cp_parse path = Inr p" "tree_resolve p v = Inr c"
  shows "(case c of
      Obj ms \<Rightarrow> (case map_of ms k of
         Some d \<Rightarrow> \<exists>h'. cn_child (cm_arena m) h k = Some (Inr h') \<and> cn_type (cm_arena m) h' = Some (cv_type d)
       | None \<Rightarrow> cn_child (cm_arena m) h k = Some (fail NodeNotFound (''no member '' @ [CHR 0x22] @ k @ [CHR 0x22])))
    | Arr es \<Rightarrow> (if j < length es
         then \<exists>h'. cn_at (cm_arena m) h j = Some (Inr h') \<and> cn_type (cm_arena m) h' = Some (cv_type (es ! j))
         else cn_at (cm_arena m) h j = Some (out_of_range j (length es)))
    | Scal sc \<Rightarrow> True)"
proof (cases c)
  case (Obj ms)
  note ctx = nodeAt_views[OF assms(1-3)] assms(1) assms(4)[unfolded Obj]
  show ?thesis
  proof (cases "map_of ms k")
    case (Some d)
    have "tree_resolve (p @ [Key k]) v = Inr d" using ctx(3) Some by (simp add: tree_resolve_append)
    with cn_child_views(1)[OF ctx Some] cn_type_views[OF _ assms(1)] show ?thesis using Obj Some by auto
  qed (use cn_child_views(2)[OF ctx] Obj in simp)
next
  case (Arr es)
  note ctx = nodeAt_views[OF assms(1-3)] assms(1) assms(4)[unfolded Arr]
  show ?thesis
  proof (cases "j < length es")
    case True
    have "tree_resolve (p @ [Index j]) v = Inr (es ! j)" using ctx(3) True by (simp add: tree_resolve_append)
    with cn_at_views(1)[OF ctx True] cn_type_views[OF _ assms(1)] show ?thesis using Arr True by auto
  qed (use cn_at_views(2)[OF ctx] Arr in simp)
qed simp

theorem navigation_agrees_witness:
  "\<exists>m h h'. cm_fromValue sample = Some (Inr m) \<and> cm_nodeAt m ''a'' = Some (Inr h) \<and>
     cn_child (cm_arena m) h ''x'' = Some (Inr h') \<and> cn_type (cm_arena m) h' = Some TInt"
proof -
  obtain m where m: "cm_fromValue sample = Some (Inr m)" "models m sample" using sample_model by blast
  have r: "tree_resolve [Key ''a''] sample = Inr (Obj [(''x'', Scal (SInt 1))])" by (simp add: sample_def)
  from nodeAt_ok[OF m(2) sample_paths(1) this] obtain h where h: "cm_nodeAt m ''a'' = Some (Inr h)" by blast
  from navigation_agrees[OF m(2) h sample_paths(1) r, where k = "''x''"] m(1) h show ?thesis by auto
qed

text \<open>A slot that is released and handed out again leaves every handle taken before the release stale, also while the slot is free: the generation is bumped at release and kept at reuse.\<close>

theorem stale_handle_detected:
  assumes "cn_valid ar h" and "release ar (cn_id h) = Some ar1" and "cn_id h < kNodeIdNone"
    and "allocate ar1 ty = Some (j, ar2)"
  shows "j = cn_id h \<and> \<not> cn_valid ar1 h \<and> \<not> cn_valid ar2 h"
  using stale_after_reuse[OF refl assms(1,2,3,4)] release_then_allocate[OF assms(2,3,4)] by simp

theorem stale_handle_detected_witness:
  "let n = \<lparr>ntype = TNull, nscalar = SNull, nmembers = [], nelements = [], nparent = kNodeIdNone, ngeneration = 0, nalive = True\<rparr>;
       ar = \<lparr>nodes = [n], free_head = kNodeIdNone\<rparr>; h = \<lparr>cn_bound = True, cn_id = 0, cn_generation = 0\<rparr>
   in \<exists>ar1 ar2. release ar 0 = Some ar1 \<and> allocate ar1 TInt = Some (0, ar2) \<and> \<not> cn_valid ar2 h"
proof -
  let ?n = "\<lparr>ntype = TNull, nscalar = SNull, nmembers = [], nelements = [], nparent = kNodeIdNone, ngeneration = 0, nalive = True\<rparr>"
  let ?ar = "\<lparr>nodes = [?n], free_head = kNodeIdNone\<rparr>" and ?h = "\<lparr>cn_bound = True, cn_id = 0, cn_generation = 0\<rparr>"
  have v: "cn_valid ?ar ?h" by (simp add: cn_valid_def arena_matches_def)
  obtain ar1 where r: "release ?ar (cn_id ?h) = Some ar1" by (simp add: release_def Let_def)
  then have "free_head ar1 = 0" "length (nodes ar1) = 1" by (auto simp: release_def Let_def)
  then obtain j ar2 where a: "allocate ar1 TInt = Some (j, ar2)" by (simp add: allocate_def Let_def kNodeIdNone_def)
  from stale_handle_detected[OF v r _ a] r a show ?thesis by (auto simp: kNodeIdNone_def Let_def)
qed

text \<open>C39: No run leaks a slot: from the model fromValue builds, after any sequence of set and remove calls (rejected ones included) the arena has exactly as many live slots as the value tree has nodes after the same sequence, and the slots the free list threads are the dead ones, each once, so every slot a set replaced or a remove detached is handed out again. run_fits asks that written values have distinct keys, as those of a builder have, and that the 32-bit ids are not used up.\<close>

theorem no_leaks:
  assumes "cm_fromValue v = Some (Inr m)" and "cv_distinct v" "cv_nodes v < kNodeIdNone" and "run_fits ops v"
  shows "\<exists>m'. run_ops ops m = Some m' \<and> live_slots m' = cv_nodes (fold tree_op ops v) \<and>
    mset (free_slots m') = mset (dead_slots m')"
  by (rule run_leaks_nothing[OF assms])

theorem no_leaks_witness:
  "\<exists>m m'. cm_fromValue sample = Some (Inr m) \<and>
     run_ops [Write ''a.y'' (Scal (SBool True)), Remove ''l[0]'', Remove ''a'', Remove ''a''] m = Some m' \<and> live_slots m' = 3"
proof -
  let ?ops = "[Write ''a.y'' (Scal (SBool True)), Remove ''l[0]'', Remove ''a'', Remove ''a'']"
  obtain m where m: "cm_fromValue sample = Some (Inr m)" using sample_model by blast
  have f: "run_fits ?ops sample" using sample_room(1) by simp
  have n: "cv_nodes (fold tree_op ?ops sample) = 3"
    by (simp add: spec_set_def spec_remove_def sample_paths kMaxTreeDepth_def sample_def no_member_def drop_nth_def)
  from no_leaks[OF m sample_wf(2) _ f] n m sample_wf(3) show ?thesis by (auto simp: kNodeIdNone_def)
qed

section \<open>Paths and values\<close>

text \<open>C6: ConfigPath::parse is exactly the documented grammar: it returns segments if and only if the text derives them, and every rejection is InvalidPath.\<close>

theorem parse_is_grammar:
  "(\<forall>segs. cp_parse text = Inr segs \<longleftrightarrow> g_path text segs) \<and> (\<forall>e. cp_parse text = Inl e \<longrightarrow> err_code e = InvalidPath)"
  using cp_parse_iff_g_path cp_parse_error by auto

theorem parse_is_grammar_witness: "g_path ''l[0]'' [Key ''l'', Index 0]"
  by (rule parse_is_grammar[of "''l[0]''", THEN conjunct1, THEN spec, THEN iffD1, OF sample_paths(4)])

text \<open>Canonical text of a well-formed path parses back to it, and joining a parsed path with an addressable key by a dot appends the key segment (the paths repair builds).\<close>

theorem parse_render_roundtrip:
  assumes "wf_path p" and "isAddressableKey k"
  shows "cp_parse (render_path p) = Inr p \<and> cp_parse (render_path p @ ''.'' @ k) = Inr (p @ [Key k])"
  using cp_parse_render[OF assms(1)] cp_parse_join[OF cp_parse_render[OF assms(1)] assms(2)] by simp

theorem parse_render_roundtrip_witness:
  "cp_parse (render_path [Key ''l'', Index 7]) = Inr [Key ''l'', Index 7]"
proof -
  have "wf_path [Key ''l'', Index 7]" "isAddressableKey ''a''"
    by (simp_all add: wf_path_def isAddressableKey_def is_reserved_def size_t_max_def)
  from parse_render_roundtrip[OF this] show ?thesis by simp
qed

text \<open>ConfigValue::set through the hash index is replace-in-place or append on the member list, and keeps the index in step with the list; contains then answers membership.\<close>

theorem object_set_through_index:
  assumes "ob_inv ob"
  shows "\<exists>ob'. ob_set ob key child = Some ob' \<and> ob_inv ob' \<and> ob_object ob' = upsert key child (ob_object ob) \<and>
    (\<forall>k. ob_contains ob' k = (k = key \<or> ob_contains ob k))"
proof -
  from ob_set_refines_upsert[OF assms] obtain ob' where
    o: "ob_set ob key child = Some ob'" "ob_inv ob'" "ob_object ob' = upsert key child (ob_object ob)" by blast
  have "fst ` set (upsert key child (ob_object ob)) = insert key (fst ` set (ob_object ob))"
    using keys_upsert[of key child "ob_object ob"] by (metis (no_types, opaque_lifting) image_set insert_absorb list.simps(15) Un_insert_right set_append empty_set sup_bot_right list.set(1))
  with o show ?thesis by (auto simp: ob_contains_iff[OF assms] ob_contains_iff)
qed

theorem object_set_through_index_witness:
  "\<exists>ob'. ob_set ob_empty ''k'' (Scal SNull) = Some ob' \<and> ob_object ob' = [(''k'', Scal SNull)]"
  using object_set_through_index[OF ob_inv_empty, of "''k''" "Scal SNull"] by (auto simp: ob_empty_def)

text \<open>The scalar overload of set: an unsigned value above the int64 range is refused with InvalidType and changes nothing, every other unsigned value is written as an Int of the same numeric value; the throwing precondition of ConfigValue::of is never reached.\<close>

theorem scalar_set_never_wraps:
  "if n < 2 ^ 63 then \<exists>w. sint w = int n \<and> cm_set_scalar m path (CUnsigned n) = cm_set m path (Scal (SInt w))
   else cm_set_scalar m path (CUnsigned n) =
     Some (m, fail InvalidType ''unsigned integer value is not representable as Int (std::int64_t)'')"
proof (cases "n < 2 ^ 63")
  case True
  then have "cm_set_scalar m path (CUnsigned n) = cm_set m path (Scal (SInt (word_of_nat n)))"
    by (simp add: cm_set_scalar_def ofPreconditionViolation_def cv_of_def)
  with True sint_word_of_nat_small[OF True] show ?thesis by auto
qed (simp add: cm_set_scalar_def ofPreconditionViolation_def)

section \<open>Versions and migrations\<close>

text \<open>VersionCatalog::registerVersion keeps the entries strictly ascending, succeeds exactly for a new version with a non-empty factory, and contains then answers membership.\<close>

theorem catalog_registration:
  assumes "cat_inv cat" and "registerVersion cat a = (cat', r)"
  shows "cat_inv cat' \<and> (r = Inr () \<longleftrightarrow> va_factory a \<noteq> None \<and> va_version a \<notin> set (cat_versions cat)) \<and>
    (\<forall>u. cat_contains cat' u \<longleftrightarrow> cat_contains cat u \<or> r = Inr () \<and> u = va_version a)"
  using registerVersion_inv[OF assms] by (auto simp: cat_contains_iff assms(1))

theorem catalog_registration_witness:
  "cat_contains (fst (registerVersion [] \<lparr>va_version = 4, va_factory = Some (\<lambda>s::unit. (s, FThrows_other))\<rparr>)) 4"
proof -
  obtain cat' r where r: "registerVersion [] \<lparr>va_version = 4, va_factory = Some (\<lambda>s::unit. (s, FThrows_other))\<rparr> = (cat', r)"
    by fastforce
  from catalog_registration[OF cat_inv_empty this] have "cat_contains cat' 4" by (simp add: cat_versions_def)
  with r show ?thesis by simp
qed

text \<open>A catalog of versions 1, 2 and 4 whose migrations write a marker, and the runtime over it.\<close>

definition sample_factory :: "unit default_factory" where
  "sample_factory s = (s, FReturns (Obj [(''a'', Obj [(''x'', Scal (SInt 9)), (''y'', Scal (SInt 9))])]))"

definition sample_step :: "unit migration_fn" where
  "sample_step s m a b = (case cm_set m ''l'' (Arr []) of Some (m', r) \<Rightarrow> (s, m', AReturns r) | None \<Rightarrow> (s, m, AThrows_other))"

definition sample_cat :: "unit catalog" where
  "sample_cat = map (\<lambda>v. \<lparr>va_version = v, va_factory = Some sample_factory\<rparr>) [1, 2, 4]"

definition sample_reg :: "unit registry" where
  "sample_reg = map (\<lambda>(a, b). \<lparr>e_from = a, e_to = b, e_apply = Some sample_step\<rparr>) [(1, 2), (2, 4)]"

definition sample_rt :: "unit runtime" where
  "sample_rt = \<lparr>rt_catalog = sample_cat, rt_registry = sample_reg\<rparr>"

lemma sample_invs: "cat_inv sample_cat" "reg_inv sample_reg" "cat_versions sample_cat = [1, 2, 4]"
  "reg_validate sample_reg sample_cat = Inr ()" "rt_inv sample_rt"
proof -
  show c: "cat_inv sample_cat" by (simp add: cat_inv_def sample_cat_def cat_versions_def)
  show r: "reg_inv sample_reg" by (simp add: reg_inv_def sample_reg_def)
  show v: "cat_versions sample_cat = [1, 2, 4]" by (simp add: cat_versions_def sample_cat_def)
  show i: "reg_validate sample_reg sample_cat = Inr ()"
    unfolding validate_iff[OF c] adjacent_neighbours[OF c] v by (auto simp: sample_reg_def)
  show "rt_inv sample_rt" using c r i by (simp add: rt_inv_def sample_rt_def sample_cat_def)
qed

lemma sample_default: "v \<in> {1, 2, 4} \<Longrightarrow> default_of sample_cat v s =
    Some (s, FReturns (Obj [(''a'', Obj [(''x'', Scal (SInt 9)), (''y'', Scal (SInt 9))])]))"
  by (auto simp: default_of_def cat_at_def findEntry_def sample_cat_def sample_factory_def)

definition sample_defaults :: config_value where
  "sample_defaults = Obj [(''a'', Obj [(''x'', Scal (SInt 9)), (''y'', Scal (SInt 9))])]"

lemma sample_good: "good_default sample sample_defaults"
  by (auto simp: good_default_def sample_defaults_def room_for_def sample_wf kMaxTreeDepth_def kNodeIdNone_def
      wf_model_value_def isAddressableKey_def is_reserved_def)

lemma sample_fill: "fill sample_defaults sample =
    Obj [(''a'', Obj [(''x'', Scal (SInt 1)), (''y'', Scal (SInt 9))]), (''l'', Arr [Scal (SInt 2), Scal SNull])]"
  by (simp add: sample_defaults_def sample_def)

text \<open>What the migration from version 2 to version 4 makes of the sample.\<close>

definition sample_upgraded :: config_value where
  "sample_upgraded = Obj [(''a'', Obj [(''x'', Scal (SInt 1))]), (''l'', Arr [])]"

lemma sample_upgraded_fill: "fill sample_defaults sample_upgraded = Obj [(''a'', Obj [(''x'', Scal (SInt 1)), (''y'', Scal (SInt 9))]), (''l'', Arr [])]"
  by (simp add: sample_defaults_def sample_upgraded_def)

lemma sample_upgraded_good: "good_default sample_upgraded sample_defaults"
  by (auto simp: good_default_def sample_defaults_def sample_upgraded_def room_for_def kMaxTreeDepth_def kNodeIdNone_def
      wf_model_value_def isAddressableKey_def is_reserved_def)

lemma sample_chain:
  "\<exists>m m1. cm_fromValue sample = Some (Inr m) \<and> models m1 sample_upgraded \<and>
     run_chain (rt_registry sample_rt) 2 (chain_to (rt_catalog sample_rt) 2 4) () m = ((), \<lparr>vc_version = 4, vc_model = m1\<rparr>, Ret (Inr ()))"
proof -
  obtain m where m: "cm_fromValue sample = Some (Inr m)" "models m sample" using sample_model by blast
  have room: "room_for sample (Arr [])" by (simp add: room_for_def sample_wf kMaxTreeDepth_def kNodeIdNone_def)
  have pl: "cp_parse ''l'' = Inr [Key ''l'']"
    by (rule cp_parse_key) (simp add: isAddressableKey_def is_reserved_def)
  have "spec_set sample ''l'' (Arr []) = Inr sample_upgraded"
    by (simp add: spec_set_def pl kMaxTreeDepth_def sample_def sample_upgraded_def)
  with cs.put_law[OF m(2) _ room, of "''l''"] obtain m1 where
    m1: "cm_set m ''l'' (Arr []) = Some (m1, Inr ())" "models m1 sample_upgraded" by auto
  have inv: "rt_catalog sample_rt = sample_cat" "rt_registry sample_rt = sample_reg" by (simp_all add: sample_rt_def)
  have f: "findMigration sample_reg 2 4 = Inr \<lparr>e_from = 2, e_to = 4, e_apply = Some sample_step\<rparr>"
    by (simp add: findMigration_def sample_reg_def is_edge_def)
  have "chain_to sample_cat 2 4 = [4]" by (simp add: chain_to_def sample_invs(3))
  then have "run_chain (rt_registry sample_rt) 2 (chain_to (rt_catalog sample_rt) 2 4) () m = ((), \<lparr>vc_version = 4, vc_model = m1\<rparr>, Ret (Inr ()))"
    by (simp add: inv f sample_step_def m1(1) step_result_def)
  with m(1) m1(2) show ?thesis by blast
qed

text \<open>VersionCatalog::nextVersion returns the least registered version above its argument, and succeeds for every registered version below another one.\<close>

theorem next_version_is_successor:
  assumes "cat_inv cat" and "v \<in> set (cat_versions cat)"
  shows "(nextVersion cat v = Inr w) = (w \<in> set (cat_versions cat) \<and> v < w \<and> (\<forall>u \<in> set (cat_versions cat). v < u \<longrightarrow> w \<le> u))"
proof
  assume "nextVersion cat v = Inr w"
  with next_greater[OF assms(1)] next_least[OF assms(1)]
  show "w \<in> set (cat_versions cat) \<and> v < w \<and> (\<forall>u \<in> set (cat_versions cat). v < u \<longrightarrow> w \<le> u)" by blast
next
  assume w: "w \<in> set (cat_versions cat) \<and> v < w \<and> (\<forall>u \<in> set (cat_versions cat). v < u \<longrightarrow> w \<le> u)"
  then obtain w' where n: "nextVersion cat v = Inr w'" using next_exists[OF assms, of w] by blast
  with next_greater[OF assms(1) n] next_least[OF assms(1) n, of w] w show "nextVersion cat v = Inr w" by fastforce
qed

theorem next_version_is_successor_witness: "nextVersion sample_cat 2 = Inr 4"
  using next_version_is_successor[OF sample_invs(1), of 2 4] by (simp add: sample_invs(3))

text \<open>C15: MigrationRegistry::validate (and with it ConfigRuntime::create) accepts a registry exactly when its edges are the pairs of adjacent registered versions: no foreign endpoint, no skipping edge, no gap.\<close>

theorem validate_accepts_exactly_chain:
  assumes "cat_inv cat"
  shows "(reg_validate reg cat = Inr ()) = ((\<lambda>e. (e_from e, e_to e)) ` set reg = {(a, b). nextVersion cat a = Inr b}) \<and>
    ((\<exists>rt. rt_create cat reg = Inr rt) = (cat \<noteq> [] \<and> reg_validate reg cat = Inr ()))"
  using validate_iff[OF assms] rt_create_iff[OF assms] by (auto simp: adjacent_def)

theorem validate_accepts_exactly_chain_witness: "\<exists>rt. rt_create sample_cat sample_reg = Inr rt"
  using validate_accepts_exactly_chain[OF sample_invs(1), of sample_reg] sample_invs(4) by (simp add: sample_cat_def)

text \<open>MigrationRegistry::registerMigration never stores an empty callable or a duplicate edge, reports which of the two it was, and leaves the registry alone when it refuses.\<close>

theorem registry_registration:
  assumes "reg_inv reg" and "registerMigration reg a b fn = (reg', r)"
  shows "reg_inv reg' \<and> (r = Inr () \<longleftrightarrow> fn \<noteq> None \<and> \<not> (\<exists>e. findMigration reg a b = Inr e)) \<and>
    (if r = Inr () then \<exists>e. findMigration reg' a b = Inr e else reg' = reg) \<and>
    (fn = None \<longrightarrow> has_code r MigrationFailed) \<and> (fn \<noteq> None \<and> r \<noteq> Inr () \<longrightarrow> has_code r InvalidVersion)"
proof -
  note i = registerMigration_inv[OF assms]
  have "r = Inr () \<Longrightarrow> (a, b) \<in> (\<lambda>e. (e_from e, e_to e)) ` set reg'"
    using assms(2) by (auto simp: registerMigration_def split: option.splits if_splits)
  moreover have "fn = None \<Longrightarrow> has_code r MigrationFailed" "fn \<noteq> None \<Longrightarrow> r \<noteq> Inr () \<Longrightarrow> has_code r InvalidVersion"
    using assms(2) by (auto simp: registerMigration_def split: if_splits)
  ultimately show ?thesis using i unfolding findMigration_iff by auto
qed

theorem registry_registration_witness:
  "has_code (snd (registerMigration sample_reg 1 2 (Some sample_step))) InvalidVersion"
proof -
  obtain reg' r where r: "registerMigration sample_reg 1 2 (Some sample_step) = (reg', r)" by fastforce
  have "(1, 2) \<in> (\<lambda>e. (e_from e, e_to e)) ` set sample_reg" by (simp add: sample_reg_def)
  then have "\<exists>e. findMigration sample_reg 1 2 = Inr e" by (simp add: findMigration_iff)
  with registry_registration[OF sample_invs(2) r] r show ?thesis by auto
qed

text \<open>C12: MigrationEngine::migrate over a validated registry always returns, and does exactly what running the callbacks of the registered versions above the current one up to the target, in ascending order and stopping at the first failure, does.\<close>

theorem migrate_runs_the_chain:
  assumes "cat_inv cat" "reg_inv reg" "reg_validate reg cat = Inr ()"
    and "target \<in> set (cat_versions cat)" "vc_version cfg \<in> set (cat_versions cat)" "vc_version cfg \<le> target"
  shows "migrate cat reg s cfg target =
    Some (run_chain reg (vc_version cfg) (filter (\<lambda>v. vc_version cfg < v \<and> v \<le> target) (cat_versions cat)) s (vc_model cfg))"
  using migrate_chain[OF assms] by (simp add: chain_to_def)

theorem migrate_runs_the_chain_witness:
  "\<exists>m. cm_fromValue sample = Some (Inr m) \<and>
     migrate sample_cat sample_reg () \<lparr>vc_version = 1, vc_model = m\<rparr> 4 = Some (run_chain sample_reg 1 [2, 4] () m)"
proof -
  obtain m where m: "cm_fromValue sample = Some (Inr m)" using sample_model by blast
  then show ?thesis using migrate_runs_the_chain[OF sample_invs(1,2,4), of 4 "\<lparr>vc_version = 1, vc_model = m\<rparr>" "()"]
    by (simp add: sample_invs(3))
qed

text \<open>C19: Whatever the callbacks do, when migrate returns (also with an error or a rethrown bad_alloc) the chain splits into a prefix of steps whose callbacks ran, in order and each on the model the one before left, and returned success, and the rest: the configuration's version is that of the last completed step (the start version when none completed). Either every step completed, the call succeeded, and model and state are what the last callback left; or the callback of the next step stopped the chain, the error is MigrationFailed or bad_alloc passed, and the model is what that callback left. The version is the target exactly when the call succeeded.\<close>

theorem migrate_version_is_last_completed:
  assumes "cat_inv cat" "reg_inv reg" "reg_validate reg cat = Inr ()"
    and "target \<in> set (cat_versions cat)" "vc_version cfg \<in> set (cat_versions cat)" "vc_version cfg < target"
    and "migrate cat reg s cfg target = Some (s', cfg', r)"
  shows "(\<exists>ran todo s1 m1. chain_to cat (vc_version cfg) target = ran @ todo \<and>
      steps_complete reg (vc_version cfg) ran s (vc_model cfg) s1 m1 \<and> vc_version cfg' = last (vc_version cfg # ran) \<and>
      (if todo = [] then r = Ret (Inr ()) \<and> s' = s1 \<and> vc_model cfg' = m1
       else step_stops reg (vc_version cfg') (hd todo) s1 m1 s' (vc_model cfg') r)) \<and>
    vc_version cfg' \<in> set (cat_versions cat) \<and> vc_version cfg \<le> vc_version cfg' \<and> vc_version cfg' \<le> target \<and>
    (r = Ret (Inr ()) \<longleftrightarrow> vc_version cfg' = target)"
proof -
  let ?a = "vc_version cfg" and ?c = "chain_to cat (vc_version cfg) target"
  have run: "run_chain reg ?a ?c s (vc_model cfg) = (s', cfg', r)"
    using migrate_chain[OF assms(1-5), of s] assms(6,7) by simp
  have le: "?a \<le> target" using assms(6) by simp
  from run_chain_version[OF run chain_edges_valid[OF assms(1-4) assms(5) le]] obtain ran todo s1 m1 where
    c: "?c = ran @ todo" "vc_version cfg' = last (?a # ran)" and steps: "steps_complete reg ?a ran s (vc_model cfg) s1 m1"
    and rest: "if todo = [] then r = Ret (Inr ()) \<and> s' = s1 \<and> vc_model cfg' = m1
      else step_stops reg (last (?a # ran)) (hd todo) s1 m1 s' (vc_model cfg') r" by blast
  have "todo \<noteq> [] \<Longrightarrow> r \<noteq> Ret (Inr ())" using rest by (auto elim: step_stops.cases)
  then have "r = Ret (Inr ()) \<longleftrightarrow> todo = []" using rest by auto
  moreover have "todo = [] \<longleftrightarrow> last (?a # ran) = target" by (rule chain_split_last[OF assms(1,4,6) c(1)])
  moreover have "last (?a # ran) \<in> insert ?a (set ?c)" using c(1) by auto
  moreover have "set ?c \<subseteq> {v \<in> set (cat_versions cat). ?a < v \<and> v \<le> target}" by (auto simp: chain_to_def)
  ultimately have b: "vc_version cfg' \<in> set (cat_versions cat)" "?a \<le> vc_version cfg'" "vc_version cfg' \<le> target"
    "r = Ret (Inr ()) \<longleftrightarrow> vc_version cfg' = target" using c(2) assms(5,6) by auto
  show ?thesis by (intro conjI exI[of _ ran] exI[of _ todo] exI[of _ s1] exI[of _ m1] c steps b rest[folded c(2)])
qed

theorem migrate_version_is_last_completed_witness:
  "\<exists>m s' cfg' r. cm_fromValue sample = Some (Inr m) \<and>
     migrate sample_cat sample_reg () \<lparr>vc_version = 1, vc_model = m\<rparr> 4 = Some (s', cfg', r) \<and> vc_version cfg' \<le> 4"
proof -
  obtain m where m: "cm_fromValue sample = Some (Inr m)" using sample_model by blast
  obtain s' cfg' r where r: "migrate sample_cat sample_reg () \<lparr>vc_version = 1, vc_model = m\<rparr> 4 = Some (s', cfg', r)"
    using migrate_returns[OF sample_invs(1,2)] by (metis prod_cases3)
  from migrate_version_is_last_completed[OF sample_invs(1,2,4) _ _ _ r] m r show ?thesis by (auto simp: sample_invs(3))
qed

text \<open>The direct migration entry point returns for every configuration, target and registry built through registration, validated or not: the while loop strictly raises the version.\<close>

theorem direct_migration_returns:
  assumes "cat_inv cat" and "reg_inv reg"
  shows "\<exists>s' cfg' r. migrate cat reg s cfg target = Some (s', cfg', r)"
  using migrate_returns[OF assms] by (metis prod_cases3)

theorem direct_migration_returns_witness:
  "\<exists>m s' cfg' r. cm_fromValue sample = Some (Inr m) \<and>
     migrate sample_cat [] () \<lparr>vc_version = 1, vc_model = m\<rparr> 4 = Some (s', cfg', r)"
  using direct_migration_returns[OF sample_invs(1), of "[]" "()"] sample_model by (simp add: reg_inv_def) blast

section \<open>The runtime\<close>

text \<open>C3: ConfigRuntime::synchronize is transactional for arbitrary callbacks and factories: unless it reports InSync, also when an error or bad_alloc leaves it, the caller's configuration is exactly what it was.\<close>

theorem synchronize_transactional:
  assumes "synchronize rt s cfg v = Some (s', cfg', r)" and "r \<noteq> Ret (Inr InSync)"
  shows "cfg' = cfg"
  by (rule sync_transactional[OF assms])

theorem synchronize_transactional_witness:
  "\<exists>m s' r. cm_fromValue sample = Some (Inr m) \<and>
     synchronize sample_rt () \<lparr>vc_version = 9, vc_model = m\<rparr> 4 = Some (s', \<lparr>vc_version = 9, vc_model = m\<rparr>, r)"
proof -
  obtain m where m: "cm_fromValue sample = Some (Inr m)" using sample_model by blast
  have "synchronize sample_rt () \<lparr>vc_version = 9, vc_model = m\<rparr> 4 =
      Some ((), \<lparr>vc_version = 9, vc_model = m\<rparr>, Ret (Inr DowngradeRequired))"
    by (simp add: synchronize_def inspect_def sample_rt_def cat_contains_iff[OF sample_invs(1)] sample_invs(3))
  from synchronize_transactional[OF this] this m show ?thesis by blast
qed

text \<open>C5: An upgrade through synchronize: a failing chain returns its error (or bad_alloc) with the configuration untouched; a completed chain whose model represents v1 ends InSync at the supported version, the committed model being v1 repaired with that version's defaults.\<close>

theorem synchronize_upgrades:
  assumes rt: "rt_inv rt" and "vc_version cfg \<in> set (cat_versions (rt_catalog rt))"
    and "supported \<in> set (cat_versions (rt_catalog rt))" and "vc_version cfg < supported"
    and run: "run_chain (rt_registry rt) (vc_version cfg) (chain_to (rt_catalog rt) (vc_version cfg) supported) s
      (vc_model cfg) = (s1, cfg1, r)"
  shows "case r of
      Bad_alloc \<Rightarrow> synchronize rt s cfg supported = Some (s1, cfg, Bad_alloc)
    | Ret (Inl e) \<Rightarrow> synchronize rt s cfg supported = Some (s1, cfg, Ret (Inl e))
    | Ret (Inr _) \<Rightarrow> (models (vc_model cfg1) v1 \<and> default_of (rt_catalog rt) supported s1 = Some (s', FReturns d) \<and>
        good_default v1 d \<longrightarrow> (\<exists>cfg'. synchronize rt s cfg supported = Some (s', cfg', Ret (Inr InSync)) \<and>
          vc_version cfg' = supported \<and> models (vc_model cfg') (fill d v1)))"
  using sync_upgrade(1,2)[OF assms] sync_upgrade(3)[OF assms, of v1 s' d] by (auto split: flow.split sum.split)

theorem synchronize_upgrades_witness:
  "\<exists>m cfg'. cm_fromValue sample = Some (Inr m) \<and>
     synchronize sample_rt () \<lparr>vc_version = 2, vc_model = m\<rparr> 4 = Some ((), cfg', Ret (Inr InSync)) \<and> vc_version cfg' = 4 \<and>
     models (vc_model cfg') (Obj [(''a'', Obj [(''x'', Scal (SInt 1)), (''y'', Scal (SInt 9))]), (''l'', Arr [])])"
proof -
  obtain m m1 where m: "cm_fromValue sample = Some (Inr m)" and m1: "models m1 sample_upgraded"
    and run: "run_chain (rt_registry sample_rt) 2 (chain_to (rt_catalog sample_rt) 2 4) () m = ((), \<lparr>vc_version = 4, vc_model = m1\<rparr>, Ret (Inr ()))"
    using sample_chain by blast
  have r: "run_chain (rt_registry sample_rt) (vc_version \<lparr>vc_version = 2, vc_model = m\<rparr>)
      (chain_to (rt_catalog sample_rt) (vc_version \<lparr>vc_version = 2, vc_model = m\<rparr>) 4) ()
      (vc_model \<lparr>vc_version = 2, vc_model = m\<rparr>) = ((), \<lparr>vc_version = 4, vc_model = m1\<rparr>, Ret (Inr ()))"
    using run by simp
  have d: "default_of (rt_catalog sample_rt) 4 () = Some ((), FReturns sample_defaults)"
    by (simp add: sample_rt_def sample_default sample_defaults_def)
  from synchronize_upgrades[OF sample_invs(5) _ _ _ r, of sample_upgraded "()" sample_defaults] m1 sample_upgraded_good d m
  show ?thesis by (auto simp: sample_rt_def sample_invs(3) sample_upgraded_fill)
qed

text \<open>At the supported version synchronize reports InSync, the model afterwards is the old one with the missing defaults filled in, and when nothing was missing the configuration is not even replaced (its handles stay valid).\<close>

theorem synchronize_repairs_in_place:
  assumes "cat_contains (rt_catalog rt) (vc_version cfg)" "models (vc_model cfg) v"
    and "default_of (rt_catalog rt) (vc_version cfg) s = Some (s', FReturns d)" "good_default v d"
  shows "\<exists>cfg'. synchronize rt s cfg (vc_version cfg) = Some (s', cfg', Ret (Inr InSync)) \<and>
    vc_version cfg' = vc_version cfg \<and> models (vc_model cfg') (fill d v) \<and> (fill d v = v \<longrightarrow> cfg' = cfg)"
  by (rule sync_current[OF assms])

theorem synchronize_repairs_in_place_witness:
  "\<exists>m cfg'. cm_fromValue sample = Some (Inr m) \<and>
     synchronize sample_rt () \<lparr>vc_version = 2, vc_model = m\<rparr> 2 = Some ((), cfg', Ret (Inr InSync)) \<and>
     models (vc_model cfg') (Obj [(''a'', Obj [(''x'', Scal (SInt 1)), (''y'', Scal (SInt 9))]), (''l'', Arr [Scal (SInt 2), Scal SNull])])"
proof -
  obtain m where m: "cm_fromValue sample = Some (Inr m)" "models m sample" using sample_model by blast
  let ?cfg = "\<lparr>vc_version = 2, vc_model = m\<rparr>"
  have "cat_contains (rt_catalog sample_rt) (vc_version ?cfg)" "models (vc_model ?cfg) sample"
    "default_of (rt_catalog sample_rt) (vc_version ?cfg) () = Some ((), FReturns sample_defaults)"
    using m(2) by (simp_all add: sample_rt_def cat_contains_iff[OF sample_invs(1)] sample_invs(3) sample_default sample_defaults_def)
  from synchronize_repairs_in_place[OF this sample_good] m(1) show ?thesis by (auto simp: sample_fill)
qed

text \<open>C18: Repair only adds: every node the model had keeps its path and its type, every scalar and array keeps its value, and afterwards every default member is present wherever both trees have an object.\<close>

theorem repair_never_overwrites:
  assumes "models m v" "default_of (rt_catalog rt) target s = Some (s', FReturns d)" "good_default v d"
  shows "\<exists>m' w. rt_repair rt s m target = Some (s', m', Ret (Inr (w \<noteq> v))) \<and> models m' w \<and> covers d w \<and>
    (\<forall>p c. tree_resolve p v = Inr c \<longrightarrow>
       (\<exists>c'. tree_resolve p w = Inr c' \<and> cv_type c' = cv_type c \<and> (cv_type c \<noteq> TObject \<longrightarrow> c' = c)))"
proof -
  have d: "wf_at 0 d" "cv_distinct d" using assms(3) by (auto simp: good_default_def wf_model_value_def wf_at_validate)
  from repair_ok[OF assms] obtain m' where
    "rt_repair rt s m target = Some (s', m', Ret (Inr (fill d v \<noteq> v)))" "models m' (fill d v)" by blast
  with fill_covers[OF d(2), of v] fill_keeps[OF _ d(1), of _ v] show ?thesis by blast
qed

theorem repair_never_overwrites_witness:
  "\<exists>m m' w. cm_fromValue sample = Some (Inr m) \<and> rt_repair sample_rt () m 4 = Some ((), m', Ret (Inr True)) \<and>
     models m' w \<and> tree_resolve [Key ''a'', Key ''x''] w = Inr (Scal (SInt 1))"
proof -
  obtain m where m: "cm_fromValue sample = Some (Inr m)" "models m sample" using sample_model by blast
  have d: "default_of (rt_catalog sample_rt) 4 () = Some ((), FReturns sample_defaults)"
    by (simp add: sample_rt_def sample_default sample_defaults_def)
  have x: "tree_resolve [Key ''a'', Key ''x''] sample = Inr (Scal (SInt 1))" by (simp add: sample_def)
  from repair_never_overwrites[OF m(2) d sample_good] obtain m' w where
    w: "rt_repair sample_rt () m 4 = Some ((), m', Ret (Inr (w \<noteq> sample)))" "models m' w" "covers sample_defaults w"
    "\<forall>p c. tree_resolve p sample = Inr c \<longrightarrow>
       (\<exists>c'. tree_resolve p w = Inr c' \<and> cv_type c' = cv_type c \<and> (cv_type c \<noteq> TObject \<longrightarrow> c' = c))" by blast
  have "\<not> covers sample_defaults sample" by (simp add: sample_defaults_def sample_def)
  with w(3) have "w \<noteq> sample" by blast
  moreover from w(4) x have "tree_resolve [Key ''a'', Key ''x''] w = Inr (Scal (SInt 1))" by fastforce
  ultimately show ?thesis using m(1) w(1,2) by auto
qed

text \<open>C20: Synchronizing twice, from any registered version up to the supported one (the upgrade and the repair at the supported version are both cases of it): when the chain of migrations completes with a model that represents v0, the first call reports InSync at the supported version with v0 repaired by that version's defaults; when the factory then produces the same defaults again, the second call reports InSync and leaves the configuration, with its arena and handles, exactly as the first call left it.\<close>

theorem synchronize_idempotent:
  assumes "rt_inv rt" and "vc_version cfg \<in> set (cat_versions (rt_catalog rt))"
    "supported \<in> set (cat_versions (rt_catalog rt))" "vc_version cfg \<le> supported"
    and "run_chain (rt_registry rt) (vc_version cfg) (chain_to (rt_catalog rt) (vc_version cfg) supported) s
      (vc_model cfg) = (s0, cfg0, Ret (Inr ()))" "models (vc_model cfg0) v0"
    and "default_of (rt_catalog rt) supported s0 = Some (s1, FReturns d)" "good_default v0 d"
    and "default_of (rt_catalog rt) supported s1 = Some (s2, FReturns d)" "room_for (fill d v0) d"
  shows "\<exists>cfg1. synchronize rt s cfg supported = Some (s1, cfg1, Ret (Inr InSync)) \<and>
    vc_version cfg1 = supported \<and> models (vc_model cfg1) (fill d v0) \<and>
    synchronize rt s1 cfg1 supported = Some (s2, cfg1, Ret (Inr InSync))"
  by (rule sync_twice[OF assms])

theorem synchronize_idempotent_witness:
  "\<exists>m cfg1. cm_fromValue sample = Some (Inr m) \<and>
     synchronize sample_rt () \<lparr>vc_version = 2, vc_model = m\<rparr> 4 = Some ((), cfg1, Ret (Inr InSync)) \<and> vc_version cfg1 = 4 \<and>
     synchronize sample_rt () cfg1 4 = Some ((), cfg1, Ret (Inr InSync))"
proof -
  obtain m m1 where m: "cm_fromValue sample = Some (Inr m)" and m1: "models m1 sample_upgraded"
    and run: "run_chain (rt_registry sample_rt) 2 (chain_to (rt_catalog sample_rt) 2 4) () m = ((), \<lparr>vc_version = 4, vc_model = m1\<rparr>, Ret (Inr ()))"
    using sample_chain by blast
  have d: "default_of (rt_catalog sample_rt) 4 () = Some ((), FReturns sample_defaults)"
    by (simp add: sample_rt_def sample_default sample_defaults_def)
  have room: "room_for (fill sample_defaults sample_upgraded) sample_defaults"
    unfolding sample_upgraded_fill by (simp add: sample_defaults_def room_for_def kMaxTreeDepth_def kNodeIdNone_def)
  from synchronize_idempotent[where cfg = "\<lparr>vc_version = 2, vc_model = m\<rparr>", OF sample_invs(5) _ _ _ _ _ d sample_upgraded_good d room, of "()"]
    m m1 run show ?thesis by (auto simp: sample_rt_def sample_invs(3))
qed

section \<open>Running out of memory\<close>

text \<open>The write of an object at a path that has to be created needs eight more allocations.\<close>

definition set_answers :: "bool list \<Rightarrow> (bool list \<times> cmodel \<times> (error + unit) flow) option" where
  "set_answers as = do { m \<leftarrow> cm_new; try_set as m ''a.x'' (Obj [(''k'', Scal (SInt 1))]) }"

lemma freeSubtree_numeral: "freeSubtree (numeral k) ar i = do {
    ar1 \<leftarrow> freeChildren_with (freeSubtree (pred_numeral k)) ar i; release ar1 i }"
  by (simp add: numeral_eq_Suc)

lemmas set_answers_eval = set_answers_def cm_new_def try_set_def sample_paths alloc_ok_def validateTree.simps cv_type.simps
  planWrite_def try_apply_def guarded_node_def try_allocate_def try_link_def try_wrap_def guard_frees_def
  freeSubtree_numeral stack_fuel_def kMaxTreeDepth_def kNodeIdNone_def empty_arena_def default_node_def allocate_def arena_get_def arena_modify_def
  release_def freeChildren_with_def set_parent_def container_type_def checkCreatable_def findMember_def isAddressableKey_def
  is_reserved_def

lemma set_answers:
  "\<exists>as m. set_answers [True, True, True, True, True, False] = Some (as, m, Bad_alloc)"
  "\<exists>as m. set_answers [True, True, True, True, True, True, True, False] = Some (as, m, Bad_alloc)"
  "\<exists>as m. set_answers [] = Some (as, m, Ret (Inr ()))"
  by (simp_all add: set_answers_eval)

text \<open>C4: The strong exception guarantee of ConfigModel::set: whatever allocation fails (the answers as decide), the call ends without undefined behaviour, and if std::bad_alloc leaves it, the model still holds exactly the tree it held, with no slot leaked by the subtree guards, every handle valid or stale as before and every reachable node unchanged; if it does not, the call did what set does when memory suffices.\<close>

theorem set_strong_guarantee:
  assumes "models m v" and "cv_distinct new" and "room_for v new"
  shows "\<exists>as' m' r. try_set as m path new = Some (as', m', r) \<and>
    (case r of Bad_alloc \<Rightarrow> models m' v \<and> untouched m m' | Ret x \<Rightarrow> cm_set m path new = Some (m', x))"
  by (rule try_set_tries[OF assms])

theorem set_strong_guarantee_witness:
  "\<exists>m as' m'. cm_new = Some m \<and> models m (Obj []) \<and>
     try_set [True, True, True, True, True, False] m ''a.x'' (Obj [(''k'', Scal (SInt 1))]) = Some (as', m', Bad_alloc) \<and>
     models m' (Obj []) \<and> untouched m m'"
proof -
  let ?v = "Obj [(''k'', Scal (SInt 1))]"
  obtain m where m: "cm_new = Some m" "models m (Obj [])" using cm_new_holds by (metis modelsI)
  have v: "cv_distinct ?v" "room_for (Obj []) ?v" by (simp_all add: room_for_def kMaxTreeDepth_def kNodeIdNone_def)
  from set_answers(1) m(1) obtain as' m' where
    t: "try_set [True, True, True, True, True, False] m ''a.x'' ?v = Some (as', m', Bad_alloc)"
    unfolding set_answers_def m(1) by auto
  from set_strong_guarantee[OF m(2) v, of "[True, True, True, True, True, False]" "''a.x''"] t m show ?thesis by auto
qed

text \<open>C36: The conversion behind as<T>() and get<T>() is lossless and complete: for every integer type up to 64 bits, float, double, bool and string, it returns a value exactly when the scalar holds that very value and the type can represent it (doubles read as their IEEE 754 value), and every refusal is InvalidType.\<close>

theorem typed_read_exact:
  assumes "wf_type ty"
  shows "(convertScalar ty s = Inr r \<longleftrightarrow> spec_convert ty s r) \<and> (convertScalar ty s = Inl e \<longrightarrow> err_code e = InvalidType)"
  using convert_spec[OF assms] convert_error by blast

theorem typed_read_exact_witness:
  "convertScalar (TyInteger False 8) (SInt 200) = Inr (VInteger 200) \<and> (\<forall>r. convertScalar (TyInteger True 8) (SInt 200) \<noteq> Inr r)"
proof -
  have i: "i = 200" if "scalar_int (SInt 200) i" for i
  proof -
    from that have "word_of_int i = (200 :: int64)" "- (2 ^ 63) \<le> i" "i < 2 ^ 63" by (simp_all add: scalar_int_def)
    with sint_of_int_exact[of i] show ?thesis by simp
  qed
  have "\<not> spec_convert (TyInteger True 8) (SInt 200) r" for r
    by (auto simp: spec_convert_def in_range_def int_max_def dest: i)
  then have "convertScalar (TyInteger True 8) (SInt 200) \<noteq> Inr r" for r
    using typed_read_exact[of "TyInteger True 8" "SInt 200" r] by (simp add: wf_type_def)
  moreover have "spec_convert (TyInteger False 8) (SInt 200) (VInteger 200)"
    by (simp add: spec_convert_def scalar_int_def in_range_def int_min_def int_max_def)
  then have "convertScalar (TyInteger False 8) (SInt 200) = Inr (VInteger 200)"
    using typed_read_exact[of "TyInteger False 8" "SInt 200" "VInteger 200"] by (simp add: wf_type_def)
  ultimately show ?thesis by blast
qed

text \<open>ConfigModel::get<T> returns, for every path, the lossless conversion of the scalar the value tree has there, or the documented error of the path or of the conversion; no handle it goes through is stale.\<close>

theorem typed_get_implements_spec:
  assumes "models m v"
  shows "cm_get ty m path = Some (spec_read ty v path)"
  by (rule cm_get_models[OF assms])

theorem typed_get_implements_spec_witness:
  "\<exists>m. cm_fromValue sample = Some (Inr m) \<and> cm_get (TyInteger True 16) m ''a.x'' = Some (Inr (VInteger 1))"
proof -
  obtain m where m: "cm_fromValue sample = Some (Inr m)" "models m sample" using sample_model by blast
  have "spec_read (TyInteger True 16) sample ''a.x'' = Inr (VInteger 1)"
    by (simp add: spec_read_def spec_get_def sample_paths sample_def convertScalar_def fitsInt_def int_min_def int_max_def)
  with typed_get_implements_spec[OF m(2)] m(1) show ?thesis by simp
qed

text \<open>A scalar written with set<T> is read back by get<U> as the same number, string or flag, for every U that can hold it: bool and string as themselves, a double bit for bit, an integer through every integer type in whose range it lies.\<close>

theorem typed_read_after_set:
  assumes "models m v" and "\<And>s. room_for v (Scal s)" and "cm_set_scalar m path x = Some (m', Inr ())"
    and "wf_type ty" and "reads_back x ty r"
  shows "cm_get ty m' path = Some (Inr r)"
  by (rule read_after_set[OF assms])

theorem typed_read_after_set_witness:
  "\<exists>m m'. cm_fromValue sample = Some (Inr m) \<and> cm_set_scalar m ''a.y'' (CUnsigned 200) = Some (m', Inr ()) \<and>
     cm_get (TyInteger False 8) m' ''a.y'' = Some (Inr (VInteger 200))"
proof -
  obtain m where m: "cm_fromValue sample = Some (Inr m)" "models m sample" using sample_model by blast
  have "\<not> isl (spec_set sample ''a.y'' (Scal (SInt 200)))"
    by (simp add: spec_set_def sample_paths kMaxTreeDepth_def sample_def)
  then obtain m' where "cm_set m ''a.y'' (Scal (SInt 200)) = Some (m', Inr ())"
    using cs.put_law[OF m(2) _ sample_room(1), of "SInt 200" "''a.y''"]
    by (cases "spec_set sample ''a.y'' (Scal (SInt 200))") auto
  then have s: "cm_set_scalar m ''a.y'' (CUnsigned 200) = Some (m', Inr ())"
    by (simp add: cm_set_scalar_def ofPreconditionViolation_def cv_of_def)
  have "reads_back (CUnsigned 200) (TyInteger False 8) (VInteger 200)"
    by (auto simp: reads_back_def in_range_def int_min_def int_max_def intro!: exI[of _ False] exI[of _ 8])
  from typed_read_after_set[OF m(2) sample_room(1) s _ this] m(1) s show ?thesis by (auto simp: wf_type_def intro: exI[of _ False] exI[of _ 8])
qed

section \<open>The JSON backend\<close>

text \<open>A document, the text it is written as, and a parser and a printer that know only these.\<close>

definition sample_config :: "cmodel \<Rightarrow> vconfig" where
  "sample_config m = \<lparr>vc_version = 3, vc_model = m\<rparr>"

definition sample_doc :: json_doc where
  "sample_doc = JObject [(kVersionKey, JUnsigned 3), (''a'', JObject [(''x'', JUnsigned 1)]),
     (''l'', JArray [JUnsigned 2, JNull])]"

definition sample_text :: string where
  "sample_text = ''{__version: 3, a: {x: 1}, l: [2, null]}''"

definition sample_parser :: json_parser where
  "sample_parser t = (if t = sample_text @ [CHR 0x0A] then (events_of sample_doc, PDone)
     else ([EvStartObject, EvParseError ''syntax error''], PDone))"

lemma sample_limits: "maxNodes default_limits = 100000" "maxInputBytes default_limits = 4194304"
  by (simp_all add: default_limits_def)

lemma sample_doc_printed: "printed lit (spec_save (sample_config m) sample) = sample_doc"
  by (simp add: spec_save_def sample_config_def sample_def sample_doc_def cv_members_def)

lemma sample_no_key: "\<not> cv_contains sample kVersionKey" "finite_doubles sample"
  by (simp_all add: sample_def cv_contains_def kVersionKey_def)

lemma sample_literal: "float_literal ''0.0''"
  by (simp add: float_literal_def)

lemma sample_parse: "sample_parser (sample_text @ [CHR 0x0A]) = (events_of sample_doc, PDone)"
  by (simp add: sample_parser_def)

lemma sample_input: "readBounded ''JSON'' (Some [sample_text @ [CHR 0x0A]]) (maxInputBytes default_limits) = Inr (sample_text @ [CHR 0x0A])"
  by (simp add: readBounded_def sample_limits sample_text_def)

lemma sample_spec_load: "spec_load default_limits sample_doc = Inr (3, sample)"
  using document_printed[of "\<lambda>_. ''0.0''" sample default_limits "sample_config undefined", OF sample_literal sample_wf(1) sample_no_key(1)]
  unfolding sample_doc_printed by (simp add: sample_wf sample_limits sample_config_def)

text \<open>C30: JsonInterface::load over the SAX state machine of ValueBuilder does what the recursive reading of the document does: it takes the version from the carrier key wherever the key stands, builds exactly the described value tree in a model, and otherwise reports the first error in document order.\<close>

theorem json_load_implements_spec:
  assumes "maxNodes L < kNodeIdNone" and "readBounded ''JSON'' stream (maxInputBytes L) = Inr bytes"
    and "parser bytes = (events_of j, PDone)"
  shows "case spec_load L j of
      Inl e \<Rightarrow> json_load parser L stream = Some (Ret (Inl e))
    | Inr (version, v) \<Rightarrow> \<exists>m. json_load parser L stream = Some (Ret (Inr \<lparr>vc_version = version, vc_model = m\<rparr>)) \<and> models m v"
  by (rule load_document[where parser = parser and bytes = bytes, OF assms])

theorem json_load_implements_spec_witness:
  "\<exists>m. json_load sample_parser default_limits (Some [sample_text @ [CHR 0x0A]]) =
     Some (Ret (Inr \<lparr>vc_version = 3, vc_model = m\<rparr>)) \<and> models m sample"
  using json_load_implements_spec[where parser = sample_parser and L = default_limits, OF _ sample_input sample_parse] sample_spec_load
  by (simp add: sample_limits kNodeIdNone_def)

text \<open>Whatever a document holds, a configuration load accepts stays within the bounds: addressable unique keys, the nesting limit, at most maxNodes nodes counted with the root, and no member named like the version carrier.\<close>

theorem json_load_within_limits:
  assumes "maxNodes L < kNodeIdNone" and "parser bytes = (events_of j, PDone)"
    and "readBounded ''JSON'' stream (maxInputBytes L) = Inr bytes"
    and "json_load parser L stream = Some (Ret (Inr config))"
  shows "\<exists>v. models (vc_model config) v \<and> wf_model_value v \<and> cv_nodes v \<le> maxNodes L \<and> \<not> cv_contains v kVersionKey"
proof -
  from load_document[where parser = parser and bytes = bytes, OF assms(1,3,2)] assms(4) obtain version v where
    v: "spec_load L j = Inr (version, v)" "models (vc_model config) v" by (auto split: sum.splits)
  then have "read_document L j = Inr (Some version, v)" by (auto simp: spec_load_def split: sum.splits option.splits prod.splits)
  from document_sound[OF this] v(2) show ?thesis by blast
qed

theorem json_load_within_limits_witness:
  "\<exists>m v. json_load sample_parser default_limits (Some [sample_text @ [CHR 0x0A]]) =
     Some (Ret (Inr \<lparr>vc_version = 3, vc_model = m\<rparr>)) \<and> models m v \<and> cv_nodes v \<le> 100000"
proof -
  have L: "maxNodes default_limits < kNodeIdNone" by (simp add: sample_limits kNodeIdNone_def)
  from load_document[where parser = sample_parser, OF L sample_input sample_parse] sample_spec_load obtain m where
    m: "json_load sample_parser default_limits (Some [sample_text @ [CHR 0x0A]]) = Some (Ret (Inr \<lparr>vc_version = 3, vc_model = m\<rparr>))"
    by auto
  from json_load_within_limits[where parser = sample_parser, OF L sample_parse sample_input m] m show ?thesis by (auto simp: sample_limits)
qed

text \<open>C29: JSON round trip: a model without the reserved key and without non-finite doubles is saved in full, and loading the written bytes, in whatever chunks the stream delivers them, gives a configuration with the same version and the same value tree (member order, integer width and every double bit for bit), for every printer and parser that agree on that one document.\<close>

theorem json_save_then_load:
  assumes "models (vc_model config) v" and "finite_doubles v" and "\<not> cv_contains v kVersionKey"
    and "cv_nodes v \<le> maxNodes L" "maxNodes L < kNodeIdNone" "maxInputBytes L < 2 ^ 64"
    and "dump (spec_save config v) = DText t" and "\<And>d. float_literal (lit d)"
    and "parser (t @ [CHR 0x0A]) = (events_of (printed lit (spec_save config v)), PDone)"
    and "concat chunks = t @ [CHR 0x0A]" "[] \<notin> set chunks" "length t < maxInputBytes L"
  shows "json_save dump config (\<lambda>_. True) = Some (Some (t @ [CHR 0x0A]), Ret (Inr ())) \<and>
    (\<exists>m. json_load parser L (Some chunks) = Some (Ret (Inr \<lparr>vc_version = vc_version config, vc_model = m\<rparr>)) \<and> models m v)"
  using json_roundtrip(1)[where parser = parser and lit = lit and dump = dump and ok = "\<lambda>_. True", OF assms]
    json_roundtrip(2)[where parser = parser and lit = lit and dump = dump, OF assms] by simp

theorem json_save_then_load_witness:
  "\<exists>m m'. cm_fromValue sample = Some (Inr m) \<and>
     json_save (\<lambda>_. DText sample_text) (sample_config m) (\<lambda>_. True) = Some (Some (sample_text @ [CHR 0x0A]), Ret (Inr ())) \<and>
     json_load sample_parser default_limits (Some [sample_text, [CHR 0x0A]]) = Some (Ret (Inr \<lparr>vc_version = 3, vc_model = m'\<rparr>)) \<and>
     models m' sample"
proof -
  obtain m where m: "cm_fromValue sample = Some (Inr m)" "models m sample" using sample_model by blast
  have c: "models (vc_model (sample_config m)) sample" using m(2) by (simp add: sample_config_def)
  have p: "sample_parser (sample_text @ [CHR 0x0A]) = (events_of (printed (\<lambda>_. ''0.0'') (spec_save (sample_config m) sample)), PDone)"
    by (simp add: sample_doc_printed sample_parse)
  from json_save_then_load[where parser = sample_parser and lit = "\<lambda>_. ''0.0''" and dump = "\<lambda>_. DText sample_text" and L = default_limits
      and chunks = "[sample_text, [CHR 0x0A]]", OF c sample_no_key(2,1) _ _ _ _ _ p]
    m(1) sample_literal show ?thesis
    by (auto simp: sample_wf sample_limits kNodeIdNone_def sample_text_def sample_config_def)
qed

text \<open>C37: JsonInterface::save refuses exactly what JSON cannot carry: a model with a top-level member named like the version carrier or with a NaN or an infinity anywhere fails with SerializationError before anything is written, and every other model reaches the printer.\<close>

theorem json_save_refuses:
  assumes "models (vc_model config) v"
  shows "if cv_contains v kVersionKey \<or> \<not> finite_doubles v
    then \<exists>e. json_save dump config ok = Some (None, Ret (Inl e)) \<and> err_code e = SerializationError
    else dump (spec_save config v) = DText t \<longrightarrow> json_save dump config ok = Some (Some (t @ [CHR 0x0A]),
      Ret (if ok (t @ [CHR 0x0A]) then Inr () else fail SerializationError ''failed to write JSON document to stream''))"
proof -
  obtain ms where ms: "v = Obj ms" using models_wf[OF assms] by (cases v) (auto simp: wf_model_value_def)
  show ?thesis
  proof (cases "finite_doubles v")
    case True
    with json_of_finite(2)[of ms] save_emits[OF assms, of dump ok] show ?thesis
      by (simp add: ms cv_members_def spec_save_def fail_def del: Inl_fold_fail)
  next
    case False
    with json_of_infinite(2)[of ms "[(kVersionKey, JUnsigned (ucast (vc_version config)))]"] obtain e where
      "json_members [(kVersionKey, JUnsigned (ucast (vc_version config)))] ms = Inl e" "err_code e = SerializationError"
      by (cases "json_members [(kVersionKey, JUnsigned (ucast (vc_version config)))] ms") (auto simp: ms has_code_def split: sum.splits)
    with False save_emits[OF assms, of dump ok] show ?thesis
      by (simp add: ms cv_members_def fail_def del: Inl_fold_fail)
  qed
qed

theorem json_save_refuses_witness:
  "\<exists>m. cm_fromValue sample = Some (Inr m) \<and>
     json_save (\<lambda>_. DText sample_text) (sample_config m) (\<lambda>_. False) = Some (Some (sample_text @ [CHR 0x0A]),
       Ret (fail SerializationError ''failed to write JSON document to stream''))"
proof -
  obtain m where m: "cm_fromValue sample = Some (Inr m)" "models m sample" using sample_model by blast
  have c: "models (vc_model (sample_config m)) sample" using m(2) by (simp add: sample_config_def)
  from json_save_refuses[OF c, of "\<lambda>_. DText sample_text" "\<lambda>_. False" sample_text] m(1) sample_no_key show ?thesis by auto
qed

text \<open>JSON load never accepts a text its parser reports a syntax error on, wherever the error stands and whatever the builder has read before, and every error load reports, on any text and any stream, is ParseError or InvalidVersion.\<close>

theorem json_load_rejects_malformed:
  assumes "json_load parser L stream = Some (Ret r)"
  shows "(\<forall>e. r = Inl e \<longrightarrow> err_code e = ParseError \<or> err_code e = InvalidVersion) \<and>
    (parser bytes = (evs @ EvParseError what # later, pend) \<and> readBounded ''JSON'' stream (maxInputBytes L) = Inr bytes \<longrightarrow> isl r)"
  using load_codes[of parser L stream] malformed_rejected[of parser bytes evs what later pend stream L, OF _ _ assms] assms
  by (auto simp: load_code_def)

theorem json_load_rejects_malformed_witness:
  "json_load sample_parser default_limits (Some [''{'']) =
     Some (Ret (Inl \<lparr>err_code = ParseError, err_message = ''syntax error''\<rparr>)) \<and>
   isl (Inl \<lparr>err_code = ParseError, err_message = ''syntax error''\<rparr> :: error + vconfig)"
proof -
  let ?e = "Inl \<lparr>err_code = ParseError, err_message = ''syntax error''\<rparr> :: error + vconfig"
  have p: "sample_parser ''{'' = ([EvStartObject] @ EvParseError ''syntax error'' # [], PDone)"
    by (simp add: sample_parser_def sample_text_def)
  have r: "readBounded ''JSON'' (Some [''{'']) (maxInputBytes default_limits) = Inr ''{''"
    by (simp add: readBounded_def sample_limits)
  have j: "json_load sample_parser default_limits (Some [''{'']) = Some (Ret ?e)"
    by (simp add: json_load_unfold r p vb_init_def start_object_def consumeCarrierFlag_def checkContainerDepth_def setError_def
        takeError_def)
  from json_load_rejects_malformed[OF j, of "''{''"] p r j show ?thesis by blast
qed

text \<open>The bounded read of a stream returns the concatenation of the chunks the buffer hands out exactly when it is no longer than maxInputBytes and fails with ParseError otherwise: the subtraction of the limit test never wraps, and bytes past the limit are never appended.\<close>

theorem bounded_read_exact:
  assumes "[] \<notin> set chunks" and "max_bytes < 2 ^ 64"
  shows "readBounded kind (Some chunks) max_bytes = (if length (concat chunks) \<le> max_bytes then Inr (concat chunks)
    else fail ParseError (kind @ '' document exceeds input limit ('' @ nat_str max_bytes @ '' bytes)''))"
  by (rule readBounded_spec[OF assms])

theorem bounded_read_exact_witness:
  "readBounded ''JSON'' (Some [''ab'', ''c'']) 3 = Inr ''abc'' \<and> isl (readBounded ''JSON'' (Some [''ab'', ''cd'']) 3)"
  using bounded_read_exact[of "[''ab'', ''c'']" 3 "''JSON''"] bounded_read_exact[of "[''ab'', ''cd'']" 3 "''JSON''"] by (simp add: fail_def del: Inl_fold_fail)

section \<open>The XML backend\<close>

text \<open>An indented document, a parser that knows only its text, and the exact decimal expansion as \<open>std::to_chars\<close>.\<close>

definition sample_xml_text :: string where
  "sample_xml_text = ''<config version=3><a><x type=int>1</x></a><l type=array>..</l></config>''"

definition sample_xml :: "xml list" where
  "sample_xml = [XElement kRootName [(kVersionAttr, ''3'')]
     [XPcdata '' '', XElement ''a'' [] [XElement ''x'' [(kTypeAttr, ''int'')] [XPcdata ''1'']], XPcdata '' '',
      XElement ''l'' [(kTypeAttr, ''array'')] [XElement ''item'' [(kTypeAttr, ''int'')] [XPcdata ''2''],
        XPcdata '' '', XElement ''item'' [(kTypeAttr, ''null'')] []]], XPcdata '' '']"

definition sample_xml_parser :: xml_parser where
  "sample_xml_parser t = (if t = sample_xml_text then Inr sample_xml else Inl ''no document element'')"

lemma sample_names: "isValidElementName ''a''" "isValidElementName ''x''" "isValidElementName ''l''"
proof -
  have e: "encodeUtf8 0x61 = ''a''" "encodeUtf8 0x78 = ''x''" "encodeUtf8 0x6C = ''l''"
    by (simp_all add: encodeUtf8_def byte_def char_of_def bit_0)
  have s: "isValidElementName (encodeUtf8 c)" if "isNameStartChar c" for c
    unfolding isValidElementName_iff using that by (intro exI[of _ c] exI[of _ "[]"]) simp
  show "isValidElementName ''a''" "isValidElementName ''x''" "isValidElementName ''l''"
    using s[of "0x61"] s[of "0x78"] s[of "0x6C"] unfolding e by (simp_all add: isNameStartChar_def)
qed

lemma sample_saveable: "saveable sample"
  by (simp add: sample_def sample_names)

lemma sample_digits: "nat_str 1 = ''1''" "nat_str 2 = ''2''" "nat_str 3 = ''3''" "nat_str (Suc 0) = ''1''"
  by (simp_all add: nat_str.simps char_of_def bit_0)

lemma sample_space: "isXmlWhitespace '' ''"
  by (simp add: isXmlWhitespace_def)

lemma sample_xml_laid_out: "laid_out formatted [root_element fmt (sample_config m) sample] sample_xml"
proof -
  note C = laid_out_child[where R = formatted] and N = laid_out_Nil[where R = formatted]
    and S = laid_out_space[where R = formatted, OF sample_space]
  have x: "formatted (element_of fmt (Scal (SInt 1)) ''x'') (XElement ''x'' [(kTypeAttr, ''int'')] [XPcdata ''1''])"
    using formatted_text[of "[XPcdata ''1'']" "''x''" "[(kTypeAttr, ''int'')]"] by (simp add: int_str_def sample_digits)
  have a: "formatted (element_of fmt (Obj [(''x'', Scal (SInt 1))]) ''a'') (XElement ''a'' [] [XElement ''x'' [(kTypeAttr, ''int'')] [XPcdata ''1'']])"
    using formatted_container[OF _ C[OF x N], of "''a''" "[]"] by simp
  have i: "formatted (element_of fmt (Scal (SInt 2)) kItemName) (XElement ''item'' [(kTypeAttr, ''int'')] [XPcdata ''2''])"
    "formatted (element_of fmt (Scal SNull) kItemName) (XElement ''item'' [(kTypeAttr, ''null'')] [])"
    using formatted_text[of "[XPcdata ''2'']" "''item''" "[(kTypeAttr, ''int'')]"] formatted_text[of "[]" "''item''" "[(kTypeAttr, ''null'')]"]
    by (simp_all add: int_str_def sample_digits kItemName_def)
  have l: "formatted (element_of fmt (Arr [Scal (SInt 2), Scal SNull]) ''l'') (XElement ''l'' [(kTypeAttr, ''array'')]
      [XElement ''item'' [(kTypeAttr, ''int'')] [XPcdata ''2''], XPcdata '' '', XElement ''item'' [(kTypeAttr, ''null'')] []])"
    using formatted_container[OF _ C[OF i(1) S[OF C[OF i(2) N]]],
        of "''l''" "[(kTypeAttr, ''array'')]"] by (simp del: element_of.simps)
  have kids: "laid_out formatted [element_of fmt (Obj [(''x'', Scal (SInt 1))]) ''a'', element_of fmt (Arr [Scal (SInt 2), Scal SNull]) ''l'']
      (case hd sample_xml of XElement n as cs \<Rightarrow> cs)"
    using S[OF C[OF a S[OF C[OF l N]]]] by (simp add: sample_xml_def)
  from C[OF formatted_container[OF _ kids, of kRootName "[(kVersionAttr, ''3'')]"] S[OF N]] show ?thesis
    by (simp add: root_element_def sample_config_def sample_def cv_members_def sample_xml_def sample_digits del: element_of.simps element_of_simps)
qed

lemma sample_xml_input: "readBounded ''XML'' (Some [sample_xml_text]) (maxInputBytes default_limits) = Inr sample_xml_text"
  by (simp add: readBounded_def sample_limits sample_xml_text_def)

lemma sample_xml_load: "xml_spec_load sample_xml_parser default_limits (Some [sample_xml_text]) = Inr (3, sample)"
proof -
  have "cv_nodes sample \<le> maxNodes default_limits" by (simp add: sample_wf sample_limits)
  from xml_document_reads_back[OF exact_literal_ok sample_saveable sample_wf(1) this sample_xml_laid_out[of _ undefined]]
  have d: "xml_document default_limits sample_xml = Inr (3, sample)" by (simp add: sample_config_def)
  have p: "sample_xml_parser sample_xml_text = Inr sample_xml" by (simp add: sample_xml_parser_def)
  show ?thesis unfolding xml_spec_load_def sample_xml_input sum.case p d ..
qed

text \<open>C35: The byte-level checks of the XML backend are exact: the hand-written strict UTF-8 decoder accepts exactly the encoding form of the Unicode scalar values (no overlong form, no surrogate, nothing above U+10FFFF, nothing truncated) and returns the code point with the rest, isXmlRepresentable accepts exactly the UTF-8 texts over XML characters without carriage return, and isValidElementName exactly the XML Name production without the colon.\<close>

theorem xml_text_exact:
  "(decodeUtf8 s = Some (c, r) \<longleftrightarrow> scalar_value c \<and> s = encodeUtf8 c @ r) \<and>
   (isXmlRepresentable s \<longleftrightarrow> (\<exists>cs. s = utf8 cs \<and> (\<forall>c \<in> set cs. xml_char c))) \<and>
   (isValidElementName s \<longleftrightarrow> (\<exists>c cs. s = utf8 (c # cs) \<and> isNameStartChar c \<and> (\<forall>c \<in> set cs. isNameChar c)))"
  using decodeUtf8_iff isXmlRepresentable_iff isValidElementName_iff by blast

theorem xml_text_exact_witness:
  "decodeUtf8 [CHR 0xC3, CHR 0xA9, CHR ''x''] = Some (0xE9, ''x'') \<and> decodeUtf8 [CHR 0xC0, CHR 0x80] = None"
proof -
  have e: "encodeUtf8 0xE9 = [CHR 0xC3, CHR 0xA9]" by (simp add: encodeUtf8_def byte_def char_of_def bit_0)
  have 1: "decodeUtf8 [CHR 0xC3, CHR 0xA9, CHR ''x''] = Some (0xE9, ''x'')"
    using xml_text_exact[of "[CHR 0xC3, CHR 0xA9, CHR ''x'']" "0xE9" "''x''"] by (simp add: scalar_value_def e)
  have "decodeUtf8 [CHR 0xC0, CHR 0x80] = None" by (simp add: decode_cases is_cont_def checked_def low6_def)
  with 1 show ?thesis by blast
qed

text \<open>The version carrier accepts exactly the non-empty decimal digit texts whose value fits 32 bits (leading zeros allowed, no sign) and every refusal is InvalidVersion; an int element accepts exactly an optional minus and digits, nothing before or after, whose value fits 64 signed bits, and returns that value.\<close>

theorem xml_literals_exact:
  "(parseVersionCarrier s = Inr v \<longleftrightarrow> s \<noteq> [] \<and> (\<forall>c \<in> set s. is_digit c) \<and> digits_val s = unat v) \<and>
   (parseVersionCarrier s = Inl e \<longrightarrow> err_code e = InvalidVersion) \<and>
   (parseIntText s name = Inr (Scal (SInt i)) \<longleftrightarrow> (\<exists>neg ds. s = (if neg then ''-'' else []) @ ds \<and> ds \<noteq> [] \<and>
      (\<forall>c \<in> set ds. is_digit c) \<and> sint i = (if neg then - int (digits_val ds) else int (digits_val ds))))"
  using parseVersionCarrier_iff[of s v] parseVersionCarrier_error[of s e] from_chars_int64_iff[of s i]
  by (simp add: parseIntText_iff)

theorem xml_literals_exact_witness:
  "parseVersionCarrier ''0'' = Inr 0 \<and> (\<forall>v. parseVersionCarrier [] \<noteq> Inr v)"
  using xml_literals_exact[of "''0''" 0] xml_literals_exact[of "[]"]
  by (simp add: is_digit_def digits_val_def digit_val_def)

text \<open>C32: XmlInterface::load answers every stream: where the reading of the parsed document fails it returns that error, always ParseError or InvalidVersion, and otherwise a configuration with the carrier's version whose model represents exactly the value read, within the nesting limit and the node limit, and with nothing in it save would refuse.\<close>

theorem xml_load_implements_spec:
  assumes "maxNodes L < kNodeIdNone"
  shows "case xml_spec_load parser L stream of
      Inl e \<Rightarrow> xml_load parser L stream = Some (Inl e) \<and> (err_code e = ParseError \<or> err_code e = InvalidVersion)
    | Inr (version, v) \<Rightarrow> (\<exists>m. xml_load parser L stream = Some (Inr \<lparr>vc_version = version, vc_model = m\<rparr>) \<and> models m v) \<and>
        wf_model_value v \<and> cv_nodes v \<le> maxNodes L \<and> saveable v"
proof (cases "xml_spec_load parser L stream")
  case (Inl e)
  with xml_load_models[OF assms, of parser stream] xml_spec_load_codes[of parser L stream] show ?thesis
    by (simp add: only_codes_def)
next
  case (Inr x)
  obtain version v where x: "x = (version, v)" by (cases x)
  with Inr obtain doc where "xml_document L doc = Inr (version, v)" by (auto simp: xml_spec_load_def split: sum.splits)
  from xml_document_sound[OF this] xml_load_models[OF assms, of parser stream] Inr x show ?thesis by simp
qed

theorem xml_load_implements_spec_witness:
  "\<exists>m. xml_load sample_xml_parser default_limits (Some [sample_xml_text]) = Some (Inr \<lparr>vc_version = 3, vc_model = m\<rparr>) \<and> models m sample"
  using xml_load_implements_spec[of default_limits sample_xml_parser "Some [sample_xml_text]"] sample_xml_load
  by (simp add: sample_limits kNodeIdNone_def)

text \<open>C38: XmlInterface::save refuses exactly what XML cannot carry: a key that is no XML name, a string with a character XML 1.0 excludes or invalid UTF-8, or a non-finite double anywhere fails with SerializationError before anything is written; every other model is written as the document of its value.\<close>

theorem xml_save_exact:
  assumes "models (vc_model config) v"
  shows "if saveable v
    then xml_save fmt print config ok = Some (Some (print (root_element fmt config v)),
      if ok (print (root_element fmt config v)) then Inr () else fail SerializationError ''failed to write XML document to stream'')
    else \<exists>e. xml_save fmt print config ok = Some (None, Inl e) \<and> err_code e = SerializationError"
  by (rule xml_save_emits[OF assms])

theorem xml_save_exact_witness:
  "\<exists>m. cm_fromValue sample = Some (Inr m) \<and>
     xml_save exact_literal (\<lambda>_. sample_xml_text) (sample_config m) (\<lambda>_. True) = Some (Some sample_xml_text, Inr ())"
proof -
  obtain m where m: "cm_fromValue sample = Some (Inr m)" "models m sample" using sample_model by blast
  have c: "models (vc_model (sample_config m)) sample" using m(2) by (simp add: sample_config_def)
  from xml_save_exact[OF c, of exact_literal "\<lambda>_. sample_xml_text" "\<lambda>_. True"] sample_saveable m(1) show ?thesis by auto
qed

text \<open>C31: XML round trip: what save writes, load reads back as the same version and the same value tree (member order, empty object and empty string told apart, whitespace in strings kept, every double bit for bit), for every to_chars that reads back, every printer, and every parser that sees the written elements with any whitespace between the children of containers, in whatever chunks the stream delivers the text.\<close>

theorem xml_save_then_load:
  assumes "models (vc_model config) v" and "saveable v"
    and "cv_nodes v \<le> maxNodes L" "maxNodes L < kNodeIdNone" "maxInputBytes L < 2 ^ 64"
    and "to_chars_ok fmt" and "t = print (root_element fmt config v)"
    and "parser t = Inr doc" "laid_out formatted [root_element fmt config v] doc"
    and "concat chunks = t" "[] \<notin> set chunks" "length t \<le> maxInputBytes L"
  shows "xml_save fmt print config (\<lambda>_. True) = Some (Some t, Inr ()) \<and>
    (\<exists>m. xml_load parser L (Some chunks) = Some (Inr \<lparr>vc_version = vc_version config, vc_model = m\<rparr>) \<and> models m v)"
  using xml_roundtrip(1)[where parser = parser and fmt = fmt and print = print, OF assms]
    xml_roundtrip(2)[where parser = parser and fmt = fmt and print = print, OF assms] by simp

theorem xml_save_then_load_witness:
  "\<exists>m m'. cm_fromValue sample = Some (Inr m) \<and>
     xml_save exact_literal (\<lambda>_. sample_xml_text) (sample_config m) (\<lambda>_. True) = Some (Some sample_xml_text, Inr ()) \<and>
     xml_load sample_xml_parser default_limits (Some [sample_xml_text]) = Some (Inr \<lparr>vc_version = 3, vc_model = m'\<rparr>) \<and>
     models m' sample"
proof -
  obtain m where m: "cm_fromValue sample = Some (Inr m)" "models m sample" using sample_model by blast
  have c: "models (vc_model (sample_config m)) sample" using m(2) by (simp add: sample_config_def)
  have p: "sample_xml_parser sample_xml_text = Inr sample_xml" by (simp add: sample_xml_parser_def)
  have "xml_save exact_literal (\<lambda>_. sample_xml_text) (sample_config m) (\<lambda>_. True) = Some (Some sample_xml_text, Inr ()) \<and>
    (\<exists>m'. xml_load sample_xml_parser default_limits (Some [sample_xml_text]) =
       Some (Inr \<lparr>vc_version = vc_version (sample_config m), vc_model = m'\<rparr>) \<and> models m' sample)"
    by (rule xml_save_then_load[where parser = sample_xml_parser, OF c sample_saveable _ _ _ exact_literal_ok refl p sample_xml_laid_out])
      (simp_all add: sample_wf sample_limits kNodeIdNone_def sample_xml_text_def)
  with m(1) show ?thesis by (simp add: sample_config_def)
qed

text \<open>Every configuration XML load accepts, whatever the text was, can be saved again: its names, strings and numbers all pass the checks of save.\<close>

theorem xml_load_resaves:
  assumes "maxNodes L < kNodeIdNone" and "xml_load parser L stream = Some (Inr config)"
  shows "\<exists>v. models (vc_model config) v \<and> wf_model_value v \<and> cv_nodes v \<le> maxNodes L \<and>
    xml_save fmt print config (\<lambda>_. True) = Some (Some (print (root_element fmt config v)), Inr ())"
  by (rule load_then_save[OF assms])

theorem xml_load_resaves_witness:
  "\<exists>m. xml_load sample_xml_parser default_limits (Some [sample_xml_text]) = Some (Inr \<lparr>vc_version = 3, vc_model = m\<rparr>) \<and>
     xml_save exact_literal (\<lambda>_. sample_xml_text) \<lparr>vc_version = 3, vc_model = m\<rparr> (\<lambda>_. True) = Some (Some sample_xml_text, Inr ())"
proof -
  have L: "maxNodes default_limits < kNodeIdNone" by (simp add: sample_limits kNodeIdNone_def)
  from xml_load_models[OF L, of sample_xml_parser "Some [sample_xml_text]"] sample_xml_load obtain m where
    m: "xml_load sample_xml_parser default_limits (Some [sample_xml_text]) = Some (Inr \<lparr>vc_version = 3, vc_model = m\<rparr>)" by auto
  from xml_load_resaves[OF L m, of exact_literal "\<lambda>_. sample_xml_text"] m show ?thesis by auto
qed

text \<open>C34: Loading from a stream with a state and an exception mask, when its buffer throws nothing: reading a document to its end sets eofbit, and as long as neither eofbit nor a bit already set is in the mask both backends do exactly what they do on an unmasked stream; if one is, the clear at the end of the bounded read throws and every document is lost to a ParseError, while a document over the limit is refused before that with the state as it was.\<close>

theorem load_through_stream:
  assumes "is_reads s = Some (map BReturns chunks)"
    and "s1 = s\<lparr>is_reads := Some (map BReturns (chunks_left (maxInputBytes L) [] chunks))\<rparr>"
    and "s2 = s1\<lparr>is_state := insert Eofbit (is_state s)\<rparr>"
  shows "json_load_from parser L s = (case readBounded ''JSON'' (Some chunks) (maxInputBytes L) of
      Inl e \<Rightarrow> map_option (Pair s1) (json_load parser L (Some chunks))
    | Inr bytes \<Rightarrow> (if is_state s2 \<inter> is_mask s = {} then map_option (Pair s2) (json_load parser L (Some chunks))
        else Some (s2, Ret (fail ParseError (''JSON load failed: '' @ is_what s))))) \<and>
   xml_load_from xparser L s = (case readBounded ''XML'' (Some chunks) (maxInputBytes L) of
      Inl e \<Rightarrow> map_option (Pair s1 \<circ> Ret) (xml_load xparser L (Some chunks))
    | Inr bytes \<Rightarrow> (if is_state s2 \<inter> is_mask s = {} then map_option (Pair s2 \<circ> Ret) (xml_load xparser L (Some chunks))
        else Some (s2, Ret (fail ParseError (''XML load failed: '' @ is_what s)))))"
  unfolding assms(2,3) loads_masked(1)[OF assms(1), of parser L] loads_masked(2)[OF assms(1), of xparser L]
  by (simp add: option.map_comp split: sum.split)

theorem load_through_stream_witness:
  "json_load_from sample_parser default_limits \<lparr>is_reads = Some [BReturns sample_text], is_state = {}, is_mask = {Eofbit}, is_what = ''clear''\<rparr> =
     Some (\<lparr>is_reads = Some [], is_state = {Eofbit}, is_mask = {Eofbit}, is_what = ''clear''\<rparr>,
       Ret (fail ParseError ''JSON load failed: clear'')) \<and>
   xml_load_from sample_xml_parser default_limits \<lparr>is_reads = Some [BReturns sample_xml_text], is_state = {}, is_mask = {Badbit}, is_what = ''clear''\<rparr> =
     map_option (Pair \<lparr>is_reads = Some [], is_state = {Eofbit}, is_mask = {Badbit}, is_what = ''clear''\<rparr> \<circ> Ret)
       (xml_load sample_xml_parser default_limits (Some [sample_xml_text]))"
proof -
  have j: "readBounded ''JSON'' (Some [sample_text]) (maxInputBytes default_limits) = Inr sample_text"
    by (simp add: readBounded_def sample_limits sample_text_def)
  have left: "chunks_left (maxInputBytes default_limits) [] [sample_text] = []" "chunks_left (maxInputBytes default_limits) [] [sample_xml_text] = []"
    by (simp_all add: sample_limits sample_text_def sample_xml_text_def)
  show ?thesis
    using conjunct1[OF load_through_stream[where s = "\<lparr>is_reads = Some [BReturns sample_text], is_state = {}, is_mask = {Eofbit}, is_what = ''clear''\<rparr>"
        and chunks = "[sample_text]" and parser = sample_parser and xparser = sample_xml_parser and L = default_limits, OF _ refl refl]]
      conjunct2[OF load_through_stream[where s = "\<lparr>is_reads = Some [BReturns sample_xml_text], is_state = {}, is_mask = {Badbit}, is_what = ''clear''\<rparr>"
        and chunks = "[sample_xml_text]" and parser = sample_parser and xparser = sample_xml_parser and L = default_limits, OF _ refl refl]]
    by (simp add: j left sample_xml_input)
qed

text \<open>C33: Whatever requests of the XML library run out of memory (an empty handle, a node or attribute without its name, a value that is not set), save never prints a truncated document: if one of the requests it made was refused it throws std::bad_alloc with nothing printed, otherwise it prints the whole document and reports what the stream made of it, or prints nothing and reports the key or value that XML cannot carry.\<close>

theorem xml_save_survives_exhaustion:
  assumes "models (vc_model config) v"
  shows "\<exists>used rest. as = used @ rest \<and>
    (if False \<in> set used then mem_xml_save fmt print config out as = Some (rest, None, Bad_alloc)
     else if saveable v then mem_xml_save fmt print config out as =
       Some (rest, Some (print (root_element fmt config v)), save_handlers (out (print (root_element fmt config v))))
     else \<exists>e. mem_xml_save fmt print config out as = Some (rest, None, Ret (Inl e)) \<and> err_code e = SerializationError)"
  by (rule xml_save_requests[OF assms, of as fmt print out]) metis

theorem xml_save_survives_exhaustion_witness:
  "\<exists>m. cm_fromValue sample = Some (Inr m) \<and>
     mem_xml_save exact_literal (\<lambda>_. sample_xml_text) (sample_config m) (\<lambda>_. Stream_throws_std ''disk'') [] =
       Some ([], Some sample_xml_text, Ret (fail SerializationError ''XML save failed: disk''))"
proof -
  obtain m where m: "cm_fromValue sample = Some (Inr m)" "models m sample" using sample_model by blast
  have c: "models (vc_model (sample_config m)) sample" using m(2) by (simp add: sample_config_def)
  from xml_save_survives_exhaustion[OF c, of "[]" exact_literal "\<lambda>_. sample_xml_text" "\<lambda>_. Stream_throws_std ''disk''"] sample_saveable m(1)
  show ?thesis by (simp add: save_handlers_def)
qed

section \<open>The checkpoint store\<close>

text \<open>A store with one file and one checkpoint, a backend that always loads one configuration, and a system where no call fails.\<close>

definition sample_os :: os where
  "sample_os = \<lparr>os_message = (\<lambda>e. ''error''),
     os_listing = (\<lambda>ns dir. if dir = ''/c/k'' then [''/c/k/0000000002.json''] else [])\<rparr>"

definition sample_store :: checkpoint_options where
  "sample_store = \<lparr>canonical_path = ''/c/app.json'', checkpoint_directory = ''/c/k'', retention = 0, max_file_bytes = 100\<rparr>"

definition sample_backend :: "vconfig \<Rightarrow> backend" where
  "sample_backend cfg = \<lparr>be_load = (\<lambda>b. BReturns (Inr cfg)), be_save = (\<lambda>c. (''new'', True, BReturns (Inr ())))\<rparr>"

definition sample_world :: world where
  "sample_world = \<lparr>w_nodes = [''/c'' \<mapsto> Directory, ''/c/k'' \<mapsto> Directory, ''/c/app.json'' \<mapsto> RegularFile ''old'' 420 7,
       ''/c/k/0000000002.json'' \<mapsto> RegularFile ''old'' 384 5],
     w_log = [], w_answers = [], w_now = 8, w_ticks = (\<lambda>_. 1), w_sequence = 0\<rparr>"

lemma sample_store_simps [simp]: "canonical_path sample_store = ''/c/app.json''" "checkpoint_directory sample_store = ''/c/k''"
  "max_file_bytes sample_store = 100" "retention sample_store = 0" "w_answers sample_world = []"
  by (simp_all add: sample_store_def sample_world_def)

lemma sample_names_of_paths: "filename ''/c/app.json'' = ''app.json''" "parent_path ''/c/app.json'' = ''/c''" "parent_path ''/c/k'' = ''/c''"
  "parent_path ''/c'' = ''/''" "parent_path ''/'' = ''/''" "extension ''/c/app.json'' = ''.json''"
  "append_path ''/c/k'' ''0000000002.json'' = ''/c/k/0000000002.json''"
  by (simp_all add: filename_def parent_path_def append_path_def extension_def stem_def)

lemma sample_parents: "parentOrCurrent ''/c/app.json'' = ''/c''" "parentOrCurrent ''/c/k'' = ''/c''"
  by (simp_all add: parentOrCurrent_def sample_names_of_paths)

lemma sample_ancestors: "ancestors ''/c'' = [''/c'', ''/'']" "ancestors ''/c/k'' = [''/c/k'', ''/c'', ''/'']"
proof -
  have "ancestors ''/'' = [''/'']" by (subst ancestors.simps) (simp add: sample_names_of_paths)
  then show c: "ancestors ''/c'' = [''/c'', ''/'']" by (subst ancestors.simps) (simp add: sample_names_of_paths)
  from c show "ancestors ''/c/k'' = [''/c/k'', ''/c'', ''/'']" by (subst ancestors.simps) (simp add: sample_names_of_paths)
qed

lemma sample_separate: "separate sample_store" "proper_file (canonical_path sample_store)"
  by (simp_all add: separate_def proper_file_def sample_parents sample_names_of_paths)

lemma sample_checkpoint_path: "checkpoint_path sample_store 2 = ''/c/k/0000000002.json''"
proof -
  have "nat_str 2 = ''2''" by (simp add: nat_str.simps char_of_def bit_0)
  moreover have "replicate 9 CHR ''0'' = ''000000000''" by (simp add: numeral_eq_Suc)
  ultimately have "checkpointFilename 2 ''.json'' = ''0000000002.json''" by (simp add: checkpointFilename_def)
  then show ?thesis by (simp add: checkpoint_path_def sample_names_of_paths)
qed

lemma sample_temp_free:
  "w_nodes sample_world (snd (temporaryCandidate ''/c/app.json'' sample_world)) = None"
  "w_nodes sample_world (snd (temporaryCandidate ''/c/k/0000000002.json'' sample_world)) = None"
proof -
  have d: "nat_str 1 = ''1''" "nat_str 0 = ''0''" by (simp_all add: nat_str.simps char_of_def bit_0)
  have k: "filename ''/c/k/0000000002.json'' = ''0000000002.json''" "parentOrCurrent ''/c/k/0000000002.json'' = ''/c/k''"
    by (simp_all add: filename_def parentOrCurrent_def parent_path_def)
  have "snd (temporaryCandidate ''/c/app.json'' sample_world) = ''/c/app.json.tmp.1.0''"
    "snd (temporaryCandidate ''/c/k/0000000002.json'' sample_world) = ''/c/k/0000000002.json.tmp.1.0''"
    by (simp_all add: temporaryCandidate_def sample_world_def sample_parents sample_names_of_paths d[simplified] k append_path_def)
  then show "w_nodes sample_world (snd (temporaryCandidate ''/c/app.json'' sample_world)) = None"
    "w_nodes sample_world (snd (temporaryCandidate ''/c/k/0000000002.json'' sample_world)) = None"
    by (simp_all add: sample_world_def)
qed

abbreviation cfg0 :: vconfig where
  "cfg0 \<equiv> \<lparr>vc_version = 2, vc_model = \<lparr>cm_arena = empty_arena, cm_rootId = 0\<rparr>\<rparr>"

lemma sample_load: "loadBytes bytes (sample_backend cfg) = Ret (Inr cfg)"
  by (simp add: loadBytes_def sample_backend_def)

lemma sample_capture: "\<exists>w'. cpCapture sample_os sample_store cfg0 (sample_backend cfg0) sample_world = (w', Ret (Inr ()))"
proof (rule capture_succeeds[OF _ sample_separate(1)])
  show "w_nodes sample_world (canonical_path sample_store) = Some (RegularFile ''old'' 420 7)" by (simp add: sample_world_def)
  show "loadBytes ''old'' (sample_backend cfg0) = Ret (Inr cfg0)" by (rule sample_load)
  show "list_all (\<lambda>q. w_nodes sample_world q = None \<or> w_nodes sample_world q = Some Directory) (ancestors (checkpoint_directory sample_store))"
    by (simp add: sample_ancestors sample_world_def)
  show "w_nodes sample_world (snd (temporaryCandidate (checkpoint_path sample_store (vc_version cfg0)) sample_world)) = None"
    by (simp add: sample_checkpoint_path sample_temp_free)
  show "w_nodes sample_world (checkpoint_path sample_store (vc_version cfg0)) \<noteq> Some Directory"
    by (simp add: sample_checkpoint_path sample_world_def)
qed simp_all

lemma sample_lists: "lists_entries sample_os"
proof -
  have "''/c/k/0000000002.json'' = append_path ''/c/k'' ''0000000002.json''" by (simp add: sample_names_of_paths)
  moreover have "CHR ''/'' \<notin> set ''0000000002.json''" by simp
  ultimately show ?thesis unfolding lists_entries_def sample_os_def by (auto intro!: exI[of _ "''0000000002.json''"])
qed

lemma sample_checkpoint:
  "verified sample_store (sample_backend cfg) (Some 2) (w_nodes sample_world) c \<Longrightarrow> lc_config c = cfg"
  by (auto simp: verified_def sample_load)

lemma sample_restore_hyps:
  assumes "models m sample"
  defines "cfg \<equiv> \<lparr>vc_version = 2, vc_model = m\<rparr>"
  defines "c \<equiv> \<lparr>lc_path = ''/c/k/0000000002.json'', lc_source_version = 2, lc_modified = 5, lc_config = cfg\<rparr>"
  shows "w_answers sample_world = []" "max_file_bytes sample_store < 2 ^ 64" "supportsVersion sample_rt 2"
    "w_nodes sample_world (checkpoint_directory sample_store) = Some Directory"
    "\<And>p. p \<in> set (os_listing sample_os (w_nodes sample_world) (checkpoint_directory sample_store)) \<Longrightarrow> w_nodes sample_world p \<noteq> None"
    "\<And>bytes. be_load (sample_backend cfg) bytes \<noteq> BThrows_bad_alloc"
    "\<And>c s. verified sample_store (sample_backend cfg) (Some 2) (w_nodes sample_world) c \<Longrightarrow>
       \<exists>s' cfg' r. synchronize sample_rt s (lc_config c) 2 = Some (s', cfg', Ret r)"
    "lc_path c \<in> set (checkpoints sample_os sample_store (w_nodes sample_world))"
    "verified sample_store (sample_backend cfg) (Some 2) (w_nodes sample_world) c"
    "\<And>s. \<exists>s' cfg'. synchronize sample_rt s (lc_config c) 2 = Some (s', cfg', Ret (Inr InSync)) \<and> vc_version cfg' = 2"
proof -
  have contains: "cat_contains (rt_catalog sample_rt) (vc_version cfg)"
    by (simp add: sample_rt_def cat_contains_iff[OF sample_invs(1)] sample_invs(3) cfg_def)
  have model: "models (vc_model cfg) sample" using assms(1) by (simp add: cfg_def)
  have defaults: "default_of (rt_catalog sample_rt) (vc_version cfg) () = Some ((), FReturns sample_defaults)"
    by (simp add: sample_rt_def sample_default sample_defaults_def cfg_def)
  have sync: "\<exists>cfg'. synchronize sample_rt s cfg 2 = Some ((), cfg', Ret (Inr InSync)) \<and> vc_version cfg' = 2" for s
    using sync_current[OF contains model defaults sample_good] by (auto simp: cfg_def)
  show "w_answers sample_world = []" "max_file_bytes sample_store < 2 ^ 64" by simp_all
  show "supportsVersion sample_rt 2" using contains by (simp add: supportsVersion_def cfg_def)
  show "w_nodes sample_world (checkpoint_directory sample_store) = Some Directory" by (simp add: sample_world_def)
  show "w_nodes sample_world p \<noteq> None" if "p \<in> set (os_listing sample_os (w_nodes sample_world) (checkpoint_directory sample_store))" for p
    using that by (simp add: sample_os_def sample_world_def)
  show "be_load (sample_backend cfg) bytes \<noteq> BThrows_bad_alloc" for bytes by (simp add: sample_backend_def)
  show "\<exists>s' cfg' r. synchronize sample_rt s (lc_config c) 2 = Some (s', cfg', Ret r)"
    if "verified sample_store (sample_backend cfg) (Some 2) (w_nodes sample_world) c" for c s
    using sync[of s] unfolding sample_checkpoint[OF that] by blast
  show "lc_path c \<in> set (checkpoints sample_os sample_store (w_nodes sample_world))"
  proof -
    have "isCheckpointFilename ''/c/k/0000000002.json'' ''.json''"
      using checkpoint_name(1)[of sample_store 2] unfolding sample_checkpoint_path by (simp add: sample_names_of_paths)
    then show ?thesis by (simp add: c_def checkpoints_def sample_os_def is_checkpoint_def is_regular_def sample_names_of_paths)
      (simp add: sample_world_def)
  qed
  show "verified sample_store (sample_backend cfg) (Some 2) (w_nodes sample_world) c"
    by (simp add: verified_def c_def sample_load cfg_def) (simp add: sample_world_def)
  show "\<exists>s' cfg'. synchronize sample_rt s (lc_config c) 2 = Some (s', cfg', Ret (Inr InSync)) \<and> vc_version cfg' = 2" for s
    using sync[of s] by (auto simp: c_def)
qed

lemma sample_restore:
  "\<exists>m s' w' search pr. cm_fromValue sample = Some (Inr m) \<and>
     cpPrepareRestore sample_os sample_store (sample_backend \<lparr>vc_version = 2, vc_model = m\<rparr>) sample_rt 2 () sample_world =
       Some (s', w', Ret (Inr search)) \<and> rs_candidate search = Some pr"
proof -
  obtain m where m: "cm_fromValue sample = Some (Inr m)" "models m sample" using sample_model by blast
  from restore_finds_one[OF sample_restore_hyps[OF m(2)]] m(1) show ?thesis by blast
qed

lemma sample_prune:
  assumes "models m sample"
  shows "\<exists>w' report. cpPrune sample_os sample_store (sample_backend \<lparr>vc_version = 2, vc_model = m\<rparr>) sample_world = (w', Ret (Inr report)) \<and>
    pp_removed report = [''/c/k/0000000002.json'']"
proof -
  let ?be = "sample_backend \<lparr>vc_version = 2, vc_model = m\<rparr>"
  let ?c = "\<lparr>lc_path = ''/c/k/0000000002.json'', lc_source_version = 2, lc_modified = 5, lc_config = \<lparr>vc_version = 2, vc_model = m\<rparr>\<rparr>"
  note h = sample_restore_hyps[OF assms]
  have listed: "checkpoints sample_os sample_store (w_nodes sample_world) = [''/c/k/0000000002.json'']"
    using h(8) by (auto simp: checkpoints_def sample_os_def split: if_splits)
  have "verified sample_store ?be None (w_nodes sample_world) ?c" using h(9) by (simp add: verified_def)
  from quiet_load_checkpoint[OF h(1,2) this, of sample_os]
  have "load_checkpoints sample_os sample_store ?be None [''/c/k/0000000002.json''] [] [] sample_world = (sample_world, Ret ([?c], []))" by simp
  moreover have "prune_removals 0 (group_versions [?c]) = [''/c/k/0000000002.json'']"
    by (simp add: prune_removals_def group_versions_def std_sort_def)
  moreover have "w_nodes sample_world ''/c/k/0000000002.json'' \<noteq> Some Directory" by (simp add: sample_world_def)
  ultimately show ?thesis using quiet_checkpointFiles[OF h(1,4,5)] listed
    by (auto simp: cpPrune_unfold fs_remove_def quiet_answer)
qed

text \<open>C21: cpCommit is atomic whatever calls of the file system fail, are interrupted or are short: a serialization failure touches nothing; otherwise at every moment the canonical path holds its old node or the complete new serialization with exactly the mode bits of the file it replaces (0600 when there was none), nothing else changes but sibling temporary files and missing parent directories, an error is a StorageError and leaves the old file, and success leaves exactly the new file and no temporary.\<close>

theorem commit_is_atomic:
  assumes "cpCommit os opts config be w = (w', r)" and "proper_file (canonical_path opts)"
  shows "case saveBytes config be of
      Bad_alloc \<Rightarrow> r = Bad_alloc \<and> w' = w
    | Ret (Inl e) \<Rightarrow> r = Ret (Inl e) \<and> w' = w
    | Ret (Inr bytes) \<Rightarrow> \<exists>r'. r = Ret r' \<and>
        replaces (canonical_path opts) (ancestors (parentOrCurrent (canonical_path opts))) bytes (canonical_path opts) w w' r'"
  by (rule commit_replaces[OF assms])

theorem commit_is_atomic_witness:
  "\<exists>w'. cpCommit sample_os sample_store cfg0 (sample_backend cfg0) sample_world = (w', Ret (Inr ())) \<and>
     replaces ''/c/app.json'' [''/c'', ''/''] ''new'' ''/c/app.json'' sample_world w' (Inr ())"
proof -
  have s: "saveBytes cfg0 (sample_backend cfg0) = Ret (Inr ''new'')" by (simp add: saveBytes_def sample_backend_def)
  have d: "list_all (\<lambda>q. w_nodes sample_world q = None \<or> w_nodes sample_world q = Some Directory) (ancestors (parentOrCurrent (canonical_path sample_store)))"
    by (simp add: sample_parents sample_ancestors sample_world_def)
  have n: "w_nodes sample_world (canonical_path sample_store) \<noteq> Some Directory" by (simp add: sample_world_def)
  obtain w' where w': "cpCommit sample_os sample_store cfg0 (sample_backend cfg0) sample_world = (w', Ret (Inr ()))"
    using commit_succeeds[OF _ s sample_separate(2) d _ n, of sample_os] sample_temp_free(1) by auto
  from commit_is_atomic[OF this sample_separate(2)] s w' show ?thesis by (auto simp: sample_parents sample_ancestors)
qed

text \<open>C22: The Windows branch keeps the promise of the POSIX one: with writeTemporary and replaceFile of that branch (copying the old file for its attributes, then CreateFileW, WriteFile, CloseHandle and MoveFileExW, each of which may fail or be short), cpCommit is atomic in the same sense, an existing file keeps its attributes, and a new one gets the normal ones.\<close>

theorem windows_commit_is_atomic:
  assumes "cpCommitImpl (windows_publish os) os opts config be w = (w', r)" and "proper_file (canonical_path opts)"
  shows "case saveBytes config be of
      Bad_alloc \<Rightarrow> r = Bad_alloc \<and> w' = w
    | Ret (Inl e) \<Rightarrow> r = Ret (Inl e) \<and> w' = w
    | Ret (Inr bytes) \<Rightarrow> \<exists>r'. r = Ret r' \<and> replaces_for windows_mode (canonical_path opts)
        (ancestors (parentOrCurrent (canonical_path opts))) bytes (canonical_path opts) w w' r'"
  by (rule windows_commit[OF assms])

theorem windows_commit_is_atomic_witness:
  "\<exists>w' t. cpCommitImpl (windows_publish sample_os) sample_os sample_store cfg0 (sample_backend cfg0) sample_world = (w', Ret (Inr ())) \<and>
     w_nodes w' ''/c/app.json'' = Some (RegularFile ''new'' 420 t)"
proof -
  have s: "saveBytes cfg0 (sample_backend cfg0) = Ret (Inr ''new'')" by (simp add: saveBytes_def sample_backend_def)
  have d: "list_all (\<lambda>q. w_nodes sample_world q = None \<or> w_nodes sample_world q = Some Directory) (ancestors ''/c'')"
    by (simp add: sample_ancestors sample_world_def)
  from quiet_create_directories[OF _ d] obtain log where l: "fs_create_directories ''/c'' sample_world =
      (sample_world\<lparr>w_nodes := (\<lambda>q. if q \<in> {''/c'', ''/''} then Some Directory else w_nodes sample_world q), w_log := log\<rparr>, None)"
    by (auto simp: sample_ancestors)
  define w1 where "w1 = sample_world\<lparr>w_nodes := (\<lambda>q. if q \<in> {''/c'', ''/''} then Some Directory else w_nodes sample_world q), w_log := log\<rparr>"
  have dirs: "fs_create_directories ''/c'' sample_world = (w1, None)" unfolding w1_def by (rule l)
  have "snd (temporaryCandidate ''/c/app.json'' w1) = snd (temporaryCandidate ''/c/app.json'' sample_world)"
    by (simp add: temporaryCandidate_def w1_def)
  moreover have "snd (temporaryCandidate ''/c/app.json'' sample_world) \<notin> {''/c'', ''/''}"
    using candidate_not_above[of "''/c/app.json''" sample_world] by (simp add: sample_parents sample_ancestors)
  ultimately have "w_nodes w1 (snd (temporaryCandidate ''/c/app.json'' w1)) = None" using sample_temp_free(1) by (auto simp: w1_def)
  from quiet_windows_publish[OF _ this, of "''/c/app.json''" sample_os "''new''"] obtain w' where
    p: "windows_publish sample_os ''/c/app.json'' ''new'' ''/c/app.json'' w1 = (w', Inr ())"
    by (auto simp: w1_def sample_world_def read_only_def)
  have c: "cpCommitImpl (windows_publish sample_os) sample_os sample_store cfg0 (sample_backend cfg0) sample_world = (w', Ret (Inr ()))"
    by (simp add: cpCommitImpl_def s sample_parents dirs p)
  from windows_commit_is_atomic[OF c sample_separate(2)] s c show ?thesis
    by (auto simp: replaces_for_def windows_mode_def copied_attributes_def sample_world_def)
qed

text \<open>cpCommit makes progress: when no call of the file system fails, the configuration serializes, nothing but directories is above the canonical path and the temporary name is free, it returns success.\<close>

theorem commit_returns:
  assumes "w_answers w = []" "saveBytes config be = Ret (Inr bytes)" "proper_file (canonical_path opts)"
    and "list_all (\<lambda>q. w_nodes w q = None \<or> w_nodes w q = Some Directory) (ancestors (parentOrCurrent (canonical_path opts)))"
    and "w_nodes w (snd (temporaryCandidate (canonical_path opts) w)) = None" "w_nodes w (canonical_path opts) \<noteq> Some Directory"
  shows "\<exists>w'. cpCommit os opts config be w = (w', Ret (Inr ()))"
  using commit_succeeds[OF assms] by blast

theorem commit_returns_witness:
  "\<exists>w'. cpCommit sample_os sample_store cfg0 (sample_backend cfg0) sample_world = (w', Ret (Inr ()))"
proof (rule commit_returns)
  show "saveBytes cfg0 (sample_backend cfg0) = Ret (Inr ''new'')" by (simp add: saveBytes_def sample_backend_def)
  show "list_all (\<lambda>q. w_nodes sample_world q = None \<or> w_nodes sample_world q = Some Directory) (ancestors (parentOrCurrent (canonical_path sample_store)))"
    by (simp add: sample_parents sample_ancestors sample_world_def)
  show "w_nodes sample_world (canonical_path sample_store) \<noteq> Some Directory" by (simp add: sample_world_def)
qed (simp_all add: sample_separate[simplified] sample_temp_free)

text \<open>C24: cpCapture for a store whose canonical file is outside the checkpoint directory, that directory named without a trailing slash (separate): it changes nothing and reports an error (or lets bad_alloc pass), or the canonical file is within the size limit and loads at the version of the configuration, and then at every moment the checkpoint of that version is what it was or the complete bytes of the canonical file, with the mode bits of the checkpoint it replaces, or of the canonical file when it is the first of its version; the canonical file never changes, and the result says which.\<close>

theorem capture_is_atomic:
  assumes "cpCapture os opts config be w = (w', r)" "separate opts" "max_file_bytes opts < 2 ^ 64"
  shows "(unchanged w w' \<and> (r = Bad_alloc \<or> (\<exists>e. r = Ret (Inl e)))) \<or>
    (\<exists>bytes m t loaded r' source.
       w_nodes w (canonical_path opts) = Some (RegularFile bytes m t) \<and> length bytes \<le> max_file_bytes opts \<and>
       loadBytes bytes be = Ret (Inr loaded) \<and> vc_version loaded = vc_version config \<and>
       r = Ret r' \<and> source = (if w_nodes w (checkpoint_path opts (vc_version config)) = None then canonical_path opts
         else checkpoint_path opts (vc_version config)) \<and>
       replaces (checkpoint_path opts (vc_version config)) (ancestors (checkpoint_directory opts)) bytes source w w' r' \<and>
       safe (\<lambda>ns. ns (canonical_path opts) = w_nodes w (canonical_path opts)) w w')"
  using capture_captures[OF assms] unfolding captures_def .

theorem capture_is_atomic_witness:
  "\<exists>w'. cpCapture sample_os sample_store cfg0 (sample_backend cfg0) sample_world = (w', Ret (Inr ())) \<and>
     (\<exists>mode t. w_nodes w' ''/c/k/0000000002.json'' = Some (RegularFile ''old'' mode t)) \<and>
     w_nodes w' ''/c/app.json'' = Some (RegularFile ''old'' 420 7)"
proof -
  obtain w' where w': "cpCapture sample_os sample_store cfg0 (sample_backend cfg0) sample_world = (w', Ret (Inr ()))"
    using sample_capture by blast
  have f: "w_nodes sample_world ''/c/app.json'' = Some (RegularFile ''old'' 420 7)" by (simp add: sample_world_def)
  from capture_is_atomic[OF w' sample_separate(1)] obtain source where
    r: "replaces (checkpoint_path sample_store 2) (ancestors (checkpoint_directory sample_store)) ''old'' source sample_world w' (Inr ())"
    and s: "safe (\<lambda>ns. ns ''/c/app.json'' = w_nodes sample_world ''/c/app.json'') sample_world w'"
    using f by auto
  from r obtain mode t where "w_nodes w' ''/c/k/0000000002.json'' = Some (RegularFile ''old'' mode t)"
    unfolding replaces_def sample_checkpoint_path by auto
  with w' safe_now[OF s] f show ?thesis by auto
qed

text \<open>A successful cpCapture leaves a file that the listing takes for a checkpoint, whose name carries the version in decimal, that is within the size limit and loads at exactly the captured version; checkpoints of different versions have different names.\<close>

theorem captured_is_restorable:
  assumes "cpCapture os opts config be w = (w', Ret (Inr u))" "separate opts" "max_file_bytes opts < 2 ^ 64"
  shows "is_checkpoint opts (w_nodes w') (checkpoint_path opts (vc_version config)) \<and>
    digits_val (stem (checkpoint_path opts (vc_version config))) = unat (vc_version config) \<and>
    (\<exists>c. verified opts be (Some (vc_version config)) (w_nodes w') c \<and>
      lc_path c = checkpoint_path opts (vc_version config) \<and> lc_source_version c = vc_version config) \<and>
    (\<forall>v. checkpoint_path opts v = checkpoint_path opts (vc_version config) \<longrightarrow> v = vc_version config)"
  using captured_verified[OF assms] checkpoint_name(2) checkpoint_path_inject by blast

theorem captured_is_restorable_witness:
  "\<exists>w' u. cpCapture sample_os sample_store cfg0 (sample_backend cfg0) sample_world = (w', Ret (Inr u)) \<and>
     is_checkpoint sample_store (w_nodes w') ''/c/k/0000000002.json'' \<and>
     (\<exists>c. verified sample_store (sample_backend cfg0) (Some 2) (w_nodes w') c \<and> lc_path c = ''/c/k/0000000002.json'')"
proof -
  obtain w' where w': "cpCapture sample_os sample_store cfg0 (sample_backend cfg0) sample_world = (w', Ret (Inr ()))"
    using sample_capture by blast
  from captured_is_restorable[OF w' sample_separate(1)] have
    "is_checkpoint sample_store (w_nodes w') ''/c/k/0000000002.json''"
    "\<exists>c. verified sample_store (sample_backend cfg0) (Some 2) (w_nodes w') c \<and> lc_path c = ''/c/k/0000000002.json''"
    by (auto simp: sample_checkpoint_path)
  with w' show ?thesis by blast
qed

text \<open>C23: cpPrepareRestore changes no file, and a search it returns is complete and right: every checkpoint in the directory was rejected on loading (unreadable, not loadable, newer than supported) or is a verified candidate; the candidate returned synchronized to the supported version; every verified candidate with a higher version, or the same version and a later time, or the same time and a smaller path, was tried before and rejected because it did not synchronize; and without a candidate this holds of all of them.\<close>

theorem restore_picks_best:
  assumes "cpPrepareRestore os opts be rt v s w = Some (s', w', Ret r)" "max_file_bytes opts < 2 ^ 64"
  shows "unchanged w w' \<and> (\<forall>search. r = Inr search \<longrightarrow> (\<exists>loaded early late. rs_rejected search = early @ late \<and>
     mset (checkpoints os opts (w_nodes w)) = mset (map lc_path loaded) + mset (map fst early) \<and>
     (\<forall>x \<in> set early. refused os opts be (Some v) (w_nodes w) x) \<and>
     (\<forall>c \<in> set loaded. verified opts be (Some v) (w_nodes w) c) \<and>
     (case rs_candidate search of
        None \<Rightarrow> \<forall>d \<in> set loaded. \<exists>x \<in> set late. not_synced rt v d x
      | Some pr \<Rightarrow> \<exists>c \<in> set loaded. syncs rt v c pr \<and>
          (\<forall>d \<in> set loaded. outranks d c \<longrightarrow> (\<exists>x \<in> set late. not_synced rt v d x)))))"
  using restore_finds_best[OF assms] unfolding finds_best_def .

theorem restore_picks_best_witness:
  "\<exists>m s' w' search pr. cm_fromValue sample = Some (Inr m) \<and>
     cpPrepareRestore sample_os sample_store (sample_backend \<lparr>vc_version = 2, vc_model = m\<rparr>) sample_rt 2 () sample_world =
       Some (s', w', Ret (Inr search)) \<and> unchanged sample_world w' \<and> rs_candidate search = Some pr \<and> vc_version (pr_config pr) = 2"
proof -
  obtain m s' w' search pr where m: "cm_fromValue sample = Some (Inr m)"
    "cpPrepareRestore sample_os sample_store (sample_backend \<lparr>vc_version = 2, vc_model = m\<rparr>) sample_rt 2 () sample_world =
       Some (s', w', Ret (Inr search))" "rs_candidate search = Some pr"
    using sample_restore by blast
  have "max_file_bytes sample_store < 2 ^ 64" by simp
  note best = restore_picks_best[OF m(2) this]
  then obtain c where "syncs sample_rt 2 c pr" using m(3) by (elim conjE allE[of _ search] impE exE) auto
  with best m show ?thesis unfolding syncs_def by blast
qed

text \<open>C28: cpPrepareRestore finds a checkpoint when there is one: if no call fails, the directory lists only existing entries, neither backend nor runtime runs out of memory, and some listed checkpoint is verified and synchronizes to the supported version from every state of the callbacks, it returns a candidate, whatever the other files are.\<close>

theorem restore_finds_candidate:
  assumes "w_answers w = []" "max_file_bytes opts < 2 ^ 64" "supportsVersion rt v"
    and "w_nodes w (checkpoint_directory opts) = Some Directory"
    and "\<And>p. p \<in> set (os_listing os (w_nodes w) (checkpoint_directory opts)) \<Longrightarrow> w_nodes w p \<noteq> None"
    and "\<And>bytes. be_load be bytes \<noteq> BThrows_bad_alloc"
    and "\<And>c s. verified opts be (Some v) (w_nodes w) c \<Longrightarrow> \<exists>s' cfg r. synchronize rt s (lc_config c) v = Some (s', cfg, Ret r)"
    and "lc_path c \<in> set (checkpoints os opts (w_nodes w))" "verified opts be (Some v) (w_nodes w) c"
    and "\<And>s. \<exists>s' cfg. synchronize rt s (lc_config c) v = Some (s', cfg, Ret (Inr InSync)) \<and> vc_version cfg = v"
  shows "\<exists>s' w' search pr. cpPrepareRestore os opts be rt v s w = Some (s', w', Ret (Inr search)) \<and> rs_candidate search = Some pr"
  by (rule restore_finds_one[OF assms])

theorem restore_finds_candidate_witness:
  "\<exists>m s' w' search pr. cm_fromValue sample = Some (Inr m) \<and>
     cpPrepareRestore sample_os sample_store (sample_backend \<lparr>vc_version = 2, vc_model = m\<rparr>) sample_rt 2 () sample_world =
       Some (s', w', Ret (Inr search)) \<and> rs_candidate search = Some pr"
proof -
  obtain m where m: "cm_fromValue sample = Some (Inr m)" "models m sample" using sample_model by blast
  note h = sample_restore_hyps[OF m(2)]
  from restore_finds_candidate[OF h] m(1) show ?thesis by blast
qed

text \<open>C25: cpPrune with a listing of distinct entries, for a store whose canonical file is outside the checkpoint directory, that directory named without a trailing slash (separate): it changes nothing and reports an error, or it removes, in whatever prefix a failing removal leaves, only verified checkpoints that its rule does not keep (kept: the newest of its version, with fewer than retention newer such heads); a report names exactly the removed ones and the rejected files, which stay, and the canonical file and every other file are untouched at every moment.\<close>

theorem prune_keeps_newest:
  assumes "cpPrune os opts be w = (w', r)" "lists_entries os" "max_file_bytes opts < 2 ^ 64" "separate opts"
  shows "((unchanged w w' \<and> (r = Bad_alloc \<or> (\<exists>e. r = Ret (Inl e)))) \<or> (\<exists>x. r = Ret x \<and> prunes os opts be w w' x)) \<and>
    (\<forall>q. q = canonical_path opts \<or> \<not> is_checkpoint opts (w_nodes w) q \<longrightarrow> safe (\<lambda>ns. ns q = w_nodes w q) w w')"
proof
  show c: "(unchanged w w' \<and> (r = Bad_alloc \<or> (\<exists>e. r = Ret (Inl e)))) \<or> (\<exists>x. r = Ret x \<and> prunes os opts be w w' x)"
    by (rule prune_prunes[OF assms(1-3)])
  have n: "q \<notin> set (checkpoints os opts (w_nodes w))" if "q = canonical_path opts \<or> \<not> is_checkpoint opts (w_nodes w) q" for q
    using that canonical_not_listed[OF assms(2,4), of "w_nodes w"] by (auto simp: checkpoints_def)
  show "\<forall>q. q = canonical_path opts \<or> \<not> is_checkpoint opts (w_nodes w) q \<longrightarrow> safe (\<lambda>ns. ns q = w_nodes w q) w w'"
    using c unchanged_safe[of w w'] prunes_keeps_others[OF _ n] by blast
qed

theorem prune_keeps_newest_witness:
  "\<exists>m w' report. cm_fromValue sample = Some (Inr m) \<and>
     cpPrune sample_os sample_store (sample_backend \<lparr>vc_version = 2, vc_model = m\<rparr>) sample_world = (w', Ret (Inr report)) \<and>
     pp_removed report = [''/c/k/0000000002.json''] \<and> w_nodes w' ''/c/k/0000000002.json'' = None \<and>
     safe (\<lambda>ns. ns ''/c/app.json'' = w_nodes sample_world ''/c/app.json'') sample_world w'"
proof -
  obtain m where m: "cm_fromValue sample = Some (Inr m)" "models m sample" using sample_model by blast
  from sample_prune[OF m(2)] obtain w' report where
    p: "cpPrune sample_os sample_store (sample_backend \<lparr>vc_version = 2, vc_model = m\<rparr>) sample_world = (w', Ret (Inr report))"
      "pp_removed report = [''/c/k/0000000002.json'']" by blast
  have "max_file_bytes sample_store < 2 ^ 64" by simp
  note k = prune_keeps_newest[OF p(1) sample_lists this sample_separate(1)]
  then have "safe (\<lambda>ns. ns ''/c/app.json'' = w_nodes sample_world ''/c/app.json'') sample_world w'"
    by (elim conjE allE[of _ "''/c/app.json''"]) simp
  moreover from k have "prunes sample_os sample_store (sample_backend \<lparr>vc_version = 2, vc_model = m\<rparr>) sample_world w' (Inr report)" by auto
  then have "w_nodes w' ''/c/k/0000000002.json'' = None" using p(2) unfolding prunes_def by auto
  ultimately show ?thesis using m(1) p by blast
qed

text \<open>C40: cpCreate accepts exactly the options with a non-empty canonical path and a non-empty checkpoint directory that both resolve, the resolved file not lying in the resolved directory, and returns them with the resolved paths; every rejection, an exception of the resolution included, is a StorageError. What it returns has what the other operations need (separate) if and only if the resolved directory is written without a trailing slash, and then no file name in the checkpoint directory is the canonical file.\<close>

theorem create_separates:
  "(\<forall>e. cpCreate weakly_canonical opts = Inl e \<longrightarrow> err_code e = StorageError) \<and>
   (\<forall>opts'. cpCreate weakly_canonical opts = Inr opts' \<longleftrightarrow> canonical_path opts \<noteq> [] \<and> checkpoint_directory opts \<noteq> [] \<and>
      (\<exists>c d. weakly_canonical (canonical_path opts) = Inr c \<and> weakly_canonical (checkpoint_directory opts) = Inr d \<and>
         parentOrCurrent c \<noteq> d \<and> opts' = opts\<lparr>canonical_path := c, checkpoint_directory := d\<rparr>)) \<and>
   (\<forall>opts'. cpCreate weakly_canonical opts = Inr opts' \<longrightarrow>
      (separate opts' \<longleftrightarrow> checkpoint_directory opts' \<noteq> [] \<and> last (checkpoint_directory opts') \<noteq> CHR ''/'') \<and>
      (separate opts' \<longrightarrow> (\<forall>f. CHR ''/'' \<notin> set f \<longrightarrow> append_path (checkpoint_directory opts') f \<noteq> canonical_path opts')))"
proof (intro conjI allI impI)
  show "cpCreate weakly_canonical opts = Inr opts' \<longleftrightarrow> canonical_path opts \<noteq> [] \<and> checkpoint_directory opts \<noteq> [] \<and>
      (\<exists>c d. weakly_canonical (canonical_path opts) = Inr c \<and> weakly_canonical (checkpoint_directory opts) = Inr d \<and>
         parentOrCurrent c \<noteq> d \<and> opts' = opts\<lparr>canonical_path := c, checkpoint_directory := d\<rparr>)" for opts'
    by (rule create_accepts)
qed (simp_all add: create_rejects create_separate separate_entry)

theorem create_separates_witness:
  "cpCreate Inr sample_store = Inr sample_store \<and> separate sample_store \<and> ''/c/k/0000000002.json'' \<noteq> canonical_path sample_store"
proof -
  note s = create_separates[where weakly_canonical = Inr and opts = sample_store]
  from s have "cpCreate Inr sample_store = Inr sample_store" by (simp add: sample_parents)
  moreover from s this have "separate sample_store" by simp
  moreover have "CHR ''/'' \<notin> set ''0000000002.json''" by simp
  ultimately show ?thesis using s sample_names_of_paths(7) by (metis sample_store_simps(2))
qed

text \<open>The sample store once the sample configuration is committed with the JSON backend.\<close>

abbreviation sample_json :: backend where
  "sample_json \<equiv> json_backend (\<lambda>_. DText sample_text) sample_parser default_limits"

lemma sample_json_roundtrip:
  assumes "models m sample"
  shows "saveBytes (sample_config m) sample_json = Ret (Inr (sample_text @ [CHR 0x0A]))"
    "\<exists>m'. loadBytes (sample_text @ [CHR 0x0A]) sample_json = Ret (Inr \<lparr>vc_version = 3, vc_model = m'\<rparr>) \<and> models m' sample"
proof -
  have c: "models (vc_model (sample_config m)) sample" using assms by (simp add: sample_config_def)
  have p: "sample_parser (sample_text @ [CHR 0x0A]) = (events_of (printed (\<lambda>_. ''0.0'') (spec_save (sample_config m) sample)), PDone)"
    by (simp add: sample_doc_printed sample_parse)
  have l: "cv_nodes sample \<le> maxNodes default_limits" "maxNodes default_limits < kNodeIdNone" "maxInputBytes default_limits < 2 ^ 64"
    "length sample_text < maxInputBytes default_limits" by (simp_all add: sample_wf sample_limits kNodeIdNone_def sample_text_def)
  note j = json_backend_roundtrip[where lit = "\<lambda>_. ''0.0''" and dump = "\<lambda>_. DText sample_text" and parser = sample_parser,
      OF c sample_no_key(2,1) l(1,2,3) _ sample_literal p l(4)]
  show "saveBytes (sample_config m) sample_json = Ret (Inr (sample_text @ [CHR 0x0A]))" using j(1) by simp
  show "\<exists>m'. loadBytes (sample_text @ [CHR 0x0A]) sample_json = Ret (Inr \<lparr>vc_version = 3, vc_model = m'\<rparr>) \<and> models m' sample"
    using j(2) by (simp add: sample_config_def)
qed

lemma sample_nodes_short: "w_nodes sample_world q \<noteq> None \<Longrightarrow> length (filename q) \<le> 15"
  by (auto simp: sample_world_def filename_def split: if_splits)

lemma sample_path3: "checkpoint_path sample_store 3 = ''/c/k/0000000003.json''"
proof -
  have "nat_str 3 = ''3''" by (simp add: nat_str.simps char_of_def bit_0)
  moreover have "replicate 9 CHR ''0'' = ''000000000''" by (simp add: numeral_eq_Suc)
  ultimately have "checkpointFilename 3 ''.json'' = ''0000000003.json''" by (simp add: checkpointFilename_def)
  then show ?thesis by (simp add: checkpoint_path_def sample_names_of_paths append_path_def)
qed

lemma sample_commit_capture:
  assumes s: "saveBytes config be = Ret (Inr bytes)" and load: "loadBytes bytes be = Ret (Inr \<lparr>vc_version = 3, vc_model = m'\<rparr>)"
    and v: "vc_version config = 3" and short: "length bytes \<le> max_file_bytes sample_store"
  shows "\<exists>w1 w2. cpCommit sample_os sample_store config be sample_world = (w1, Ret (Inr ())) \<and>
    cpCapture sample_os sample_store config be w1 = (w2, Ret (Inr ()))"
proof -
  have d: "list_all (\<lambda>q. w_nodes sample_world q = None \<or> w_nodes sample_world q = Some Directory) (ancestors (parentOrCurrent (canonical_path sample_store)))"
    by (simp add: sample_parents sample_ancestors sample_world_def)
  have n: "w_nodes sample_world (canonical_path sample_store) \<noteq> Some Directory" by (simp add: sample_world_def)
  obtain w1 where w1: "cpCommit sample_os sample_store config be sample_world = (w1, Ret (Inr ()))" "w_answers w1 = []"
    using commit_succeeds[OF _ s sample_separate(2) d _ n, of sample_os] sample_temp_free(1) by auto
  from commit_replaces[OF w1(1) sample_separate(2)] s
  have r: "replaces ''/c/app.json'' [''/c'', ''/''] bytes ''/c/app.json'' sample_world w1 (Inr ())"
    by (simp add: sample_parents sample_ancestors)
  then obtain mode t where f: "w_nodes w1 ''/c/app.json'' = Some (RegularFile bytes mode t)" unfolding replaces_def by auto
  from r have same: "w_nodes w1 q = w_nodes sample_world q \<or> w_nodes w1 q = Some Directory" "q \<noteq> ''/c'' \<Longrightarrow> q \<noteq> ''/'' \<Longrightarrow> w_nodes w1 q = w_nodes sample_world q"
    if "q \<noteq> ''/c/app.json''" for q
    using that unfolding replaces_def by auto
  have k: "w_nodes sample_world ''/c/k'' = Some Directory" "w_nodes sample_world ''/c'' = Some Directory" "w_nodes sample_world ''/'' = None"
    "w_nodes sample_world ''/c/k/0000000003.json'' = None" by (simp_all add: sample_world_def)
  have dirs: "list_all (\<lambda>q. w_nodes w1 q = None \<or> w_nodes w1 q = Some Directory) (ancestors (checkpoint_directory sample_store))"
    using same(1)[of "''/c/k''"] same(1)[of "''/c''"] same(1)[of "''/''"] k by (auto simp: sample_ancestors)
  let ?q = "snd (temporaryCandidate ''/c/k/0000000003.json'' w1)"
  obtain w0 where "temporaryCandidate ''/c/k/0000000003.json'' w1 = (w0, ?q)" by (metis prod.collapse)
  from temp_of_filename[OF conjunct1[OF temporaryCandidate_temp[OF this, of "\<lambda>_. True"]]]
  have long: "15 < length (filename ?q)" by (auto simp: filename_def)
  have "length (filename q) \<le> 15" if "q \<in> {''/c/app.json'', ''/c'', ''/''}" for q using that by (auto simp: filename_def)
  with long have ne: "?q \<noteq> ''/c/app.json''" "?q \<noteq> ''/c''" "?q \<noteq> ''/''" by (metis insertCI linorder_not_less)+
  have "w_nodes sample_world ?q = None"
  proof (rule ccontr)
    assume "w_nodes sample_world ?q \<noteq> None"
    from sample_nodes_short[OF this] long show False by linarith
  qed
  with same(2)[OF ne] have room: "w_nodes w1 ?q = None" by (simp only:)
  have "\<exists>w2. cpCapture sample_os sample_store config be w1 = (w2, Ret (Inr ()))"
  proof (rule capture_succeeds[OF w1(2) sample_separate(1) _ _ _ load])
    show "w_nodes w1 (canonical_path sample_store) = Some (RegularFile bytes mode t)" using f by simp
    show "length bytes \<le> max_file_bytes sample_store" by (rule short)
    show "w_nodes w1 (snd (temporaryCandidate (checkpoint_path sample_store (vc_version config)) w1)) = None"
      using room by (simp add: v sample_path3)
    show "w_nodes w1 (checkpoint_path sample_store (vc_version config)) \<noteq> Some Directory"
      using same(2)[of "''/c/k/0000000003.json''"] k(4) by (simp add: v sample_path3)
  qed (use dirs in \<open>simp_all add: v\<close>)
  with w1(1) show ?thesis by blast
qed

lemma sample_json_commit_capture:
  assumes "models m sample"
  shows "\<exists>w1 w2. cpCommit sample_os sample_store (sample_config m) sample_json sample_world = (w1, Ret (Inr ())) \<and>
    cpCapture sample_os sample_store (sample_config m) sample_json w1 = (w2, Ret (Inr ()))"
proof -
  obtain m' where "loadBytes (sample_text @ [CHR 0x0A]) sample_json = Ret (Inr \<lparr>vc_version = 3, vc_model = m'\<rparr>)"
    using sample_json_roundtrip(2)[OF assms] by blast
  from sample_commit_capture[OF sample_json_roundtrip(1)[OF assms] this] show ?thesis
    by (simp add: sample_config_def sample_text_def)
qed

text \<open>C26: The checkpoint store with the JSON backend, end to end: when a finite configuration without the reserved key is committed and then captured successfully, the canonical file and the checkpoint of its version hold the same bytes, and a restore that reads the checkpoint loads the same version and the same value tree.\<close>

theorem json_checkpoint_roundtrip:
  assumes "models (vc_model config) v" and "finite_doubles v" and "\<not> cv_contains v kVersionKey"
    and "cv_nodes v \<le> maxNodes L" "maxNodes L < kNodeIdNone" "maxInputBytes L < 2 ^ 64"
    and "dump (spec_save config v) = DText t" and "\<And>d. float_literal (lit d)"
    and "parser (t @ [CHR 0x0A]) = (events_of (printed lit (spec_save config v)), PDone)" "length t < maxInputBytes L"
    and "cpCommit os opts config (json_backend dump parser L) w = (w1, Ret (Inr u))"
    and "cpCapture os opts config (json_backend dump parser L) w1 = (w2, Ret (Inr u'))"
    and "separate opts" "proper_file (canonical_path opts)" "max_file_bytes opts < 2 ^ 64"
  shows "\<exists>mode time mode' time' m. w_nodes w2 (canonical_path opts) = Some (RegularFile (t @ [CHR 0x0A]) mode time) \<and>
    w_nodes w2 (checkpoint_path opts (vc_version config)) = Some (RegularFile (t @ [CHR 0x0A]) mode' time') \<and> models m v \<and>
    verified opts (json_backend dump parser L) (Some (vc_version config)) (w_nodes w2)
      \<lparr>lc_path = checkpoint_path opts (vc_version config), lc_source_version = vc_version config, lc_modified = time',
       lc_config = \<lparr>vc_version = vc_version config, vc_model = m\<rparr>\<rparr>"
proof -
  note j = json_backend_roundtrip[where lit = lit and dump = dump and parser = parser, OF assms(1-10)]
  from j(2) obtain m where m: "loadBytes (t @ [CHR 0x0A]) (json_backend dump parser L) = Ret (Inr \<lparr>vc_version = vc_version config, vc_model = m\<rparr>)"
    "models m v" by blast
  from commit_then_capture[OF assms(11-15) j(1) m(1)] m(2) show ?thesis by blast
qed

theorem json_checkpoint_roundtrip_witness:
  "\<exists>m w1 w2. cm_fromValue sample = Some (Inr m) \<and>
     cpCommit sample_os sample_store (sample_config m) sample_json sample_world = (w1, Ret (Inr ())) \<and>
     cpCapture sample_os sample_store (sample_config m) sample_json w1 = (w2, Ret (Inr ())) \<and>
     (\<exists>mode t. w_nodes w2 ''/c/k/0000000003.json'' = Some (RegularFile (sample_text @ [CHR 0x0A]) mode t))"
proof -
  obtain m where m: "cm_fromValue sample = Some (Inr m)" "models m sample" using sample_model by blast
  from sample_json_commit_capture[OF m(2)] obtain w1 w2 where
    w: "cpCommit sample_os sample_store (sample_config m) sample_json sample_world = (w1, Ret (Inr ()))"
      "cpCapture sample_os sample_store (sample_config m) sample_json w1 = (w2, Ret (Inr ()))" by blast
  have c: "models (vc_model (sample_config m)) sample" using m(2) by (simp add: sample_config_def)
  have p: "sample_parser (sample_text @ [CHR 0x0A]) = (events_of (printed (\<lambda>_. ''0.0'') (spec_save (sample_config m) sample)), PDone)"
    by (simp add: sample_doc_printed sample_parse)
  have l: "cv_nodes sample \<le> maxNodes default_limits" "maxNodes default_limits < kNodeIdNone" "maxInputBytes default_limits < 2 ^ 64"
    "length sample_text < maxInputBytes default_limits" by (simp_all add: sample_wf sample_limits kNodeIdNone_def sample_text_def)
  from json_checkpoint_roundtrip[where lit = "\<lambda>_. ''0.0''",
      OF c sample_no_key(2,1) l(1,2,3) refl sample_literal p l(4) w sample_separate] obtain mode t where
    "w_nodes w2 (checkpoint_path sample_store (vc_version (sample_config m))) = Some (RegularFile (sample_text @ [CHR 0x0A]) mode t)" by auto
  then have "w_nodes w2 ''/c/k/0000000003.json'' = Some (RegularFile (sample_text @ [CHR 0x0A]) mode t)"
    by (simp add: sample_config_def sample_path3)
  with m(1) w show ?thesis by blast
qed

abbreviation sample_xml_backend :: backend where
  "sample_xml_backend \<equiv> xml_backend exact_literal (\<lambda>_. sample_xml_text) sample_xml_parser default_limits"

text \<open>C27: The checkpoint store with the XML backend, end to end: when a configuration XML can carry is committed and then captured successfully, the canonical file and the checkpoint of its version hold the same bytes, and a restore that reads the checkpoint loads the same version and the same value tree, for every to_chars that reads back and however the printer lays the document out.\<close>

theorem xml_checkpoint_roundtrip:
  assumes "models (vc_model config) v" and "saveable v"
    and "cv_nodes v \<le> maxNodes L" "maxNodes L < kNodeIdNone" "maxInputBytes L < 2 ^ 64"
    and "to_chars_ok fmt" and "t = print (root_element fmt config v)"
    and "parser t = Inr doc" "laid_out formatted [root_element fmt config v] doc"
    and "t \<noteq> []" "length t \<le> maxInputBytes L"
    and "cpCommit os opts config (xml_backend fmt print parser L) w = (w1, Ret (Inr u))"
    and "cpCapture os opts config (xml_backend fmt print parser L) w1 = (w2, Ret (Inr u'))"
    and "separate opts" "proper_file (canonical_path opts)" "max_file_bytes opts < 2 ^ 64"
  shows "\<exists>mode time mode' time' m. w_nodes w2 (canonical_path opts) = Some (RegularFile t mode time) \<and>
    w_nodes w2 (checkpoint_path opts (vc_version config)) = Some (RegularFile t mode' time') \<and> models m v \<and>
    verified opts (xml_backend fmt print parser L) (Some (vc_version config)) (w_nodes w2)
      \<lparr>lc_path = checkpoint_path opts (vc_version config), lc_source_version = vc_version config, lc_modified = time',
       lc_config = \<lparr>vc_version = vc_version config, vc_model = m\<rparr>\<rparr>"
proof -
  note x = xml_backend_roundtrip[where parser = parser and fmt = fmt and print = print, OF assms(1-11)]
  from x(2) obtain m where m: "loadBytes t (xml_backend fmt print parser L) = Ret (Inr \<lparr>vc_version = vc_version config, vc_model = m\<rparr>)"
    "models m v" by blast
  from commit_then_capture[OF assms(12-16) x(1) m(1)] m(2) show ?thesis by blast
qed

theorem xml_checkpoint_roundtrip_witness:
  "\<exists>m w1 w2. cm_fromValue sample = Some (Inr m) \<and>
     cpCommit sample_os sample_store (sample_config m) sample_xml_backend sample_world = (w1, Ret (Inr ())) \<and>
     cpCapture sample_os sample_store (sample_config m) sample_xml_backend w1 = (w2, Ret (Inr ())) \<and>
     (\<exists>mode t. w_nodes w2 ''/c/k/0000000003.json'' = Some (RegularFile sample_xml_text mode t))"
proof -
  obtain m where m: "cm_fromValue sample = Some (Inr m)" "models m sample" using sample_model by blast
  have c: "models (vc_model (sample_config m)) sample" using m(2) by (simp add: sample_config_def)
  have p: "sample_xml_parser sample_xml_text = Inr sample_xml" by (simp add: sample_xml_parser_def)
  have l: "cv_nodes sample \<le> maxNodes default_limits" "maxNodes default_limits < kNodeIdNone" "maxInputBytes default_limits < 2 ^ 64"
    "sample_xml_text \<noteq> []" "length sample_xml_text \<le> maxInputBytes default_limits"
    by (simp_all add: sample_wf sample_limits kNodeIdNone_def sample_xml_text_def)
  note x = xml_backend_roundtrip[where parser = sample_xml_parser and fmt = exact_literal and print = "\<lambda>_. sample_xml_text",
      OF c sample_saveable l(1,2,3) exact_literal_ok refl p sample_xml_laid_out l(4,5)]
  from x(2) obtain m' where "loadBytes sample_xml_text sample_xml_backend = Ret (Inr \<lparr>vc_version = 3, vc_model = m'\<rparr>)"
    by (auto simp: sample_config_def)
  from sample_commit_capture[OF x(1) this] obtain w1 w2 where
    w: "cpCommit sample_os sample_store (sample_config m) sample_xml_backend sample_world = (w1, Ret (Inr ()))"
      "cpCapture sample_os sample_store (sample_config m) sample_xml_backend w1 = (w2, Ret (Inr ()))"
    by (auto simp: sample_config_def sample_xml_text_def)
  from xml_checkpoint_roundtrip[where parser = sample_xml_parser and fmt = exact_literal and print = "\<lambda>_. sample_xml_text",
      OF c sample_saveable l(1,2,3) exact_literal_ok refl p sample_xml_laid_out l(4,5) w sample_separate] obtain mode t where
    "w_nodes w2 (checkpoint_path sample_store (vc_version (sample_config m))) = Some (RegularFile sample_xml_text mode t)" by auto
  then have "w_nodes w2 ''/c/k/0000000003.json'' = Some (RegularFile sample_xml_text mode t)"
    by (simp add: sample_config_def sample_path3)
  with m(1) w show ?thesis by blast
qed

section \<open>The example programs\<close>

text \<open>A version 1 configuration with a setting \<open>relaygate\<close> does not know.\<close>

definition rg_sample :: config_value where
  "rg_sample = Obj [(''server_host'', Scal (SString ''0.0.0.0'')), (''server_port'', Scal (SInt 9090)),
     (''log_file'', Scal (SString ''/tmp/r.log'')), (''verbose'', Scal (SBool True)), (''max_connections'', Scal (SInt 200)),
     (''note'', Scal (SString ''mine''))]"

lemma rg_sample_held: "\<exists>m. cm_fromValue rg_sample = Some (Inr m) \<and> models m rg_sample"
proof -
  have "spec_fromValue rg_sample = Inr rg_sample" "cv_distinct rg_sample"
    by (simp_all add: rg_sample_def spec_fromValue_def wf_model_value_def kMaxTreeDepth_def isAddressableKey_def is_reserved_def)
  with fromValue_refines[of rg_sample] show ?thesis by (auto simp: rg_sample_def kNodeIdNone_def)
qed

text \<open>C9: The catalog and the two migrations of examples/03_relaygate_lifecycle.cpp, run by ConfigRuntime::synchronize on any version 1 configuration (arbitrary scalar values of the five settings, verbose a boolean, and arbitrary further members except ones named server, logging or limits, which the upgrade writes to): the upgrade to the latest version succeeds, every setting of the user is in its place of version 3 (host and port as the first listener, verbose as the logging level, max_connections under limits), only server.tls and limits.request_timeout_ms are filled from the defaults, members the program does not know are kept, and no version 1 key is left.\<close>

theorem relaygate_upgrade:
  assumes "models m (Obj ms)" and "rg_v1_file (map_of ms) host port logfile verbose conns"
    and "cv_nodes (Obj ms) + 1000 \<le> kNodeIdNone"
  shows "\<exists>runtime cfg' w. rg_runtime = Inr runtime \<and>
    synchronize_latest runtime s \<lparr>vc_version = 1, vc_model = m\<rparr> = Some (s, cfg', Ret (Inr InSync)) \<and>
    vc_version cfg' = 3 \<and> models (vc_model cfg') (Obj w) \<and> map_of w = rg_upgraded (map_of ms) host port logfile verbose conns"
  using rg_upgrade[OF assms, of s] rg_runtime_ok by blast

theorem relaygate_upgrade_witness:
  "\<exists>m runtime cfg' w. cm_fromValue rg_sample = Some (Inr m) \<and> rg_runtime = Inr runtime \<and>
     synchronize_latest runtime () \<lparr>vc_version = 1, vc_model = m\<rparr> = Some ((), cfg', Ret (Inr InSync)) \<and>
     vc_version cfg' = 3 \<and> models (vc_model cfg') (Obj w) \<and> map_of w ''note'' = Some (Scal (SString ''mine''))"
proof -
  from rg_sample_held obtain ms m where ms: "rg_sample = Obj ms" and m: "cm_fromValue rg_sample = Some (Inr m)" "models m (Obj ms)"
    by (auto simp: rg_sample_def)
  have v1: "rg_v1_file (map_of ms) (SString ''0.0.0.0'') (SInt 9090) (SString ''/tmp/r.log'') True (SInt 200)"
    and n: "map_of ms ''note'' = Some (Scal (SString ''mine''))" and room: "cv_nodes (Obj ms) + 1000 \<le> kNodeIdNone"
    using ms by (auto simp: rg_sample_def rg_v1_file_def kNodeIdNone_def)
  from relaygate_upgrade[OF m(2) v1 room, of "()"] obtain runtime cfg' w where r: "rg_runtime = Inr runtime"
    "synchronize_latest runtime () \<lparr>vc_version = 1, vc_model = m\<rparr> = Some ((), cfg', Ret (Inr InSync))"
    "vc_version cfg' = 3" "models (vc_model cfg') (Obj w)"
    and w: "map_of w = rg_upgraded (map_of ms) (SString ''0.0.0.0'') (SInt 9090) (SString ''/tmp/r.log'') True (SInt 200)" by blast
  have "map_of w ''note'' = Some (Scal (SString ''mine''))" using w n by (simp add: rg_upgraded_def rg_v1_keys_def)
  with m(1) r show ?thesis by blast
qed

text \<open>The mains of examples/01_basic_model.cpp (which builds a model, reads, writes and removes through paths, and checks a cross-type write and an absent path for their error codes) and of examples/02_versioning_and_migration.cpp (which registers two versions and a migration, overrides a default and synchronizes) end with EXIT_SUCCESS: every call returns what the example checks for, and nothing in them is undefined.\<close>

theorem first_examples_succeed: "basic_main = Some (Exit EXIT_SUCCESS) \<and> vm_main = Some (Exit EXIT_SUCCESS)"
  using basic_main_succeeds vm_main_succeeds by blast

text \<open>
  A disk with the shipped file, and a JSON library that gives each document the number of its
  version as its text.
\<close>

definition fw_disk :: world where
  "fw_disk = \<lparr>w_nodes = [''data/device_v1.json'' \<mapsto> RegularFile ''1'' 420 0], w_log = [], w_answers = [], w_now = 1, w_ticks = (\<lambda>_. 7), w_sequence = 0\<rparr>"

text \<open>Paths are taken from the root, and these have no dots and no links in them.\<close>

definition fw_canonical :: "path \<Rightarrow> string + path" where
  "fw_canonical p = Inr (if p \<noteq> [] \<and> hd p = CHR ''/'' then p else CHR ''/'' # p)"

definition fw_os :: os where
  "fw_os = \<lparr>os_message = (\<lambda>e. ''error''), os_listing = (\<lambda>ns dir. filter (\<lambda>p. ns p \<noteq> None) [fw_checkpoint ''/out''])\<rparr>"

definition fw_dump :: "double json \<Rightarrow> dump_outcome" where
  "fw_dump doc = (case doc of JObject ((k, JUnsigned n) # _) \<Rightarrow> DText (if n = 2 then ''2'' else ''3'') | _ \<Rightarrow> DThrows_other)"

definition fw_lit :: "double \<Rightarrow> string" where "fw_lit d = ''0.0''"

definition fw_parser :: json_parser where
  "fw_parser bytes = (if bytes = ''1'' then events_of fw_file
     else if bytes = ''2'' @ [CHR 0x0A] then events_of (printed fw_lit (document_at 2 fw_v2))
     else events_of (printed fw_lit (document_at 3 fw_v3)), PDone)"

lemma fw_hyps:
  "plain_directory ''/out''" "w_answers fw_disk = []"
  "w_nodes fw_disk (append_path ''data'' ''device_v1.json'') = Some (RegularFile ''1'' 420 0)"
  "append_path ''data'' ''device_v1.json'' \<noteq> append_path ''/out'' ''device.json''"
  "\<not> below (append_path ''/out'' ''device.checkpoints'') (append_path ''data'' ''device_v1.json'')"
  "list_all (\<lambda>q. w_nodes fw_disk q = None \<or> w_nodes fw_disk q = Some Directory) (ancestors ''/out'')"
  "w_nodes fw_disk (append_path ''/out'' ''device.json'') \<noteq> Some Directory"
  "temp_of (append_path ''/out'' ''device.json'') q \<Longrightarrow> w_nodes fw_disk q = None"
proof -
  show "temp_of (append_path ''/out'' ''device.json'') q \<Longrightarrow> w_nodes fw_disk q = None"
    using temp_of_plain[of "''/out''" "''device.json''" q] by (auto simp: fw_disk_def plain_directory_def append_path_def)
  show "list_all (\<lambda>q. w_nodes fw_disk q = None \<or> w_nodes fw_disk q = Some Directory) (ancestors ''/out'')"
    by (subst ancestors.simps, subst ancestors.simps) (simp add: parent_path_def fw_disk_def)
qed (simp_all add: fw_disk_def plain_directory_def append_path_def below_def)

lemma fw_lists: "lists_the_one fw_os (append_path ''/out'' ''device.checkpoints'') (fw_checkpoint ''/out'')"
  unfolding lists_the_one_def
proof (intro allI impI)
  fix ns :: fsys assume h: "\<forall>f. f \<noteq> [] \<and> CHR ''/'' \<notin> set f \<longrightarrow>
    (ns (append_path (append_path ''/out'' ''device.checkpoints'') f) \<noteq> None \<longleftrightarrow>
     append_path (append_path ''/out'' ''device.checkpoints'') f = fw_checkpoint ''/out'')"
  have "ns (fw_checkpoint ''/out'') \<noteq> None"
    using h fw_checkpoint_path[OF fw_hyps(1)] by auto
  then show "os_listing fw_os ns (append_path ''/out'' ''device.checkpoints'') = [fw_checkpoint ''/out'']" by (simp add: fw_os_def)
qed

lemma fw_prints: "prints_back fw_dump fw_parser fw_lit (document_at 3 fw_v3) (''3'' @ [CHR 0x0A])"
  "prints_back fw_dump fw_parser fw_lit (document_at 2 fw_v2) (''2'' @ [CHR 0x0A])"
  by (simp_all add: prints_back_def fw_dump_def fw_parser_def document_at_def default_limits_def)

text \<open>C7: The main of examples/05_firmware_rollback.cpp over the checkpoint store, the runtime and the JSON backend together: on a disk where no call fails and nothing is in the way, with an output directory given by its canonical path (the configuration file and the checkpoint directory in it are their own weakly_canonical), the shipped version 1 file, and a JSON library that reads back the two documents it prints here, the program ends with EXIT_SUCCESS (every check in it passes: the upgrade to version 3 is committed, the version 2 firmware refuses it, finds the checkpoint and migrates it forward), the canonical file holds the version 2 document and the checkpoint the original bytes.\<close>

theorem firmware_example_rolls_back:
  assumes "plain_directory d" "w_answers w = []"
    and "w_nodes w (append_path data_dir ''device_v1.json'') = Some (RegularFile bytes mode t)"
      "append_path data_dir ''device_v1.json'' \<noteq> append_path d ''device.json''"
      "\<not> below (append_path d ''device.checkpoints'') (append_path data_dir ''device_v1.json'')"
    and "list_all (\<lambda>q. w_nodes w q = None \<or> w_nodes w q = Some Directory) (ancestors d)"
      "w_nodes w (append_path d ''device.json'') \<noteq> Some Directory" "\<And>q. temp_of (append_path d ''device.json'') q \<Longrightarrow> w_nodes w q = None"
    and "weakly_canonical (append_path d ''device.json'') = Inr (append_path d ''device.json'')"
      "weakly_canonical (append_path d ''device.checkpoints'') = Inr (append_path d ''device.checkpoints'')"
    and "lists_the_one os (append_path d ''device.checkpoints'') (fw_checkpoint d)"
    and "parser bytes = (events_of fw_file, PDone)" "bytes \<noteq> []" "length bytes \<le> 4 * 1024 * 1024"
    and "\<And>x. float_literal (lit x)" "prints_back dump parser lit (document_at 3 fw_v3) bytes3"
      "prints_back dump parser lit (document_at 2 fw_v2) bytes2"
  shows "\<exists>w'. fw_main os weakly_canonical dump parser data_dir d w = Some (w', Exit EXIT_SUCCESS) \<and>
    (\<exists>mode t. w_nodes w' (append_path d ''device.json'') = Some (RegularFile bytes2 mode t)) \<and>
    (\<exists>mode t. w_nodes w' (fw_checkpoint d) = Some (RegularFile bytes mode t))"
  by (rule fw_main_succeeds[OF assms])

theorem firmware_example_rolls_back_witness:
  "\<exists>w'. fw_main fw_os fw_canonical fw_dump fw_parser ''data'' ''/out'' fw_disk = Some (w', Exit EXIT_SUCCESS) \<and>
     (\<exists>mode t. w_nodes w' ''/out/device.json'' = Some (RegularFile (''2'' @ [CHR 0x0A]) mode t)) \<and>
     (\<exists>mode t. w_nodes w' ''/out/device.checkpoints/0000000001.json'' = Some (RegularFile ''1'' mode t))"
proof -
  have p: "fw_parser ''1'' = (events_of fw_file, PDone)" "''1'' \<noteq> []" "length ''1'' \<le> 4 * 1024 * 1024"
    by (simp_all add: fw_parser_def)
  have l: "float_literal (fw_lit x)" for x by (simp add: fw_lit_def float_literal_def)
  have z: "replicate 9 CHR ''0'' = ''000000000''" by code_simp
  have c: "append_path ''/out'' ''device.json'' = ''/out/device.json''" "fw_checkpoint ''/out'' = ''/out/device.checkpoints/0000000001.json''"
    by (simp_all add: append_path_def checkpoint_path_def checkpointFilename_def extension_def stem_def filename_def nat_str.simps char_of_def bit_0 z)
  have w: "fw_canonical (append_path ''/out'' ''device.json'') = Inr (append_path ''/out'' ''device.json'')"
    "fw_canonical (append_path ''/out'' ''device.checkpoints'') = Inr (append_path ''/out'' ''device.checkpoints'')"
    by (simp_all add: fw_canonical_def append_path_def)
  from firmware_example_rolls_back[OF fw_hyps w fw_lists p l fw_prints] c show ?thesis by simp
qed

text \<open>
  A disk with the two shipped files, and a JSON library with one-letter texts for the two documents
  that are read back.
\<close>

definition rg_disk :: world where
  "rg_disk = \<lparr>w_nodes = [''data/relaygate_v1.json'' \<mapsto> RegularFile ''1'' 420 0, ''data/relaygate_future.json'' \<mapsto> RegularFile ''9'' 420 0],
     w_log = [], w_answers = [], w_now = 1, w_ticks = (\<lambda>_. 7), w_sequence = 0\<rparr>"

definition rg_later_file :: json_doc where
  "rg_later_file = JObject [(''__version'', JUnsigned 99), (''telemetry'', JObject [(''exporter'', JString ''otlp'')])]"

definition rg_dump :: "double json \<Rightarrow> dump_outcome" where
  "rg_dump doc = DText (if doc = document_at 3 rg_warned then ''w'' else ''d'')"

definition rg_parser :: json_parser where
  "rg_parser bytes = (if bytes = ''1'' then events_of rg_file else if bytes = ''9'' then events_of rg_later_file
     else if bytes = ''w'' @ [CHR 0x0A] then events_of (printed fw_lit (document_at 3 rg_warned))
     else events_of (printed fw_lit (document_at 3 (the rg_v3Defaults))), PDone)"

lemma rg_later_loads: "\<exists>v. spec_load default_limits rg_later_file = Inr (99, v)"
  by (simp add: spec_load_def read_document_def rg_later_file_def kMaxInt_def kVersionKey_def isPathAddressable_iff
      isAddressableKey_def is_reserved_def carrier_of_def kMaxVersion_def default_limits_def read_attach_def kMaxTreeDepth_def)

lemma rg_prints: "prints_back rg_dump rg_parser fw_lit (document_at 3 (the rg_v3Defaults)) (''d'' @ [CHR 0x0A])"
  "prints_back rg_dump rg_parser fw_lit (document_at 3 rg_warned) (''w'' @ [CHR 0x0A])"
  by (simp_all add: prints_back_def rg_dump_def rg_parser_def document_at_def default_limits_def rg_defaults rg_warned_def cv_members_def)

lemma rg_disk_hyps:
  "plain_directory ''out''" "w_answers rg_disk = []"
  "list_all (\<lambda>q. w_nodes rg_disk q = None \<or> w_nodes rg_disk q = Some Directory) (ancestors ''out'')"
  "holds_bytes rg_disk (append_path ''data'' ''relaygate_v1.json'') ''1''" "rg_parser ''1'' = (events_of rg_file, PDone)"
  "''1'' \<noteq> []" "length ''1'' \<le> 4 * 1024 * 1024"
  "holds_bytes rg_disk (append_path ''data'' ''relaygate_future.json'') ''9''" "rg_parser ''9'' = (events_of rg_later_file, PDone)"
  "''9'' \<noteq> []" "length ''9'' \<le> 4 * 1024 * 1024"
  "\<not> rg_output ''out'' (append_path ''data'' ''relaygate_v1.json'')" "\<not> rg_output ''out'' (append_path ''data'' ''relaygate_future.json'')"
  "float_literal (fw_lit x)" "\<exists>t. rg_dump (document_at 3 (Obj ms)) = DText t"
  "rg_output ''out'' p \<Longrightarrow> w_nodes rg_disk p \<noteq> Some Directory"
proof -
  show "list_all (\<lambda>q. w_nodes rg_disk q = None \<or> w_nodes rg_disk q = Some Directory) (ancestors ''out'')"
    by (simp add: ancestors.simps[of "''out''"] parent_path_def rg_disk_def)
qed (simp_all add: rg_disk_def plain_directory_def append_path_def holds_bytes_def rg_output_def rg_parser_def rg_dump_def fw_lit_def float_literal_def)

text \<open>C8: The main of examples/03_relaygate_lifecycle.cpp, all phases over the file system, the runtime and the JSON backend: on a disk where no call fails, no directory has the name of an output file and no file that of a directory above them, with the shipped version 1 file, a file of version 99 with any content, and a JSON library that reads back the two configurations it prints in the first phases and prints the upgraded one, in whichever order its members come (rg_legacy_members: one document up to that order, with ASCII texts only), the program ends with EXIT_SUCCESS; the configuration file then holds the version 3 defaults with the operator's logging level, the upgraded file holds a document with every setting of the version 1 file in its place, and the file from the newer version is untouched.\<close>

theorem relaygate_lifecycle_succeeds:
  assumes "plain_directory d" "w_answers w = []"
    and "list_all (\<lambda>q. w_nodes w q = None \<or> w_nodes w q = Some Directory) (ancestors d)"
      "\<And>p. rg_output d p \<Longrightarrow> w_nodes w p \<noteq> Some Directory"
    and "holds_bytes w (append_path data ''relaygate_v1.json'') old" "parser old = (events_of rg_file, PDone)"
      "old \<noteq> []" "length old \<le> 4 * 1024 * 1024"
    and "holds_bytes w (append_path data ''relaygate_future.json'') later" "parser later = (events_of j, PDone)"
      "spec_load default_limits j = Inr (99, v)" "later \<noteq> []" "length later \<le> 4 * 1024 * 1024"
    and "\<not> rg_output d (append_path data ''relaygate_v1.json'')" "\<not> rg_output d (append_path data ''relaygate_future.json'')"
    and "\<And>x. float_literal (lit x)" and "prints_back dump parser lit (document_at 3 (the rg_v3Defaults)) bytes0"
    and "prints_back dump parser lit (document_at 3 rg_warned) bytes1" 
    and "\<And>ms. rg_legacy_members ms \<Longrightarrow> \<exists>t. dump (document_at 3 (Obj ms)) = DText t"
  shows "\<exists>w'. rg_main dump parser data d w = Some (w', Exit EXIT_SUCCESS) \<and> holds_bytes w' (append_path d ''relaygate.json'') bytes1 \<and>
    (\<exists>v t. rg_legacy_members v \<and> dump (document_at 3 (Obj v)) = DText t \<and> holds_bytes w' (append_path d ''legacy.json'') (t @ [CHR 0x0A])) \<and>
    holds_bytes w' (append_path data ''relaygate_future.json'') later"
  by (rule rg_main_runs[OF assms])

theorem relaygate_lifecycle_succeeds_witness:
  "\<exists>w'. rg_main rg_dump rg_parser ''data'' ''out'' rg_disk = Some (w', Exit EXIT_SUCCESS) \<and>
     holds_bytes w' ''out/relaygate.json'' (''w'' @ [CHR 0x0A]) \<and> holds_bytes w' ''data/relaygate_future.json'' ''9''"
proof -
  from rg_later_loads obtain v where v: "spec_load default_limits rg_later_file = Inr (99, v)" by blast
  have c: "append_path ''out'' ''relaygate.json'' = ''out/relaygate.json''" "append_path ''data'' ''relaygate_future.json'' = ''data/relaygate_future.json''"
    by (simp_all add: append_path_def)
  from relaygate_lifecycle_succeeds[where parser = rg_parser and j = rg_later_file and dump = rg_dump and lit = fw_lit,
      OF rg_disk_hyps(1-3,16,4-9) v rg_disk_hyps(10-14) rg_prints rg_disk_hyps(15)] c show ?thesis by auto
qed

text \<open>
  A disk with the shipped XML file, and an XML library with short texts for the documents, that reads
  every document back as it was written.
\<close>

definition sb_disk :: world where
  "sb_disk = \<lparr>w_nodes = [''data/sensorbridge_v1.xml'' \<mapsto> RegularFile ''1'' 420 0], w_log = [], w_answers = [], w_now = 1, w_ticks = (\<lambda>_. 7), w_sequence = 0\<rparr>"

definition sb_text :: string where "sb_text = ''<config version=\"2\"><jitter_pct type=\"int\">5</jitter_pct></config>''"

definition sb_operator :: config_value where "sb_operator = sb_v2_with ''version'' (SString ''the operator wrote this'')"

definition sb_print :: "xml \<Rightarrow> string" where
  "sb_print root = (if root = xml_at exact_literal 2 sb_v2 then sb_text else ''v'')"

definition sb_parser :: xml_parser where
  "sb_parser bytes = Inr [if bytes = ''1'' then xml_at exact_literal 1 sb_v1
     else if bytes = ''v'' then xml_at exact_literal 2 sb_operator else xml_at exact_literal 2 sb_v2]"

lemma sb_shipped: "xml_document default_limits [xml_at exact_literal 1 sb_v1] = Inr (1, sb_v1)"
proof -
  have s: "saveable sb_v1" using sb_finite[unfolded isfinite_def]
    by (simp add: sb_values sb_names sb_texts) (simp add: isValidElementName_def all_code_points_ascii isNameStartChar_def isNameChar_def)
  have wf: "wf_model_value sb_v1" "cv_nodes sb_v1 \<le> maxNodes default_limits"
    by (simp_all add: sb_values wf_model_value_def kMaxTreeDepth_def isAddressableKey_def is_reserved_def default_limits_def)
  note d = emitted_root[of exact_literal 1 sb_v1, folded root_element_at[of exact_literal "\<lparr>vc_version = 1, vc_model = undefined\<rparr>", simplified]]
  show ?thesis using xml_document_reads_back[OF exact_literal_ok s wf d] by (simp add: root_element_at)
qed

lemma sb_prints: "sb_print (xml_at exact_literal 2 sb_v2) = sb_text" "sb_print (xml_at exact_literal 2 sb_operator) = ''v''"
  by (simp_all add: sb_print_def xml_at_def sb_operator_def sb_values cv_members_def)

lemma sb_prints_back: "xml_prints_back sb_print sb_parser (xml_at exact_literal 2 sb_v2)"
  "xml_prints_back sb_print sb_parser (xml_at exact_literal 2 sb_operator)"
proof -
  have l: "sb_text \<noteq> []" "length sb_text \<le> maxInputBytes default_limits" by (simp_all add: sb_text_def default_limits_def)
  have p: "sb_parser sb_text = Inr [xml_at exact_literal 2 sb_v2]" by (simp add: sb_parser_def sb_text_def)
  show "xml_prints_back sb_print sb_parser (xml_at exact_literal 2 sb_v2)"
    unfolding xml_prints_back_def sb_prints using l p emitted_root[of exact_literal 2 sb_v2] by blast
  show "xml_prints_back sb_print sb_parser (xml_at exact_literal 2 sb_operator)"
    unfolding xml_prints_back_def sb_prints using emitted_root[of exact_literal 2 sb_operator] by (simp add: sb_parser_def default_limits_def)
qed

lemma sb_seen: "occurs_in ''<config version=\"2\">'' sb_text" "occurs_in ''<jitter_pct type=\"int\">5</jitter_pct>'' sb_text"
  by (code_simp)+

text \<open>C10: The main of examples/04_sensorbridge_xml.cpp, all phases over the file system, the runtime and the XML backend: on a disk where no call fails, with the shipped version 1 document and an XML library that reads back what it prints, the program ends with EXIT_SUCCESS (the typed reads, the upgrade, the member named version beside the version attribute, the refused element name and the round trip all pass), and the configuration file holds the text of the upgraded document.\<close>

theorem sensorbridge_example_succeeds:
  assumes "plain_directory d" "w_answers w = []"
    and "list_all (\<lambda>q. w_nodes w q = None \<or> w_nodes w q = Some Directory) (ancestors d)" "w_nodes w (append_path d ''sensorbridge.xml'') \<noteq> Some Directory"
    and "holds_bytes w (append_path data ''sensorbridge_v1.xml'') bytes" "parser bytes = Inr doc"
      "xml_document default_limits doc = Inr (1, sb_v1)" "bytes \<noteq> []" "length bytes \<le> 4 * 1024 * 1024"
    and "to_chars_ok fmt" and "xml_prints_back print parser (xml_at fmt 2 sb_v2)"
      "xml_prints_back print parser (xml_at fmt 2 (sb_v2_with ''version'' (SString ''the operator wrote this'')))"
    and "occurs_in ''<config version=\"2\">'' (print (xml_at fmt 2 sb_v2))"
      "occurs_in ''<jitter_pct type=\"int\">5</jitter_pct>'' (print (xml_at fmt 2 sb_v2))"
  shows "\<exists>w'. sb_main fmt print parser data d w = Some (w', Exit EXIT_SUCCESS) \<and>
    holds_bytes w' (append_path d ''sensorbridge.xml'') (print (xml_at fmt 2 sb_v2))"
  by (rule sb_main_runs[OF assms])

theorem sensorbridge_example_succeeds_witness:
  "\<exists>w'. sb_main exact_literal sb_print sb_parser ''data'' ''out'' sb_disk = Some (w', Exit EXIT_SUCCESS) \<and>
     holds_bytes w' ''out/sensorbridge.xml'' sb_text"
proof -
  have a: "list_all (\<lambda>q. w_nodes sb_disk q = None \<or> w_nodes sb_disk q = Some Directory) (ancestors ''out'')"
    by (simp add: ancestors.simps[of "''out''"] parent_path_def sb_disk_def)
  have h: "plain_directory ''out''" "w_answers sb_disk = []" "w_nodes sb_disk (append_path ''out'' ''sensorbridge.xml'') \<noteq> Some Directory"
    "holds_bytes sb_disk (append_path ''data'' ''sensorbridge_v1.xml'') ''1''" "sb_parser ''1'' = Inr [xml_at exact_literal 1 sb_v1]"
    "''1'' \<noteq> []" "length ''1'' \<le> 4 * 1024 * 1024"
    by (simp_all add: sb_disk_def plain_directory_def append_path_def holds_bytes_def sb_parser_def)
  note seen = sb_seen[folded sb_prints(1)]
  from sensorbridge_example_succeeds[where parser = sb_parser and print = sb_print and fmt = exact_literal,
      OF h(1,2) a h(3-5) sb_shipped h(6,7) exact_literal_ok sb_prints_back(1) sb_prints_back(2)[unfolded sb_operator_def] seen]
  show ?thesis by (simp add: append_path_def sb_prints)
qed

end
